(* ===== verification/Kernel_Prelude.thy ===== *)
theory Kernel_Prelude
  imports Main "HOL-Library.Word"
begin

text \<open>
  Shared vocabulary of the kernel model: the machine's integer types, the error numbers of
  \<^verbatim>\<open>sys/errno.h\<close> the modelled calls set in \<^verbatim>\<open>u.u_error\<close>, the collections of facts the component
  theories add to, and the generic lemmas on lists, intervals and words they share.
\<close>

section \<open>Machine integers and error numbers\<close>

type_synonym u8 = "8 word"
type_synonym u16 = "16 word"   \<comment> \<open>ushort, and short read with \<^verbatim>\<open>sint\<close>\<close>
type_synonym u32 = "32 word"   \<comment> \<open>unsigned long and unsigned int of the 68020\<close>

datatype errno =
    EPERM | ENOENT | EINTR | E2BIG | EBADF | EAGAIN | ENOMEM | EACCES | EFAULT | EEXIST
  | EIO | EROFS | EBUSY | EINVAL | ENFILE | EMFILE | EFBIG | ENOSPC | ERANGE | ENOMSG | EIDRM | EDEADLK | ESRCH | ECHILD

text \<open>
  How a system call, or the part of one up to its next \<^verbatim>\<open>sleep\<close>, ends: it returns a value or an
  error, it sleeps on a channel, or it would have accessed a table outside its bounds.
\<close>

datatype 'c outcome = Done int | Err errno | Sleep 'c | Wild

text \<open>C's division truncates towards zero; storing into a \<^verbatim>\<open>short\<close> keeps 16 bits.\<close>

definition c_quot :: "int \<Rightarrow> int \<Rightarrow> int" where
  "c_quot a b = sgn a * sgn b * (\<bar>a\<bar> div \<bar>b\<bar>)"

definition c_rem :: "int \<Rightarrow> int \<Rightarrow> int" where
  "c_rem a b = sgn a * (\<bar>a\<bar> mod \<bar>b\<bar>)"

definition to_short :: "int \<Rightarrow> int" where
  "to_short x = sint (word_of_int x :: u16)"

lemma to_short_id [simp]: "\<lbrakk>- 32768 \<le> x; x < 32768\<rbrakk> \<Longrightarrow> to_short x = x"
  by (simp add: to_short_def sint_sbintrunc' signed_take_bit_int_eq_self_iff)

lemma sint_u32_id: "\<lbrakk>- (2 ^ 31) \<le> x; x < 2 ^ 31\<rbrakk> \<Longrightarrow> sint (word_of_int x :: u32) = x"
  by (simp add: sint_sbintrunc' signed_take_bit_int_eq_self_iff)

definition to_long :: "int \<Rightarrow> int" where
  "to_long x = sint (word_of_int x :: u32)"

lemma to_long_id [simp]: "\<lbrakk>- (2 ^ 31) \<le> x; x < 2 ^ 31\<rbrakk> \<Longrightarrow> to_long x = x"
  unfolding to_long_def by (rule sint_u32_id)

lemma c_div_nonneg [simp]:
  "0 \<le> a \<Longrightarrow> 0 < b \<Longrightarrow> c_quot a b = a div b" "0 \<le> a \<Longrightarrow> 0 < b \<Longrightarrow> c_rem a b = a mod b"
  by (cases "a = 0"; simp add: c_quot_def c_rem_def)+

section \<open>Collections of facts\<close>

named_theorems unit_simps \<open>unfolding of allocation units and intervals\<close>
named_theorems wf_intros \<open>introduction rules for the components' invariants\<close>
named_theorems chan_simps \<open>equations for operations that wake sleepers\<close>

section \<open>Intervals\<close>

text \<open>A gap in a union of two parts cannot be crossed by an interval.\<close>

lemma interval_split:
  fixes b n :: nat
  assumes "{b..<b + n} \<subseteq> A \<union> B" "\<forall>x\<in>A. x < g" "\<forall>x\<in>B. g < x" "0 < n"
  shows "{b..<b + n} \<subseteq> A \<or> {b..<b + n} \<subseteq> B"
proof (cases "b + n \<le> g")
  case True
  have "x \<in> A" if "x \<in> {b..<b + n}" for x
    using that assms(1,3) True by (meson UnE atLeastLessThan_iff le_trans less_imp_le_nat not_less subsetD)
  then show ?thesis by blast
next
  case False
  have "g \<notin> {b..<b + n}" using assms(1,2,3) by blast
  with False have "g < b" by simp
  have "x \<in> B" if "x \<in> {b..<b + n}" for x
    using that assms(1,2) \<open>g < b\<close> by (meson UnE atLeastLessThan_iff le_less_trans less_imp_le_nat not_le subsetD)
  then show ?thesis by blast
qed

lemma interval_Diff_front [unit_simps]:
  fixes a :: nat
  assumes "n \<le> s"
  shows "{a..<a + s} - {a..<a + n} = {a + n..<a + s}"
  using assms by auto

section \<open>Lists\<close>

lemma takeWhile_append_stop [simp]:
  "\<lbrakk>\<forall>x\<in>set xs. P x; \<not> P y\<rbrakk> \<Longrightarrow> takeWhile P (xs @ y # ys) = xs"
  by (induction xs) auto

lemma takeWhile_append_replicate:
  "\<lbrakk>\<forall>x\<in>set xs. P x; \<not> P z\<rbrakk> \<Longrightarrow> takeWhile P (xs @ replicate (Suc k) z) = xs"
  by simp

lemma drop_append_exact [simp]: "drop (length xs) (xs @ ys) = ys"
  by simp

lemma list_update_append_last:
  "i = length xs \<Longrightarrow> (xs @ y # ys)[i := z] = xs @ z # ys"
  by simp

lemma replicate_Suc_append: "x # replicate n x = replicate n x @ [x]"
  by (simp add: replicate_append_same)

lemma butlast_last_append [simp]: "xs \<noteq> [] \<Longrightarrow> butlast xs @ last xs # ys = xs @ ys"
  by (cases xs rule: rev_cases) simp_all

lemma find_SomeD: "find P xs = Some x \<Longrightarrow> x \<in> set xs \<and> P x"
  by (auto simp: find_Some_iff)

lemma find_append: "find P (xs @ ys) = (case find P xs of None \<Rightarrow> find P ys | Some x \<Rightarrow> Some x)"
  by (induction xs) auto

section \<open>Words\<close>

lemma unat_plus_no_overflow:
  fixes a b :: "'a::len word"
  assumes "unat a + unat b < 2 ^ LENGTH('a)"
  shows "unat (a + b) = unat a + unat b"
  using assms by (simp add: unat_word_ariths)

lemma unat_minus_le:
  fixes a b :: "'a::len word"
  assumes "b \<le> a"
  shows "unat (a - b) = unat a - unat b"
  using assms by (simp add: unat_sub)

lemma unat_pos_iff: "0 < unat (w :: 'a::len word) \<longleftrightarrow> w \<noteq> 0"
  by (simp add: unat_eq_zero neq0_conv [symmetric] del: neq0_conv)

lemma u32_less: "unat (x :: u32) < 2 ^ 32"
  using unsigned_less [of x] by simp

lemma u32_add: "unat a + unat b < 2 ^ 32 \<Longrightarrow> unat (a + b :: u32) = unat a + unat b"
  by (rule unat_plus_no_overflow) simp

lemma u32_add_eq_iff:
  "unat a + unat b < 2 ^ 32 \<Longrightarrow> a + b = (c :: u32) \<longleftrightarrow> unat a + unat b = unat c"
  using u32_add [of a b] by (auto simp: word_unat_eq_iff)

end
