(* ===== verification/Run_Queue.thy ===== *)
theory Run_Queue
  imports Kernel_Prelude
begin

text \<open>
  The process table, the run queue and the sleep queues (\<^verbatim>\<open>sys/proc.h\<close>, \<^verbatim>\<open>sys/os/slp.c\<close>,
  \<^verbatim>\<open>sys/os/swtch.c\<close>). The runnable processes are linked through \<^verbatim>\<open>p_link\<close> from \<^verbatim>\<open>runq\<close>, the sleeping
  ones from the 64 heads of \<^verbatim>\<open>hsque\<close>, by the hash of the channel they sleep on. A process is its
  index in the table \<^verbatim>\<open>proc\<close>; a \<^verbatim>\<open>struct proc **\<close>, which the loops of slp.c step through a
  chain, is a \<open>cell\<close>: a head or the link field of a process. Following a chain that has no
  end, or a null pointer, is the result \<open>None\<close>; the theorems show that neither happens.
  \<open>queues\<close> says which lists of processes the links stand for; the operations are
  proved to be the list operations (removing the sleepers of a channel, adding in front,
  taking the best process) and, with the invariant \<open>sched_ok\<close>, to keep every process on
  the one queue its status names.
\<close>

unbundle bit_operations_syntax

section \<open>Processes\<close>

datatype pstat = PFREE | SSLEEP | SWAIT | SRUN | SIDL | SZOMB | SSTOP | SXBRK

record proc =
  p_stat :: pstat
  p_flag :: u32
  p_pri :: int
  p_inter :: int
  p_time :: int
  p_cpu :: int
  p_nice :: int
  p_uid :: nat
  p_suid :: nat
  p_pgrp :: int
  p_pid :: int
  p_ppid :: int
  p_sig :: u32
  p_wchan :: u32
  p_link :: "nat option"
  p_clktim :: int
  xp_utime :: int
  xp_stime :: int

definition SLOAD :: u32 where "SLOAD = 1"
definition SSYS :: u32 where "SSYS = 2"
definition SLOCK :: u32 where "SLOCK = 4"
definition SSWAP :: u32 where "SSWAP = 8"
definition STRC :: u32 where "STRC = 16"
definition SWTED :: u32 where "SWTED = 32"

definition PMASK :: u32 where "PMASK = 255"
definition PCATCH :: u32 where "PCATCH = 256"
definition PZERO :: int where "PZERO = 25"
definition NZERO :: int where "NZERO = 20"
definition PWAIT :: int where "PWAIT = 30"
definition PUSER :: int where "PUSER = 60"
definition PINTER :: int where "PINTER = 127"
definition PIDLE :: int where "PIDLE = 255"
definition SCHMAX :: int where "SCHMAX = 127"
definition MAXPID :: int where "MAXPID = 30000"
definition TZERO :: int where "TZERO = 10"
definition NSIG :: nat where "NSIG = 31"
definition NHSQUE :: nat where "NHSQUE = 64"

text \<open>The part of the u area the process code uses; each process has its own.\<close>

record user =
  u_signal :: "int list"
  u_error :: "errno option"
  u_uid :: nat
  u_ruid :: nat
  u_rval1 :: int
  u_utime :: int
  u_stime :: int
  u_cutime :: int
  u_cstime :: int

text \<open>
  The kernel's variables. \<open>parked\<close> has no variable of its own in the code: it holds
  between the call of \<^verbatim>\<open>swtch\<close> by the current process and its return in the process that is
  resumed, while only interrupts and the loop of \<^verbatim>\<open>swtch\<close> run.
\<close>

record sched =
  procs :: "proc list"
  users :: "user list"
  ve_proc :: nat
  runq :: "nat option"
  hsque :: "nat option list"
  curpri :: int
  curproc :: nat
  runrun :: u8
  runout :: u8
  panicstr :: bool
  u_procp :: nat
  parked :: bool
  mpid :: int

abbreviation pr :: "sched \<Rightarrow> nat \<Rightarrow> proc" where "pr st p \<equiv> procs st ! p"

definition links :: "sched \<Rightarrow> nat \<Rightarrow> nat option" where
  "links st p = p_link (pr st p)"

definition loaded :: "proc \<Rightarrow> bool" where
  "loaded p \<longleftrightarrow> p_flag p AND SLOAD \<noteq> 0"

definition upd :: "nat \<Rightarrow> (proc \<Rightarrow> proc) \<Rightarrow> sched \<Rightarrow> sched" where
  "upd p f st = st\<lparr>procs := (procs st)[p := f (pr st p)]\<rparr>"

text \<open>A free entry of the table, and the u area a process starts with.\<close>

definition free_entry :: proc where
  "free_entry = \<lparr>p_stat = PFREE, p_flag = 0, p_pri = 0, p_inter = 0, p_time = 0, p_cpu = 0, p_nice = 0,
     p_uid = 0, p_suid = 0, p_pgrp = 0, p_pid = 0, p_ppid = 0, p_sig = 0, p_wchan = 0, p_link = None,
     p_clktim = 0, xp_utime = 0, xp_stime = 0\<rparr>"

definition boot_user :: user where
  "boot_user = \<lparr>u_signal = replicate NSIG 0, u_error = None, u_uid = 0, u_ruid = 0, u_rval1 = 0,
     u_utime = 0, u_stime = 0, u_cutime = 0, u_cstime = 0\<rparr>"

section \<open>Cells\<close>

datatype cell = Runq | Hsque nat | Link nat

definition deref :: "sched \<Rightarrow> cell \<Rightarrow> nat option" where
  "deref st c = (case c of Runq \<Rightarrow> runq st | Hsque h \<Rightarrow> hsque st ! h | Link p \<Rightarrow> links st p)"

definition assign :: "cell \<Rightarrow> nat option \<Rightarrow> sched \<Rightarrow> sched" where
  "assign c v st = (case c of
      Runq \<Rightarrow> st\<lparr>runq := v\<rparr>
    | Hsque h \<Rightarrow> st\<lparr>hsque := (hsque st)[h := v]\<rparr>
    | Link p \<Rightarrow> upd p (p_link_update (\<lambda>_. v)) st)"

text \<open>\<^verbatim>\<open>sqhash\<close>: the signed shift of the pointer, its six low bits.\<close>

definition sqhash :: "u32 \<Rightarrow> nat" where
  "sqhash X = unat (signed_drop_bit 3 X AND 63)"

section \<open>slp.c\<close>

text \<open>The two statements that put a process in front of the run queue.\<close>

definition push_runq :: "nat \<Rightarrow> sched \<Rightarrow> sched" where
  "push_runq p st = assign Runq (Some p) (assign (Link p) (runq st) st)"

text \<open>\<^verbatim>\<open>setrq\<close>: a process already on the queue is left there (with a message).\<close>

partial_function (option) on_runq :: "nat option \<Rightarrow> nat \<Rightarrow> sched \<Rightarrow> bool option" where
  "on_runq q p st = (case q of
      None \<Rightarrow> Some False
    | Some r \<Rightarrow> if r = p then Some True else on_runq (links st r) p st)"

definition setrq :: "nat \<Rightarrow> sched \<Rightarrow> sched option" where
  "setrq p st = (case on_runq (runq st) p st of
      None \<Rightarrow> None
    | Some True \<Rightarrow> Some st
    | Some False \<Rightarrow> Some (push_runq p st))"

text \<open>\<^verbatim>\<open>setrun\<close>: the search through the sleep queue, taking the process off it, and the rest.\<close>

partial_function (option) find_cell :: "cell \<Rightarrow> nat \<Rightarrow> sched \<Rightarrow> cell option" where
  "find_cell q p st = (case deref st q of
      None \<Rightarrow> None
    | Some r \<Rightarrow> if r = p then Some q else find_cell (Link r) p st)"

definition take_off :: "nat \<Rightarrow> sched \<Rightarrow> sched option" where
  "take_off p st = (case find_cell (Hsque (sqhash (p_wchan (pr st p)))) p st of
      None \<Rightarrow> None
    | Some q \<Rightarrow> Some (upd p (p_wchan_update (\<lambda>_. 0)) (assign q (links st p) st)))"

partial_function (option) setrun :: "nat \<Rightarrow> sched \<Rightarrow> sched option" where
  "setrun p st =
    (if p_stat (pr st p) = SRUN then Some st
     else Option.bind (if p_stat (pr st p) = SSLEEP then take_off p st else Some st) (\<lambda>st1.
       let st2 = push_runq p (upd p (p_stat_update (\<lambda>_. SRUN)) st1)
       in if \<not> loaded (pr st2 p) then
            (let st3 = upd p (p_time_update (\<lambda>_. 0)) st2
             in if runout st3 \<noteq> 0 then setrun 0 (st3\<lparr>runout := 0\<rparr>) else Some st3)
          else if p_pri (pr st2 p) < curpri st2 then Some (st2\<lparr>runrun := runrun st2 + 1\<rparr>)
          else Some st2))"

text \<open>\<^verbatim>\<open>wakeup\<close>: the loop over the sleep queue of the channel; \<open>rs\<close> is its variable \<^verbatim>\<open>runsched\<close>.\<close>

definition wake_one :: "nat \<Rightarrow> sched \<Rightarrow> sched" where
  "wake_one p st =
    (if \<not> loaded (pr st p) then upd p (p_time_update (\<lambda>_. 0)) st
     else if p_pri (pr st p) < curpri st then st\<lparr>runrun := runrun st + 1\<rparr>
     else st)"

partial_function (option) wakeup_loop :: "cell \<Rightarrow> u32 \<Rightarrow> bool \<Rightarrow> sched \<Rightarrow> (bool \<times> sched) option" where
  "wakeup_loop q chan rs st = (case deref st q of
      None \<Rightarrow> Some (rs, st)
    | Some p \<Rightarrow>
        if p_wchan (pr st p) = chan \<and> p_stat (pr st p) = SSLEEP then
          (let st1 = upd p (\<lambda>x. x\<lparr>p_stat := SRUN, p_wchan := 0\<rparr>) st;
               st2 = push_runq p (assign q (links st1 p) st1)
           in wakeup_loop q chan (rs \<or> (\<not> loaded (pr st2 p) \<and> runout st2 \<noteq> 0)) (wake_one p st2))
        else wakeup_loop (Link p) chan rs st)"

definition wakeup :: "u32 \<Rightarrow> sched \<Rightarrow> sched option" where
  "wakeup chan st = Option.bind (wakeup_loop (Hsque (sqhash chan)) chan False st) (\<lambda>(rs, st1).
     if rs then setrun 0 (st1\<lparr>runout := 0\<rparr>) else Some st1)"

text \<open>The first part of \<^verbatim>\<open>sleep\<close>: the process goes to sleep in front of its queue.\<close>

definition sleep_enq :: "u32 \<Rightarrow> u32 \<Rightarrow> sched \<Rightarrow> sched" where
  "sleep_enq chan disp st =
    (let rp = u_procp st; q = Hsque (sqhash chan);
         st1 = upd rp (\<lambda>x. x\<lparr>p_stat := SSLEEP, p_wchan := chan\<rparr>) st;
         st2 = assign q (Some rp) (assign (Link rp) (deref st1 q) st1)
     in upd rp (\<lambda>x. x\<lparr>p_time := (if p_time x > TZERO then TZERO else p_time x),
                      p_pri := uint (disp AND PMASK)\<rparr>) st2)"

section \<open>swtch.c\<close>

text \<open>
  The search of \<^verbatim>\<open>swtch\<close>: \<open>best\<close> holds its variables \<^verbatim>\<open>pp\<close>, \<^verbatim>\<open>pq\<close> (once there is a candidate), \<open>n\<close>
  the priority to beat. After a panic only the interrupted process may go on.
\<close>

partial_function (option) swtch_scan ::
  "nat option \<Rightarrow> nat option \<Rightarrow> (nat \<times> nat option) option \<Rightarrow> int \<Rightarrow> sched \<Rightarrow>
   ((nat \<times> nat option) option \<times> int) option" where
  "swtch_scan r q best n st = (case r of
      None \<Rightarrow> Some (best, n)
    | Some p \<Rightarrow>
        if loaded (pr st p) \<and> p_pri (pr st p) \<le> n
        then swtch_scan (links st p) (Some p) (Some (p, q)) (p_pri (pr st p)) st
        else swtch_scan (links st p) (Some p) best n st)"

partial_function (option) panic_scan ::
  "nat option \<Rightarrow> nat option \<Rightarrow> sched \<Rightarrow> ((nat \<times> nat option) option \<times> int) option" where
  "panic_scan r q st = (case r of
      None \<Rightarrow> Some (None, 256)
    | Some p \<Rightarrow>
        if loaded (pr st p) \<and> p = curproc st then Some (Some (p, q), p_pri (pr st p))
        else panic_scan (links st p) (Some p) st)"

text \<open>
  One pass of the loop of \<^verbatim>\<open>swtch\<close>. With no candidate the machine idles, to be tried again
  after an interrupt; otherwise the chosen process leaves the queue and is resumed.
\<close>

definition swtch :: "sched \<Rightarrow> sched option" where
  "swtch st =
    (let st0 = st\<lparr>runrun := 0\<rparr>
     in Option.bind (if panicstr st0 then panic_scan (runq st0) None st0
                     else swtch_scan (runq st0) None None 256 st0) (\<lambda>(best, n).
       case best of
         None \<Rightarrow> Some (st0\<lparr>curpri := PIDLE\<rparr>)
       | Some (p, pq) \<Rightarrow>
           let st1 = assign (case pq of None \<Rightarrow> Runq | Some q \<Rightarrow> Link q) (links st0 p) st0;
               st2 = st1\<lparr>curpri := n, curproc := p\<rparr>;
               st3 = upd p (p_flag_update (\<lambda>f. f AND NOT SSWAP)) st2
           in Some (st3\<lparr>u_procp := p, parked := False\<rparr>)))"

definition qswtch :: "sched \<Rightarrow> sched option" where
  "qswtch st = map_option (\<lambda>st1. st1\<lparr>parked := True\<rparr>) (setrq (u_procp st) st)"

section \<open>Chains\<close>

fun chain :: "(nat \<Rightarrow> nat option) \<Rightarrow> nat option \<Rightarrow> nat list \<Rightarrow> bool" where
  "chain lk r [] \<longleftrightarrow> r = None"
| "chain lk r (x # xs) \<longleftrightarrow> r = Some x \<and> chain lk (lk x) xs"

fun walk :: "nat \<Rightarrow> (nat \<Rightarrow> nat option) \<Rightarrow> nat option \<Rightarrow> nat list" where
  "walk 0 lk r = []"
| "walk (Suc k) lk r = (case r of None \<Rightarrow> [] | Some x \<Rightarrow> x # walk k lk (lk x))"

lemma chain_update [simp]: "p \<notin> set xs \<Longrightarrow> chain (lk(p := v)) r xs \<longleftrightarrow> chain lk r xs"
  by (induction xs arbitrary: r) auto

lemma chain_None [simp]: "chain lk None xs \<longleftrightarrow> xs = []"
  by (cases xs) auto

lemma chain_unique: "\<lbrakk>chain lk r xs; chain lk r ys\<rbrakk> \<Longrightarrow> xs = ys"
proof (induction xs arbitrary: r ys)
  case (Cons x xs)
  then show ?case by (cases ys) auto
qed simp

lemma chain_suffix: "chain lk r (xs @ y # ys) \<Longrightarrow> chain lk (Some y) (y # ys)"
  by (induction xs arbitrary: r) auto

lemma chain_distinct: "chain lk r xs \<Longrightarrow> distinct xs"
proof (rule ccontr)
  assume c: "chain lk r xs" and "\<not> distinct xs"
  then obtain ys y zs us where xs: "xs = ys @ [y] @ zs @ [y] @ us"
    using not_distinct_decomp by blast
  have "chain lk (Some y) (y # zs @ y # us)"
    using c chain_suffix [of lk r ys y "zs @ y # us"] xs by simp
  moreover have "chain lk (Some y) (y # us)"
    using c chain_suffix [of lk r "ys @ y # zs" y us] xs by simp
  ultimately have "y # zs @ y # us = y # us" by (rule chain_unique)
  then have "length (y # zs @ y # us) = length (y # us)" by (rule arg_cong)
  then show False by simp
qed

lemma chain_walk: "\<lbrakk>chain lk r xs; length xs \<le> k\<rbrakk> \<Longrightarrow> walk k lk r = xs"
proof (induction xs arbitrary: r k)
  case Nil
  then show ?case by (cases k) auto
next
  case (Cons x xs)
  then obtain k' where "k = Suc k'" by (cases k) auto
  with Cons show ?case by simp
qed

lemma chain_tail: "chain lk r (pre @ rest) \<Longrightarrow> chain lk (if pre = [] then r else lk (last pre)) rest"
  by (induction pre arbitrary: r) auto

lemma chain_relink:
  "\<lbrakk>chain lk r (pre @ rest); pre \<noteq> []; distinct pre; last pre \<notin> set rest'; chain lk v rest'\<rbrakk>
   \<Longrightarrow> chain (lk(last pre := v)) r (pre @ rest')"
proof (induction pre arbitrary: r)
  case (Cons x xs)
  show ?case
  proof (cases "xs = []")
    case True
    then show ?thesis using Cons.prems by (simp add: fun_upd_same del: fun_upd_apply)
  next
    case False
    moreover have "last xs \<noteq> x" using Cons.prems(3) False by auto
    moreover have "chain (lk(last xs := v)) (lk x) (xs @ rest')"
      by (rule Cons.IH) (use Cons.prems False in auto)
    ultimately show ?thesis using Cons.prems(1) by (simp add: fun_upd_other del: fun_upd_apply)
  qed
qed simp

section \<open>What the links stand for\<close>

definition heads :: "cell set" where
  "heads = insert Runq (Hsque ` {..<NHSQUE})"

lemma heads_iff [simp]: "Runq \<in> heads" "Hsque h \<in> heads \<longleftrightarrow> h < NHSQUE" "Link p \<notin> heads"
  by (auto simp: heads_def)

text \<open>
  \<open>queues st L\<close>: the chain from each head \<open>k\<close> is the list \<open>L k\<close> of processes of the table, and
  no process is in two of them.
\<close>

definition queues :: "sched \<Rightarrow> (cell \<Rightarrow> nat list) \<Rightarrow> bool" where
  "queues st L \<longleftrightarrow> length (hsque st) = NHSQUE
     \<and> (\<forall>k\<in>heads. chain (links st) (deref st k) (L k) \<and> set (L k) \<subseteq> {..<length (procs st)})
     \<and> (\<forall>k\<in>heads. \<forall>k'\<in>heads. k \<noteq> k' \<longrightarrow> set (L k) \<inter> set (L k') = {})"

lemma queuesD:
  assumes "queues st L"
  shows "length (hsque st) = NHSQUE" "k \<in> heads \<Longrightarrow> chain (links st) (deref st k) (L k)"
    "k \<in> heads \<Longrightarrow> p \<in> set (L k) \<Longrightarrow> p < length (procs st)" "k \<in> heads \<Longrightarrow> distinct (L k)"
    "\<lbrakk>k \<in> heads; k' \<in> heads; p \<in> set (L k); p \<in> set (L k')\<rbrakk> \<Longrightarrow> k = k'"
proof -
  show "length (hsque st) = NHSQUE" using assms by (simp add: queues_def)
  show c: "chain (links st) (deref st k) (L k)" if "k \<in> heads" for k
    using assms that by (simp add: queues_def)
  show "p < length (procs st)" if "k \<in> heads" "p \<in> set (L k)"
    using assms that by (auto simp: queues_def)
  show "distinct (L k)" if "k \<in> heads" using c [OF that] by (rule chain_distinct)
  show "k = k'" if "k \<in> heads" "k' \<in> heads" "p \<in> set (L k)" "p \<in> set (L k')"
    using assms that unfolding queues_def by blast
qed

definition at_cell :: "cell \<Rightarrow> nat list \<Rightarrow> cell" where
  "at_cell k pre = (if pre = [] then k else Link (last pre))"

lemma at_cell_simps [simp]: "at_cell k [] = k" "at_cell k (pre @ [p]) = Link p"
  by (simp_all add: at_cell_def)

lemma length_procs [simp]: "length (procs (assign c v st)) = length (procs st)"
    "length (procs (upd p f st)) = length (procs st)"
  by (auto simp: assign_def upd_def split: cell.split)

lemma links_upd: "p < length (procs st) \<Longrightarrow> links (upd p f st) = (links st)(p := p_link (f (pr st p)))"
  by (auto simp: fun_eq_iff links_def upd_def nth_list_update)

lemma heads_upd [simp]: "runq (upd p f st) = runq st" "hsque (upd p f st) = hsque st"
  by (simp_all add: upd_def)

lemma links_assign:
  "links (assign Runq v st) = links st" "links (assign (Hsque h) v st) = links st"
  "p < length (procs st) \<Longrightarrow> links (assign (Link p) v st) = (links st)(p := v)"
  by (simp_all add: assign_def links_upd) (simp_all add: links_def fun_eq_iff)

lemma deref_assign:
  "deref (assign Runq v st) Runq = v"
  "deref (assign Runq v st) (Hsque h) = deref st (Hsque h)"
  "h < length (hsque st) \<Longrightarrow>
     deref (assign (Hsque h) v st) (Hsque h') = (if h' = h then v else deref st (Hsque h'))"
  "deref (assign (Hsque h) v st) Runq = deref st Runq"
  "deref (assign (Link p) v st) Runq = deref st Runq"
  "deref (assign (Link p) v st) (Hsque h) = deref st (Hsque h)"
  by (simp_all add: deref_def assign_def)

lemma deref_head_assign:
  assumes "k \<in> heads" "k' \<in> heads" "length (hsque st) = NHSQUE"
  shows "deref (assign k v st) k' = (if k' = k then v else deref st k')"
  using assms by (cases k; cases k') (auto simp: deref_assign)

lemma links_head_assign [simp]: "k \<in> heads \<Longrightarrow> links (assign k v st) = links st"
  by (cases k) (simp_all add: links_assign)

lemma deref_link_assign [simp]: "k \<in> heads \<Longrightarrow> deref (assign (Link p) v st) k = deref st k"
  by (cases k) (simp_all add: deref_assign)

lemma hsque_assign [simp]: "length (hsque (assign c v st)) = length (hsque st)"
  by (simp add: assign_def split: cell.split)

text \<open>The cell in front of a process holds it, and writing the process's link there removes it.\<close>

lemma deref_at:
  assumes "queues st L" "k \<in> heads" "L k = pre @ rest"
  shows "deref st (at_cell k pre) = (case rest of [] \<Rightarrow> None | p # _ \<Rightarrow> Some p)"
proof -
  have "chain (links st) (if pre = [] then deref st k else links st (last pre)) rest"
    using queuesD(2) [OF assms(1,2)] assms(3) by (simp add: chain_tail)
  then have "chain (links st) (deref st (at_cell k pre)) rest"
    by (simp add: at_cell_def deref_def split: if_splits)
  then show ?thesis by (cases rest) auto
qed

lemma queuesI:
  assumes "length (hsque st) = NHSQUE"
    and "\<And>k. k \<in> heads \<Longrightarrow> chain (links st) (deref st k) (L k)"
    and "\<And>k p. k \<in> heads \<Longrightarrow> p \<in> set (L k) \<Longrightarrow> p < length (procs st)"
    and "\<And>k k' p. \<lbrakk>k \<in> heads; k' \<in> heads; p \<in> set (L k); p \<in> set (L k')\<rbrakk> \<Longrightarrow> k = k'"
  shows "queues st L"
  unfolding queues_def using assms by blast

lemma queues_cong:
  assumes "queues st L" "links st' = links st" "runq st' = runq st" "hsque st' = hsque st"
    "length (procs st') = length (procs st)"
  shows "queues st' L"
proof -
  have "deref st' = deref st" using assms by (auto simp: deref_def fun_eq_iff split: cell.split)
  with assms show ?thesis by (simp add: queues_def)
qed

lemma unlink:
  assumes q: "queues st L" and k: "k \<in> heads" and L: "L k = pre @ p # post"
  shows "queues (assign (at_cell k pre) (links st p) st) (L(k := pre @ post))" (is "queues ?st ?L")
proof (rule queuesI)
  have d: "distinct (pre @ p # post)" using queuesD(4) [OF q k] L by simp
  have post: "chain (links st) (links st p) post"
    using queuesD(2) [OF q k] L chain_tail [of "links st" "deref st k" "pre @ [p]" post] by simp
  have lt: "last pre < length (procs st)" if "pre \<noteq> []"
    using queuesD(3) [OF q k, of "last pre"] that L by simp
  show "length (hsque ?st) = NHSQUE" using queuesD(1) [OF q] by simp
  show "x < length (procs ?st)" if "j \<in> heads" "x \<in> set (?L j)" for j x
    using queuesD(3) [OF q that(1), of x] that(2) L by (auto split: if_splits)
  show "j = j'" if "j \<in> heads" "j' \<in> heads" "x \<in> set (?L j)" "x \<in> set (?L j')" for j j' x
    using queuesD(5) [OF q that(1,2), of x] that(3,4) L by (auto split: if_splits)
  show "chain (links ?st) (deref ?st j) (?L j)" if j: "j \<in> heads" for j
  proof (cases "pre = []")
    case True
    then show ?thesis
      using k j L post queuesD(1) [OF q] queuesD(2) [OF q j] by (simp add: deref_head_assign)
  next
    case False
    then have notin: "last pre \<notin> set (L j)" if "j \<noteq> k"
      using queuesD(5) [OF q j k, of "last pre"] L that by auto
    have "last pre \<in> set pre" using False by simp
    then have np: "last pre \<notin> set post" using d by auto
    have "chain ((links st)(last pre := links st p)) (deref st k) (pre @ post)"
      using chain_relink [OF _ False, of "links st" "deref st k" "p # post" post "links st p"]
        queuesD(2) [OF q k] L d np post by simp
    then show ?thesis
      using False j lt notin queuesD(2) [OF q j] by (auto simp: at_cell_def links_assign)
  qed
qed

lemma push_head:
  assumes q: "queues st L" and k: "k \<in> heads" and p: "p < length (procs st)"
    and free: "\<And>j. j \<in> heads \<Longrightarrow> p \<notin> set (L j)"
  shows "queues (assign k (Some p) (assign (Link p) (deref st k) st)) (L(k := p # L k))"
    (is "queues ?st ?L")
proof (rule queuesI)
  let ?s = "assign (Link p) (deref st k) st"
  have h: "length (hsque ?s) = NHSQUE" using queuesD(1) [OF q] by simp
  show "length (hsque ?st) = NHSQUE" using h by simp
  show "x < length (procs ?st)" if "j \<in> heads" "x \<in> set (?L j)" for j x
    using queuesD(3) [OF q that(1), of x] that(2) p by (auto split: if_splits)
  show "j = j'" if "j \<in> heads" "j' \<in> heads" "x \<in> set (?L j)" "x \<in> set (?L j')" for j j' x
    using queuesD(5) [OF q that(1,2), of x] free [OF that(1)] free [OF that(2)] that(3,4)
    by (auto split: if_splits)
  show "chain (links ?st) (deref ?st j) (?L j)" if j: "j \<in> heads" for j
    using k j p h free [OF j] free [OF k] queuesD(2) [OF q j]
    by (auto simp: deref_head_assign links_assign)
qed

section \<open>Everything but the links\<close>

definition bare :: "sched \<Rightarrow> sched" where
  "bare st = st\<lparr>procs := map (p_link_update (\<lambda>_. None)) (procs st), runq := None, hsque := []\<rparr>"

lemma map_update_same: "(map f xs)[i := f (xs ! i)] = map f xs"
  by (simp add: map_update [symmetric])

lemma bare_assign [simp]: "bare (assign c v st) = bare st"
  using map_update_same [of "p_link_update (\<lambda>_. None)" "procs st"]
  by (auto simp: bare_def assign_def upd_def map_update split: cell.split)

lemma bare_push [simp]: "bare (push_runq p st) = bare st"
  by (simp add: push_runq_def)

lemma bare_upd:
  assumes "\<And>x. p_link_update (\<lambda>_. None) (f x) = f (p_link_update (\<lambda>_. None) x)" "p < length (procs st)"
  shows "bare (upd p f st) = upd p f (bare st)"
  using assms by (simp add: bare_def upd_def map_update)

lemma bare_fields [simp]:
  "users (bare st) = users st" "ve_proc (bare st) = ve_proc st" "curpri (bare st) = curpri st"
  "curproc (bare st) = curproc st" "runrun (bare st) = runrun st" "runout (bare st) = runout st"
  "panicstr (bare st) = panicstr st" "u_procp (bare st) = u_procp st"
  "parked (bare st) = parked st" "mpid (bare st) = mpid st" "length (procs (bare st)) = length (procs st)"
  by (simp_all add: bare_def)

lemma bare_proc:
  "p < length (procs st) \<Longrightarrow> pr (bare st) p = p_link_update (\<lambda>_. None) (pr st p)"
  by (simp add: bare_def)

lemma bare_update [simp]:
  "bare (st\<lparr>runrun := r\<rparr>) = (bare st)\<lparr>runrun := r\<rparr>" "bare (st\<lparr>runout := r\<rparr>) = (bare st)\<lparr>runout := r\<rparr>"
  "bare (st\<lparr>parked := b\<rparr>) = (bare st)\<lparr>parked := b\<rparr>" "bare (st\<lparr>curpri := n\<rparr>) = (bare st)\<lparr>curpri := n\<rparr>"
  "bare (st\<lparr>curproc := p\<rparr>) = (bare st)\<lparr>curproc := p\<rparr>" "bare (st\<lparr>u_procp := p\<rparr>) = (bare st)\<lparr>u_procp := p\<rparr>"
  "bare (st\<lparr>users := us\<rparr>) = (bare st)\<lparr>users := us\<rparr>" "bare (st\<lparr>ve_proc := p\<rparr>) = (bare st)\<lparr>ve_proc := p\<rparr>"
  "bare (st\<lparr>mpid := n\<rparr>) = (bare st)\<lparr>mpid := n\<rparr>"
  by (simp_all add: bare_def)

lemma bare_eqD:
  assumes "bare st = bare st'"
  shows "length (procs st) = length (procs st')"
    "p < length (procs st) \<Longrightarrow> p_stat (pr st p) = p_stat (pr st' p)"
    "p < length (procs st) \<Longrightarrow> p_wchan (pr st p) = p_wchan (pr st' p)"
    "p < length (procs st) \<Longrightarrow> p_flag (pr st p) = p_flag (pr st' p)"
    "p < length (procs st) \<Longrightarrow> p_pri (pr st p) = p_pri (pr st' p)"
    "u_procp st = u_procp st'" "parked st = parked st'"
proof -
  show l: "length (procs st) = length (procs st')" "u_procp st = u_procp st'" "parked st = parked st'"
    using arg_cong [OF assms, of "\<lambda>s. length (procs s)"] arg_cong [OF assms, of u_procp]
      arg_cong [OF assms, of parked] by simp_all
  have "p_link_update (\<lambda>_. None) (pr st p) = p_link_update (\<lambda>_. None) (pr st' p)"
    if "p < length (procs st)"
    using arg_cong [OF assms, of "\<lambda>s. pr s p"] that l(1) by (simp add: bare_proc)
  then have e: "f (p_link_update (\<lambda>_. None) (pr st p)) = f (p_link_update (\<lambda>_. None) (pr st' p))"
    if "p < length (procs st)" for f :: "proc \<Rightarrow> 'z"
    using that by simp
  show "p < length (procs st) \<Longrightarrow> p_stat (pr st p) = p_stat (pr st' p)"
    using e [of p_stat] by simp
  show "p < length (procs st) \<Longrightarrow> p_wchan (pr st p) = p_wchan (pr st' p)"
    using e [of p_wchan] by simp
  show "p < length (procs st) \<Longrightarrow> p_flag (pr st p) = p_flag (pr st' p)"
    using e [of p_flag] by simp
  show "p < length (procs st) \<Longrightarrow> p_pri (pr st p) = p_pri (pr st' p)"
    using e [of p_pri] by simp
qed

section \<open>wakeup\<close>

definition woken :: "nat \<Rightarrow> sched \<Rightarrow> sched" where
  "woken p s = wake_one p (upd p (\<lambda>x. x\<lparr>p_stat := SRUN, p_wchan := 0\<rparr>) s)"

lemma pr_upd: "p < length (procs st) \<Longrightarrow> pr (upd p f st) x = (if x = p then f (pr st p) else pr st x)"
  by (simp add: upd_def)

lemma upd_other [simp]: "x \<noteq> p \<Longrightarrow> pr (upd p f st) x = pr st x"
  by (simp add: upd_def)

lemma links_fields [simp]:
  "links (st\<lparr>runrun := r\<rparr>) = links st" "links (st\<lparr>runout := r\<rparr>) = links st"
  "links (st\<lparr>parked := b\<rparr>) = links st" "links (st\<lparr>curpri := n\<rparr>) = links st"
  "links (st\<lparr>curproc := p\<rparr>) = links st" "links (st\<lparr>u_procp := p\<rparr>) = links st"
  "links (st\<lparr>users := us\<rparr>) = links st" "links (st\<lparr>ve_proc := p\<rparr>) = links st"
  "links (st\<lparr>mpid := n\<rparr>) = links st" "links (st\<lparr>runq := q\<rparr>) = links st"
  by (simp_all add: links_def fun_eq_iff)

lemma upd_fields [simp]:
  "users (upd p f st) = users st" "ve_proc (upd p f st) = ve_proc st" "curpri (upd p f st) = curpri st"
  "curproc (upd p f st) = curproc st" "runrun (upd p f st) = runrun st" "runout (upd p f st) = runout st"
  "panicstr (upd p f st) = panicstr st" "u_procp (upd p f st) = u_procp st"
  "parked (upd p f st) = parked st" "mpid (upd p f st) = mpid st"
  by (simp_all add: upd_def)

lemma assign_fields [simp]:
  "users (assign c v st) = users st" "ve_proc (assign c v st) = ve_proc st"
  "curpri (assign c v st) = curpri st" "curproc (assign c v st) = curproc st"
  "runrun (assign c v st) = runrun st" "runout (assign c v st) = runout st"
  "panicstr (assign c v st) = panicstr st" "u_procp (assign c v st) = u_procp st"
  "parked (assign c v st) = parked st" "mpid (assign c v st) = mpid st"
  by (simp_all add: assign_def split: cell.split)

lemma links_upd_same: "(\<And>x. p_link (f x) = p_link x) \<Longrightarrow> links (upd p f st) = links st"
  by (cases "p < length (procs st)")
     (auto simp: upd_def links_def nth_list_update list_update_beyond fun_eq_iff)

lemma wake_one_links [simp]:
  "links (wake_one p st) = links st" "runq (wake_one p st) = runq st" "hsque (wake_one p st) = hsque st"
  "length (procs (wake_one p st)) = length (procs st)" "runout (wake_one p st) = runout st"
  by (simp_all add: wake_one_def links_upd_same)

lemma queues_wake_one: "queues st L \<Longrightarrow> queues (wake_one p st) L"
  by (erule queues_cong) simp_all

lemma loaded_bare: "p < length (procs st) \<Longrightarrow> loaded (pr (bare st) p) \<longleftrightarrow> loaded (pr st p)"
  by (simp add: bare_proc loaded_def)

lemma bare_wake_one:
  assumes "p < length (procs st)"
  shows "bare (wake_one p st) = wake_one p (bare st)"
proof -
  have "bare (upd p (p_time_update (\<lambda>_. 0)) st) = upd p (p_time_update (\<lambda>_. 0)) (bare st)"
    by (rule bare_upd) (simp_all add: assms)
  moreover have "p_pri (pr (bare st) p) = p_pri (pr st p)" using assms by (simp add: bare_proc)
  ultimately show ?thesis using assms by (simp add: wake_one_def loaded_bare)
qed

lemma woken_other [simp]:
  assumes "x \<noteq> p"
  shows "pr (woken p s) x = pr s x"
  using assms by (simp add: woken_def wake_one_def)

lemma woken_fields [simp]:
  "length (procs (woken p s)) = length (procs s)" "runout (woken p s) = runout s"
  "curpri (woken p s) = curpri s" "u_procp (woken p s) = u_procp s" "parked (woken p s) = parked s"
  "curproc (woken p s) = curproc s" "panicstr (woken p s) = panicstr s" "users (woken p s) = users s"
  "ve_proc (woken p s) = ve_proc s" "mpid (woken p s) = mpid s"
  by (simp_all add: woken_def wake_one_def)

lemma at_cell_snoc: "Link p = at_cell k (pre @ [p])"
  by simp

lemma wakeup_loop_spec:
  assumes "queues st L" "h < NHSQUE" "L (Hsque h) = pre @ rest"
    and "\<forall>p\<in>set rest. p_stat (pr st p) = SSLEEP"
  shows "\<exists>st'. wakeup_loop (at_cell (Hsque h) pre) chan rs st =
         Some (rs \<or> (runout st \<noteq> 0 \<and> (\<exists>p\<in>set rest. p_wchan (pr st p) = chan \<and> \<not> loaded (pr st p))), st')
       \<and> queues st' (L(Hsque h := pre @ filter (\<lambda>p. p_wchan (pr st p) \<noteq> chan) rest,
             Runq := rev (filter (\<lambda>p. p_wchan (pr st p) = chan) rest) @ L Runq))
       \<and> bare st' = fold woken (filter (\<lambda>p. p_wchan (pr st p) = chan) rest) (bare st)"
  using assms
proof (induction rest arbitrary: pre st L rs)
  case Nil
  then have "deref st (at_cell (Hsque h) pre) = None" using deref_at [of st L "Hsque h" pre "[]"] by simp
  moreover have "L(Hsque h := pre, Runq := L Runq) = L" using Nil.prems(3) by auto
  ultimately show ?case using Nil.prems(1) by (simp add: wakeup_loop.simps del: fun_upd_apply)
next
  case (Cons p rest)
  note q = Cons.prems(1) and h = Cons.prems(2) and L = Cons.prems(3)
  have k: "Hsque h \<in> heads" using h by simp
  have d: "deref st (at_cell (Hsque h) pre) = Some p" using deref_at [OF q k L] by simp
  have p: "p < length (procs st)" using queuesD(3) [OF q k] L by simp
  have dist: "distinct (pre @ p # rest)" using queuesD(4) [OF q k] L by simp
  show ?case
  proof (cases "p_wchan (pr st p) = chan")
    case False
    have "\<exists>st'. wakeup_loop (at_cell (Hsque h) (pre @ [p])) chan rs st =
         Some (rs \<or> (runout st \<noteq> 0 \<and> (\<exists>p\<in>set rest. p_wchan (pr st p) = chan \<and> \<not> loaded (pr st p))), st')
       \<and> queues st' (L(Hsque h := (pre @ [p]) @ filter (\<lambda>p. p_wchan (pr st p) \<noteq> chan) rest,
             Runq := rev (filter (\<lambda>p. p_wchan (pr st p) = chan) rest) @ L Runq))
       \<and> bare st' = fold woken (filter (\<lambda>p. p_wchan (pr st p) = chan) rest) (bare st)"
      by (rule Cons.IH) (use Cons.prems in simp_all)
    then show ?thesis using False d by (simp add: wakeup_loop.simps [of "at_cell (Hsque h) pre"] del: fun_upd_apply)
  next
    case True
    define st1 where "st1 = upd p (\<lambda>x. x\<lparr>p_stat := SRUN, p_wchan := 0\<rparr>) st"
    define st2 where "st2 = push_runq p (assign (at_cell (Hsque h) pre) (links st1 p) st1)"
    define L2 where "L2 = L(Hsque h := pre @ rest, Runq := p # L Runq)"
    have q1: "queues st1 L"
      by (rule queues_cong [OF q]) (auto simp: st1_def links_upd [OF p] links_def)
    have q2: "queues st2 L2"
    proof -
      let ?s = "assign (at_cell (Hsque h) pre) (links st1 p) st1"
      have s: "queues ?s (L(Hsque h := pre @ rest))" by (rule unlink [OF q1 k L])
      have "queues (assign Runq (Some p) (assign (Link p) (deref ?s Runq) ?s))
              ((L(Hsque h := pre @ rest))(Runq := p # (L(Hsque h := pre @ rest)) Runq))"
      proof (rule push_head [OF s])
        show "p < length (procs ?s)" using p by (simp add: st1_def)
        show "p \<notin> set ((L(Hsque h := pre @ rest)) j)" if "j \<in> heads" for j
          using queuesD(5) [OF q k that, of p] L dist by auto
      qed simp
      then show ?thesis by (simp add: st2_def L2_def push_runq_def deref_def)
    qed
    have b2: "bare st2 = upd p (\<lambda>x. x\<lparr>p_stat := SRUN, p_wchan := 0\<rparr>) (bare st)"
      unfolding st2_def bare_push bare_assign st1_def by (rule bare_upd) (simp_all add: p)
    have len2: "length (procs st2) = length (procs st)" by (simp add: st2_def push_runq_def st1_def)
    have b3: "bare (wake_one p st2) = woken p (bare st)"
      using p len2 by (simp add: bare_wake_one b2 woken_def)
    have same: "f (pr (wake_one p st2) x) = f (pr st x)"
      if "x \<in> set rest" "\<And>y. f (p_link_update (\<lambda>_. None) y) = f y" for x and f :: "proc \<Rightarrow> 'z"
    proof -
      have x: "x < length (procs st)" using queuesD(3) [OF q k] L that(1) by simp
      have "x \<noteq> p" using dist that(1) by auto
      then have "pr (bare (wake_one p st2)) x = pr (bare st) x" by (simp add: b3)
      then have "p_link_update (\<lambda>_. None) (pr (wake_one p st2) x) = p_link_update (\<lambda>_. None) (pr st x)"
        using x len2 by (simp add: bare_proc)
      then have "f (p_link_update (\<lambda>_. None) (pr (wake_one p st2) x)) = f (p_link_update (\<lambda>_. None) (pr st x))"
        by simp
      then show ?thesis by (simp only: that(2))
    qed
    have wch: "p_wchan (pr (wake_one p st2) x) = p_wchan (pr st x)"
      and stt: "p_stat (pr (wake_one p st2) x) = p_stat (pr st x)"
      and ld: "loaded (pr (wake_one p st2) x) = loaded (pr st x)" if "x \<in> set rest" for x
      using same [OF that, of p_wchan] same [OF that, of p_stat] same [OF that, of loaded]
      by (simp_all add: loaded_def)
    have flt: "filter (\<lambda>x. p_wchan (pr (wake_one p st2) x) = chan) rest = filter (\<lambda>x. p_wchan (pr st x) = chan) rest"
      "filter (\<lambda>x. p_wchan (pr (wake_one p st2) x) \<noteq> chan) rest = filter (\<lambda>x. p_wchan (pr st x) \<noteq> chan) rest"
      by (auto intro!: filter_cong simp: wch)
    have ex: "(\<exists>x\<in>set rest. p_wchan (pr (wake_one p st2) x) = chan \<and> \<not> loaded (pr (wake_one p st2) x))
        \<longleftrightarrow> (\<exists>x\<in>set rest. p_wchan (pr st x) = chan \<and> \<not> loaded (pr st x))"
      by (auto simp: wch ld)
    have ro: "runout st2 = runout st" using arg_cong [OF b2, of runout] by simp
    have ldp: "loaded (pr st2 p) = loaded (pr st p)"
    proof -
      have "pr (bare st2) p = (pr (bare st) p)\<lparr>p_stat := SRUN, p_wchan := 0\<rparr>"
        using p by (simp add: b2 pr_upd)
      then have "p_flag (pr (bare st2) p) = p_flag (pr (bare st) p)" by simp
      then show ?thesis using p len2 by (simp add: bare_proc loaded_def)
    qed
    let ?rs = "rs \<or> (\<not> loaded (pr st2 p) \<and> runout st2 \<noteq> 0)"
    have step: "wakeup_loop (at_cell (Hsque h) pre) chan rs st
        = wakeup_loop (at_cell (Hsque h) pre) chan ?rs (wake_one p st2)"
      using d True Cons.prems(4) by (subst wakeup_loop.simps) (simp add: Let_def st1_def st2_def)
    have upd2: "L2(Hsque h := pre @ filter (\<lambda>x. p_wchan (pr st x) \<noteq> chan) rest,
        Runq := rev (filter (\<lambda>x. p_wchan (pr st x) = chan) rest) @ L2 Runq)
      = L(Hsque h := pre @ filter (\<lambda>x. p_wchan (pr st x) \<noteq> chan) (p # rest),
        Runq := rev (filter (\<lambda>x. p_wchan (pr st x) = chan) (p # rest)) @ L Runq)"
      using True by (auto simp: L2_def fun_eq_iff)
    have L2h: "L2 (Hsque h) = pre @ rest" by (simp add: L2_def)
    have sl: "\<forall>x\<in>set rest. p_stat (pr (wake_one p st2) x) = SSLEEP" using Cons.prems(4) by (simp add: stt)
    from Cons.IH [OF queues_wake_one [OF q2] h L2h sl, of ?rs, unfolded flt ex b3, simplified ro]
    obtain st' where st': "wakeup_loop (at_cell (Hsque h) pre) chan ?rs (wake_one p st2) =
         Some (?rs \<or> (runout st \<noteq> 0 \<and> (\<exists>x\<in>set rest. p_wchan (pr st x) = chan \<and> \<not> loaded (pr st x))), st')"
      "queues st' (L2(Hsque h := pre @ filter (\<lambda>x. p_wchan (pr st x) \<noteq> chan) rest,
             Runq := rev (filter (\<lambda>x. p_wchan (pr st x) = chan) rest) @ L2 Runq))"
      "bare st' = fold woken (filter (\<lambda>x. p_wchan (pr st x) = chan) rest) (woken p (bare st))"
      by (auto simp: ro simp del: fun_upd_apply)
    show ?thesis
      unfolding step by (rule exI [of _ st']) (use st' True in \<open>auto simp: ro ldp upd2 simp del: fun_upd_apply\<close>)
  qed
qed

section \<open>The invariant\<close>

definition queue_of :: "sched \<Rightarrow> cell \<Rightarrow> nat list" where
  "queue_of st k = walk (length (procs st)) (links st) (deref st k)"

text \<open>
  The run queue holds the runnable processes, except the one that is running; each sleep
  queue holds the processes asleep on a channel with its hash.
\<close>

definition sched_inv :: "sched \<Rightarrow> (cell \<Rightarrow> nat list) \<Rightarrow> bool" where
  "sched_inv st L \<longleftrightarrow> queues st L
     \<and> set (L Runq) = {p. p < length (procs st) \<and> p_stat (pr st p) = SRUN \<and> (p = u_procp st \<longrightarrow> parked st)}
     \<and> (\<forall>h<NHSQUE. set (L (Hsque h)) =
          {p. p < length (procs st) \<and> p_stat (pr st p) = SSLEEP \<and> sqhash (p_wchan (pr st p)) = h})
     \<and> u_procp st < length (procs st)
     \<and> (\<not> parked st \<longrightarrow> p_stat (pr st (u_procp st)) = SRUN)"

definition sched_ok :: "sched \<Rightarrow> bool" where
  "sched_ok st \<longleftrightarrow> sched_inv st (queue_of st)"

lemma sched_invD:
  assumes "sched_inv st L"
  shows "queues st L"
    "p \<in> set (L Runq) \<longleftrightarrow> p < length (procs st) \<and> p_stat (pr st p) = SRUN \<and> (p = u_procp st \<longrightarrow> parked st)"
    "h < NHSQUE \<Longrightarrow> p \<in> set (L (Hsque h)) \<longleftrightarrow>
       p < length (procs st) \<and> p_stat (pr st p) = SSLEEP \<and> sqhash (p_wchan (pr st p)) = h"
    "u_procp st < length (procs st)"
    "\<not> parked st \<Longrightarrow> p_stat (pr st (u_procp st)) = SRUN"
  using assms by (auto simp: sched_inv_def)

lemma queue_of_unique:
  assumes "queues st L" "k \<in> heads"
  shows "queue_of st k = L k"
  unfolding queue_of_def
proof (rule chain_walk)
  show "chain (links st) (deref st k) (L k)" by (rule queuesD(2) [OF assms])
  have "card (set (L k)) \<le> card {..<length (procs st)}"
    by (rule card_mono) (use queuesD(3) [OF assms] in auto)
  then show "length (L k) \<le> length (procs st)"
    using distinct_card [OF queuesD(4) [OF assms]] by simp
qed

lemma sched_inv_ok: "sched_inv st L \<Longrightarrow> sched_ok st"
proof -
  assume i: "sched_inv st L"
  have e: "queue_of st k = L k" if "k \<in> heads" for k
    by (rule queue_of_unique [OF sched_invD(1) [OF i] that])
  have "queues st (queue_of st)"
    using sched_invD(1) [OF i] e unfolding queues_def by simp
  then show ?thesis
    using i e unfolding sched_ok_def sched_inv_def by simp
qed

lemma sqhash_less [simp]: "sqhash X < NHSQUE"
proof -
  have "unat (signed_drop_bit 3 X AND 63) \<le> 63"
    using word_and_le1 [of "signed_drop_bit 3 X" 63] by (simp add: word_le_nat_alt)
  then show ?thesis by (simp add: sqhash_def NHSQUE_def)
qed

lemma sched_inv_cong:
  assumes "sched_inv st L" "queues st' L" "length (procs st') = length (procs st)"
    "\<And>p. p < length (procs st) \<Longrightarrow> p_stat (pr st' p) = p_stat (pr st p)"
    "\<And>p. p < length (procs st) \<Longrightarrow> p_wchan (pr st' p) = p_wchan (pr st p)"
    "u_procp st' = u_procp st" "parked st' = parked st"
  shows "sched_inv st' L"
  using assms(1) unfolding sched_inv_def by (auto simp: assms(2-))

text \<open>An operation that leaves links, status, channel and the current process alone keeps it.\<close>

lemma sched_inv_frame:
  assumes i: "sched_inv st L" and "links st' = links st" "runq st' = runq st" "hsque st' = hsque st"
    and "length (procs st') = length (procs st)"
    "\<And>p. p < length (procs st) \<Longrightarrow> p_stat (pr st' p) = p_stat (pr st p)"
    "\<And>p. p < length (procs st) \<Longrightarrow> p_wchan (pr st' p) = p_wchan (pr st p)"
    "u_procp st' = u_procp st" "parked st' = parked st"
  shows "sched_inv st' L"
  by (rule sched_inv_cong [OF i queues_cong [OF sched_invD(1) [OF i]]]) (use assms in auto)

lemma sched_ok_frame:
  assumes "sched_ok st" "links st' = links st" "runq st' = runq st" "hsque st' = hsque st"
    and "length (procs st') = length (procs st)"
    "\<And>p. p < length (procs st) \<Longrightarrow> p_stat (pr st' p) = p_stat (pr st p)"
    "\<And>p. p < length (procs st) \<Longrightarrow> p_wchan (pr st' p) = p_wchan (pr st p)"
    "u_procp st' = u_procp st" "parked st' = parked st"
  shows "sched_ok st'"
  by (rule sched_inv_ok [OF sched_inv_frame [OF assms(1) [unfolded sched_ok_def]]]) (use assms in auto)

section \<open>setrun\<close>

definition ready :: "nat \<Rightarrow> sched \<Rightarrow> sched" where
  "ready p s = wake_one p (upd p (\<lambda>x. x\<lparr>p_stat := SRUN,
     p_wchan := (if p_stat x = SSLEEP then 0 else p_wchan x)\<rparr>) s)"

lemma find_cell_finds:
  assumes "queues st L" "k \<in> heads" "L k = pre @ mid @ p # post" "p \<notin> set mid"
  shows "find_cell (at_cell k pre) p st = Some (at_cell k (pre @ mid))"
  using assms
proof (induction mid arbitrary: pre)
  case Nil
  then show ?case using deref_at [of st L k pre "p # post"] by (simp add: find_cell.simps)
next
  case (Cons m mid)
  have "deref st (at_cell k pre) = Some m"
    using deref_at [of st L k pre "m # mid @ p # post"] Cons.prems by simp
  moreover have "find_cell (at_cell k (pre @ [m])) p st = Some (at_cell k ((pre @ [m]) @ mid))"
    by (rule Cons.IH) (use Cons.prems in simp_all)
  ultimately show ?case using Cons.prems(4) by (subst find_cell.simps) simp
qed

definition front :: "nat \<Rightarrow> (cell \<Rightarrow> nat list) \<Rightarrow> cell \<Rightarrow> nat list" where
  "front p L = (\<lambda>k. if k = Runq then p # L Runq else removeAll p (L k))"

lemma queues_ext:
  assumes "queues st L" "\<And>k. k \<in> heads \<Longrightarrow> L' k = L k"
  shows "queues st L'"
  using assms unfolding queues_def by simp

lemma push_runq_queues:
  assumes "queues st L" "p < length (procs st)" "\<And>j. j \<in> heads \<Longrightarrow> p \<notin> set (L j)"
  shows "queues (push_runq p st) (L(Runq := p # L Runq))"
  using push_head [OF assms(1) _ assms(2,3), of Runq] by (simp add: push_runq_def deref_def)

lemma take_off_spec:
  assumes i: "sched_inv st L" and p: "p < length (procs st)" and s: "p_stat (pr st p) = SSLEEP"
  shows "\<exists>st1. take_off p st = Some st1 \<and> queues st1 (\<lambda>k. removeAll p (L k))
     \<and> bare st1 = upd p (p_wchan_update (\<lambda>_. 0)) (bare st)"
proof -
  define h where "h = sqhash (p_wchan (pr st p))"
  note q = sched_invD(1) [OF i]
  have k: "Hsque h \<in> heads" by (simp add: h_def)
  have "p \<in> set (L (Hsque h))" using sched_invD(3) [OF i] p s h_def k by simp
  then obtain pre post where L: "L (Hsque h) = pre @ p # post" and np: "p \<notin> set pre"
    by (meson split_list_first)
  have "p \<notin> set post" using queuesD(4) [OF q k] L by simp
  with np L have Lh: "removeAll p (L (Hsque h)) = pre @ post" by simp
  have f: "find_cell (Hsque h) p st = Some (at_cell (Hsque h) pre)"
    using find_cell_finds [OF q k, of "[]" pre p post] L np by simp
  let ?s = "assign (at_cell (Hsque h) pre) (links st p) st"
  have "queues ?s (L(Hsque h := pre @ post))" by (rule unlink [OF q k L])
  then have "queues ?s (\<lambda>k. removeAll p (L k))"
  proof (rule queues_ext)
    fix k' assume k': "k' \<in> heads"
    have "p \<notin> set (L k')" if "k' \<noteq> Hsque h"
      using queuesD(5) [OF q k' k, of p] that \<open>p \<in> set (L (Hsque h))\<close> by auto
    then show "removeAll p (L k') = (L(Hsque h := pre @ post)) k'" using Lh by simp
  qed
  then have "queues (upd p (p_wchan_update (\<lambda>_. 0)) ?s) (\<lambda>k. removeAll p (L k))"
    by (rule queues_cong) (simp_all add: links_upd_same)
  moreover have "bare (upd p (p_wchan_update (\<lambda>_. 0)) ?s) = upd p (p_wchan_update (\<lambda>_. 0)) (bare st)"
    using p by (subst bare_upd) simp_all
  ultimately show ?thesis using f by (simp add: take_off_def h_def)
qed

lemma upd_id: "f (pr s p) = pr s p \<Longrightarrow> upd p f s = s"
  by (simp add: upd_def)

lemma upd_eq: "f (pr s p) = g (pr s p) \<Longrightarrow> upd p f s = upd p g s"
  by (simp add: upd_def)

lemma upd_upd: "p < length (procs s) \<Longrightarrow> upd p f (upd p g s) = upd p (\<lambda>x. f (g x)) s"
  by (simp add: upd_def)

lemma bare_stat:
  assumes "p < length (procs st)"
  shows "p_stat (pr (bare st) p) = p_stat (pr st p)" "p_wchan (pr (bare st) p) = p_wchan (pr st p)"
    "p_flag (pr (bare st) p) = p_flag (pr st p)" "p_pri (pr (bare st) p) = p_pri (pr st p)"
    "p_time (pr (bare st) p) = p_time (pr st p)" "p_sig (pr (bare st) p) = p_sig (pr st p)"
    "p_cpu (pr (bare st) p) = p_cpu (pr st p)" "p_nice (pr (bare st) p) = p_nice (pr st p)"
    "p_uid (pr (bare st) p) = p_uid (pr st p)" "p_suid (pr (bare st) p) = p_suid (pr st p)"
    "p_pid (pr (bare st) p) = p_pid (pr st p)" "p_ppid (pr (bare st) p) = p_ppid (pr st p)"
    "p_pgrp (pr (bare st) p) = p_pgrp (pr st p)" "p_clktim (pr (bare st) p) = p_clktim (pr st p)"
  using assms by (simp_all add: bare_proc)

lemma wake_one_proc [simp]:
  "p_stat (pr (wake_one p s) x) = p_stat (pr s x)" "p_wchan (pr (wake_one p s) x) = p_wchan (pr s x)"
  "p_flag (pr (wake_one p s) x) = p_flag (pr s x)" "p_pri (pr (wake_one p s) x) = p_pri (pr s x)"
  "p_sig (pr (wake_one p s) x) = p_sig (pr s x)"
  "p_pid (pr (wake_one p s) x) = p_pid (pr s x)" "p_ppid (pr (wake_one p s) x) = p_ppid (pr s x)"
  "p_pgrp (pr (wake_one p s) x) = p_pgrp (pr s x)"
  by (cases "p < length (procs s)"; cases "x = p"; simp add: wake_one_def pr_upd upd_def list_update_beyond)+

lemma ready_fields [simp]:
  "length (procs (ready p s)) = length (procs s)" "runout (ready p s) = runout s"
  "curpri (ready p s) = curpri s" "u_procp (ready p s) = u_procp s" "parked (ready p s) = parked s"
  "curproc (ready p s) = curproc s" "panicstr (ready p s) = panicstr s" "users (ready p s) = users s"
  "ve_proc (ready p s) = ve_proc s" "mpid (ready p s) = mpid s"
  by (simp_all add: ready_def wake_one_def)

lemma ready_proc:
  assumes "p < length (procs s)"
  shows "p_stat (pr (ready p s) x) = (if x = p then SRUN else p_stat (pr s x))"
    "p_wchan (pr (ready p s) x) = (if x = p \<and> p_stat (pr s p) = SSLEEP then 0 else p_wchan (pr s x))"
    "p_flag (pr (ready p s) x) = p_flag (pr s x)" "p_pri (pr (ready p s) x) = p_pri (pr s x)"
    "p_sig (pr (ready p s) x) = p_sig (pr s x)" "p_pid (pr (ready p s) x) = p_pid (pr s x)"
    "p_ppid (pr (ready p s) x) = p_ppid (pr s x)" "p_pgrp (pr (ready p s) x) = p_pgrp (pr s x)"
    "x \<noteq> p \<Longrightarrow> pr (ready p s) x = pr s x"
  using assms by (auto simp: ready_def pr_upd wake_one_def)

lemma become_ready:
  assumes i: "sched_inv st L" and p: "p < length (procs st)" and s: "p_stat (pr st p) \<noteq> SRUN"
    and q: "queues st' (front p L)" and b: "bare st' = ready p (bare st)"
  shows "sched_inv st' (front p L)"
proof -
  have n: "length (procs st') = length (procs st)"
    using arg_cong [OF b, of "\<lambda>s. length (procs s)"] by simp
  have u: "u_procp st' = u_procp st" "parked st' = parked st"
    using arg_cong [OF b, of u_procp] arg_cong [OF b, of parked] by simp_all
  have st: "p_stat (pr st' x) = (if x = p then SRUN else p_stat (pr st x))"
    and wc: "x \<noteq> p \<Longrightarrow> p_wchan (pr st' x) = p_wchan (pr st x)" if "x < length (procs st)" for x
    using arg_cong [OF b, of "\<lambda>s. p_stat (pr s x)"] arg_cong [OF b, of "\<lambda>s. p_wchan (pr s x)"] that p n
    by (simp_all add: bare_stat ready_proc)
  have pu: "p = u_procp st \<longrightarrow> parked st" using sched_invD(5) [OF i] s by auto
  have "set (front p L Runq) = {x. x < length (procs st') \<and> p_stat (pr st' x) = SRUN \<and> (x = u_procp st' \<longrightarrow> parked st')}"
    using p pu by (auto simp: front_def sched_invD(2) [OF i] st n u split: if_splits)
  moreover have "set (front p L (Hsque h)) = {x. x < length (procs st') \<and> p_stat (pr st' x) = SSLEEP
      \<and> sqhash (p_wchan (pr st' x)) = h}" if "h < NHSQUE" for h
    using p that by (auto simp: front_def sched_invD(3) [OF i] st n wc split: if_splits)
  ultimately show ?thesis
    using q sched_invD(4,5) [OF i] p unfolding sched_inv_def by (auto simp: n u st)
qed

lemma make_ready:
  assumes i: "sched_inv st L" and p: "p < length (procs st)" and s: "p_stat (pr st p) \<noteq> SRUN"
  shows "\<exists>st1. (if p_stat (pr st p) = SSLEEP then take_off p st else Some st) = Some st1
     \<and> sched_inv (wake_one p (push_runq p (upd p (p_stat_update (\<lambda>_. SRUN)) st1))) (front p L)
     \<and> bare (wake_one p (push_runq p (upd p (p_stat_update (\<lambda>_. SRUN)) st1))) = ready p (bare st)"
proof -
  note q = sched_invD(1) [OF i]
  have "\<exists>st1. (if p_stat (pr st p) = SSLEEP then take_off p st else Some st) = Some st1
     \<and> queues st1 (\<lambda>k. removeAll p (L k))
     \<and> bare st1 = upd p (\<lambda>x. x\<lparr>p_wchan := (if p_stat x = SSLEEP then 0 else p_wchan x)\<rparr>) (bare st)"
  proof (cases "p_stat (pr st p) = SSLEEP")
    case True
    have "upd p (p_wchan_update (\<lambda>_. 0)) (bare st)
        = upd p (\<lambda>x. x\<lparr>p_wchan := (if p_stat x = SSLEEP then 0 else p_wchan x)\<rparr>) (bare st)"
      by (rule upd_eq) (use True p in \<open>simp add: bare_stat\<close>)
    with take_off_spec [OF i p True] True show ?thesis by simp
  next
    case False
    have "p \<notin> set (L k)" if "k \<in> heads" for k
      using that sched_invD(2,3) [OF i] s False by (cases k) auto
    then have A: "queues st (\<lambda>k. removeAll p (L k))" by (intro queues_ext [OF q]) simp
    have B: "bare st = upd p (\<lambda>x. x\<lparr>p_wchan := (if p_stat x = SSLEEP then 0 else p_wchan x)\<rparr>) (bare st)"
      by (rule upd_id [symmetric]) (use False p in \<open>simp add: bare_stat\<close>)
    from False have C: "(if p_stat (pr st p) = SSLEEP then take_off p st else Some st) = Some st" by simp
    show ?thesis by (rule exI [of _ st], intro conjI) (rule C, rule A, rule B)
  qed
  then obtain st1 where 1: "(if p_stat (pr st p) = SSLEEP then take_off p st else Some st) = Some st1"
    and q1: "queues st1 (\<lambda>k. removeAll p (L k))"
    and b1: "bare st1 = upd p (\<lambda>x. x\<lparr>p_wchan := (if p_stat x = SSLEEP then 0 else p_wchan x)\<rparr>) (bare st)"
    by blast
  have n1: "length (procs st1) = length (procs st)"
    using arg_cong [OF b1, of "\<lambda>s. length (procs s)"] by simp
  let ?s = "push_runq p (upd p (p_stat_update (\<lambda>_. SRUN)) st1)"
  have "queues (upd p (p_stat_update (\<lambda>_. SRUN)) st1) (\<lambda>k. removeAll p (L k))"
    by (rule queues_cong [OF q1]) (simp_all add: links_upd_same)
  from push_runq_queues [OF this, of p] have "queues ?s ((\<lambda>k. removeAll p (L k))(Runq := p # removeAll p (L Runq)))"
    using p n1 by simp
  moreover have "removeAll p (L Runq) = L Runq" using sched_invD(2) [OF i, of p] s by simp
  ultimately have q2: "queues (wake_one p ?s) (front p L)"
    by (intro queues_wake_one) (simp add: front_def fun_upd_def)
  have "bare ?s = upd p (p_stat_update (\<lambda>_. SRUN)) (bare st1)"
    unfolding bare_push by (rule bare_upd) (simp_all add: p n1)
  also have "\<dots> = upd p (\<lambda>x. x\<lparr>p_stat := SRUN, p_wchan := (if p_stat x = SSLEEP then 0 else p_wchan x)\<rparr>) (bare st)"
    using p unfolding b1 by (simp add: upd_upd) (rule upd_eq, simp)
  finally have b2: "bare (wake_one p ?s) = ready p (bare st)"
    using p n1 by (subst bare_wake_one) (simp_all add: push_runq_def ready_def)
  show ?thesis using 1 become_ready [OF i p s q2 b2] b2 by blast
qed

lemma loaded_wake_one [simp]: "loaded (pr (wake_one p s) x) = loaded (pr s x)"
  by (simp add: loaded_def)

lemma setrun_unfold:
  assumes "p_stat (pr st p) \<noteq> SRUN"
    and "(if p_stat (pr st p) = SSLEEP then take_off p st else Some st) = Some st1"
  defines "w \<equiv> wake_one p (push_runq p (upd p (p_stat_update (\<lambda>_. SRUN)) st1))"
  shows "setrun p st =
    (if \<not> loaded (pr w p) \<and> runout w \<noteq> 0 then setrun 0 (w\<lparr>runout := 0\<rparr>) else Some w)"
proof -
  let ?s = "push_runq p (upd p (p_stat_update (\<lambda>_. SRUN)) st1)"
  have "setrun p st = (if \<not> loaded (pr ?s p) then
        (let s = upd p (p_time_update (\<lambda>_. 0)) ?s
         in if runout s \<noteq> 0 then setrun 0 (s\<lparr>runout := 0\<rparr>) else Some s)
      else if p_pri (pr ?s p) < curpri ?s then Some (?s\<lparr>runrun := runrun ?s + 1\<rparr>) else Some ?s)"
    using assms(1) by (subst setrun.simps) (simp add: assms(2) Let_def)
  also have "\<dots> = (if \<not> loaded (pr w p) \<and> runout w \<noteq> 0 then setrun 0 (w\<lparr>runout := 0\<rparr>) else Some w)"
    unfolding w_def loaded_wake_one wake_one_links
    by (cases "loaded (pr ?s p)") (simp_all add: wake_one_def Let_def)
  finally show ?thesis .
qed

text \<open>
  What \<^verbatim>\<open>setrun\<close> does, apart from the links: a process that was swapped out may wake the
  scheduler, process 0, if that waits for one (\<^verbatim>\<open>runout\<close>).
\<close>

definition setrun_eff :: "nat \<Rightarrow> sched \<Rightarrow> sched" where
  "setrun_eff p s =
    (if p_stat (pr s p) = SRUN then s
     else let s1 = ready p s in
       if \<not> loaded (pr s1 p) \<and> runout s1 \<noteq> 0 then
         (let s2 = s1\<lparr>runout := 0\<rparr> in if p_stat (pr s2 0) = SRUN then s2 else ready 0 s2)
       else s1)"

definition setrun_lists :: "nat \<Rightarrow> sched \<Rightarrow> (cell \<Rightarrow> nat list) \<Rightarrow> cell \<Rightarrow> nat list" where
  "setrun_lists p s L =
    (if p_stat (pr s p) = SRUN then L
     else if \<not> loaded (pr s p) \<and> runout s \<noteq> 0 \<and> p \<noteq> 0 \<and> p_stat (pr s 0) \<noteq> SRUN then front 0 (front p L)
     else front p L)"

lemma loaded_cong: "p_flag x = p_flag y \<Longrightarrow> loaded x = loaded y"
  by (simp add: loaded_def)

lemma setrun_runs:
  assumes i: "sched_inv st L" and p: "p < length (procs st)"
  shows "\<exists>st'. setrun p st = Some st' \<and> sched_inv st' (setrun_lists p st L)
    \<and> bare st' = setrun_eff p (bare st)"
proof (cases "p_stat (pr st p) = SRUN")
  case True
  then show ?thesis
    using i p by (simp add: setrun.simps [of p] setrun_lists_def setrun_eff_def bare_stat)
next
  case s: False
  obtain st1 where 1: "(if p_stat (pr st p) = SSLEEP then take_off p st else Some st) = Some st1"
    and i1: "sched_inv (wake_one p (push_runq p (upd p (p_stat_update (\<lambda>_. SRUN)) st1))) (front p L)"
    and b1: "bare (wake_one p (push_runq p (upd p (p_stat_update (\<lambda>_. SRUN)) st1))) = ready p (bare st)"
    using make_ready [OF i p s] by blast
  define w where "w = wake_one p (push_runq p (upd p (p_stat_update (\<lambda>_. SRUN)) st1))"
  note i1 = i1 [folded w_def] and b1 = b1 [folded w_def]
  have u: "setrun p st = (if \<not> loaded (pr w p) \<and> runout w \<noteq> 0 then setrun 0 (w\<lparr>runout := 0\<rparr>) else Some w)"
    unfolding w_def by (rule setrun_unfold [OF s 1])
  have n: "length (procs w) = length (procs st)"
    using arg_cong [OF b1, of "\<lambda>s. length (procs s)"] by simp
  have ro: "runout w = runout st" using arg_cong [OF b1, of runout] by simp
  have fl: "p_flag (pr w x) = p_flag (pr st x)"
    and stt: "p_stat (pr w x) = (if x = p then SRUN else p_stat (pr st x))" if "x < length (procs st)" for x
    using arg_cong [OF b1, of "\<lambda>s. p_flag (pr s x)"] arg_cong [OF b1, of "\<lambda>s. p_stat (pr s x)"] that p n
    by (simp_all add: bare_stat ready_proc)
  have ld: "loaded (pr w p) = loaded (pr st p)" by (rule loaded_cong [OF fl [OF p]])
  have ldb: "loaded (pr (ready p (bare st)) p) = loaded (pr st p)"
    using p by (intro loaded_cong) (simp add: ready_proc bare_stat)
  have sb: "p_stat (pr (bare st) p) \<noteq> SRUN" using s p by (simp add: bare_stat)
  have z: "0 < length (procs st)" by (rule le_less_trans [OF le0 p])
  show ?thesis
  proof (cases "\<not> loaded (pr st p) \<and> runout st \<noteq> 0")
    case False
    then show ?thesis
      using u i1 b1 s sb by (auto simp: ld ldb ro setrun_lists_def setrun_eff_def Let_def)
  next
    case True
    let ?w = "w\<lparr>runout := 0\<rparr>"
    have i2: "sched_inv ?w (front p L)" by (rule sched_inv_frame [OF i1]) simp_all
    have b2: "bare ?w = (ready p (bare st))\<lparr>runout := 0\<rparr>" using b1 by simp
    have e: "setrun p st = setrun 0 ?w" using u True by (simp add: ld ro)
    have s0: "p_stat (pr (ready p (bare st)) 0) = (if p = 0 then SRUN else p_stat (pr st 0))"
      using p z by (simp add: ready_proc bare_stat)
    show ?thesis
    proof (cases "p_stat (pr ?w 0) = SRUN")
      case run: True
      then have "p = 0 \<or> p_stat (pr st 0) = SRUN" using stt [OF z] by (auto split: if_splits)
      moreover have "setrun 0 ?w = Some ?w" using run by (subst setrun.simps) simp
      ultimately show ?thesis
        using e i2 b2 s sb True s0 by (auto simp: setrun_lists_def setrun_eff_def Let_def ldb)
    next
      case nrun: False
      then have p0: "p \<noteq> 0" "p_stat (pr st 0) \<noteq> SRUN" using stt [OF z] by (auto split: if_splits)
      have z2: "0 < length (procs ?w)" using z n by simp
      obtain st2 where 2: "(if p_stat (pr ?w 0) = SSLEEP then take_off 0 ?w else Some ?w) = Some st2"
        and i3: "sched_inv (wake_one 0 (push_runq 0 (upd 0 (p_stat_update (\<lambda>_. SRUN)) st2))) (front 0 (front p L))"
        and b3: "bare (wake_one 0 (push_runq 0 (upd 0 (p_stat_update (\<lambda>_. SRUN)) st2))) = ready 0 (bare ?w)"
        using make_ready [OF i2 z2 nrun] by blast
      have "runout (wake_one 0 (push_runq 0 (upd 0 (p_stat_update (\<lambda>_. SRUN)) st2))) = 0"
        using arg_cong [OF b3, of runout] by simp
      then have "setrun 0 ?w = Some (wake_one 0 (push_runq 0 (upd 0 (p_stat_update (\<lambda>_. SRUN)) st2)))"
        using setrun_unfold [OF nrun 2] by simp
      with e i3 b3 b2 s sb True p0 s0 show ?thesis
        by (auto simp: setrun_lists_def setrun_eff_def Let_def ldb)
    qed
  qed
qed

lemma setrun_ok:
  assumes "sched_ok st" "p < length (procs st)"
  shows "\<exists>st'. setrun p st = Some st' \<and> sched_ok st' \<and> bare st' = setrun_eff p (bare st)"
  using setrun_runs [OF assms(1) [unfolded sched_ok_def] assms(2)] sched_inv_ok by blast

section \<open>wakeup, sleep and the run queue\<close>

lemma fold_woken_all:
  "set ws \<subseteq> {..<length (procs s)} \<Longrightarrow>
    length (procs (fold woken ws s)) = length (procs s)
    \<and> p_stat (pr (fold woken ws s) x) = (if x \<in> set ws then SRUN else p_stat (pr s x))
    \<and> p_wchan (pr (fold woken ws s) x) = (if x \<in> set ws then 0 else p_wchan (pr s x))
    \<and> p_flag (pr (fold woken ws s) x) = p_flag (pr s x) \<and> p_pri (pr (fold woken ws s) x) = p_pri (pr s x)
    \<and> u_procp (fold woken ws s) = u_procp s \<and> parked (fold woken ws s) = parked s
    \<and> runout (fold woken ws s) = runout s"
proof (induction ws arbitrary: s)
  case (Cons w ws)
  have f: "p_flag (pr (woken w s) y) = p_flag (pr s y)" "p_pri (pr (woken w s) y) = p_pri (pr s y)"
    "p_stat (pr (woken w s) y) = (if y = w then SRUN else p_stat (pr s y))"
    "p_wchan (pr (woken w s) y) = (if y = w then 0 else p_wchan (pr s y))" for y
    using Cons.prems by (simp_all add: woken_def pr_upd)
  have "set ws \<subseteq> {..<length (procs (woken w s))}" using Cons.prems by simp
  from Cons.IH [OF this] show ?case by (simp add: f)
qed simp

lemma fold_woken:
  assumes "set ws \<subseteq> {..<length (procs s)}"
  shows "length (procs (fold woken ws s)) = length (procs s)"
    "p_stat (pr (fold woken ws s) x) = (if x \<in> set ws then SRUN else p_stat (pr s x))"
    "p_wchan (pr (fold woken ws s) x) = (if x \<in> set ws then 0 else p_wchan (pr s x))"
    "p_flag (pr (fold woken ws s) x) = p_flag (pr s x)" "p_pri (pr (fold woken ws s) x) = p_pri (pr s x)"
    "u_procp (fold woken ws s) = u_procp s" "parked (fold woken ws s) = parked s"
    "runout (fold woken ws s) = runout s"
  using fold_woken_all [OF assms, of x] by blast+

definition sleepers :: "u32 \<Rightarrow> sched \<Rightarrow> nat list" where
  "sleepers chan st = filter (\<lambda>p. p_wchan (pr st p) = chan) (queue_of st (Hsque (sqhash chan)))"

lemma sleepers_iff:
  assumes "sched_ok st"
  shows "p \<in> set (sleepers chan st) \<longleftrightarrow>
    p < length (procs st) \<and> p_stat (pr st p) = SSLEEP \<and> p_wchan (pr st p) = chan"
  using sched_invD(3) [OF assms [unfolded sched_ok_def] sqhash_less [of chan], of p]
  by (auto simp: sleepers_def)

definition wakes_sched :: "u32 \<Rightarrow> sched \<Rightarrow> bool" where
  "wakes_sched chan st \<longleftrightarrow> runout st \<noteq> 0 \<and> (\<exists>p\<in>set (sleepers chan st). \<not> loaded (pr st p))"

definition wake_lists :: "u32 \<Rightarrow> sched \<Rightarrow> (cell \<Rightarrow> nat list) \<Rightarrow> cell \<Rightarrow> nat list" where
  "wake_lists chan st L = L(
     Hsque (sqhash chan) := filter (\<lambda>p. p_wchan (pr st p) \<noteq> chan) (L (Hsque (sqhash chan))),
     Runq := rev (sleepers chan st) @ L Runq)"

lemma wakeup_loop_ok:
  assumes ok: "sched_ok st"
  shows "\<exists>st1. wakeup_loop (Hsque (sqhash chan)) chan False st = Some (wakes_sched chan st, st1)
    \<and> sched_inv st1 (wake_lists chan st (queue_of st)) \<and> bare st1 = fold woken (sleepers chan st) (bare st)"
proof -
  let ?h = "sqhash chan" and ?L = "queue_of st"
  have i: "sched_inv st ?L" using ok by (simp add: sched_ok_def)
  note q = sched_invD(1) [OF i]
  have sl: "\<forall>p\<in>set (?L (Hsque ?h)). p_stat (pr st p) = SSLEEP" using sched_invD(3) [OF i] by simp
  have ws: "wakes_sched chan st \<longleftrightarrow> False \<or> runout st \<noteq> 0
      \<and> (\<exists>p\<in>set (?L (Hsque ?h)). p_wchan (pr st p) = chan \<and> \<not> loaded (pr st p))"
    by (auto simp: wakes_sched_def sleepers_def)
  obtain st1 where w: "wakeup_loop (Hsque ?h) chan False st = Some (wakes_sched chan st, st1)"
    and q1: "queues st1 (wake_lists chan st ?L)" and b1: "bare st1 = fold woken (sleepers chan st) (bare st)"
    using wakeup_loop_spec [OF q sqhash_less, of chan "[]" "?L (Hsque ?h)" chan False, folded ws] sl
    by (auto simp: wake_lists_def sleepers_def simp del: fun_upd_apply)
  have sub: "set (sleepers chan st) \<subseteq> {..<length (procs (bare st))}"
    by (auto simp: sleepers_iff [OF ok])
  have n: "length (procs st1) = length (procs st)" and u: "u_procp st1 = u_procp st" "parked st1 = parked st"
    using arg_cong [OF b1, of "\<lambda>s. length (procs s)"] arg_cong [OF b1, of u_procp] arg_cong [OF b1, of parked]
    by (simp_all add: fold_woken [OF sub])
  have st: "p_stat (pr st1 x) = (if x \<in> set (sleepers chan st) then SRUN else p_stat (pr st x))"
    and wc: "p_wchan (pr st1 x) = (if x \<in> set (sleepers chan st) then 0 else p_wchan (pr st x))"
    if "x < length (procs st)" for x
    using arg_cong [OF b1, of "\<lambda>s. p_stat (pr s x)"] arg_cong [OF b1, of "\<lambda>s. p_wchan (pr s x)"] that n
    by (simp_all add: bare_stat fold_woken [OF sub])
  have p5: "parked st \<or> p_stat (pr st (u_procp st)) = SRUN" using sched_invD(5) [OF i] by blast
  have "set (wake_lists chan st ?L Runq)
      = {x. x < length (procs st1) \<and> p_stat (pr st1 x) = SRUN \<and> (x = u_procp st1 \<longrightarrow> parked st1)}"
    using p5 by (auto simp: wake_lists_def sleepers_iff [OF ok] sched_invD(2) [OF i] st n u split: if_splits)
  moreover have "set (wake_lists chan st ?L (Hsque h))
      = {x. x < length (procs st1) \<and> p_stat (pr st1 x) = SSLEEP \<and> sqhash (p_wchan (pr st1 x)) = h}"
    if "h < NHSQUE" for h
    using that
    by (auto simp: wake_lists_def sleepers_iff [OF ok] sched_invD(3) [OF i] st wc n split: if_splits)
  ultimately have "sched_inv st1 (wake_lists chan st ?L)"
    using q1 sched_invD(4,5) [OF i] unfolding sched_inv_def by (auto simp: n u st)
  with w b1 show ?thesis by blast
qed

definition wakeup_eff :: "u32 \<Rightarrow> sched \<Rightarrow> sched" where
  "wakeup_eff chan st =
    (let s = fold woken (sleepers chan st) (bare st)
     in if wakes_sched chan st then setrun_eff 0 (s\<lparr>runout := 0\<rparr>) else s)"

lemma sched_ok_nonempty: "sched_ok st \<Longrightarrow> 0 < length (procs st)"
  unfolding sched_ok_def by (rule le_less_trans [OF le0 sched_invD(4)])

lemma wakeup_runs:
  assumes ok: "sched_ok st"
  shows "\<exists>st'. wakeup chan st = Some st' \<and> bare st' = wakeup_eff chan st
    \<and> sched_inv st' (let L = wake_lists chan st (queue_of st)
         in if wakes_sched chan st \<and> p_stat (pr st 0) \<noteq> SRUN \<and> 0 \<notin> set (sleepers chan st)
            then front 0 L else L)"
proof -
  obtain st1 where w: "wakeup_loop (Hsque (sqhash chan)) chan False st = Some (wakes_sched chan st, st1)"
    and i1: "sched_inv st1 (wake_lists chan st (queue_of st))"
    and b1: "bare st1 = fold woken (sleepers chan st) (bare st)"
    using wakeup_loop_ok [OF ok] by blast
  have sub: "set (sleepers chan st) \<subseteq> {..<length (procs (bare st))}"
    by (auto simp: sleepers_iff [OF ok])
  show ?thesis
  proof (cases "wakes_sched chan st")
    case False
    then show ?thesis using w i1 b1 by (auto simp: wakeup_def wakeup_eff_def Let_def)
  next
    case True
    let ?s = "st1\<lparr>runout := 0\<rparr>"
    have i2: "sched_inv ?s (wake_lists chan st (queue_of st))"
      by (rule sched_inv_frame [OF i1]) simp_all
    have n: "length (procs st1) = length (procs st)"
      using arg_cong [OF b1, of "\<lambda>s. length (procs s)"] by (simp add: fold_woken [OF sub])
    have z: "0 < length (procs ?s)" using sched_ok_nonempty [OF ok] n by simp
    have s0: "p_stat (pr st1 0) = (if 0 \<in> set (sleepers chan st) then SRUN else p_stat (pr st 0))"
      using arg_cong [OF b1, of "\<lambda>s. p_stat (pr s 0)"] z n
      by (simp add: bare_stat fold_woken [OF sub])
    obtain st' where "setrun 0 ?s = Some st'"
      "sched_inv st' (setrun_lists 0 ?s (wake_lists chan st (queue_of st)))"
      "bare st' = setrun_eff 0 (bare ?s)"
      using setrun_runs [OF i2 z] by blast
    then show ?thesis
      using w True b1 by (auto simp: wakeup_def wakeup_eff_def Let_def setrun_lists_def s0 split: if_splits)
  qed
qed

lemma sleep_enq_ok:
  fixes st :: sched and chan disp :: u32
  assumes ok: "sched_ok st" and run: "\<not> parked st"
  defines "st' \<equiv> (sleep_enq chan disp st)\<lparr>parked := True\<rparr>"
  defines "rp \<equiv> u_procp st"
  shows "sched_inv st' ((queue_of st)(Hsque (sqhash chan) := rp # queue_of st (Hsque (sqhash chan))))"
proof -
  let ?h = "Hsque (sqhash chan)"
  have i: "sched_inv st (queue_of st)" using ok by (simp add: sched_ok_def)
  note q = sched_invD(1) [OF i]
  have rp: "rp < length (procs st)" "p_stat (pr st rp) = SRUN"
    using sched_invD(4,5) [OF i] run by (simp_all add: rp_def)
  have free: "rp \<notin> set (queue_of st k)" if "k \<in> heads" for k
    using that sched_invD(2,3) [OF i] rp run by (cases k) (auto simp: rp_def)
  define st1 where "st1 = upd rp (\<lambda>x. x\<lparr>p_stat := SSLEEP, p_wchan := chan\<rparr>) st"
  define st2 where "st2 = assign ?h (Some rp) (assign (Link rp) (deref st1 ?h) st1)"
  have q1: "queues st1 (queue_of st)"
    by (rule queues_cong [OF q]) (simp_all add: st1_def links_upd_same)
  have q2: "queues st2 ((queue_of st)(?h := rp # queue_of st ?h))"
    unfolding st2_def by (rule push_head [OF q1]) (use rp free in \<open>simp_all add: st1_def\<close>)
  have st': "st' = (upd rp (\<lambda>x. x\<lparr>p_time := (if p_time x > TZERO then TZERO else p_time x),
      p_pri := uint (disp AND PMASK)\<rparr>) st2)\<lparr>parked := True\<rparr>"
    by (simp add: st'_def sleep_enq_def st2_def st1_def rp_def Let_def)
  have q': "queues st' ((queue_of st)(?h := rp # queue_of st ?h))"
    unfolding st' by (rule queues_cong [OF q2]) (simp_all add: links_upd_same)
  have n: "length (procs st') = length (procs st)" by (simp add: st' st2_def st1_def)
  have b: "bare st2 = upd rp (\<lambda>x. x\<lparr>p_stat := SSLEEP, p_wchan := chan\<rparr>) (bare st)"
    unfolding st2_def bare_assign st1_def by (rule bare_upd) (simp_all add: rp)
  have n2: "length (procs st2) = length (procs st)" by (simp add: st2_def st1_def)
  have stt: "p_stat (pr st' x) = (if x = rp then SSLEEP else p_stat (pr st x))"
    and wc: "p_wchan (pr st' x) = (if x = rp then chan else p_wchan (pr st x))" if "x < length (procs st)" for x
    using arg_cong [OF b, of "\<lambda>s. p_stat (pr s x)"] arg_cong [OF b, of "\<lambda>s. p_wchan (pr s x)"] that rp n2
    by (auto simp: st' bare_stat pr_upd)
  have "u_procp st2 = u_procp st" using arg_cong [OF b, of u_procp] by simp
  then have u: "u_procp st' = rp" "parked st'" by (simp_all add: st' rp_def)
  show ?thesis
    unfolding sched_inv_def n u
  proof (intro conjI allI impI)
    show "set (((queue_of st)(?h := rp # queue_of st ?h)) Runq)
        = {p. p < length (procs st) \<and> p_stat (pr st' p) = SRUN \<and> (p = rp \<longrightarrow> parked st')}"
      using run by (auto simp: sched_invD(2) [OF i] stt u rp_def split: if_splits)
    show "set (((queue_of st)(?h := rp # queue_of st ?h)) (Hsque h))
        = {p. p < length (procs st) \<and> p_stat (pr st' p) = SSLEEP \<and> sqhash (p_wchan (pr st' p)) = h}"
      if "h < NHSQUE" for h
      using that rp by (auto simp: sched_invD(3) [OF i] stt wc split: if_splits)
  qed (use q' rp u in auto)
qed

lemma on_runq_chain: "chain (links st) r xs \<Longrightarrow> on_runq r p st = Some (p \<in> set xs)"
proof (induction xs arbitrary: r)
  case Nil
  then show ?case by (simp add: on_runq.simps)
next
  case (Cons x xs)
  then show ?case by (subst on_runq.simps) auto
qed

lemma queue_chain: "\<lbrakk>queues st L; k \<in> heads\<rbrakk> \<Longrightarrow> chain (links st) (deref st k) (L k)"
  by (rule queuesD(2))

lemma setrq_runs:
  assumes "sched_inv st L"
  shows "setrq p st = Some (if p \<in> set (L Runq) then st else push_runq p st)"
  using on_runq_chain [OF queuesD(2) [OF sched_invD(1) [OF assms], of Runq], of p]
  by (auto simp: setrq_def deref_def)

lemma qswtch_ok:
  assumes ok: "sched_ok st" and run: "\<not> parked st"
  shows "\<exists>st'. qswtch st = Some st' \<and> bare st' = (bare st)\<lparr>parked := True\<rparr>
    \<and> sched_inv st' ((queue_of st)(Runq := u_procp st # queue_of st Runq))"
proof -
  have i: "sched_inv st (queue_of st)" using ok by (simp add: sched_ok_def)
  note q = sched_invD(1) [OF i]
  let ?rp = "u_procp st" and ?L = "(queue_of st)(Runq := u_procp st # queue_of st Runq)"
  have rp: "?rp < length (procs st)" "p_stat (pr st ?rp) = SRUN"
    using sched_invD(4,5) [OF i] run by simp_all
  have free: "?rp \<notin> set (queue_of st k)" if "k \<in> heads" for k
    using that sched_invD(2,3) [OF i] rp run by (cases k) auto
  let ?s = "(push_runq ?rp st)\<lparr>parked := True\<rparr>"
  have e: "qswtch st = Some ?s" using setrq_runs [OF i, of ?rp] free by (simp add: qswtch_def)
  have b: "bare ?s = (bare st)\<lparr>parked := True\<rparr>" by simp
  have q1: "queues (push_runq ?rp st) ?L" by (rule push_runq_queues [OF q rp(1) free])
  have q2: "queues ?s ?L" by (rule queues_cong [OF q1]) simp_all
  let ?p = "push_runq ?rp st"
  have n: "length (procs ?p) = length (procs st)" and u: "u_procp ?p = ?rp"
    using bare_eqD(1,6) [OF bare_push, of ?rp st] by simp_all
  have f: "p_stat (pr ?p x) = p_stat (pr st x)" "p_wchan (pr ?p x) = p_wchan (pr st x)"
    if "x < length (procs st)" for x
    using bare_eqD(2,3) [OF bare_push, of x ?rp st] that n by simp_all
  have "sched_inv ?s ?L"
    using q2 rp sched_invD(2,3) [OF i] run by (auto simp: sched_inv_def f n u)
  with e b show ?thesis by blast
qed

section \<open>swtch\<close>

lemma swtch_scan_spec:
  "chain (links st) r xs \<Longrightarrow> \<exists>best' n'. swtch_scan r q best n st = Some (best', n') \<and>
     ((\<forall>x\<in>set xs. loaded (pr st x) \<longrightarrow> n < p_pri (pr st x)) \<and> best' = best \<and> n' = n
      \<or> (\<exists>a p b. xs = a @ p # b \<and> loaded (pr st p) \<and> p_pri (pr st p) \<le> n
          \<and> (\<forall>x\<in>set a. loaded (pr st x) \<longrightarrow> p_pri (pr st p) \<le> p_pri (pr st x))
          \<and> (\<forall>x\<in>set b. loaded (pr st x) \<longrightarrow> p_pri (pr st p) < p_pri (pr st x))
          \<and> best' = Some (p, if a = [] then q else Some (last a)) \<and> n' = p_pri (pr st p)))"
proof (induction xs arbitrary: r q best n)
  case Nil
  then show ?case by (simp add: swtch_scan.simps)
next
  case (Cons x xs)
  then have r: "r = Some x" and c: "chain (links st) (links st x) xs" by simp_all
  define best1 where "best1 = (if loaded (pr st x) \<and> p_pri (pr st x) \<le> n then Some (x, q) else best)"
  define n1 where "n1 = (if loaded (pr st x) \<and> p_pri (pr st x) \<le> n then p_pri (pr st x) else n)"
  have step: "swtch_scan r q best n st = swtch_scan (links st x) (Some x) best1 n1 st"
    unfolding r by (subst swtch_scan.simps) (simp add: best1_def n1_def)
  obtain best' n' where s: "swtch_scan r q best n st = Some (best', n')"
    and alt: "(\<forall>y\<in>set xs. loaded (pr st y) \<longrightarrow> n1 < p_pri (pr st y)) \<and> best' = best1 \<and> n' = n1
      \<or> (\<exists>a p b. xs = a @ p # b \<and> loaded (pr st p) \<and> p_pri (pr st p) \<le> n1
          \<and> (\<forall>x\<in>set a. loaded (pr st x) \<longrightarrow> p_pri (pr st p) \<le> p_pri (pr st x))
          \<and> (\<forall>x\<in>set b. loaded (pr st x) \<longrightarrow> p_pri (pr st p) < p_pri (pr st x))
          \<and> best' = Some (p, if a = [] then Some x else Some (last a)) \<and> n' = p_pri (pr st p))"
    using Cons.IH [OF c, of "Some x" best1 n1] unfolding step by blast
  show ?case
    using alt
  proof (elim disjE exE conjE)
    assume a: "\<forall>y\<in>set xs. loaded (pr st y) \<longrightarrow> n1 < p_pri (pr st y)" "best' = best1" "n' = n1"
    show ?thesis
    proof (cases "loaded (pr st x) \<and> p_pri (pr st x) \<le> n")
      case True
      then have "\<exists>a p b. x # xs = a @ p # b \<and> loaded (pr st p) \<and> p_pri (pr st p) \<le> n
          \<and> (\<forall>x\<in>set a. loaded (pr st x) \<longrightarrow> p_pri (pr st p) \<le> p_pri (pr st x))
          \<and> (\<forall>x\<in>set b. loaded (pr st x) \<longrightarrow> p_pri (pr st p) < p_pri (pr st x))
          \<and> best' = Some (p, if a = [] then q else Some (last a)) \<and> n' = p_pri (pr st p)"
        using a by (intro exI [of _ "[]"] exI [of _ x] exI [of _ xs]) (simp add: best1_def n1_def)
      with s show ?thesis by blast
    next
      case False
      then have "\<forall>y\<in>set (x # xs). loaded (pr st y) \<longrightarrow> n < p_pri (pr st y)" "best' = best" "n' = n"
        using a by (auto simp: best1_def n1_def)
      then show ?thesis
        by - (rule exI [of _ best'], rule exI [of _ n'], rule conjI [OF s], rule disjI1, intro conjI)
    qed
  next
    fix a p b
    assume a: "xs = a @ p # b" "loaded (pr st p)" "p_pri (pr st p) \<le> n1"
      "\<forall>x\<in>set a. loaded (pr st x) \<longrightarrow> p_pri (pr st p) \<le> p_pri (pr st x)"
      "\<forall>x\<in>set b. loaded (pr st x) \<longrightarrow> p_pri (pr st p) < p_pri (pr st x)"
      "best' = Some (p, if a = [] then Some x else Some (last a))" "n' = p_pri (pr st p)"
    have "x # xs = (x # a) @ p # b" "p_pri (pr st p) \<le> n"
      "\<forall>y\<in>set (x # a). loaded (pr st y) \<longrightarrow> p_pri (pr st p) \<le> p_pri (pr st y)"
      "best' = Some (p, if x # a = [] then q else Some (last (x # a)))"
      using a by (auto simp: n1_def split: if_splits)
    then have "\<exists>a p b. x # xs = a @ p # b \<and> loaded (pr st p) \<and> p_pri (pr st p) \<le> n
          \<and> (\<forall>x\<in>set a. loaded (pr st x) \<longrightarrow> p_pri (pr st p) \<le> p_pri (pr st x))
          \<and> (\<forall>x\<in>set b. loaded (pr st x) \<longrightarrow> p_pri (pr st p) < p_pri (pr st x))
          \<and> best' = Some (p, if a = [] then q else Some (last a)) \<and> n' = p_pri (pr st p)" (is ?R)
      by - (rule exI [of _ "x # a"], rule exI [of _ p], rule exI [of _ b],
            intro conjI, (assumption | rule a(2) a(5) a(7))+)
    then show ?thesis
      by - (rule exI [of _ best'], rule exI [of _ n'], rule conjI [OF s], rule disjI2)
  qed
qed

lemma panic_scan_spec:
  "chain (links st) r xs \<Longrightarrow>
    (if loaded (pr st (curproc st)) \<and> curproc st \<in> set xs
     then \<exists>a b. xs = a @ curproc st # b \<and> panic_scan r q st =
            Some (Some (curproc st, if a = [] then q else Some (last a)), p_pri (pr st (curproc st)))
     else panic_scan r q st = Some (None, 256))"
proof (induction xs arbitrary: r q)
  case Nil
  then show ?case by (simp add: panic_scan.simps)
next
  case (Cons x xs)
  then have r: "r = Some x" and c: "chain (links st) (links st x) xs" by simp_all
  show ?case
  proof (cases "x = curproc st \<and> loaded (pr st x)")
    case True
    then have "x # xs = [] @ curproc st # xs" "panic_scan r q st =
        Some (Some (curproc st, q), p_pri (pr st (curproc st)))"
      unfolding r by (auto simp: panic_scan.simps [of "Some (curproc st)"])
    then show ?thesis using True by auto
  next
    case False
    then have step: "panic_scan r q st = panic_scan (links st x) (Some x) st"
      unfolding r by (subst panic_scan.simps) auto
    show ?thesis
    proof (cases "loaded (pr st (curproc st)) \<and> curproc st \<in> set xs")
      case True
      with Cons.IH [OF c, of "Some x"] obtain a b where ab: "xs = a @ curproc st # b"
        "panic_scan r q st = Some (Some (curproc st, if a = [] then Some x else Some (last a)),
           p_pri (pr st (curproc st)))"
        unfolding step by auto
      have e: "x # xs = (x # a) @ curproc st # b" "panic_scan r q st =
          Some (Some (curproc st, if x # a = [] then q else Some (last (x # a))), p_pri (pr st (curproc st)))"
        by (simp_all add: ab)
      have m: "loaded (pr st (curproc st)) \<and> curproc st \<in> set (x # xs)" using True by simp
      show ?thesis unfolding if_P [OF m] by (rule exI [of _ "x # a"], rule exI [of _ b], rule conjI) (rule e)+
    next
      case none: False
      have "panic_scan r q st = Some (None, 256)"
        unfolding step using Cons.IH [OF c, of "Some x"] by (simp only: none if_False)
      moreover have "\<not> (loaded (pr st (curproc st)) \<and> curproc st \<in> set (x # xs))"
        using none False by auto
      ultimately show ?thesis by (simp only: if_False)
    qed
  qed
qed

text \<open>The choice of \<^verbatim>\<open>swtch\<close>: the lowest priority number; of equals, the last of the queue.\<close>

definition chosen :: "sched \<Rightarrow> nat list \<Rightarrow> nat \<Rightarrow> nat list \<Rightarrow> bool" where
  "chosen st a p b \<longleftrightarrow> loaded (pr st p) \<and>
    (if panicstr st then p = curproc st
     else p_pri (pr st p) \<le> 256
        \<and> (\<forall>x\<in>set a. loaded (pr st x) \<longrightarrow> p_pri (pr st p) \<le> p_pri (pr st x))
        \<and> (\<forall>x\<in>set b. loaded (pr st x) \<longrightarrow> p_pri (pr st p) < p_pri (pr st x)))"

definition candidate :: "sched \<Rightarrow> nat \<Rightarrow> bool" where
  "candidate st p \<longleftrightarrow> loaded (pr st p) \<and> (if panicstr st then p = curproc st else p_pri (pr st p) \<le> 256)"

lemma swtch_picks:
  assumes "chain (links st) (runq st) xs"
  shows "(\<forall>x\<in>set xs. \<not> candidate st x) \<and> swtch st = Some (st\<lparr>runrun := 0, curpri := PIDLE\<rparr>)
    \<or> (\<exists>a p b. xs = a @ p # b \<and> chosen st a p b \<and>
        swtch st = Some ((upd p (p_flag_update (\<lambda>f. f AND NOT SSWAP))
          ((assign (at_cell Runq a) (links st p) (st\<lparr>runrun := 0\<rparr>))\<lparr>curpri := p_pri (pr st p), curproc := p\<rparr>))
            \<lparr>u_procp := p, parked := False\<rparr>))"
proof -
  let ?s = "st\<lparr>runrun := 0\<rparr>"
  have c: "chain (links ?s) (runq ?s) xs" using assms by simp
  have cell: "(case (if a = [] then None else Some (last a)) of None \<Rightarrow> Runq | Some q \<Rightarrow> Link q) = at_cell Runq a" for a
    by (simp add: at_cell_def)
  show ?thesis
  proof (cases "panicstr st")
    case p: True
    show ?thesis
    proof (cases "loaded (pr st (curproc st)) \<and> curproc st \<in> set xs")
      case True
      then obtain a b where "xs = a @ curproc st # b" "panic_scan (runq ?s) None ?s =
          Some (Some (curproc st, if a = [] then None else Some (last a)), p_pri (pr st (curproc st)))"
        using panic_scan_spec [OF c, of None] by auto
      then show ?thesis
        using p True by (intro disjI2 exI [of _ a] exI [of _ "curproc st"] exI [of _ b])
          (simp add: swtch_def Let_def cell chosen_def del: if_split)
    next
      case False
      then have "panic_scan (runq ?s) None ?s = Some (None, 256)"
        using panic_scan_spec [OF c, of None] by auto
      moreover have "\<forall>x\<in>set xs. \<not> candidate st x" using False p by (auto simp: candidate_def)
      ultimately show ?thesis using p by (simp add: swtch_def)
    qed
  next
    case False
    from swtch_scan_spec [OF c, of None None 256] show ?thesis
    proof (elim exE conjE disjE)
      fix best' n'
      assume "swtch_scan (runq ?s) None None 256 ?s = Some (best', n')"
        "\<forall>x\<in>set xs. loaded (pr ?s x) \<longrightarrow> 256 < p_pri (pr ?s x)" "best' = None"
      then show ?thesis using False by (auto simp: swtch_def candidate_def)
    next
      fix best' n' a p b
      assume "swtch_scan (runq ?s) None None 256 ?s = Some (best', n')" "xs = a @ p # b"
        "loaded (pr ?s p)" "p_pri (pr ?s p) \<le> 256"
        "\<forall>x\<in>set a. loaded (pr ?s x) \<longrightarrow> p_pri (pr ?s p) \<le> p_pri (pr ?s x)"
        "\<forall>x\<in>set b. loaded (pr ?s x) \<longrightarrow> p_pri (pr ?s p) < p_pri (pr ?s x)"
        "best' = Some (p, if a = [] then None else Some (last a))" "n' = p_pri (pr ?s p)"
      then show ?thesis
        using False by (intro disjI2 exI [of _ a] exI [of _ p] exI [of _ b])
          (simp add: swtch_def Let_def cell chosen_def del: if_split)
    qed
  qed
qed

lemma swtch_runs:
  assumes ok: "sched_ok st" and park: "parked st"
  shows "\<exists>st'. swtch st = Some st' \<and> sched_ok st' \<and>
    ((\<forall>x\<in>set (queue_of st Runq). \<not> candidate st x) \<and> st' = st\<lparr>runrun := 0, curpri := PIDLE\<rparr>
     \<or> (\<exists>a p b. queue_of st Runq = a @ p # b \<and> chosen st a p b
          \<and> u_procp st' = p \<and> curproc st' = p \<and> \<not> parked st' \<and> curpri st' = p_pri (pr st p)
          \<and> runrun st' = 0 \<and> sched_inv st' ((queue_of st)(Runq := a @ b))))"
proof -
  let ?L = "queue_of st"
  have i: "sched_inv st ?L" using ok by (simp add: sched_ok_def)
  note q = sched_invD(1) [OF i]
  have c: "chain (links st) (runq st) (?L Runq)" using queuesD(2) [OF q, of Runq] by (simp add: deref_def)
  from swtch_picks [OF c] show ?thesis
  proof (elim disjE conjE exE)
    assume n: "\<forall>x\<in>set (?L Runq). \<not> candidate st x" and s: "swtch st = Some (st\<lparr>runrun := 0, curpri := PIDLE\<rparr>)"
    have "sched_ok (st\<lparr>runrun := 0, curpri := PIDLE\<rparr>)" by (rule sched_ok_frame [OF ok]) simp_all
    with n s show ?thesis by blast
  next
    fix a p b
    let ?s = "(assign (at_cell Runq a) (links st p) (st\<lparr>runrun := 0\<rparr>))\<lparr>curpri := p_pri (pr st p), curproc := p\<rparr>"
    let ?f = "p_flag_update (\<lambda>f. f AND NOT SSWAP)"
    let ?t = "(upd p ?f ?s)\<lparr>u_procp := p, parked := False\<rparr>"
    assume L: "?L Runq = a @ p # b" and ch: "chosen st a p b" and s: "swtch st = Some ?t"
    have pm: "p \<in> set (?L Runq)" using L by simp
    then have p: "p < length (procs st)" "p_stat (pr st p) = SRUN" using sched_invD(2) [OF i, of p] by auto
    have q0: "queues (st\<lparr>runrun := 0\<rparr>) ?L" by (rule queues_cong [OF q]) simp_all
    have q1: "queues ?s (?L(Runq := a @ b))"
      by (rule queues_cong [OF unlink [OF q0 _ L]]) (simp_all add: links_def fun_eq_iff)
    have q2: "queues ?t (?L(Runq := a @ b))" by (rule queues_cong [OF q1]) (simp_all add: links_upd_same)
    have b: "bare (assign (at_cell Runq a) (links st p) (st\<lparr>runrun := 0\<rparr>)) = bare (st\<lparr>runrun := 0\<rparr>)" by simp
    have n: "length (procs ?s) = length (procs st)" using bare_eqD(1) [OF b] by simp
    have f: "p_stat (pr (upd p ?f ?s) x) = p_stat (pr st x)" "p_wchan (pr (upd p ?f ?s) x) = p_wchan (pr st x)"
      if "x < length (procs st)" for x
      using bare_eqD(2,3) [OF b, of x] that p by (auto simp: pr_upd)
    have f0: "p_stat (pr (assign (at_cell Runq a) (links st p) (st\<lparr>runrun := 0\<rparr>)) x) = p_stat (pr st x)"
      "p_wchan (pr (assign (at_cell Runq a) (links st p) (st\<lparr>runrun := 0\<rparr>)) x) = p_wchan (pr st x)"
      if "x < length (procs st)" for x
      using bare_eqD(2,3) [OF b, of x] that by simp_all
    have d: "p \<notin> set (a @ b)" using queuesD(4) [OF q, of Runq] L by simp
    have r: "set (a @ b) = set (?L Runq) - {p}" using L d by auto
    have "sched_inv ?t (?L(Runq := a @ b))"
      using q2 p n r sched_invD(2,3) [OF i] park by (auto simp: sched_inv_def f f0)
    moreover from this have "sched_ok ?t" by (rule sched_inv_ok)
    ultimately show ?thesis
      using s L ch by - (rule exI [of _ ?t], intro conjI disjI2, assumption, assumption,
        rule exI [of _ a], rule exI [of _ p], rule exI [of _ b], simp)
  qed
qed

section \<open>The theorems\<close>

lemma wakeup_stat:
  assumes ok: "sched_ok st" and p: "p < length (procs st)"
  shows "p_stat (pr (wakeup_eff chan st) p) =
    (if p \<in> set (sleepers chan st) \<or> p = 0 \<and> wakes_sched chan st then SRUN else p_stat (pr st p))"
proof -
  have sub: "set (sleepers chan st) \<subseteq> {..<length (procs (bare st))}"
    by (auto simp: sleepers_iff [OF ok])
  have z: "0 < length (procs st)" by (rule sched_ok_nonempty [OF ok])
  show ?thesis
    using p z by (auto simp: wakeup_eff_def setrun_eff_def Let_def ready_proc fold_woken [OF sub] bare_stat)
qed

lemma wakeup_ok:
  assumes ok: "sched_ok st"
  shows "\<exists>st'. wakeup chan st = Some st' \<and> sched_ok st' \<and> bare st' = wakeup_eff chan st
    \<and> queue_of st' Runq =
        (if wakes_sched chan st \<and> p_stat (pr st 0) \<noteq> SRUN \<and> 0 \<notin> set (sleepers chan st) then [0] else [])
        @ rev (sleepers chan st) @ queue_of st Runq
    \<and> sleepers chan st' = []"
proof -
  obtain st' where w: "wakeup chan st = Some st'" and b: "bare st' = wakeup_eff chan st"
    and i: "sched_inv st' (let L = wake_lists chan st (queue_of st)
         in if wakes_sched chan st \<and> p_stat (pr st 0) \<noteq> SRUN \<and> 0 \<notin> set (sleepers chan st)
            then front 0 L else L)"
    using wakeup_runs [OF ok] by blast
  have o: "sched_ok st'" by (rule sched_inv_ok [OF i])
  have "queue_of st' Runq = (let L = wake_lists chan st (queue_of st)
         in if wakes_sched chan st \<and> p_stat (pr st 0) \<noteq> SRUN \<and> 0 \<notin> set (sleepers chan st)
            then front 0 L else L) Runq"
    by (rule queue_of_unique [OF sched_invD(1) [OF i]]) simp
  also have "\<dots> = (if wakes_sched chan st \<and> p_stat (pr st 0) \<noteq> SRUN \<and> 0 \<notin> set (sleepers chan st) then [0] else [])
        @ rev (sleepers chan st) @ queue_of st Runq"
    by (simp add: Let_def wake_lists_def front_def)
  finally have r: "queue_of st' Runq = \<dots>" .
  have "p \<notin> set (sleepers chan st')" for p
  proof
    assume "p \<in> set (sleepers chan st')"
    then have p: "p < length (procs st')" "p_stat (pr st' p) = SSLEEP" "p_wchan (pr st' p) = chan"
      by (simp_all add: sleepers_iff [OF o])
    have sub: "set (sleepers chan st) \<subseteq> {..<length (procs (bare st))}" by (auto simp: sleepers_iff [OF ok])
    have n: "length (procs st') = length (procs st)"
      using arg_cong [OF b, of "\<lambda>s. length (procs s)"]
      by (simp add: wakeup_eff_def setrun_eff_def Let_def fold_woken [OF sub] split: if_splits)
    with p(1) have l: "p < length (procs st)" by simp
    have "p_stat (pr st' p) = p_stat (pr (wakeup_eff chan st) p)"
      using arg_cong [OF b, of "\<lambda>s. p_stat (pr s p)"] p(1) by (simp add: bare_stat)
    then have ns: "p \<notin> set (sleepers chan st)" "p_stat (pr st p) = SSLEEP" "\<not> (p = 0 \<and> wakes_sched chan st)"
      using p(2) wakeup_stat [OF ok l] by (auto split: if_splits)
    have z: "0 < length (procs st)" by (rule sched_ok_nonempty [OF ok])
    have "p_wchan (pr st' p) = p_wchan (pr (wakeup_eff chan st) p)"
      using arg_cong [OF b, of "\<lambda>s. p_wchan (pr s p)"] p(1) by (simp add: bare_stat)
    also have "\<dots> = p_wchan (pr st p)"
      using ns(1,3) l z by (auto simp: wakeup_eff_def setrun_eff_def Let_def ready_proc fold_woken [OF sub] bare_stat)
    finally show False using ns l p(3) by (simp add: sleepers_iff [OF ok])
  qed
  then have "sleepers chan st' = []" by (metis list.set_intros(1) neq_Nil_conv)
  with w o b r show ?thesis by blast
qed

text \<open>
  C17: \<^verbatim>\<open>wakeup\<close> returns; every process asleep on the channel, and no other one, is taken off its
  sleep queue and put in front of the run queue, the last of the queue first; if one of them
  is swapped out and the scheduler waits for such a process, the scheduler is made runnable too.
\<close>

theorem wakeup_moves_sleepers:
  assumes "sched_ok st"
  shows "\<exists>st'. wakeup chan st = Some st' \<and> sched_ok st' \<and> bare st' = wakeup_eff chan st
    \<and> queue_of st' Runq =
        (if wakes_sched chan st \<and> p_stat (pr st 0) \<noteq> SRUN \<and> 0 \<notin> set (sleepers chan st) then [0] else [])
        @ rev (sleepers chan st) @ queue_of st Runq
    \<and> sleepers chan st' = []"
  by (rule wakeup_ok [OF assms])

text \<open>The fields of a process that scheduling does not write.\<close>

definition stable :: "(proc \<Rightarrow> 'a) \<Rightarrow> bool" where
  "stable g \<longleftrightarrow> (\<forall>x f. g (p_stat_update f x) = g x) \<and> (\<forall>x f. g (p_wchan_update f x) = g x)
     \<and> (\<forall>x f. g (p_time_update f x) = g x) \<and> (\<forall>x f. g (p_link_update f x) = g x)"

lemma stable_fields [simp]:
  "stable p_flag" "stable p_pri" "stable p_sig" "stable p_pid" "stable p_ppid" "stable p_pgrp"
  "stable p_uid" "stable p_suid" "stable p_clktim" "stable p_cpu" "stable p_nice"
  by (simp_all add: stable_def)

lemma stable_bare: "\<lbrakk>stable g; p < length (procs st)\<rbrakk> \<Longrightarrow> g (pr (bare st) p) = g (pr st p)"
  by (simp add: bare_proc stable_def)

lemma stable_upd:
  "\<lbrakk>stable g; \<And>x. g (f x) = g x\<rbrakk> \<Longrightarrow> g (pr (upd p f s) x) = g (pr s x)"
  by (cases "p < length (procs s)"; cases "x = p") (auto simp: pr_upd upd_def list_update_beyond)

lemma stable_wake_one: "stable g \<Longrightarrow> g (pr (wake_one p s) x) = g (pr s x)"
  using stable_upd [of g "p_time_update (\<lambda>_. 0)" p s x] by (simp add: wake_one_def stable_def)

lemma stable_ready: "stable g \<Longrightarrow> g (pr (ready p s) x) = g (pr s x)"
  unfolding ready_def by (simp add: stable_wake_one, rule stable_upd) (simp_all add: stable_def)

lemma stable_woken: "stable g \<Longrightarrow> g (pr (woken p s) x) = g (pr s x)"
  unfolding woken_def by (simp add: stable_wake_one, rule stable_upd) (simp_all add: stable_def)

lemma stable_fold: "stable g \<Longrightarrow> g (pr (fold woken ws s) x) = g (pr s x)"
  by (induction ws arbitrary: s) (simp_all add: stable_woken)

lemma stable_setrun: "stable g \<Longrightarrow> g (pr (setrun_eff p s) x) = g (pr s x)"
  by (simp add: setrun_eff_def Let_def stable_ready)

lemma stable_wakeup: "\<lbrakk>stable g; x < length (procs st)\<rbrakk> \<Longrightarrow> g (pr (wakeup_eff chan st) x) = g (pr st x)"
  by (simp add: wakeup_eff_def Let_def stable_setrun stable_fold stable_bare)

lemma fold_woken_fields [simp]:
  "length (procs (fold woken ws s)) = length (procs s)" "u_procp (fold woken ws s) = u_procp s"
  "parked (fold woken ws s) = parked s" "curpri (fold woken ws s) = curpri s"
  "curproc (fold woken ws s) = curproc s" "panicstr (fold woken ws s) = panicstr s"
  "users (fold woken ws s) = users s" "ve_proc (fold woken ws s) = ve_proc s" "mpid (fold woken ws s) = mpid s"
  by (induction ws arbitrary: s) simp_all

lemma setrun_eff_fields [simp]:
  "length (procs (setrun_eff p s)) = length (procs s)" "u_procp (setrun_eff p s) = u_procp s"
  "parked (setrun_eff p s) = parked s" "curpri (setrun_eff p s) = curpri s"
  "curproc (setrun_eff p s) = curproc s" "panicstr (setrun_eff p s) = panicstr s"
  "users (setrun_eff p s) = users s" "ve_proc (setrun_eff p s) = ve_proc s" "mpid (setrun_eff p s) = mpid s"
  by (simp_all add: setrun_eff_def Let_def)

lemma wakeup_eff_fields [simp]:
  "length (procs (wakeup_eff chan s)) = length (procs s)" "u_procp (wakeup_eff chan s) = u_procp s"
  "parked (wakeup_eff chan s) = parked s" "curpri (wakeup_eff chan s) = curpri s"
  "curproc (wakeup_eff chan s) = curproc s" "panicstr (wakeup_eff chan s) = panicstr s"
  "users (wakeup_eff chan s) = users s" "ve_proc (wakeup_eff chan s) = ve_proc s" "mpid (wakeup_eff chan s) = mpid s"
  by (simp_all add: wakeup_eff_def Let_def)

text \<open>\<open>best_of st p xs\<close>: of the processes in \<open>xs\<close> that are in memory, \<open>p\<close> has strictly the best priority.\<close>

definition best_of :: "sched \<Rightarrow> nat \<Rightarrow> nat list \<Rightarrow> bool" where
  "best_of st p xs \<longleftrightarrow> loaded (pr st p) \<and> p_pri (pr st p) \<le> PIDLE
     \<and> (\<forall>x\<in>set xs. x \<noteq> p \<and> loaded (pr st x) \<longrightarrow> p_pri (pr st p) < p_pri (pr st x))"

lemma swtch_takes_best:
  assumes ok: "sched_ok st" and park: "parked st" and np: "\<not> panicstr st"
    and m: "p \<in> set (queue_of st Runq)" and best: "best_of st p (queue_of st Runq)"
  shows "\<exists>st'. swtch st = Some st' \<and> sched_ok st' \<and> u_procp st' = p \<and> \<not> parked st'"
proof -
  obtain st' where st': "swtch st = Some st'" "sched_ok st'" and
    alt: "(\<forall>x\<in>set (queue_of st Runq). \<not> candidate st x) \<or>
      (\<exists>a r b. queue_of st Runq = a @ r # b \<and> chosen st a r b \<and> u_procp st' = r \<and> \<not> parked st')"
    using swtch_runs [OF ok park] by blast
  have "candidate st p" using best np by (simp add: candidate_def best_of_def PIDLE_def)
  with m alt obtain a r b where r: "queue_of st Runq = a @ r # b" "chosen st a r b"
    "u_procp st' = r" "\<not> parked st'" by blast
  have "r = p"
  proof (rule ccontr)
    assume d: "r \<noteq> p"
    have "loaded (pr st r)" using r(2) by (simp add: chosen_def)
    then have "p_pri (pr st p) < p_pri (pr st r)" using best d r(1) by (simp add: best_of_def)
    moreover have "p \<in> set a \<or> p \<in> set b" using m r(1) d by auto
    then have "p_pri (pr st r) \<le> p_pri (pr st p)" using r(2) np best by (auto simp: chosen_def best_of_def)
    ultimately show False by simp
  qed
  with st' r show ?thesis by blast
qed

text \<open>
  C18: A process asleep on a channel gets the processor once the channel is woken and the running
  process gives way, if it is in memory and its priority is better than that of every other
  process that can run then.
\<close>

theorem woken_process_runs:
  assumes "sched_ok st" "\<not> parked st" "\<not> panicstr st"
    and "p \<in> set (sleepers chan st)"
    and "best_of st p ((if wakes_sched chan st then [0] else []) @ u_procp st # sleepers chan st @ queue_of st Runq)"
  shows "\<exists>st1 st2 st3. wakeup chan st = Some st1 \<and> qswtch st1 = Some st2 \<and> swtch st2 = Some st3
    \<and> sched_ok st3 \<and> u_procp st3 = p \<and> \<not> parked st3"
proof -
  note ok = assms(1)
  obtain st1 where w: "wakeup chan st = Some st1" and o1: "sched_ok st1" and b1: "bare st1 = wakeup_eff chan st"
    and q1: "queue_of st1 Runq =
        (if wakes_sched chan st \<and> p_stat (pr st 0) \<noteq> SRUN \<and> 0 \<notin> set (sleepers chan st) then [0] else [])
        @ rev (sleepers chan st) @ queue_of st Runq"
    using wakeup_ok [OF ok, of chan] by blast
  have n1: "length (procs st1) = length (procs st)" and u1: "u_procp st1 = u_procp st" "parked st1 = parked st"
    using arg_cong [OF b1, of "\<lambda>s. length (procs s)"] arg_cong [OF b1, of u_procp] arg_cong [OF b1, of parked]
    by simp_all
  have par: "\<not> parked st1" using assms(2) u1 by simp
  obtain st2 where s2: "qswtch st1 = Some st2" and b2: "bare st2 = (bare st1)\<lparr>parked := True\<rparr>"
    and i2: "sched_inv st2 ((queue_of st1)(Runq := u_procp st1 # queue_of st1 Runq))"
    using qswtch_ok [OF o1 par] by blast
  have o2: "sched_ok st2" by (rule sched_inv_ok [OF i2])
  have q2: "queue_of st2 Runq = u_procp st # queue_of st1 Runq"
    using queue_of_unique [OF sched_invD(1) [OF i2], of Runq] u1 by simp
  have n2: "length (procs st2) = length (procs st)"
    using arg_cong [OF b2, of "\<lambda>s. length (procs s)"] n1 by simp
  have same: "g (pr st2 x) = g (pr st x)" if "x < length (procs st)" "stable g" for x and g :: "proc \<Rightarrow> 'z"
  proof -
    have "g (pr st2 x) = g (pr (bare st2) x)" using that n2 by (simp add: stable_bare)
    also have "\<dots> = g (pr st1 x)" using that n1 by (simp add: b2 stable_bare)
    also have "\<dots> = g (pr (wakeup_eff chan st) x)" using that n1 by (simp add: stable_bare flip: b1)
    finally show ?thesis using that by (simp add: stable_wakeup)
  qed
  have pl: "p_pri (pr st2 x) = p_pri (pr st x)" "loaded (pr st2 x) = loaded (pr st x)" if "x < length (procs st)" for x
    using same [OF that, of p_pri] same [OF that, of p_flag] by (simp_all add: loaded_def)
  have pn: "\<not> panicstr st2" and pk: "parked st2"
    using arg_cong [OF b2, of panicstr] arg_cong [OF b1, of panicstr] assms(3) arg_cong [OF b2, of parked] by simp_all
  have sub: "x < length (procs st)" "x \<in> set ((if wakes_sched chan st then [0] else []) @ u_procp st # sleepers chan st @ queue_of st Runq)"
    if "x \<in> set (queue_of st2 Runq)" for x
    using that sched_invD(2) [OF o2 [unfolded sched_ok_def], of x] n2 by (auto simp: q2 q1 split: if_splits)
  have m: "p \<in> set (queue_of st2 Runq)" using assms(4) by (simp add: q2 q1)
  have "p_pri (pr st p) < p_pri (pr st x)" if "x \<in> set (queue_of st2 Runq)" "x \<noteq> p" "loaded (pr st x)" for x
    using assms(5) sub(2) [OF that(1)] that(2,3) unfolding best_of_def by blast
  then have "best_of st2 p (queue_of st2 Runq)"
    using assms(5) sub(1) pl m by (simp add: best_of_def)
  then show ?thesis using swtch_takes_best [OF o2 pk pn m] w s2 by blast
qed

section \<open>A small process table\<close>

text \<open>
  The state of the examples: the scheduler and process 1 are asleep, on channels with the hash
  values 1 and 2, process 2, a child of process 1, runs, with the signals 1 (which it ignores) and
  2 pending, entry 3 is a zombie child of process 2 with the exit status \<open>0x100\<close>, entry 4 is free.
\<close>

definition demo :: sched where
  "demo = \<lparr>procs = [
       free_entry\<lparr>p_stat := SSLEEP, p_flag := SLOAD OR SSYS, p_wchan := 0x1008\<rparr>,
       free_entry\<lparr>p_stat := SSLEEP, p_flag := SLOAD, p_pri := PWAIT, p_wchan := 0x2010, p_pid := 1\<rparr>,
       free_entry\<lparr>p_stat := SRUN, p_flag := SLOAD, p_pri := PUSER, p_pid := 2, p_ppid := 1, p_sig := 3\<rparr>,
       free_entry\<lparr>p_stat := SZOMB, p_pid := 3, p_ppid := 2, p_sig := 0x1000000\<rparr>,
       free_entry],
     users = (replicate 5 boot_user)[2 := boot_user\<lparr>u_signal := (replicate NSIG 0)[0 := 1]\<rparr>],
     ve_proc = 4, runq = None, hsque = (replicate NHSQUE None)[1 := Some 0, 2 := Some 1],
     curpri = PUSER, curproc = 2, runrun = 0, runout = 0, panicstr = False, u_procp = 2, parked = False, mpid = 3\<rparr>"

definition demo_queues :: "cell \<Rightarrow> nat list" where
  "demo_queues = (\<lambda>_. [])(Hsque 1 := [0], Hsque 2 := [1])"

lemma sqhash_demo: "sqhash 0x1008 = 1" "sqhash 0x2010 = 2"
  by (simp_all add: sqhash_def)

lemma demo_procs:
  "length (procs demo) = 5"
  "pr demo 0 = free_entry\<lparr>p_stat := SSLEEP, p_flag := SLOAD OR SSYS, p_wchan := 0x1008\<rparr>"
  "pr demo (Suc 0) = free_entry\<lparr>p_stat := SSLEEP, p_flag := SLOAD, p_pri := PWAIT, p_wchan := 0x2010, p_pid := 1\<rparr>"
  "pr demo 2 = free_entry\<lparr>p_stat := SRUN, p_flag := SLOAD, p_pri := PUSER, p_pid := 2, p_ppid := 1, p_sig := 3\<rparr>"
  "pr demo 3 = free_entry\<lparr>p_stat := SZOMB, p_pid := 3, p_ppid := 2, p_sig := 0x1000000\<rparr>"
  "pr demo 4 = free_entry"
  by (simp_all add: demo_def)

lemma demo_cases: "p < 5 \<Longrightarrow> p = 0 \<or> p = Suc 0 \<or> p = 2 \<or> p = 3 \<or> p = (4 :: nat)"
  by linarith

lemma demo_inv: "sched_inv demo demo_queues"
  unfolding sched_inv_def
proof (intro conjI allI impI)
  show "queues demo demo_queues"
  proof (rule queuesI)
    show "chain (links demo) (deref demo k) (demo_queues k)" if "k \<in> heads" for k
      using that by (cases k) (auto simp: deref_def demo_queues_def demo_def links_def free_entry_def nth_list_update NHSQUE_def)
  qed (auto simp: demo_queues_def demo_procs split: if_splits, simp add: demo_def)
  show "set (demo_queues Runq) = {p. p < length (procs demo) \<and> p_stat (pr demo p) = SRUN \<and> (p = u_procp demo \<longrightarrow> parked demo)}"
    by (auto simp: demo_queues_def demo_procs free_entry_def dest!: demo_cases) (simp_all add: demo_def)
  show "set (demo_queues (Hsque h)) = {p. p < length (procs demo) \<and> p_stat (pr demo p) = SSLEEP \<and> sqhash (p_wchan (pr demo p)) = h}" for h
    by (auto simp: demo_queues_def demo_procs free_entry_def sqhash_demo dest!: demo_cases split: if_splits)
qed (simp_all add: demo_def)

lemma demo_ok: "sched_ok demo"
  by (rule sched_inv_ok [OF demo_inv])

lemma demo_queue: "k \<in> heads \<Longrightarrow> queue_of demo k = demo_queues k"
  using queue_of_unique [OF sched_invD(1) [OF demo_inv]] by blast

lemma demo_sleepers: "sleepers 0x2010 demo = [1]"
  by (simp add: sleepers_def demo_queue sqhash_demo NHSQUE_def) (simp add: demo_queues_def demo_procs)

theorem wakeup_moves_sleepers_witness:
  "\<exists>st'. wakeup 0x2010 demo = Some st' \<and> sched_ok st' \<and> queue_of st' Runq = [1] \<and> sleepers 0x2010 st' = []"
proof -
  have "\<not> wakes_sched 0x2010 demo" by (simp add: wakes_sched_def) (simp add: demo_def)
  then show ?thesis
    using wakeup_moves_sleepers [OF demo_ok, of "0x2010"] by (auto simp: demo_sleepers demo_queue demo_queues_def)
qed

theorem woken_process_runs_witness:
  "\<exists>st1 st2 st3. wakeup 0x2010 demo = Some st1 \<and> qswtch st1 = Some st2 \<and> swtch st2 = Some st3
    \<and> sched_ok st3 \<and> u_procp st3 = 1 \<and> \<not> parked st3"
proof (rule woken_process_runs [OF demo_ok])
  have w: "\<not> wakes_sched 0x2010 demo" by (simp add: wakes_sched_def) (simp add: demo_def)
  have q: "queue_of demo Runq = []" by (simp add: demo_queue) (simp add: demo_queues_def)
  have u: "u_procp demo = 2" by (simp add: demo_def)
  show "best_of demo 1 ((if wakes_sched 0x2010 demo then [0] else []) @ u_procp demo # sleepers 0x2010 demo @ queue_of demo Runq)"
    using w by (simp add: best_of_def q u demo_sleepers demo_procs free_entry_def loaded_def SLOAD_def PIDLE_def PWAIT_def PUSER_def)
qed (simp_all add: demo_sleepers, simp_all add: demo_def)

end
