(* ===== verification/Proc_Signal.thy ===== *)
theory Proc_Signal
  imports Run_Queue
begin

text \<open>
  Signals (\<^verbatim>\<open>sys/os/sig.c\<close>), the rest of \<^verbatim>\<open>sleep\<close> (\<^verbatim>\<open>sys/os/slp.c\<close>), the system calls \<^verbatim>\<open>kill\<close>, \<^verbatim>\<open>signal\<close>
  (\<^verbatim>\<open>ssig\<close>) and \<^verbatim>\<open>alarm\<close> (\<^verbatim>\<open>sys/os/sys4.c\<close>), and what the clock does to every process each second
  (\<^verbatim>\<open>sys/os/clock.c\<close>). The pending signals of a process are the bits of \<^verbatim>\<open>p_sig\<close>, signal \<open>n\<close> being
  bit \<open>n - 1\<close>. Reading \<^verbatim>\<open>u_signal[-1]\<close>, which \<^verbatim>\<open>issig\<close> would do for a pending signal 32, is the
  result \<open>None\<close>. What \<^verbatim>\<open>psig\<close> does with a signal that ends the process or calls a handler is a
  value; the copies to user space of \<^verbatim>\<open>freeproc\<close> belong to \<^verbatim>\<open>wait\<close>.
\<close>

section \<open>Sending\<close>

abbreviation "SIGILL \<equiv> 4 :: nat"
abbreviation "SIGTRAP \<equiv> 5 :: nat"
abbreviation "SIGKILL \<equiv> 9 :: int"
abbreviation "SIGALRM \<equiv> 14 :: int"
abbreviation "SIGCLD \<equiv> 23 :: nat"
abbreviation "SIGPWR \<equiv> 24 :: nat"

definition curp :: "sched \<Rightarrow> proc" where "curp st = pr st (u_procp st)"
definition uarea :: "sched \<Rightarrow> user" where "uarea st = users st ! u_procp st"

definition u_upd :: "(user \<Rightarrow> user) \<Rightarrow> sched \<Rightarrow> sched" where
  "u_upd f st = st\<lparr>users := (users st)[u_procp st := f (uarea st)]\<rparr>"

text \<open>\<^verbatim>\<open>fsig\<close>: the loop, \<open>k\<close> rounds from \<open>i\<close> on.\<close>

fun fsig_loop :: "nat \<Rightarrow> nat \<Rightarrow> u32 \<Rightarrow> nat" where
  "fsig_loop 0 i n = 0"
| "fsig_loop (Suc k) i n = (if n AND 1 \<noteq> 0 then i else fsig_loop k (i + 1) (signed_drop_bit 1 n))"

definition fsig :: "u32 \<Rightarrow> nat" where
  "fsig n = fsig_loop NSIG 1 n"

definition psignal :: "nat \<Rightarrow> int \<Rightarrow> sched \<Rightarrow> sched option" where
  "psignal p sig st =
    (let s = sig - 1
     in if s < 0 \<or> s \<ge> int NSIG then Some st
        else let st1 = upd p (p_sig_update (\<lambda>x. x OR push_bit (nat s) 1)) st
             in if p_stat (pr st1 p) = SSLEEP \<and> p_pri (pr st1 p) > PZERO then setrun p st1 else Some st1)"

text \<open>A loop over processes of the table, each step of which may fail to return.\<close>

fun each :: "(nat \<Rightarrow> sched \<Rightarrow> sched option) \<Rightarrow> nat list \<Rightarrow> sched \<Rightarrow> sched option" where
  "each f [] st = Some st"
| "each f (p # ps) st = Option.bind (f p st) (each f ps)"

definition signal :: "int \<Rightarrow> int \<Rightarrow> sched \<Rightarrow> sched option" where
  "signal pgrp sig st =
    (if pgrp = 0 then Some st
     else each (\<lambda>p s. if p_pgrp (pr s p) = pgrp then psignal p sig s else Some s) [1..<ve_proc st] st)"

section \<open>Receiving\<close>

text \<open>
  \<^verbatim>\<open>freeproc\<close>: the times of the child go to the running process, with \<open>flag\<close> also its
  processor use and, as the value of the call, its number.
\<close>

definition freeproc :: "nat \<Rightarrow> bool \<Rightarrow> sched \<Rightarrow> sched" where
  "freeproc p flag st =
    (let st1 = (if flag then
            (let n = p_cpu (curp st) + p_cpu (pr st p)
             in u_upd (u_rval1_update (\<lambda>_. p_pid (pr st p)))
                  (upd (u_procp st) (p_cpu_update (\<lambda>_. if n > 80 then 80 else n)) st))
          else st);
         st2 = u_upd (\<lambda>x. x\<lparr>u_cutime := u_cutime x + xp_utime (pr st1 p),
                            u_cstime := u_cstime x + xp_stime (pr st1 p)\<rparr>) st1
     in upd p (\<lambda>x. x\<lparr>p_stat := PFREE, p_pid := 0, p_ppid := 0, p_sig := 0, p_flag := 0, p_wchan := 0\<rparr>) st2)"

text \<open>The loop of \<^verbatim>\<open>issig\<close> that frees the zombie children of a process that ignores \<^verbatim>\<open>SIGCLD\<close>.\<close>

definition reap_step :: "nat \<Rightarrow> sched \<Rightarrow> sched" where
  "reap_step q st = (if p_pid (curp st) = p_ppid (pr st q) \<and> p_stat (pr st q) = SZOMB then freeproc q False st else st)"

definition reap_ignored :: "sched \<Rightarrow> sched" where
  "reap_ignored st = fold reap_step [1..<ve_proc st] st"

definition clear_sig :: "nat \<Rightarrow> sched \<Rightarrow> sched" where
  "clear_sig n st = upd (u_procp st) (p_sig_update (\<lambda>x. x AND NOT (push_bit (n - 1) 1))) st"

partial_function (option) issig :: "sched \<Rightarrow> (nat \<times> sched) option" where
  "issig st =
    (if p_sig (curp st) = 0 then Some (0, st)
     else let n = fsig (p_sig (curp st)) in
       if n = 0 then None
       else let d = u_signal (uarea st) ! (n - 1) in
         if n = SIGCLD then
           (if odd d then issig (clear_sig n (reap_ignored st))
            else if d \<noteq> 0 then Some (n, st)
            else issig (clear_sig n st))
         else if n = SIGPWR then
           (if d \<noteq> 0 \<and> even d then Some (n, st) else issig (clear_sig n st))
         else if even d \<or> p_flag (curp st) AND STRC \<noteq> 0 then Some (n, st)
         else issig (clear_sig n st))"

text \<open>
  \<^verbatim>\<open>psig\<close>, from the point where a traced process has been stopped and continued: nothing, the
  call of a handler, or the end of the process, with a core dump for some signals.
\<close>

datatype psig_act = PsNone | PsCatch int nat | PsExit bool nat

definition dumps_core :: "nat \<Rightarrow> bool" where
  "dumps_core n \<longleftrightarrow> n \<in> {3, 4, 5, 6, 7, 8, 10, 11, 12, 16, 17, 18, 19, 20}"

definition psig :: "sched \<Rightarrow> psig_act \<times> sched" where
  "psig st =
    (let n = fsig (p_sig (curp st)) in
     if n = 0 then (PsNone, st)
     else let st1 = clear_sig n st; p = u_signal (uarea st1) ! (n - 1) in
       if p \<noteq> 0 then
         (if odd p then (PsNone, st1)
          else let st2 = u_upd (u_error_update (\<lambda>_. None)) st1;
                   st3 = (if n \<noteq> SIGILL \<and> n \<noteq> SIGTRAP
                          then u_upd (u_signal_update (\<lambda>s. s[n - 1 := 0])) st2 else st2)
               in (PsCatch p n, st3))
       else (PsExit (dumps_core n) n, st1))"

definition exit_status :: "nat \<Rightarrow> bool \<Rightarrow> int" where
  "exit_status n dumped = (if dumped then int n + 128 else int n)"

section \<open>sleep\<close>

text \<open>
  \<^verbatim>\<open>sleep\<close> up to its call of \<^verbatim>\<open>swtch\<close>, and from its return on. \<open>Signalled True\<close> is the return of
  1 to a caller that gave \<^verbatim>\<open>PCATCH\<close>, \<open>Signalled False\<close> the jump to \<^verbatim>\<open>u_qsav\<close>.
\<close>

datatype slept = Switched | Awake | Signalled bool

definition caught :: "u32 \<Rightarrow> slept" where
  "caught disp = Signalled (disp AND PCATCH \<noteq> 0)"

definition sleep :: "u32 \<Rightarrow> u32 \<Rightarrow> sched \<Rightarrow> (slept \<times> sched) option" where
  "sleep chan disp st =
    (let rp = u_procp st; q = Hsque (sqhash chan); st1 = (sleep_enq chan disp st)\<lparr>parked := True\<rparr>
     in if p_pri (pr st1 rp) > PZERO \<and> p_sig (pr st1 rp) \<noteq> 0 then
          Option.bind (issig st1) (\<lambda>(n, st2).
            if n \<noteq> 0 then
              (let st3 = upd rp (\<lambda>x. x\<lparr>p_wchan := 0, p_stat := SRUN\<rparr>) st2
               in Some (caught disp, (assign q (links st3 rp) st3)\<lparr>parked := False\<rparr>))
            else Some (Switched, st2))
        else Some (Switched, st1))"

definition sleep_return :: "u32 \<Rightarrow> sched \<Rightarrow> (slept \<times> sched) option" where
  "sleep_return disp st =
    (if uint (disp AND PMASK) > PZERO \<and> p_sig (curp st) \<noteq> 0 then
       Option.bind (issig st) (\<lambda>(n, st1). if n \<noteq> 0 then Some (caught disp, st1) else Some (Awake, st1))
     else Some (Awake, st))"

section \<open>System calls\<close>

definition ssig_pend :: "nat \<Rightarrow> sched \<Rightarrow> sched option" where
  "ssig_pend q st = (if p_pid (curp st) = p_ppid (pr st q) \<and> p_stat (pr st q) = SZOMB
     then psignal (u_procp st) (int SIGCLD) st else Some st)"

definition ssig :: "int \<Rightarrow> int \<Rightarrow> sched \<Rightarrow> (errno option \<times> sched) option" where
  "ssig signo func st =
    (if signo \<le> 0 \<or> signo > int NSIG \<or> signo = SIGKILL then Some (Some EINVAL, st)
     else let n = nat signo;
              st1 = u_upd (\<lambda>x. x\<lparr>u_rval1 := u_signal x ! (n - 1), u_signal := (u_signal x)[n - 1 := func]\<rparr>) st;
              st2 = clear_sig n st1
          in if n = SIGCLD then map_option (Pair None) (each ssig_pend [1..<ve_proc st2] st2)
             else Some (None, st2))"

definition may_signal :: "sched \<Rightarrow> nat \<Rightarrow> bool" where
  "may_signal st p \<longleftrightarrow> u_uid (uarea st) = 0 \<or> u_uid (uarea st) = p_uid (pr st p) \<or> u_ruid (uarea st) = p_uid (pr st p)
     \<or> u_uid (uarea st) = p_suid (pr st p) \<or> u_ruid (uarea st) = p_suid (pr st p)"

fun kill_loop :: "nat list \<Rightarrow> int \<Rightarrow> int \<Rightarrow> nat \<Rightarrow> sched \<Rightarrow> (errno option \<times> sched) option" where
  "kill_loop [] arg signo f st = Some (if f = 0 then Some ESRCH else None, st)"
| "kill_loop (p # ps) arg signo f st =
    (if p_stat (pr st p) = PFREE then kill_loop ps arg signo f st
     else if arg > 0 \<and> p_pid (pr st p) \<noteq> arg then kill_loop ps arg signo f st
     else if arg = 0 \<and> p_pgrp (pr st p) \<noteq> p_pgrp (curp st) then kill_loop ps arg signo f st
     else if arg < - 1 \<and> p_pgrp (pr st p) \<noteq> - arg then kill_loop ps arg signo f st
     else if \<not> may_signal st p then
       (if arg > 0 then Some (Some EPERM, st) else kill_loop ps arg signo f st)
     else Option.bind (if signo \<noteq> 0 then psignal p signo st else Some st) (\<lambda>st1.
       if arg > 0 then Some (None, st1) else kill_loop ps arg signo (f + 1) st1))"

definition kill :: "int \<Rightarrow> int \<Rightarrow> sched \<Rightarrow> (errno option \<times> sched) option" where
  "kill pid signo st =
    (if signo < 0 \<or> signo > int NSIG then Some (Some EINVAL, st)
     else if signo = SIGKILL \<and> pid = 1 then Some (Some EINVAL, st)
     else if pid = 0 \<and> p_pgrp (curp st) = 0 then Some (Some ESRCH, st)
     else kill_loop [(if pid > 0 then 1 else 2)..<ve_proc st] pid signo 0 st)"

definition alarm :: "int \<Rightarrow> sched \<Rightarrow> sched" where
  "alarm deltat st = u_upd (u_rval1_update (\<lambda>_. p_clktim (curp st)))
     (upd (u_procp st) (p_clktim_update (\<lambda>_. deltat)) st)"

section \<open>The clock, once a second\<close>

text \<open>The priority of a process in user mode; the clock's loop body.\<close>

definition new_pri :: "proc \<Rightarrow> int" where
  "new_pri x = (let n = p_cpu x + (if p_inter x \<noteq> 0 then 0 else PINTER) + p_nice x + (PUSER - NZERO)
                in if n > PIDLE then PIDLE else n)"

definition clock_proc :: "nat \<Rightarrow> sched \<Rightarrow> sched option" where
  "clock_proc p st =
    (if p_stat (pr st p) = PFREE then Some st
     else let st1 = upd p (\<lambda>x. if p_time x \<noteq> SCHMAX then x\<lparr>p_time := p_time x + 1\<rparr> else x) st
       in Option.bind
         (if p_clktim (pr st1 p) \<noteq> 0 then
            (let st2 = upd p (p_clktim_update (\<lambda>c. c - 1)) st1
             in if p_clktim (pr st2 p) = 0 then psignal p SIGALRM st2 else Some st2)
          else Some st1) (\<lambda>st3.
         let st4 = upd p (\<lambda>x. x\<lparr>p_cpu := drop_bit 1 (p_cpu x), p_inter := (if p_inter x \<noteq> 0 then p_inter x - 1 else 0)\<rparr>) st3
         in if p_pri (pr st4 p) \<ge> PUSER - NZERO then
              (let st5 = upd p (\<lambda>x. x\<lparr>p_pri := new_pri x\<rparr>) st4
               in Some (st5\<lparr>curpri := p_pri (pr st5 p)\<rparr>))
            else Some st4))"

definition clock_second :: "sched \<Rightarrow> sched option" where
  "clock_second st = each clock_proc [0..<ve_proc st] (st\<lparr>runrun := runrun st + 1\<rparr>)"

section \<open>fsig\<close>

lemma and_1_iff: "(n :: u32) AND 1 \<noteq> 0 \<longleftrightarrow> bit n 0"
  by (simp add: and_one_eq bit_0 odd_iff_mod_2_eq_one)

lemma bit_sdrop: "m + i < 32 \<Longrightarrow> bit (signed_drop_bit m (w :: u32)) i \<longleftrightarrow> bit w (m + i)"
  by (auto simp: bit_signed_drop_bit_iff not_le)

lemma fsig_loop_spec:
  "m + k < 32 \<Longrightarrow> fsig_loop k (m + 1) (signed_drop_bit m w) =
    (if \<exists>j. m \<le> j \<and> j < m + k \<and> bit w j then Suc (LEAST j. m \<le> j \<and> bit w j) else 0)"
proof (induction k arbitrary: m)
  case 0
  then show ?case by simp
next
  case (Suc k)
  have b0: "bit (signed_drop_bit m w) 0 \<longleftrightarrow> bit w m" using Suc.prems bit_sdrop [of m 0 w] by simp
  show ?case
  proof (cases "bit w m")
    case True
    then have "(LEAST j. m \<le> j \<and> bit w j) = m" by (intro Least_equality) auto
    moreover have "\<exists>j. m \<le> j \<and> j < m + Suc k \<and> bit w j" using True by (intro exI [of _ m]) simp
    ultimately show ?thesis using True by (simp add: and_1_iff b0)
  next
    case False
    have e: "m \<le> j \<and> bit w j \<longleftrightarrow> Suc m \<le> j \<and> bit w j" for j
      using False by (metis le_antisym not_less_eq_eq Suc_leD)
    have ex: "(\<exists>j. m \<le> j \<and> j < m + Suc k \<and> bit w j) \<longleftrightarrow> (\<exists>j. Suc m \<le> j \<and> j < Suc m + k \<and> bit w j)"
      using e by auto
    have "fsig_loop (Suc k) (m + 1) (signed_drop_bit m w) = fsig_loop k (Suc m + 1) (signed_drop_bit (Suc m) w)"
      using False by (simp add: and_1_iff b0)
    also have "\<dots> = (if \<exists>j. Suc m \<le> j \<and> j < Suc m + k \<and> bit w j then Suc (LEAST j. Suc m \<le> j \<and> bit w j) else 0)"
      by (rule Suc.IH) (use Suc.prems in simp)
    finally show ?thesis unfolding ex e .
  qed
qed

text \<open>\<^verbatim>\<open>fsig\<close> is the lowest pending signal, 0 when none of the 31 signals is pending.\<close>

lemma fsig_spec: "fsig w = (if \<exists>j<31. bit w j then Suc (LEAST j. bit w j) else 0)"
  using fsig_loop_spec [of 0 31 w] by (simp add: fsig_def NSIG_def)

lemma fsig_least:
  "(LEAST j. bit (w :: u32) j) = i" if "bit w i" "\<And>j. j < i \<Longrightarrow> \<not> bit w j"
  by (rule Least_equality) (use that in \<open>auto simp: not_less [symmetric]\<close>)

lemma fsig_pending:
  assumes "bit (w :: u32) j" "j < 31"
  shows "0 < fsig w" "fsig w \<le> 31" "bit w (fsig w - 1)" "\<And>i. i < fsig w - 1 \<Longrightarrow> \<not> bit w i"
proof -
  have f: "fsig w = Suc (LEAST j. bit w j)" using assms by (auto simp: fsig_spec)
  then show "0 < fsig w" "bit w (fsig w - 1)" using LeastI [of "bit w", OF assms(1)] by simp_all
  show "fsig w \<le> 31" using f Least_le [of "bit w", OF assms(1)] assms(2) by simp
  show "\<not> bit w i" if "i < fsig w - 1" for i using that f not_less_Least by simp
qed

lemma fsig_none: "\<lbrakk>fsig w = 0; \<not> bit w 31\<rbrakk> \<Longrightarrow> w = 0"
proof (rule bit_word_eqI)
  fix n assume "fsig w = 0" "\<not> bit w 31" "n < LENGTH(32)"
  then show "bit w n = bit 0 n"
    by (cases "n = 31") (auto simp: fsig_spec split: if_splits)
qed

section \<open>What keeps the queues\<close>

lemma sched_ok_upd:
  assumes "sched_ok st" "\<And>x. p_stat (f x) = p_stat x" "\<And>x. p_wchan (f x) = p_wchan x" "\<And>x. p_link (f x) = p_link x"
  shows "sched_ok (upd p f st)"
proof (rule sched_ok_frame [OF assms(1)])
  show "links (upd p f st) = links st" by (rule links_upd_same [OF assms(4)])
  show "p_stat (pr (upd p f st) x) = p_stat (pr st x)" "p_wchan (pr (upd p f st) x) = p_wchan (pr st x)" for x
    by (cases "p < length (procs st)"; cases "x = p"; simp add: pr_upd upd_def list_update_beyond assms)+
qed simp_all

lemma sched_ok_fields:
  assumes "sched_ok st"
  shows "sched_ok (st\<lparr>users := us\<rparr>)" "sched_ok (st\<lparr>ve_proc := v\<rparr>)" "sched_ok (st\<lparr>mpid := m\<rparr>)"
    "sched_ok (st\<lparr>runrun := r\<rparr>)" "sched_ok (st\<lparr>curpri := c\<rparr>)" "sched_ok (st\<lparr>runout := r\<rparr>)"
  by (rule sched_ok_frame [OF assms]; simp)+

lemma u_upd_fields [simp]:
  "procs (u_upd f st) = procs st" "ve_proc (u_upd f st) = ve_proc st" "u_procp (u_upd f st) = u_procp st"
  "parked (u_upd f st) = parked st" "runq (u_upd f st) = runq st" "hsque (u_upd f st) = hsque st"
  "curpri (u_upd f st) = curpri st" "curproc (u_upd f st) = curproc st" "runrun (u_upd f st) = runrun st"
  "runout (u_upd f st) = runout st" "panicstr (u_upd f st) = panicstr st" "mpid (u_upd f st) = mpid st"
  "length (users (u_upd f st)) = length (users st)" "links (u_upd f st) = links st"
  by (simp_all add: u_upd_def)

lemma sched_ok_u_upd: "sched_ok st \<Longrightarrow> sched_ok (u_upd f st)"
  unfolding u_upd_def by (rule sched_ok_fields)

text \<open>A process that is on no queue may change to a status that names none.\<close>

lemma sched_ok_offqueue:
  assumes ok: "sched_ok st" and p: "p < length (procs st)"
    and s: "p_stat (pr st p) \<notin> {SRUN, SSLEEP}" "p_stat (f (pr st p)) \<notin> {SRUN, SSLEEP}"
    and l: "\<And>x. p_link (f x) = p_link x"
  shows "sched_ok (upd p f st)"
proof -
  have i: "sched_inv st (queue_of st)" using ok by (simp add: sched_ok_def)
  have "queues (upd p f st) (queue_of st)"
    by (rule queues_cong [OF sched_invD(1) [OF i]]) (simp_all add: links_upd_same l)
  moreover have "p = u_procp st \<Longrightarrow> parked st" using sched_invD(5) [OF i] s(1) by auto
  ultimately have "sched_inv (upd p f st) (queue_of st)"
    using sched_invD(2-5) [OF i] s p unfolding sched_inv_def by (auto simp: pr_upd split: if_splits)
  then show ?thesis by (rule sched_inv_ok)
qed

section \<open>The process table\<close>

text \<open>
  The table: entries from \<^verbatim>\<open>v.ve_proc\<close> on are free, the scheduler does not end, process numbers are unique, a process that
  is not a zombie has no signal 32 pending (in a zombie \<^verbatim>\<open>p_sig\<close> holds the exit status), and
  every process has a full table of dispositions.
\<close>

definition table_ok :: "sched \<Rightarrow> bool" where
  "table_ok st \<longleftrightarrow> length (users st) = length (procs st)
     \<and> (\<forall>us\<in>set (users st). length (u_signal us) = NSIG)
     \<and> 1 \<le> ve_proc st \<and> ve_proc st \<le> length (procs st) \<and> p_stat (pr st 0) \<notin> {PFREE, SZOMB}
     \<and> (\<forall>p. ve_proc st \<le> p \<and> p < length (procs st) \<longrightarrow> p_stat (pr st p) = PFREE)
     \<and> (\<forall>p<length (procs st). p_stat (pr st p) \<noteq> SZOMB \<longrightarrow> \<not> bit (p_sig (pr st p)) 31)
     \<and> (\<forall>p<length (procs st). \<forall>q<length (procs st). p_stat (pr st p) \<noteq> PFREE \<and> p_stat (pr st q) \<noteq> PFREE
          \<and> p_pid (pr st p) = p_pid (pr st q) \<longrightarrow> p = q)"

lemma table_okD:
  assumes "table_ok st"
  shows "length (users st) = length (procs st)" "us \<in> set (users st) \<Longrightarrow> length (u_signal us) = NSIG"
    "1 \<le> ve_proc st" "ve_proc st \<le> length (procs st)"
    "\<lbrakk>ve_proc st \<le> p; p < length (procs st)\<rbrakk> \<Longrightarrow> p_stat (pr st p) = PFREE"
    "\<lbrakk>p < length (procs st); p_stat (pr st p) \<noteq> SZOMB\<rbrakk> \<Longrightarrow> \<not> bit (p_sig (pr st p)) 31"
    "\<lbrakk>p < length (procs st); q < length (procs st); p_stat (pr st p) \<noteq> PFREE; p_stat (pr st q) \<noteq> PFREE;
      p_pid (pr st p) = p_pid (pr st q)\<rbrakk> \<Longrightarrow> p = q"
    "p_stat (pr st 0) \<noteq> PFREE" "p_stat (pr st 0) \<noteq> SZOMB"
  using assms unfolding table_ok_def by auto

text \<open>
  A change of the state keeps the table when it keeps numbers, makes no used entry of a free
  one and sets no signal 32.
\<close>

lemma table_ok_frame:
  assumes t: "table_ok st" and n: "length (procs st') = length (procs st)" "ve_proc st' = ve_proc st"
    and us: "length (users st') = length (users st)" "\<And>x. x \<in> set (users st') \<Longrightarrow> length (u_signal x) = NSIG"
    and p: "\<And>p. p < length (procs st) \<Longrightarrow> p_stat (pr st' p) \<noteq> PFREE \<Longrightarrow>
        p_stat (pr st p) \<noteq> PFREE \<and> p_pid (pr st' p) = p_pid (pr st p)"
    and b: "\<And>p. p < length (procs st) \<Longrightarrow> p_stat (pr st' p) \<noteq> SZOMB \<Longrightarrow> \<not> bit (p_sig (pr st' p)) 31"
    and z: "p_stat (pr st' 0) \<notin> {PFREE, SZOMB}"
  shows "table_ok st'"
  unfolding table_ok_def n us(1)
proof (intro conjI allI impI ballI)
  show "length (users st) = length (procs st)" "1 \<le> ve_proc st" "ve_proc st \<le> length (procs st)"
    using table_okD [OF t] by simp_all
  show "p_stat (pr st' 0) \<notin> {PFREE, SZOMB}" by (rule z)
  show "length (u_signal x) = NSIG" if "x \<in> set (users st')" for x by (rule us(2) [OF that])
  show "p_stat (pr st' q) = PFREE" if "ve_proc st \<le> q \<and> q < length (procs st)" for q
    using table_okD(5) [OF t, of q] p [of q] that by blast
  show "\<not> bit (p_sig (pr st' q)) 31" if "q < length (procs st)" "p_stat (pr st' q) \<noteq> SZOMB" for q
    by (rule b [OF that])
  show "q = r" if "q < length (procs st)" "r < length (procs st)"
    "p_stat (pr st' q) \<noteq> PFREE \<and> p_stat (pr st' r) \<noteq> PFREE \<and> p_pid (pr st' q) = p_pid (pr st' r)" for q r
    using table_okD(7) [OF t that(1,2)] p [OF that(1)] p [OF that(2)] that(3) by auto
qed

definition proc_ok :: "sched \<Rightarrow> bool" where
  "proc_ok st \<longleftrightarrow> sched_ok st \<and> table_ok st"

definition psignal_eff :: "nat \<Rightarrow> int \<Rightarrow> sched \<Rightarrow> sched" where
  "psignal_eff p sig s =
    (if sig < 1 \<or> sig > int NSIG then s
     else let s1 = upd p (p_sig_update (\<lambda>x. x OR push_bit (nat (sig - 1)) 1)) s
          in if p_stat (pr s1 p) = SSLEEP \<and> p_pri (pr s1 p) > PZERO then setrun_eff p s1 else s1)"

lemma psignal_runs:
  assumes ok: "sched_ok st" and p: "p < length (procs st)"
  shows "\<exists>st'. psignal p sig st = Some st' \<and> sched_ok st' \<and> bare st' = psignal_eff p sig (bare st)"
proof (cases "sig < 1 \<or> sig > int NSIG")
  case True
  then show ?thesis using ok by (auto simp: psignal_def psignal_eff_def Let_def)
next
  case False
  define st1 where "st1 = upd p (p_sig_update (\<lambda>x. x OR push_bit (nat (sig - 1)) 1)) st"
  have o1: "sched_ok st1" unfolding st1_def by (rule sched_ok_upd [OF ok]) simp_all
  have b1: "bare st1 = upd p (p_sig_update (\<lambda>x. x OR push_bit (nat (sig - 1)) 1)) (bare st)"
    unfolding st1_def by (rule bare_upd) (simp_all add: p)
  have n1: "length (procs st1) = length (procs st)" by (simp add: st1_def)
  have c: "p_stat (pr (bare st1) p) = p_stat (pr st1 p)" "p_pri (pr (bare st1) p) = p_pri (pr st1 p)"
    using p n1 by (simp_all add: bare_stat)
  have e: "psignal p sig st = (if p_stat (pr st1 p) = SSLEEP \<and> p_pri (pr st1 p) > PZERO then setrun p st1 else Some st1)"
    using False by (simp add: psignal_def st1_def Let_def)
  have e2: "psignal_eff p sig (bare st) = (if p_stat (pr st1 p) = SSLEEP \<and> p_pri (pr st1 p) > PZERO
      then setrun_eff p (bare st1) else bare st1)"
    using False unfolding psignal_eff_def b1 [symmetric] Let_def c by simp
  show ?thesis
    unfolding e e2 using setrun_ok [OF o1, of p] p n1 o1 by auto
qed

lemma psignal_eff_fields [simp]:
  "length (procs (psignal_eff p sig s)) = length (procs s)" "u_procp (psignal_eff p sig s) = u_procp s"
  "parked (psignal_eff p sig s) = parked s" "users (psignal_eff p sig s) = users s"
  "ve_proc (psignal_eff p sig s) = ve_proc s" "mpid (psignal_eff p sig s) = mpid s"
  "panicstr (psignal_eff p sig s) = panicstr s" "curpri (psignal_eff p sig s) = curpri s"
  by (simp_all add: psignal_eff_def Let_def)

lemma setrun_eff_stat:
  assumes "p < length (procs s)"
  shows "p_stat (pr (setrun_eff p s) x) = p_stat (pr s x) \<or>
    p_stat (pr (setrun_eff p s) x) = SRUN \<and> (x = p \<or> x = 0)"
proof -
  have "0 < length (procs s)" by (rule le_less_trans [OF le0 assms])
  then show ?thesis using assms by (auto simp: setrun_eff_def Let_def ready_proc)
qed

lemma psignal_sig:
  assumes "p < length (procs s)"
  shows "p_sig (pr (psignal_eff p sig s) x) =
    (if x = p \<and> 1 \<le> sig \<and> sig \<le> int NSIG then p_sig (pr s p) OR push_bit (nat (sig - 1)) 1 else p_sig (pr s x))"
  using assms by (auto simp: psignal_eff_def Let_def stable_setrun pr_upd)

lemma bit_one_shift: "n < 32 \<Longrightarrow> bit (push_bit m 1 :: u32) n \<longleftrightarrow> n = m"
  by (subst bit_push_bit_iff) (auto simp: bit_1_iff)

lemma table_bare: "table_ok (bare st) \<longleftrightarrow> table_ok st"
proof -
  have z: "length (users st) = length (procs st) \<and> 1 \<le> ve_proc st \<and> ve_proc st \<le> length (procs st)
      \<Longrightarrow> p_stat (pr (bare st) 0) = p_stat (pr st 0)"
    by (rule bare_stat(1)) linarith
  show ?thesis unfolding table_ok_def bare_fields using z by (auto simp: bare_stat)
qed

lemma table_ok_psignal_eff:
  assumes t: "table_ok s" and p: "p < length (procs s)"
  shows "table_ok (psignal_eff p sig s)"
proof -
  have z: "0 < length (procs s)" by (rule le_less_trans [OF le0 p])
  have stt: "p_stat (pr (psignal_eff p sig s) x) = p_stat (pr s x)
      \<or> p_stat (pr (psignal_eff p sig s) x) = SRUN \<and> (x = p \<and> p_stat (pr s p) = SSLEEP \<or> x = 0)" for x
  proof (cases "x = p")
    case True
    then show ?thesis
      using p setrun_eff_stat [of p "upd p (p_sig_update (\<lambda>x. x OR push_bit (nat (sig - 1)) 1)) s" x]
      by (auto simp: psignal_eff_def Let_def pr_upd)
  next
    case False
    then show ?thesis
      using p setrun_eff_stat [of p "upd p (p_sig_update (\<lambda>x. x OR push_bit (nat (sig - 1)) 1)) s" x]
      by (auto simp: psignal_eff_def Let_def pr_upd)
  qed
  have st0: "p_stat (pr (psignal_eff p sig s) 0) \<notin> {PFREE, SZOMB}"
    using stt [of 0] table_okD(8,9) [OF t] by auto
  show ?thesis
  proof (rule table_ok_frame [OF t])
    show "length (u_signal x) = NSIG" if "x \<in> set (users (psignal_eff p sig s))" for x
      using that table_okD(2) [OF t] by simp
    show "p_stat (pr s x) \<noteq> PFREE \<and> p_pid (pr (psignal_eff p sig s) x) = p_pid (pr s x)"
      if "x < length (procs s)" "p_stat (pr (psignal_eff p sig s) x) \<noteq> PFREE" for x
    proof -
      have "p_pid (pr (psignal_eff p sig s) x) = p_pid (pr s x)"
        by (simp add: psignal_eff_def Let_def stable_setrun stable_upd)
      then show ?thesis using stt [of x] that(2) table_okD(8) [OF t] by auto
    qed
    show "\<not> bit (p_sig (pr (psignal_eff p sig s) x)) 31"
      if "x < length (procs s)" "p_stat (pr (psignal_eff p sig s) x) \<noteq> SZOMB" for x
    proof -
      have ns: "p_stat (pr s x) \<noteq> SZOMB" using stt [of x] that(2) table_okD(9) [OF t] by auto
      have "\<not> bit (push_bit (nat (sig - 1)) 1 :: u32) 31" if "1 \<le> sig" "sig \<le> int NSIG"
        using that bit_one_shift [of 31 "nat (sig - 1)"] by (simp add: NSIG_def)
      then show ?thesis
        using table_okD(6) [OF t that(1) ns] by (auto simp: psignal_sig [OF p] bit_or_iff)
    qed
  qed (use st0 in simp_all)
qed

lemma psignal_ok:
  assumes "proc_ok st" "p < length (procs st)"
  shows "\<exists>st'. psignal p sig st = Some st' \<and> proc_ok st' \<and> bare st' = psignal_eff p sig (bare st)"
proof -
  obtain st' where "psignal p sig st = Some st'" "sched_ok st'" and b: "bare st' = psignal_eff p sig (bare st)"
    using psignal_runs assms unfolding proc_ok_def by blast
  moreover have "table_ok st'"
    using table_ok_psignal_eff [of "bare st" p sig] assms
    unfolding b [symmetric] proc_ok_def by (simp add: table_bare)
  ultimately show ?thesis unfolding proc_ok_def by blast
qed

text \<open>\<open>like st st'\<close>: the same table and the same running process.\<close>

definition like :: "sched \<Rightarrow> sched \<Rightarrow> bool" where
  "like st st' \<longleftrightarrow> length (procs st') = length (procs st) \<and> ve_proc st' = ve_proc st
     \<and> u_procp st' = u_procp st \<and> parked st' = parked st"

lemma like_refl [simp]: "like st st"
  by (simp add: like_def)

lemma like_trans: "\<lbrakk>like a b; like b c\<rbrakk> \<Longrightarrow> like a c"
  by (simp add: like_def)

lemma like_bare:
  assumes b: "bare st' = psignal_eff p sig (bare st)"
  shows "like st st'"
  using arg_cong [OF b, of "\<lambda>s. length (procs s)"] arg_cong [OF b, of ve_proc]
    arg_cong [OF b, of u_procp] arg_cong [OF b, of parked]
  by (simp add: like_def)

text \<open>A loop over the table: if every step returns and keeps a property, so does the loop.\<close>

lemma each_ok:
  assumes "\<And>p s. \<lbrakk>I s; p \<in> set ps\<rbrakk> \<Longrightarrow> \<exists>s'. f p s = Some s' \<and> I s'" "I st"
  shows "\<exists>st'. each f ps st = Some st' \<and> I st'"
  using assms
proof (induction ps arbitrary: st)
  case (Cons p ps)
  obtain s' where s': "f p st = Some s'" "I s'" using Cons.prems(1) [OF Cons.prems(2)] by auto
  have "\<exists>st'. each f ps s' = Some st' \<and> I st'"
    by (rule Cons.IH [OF _ s'(2)]) (use Cons.prems(1) in auto)
  with s'(1) show ?case by simp
qed simp

lemma psignal_step:
  assumes "proc_ok s \<and> like st s" "p < length (procs st)"
  shows "\<exists>s'. psignal p sig s = Some s' \<and> proc_ok s' \<and> like st s'"
proof -
  have "p < length (procs s)" using assms by (simp add: like_def)
  then obtain s' where "psignal p sig s = Some s'" "proc_ok s'" "bare s' = psignal_eff p sig (bare s)"
    using psignal_ok assms(1) by blast
  then show ?thesis using like_trans [OF conjunct2 [OF assms(1)] like_bare] by blast
qed

lemma signal_ok:
  assumes "proc_ok st"
  shows "\<exists>st'. signal pgrp sig st = Some st' \<and> proc_ok st' \<and> like st st'"
proof (cases "pgrp = 0")
  case True
  then show ?thesis using assms by (simp add: signal_def)
next
  case False
  have "\<exists>s'. (if p_pgrp (pr s p) = pgrp then psignal p sig s else Some s) = Some s' \<and> proc_ok s' \<and> like st s'"
    if "proc_ok s \<and> like st s" "p \<in> set [1..<ve_proc st]" for p s
  proof -
    have "p < length (procs st)" using that(2) assms table_okD(4) [of st] by (auto simp: proc_ok_def)
    from psignal_step [OF that(1) this] show ?thesis using that(1) by auto
  qed
  then have "\<exists>st'. each (\<lambda>p s. if p_pgrp (pr s p) = pgrp then psignal p sig s else Some s) [1..<ve_proc st] st = Some st'
      \<and> (proc_ok st' \<and> like st st')"
    by (rule each_ok) (use assms in simp_all)
  then show ?thesis using False by (simp add: signal_def)
qed

section \<open>Freeing zombies\<close>

lemma table_ok_upd:
  assumes t: "table_ok st" and "\<And>x. p_stat (f x) = p_stat x" "\<And>x. p_pid (f x) = p_pid x"
    and "\<And>x. \<not> bit (p_sig x) 31 \<Longrightarrow> \<not> bit (p_sig (f x)) 31"
  shows "table_ok (upd p f st)"
proof (cases "p < length (procs st)")
  case False
  then show ?thesis using t by (simp add: upd_def list_update_beyond)
next
  case p: True
  show ?thesis
  proof (rule table_ok_frame [OF t])
    show "length (u_signal x) = NSIG" if "x \<in> set (users (upd p f st))" for x
      using that table_okD(2) [OF t] by simp
    show "\<not> bit (p_sig (pr (upd p f st) x)) 31"
      if "x < length (procs st)" "p_stat (pr (upd p f st) x) \<noteq> SZOMB" for x
    proof -
      have "\<not> bit (p_sig (pr st x)) 31"
        by (rule table_okD(6) [OF t that(1)]) (use that(2) p assms(2) in \<open>auto simp: pr_upd split: if_splits\<close>)
      then show ?thesis using p assms(4) by (auto simp: pr_upd)
    qed
  qed (use p assms table_okD(8,9) [OF t] in \<open>auto simp: pr_upd split: if_splits\<close>)
qed

lemma table_ok_u_upd:
  assumes t: "table_ok st" and f: "\<And>x. length (u_signal x) = NSIG \<Longrightarrow> length (u_signal (f x)) = NSIG"
    and c: "u_procp st < length (procs st)"
  shows "table_ok (u_upd f st)"
proof (rule table_ok_frame [OF t])
  show "length (u_signal x) = NSIG" if "x \<in> set (users (u_upd f st))" for x
  proof -
    have "uarea st \<in> set (users st)" using c table_okD(1) [OF t] by (simp add: uarea_def)
    then have "length (u_signal (f (uarea st))) = NSIG" using table_okD(2) [OF t] f by blast
    then show ?thesis using that set_update_subset_insert table_okD(2) [OF t] by (fastforce simp: u_upd_def)
  qed
qed (use table_okD(6,8,9) [OF t] in auto)

lemma u_procp_less: "sched_ok st \<Longrightarrow> u_procp st < length (procs st)"
  unfolding sched_ok_def by (rule sched_invD(4))

lemma proc_ok_u_upd:
  "\<lbrakk>proc_ok st; \<And>x. length (u_signal x) = NSIG \<Longrightarrow> length (u_signal (f x)) = NSIG\<rbrakk> \<Longrightarrow> proc_ok (u_upd f st)"
  unfolding proc_ok_def by (blast intro: sched_ok_u_upd table_ok_u_upd u_procp_less)

lemma proc_ok_upd:
  "\<lbrakk>proc_ok st; \<And>x. p_stat (f x) = p_stat x; \<And>x. p_wchan (f x) = p_wchan x; \<And>x. p_link (f x) = p_link x;
    \<And>x. p_pid (f x) = p_pid x; \<And>x. \<not> bit (p_sig x) 31 \<Longrightarrow> \<not> bit (p_sig (f x)) 31\<rbrakk> \<Longrightarrow> proc_ok (upd p f st)"
  unfolding proc_ok_def by (blast intro: sched_ok_upd table_ok_upd)

lemma proc_ok_free:
  assumes ok: "proc_ok st" and p: "p < length (procs st)" "p \<noteq> 0" and z: "p_stat (pr st p) = SZOMB"
  shows "proc_ok (upd p (\<lambda>x. x\<lparr>p_stat := PFREE, p_pid := 0, p_ppid := 0, p_sig := 0, p_flag := 0, p_wchan := 0\<rparr>) st)"
    (is "proc_ok ?st")
proof -
  have t: "table_ok st" using ok by (simp add: proc_ok_def)
  have "sched_ok ?st"
    by (rule sched_ok_offqueue) (use ok p z in \<open>simp_all add: proc_ok_def\<close>)
  moreover have "table_ok ?st"
  proof (rule table_ok_frame [OF t])
    show "length (u_signal x) = NSIG" if "x \<in> set (users ?st)" for x
      using that table_okD(2) [OF t] by simp
    show "\<not> bit (p_sig (pr ?st x)) 31" if "x < length (procs st)" "p_stat (pr ?st x) \<noteq> SZOMB" for x
      using that table_okD(6) [OF t, of x] p by (auto simp: pr_upd split: if_splits)
  qed (use p table_okD(8,9) [OF t] in \<open>auto simp: pr_upd split: if_splits\<close>)
  ultimately show ?thesis by (simp add: proc_ok_def)
qed

lemma freeproc_ok:
  assumes ok: "proc_ok st" and p: "p < length (procs st)" "p \<noteq> 0" and z: "p_stat (pr st p) = SZOMB"
  shows "proc_ok (freeproc p flag st) \<and> like st (freeproc p flag st)"
proof -
  define st1 where "st1 = (if flag then
            (let n = p_cpu (curp st) + p_cpu (pr st p)
             in u_upd (u_rval1_update (\<lambda>_. p_pid (pr st p)))
                  (upd (u_procp st) (p_cpu_update (\<lambda>_. if n > 80 then 80 else n)) st))
          else st)"
  have 1: "proc_ok st1"
    using ok by (auto simp: st1_def Let_def intro!: proc_ok_u_upd proc_ok_upd)
  have n1: "length (procs st1) = length (procs st)" "p_stat (pr st1 p) = SZOMB" "ve_proc st1 = ve_proc st"
    "u_procp st1 = u_procp st" "parked st1 = parked st"
    using z p u_procp_less [of st] ok by (auto simp: st1_def Let_def pr_upd proc_ok_def)
  define st2 where "st2 = u_upd (\<lambda>x. x\<lparr>u_cutime := u_cutime x + xp_utime (pr st1 p),
                            u_cstime := u_cstime x + xp_stime (pr st1 p)\<rparr>) st1"
  have 2: "proc_ok st2" unfolding st2_def by (rule proc_ok_u_upd [OF 1]) simp
  have e: "freeproc p flag st = upd p (\<lambda>x. x\<lparr>p_stat := PFREE, p_pid := 0, p_ppid := 0, p_sig := 0, p_flag := 0, p_wchan := 0\<rparr>) st2"
    by (simp add: freeproc_def st2_def st1_def Let_def)
  show ?thesis
    unfolding e by (intro conjI proc_ok_free [OF 2]) (use p n1 in \<open>simp_all add: st2_def like_def\<close>)
qed

lemma reap_step_ok:
  assumes "proc_ok s \<and> like st s" "q \<in> {1..<ve_proc st}" "proc_ok st"
  shows "proc_ok (reap_step q s) \<and> like st (reap_step q s)"
proof -
  have q: "q < length (procs s)" "q \<noteq> 0"
    using assms table_okD(4) [of st] by (auto simp: like_def proc_ok_def)
  then show ?thesis using freeproc_ok [of s q False] assms(1) like_trans [of st s]
    by (auto simp: reap_step_def)
qed

lemma reap_ok:
  assumes ok: "proc_ok st"
  shows "proc_ok (reap_ignored st) \<and> like st (reap_ignored st)"
proof -
  have "proc_ok (fold reap_step qs s) \<and> like st (fold reap_step qs s)"
    if "set qs \<subseteq> {1..<ve_proc st}" "proc_ok s \<and> like st s" for qs s
    using that
  proof (induction qs arbitrary: s)
    case (Cons q qs)
    show ?case
      using Cons.IH [of "reap_step q s"] reap_step_ok [OF Cons.prems(2) _ ok, of q] Cons.prems(1) by simp
  qed simp
  then show ?thesis using ok by (simp add: reap_ignored_def)
qed

text \<open>What freeing zombies leaves alone: a process that is none, and the dispositions.\<close>

definition kept :: "nat \<Rightarrow> sched \<Rightarrow> sched \<Rightarrow> bool" where
  "kept p s s' \<longleftrightarrow> p_sig (pr s' p) = p_sig (pr s p) \<and> p_stat (pr s' p) = p_stat (pr s p)
     \<and> p_flag (pr s' p) = p_flag (pr s p) \<and> p_pri (pr s' p) = p_pri (pr s p)
     \<and> p_wchan (pr s' p) = p_wchan (pr s p) \<and> p_pid (pr s' p) = p_pid (pr s p)
     \<and> u_procp s' = u_procp s \<and> u_signal (uarea s') = u_signal (uarea s)
     \<and> links s' = links s \<and> runq s' = runq s \<and> hsque s' = hsque s"

lemma u_signal_u_upd:
  "(\<And>x. u_signal (f x) = u_signal x) \<Longrightarrow> u_signal (uarea (u_upd f s)) = u_signal (uarea s)"
  by (cases "u_procp s < length (users s)") (auto simp: u_upd_def uarea_def list_update_beyond)

lemma uarea_upd [simp]: "uarea (upd p f s) = uarea s"
  by (simp add: uarea_def)

lemma reap_step_kept:
  assumes "p_stat (pr s p) \<noteq> SZOMB"
  shows "kept p s (reap_step q s)"
proof (cases "q = p")
  case True
  then show ?thesis using assms by (simp add: reap_step_def kept_def)
next
  case False
  then show ?thesis by (simp add: reap_step_def freeproc_def Let_def kept_def u_signal_u_upd links_upd_same)
qed

lemma reap_kept:
  assumes "p_stat (pr s p) \<noteq> SZOMB"
  shows "kept p s (reap_ignored s)"
proof -
  have "kept p s (fold reap_step qs s)" for qs
    using assms
  proof (induction qs arbitrary: s)
    case (Cons q qs)
    have k: "kept p s (reap_step q s)" by (rule reap_step_kept [OF Cons.prems])
    have "p_stat (pr (reap_step q s) p) \<noteq> SZOMB" using k Cons.prems by (simp add: kept_def)
    from Cons.IH [OF this] k show ?case by (simp add: kept_def)
  qed (simp add: kept_def)
  then show ?thesis by (simp add: reap_ignored_def)
qed

section \<open>issig\<close>

text \<open>
  Whether \<^verbatim>\<open>issig\<close> reports a pending signal \<open>n\<close>: \<^verbatim>\<open>SIGCLD\<close> and \<^verbatim>\<open>SIGPWR\<close> only to a handler, the others
  unless they are ignored, and these too to a traced process.
\<close>

definition reports :: "sched \<Rightarrow> nat \<Rightarrow> bool" where
  "reports st n \<longleftrightarrow> (let d = u_signal (uarea st) ! (n - 1)
     in if n = SIGCLD \<or> n = SIGPWR then d \<noteq> 0 \<and> even d else even d \<or> p_flag (curp st) AND STRC \<noteq> 0)"

lemma clear_sig_ok: "proc_ok st \<Longrightarrow> proc_ok (clear_sig n st) \<and> like st (clear_sig n st)"
  unfolding clear_sig_def by (intro conjI proc_ok_upd) (auto simp: like_def bit_and_iff)

lemma clear_sig_cur:
  assumes "u_procp st < length (procs st)"
  shows "p_sig (curp (clear_sig n st)) = p_sig (curp st) AND NOT (push_bit (n - 1) 1)"
    "p_stat (curp (clear_sig n st)) = p_stat (curp st)" "p_flag (curp (clear_sig n st)) = p_flag (curp st)"
    "u_signal (uarea (clear_sig n st)) = u_signal (uarea st)" "p_pri (curp (clear_sig n st)) = p_pri (curp st)"
    "p_wchan (curp (clear_sig n st)) = p_wchan (curp st)"
  using assms by (simp_all add: clear_sig_def curp_def pr_upd uarea_def)

definition issig_next :: "nat \<Rightarrow> sched \<Rightarrow> sched" where
  "issig_next n st = clear_sig n (if n = SIGCLD \<and> odd (u_signal (uarea st) ! (n - 1)) then reap_ignored st else st)"

lemma issig_unfold:
  "issig st = (if p_sig (curp st) = 0 then Some (0, st)
     else let n = fsig (p_sig (curp st)) in
       if n = 0 then None else if reports st n then Some (n, st) else issig (issig_next n st))"
  by (subst issig.simps) (auto simp: Let_def reports_def issig_next_def)

lemma issig_next_ok:
  fixes st :: sched and n :: nat
  assumes ok: "proc_ok st" and z: "p_stat (curp st) \<noteq> SZOMB"
  defines "st1 \<equiv> issig_next n st"
  shows "proc_ok st1 \<and> like st st1"
    and "p_sig (curp st1) = p_sig (curp st) AND NOT (push_bit (n - 1) 1)"
    and "p_stat (curp st1) = p_stat (curp st)" "p_flag (curp st1) = p_flag (curp st)"
    and "u_signal (uarea st1) = u_signal (uarea st)" "p_pri (curp st1) = p_pri (curp st)"
    and "p_wchan (curp st1) = p_wchan (curp st)"
    and "links st1 = links st" "runq st1 = runq st" "hsque st1 = hsque st"
proof -
  define r where "r = (if n = SIGCLD \<and> odd (u_signal (uarea st) ! (n - 1)) then reap_ignored st else st)"
  have r: "proc_ok r \<and> like st r" using reap_ok [OF ok] ok by (simp add: r_def)
  have k: "kept (u_procp st) st r"
    using reap_kept [of st "u_procp st"] z by (simp add: r_def kept_def curp_def)
  have e: "st1 = clear_sig n r" by (simp add: st1_def issig_next_def r_def)
  have up: "u_procp r = u_procp st" using k by (simp add: kept_def)
  have l: "u_procp r < length (procs r)" using r u_procp_less by (simp add: proc_ok_def)
  show "proc_ok st1 \<and> like st st1" unfolding e using clear_sig_ok r like_trans by blast
  show "p_sig (curp st1) = p_sig (curp st) AND NOT (push_bit (n - 1) 1)"
    "p_stat (curp st1) = p_stat (curp st)" "p_flag (curp st1) = p_flag (curp st)"
    "u_signal (uarea st1) = u_signal (uarea st)" "p_pri (curp st1) = p_pri (curp st)"
    "p_wchan (curp st1) = p_wchan (curp st)"
    unfolding e clear_sig_cur [OF l] using k up by (simp_all add: curp_def kept_def)
  show "links st1 = links st" "runq st1 = runq st" "hsque st1 = hsque st"
    unfolding e clear_sig_def using k by (simp_all add: kept_def links_upd_same)
qed

lemma bit_less_32: "bit (w :: u32) i \<Longrightarrow> i < 32"
  by (drule bit_imp_le_length) simp

lemma bit_clear: "bit (w AND NOT (push_bit m 1) :: u32) i \<longleftrightarrow> bit w i \<and> i \<noteq> m"
  using bit_less_32 [of w i] by (auto simp: bit_and_iff bit_not_iff bit_one_shift simp del: push_bit_of_1)

text \<open>The outcome of \<^verbatim>\<open>issig\<close>: the lowest pending signal to be reported.\<close>

definition first_reported :: "sched \<Rightarrow> nat" where
  "first_reported st =
    (if \<exists>i<31. bit (p_sig (curp st)) i \<and> reports st (Suc i)
     then Suc (LEAST i. bit (p_sig (curp st)) i \<and> reports st (Suc i)) else 0)"

definition issig_post :: "sched \<Rightarrow> nat \<Rightarrow> sched \<Rightarrow> bool" where
  "issig_post st n st' \<longleftrightarrow> proc_ok st' \<and> like st st' \<and> n = first_reported st
     \<and> (if n = 0 then p_sig (curp st') = 0
        else \<forall>i. bit (p_sig (curp st')) i \<longleftrightarrow> bit (p_sig (curp st)) i \<and> n \<le> Suc i)
     \<and> p_stat (curp st') = p_stat (curp st) \<and> p_pri (curp st') = p_pri (curp st)
     \<and> p_wchan (curp st') = p_wchan (curp st) \<and> u_signal (uarea st') = u_signal (uarea st)
     \<and> links st' = links st \<and> runq st' = runq st \<and> hsque st' = hsque st"

lemma first_reported_least:
  assumes "bit (p_sig (curp st)) i" "i < 31" "\<And>j. j < i \<Longrightarrow> \<not> bit (p_sig (curp st)) j" "reports st (Suc i)"
  shows "first_reported st = Suc i"
proof -
  have "(LEAST j. bit (p_sig (curp st)) j \<and> reports st (Suc j)) = i"
    by (rule Least_equality) (use assms in \<open>auto simp: not_less [symmetric]\<close>)
  then show ?thesis using assms by (auto simp: first_reported_def)
qed

lemma first_reported_next:
  assumes w: "\<And>i. bit (p_sig (curp st1)) i \<longleftrightarrow> bit (p_sig (curp st)) i \<and> i \<noteq> m"
    and r: "\<And>n. reports st1 n = reports st n" and m: "\<not> reports st (Suc m)"
  shows "first_reported st1 = first_reported st"
proof -
  have "(bit (p_sig (curp st1)) i \<and> reports st1 (Suc i)) = (bit (p_sig (curp st)) i \<and> reports st (Suc i))" for i
    using w r m by auto
  then show ?thesis by (simp add: first_reported_def conj_assoc conj_left_commute)
qed

lemma first_reported_pending:
  assumes "first_reported st \<noteq> 0"
  shows "bit (p_sig (curp st)) (first_reported st - 1)"
  using assms LeastI_ex [of "\<lambda>i. bit (p_sig (curp st)) i \<and> reports st (Suc i)"]
  by (auto simp: first_reported_def split: if_splits)

lemma issig_spec:
  assumes "proc_ok st" "p_stat (curp st) \<noteq> SZOMB"
  shows "\<exists>n st'. issig st = Some (n, st') \<and> issig_post st n st'"
  using assms
proof (induction "card {i. bit (p_sig (curp st)) i}" arbitrary: st rule: less_induct)
  case less
  note ok = less.prems(1) and z = less.prems(2)
  let ?w = "p_sig (curp st)"
  have up: "u_procp st < length (procs st)" using ok u_procp_less by (simp add: proc_ok_def)
  have b31: "\<not> bit ?w 31"
    using table_okD(6) [OF _ up] ok z by (simp add: proc_ok_def curp_def)
  show ?case
  proof (cases "?w = 0")
    case True
    then have "issig_post st 0 st" using ok by (simp add: issig_post_def first_reported_def)
    then show ?thesis using True by (subst issig_unfold) auto
  next
    case False
    then have f0: "fsig ?w \<noteq> 0" using fsig_none [OF _ b31] by blast
    then obtain j where "bit ?w j" "j < 31" by (auto simp: fsig_spec split: if_splits)
    note f = fsig_pending [OF this]
    define m where "m = fsig ?w - 1"
    have n: "fsig ?w = Suc m" "m < 31" "bit ?w m" "\<And>i. i < m \<Longrightarrow> \<not> bit ?w i"
      using f by (auto simp: m_def)
    show ?thesis
    proof (cases "reports st (Suc m)")
      case True
      have fr: "first_reported st = Suc m" by (rule first_reported_least) (use n True in auto)
      have "bit ?w i \<longleftrightarrow> bit ?w i \<and> Suc m \<le> Suc i" for i using n(4) [of i] by (meson Suc_le_mono not_le)
      then have "issig_post st (Suc m) st" using ok fr by (simp add: issig_post_def)
      moreover have "issig st = Some (Suc m, st)"
        using False f0 n(1) True by (subst issig_unfold) (simp add: Let_def)
      ultimately show ?thesis by blast
    next
      case nr: False
      let ?s = "issig_next (Suc m) st"
      note x = issig_next_ok [OF ok z, of "Suc m"]
      have w: "bit (p_sig (curp ?s)) i \<longleftrightarrow> bit ?w i \<and> i \<noteq> m" for i by (simp add: x(2) bit_clear del: push_bit_of_1)
      have r: "reports ?s k = reports st k" for k by (simp add: reports_def x)
      have fin: "finite {i. bit ?w i}"
        by (rule finite_subset [of _ "{..<32}"]) (auto dest: bit_less_32)
      have "card {i. bit (p_sig (curp ?s)) i} < card {i. bit ?w i}"
        by (rule psubset_card_mono [OF fin]) (use w n(3) in auto)
      then obtain k st' where i: "issig ?s = Some (k, st')" "issig_post ?s k st'"
        using less.hyps [of ?s] x z by auto
      have fr: "first_reported ?s = first_reported st" by (rule first_reported_next [OF w r nr])
      have pend: "bit (p_sig (curp ?s)) (k - 1)" if "k \<noteq> 0"
        using first_reported_pending [of ?s] i(2) that by (simp add: issig_post_def)
      then have mk: "m < k - 1" if "k \<noteq> 0"
        using that w [of "k - 1"] n(4) [of "k - 1"] by (meson not_less_iff_gr_or_eq)
      note i2 = i(2) [unfolded issig_post_def]
      have "if k = 0 then p_sig (curp st') = 0
          else \<forall>i. bit (p_sig (curp st')) i \<longleftrightarrow> bit ?w i \<and> k \<le> Suc i"
      proof (cases "k = 0")
        case True
        then show ?thesis using i2 by simp
      next
        case False
        then have A: "bit (p_sig (curp st')) i \<longleftrightarrow> bit (p_sig (curp ?s)) i \<and> k \<le> Suc i" for i
          using i2 by simp
        have "bit (p_sig (curp st')) i \<longleftrightarrow> bit ?w i \<and> k \<le> Suc i" for i
        proof -
          have "k \<le> Suc i \<Longrightarrow> i \<noteq> m" using mk [OF False] by linarith
          then show ?thesis using A [of i] w [of i] by blast
        qed
        then show ?thesis using False by simp
      qed
      moreover have "like st st'" using i2 like_trans [OF conjunct2 [OF x(1)]] by blast
      ultimately have "issig_post st k st'"
        using i(2) unfolding issig_post_def x(3-) fr by simp
      moreover have "issig st = Some (k, st')"
        using False f0 n(1) nr i(1) by (subst issig_unfold) (simp add: Let_def)
      ultimately show ?thesis by blast
    qed
  qed
qed

section \<open>sleep\<close>

lemma table_ok_fields:
  assumes "table_ok st"
  shows "table_ok (st\<lparr>parked := b\<rparr>)" "table_ok (st\<lparr>curpri := n\<rparr>)" "table_ok (st\<lparr>runrun := r\<rparr>)"
    "table_ok (st\<lparr>u_procp := p\<rparr>)"
  using assms by (simp_all add: table_ok_def)

lemma table_ok_assign: "table_ok (assign c v st) \<longleftrightarrow> table_ok st"
  by (metis table_bare bare_assign)

lemma sleep_enq_bare:
  assumes "u_procp st < length (procs st)"
  shows "bare (sleep_enq chan disp st) = upd (u_procp st) (\<lambda>x. x\<lparr>p_stat := SSLEEP, p_wchan := chan,
     p_time := (if p_time x > TZERO then TZERO else p_time x), p_pri := uint (disp AND PMASK)\<rparr>) (bare st)"
proof -
  let ?rp = "u_procp st"
  have b: "bare (upd ?rp (\<lambda>x. x\<lparr>p_stat := SSLEEP, p_wchan := chan\<rparr>) st)
      = upd ?rp (\<lambda>x. x\<lparr>p_stat := SSLEEP, p_wchan := chan\<rparr>) (bare st)"
    by (rule bare_upd) (simp_all add: assms)
  have "bare (sleep_enq chan disp st) = upd ?rp (\<lambda>x. x\<lparr>p_time := (if p_time x > TZERO then TZERO else p_time x),
      p_pri := uint (disp AND PMASK)\<rparr>) (upd ?rp (\<lambda>x. x\<lparr>p_stat := SSLEEP, p_wchan := chan\<rparr>) (bare st))"
    unfolding sleep_enq_def Let_def using assms by (subst bare_upd) (simp_all add: b)
  also have "\<dots> = upd ?rp (\<lambda>x. x\<lparr>p_stat := SSLEEP, p_wchan := chan,
     p_time := (if p_time x > TZERO then TZERO else p_time x), p_pri := uint (disp AND PMASK)\<rparr>) (bare st)"
    using assms by (subst upd_upd) (simp, rule upd_eq, simp)
  finally show ?thesis .
qed

lemma sleep_enq_table:
  assumes ok: "proc_ok st" and run: "\<not> parked st"
  shows "table_ok (sleep_enq chan disp st)"
proof -
  have t: "table_ok (bare st)" and up: "u_procp st < length (procs st)"
    using ok u_procp_less by (simp_all add: proc_ok_def table_bare)
  have z: "0 < length (procs st)" by (rule le_less_trans [OF le0 up])
  have nz: "p_stat (pr st (u_procp st)) = SRUN"
    using sched_invD(5) [of st "queue_of st"] ok run by (simp add: proc_ok_def sched_ok_def)
  have "table_ok (bare (sleep_enq chan disp st))"
    unfolding sleep_enq_bare [OF up]
  proof (rule table_ok_frame [OF t])
    show "length (u_signal x) = NSIG" if "x \<in> set (users (upd (u_procp st) f (bare st)))" for x f
      using that table_okD(2) [OF t] by simp
    show "\<not> bit (p_sig (pr (upd (u_procp st) (\<lambda>x. x\<lparr>p_stat := SSLEEP, p_wchan := chan,
        p_time := (if p_time x > TZERO then TZERO else p_time x), p_pri := uint (disp AND PMASK)\<rparr>) (bare st)) x)) 31"
      if "x < length (procs (bare st))" "p_stat (pr (upd (u_procp st) (\<lambda>x. x\<lparr>p_stat := SSLEEP, p_wchan := chan,
        p_time := (if p_time x > TZERO then TZERO else p_time x), p_pri := uint (disp AND PMASK)\<rparr>) (bare st)) x) \<noteq> SZOMB" for x
      using that table_okD(6) [OF t, of x] up nz by (auto simp: pr_upd bare_stat split: if_splits)
  qed (use up nz z table_okD(8,9) [OF t] in \<open>auto simp: pr_upd bare_stat split: if_splits\<close>)
  then show ?thesis by (simp add: table_bare)
qed

lemma sched_inv_queue: "\<lbrakk>sched_inv st L; k \<in> heads\<rbrakk> \<Longrightarrow> queue_of st k = L k"
  by (rule queue_of_unique [OF sched_invD(1)])

lemma sleep_enq_cur:
  fixes st :: sched and chan disp :: u32
  assumes up: "u_procp st < length (procs st)"
  defines "st1 \<equiv> (sleep_enq chan disp st)\<lparr>parked := True\<rparr>"
  shows "u_procp st1 = u_procp st" "length (procs st1) = length (procs st)" "users st1 = users st"
    "p_sig (curp st1) = p_sig (curp st)" "p_flag (curp st1) = p_flag (curp st)"
    "p_pri (curp st1) = uint (disp AND PMASK)" "p_stat (curp st1) = SSLEEP" "p_wchan (curp st1) = chan"
proof -
  note b = sleep_enq_bare [OF up, of chan disp]
  have x: "u_procp (sleep_enq chan disp st) = u_procp st" "length (procs (sleep_enq chan disp st)) = length (procs st)"
    "users (sleep_enq chan disp st) = users st"
    using arg_cong [OF b, of u_procp] arg_cong [OF b, of "\<lambda>s. length (procs s)"] arg_cong [OF b, of users] by simp_all
  then show "u_procp st1 = u_procp st" "length (procs st1) = length (procs st)" "users st1 = users st"
    by (simp_all add: st1_def)
  have c: "pr (bare (sleep_enq chan disp st)) (u_procp st) = (pr (bare st) (u_procp st))\<lparr>p_stat := SSLEEP, p_wchan := chan,
     p_time := (if p_time (pr (bare st) (u_procp st)) > TZERO then TZERO else p_time (pr (bare st) (u_procp st))),
     p_pri := uint (disp AND PMASK)\<rparr>"
    unfolding b using up by (simp add: pr_upd)
  show "p_sig (curp st1) = p_sig (curp st)" "p_flag (curp st1) = p_flag (curp st)"
    "p_pri (curp st1) = uint (disp AND PMASK)" "p_stat (curp st1) = SSLEEP" "p_wchan (curp st1) = chan"
    using arg_cong [OF c, of p_sig] arg_cong [OF c, of p_flag] arg_cong [OF c, of p_pri] arg_cong [OF c, of p_stat]
      arg_cong [OF c, of p_wchan] up x
    by (simp_all add: st1_def curp_def bare_stat)
qed

lemma first_reported_cong:
  assumes "p_sig (curp st1) = p_sig (curp st)" "p_flag (curp st1) = p_flag (curp st)"
    "u_signal (uarea st1) = u_signal (uarea st)"
  shows "first_reported st1 = first_reported st"
proof -
  have "reports st1 n = reports st n" for n using assms by (simp add: reports_def)
  then show ?thesis by (simp only: first_reported_def assms(1))
qed

lemma issig_queue:
  assumes "issig_post st n st'"
  shows "queue_of st' k = queue_of st k"
proof -
  have "deref st' k = deref st k" "links st' = links st" "length (procs st') = length (procs st)"
    using assms by (auto simp: issig_post_def like_def deref_def split: cell.split)
  then show ?thesis by (simp add: queue_of_def)
qed

lemma sleep_undo:
  assumes i: "sched_inv st L" and L: "L (Hsque h) = u_procp st # rest" and h: "h < NHSQUE"
    and s: "p_stat (curp st) = SSLEEP"
  defines "rp \<equiv> u_procp st"
  defines "st3 \<equiv> upd rp (\<lambda>x. x\<lparr>p_wchan := 0, p_stat := SRUN\<rparr>) st"
  shows "sched_inv ((assign (Hsque h) (links st3 rp) st3)\<lparr>parked := False\<rparr>) (L(Hsque h := rest))"
proof -
  note q = sched_invD(1) [OF i]
  have k: "Hsque h \<in> heads" using h by simp
  have rp: "rp < length (procs st)" using sched_invD(4) [OF i] by (simp add: rp_def)
  have q3: "queues st3 L" by (rule queues_cong [OF q]) (simp_all add: st3_def links_upd_same)
  let ?s = "assign (Hsque h) (links st3 rp) st3"
  have q4: "queues ?s (L(Hsque h := rest))"
    using unlink [OF q3 k, of "[]" rp rest] L by (simp add: rp_def)
  have q5: "queues (?s\<lparr>parked := False\<rparr>) (L(Hsque h := rest))" by (rule queues_cong [OF q4]) simp_all
  have pr: "pr ?s x = (if x = rp then (pr st rp)\<lparr>p_wchan := 0, p_stat := SRUN\<rparr> else pr st x)" for x
    using rp by (simp add: assign_def st3_def pr_upd)
  have n: "length (procs st3) = length (procs st)" "u_procp st3 = rp" by (simp_all add: st3_def rp_def)
  have d: "rp \<notin> set rest" using queuesD(4) [OF q k] L by (simp add: rp_def)
  have r: "x \<in> set rest \<longleftrightarrow> x \<in> set (L (Hsque h)) \<and> x \<noteq> rp" for x using d L by (auto simp: rp_def)
  have srp: "p_stat (pr st rp) = SSLEEP" using s by (simp add: curp_def rp_def)
  have hr: "sqhash (p_wchan (pr st rp)) = h" using sched_invD(3) [OF i h, of rp] L by (simp add: rp_def)
  let ?t = "?s\<lparr>parked := False\<rparr>" and ?L = "L(Hsque h := rest)"
  have a: "x \<in> set (?L Runq) \<longleftrightarrow> x < length (procs ?t) \<and> p_stat (pr ?t x) = SRUN \<and> x \<noteq> rp" for x
    using sched_invD(2) [OF i, of x] srp by (cases "x = rp") (auto simp: pr n rp_def [symmetric])
  have b: "x \<in> set (?L (Hsque h')) \<longleftrightarrow>
      x < length (procs ?t) \<and> p_stat (pr ?t x) = SSLEEP \<and> sqhash (p_wchan (pr ?t x)) = h'" if "h' < NHSQUE" for x h'
    using sched_invD(3) [OF i that, of x] r [of x] srp hr by (cases "x = rp"; cases "h' = h") (auto simp: pr n)
  show ?thesis
    unfolding sched_inv_def
  proof (intro conjI allI impI)
    show "set (?L Runq) = {p. p < length (procs ?t) \<and> p_stat (pr ?t p) = SRUN \<and> (p = u_procp ?t \<longrightarrow> parked ?t)}"
      unfolding set_eq_iff mem_Collect_eq using a n by simp
    show "set (?L (Hsque h')) = {p. p < length (procs ?t) \<and> p_stat (pr ?t p) = SSLEEP \<and> sqhash (p_wchan (pr ?t p)) = h'}"
      if "h' < NHSQUE" for h'
      unfolding set_eq_iff mem_Collect_eq using b [OF that] by simp
    show "queues ?t ?L" by (rule q5)
    show "u_procp ?t < length (procs ?t)" using rp n by simp
    show "p_stat (pr ?t (u_procp ?t)) = SRUN" using n pr [of rp] by simp
  qed
qed

lemma sleep_ok:
  assumes ok: "proc_ok st" and run: "\<not> parked st"
  shows "\<exists>r st'. sleep chan disp st = Some (r, st') \<and> proc_ok st' \<and> length (procs st') = length (procs st) \<and>
    (if uint (disp AND PMASK) > PZERO \<and> first_reported st \<noteq> 0
     then r = caught disp \<and> \<not> parked st' \<and> (\<forall>k\<in>heads. queue_of st' k = queue_of st k)
     else r = Switched \<and> parked st' \<and> u_procp st \<in> set (sleepers chan st'))"
proof -
  let ?rp = "u_procp st" and ?H = "Hsque (sqhash chan)"
  define st1 where "st1 = (sleep_enq chan disp st)\<lparr>parked := True\<rparr>"
  have sok: "sched_ok st" using ok by (simp add: proc_ok_def)
  have up: "?rp < length (procs st)" by (rule u_procp_less [OF sok])
  have i1: "sched_inv st1 ((queue_of st)(?H := ?rp # queue_of st ?H))"
    unfolding st1_def by (rule sleep_enq_ok [OF sok run])
  have ok1: "proc_ok st1"
    using sched_inv_ok [OF i1] sleep_enq_table [OF ok run] by (simp add: proc_ok_def st1_def table_ok_fields)
  note c = sleep_enq_cur [OF up, of chan disp, folded st1_def]
  have fr: "first_reported st1 = first_reported st"
    by (rule first_reported_cong) (simp_all add: c uarea_def)
  have asleep: "?rp \<in> set (sleepers chan s)" if "proc_ok s" "like st1 s" "p_stat (curp s) = SSLEEP" "p_wchan (curp s) = chan" for s
  proof -
    have "u_procp s = ?rp" "length (procs s) = length (procs st)" using that(2) c by (simp_all add: like_def)
    then show ?thesis using sleepers_iff [of s ?rp chan] that up by (simp add: proc_ok_def curp_def)
  qed
  have nsl: "p_stat (curp st1) \<noteq> SZOMB" by (simp add: c)
  obtain n st2 where is2: "issig st1 = Some (n, st2)" and post: "issig_post st1 n st2"
    using issig_spec [OF ok1 nsl] by blast
  note p2 = post [unfolded issig_post_def]
  have n: "n = first_reported st" using p2 fr by simp
  have pk: "parked st1" by (simp add: st1_def)
  have sl: "sleep chan disp st = (if uint (disp AND PMASK) > PZERO \<and> p_sig (curp st1) \<noteq> 0 then
       (if n \<noteq> 0 then Some (caught disp, (assign ?H (links (upd ?rp (\<lambda>x. x\<lparr>p_wchan := 0, p_stat := SRUN\<rparr>) st2) ?rp)
            (upd ?rp (\<lambda>x. x\<lparr>p_wchan := 0, p_stat := SRUN\<rparr>) st2))\<lparr>parked := False\<rparr>)
        else Some (Switched, st2)) else Some (Switched, st1))"
    unfolding sleep_def Let_def st1_def [symmetric] using c is2 by (simp add: curp_def)
  show ?thesis
  proof (cases "uint (disp AND PMASK) > PZERO \<and> first_reported st \<noteq> 0")
    case True
    then have "p_sig (curp st1) \<noteq> 0" using first_reported_pending [of st] c(4) by auto
    let ?L = "(queue_of st)(?H := ?rp # queue_of st ?H)"
    let ?s = "(assign ?H (links (upd ?rp (\<lambda>x. x\<lparr>p_wchan := 0, p_stat := SRUN\<rparr>) st2) ?rp)
            (upd ?rp (\<lambda>x. x\<lparr>p_wchan := 0, p_stat := SRUN\<rparr>) st2))\<lparr>parked := False\<rparr>"
    have u2: "u_procp st2 = ?rp" using p2 c by (simp add: like_def)
    have i2: "sched_inv st2 (queue_of st2)" using p2 by (simp add: proc_ok_def sched_ok_def)
    have h2: "queue_of st2 ?H = ?rp # queue_of st ?H"
      using issig_queue [OF post] sched_inv_queue [OF i1, of ?H] by simp
    have inv: "sched_inv ?s ((queue_of st2)(?H := queue_of st ?H))"
      using sleep_undo [OF i2, of "sqhash chan" "queue_of st ?H"] h2 u2 p2 c by simp
    have q: "queue_of ?s k = queue_of st k" if "k \<in> heads" for k
      using sched_inv_queue [OF inv that] issig_queue [OF post, of k] sched_inv_queue [OF i1 that] by (auto split: if_splits)
    have t2: "table_ok st2" using p2 by (simp add: proc_ok_def)
    have "table_ok (upd ?rp (\<lambda>x. x\<lparr>p_wchan := 0, p_stat := SRUN\<rparr>) st2)"
    proof (rule table_ok_frame [OF t2])
      have up2: "?rp < length (procs st2)" using p2 c up by (simp add: like_def)
      have s2: "p_stat (pr st2 ?rp) = SSLEEP" using p2 c u2 by (simp add: curp_def)
      show "length (u_signal x) = NSIG" if "x \<in> set (users (upd ?rp (\<lambda>x. x\<lparr>p_wchan := 0, p_stat := SRUN\<rparr>) st2))" for x
        using that table_okD(2) [OF t2] by simp
      show "\<not> bit (p_sig (pr (upd ?rp (\<lambda>x. x\<lparr>p_wchan := 0, p_stat := SRUN\<rparr>) st2) x)) 31"
        if "x < length (procs st2)" "p_stat (pr (upd ?rp (\<lambda>x. x\<lparr>p_wchan := 0, p_stat := SRUN\<rparr>) st2) x) \<noteq> SZOMB" for x
        using that table_okD(6) [OF t2, of x] up2 s2 by (auto simp: pr_upd split: if_splits)
      show "p_stat (pr (upd ?rp (\<lambda>x. x\<lparr>p_wchan := 0, p_stat := SRUN\<rparr>) st2) 0) \<notin> {PFREE, SZOMB}"
        using table_okD(8,9) [OF t2] up2 by (simp add: pr_upd)
    qed (use p2 c up in \<open>auto simp: pr_upd like_def curp_def split: if_splits\<close>)
    then have "proc_ok ?s"
      using sched_inv_ok [OF inv] by (simp add: proc_ok_def table_ok_fields table_ok_assign)
    moreover have "length (procs st2) = length (procs st)" using p2 c by (simp add: like_def)
    ultimately show ?thesis using True q sl n \<open>p_sig (curp st1) \<noteq> 0\<close> by simp
  next
    case False
    then have "sleep chan disp st = Some (Switched, st2) \<or> sleep chan disp st = Some (Switched, st1)"
      using sl n by auto
    moreover have "proc_ok st2 \<and> length (procs st2) = length (procs st) \<and> parked st2 \<and> ?rp \<in> set (sleepers chan st2)"
      using asleep [of st2] p2 c pk by (auto simp: like_def)
    moreover have "proc_ok st1 \<and> length (procs st1) = length (procs st) \<and> parked st1 \<and> ?rp \<in> set (sleepers chan st1)"
      using asleep [of st1] ok1 c pk by simp
    ultimately show ?thesis using False by (simp only: if_False) blast
  qed
qed

section \<open>kill\<close>

text \<open>The identity of the processes, which sending signals does not change.\<close>

definition same_ids :: "sched \<Rightarrow> sched \<Rightarrow> bool" where
  "same_ids st s \<longleftrightarrow> like st s \<and> users s = users st \<and> (\<forall>p<length (procs st).
     p_pid (pr s p) = p_pid (pr st p) \<and> p_pgrp (pr s p) = p_pgrp (pr st p)
     \<and> p_uid (pr s p) = p_uid (pr st p) \<and> p_suid (pr s p) = p_suid (pr st p)
     \<and> (p_stat (pr s p) = PFREE \<longleftrightarrow> p_stat (pr st p) = PFREE))"

lemma psignal_ids:
  assumes ok: "proc_ok s" and p: "p < length (procs s)" and b: "bare s' = psignal_eff p sig (bare s)"
  shows "same_ids s s'" "q < length (procs s) \<Longrightarrow> p_sig (pr s' q) =
    (if q = p \<and> 1 \<le> sig \<and> sig \<le> int NSIG then p_sig (pr s p) OR push_bit (nat (sig - 1)) 1 else p_sig (pr s q))"
proof -
  have n: "length (procs s') = length (procs s)" using arg_cong [OF b, of "\<lambda>s. length (procs s)"] by simp
  have g: "g (pr s' q) = g (pr s q)" if "stable g" "q < length (procs s)" "\<And>x f. g (p_sig_update f x) = g x"
    for g :: "proc \<Rightarrow> 'z" and q
  proof -
    have "g (pr s' q) = g (pr (psignal_eff p sig (bare s)) q)" using that n by (simp add: stable_bare flip: b)
    also have "\<dots> = g (pr (bare s) q)" using that
      by (auto simp: psignal_eff_def Let_def stable_setrun stable_upd)
    finally show ?thesis using that by (simp add: stable_bare)
  qed
  have z: "0 < length (procs s)" by (rule le_less_trans [OF le0 p])
  have t: "table_ok s" using ok by (simp add: proc_ok_def)
  have f: "p_stat (pr s' q) = PFREE \<longleftrightarrow> p_stat (pr s q) = PFREE" if q: "q < length (procs s)" for q
  proof -
    have "p_stat (pr s' q) = p_stat (pr (psignal_eff p sig (bare s)) q)"
      using arg_cong [OF b, of "\<lambda>s. p_stat (pr s q)"] q n by (simp add: bare_stat)
    moreover have "p_stat (pr (psignal_eff p sig (bare s)) q) = p_stat (pr s q)
        \<or> p_stat (pr (psignal_eff p sig (bare s)) q) = SRUN \<and> (q = p \<and> p_stat (pr s p) = SSLEEP \<or> q = 0)"
    proof (cases "q = p")
      case True
      then show ?thesis
        using p q setrun_eff_stat [of p "upd p (p_sig_update (\<lambda>x. x OR push_bit (nat (sig - 1)) 1)) (bare s)" q]
        by (auto simp: psignal_eff_def Let_def pr_upd bare_stat)
    next
      case False
      then show ?thesis
        using p q setrun_eff_stat [of p "upd p (p_sig_update (\<lambda>x. x OR push_bit (nat (sig - 1)) 1)) (bare s)" q]
        by (auto simp: psignal_eff_def Let_def pr_upd bare_stat)
    qed
    ultimately show ?thesis using table_okD(8) [OF t] by auto
  qed
  have us: "users s' = users s" using arg_cong [OF b, of users] by simp
  show "same_ids s s'"
    unfolding same_ids_def using like_bare [OF b] us f by (simp add: g)
  show "p_sig (pr s' q) =
    (if q = p \<and> 1 \<le> sig \<and> sig \<le> int NSIG then p_sig (pr s p) OR push_bit (nat (sig - 1)) 1 else p_sig (pr s q))"
    if q: "q < length (procs s)"
  proof -
    have "p_sig (pr s' q) = p_sig (pr (psignal_eff p sig (bare s)) q)"
      using arg_cong [OF b, of "\<lambda>s. p_sig (pr s q)"] q n by (simp add: bare_stat)
    then show ?thesis using p q by (simp add: psignal_sig bare_stat)
  qed
qed

lemma same_ids_trans: "\<lbrakk>same_ids a b; same_ids b c\<rbrakk> \<Longrightarrow> same_ids a c"
  unfolding same_ids_def by (auto simp: like_def)

definition addressed :: "sched \<Rightarrow> int \<Rightarrow> nat \<Rightarrow> bool" where
  "addressed st arg p \<longleftrightarrow> p_stat (pr st p) \<noteq> PFREE \<and> (arg > 0 \<longrightarrow> p_pid (pr st p) = arg)
     \<and> (arg = 0 \<longrightarrow> p_pgrp (pr st p) = p_pgrp (curp st)) \<and> (arg < - 1 \<longrightarrow> p_pgrp (pr st p) = - arg)"

lemma same_ids_eq:
  assumes "same_ids st s" "p < length (procs st)" "u_procp st < length (procs st)"
  shows "addressed s arg p = addressed st arg p" "may_signal s p = may_signal st p"
  using assms by (auto simp: same_ids_def like_def addressed_def may_signal_def curp_def uarea_def)

definition with_sig :: "int \<Rightarrow> u32 \<Rightarrow> u32" where
  "with_sig signo w = (if signo = 0 then w else w OR push_bit (nat (signo - 1)) 1)"

lemma kill_step:
  assumes ok: "proc_ok s" and p: "p < length (procs s)" and sg: "0 \<le> signo" "signo \<le> int NSIG"
  shows "\<exists>s'. (if signo \<noteq> 0 then psignal p signo s else Some s) = Some s' \<and> proc_ok s' \<and> same_ids s s'
    \<and> (\<forall>q<length (procs s). p_sig (pr s' q) = (if q = p then with_sig signo (p_sig (pr s p)) else p_sig (pr s q)))"
proof (cases "signo = 0")
  case True
  then show ?thesis using ok by (simp add: with_sig_def same_ids_def)
next
  case False
  obtain s' where s': "psignal p signo s = Some s'" "proc_ok s'" and b: "bare s' = psignal_eff p signo (bare s)"
    using psignal_ok [OF ok p] by blast
  have "1 \<le> signo" using False sg by simp
  then show ?thesis using s' psignal_ids [OF ok p b] False sg by (simp add: with_sig_def)
qed

text \<open>The loop of \<^verbatim>\<open>kill\<close> from an entry on, \<open>f\<close> processes having been signalled before.\<close>

lemma kill_loop_spec:
  assumes "proc_ok s" "same_ids st s" "set ps \<subseteq> {..<length (procs st)}" "distinct ps"
    and sg: "0 \<le> signo" "signo \<le> int NSIG" and up: "u_procp st < length (procs st)"
    and uniq: "arg > 0 \<Longrightarrow> \<forall>p\<in>set ps. \<forall>q\<in>set ps. addressed st arg p \<and> addressed st arg q \<longrightarrow> p = q"
    and f: "arg > 0 \<Longrightarrow> f = 0"
  shows "\<exists>s'. kill_loop ps arg signo f s =
      Some (if f \<noteq> 0 \<or> (\<exists>p\<in>set ps. addressed st arg p \<and> may_signal st p) then None
            else if arg > 0 \<and> (\<exists>p\<in>set ps. addressed st arg p) then Some EPERM else Some ESRCH, s')
    \<and> proc_ok s' \<and> same_ids st s'
    \<and> (\<forall>q<length (procs st). p_sig (pr s' q) =
         (if q \<in> set ps \<and> addressed st arg q \<and> may_signal st q then with_sig signo (p_sig (pr s q)) else p_sig (pr s q)))"
  using assms
proof (induction ps arbitrary: s f)
  case Nil
  then show ?case by auto
next
  case (Cons p ps)
  note ok = Cons.prems(1) and ids = Cons.prems(2)
  have p: "p < length (procs st)" "p < length (procs s)" and np: "p \<notin> set ps"
    using Cons.prems(2-4) by (auto simp: same_ids_def like_def)
  note eq = same_ids_eq [OF ids p(1) up]
  have IH: "\<exists>s'. kill_loop ps arg signo f' t =
      Some (if f' \<noteq> 0 \<or> (\<exists>p\<in>set ps. addressed st arg p \<and> may_signal st p) then None
            else if arg > 0 \<and> (\<exists>p\<in>set ps. addressed st arg p) then Some EPERM else Some ESRCH, s')
    \<and> proc_ok s' \<and> same_ids st s'
    \<and> (\<forall>q<length (procs st). p_sig (pr s' q) =
         (if q \<in> set ps \<and> addressed st arg q \<and> may_signal st q then with_sig signo (p_sig (pr t q)) else p_sig (pr t q)))"
    if "proc_ok t" "same_ids st t" "arg > 0 \<Longrightarrow> f' = 0" for t f'
  proof (rule Cons.IH [OF that(1,2) _ _ sg up])
    show "set ps \<subseteq> {..<length (procs st)}" "distinct ps" using Cons.prems(3,4) by simp_all
    show "\<forall>p\<in>set ps. \<forall>q\<in>set ps. addressed st arg p \<and> addressed st arg q \<longrightarrow> p = q" if "arg > 0"
      using Cons.prems(8) [OF that] by simp
    show "f' = 0" if "arg > 0" by (rule \<open>arg > 0 \<Longrightarrow> f' = 0\<close> [OF that])
  qed
  have skip: "kill_loop (p # ps) arg signo f s = kill_loop ps arg signo f s" if "\<not> addressed st arg p"
  proof -
    have "\<not> addressed s arg p" using that eq(1) by simp
    then show ?thesis by (auto simp: addressed_def)
  qed
  have here: "kill_loop (p # ps) arg signo f s =
      (if \<not> may_signal st p then (if arg > 0 then Some (Some EPERM, s) else kill_loop ps arg signo f s)
       else Option.bind (if signo \<noteq> 0 then psignal p signo s else Some s) (\<lambda>s1.
         if arg > 0 then Some (None, s1) else kill_loop ps arg signo (f + 1) s1))" if "addressed st arg p"
  proof -
    have "addressed s arg p" using that eq(1) by simp
    then have "p_stat (pr s p) \<noteq> PFREE" "\<not> (arg > 0 \<and> p_pid (pr s p) \<noteq> arg)"
      "\<not> (arg = 0 \<and> p_pgrp (pr s p) \<noteq> p_pgrp (curp s))" "\<not> (arg < - 1 \<and> p_pgrp (pr s p) \<noteq> - arg)"
      unfolding addressed_def by blast+
    then show ?thesis by (simp only: kill_loop.simps if_False eq(2))
  qed
  show ?case
  proof (cases "addressed st arg p")
    case False
    then show ?thesis using skip IH [OF ok ids Cons.prems(9)] by auto
  next
    case a: True
    have others: "\<forall>q\<in>set ps. \<not> addressed st arg q" if "arg > 0"
      using Cons.prems(8) that a np by auto
    show ?thesis
    proof (cases "may_signal st p")
      case False
      show ?thesis
      proof (cases "arg > 0")
        case True
        then show ?thesis using here [OF a] False a others ok ids Cons.prems(9) by auto
      next
        case arg: False
        then have "kill_loop (p # ps) arg signo f s = kill_loop ps arg signo f s" using here [OF a] False by simp
        then show ?thesis using IH [OF ok ids Cons.prems(9)] False arg by auto
      qed
    next
      case m: True
      obtain s1 where s1: "(if signo \<noteq> 0 then psignal p signo s else Some s) = Some s1" "proc_ok s1" "same_ids s s1"
        "\<forall>q<length (procs s). p_sig (pr s1 q) = (if q = p then with_sig signo (p_sig (pr s p)) else p_sig (pr s q))"
        using kill_step [OF ok p(2) sg] by blast
      have ids1: "same_ids st s1" by (rule same_ids_trans [OF ids s1(3)])
      have n: "length (procs s) = length (procs st)" using ids by (simp add: same_ids_def like_def)
      have e: "kill_loop (p # ps) arg signo f s = (if arg > 0 then Some (None, s1) else kill_loop ps arg signo (f + 1) s1)"
        unfolding here [OF a] s1(1) using m by simp
      show ?thesis
      proof (cases "arg > 0")
        case True
        have Q: "q \<in> set (p # ps) \<and> addressed st arg q \<and> may_signal st q \<longleftrightarrow> q = p" for q
          using others [OF True] a m by auto
        have R: "\<exists>q\<in>set (p # ps). addressed st arg q \<and> may_signal st q" using a m by simp
        have "kill_loop (p # ps) arg signo f s = Some (None, s1)" using e True by simp
        moreover have "p_sig (pr s1 q) = (if q \<in> set (p # ps) \<and> addressed st arg q \<and> may_signal st q
            then with_sig signo (p_sig (pr s q)) else p_sig (pr s q))" if "q < length (procs st)" for q
          using s1(4) that n unfolding Q by auto
        ultimately show ?thesis using R s1(2) ids1 by (intro exI [of _ s1]) simp
      next
        case False
        obtain s' where s': "kill_loop ps arg signo (f + 1) s1 = Some (None, s')" "proc_ok s'" "same_ids st s'"
          "\<forall>q<length (procs st). p_sig (pr s' q) =
             (if q \<in> set ps \<and> addressed st arg q \<and> may_signal st q then with_sig signo (p_sig (pr s1 q)) else p_sig (pr s1 q))"
          using IH [OF s1(2) ids1, of "f + 1"] False by auto
        show ?thesis using e False a m s' s1(4) n np by auto
      qed
    qed
  qed
qed

lemma kill_spec:
  fixes st :: sched and pid signo :: int
  assumes ok: "proc_ok st"
  defines "T \<equiv> {(if pid > 0 then 1 else 2)..<ve_proc st}"
  shows "\<exists>e st'. kill pid signo st = Some (e, st') \<and> proc_ok st' \<and> like st st' \<and>
    (if signo < 0 \<or> signo > int NSIG \<or> (signo = SIGKILL \<and> pid = 1) then e = Some EINVAL \<and> st' = st
     else if pid = 0 \<and> p_pgrp (curp st) = 0 then e = Some ESRCH \<and> st' = st
     else e = (if \<exists>p\<in>T. addressed st pid p \<and> may_signal st p then None
               else if pid > 0 \<and> (\<exists>p\<in>T. addressed st pid p) then Some EPERM else Some ESRCH)
       \<and> (\<forall>q<length (procs st). p_sig (pr st' q) =
            (if q \<in> T \<and> addressed st pid q \<and> may_signal st q then with_sig signo (p_sig (pr st q)) else p_sig (pr st q))))"
proof -
  consider (inval) "signo < 0 \<or> signo > int NSIG \<or> (signo = SIGKILL \<and> pid = 1)"
    | (nogrp) "\<not> (signo < 0 \<or> signo > int NSIG \<or> (signo = SIGKILL \<and> pid = 1))" "pid = 0 \<and> p_pgrp (curp st) = 0"
    | (scan) "\<not> (signo < 0 \<or> signo > int NSIG \<or> (signo = SIGKILL \<and> pid = 1))" "\<not> (pid = 0 \<and> p_pgrp (curp st) = 0)"
    by blast
  then show ?thesis
  proof cases
    case inval
    then have "kill pid signo st = Some (Some EINVAL, st)" by (auto simp: kill_def)
    then show ?thesis using inval ok by simp
  next
    case nogrp
    then have "kill pid signo st = Some (Some ESRCH, st)" by (auto simp: kill_def)
    then show ?thesis using nogrp ok by simp
  next
    case scan
    let ?ps = "[(if pid > 0 then 1 else 2)..<ve_proc st]"
    have t: "table_ok st" using ok by (simp add: proc_ok_def)
    have T: "set ?ps = T" by (simp add: T_def)
    have sub: "set ?ps \<subseteq> {..<length (procs st)}" using table_okD(4) [OF t] by auto
    have up: "u_procp st < length (procs st)" using ok u_procp_less by (simp add: proc_ok_def)
    have uniq: "\<forall>p\<in>set ?ps. \<forall>q\<in>set ?ps. addressed st pid p \<and> addressed st pid q \<longrightarrow> p = q" if "pid > 0"
    proof (intro ballI impI)
      fix p q assume "p \<in> set ?ps" "q \<in> set ?ps" and "addressed st pid p \<and> addressed st pid q"
      moreover from this have "p < length (procs st)" "q < length (procs st)" using sub by blast+
      ultimately show "p = q" using table_okD(7) [OF t, of p q] that by (auto simp: addressed_def)
    qed
    have sg: "0 \<le> signo" "signo \<le> int NSIG" using scan(1) by auto
    have "\<not> (signo < 0 \<or> signo > int NSIG)" "\<not> (signo = SIGKILL \<and> pid = 1)" using scan(1) by blast+
    then have e: "kill pid signo st = kill_loop ?ps pid signo 0 st"
      unfolding kill_def using scan(2) by (simp only: if_False)
    obtain s' where "kill_loop ?ps pid signo 0 st =
      Some (if (0::nat) \<noteq> 0 \<or> (\<exists>p\<in>set ?ps. addressed st pid p \<and> may_signal st p) then None
            else if pid > 0 \<and> (\<exists>p\<in>set ?ps. addressed st pid p) then Some EPERM else Some ESRCH, s')"
      "proc_ok s'" "same_ids st s'"
      "\<forall>q<length (procs st). p_sig (pr s' q) =
         (if q \<in> set ?ps \<and> addressed st pid q \<and> may_signal st q then with_sig signo (p_sig (pr st q)) else p_sig (pr st q))"
      using kill_loop_spec [OF ok _ sub distinct_upt sg up uniq, of "0"] by (auto simp: same_ids_def)
    then show ?thesis
      unfolding e T if_not_P [OF scan(1)] if_not_P [OF scan(2)]
      by (intro exI conjI) (assumption | simp add: same_ids_def)+
  qed
qed

section \<open>The other calls\<close>

lemma ssig_ok:
  assumes ok: "proc_ok st"
  shows "\<exists>e st'. ssig signo func st = Some (e, st') \<and> proc_ok st' \<and> like st st'"
proof (cases "signo \<le> 0 \<or> signo > int NSIG \<or> signo = SIGKILL")
  case True
  then show ?thesis using ok by (auto simp: ssig_def)
next
  case False
  define st1 where "st1 = u_upd (\<lambda>x. x\<lparr>u_rval1 := u_signal x ! (nat signo - 1), u_signal := (u_signal x)[nat signo - 1 := func]\<rparr>) st"
  have 1: "proc_ok st1" unfolding st1_def by (rule proc_ok_u_upd [OF ok]) simp
  have 2: "proc_ok (clear_sig (nat signo) st1)" "like st (clear_sig (nat signo) st1)"
    using clear_sig_ok [OF 1, of "nat signo"] by (auto simp: st1_def like_def)
  let ?s = "clear_sig (nat signo) st1"
  have n: "ve_proc ?s \<le> length (procs ?s)" and up: "u_procp ?s < length (procs ?s)"
    using 2(1) table_okD(4) [of ?s] u_procp_less [of ?s] by (simp_all add: proc_ok_def)
  have "\<exists>s'. ssig_pend q s = Some s' \<and> proc_ok s' \<and> like ?s s'" if "proc_ok s \<and> like ?s s" for q s
  proof -
    have "u_procp s = u_procp ?s" using that by (simp add: like_def)
    then show ?thesis using psignal_step [OF that up] that by (auto simp: ssig_pend_def)
  qed
  then obtain s' where "each ssig_pend [1..<ve_proc ?s] ?s = Some s'" "proc_ok s' \<and> like ?s s'"
    using each_ok [of "\<lambda>s. proc_ok s \<and> like ?s s" "[1..<ve_proc ?s]" ssig_pend ?s] 2(1) like_refl by blast
  then show ?thesis
    using False 2 like_trans [of st ?s s'] by (auto simp: ssig_def Let_def st1_def)
qed

lemma alarm_ok: "proc_ok st \<Longrightarrow> proc_ok (alarm deltat st) \<and> like st (alarm deltat st)"
  unfolding alarm_def by (intro conjI proc_ok_u_upd proc_ok_upd) (simp_all add: like_def)

lemma psig_ok:
  assumes ok: "proc_ok st"
  shows "proc_ok (snd (psig st)) \<and> like st (snd (psig st))"
proof -
  have c: "proc_ok (clear_sig n st)" "like st (clear_sig n st)" for n using clear_sig_ok [OF ok] by blast+
  have l: "like st (u_upd f s)" if "like st s" for f s using that by (simp add: like_def)
  have o: "proc_ok (u_upd (u_error_update (\<lambda>_. None)) (clear_sig n st))" for n
    by (rule proc_ok_u_upd [OF c(1)]) simp
  have o2: "proc_ok (u_upd (u_signal_update (\<lambda>s. s[n - 1 := 0])) (u_upd (u_error_update (\<lambda>_. None)) (clear_sig n st)))" for n
    by (rule proc_ok_u_upd [OF o]) simp
  show ?thesis using ok c o o2 l by (simp add: psig_def Let_def)
qed

lemma sleep_return_ok:
  assumes ok: "proc_ok st" and run: "\<not> parked st"
  shows "\<exists>r st'. sleep_return disp st = Some (r, st') \<and> proc_ok st' \<and> like st st' \<and>
    r = (if uint (disp AND PMASK) > PZERO \<and> first_reported st \<noteq> 0 then caught disp else Awake)"
proof -
  have nz: "p_stat (curp st) \<noteq> SZOMB"
    using sched_invD(5) [of st "queue_of st"] ok run by (simp add: proc_ok_def sched_ok_def curp_def)
  obtain n st' where i: "issig st = Some (n, st')" "issig_post st n st'" using issig_spec [OF ok nz] by blast
  have z: "first_reported st = 0" if "p_sig (curp st) = 0" using that by (simp add: first_reported_def)
  show ?thesis
    using i ok z by (auto simp: sleep_return_def issig_post_def)
qed

lemma sched_ok_curpri: "proc_ok st \<Longrightarrow> proc_ok (st\<lparr>curpri := n\<rparr>) \<and> proc_ok (st\<lparr>runrun := r\<rparr>)"
  by (simp add: proc_ok_def sched_ok_fields table_ok_fields)

lemma clock_proc_ok:
  assumes s: "proc_ok s \<and> like st s" and p: "p < length (procs st)"
  shows "\<exists>s'. clock_proc p s = Some s' \<and> proc_ok s' \<and> like st s'"
proof (cases "p_stat (pr s p) = PFREE")
  case True
  then show ?thesis using s by (simp add: clock_proc_def)
next
  case False
  define s1 where "s1 = upd p (\<lambda>x. if p_time x \<noteq> SCHMAX then x\<lparr>p_time := p_time x + 1\<rparr> else x) s"
  have 1: "proc_ok s1 \<and> like st s1"
    unfolding s1_def using s by (auto intro!: proc_ok_upd simp: like_def split: if_splits)
  define s2 where "s2 = upd p (p_clktim_update (\<lambda>c. c - 1)) s1"
  have 2: "proc_ok s2 \<and> like st s2"
    unfolding s2_def using 1 by (auto intro!: proc_ok_upd simp: like_def)
  have "\<exists>s3. (if p_clktim (pr s1 p) \<noteq> 0 then (if p_clktim (pr s2 p) = 0 then psignal p SIGALRM s2 else Some s2) else Some s1)
      = Some s3 \<and> proc_ok s3 \<and> like st s3"
    using psignal_step [OF 2 p, of SIGALRM] 1 2 by auto
  then obtain s3 where s3: "(if p_clktim (pr s1 p) \<noteq> 0 then (if p_clktim (pr s2 p) = 0 then psignal p SIGALRM s2 else Some s2) else Some s1)
      = Some s3" and 3: "proc_ok s3 \<and> like st s3" by blast
  define s4 where "s4 = upd p (\<lambda>x. x\<lparr>p_cpu := drop_bit 1 (p_cpu x), p_inter := (if p_inter x \<noteq> 0 then p_inter x - 1 else 0)\<rparr>) s3"
  have 4: "proc_ok s4 \<and> like st s4"
    unfolding s4_def using 3 by (auto intro!: proc_ok_upd simp: like_def)
  define s5 where "s5 = upd p (\<lambda>x. x\<lparr>p_pri := new_pri x\<rparr>) s4"
  have 5: "proc_ok s5 \<and> like st s5"
    unfolding s5_def using 4 by (auto intro!: proc_ok_upd simp: like_def)
  have e: "clock_proc p s = Some (if p_pri (pr s4 p) \<ge> PUSER - NZERO then s5\<lparr>curpri := p_pri (pr s5 p)\<rparr> else s4)"
    unfolding clock_proc_def if_not_P [OF False] Let_def s1_def [symmetric] s2_def [symmetric] s3
      Option.bind.simps s4_def [symmetric] s5_def [symmetric] by simp
  show ?thesis
    unfolding e using 4 5 sched_ok_curpri by (auto simp: like_def)
qed

lemma clock_second_ok:
  assumes "proc_ok st"
  shows "\<exists>st'. clock_second st = Some st' \<and> proc_ok st' \<and> like st st'"
proof -
  have n: "ve_proc st \<le> length (procs st)" using assms table_okD(4) by (simp add: proc_ok_def)
  have "\<exists>st'. each clock_proc [0..<ve_proc st] (st\<lparr>runrun := runrun st + 1\<rparr>) = Some st' \<and> (proc_ok st' \<and> like st st')"
  proof (rule each_ok)
    show "\<exists>s'. clock_proc p s = Some s' \<and> proc_ok s' \<and> like st s'"
      if "proc_ok s \<and> like st s" "p \<in> set [0..<ve_proc st]" for p s
      by (rule clock_proc_ok [OF that(1)]) (use that(2) n in simp)
    show "proc_ok (st\<lparr>runrun := runrun st + 1\<rparr>) \<and> like st (st\<lparr>runrun := runrun st + 1\<rparr>)"
      using sched_ok_curpri [OF assms] by (simp add: like_def)
  qed
  then show ?thesis by (simp add: clock_second_def)
qed

section \<open>The theorems\<close>

text \<open>
  \<^verbatim>\<open>issig\<close> returns; its value is the lowest pending signal that is to be acted on, 0 if there is none,
  and the pending signals below it, which are ignored, are cleared, no others.
\<close>

theorem issig_reports_first:
  assumes "proc_ok st" "p_stat (curp st) \<noteq> SZOMB"
  shows "\<exists>n st'. issig st = Some (n, st') \<and> issig_post st n st'"
  by (rule issig_spec [OF assms])

text \<open>
  C22: A process that calls \<^verbatim>\<open>sleep\<close> is asleep on the channel when it gives up the processor, unless the priority
  can be interrupted and a signal is to be acted on: then it has not slept, every queue is as
  before, and it goes on as its \<^verbatim>\<open>PCATCH\<close> flag says.
\<close>

theorem sleep_or_signalled:
  assumes "proc_ok st" "\<not> parked st"
  shows "\<exists>r st'. sleep chan disp st = Some (r, st') \<and> proc_ok st' \<and> length (procs st') = length (procs st) \<and>
    (if uint (disp AND PMASK) > PZERO \<and> first_reported st \<noteq> 0
     then r = caught disp \<and> \<not> parked st' \<and> (\<forall>k\<in>heads. queue_of st' k = queue_of st k)
     else r = Switched \<and> parked st' \<and> u_procp st \<in> set (sleepers chan st'))"
  by (rule sleep_ok [OF assms])

text \<open>
  C25: \<^verbatim>\<open>kill\<close> sets the signal pending for exactly the processes it addresses that the caller may signal.
  It fails with \<^verbatim>\<open>EINVAL\<close> for a bad signal number, with \<^verbatim>\<open>ESRCH\<close> if it addresses none, with \<^verbatim>\<open>EPERM\<close>
  if it addresses one by number that the caller may not signal.
\<close>

theorem kill_signals_permitted:
  fixes st :: sched and pid signo :: int
  assumes "proc_ok st"
  shows "\<exists>e st'. kill pid signo st = Some (e, st') \<and> proc_ok st' \<and> like st st' \<and>
    (if signo < 0 \<or> signo > int NSIG \<or> (signo = SIGKILL \<and> pid = 1) then e = Some EINVAL \<and> st' = st
     else if pid = 0 \<and> p_pgrp (curp st) = 0 then e = Some ESRCH \<and> st' = st
     else e = (if \<exists>p\<in>{(if pid > 0 then 1 else 2)..<ve_proc st}. addressed st pid p \<and> may_signal st p then None
               else if pid > 0 \<and> (\<exists>p\<in>{(if pid > 0 then 1 else 2)..<ve_proc st}. addressed st pid p) then Some EPERM
               else Some ESRCH)
       \<and> (\<forall>q<length (procs st). p_sig (pr st' q) =
            (if q \<in> {(if pid > 0 then 1 else 2)..<ve_proc st} \<and> addressed st pid q \<and> may_signal st q
             then with_sig signo (p_sig (pr st q)) else p_sig (pr st q))))"
  by (rule kill_spec [OF assms])

section \<open>Examples\<close>

lemma demo_fields:
  assumes "p < 5"
  shows "p_pid (pr demo p) = (if p = 4 then 0 else int p)"
    "p_stat (pr demo p) = (if p \<le> 1 then SSLEEP else if p = 2 then SRUN else if p = 3 then SZOMB else PFREE)"
    "p_sig (pr demo p) = (if p = 2 then 3 else if p = 3 then 0x1000000 else 0)"
  using demo_cases [OF assms] by (auto simp: demo_procs free_entry_def)

lemma demo_proc_ok: "proc_ok demo"
proof -
  have a: "\<forall>us\<in>set (users demo). length (u_signal us) = NSIG" and b: "length (users demo) = 5" "ve_proc demo = 4"
    by (simp_all add: demo_def boot_user_def NSIG_def list_update_code eval_nat_numeral)
  have b3: "\<not> bit (3 :: u32) 31" by code_simp
  have c: "\<not> bit (p_sig (pr demo p)) 31" if "p < 5" "p_stat (pr demo p) \<noteq> SZOMB" for p
    using that by (cases "p = 2") (simp_all add: demo_fields b3 split: if_splits)
  have d: "p = q" if "p < 5" "q < 5" "p_stat (pr demo p) \<noteq> PFREE" "p_stat (pr demo q) \<noteq> PFREE"
    "p_pid (pr demo p) = p_pid (pr demo q)" for p q
    using that by (simp add: demo_fields split: if_splits)
  have e: "p_stat (pr demo p) = PFREE" if "4 \<le> p" "p < 5" for p using that by (simp add: demo_fields)
  have f: "p_stat (pr demo 0) = SSLEEP" by (simp add: demo_fields)
  have "table_ok demo"
    unfolding table_ok_def b demo_procs(1) f
  proof (intro conjI allI impI)
    show "\<forall>us\<in>set (users demo). length (u_signal us) = NSIG" by (rule a)
  qed (use c d e in \<open>(simp | blast)+\<close>)
  then show ?thesis using demo_ok by (simp add: proc_ok_def)
qed

lemma demo_cur:
  "u_procp demo = 2" "curp demo = pr demo 2" "u_signal (uarea demo) = (replicate NSIG 0)[0 := 1]"
  "\<not> parked demo" "ve_proc demo = 4" "u_uid (uarea demo) = 0"
  by (simp_all add: demo_def curp_def uarea_def boot_user_def)

lemma demo_first: "first_reported demo = 2"
proof -
  have p: "p_sig (curp demo) = 3" "p_flag (curp demo) = SLOAD" by (simp_all add: demo_cur demo_procs free_entry_def)
  have r: "\<not> reports demo 1" "reports demo 2"
    by (simp_all add: reports_def demo_cur demo_procs free_entry_def NSIG_def SLOAD_def STRC_def)
  have b: "bit (3 :: u32) 0" "bit (3 :: u32) 1" by simp_all
  have "(LEAST i. bit (p_sig (curp demo)) i \<and> reports demo (Suc i)) = 1"
  proof (rule Least_equality)
    show "bit (p_sig (curp demo)) 1 \<and> reports demo (Suc 1)" using r b by (simp add: p numeral_2_eq_2)
    show "1 \<le> i" if "bit (p_sig (curp demo)) i \<and> reports demo (Suc i)" for i
      using that r by (cases i) simp_all
  qed
  moreover have "\<exists>i<31. bit (p_sig (curp demo)) i \<and> reports demo (Suc i)"
    by (rule exI [of _ 1]) (use r in \<open>simp add: p b numeral_2_eq_2\<close>)
  ultimately show ?thesis by (simp add: first_reported_def)
qed

theorem issig_reports_first_witness:
  "\<exists>st'. issig demo = Some (2, st') \<and> issig_post demo 2 st'"
  using issig_reports_first [OF demo_proc_ok] demo_first by (auto simp: demo_cur demo_procs issig_post_def)

theorem sleep_or_signalled_witness:
  "\<exists>st'. sleep 0x2010 (26 OR PCATCH) demo = Some (Signalled True, st') \<and> \<not> parked st'"
  using sleep_or_signalled [OF demo_proc_ok, of "0x2010" "26 OR PCATCH"]
  by (auto simp: demo_first demo_cur caught_def PMASK_def PCATCH_def PZERO_def)

theorem kill_signals_permitted_witness:
  "\<exists>st'. kill 1 15 demo = Some (None, st') \<and> p_sig (pr st' 1) = 0x4000 \<and> p_sig (pr st' 2) = 3"
proof -
  have a: "addressed demo 1 1" "may_signal demo 1" "\<not> addressed demo 1 2"
    by (simp_all add: addressed_def may_signal_def demo_fields demo_cur)
  then have e: "\<exists>p\<in>{(if (0::int) < 1 then 1 else 2)..<ve_proc demo}. addressed demo 1 p \<and> may_signal demo p"
    by (intro bexI [of _ 1]) (auto simp: demo_cur)
  obtain st' where k: "kill 1 15 demo = Some (None, st')" and
    s: "\<forall>q<length (procs demo). p_sig (pr st' q) =
            (if q \<in> {(if (0::int) < 1 then 1 else 2)..<ve_proc demo} \<and> addressed demo 1 q \<and> may_signal demo q
             then with_sig 15 (p_sig (pr demo q)) else p_sig (pr demo q))"
    using kill_signals_permitted [OF demo_proc_ok, of 1 15] unfolding if_P [OF e] by (auto simp: NSIG_def)
  have "p_sig (pr st' 1) = 0x4000" "p_sig (pr st' 2) = 3"
    using s [rule_format, of 1] s [rule_format, of 2] a
    by (simp_all add: demo_procs(1) demo_cur demo_fields with_sig_def del: One_nat_def)
  then show ?thesis using k by blast
qed

end
