(* ===== verification/Proc_Life.thy ===== *)
theory Proc_Life
  imports Proc_Signal
begin

text \<open>
  The life of a process (\<^verbatim>\<open>sys/os/fork.c\<close>, \<^verbatim>\<open>sys/os/exit.c\<close>, \<^verbatim>\<open>stop\<close> and the restart of a traced child
  in \<^verbatim>\<open>sys/os/ptrace.c\<close>, \<^verbatim>\<open>memreserve\<close> in \<^verbatim>\<open>sys/os/page.c\<close>, the loading of a process in
  \<^verbatim>\<open>sys/os/sched.c\<close>), and the step relation of the whole scheduler with the invariant of its
  reachable states. Files, directories, semaphores, regions and accounting, which fork and exit
  pass on and give up, are not in this state; whether the regions of a process can be copied is
  the parameter \<open>dup\<close> of \<^verbatim>\<open>newproc\<close>. The exit status of a zombie lies where its pending signals
  were, in the upper half of \<^verbatim>\<open>p_sig\<close>; what the times do to the lower half is never read.
\<close>

section \<open>newproc\<close>

text \<open>
  The scan of the table for a process number: \<open>None\<close> when it is taken; otherwise the first free
  entry, the number of processes of the user, and the last entry in use.
\<close>

fun np_scan :: "sched \<Rightarrow> int \<Rightarrow> nat list \<Rightarrow> nat option \<Rightarrow> nat \<Rightarrow> nat \<Rightarrow> (nat option \<times> nat \<times> nat) option" where
  "np_scan st m [] cp a pend = Some (cp, a, pend)"
| "np_scan st m (p # ps) cp a pend =
    (if p_stat (pr st p) = PFREE then np_scan st m ps (if cp = None then Some p else cp) a pend
     else if p_pid (pr st p) = m then None
     else np_scan st m ps cp (if p_uid (pr st p) = u_ruid (uarea st) then a + 1 else a) p)"

partial_function (option) np_pid :: "sched \<Rightarrow> int \<Rightarrow> (int \<times> nat option \<times> nat \<times> nat) option" where
  "np_pid st m =
    (if m + 1 \<ge> MAXPID then np_pid st 0
     else case np_scan st (m + 1) [0..<ve_proc st] None 0 0 of
         None \<Rightarrow> np_pid st (m + 1)
       | Some r \<Rightarrow> Some (m + 1, r))"

text \<open>The entry of the new process.\<close>

definition np_entry :: "proc \<Rightarrow> int \<Rightarrow> proc \<Rightarrow> proc" where
  "np_entry pp m x = x\<lparr>p_uid := p_uid pp, p_suid := p_suid pp, p_pgrp := p_pgrp pp, p_nice := p_nice pp,
     p_stat := SIDL, p_clktim := 0, p_flag := SLOAD OR SLOCK, p_pid := m, p_ppid := p_pid pp, p_time := 0,
     p_cpu := 0, p_inter := 0, p_pri := PUSER + p_nice pp - NZERO\<rparr>"

text \<open>
  \<^verbatim>\<open>newproc\<close> in the parent: up to the call of \<^verbatim>\<open>procdup\<close>, which may wait for memory, and from its return on; \<open>dup\<close> tells
  whether it has succeeded. \<open>NpPanic\<close> is the panic of a kernel process without a free entry.
\<close>

datatype np_result = NpChild | NpFail errno | NpPanic

definition np_begin :: "bool \<Rightarrow> nat \<Rightarrow> sched \<Rightarrow> ((np_result + nat) \<times> sched) option" where
  "np_begin i maxup st = Option.bind (np_pid st (mpid st)) (\<lambda>(m, cp0, a, pend0).
     let st0 = st\<lparr>mpid := m\<rparr> in
     if cp0 = None \<and> ve_proc st0 \<ge> length (procs st0) then Some (Inl (if i then NpFail EAGAIN else NpPanic), st0)
     else let cp = (case cp0 of None \<Rightarrow> ve_proc st0 | Some c \<Rightarrow> c);
              pend = (if cp > pend0 then cp else pend0) + 1;
              st1 = st0\<lparr>ve_proc := pend\<rparr>
          in if u_uid (uarea st1) \<noteq> 0 \<and> u_ruid (uarea st1) \<noteq> 0 \<and> (cp = length (procs st1) - 1 \<or> a > maxup)
             then Some (Inl (NpFail EAGAIN), st1)
             else Some (Inr cp, upd cp (np_entry (curp st1) m) st1))"

definition np_end :: "bool \<Rightarrow> bool \<Rightarrow> nat \<Rightarrow> sched \<Rightarrow> (np_result \<times> sched) option" where
  "np_end i dup cp st =
     (if \<not> dup then
        (if \<not> i then Some (NpPanic, st) else Some (NpFail EAGAIN, upd cp (\<lambda>x. x\<lparr>p_stat := PFREE, p_ppid := 0\<rparr>) st))
      else let st1 = st\<lparr>users := (users st)[cp := uarea st]\<rparr>;
               st2 = upd (u_procp st) (p_stat_update (\<lambda>_. SRUN)) st1;
               st3 = upd cp (\<lambda>x. x\<lparr>p_flag := p_flag x AND NOT SLOCK, p_stat := SRUN\<rparr>) st2
           in Option.bind (setrq cp st3) (\<lambda>st4.
                Some (NpChild, (u_upd (u_rval1_update (\<lambda>_. p_pid (pr st4 cp))) st4)\<lparr>runrun := 1\<rparr>)))"

definition newproc :: "bool \<Rightarrow> nat \<Rightarrow> bool \<Rightarrow> sched \<Rightarrow> (np_result \<times> sched) option" where
  "newproc i maxup dup st = Option.bind (np_begin i maxup st) (\<lambda>(r, st1).
     case r of Inl res \<Rightarrow> Some (res, st1) | Inr cp \<Rightarrow> np_end i dup cp st1)"

section \<open>exit and wait\<close>

text \<open>
  The beginning of \<^verbatim>\<open>exit\<close>; \<open>tty\<close> is the process group of the terminal the u area points to.
\<close>

definition exit_begin :: "int option \<Rightarrow> sched \<Rightarrow> (int option \<times> sched) option" where
  "exit_begin tty st =
    (let p = u_procp st;
         st1 = upd p (\<lambda>x. x\<lparr>p_flag := p_flag x AND NOT STRC, p_clktim := 0\<rparr>) st;
         st2 = u_upd (u_signal_update (\<lambda>s. replicate NSIG 1)) st1
     in Option.bind
          (if p_pid (pr st2 p) = p_pgrp (pr st2 p) \<and> tty = Some (p_pgrp (pr st2 p))
           then map_option (Pair (Some 0)) (signal (p_pgrp (pr st2 p)) 1 st2) else Some (tty, st2)) (\<lambda>(tty1, st3).
        Some (tty1, upd p (p_pgrp_update (\<lambda>_. 0)) st3)))"

definition exit_child :: "nat \<Rightarrow> nat \<Rightarrow> sched \<Rightarrow> sched option" where
  "exit_child p q st =
    Option.bind
      (if p_pid (pr st p) = p_ppid (pr st q) then
         (let st1 = upd q (p_ppid_update (\<lambda>_. 1)) st
          in Option.bind (if p_stat (pr st1 q) = SZOMB then psignal 1 (int SIGCLD) st1 else Some st1) (\<lambda>st2.
             if p_stat (pr st2 q) = SSTOP then setrun q st2 else Some st2))
       else if p_ppid (pr st p) = p_pid (pr st q) then psignal q (int SIGCLD) st
       else Some st) (\<lambda>st3.
    Some (if p_pid (pr st3 p) = p_pgrp (pr st3 q) then upd q (p_pgrp_update (\<lambda>_. 0)) st3 else st3))"

text \<open>The status takes the upper half of \<^verbatim>\<open>p_sig\<close> (\<^verbatim>\<open>xp_xstat\<close>).\<close>

definition set_xstat :: "int \<Rightarrow> proc \<Rightarrow> proc" where
  "set_xstat rv x = x\<lparr>p_sig := push_bit 16 (word_of_int rv) OR (p_sig x AND 0xFFFF)\<rparr>"

definition get_xstat :: "proc \<Rightarrow> int" where
  "get_xstat x = sint (ucast (drop_bit 16 (p_sig x)) :: u16)"

definition exit_end :: "int \<Rightarrow> sched \<Rightarrow> sched option" where
  "exit_end rv st =
    (let p = u_procp st;
         st1 = upd p (\<lambda>x. (set_xstat rv (x\<lparr>p_stat := SZOMB\<rparr>))\<lparr>
                  xp_utime := u_cutime (uarea st) + u_utime (uarea st),
                  xp_stime := u_cstime (uarea st) + u_stime (uarea st)\<rparr>) (st\<lparr>parked := True\<rparr>)
     in each (exit_child p) [1..<ve_proc st1] st1)"

text \<open>
  \<^verbatim>\<open>wait\<close>: one pass over the table. The number and the status of a zombie or a newly stopped
  child, the sleep after which it starts again, or the error.
\<close>

datatype waited = WZombie int int | WStopped int int | WSleep | WErr errno

fun wait_scan :: "nat list \<Rightarrow> nat \<Rightarrow> sched \<Rightarrow> waited \<times> sched" where
  "wait_scan [] f st = (if f \<noteq> 0 then WSleep else WErr ECHILD, st)"
| "wait_scan (p # ps) f st =
    (if p_ppid (pr st p) = p_pid (curp st) then
       (if p_stat (pr st p) = SZOMB then (WZombie (p_pid (pr st p)) (get_xstat (pr st p)), freeproc p True st)
        else if p_stat (pr st p) = SSTOP then
          (if p_flag (pr st p) AND SWTED = 0 then
             (let st1 = u_upd (u_rval1_update (\<lambda>_. p_pid (pr st p)))
                          (upd p (p_flag_update (\<lambda>f. f OR SWTED)) st)
              in (WStopped (p_pid (pr st1 p)) (int (fsig (p_sig (pr st1 p))) * 256 + 127), st1))
           else wait_scan ps (f + 1) st)
        else wait_scan ps (f + 1) st)
     else wait_scan ps f st)"

definition wait :: "sched \<Rightarrow> waited \<times> sched" where
  "wait st = wait_scan [1..<ve_proc st] 0 st"

section \<open>Stopping, lack of memory, and the scheduler\<close>

text \<open>
  \<^verbatim>\<open>stop\<close> up to \<^verbatim>\<open>swtch\<close>: the parent is woken, on the address of its entry; \<open>None\<close> in the result is
  the call of \<^verbatim>\<open>exit\<close> when there is no parent to trace it.
\<close>

definition find_parent :: "sched \<Rightarrow> nat option" where
  "find_parent st = (if p_ppid (curp st) = 1 then None
     else find (\<lambda>q. p_pid (pr st q) = p_ppid (curp st)) [0..<ve_proc st])"

definition stop :: "(nat \<Rightarrow> u32) \<Rightarrow> sched \<Rightarrow> (nat option \<times> sched) option" where
  "stop chan st = (case find_parent st of
      None \<Rightarrow> Some (None, st)
    | Some pp \<Rightarrow> Option.bind (wakeup (chan pp) st) (\<lambda>st1.
        Some (Some pp, (upd (u_procp st1) (p_stat_update (\<lambda>_. SSTOP)) st1)\<lparr>parked := True\<rparr>)))"

text \<open>The restart of a stopped child by its tracing parent.\<close>

definition ptrace_cont :: "nat \<Rightarrow> sched \<Rightarrow> sched option" where
  "ptrace_cont p st = setrun p (upd p (p_flag_update (\<lambda>f. f AND NOT SWTED)) st)"

text \<open>A process that finds no memory waits, off the run queue, for the scheduler.\<close>

definition xbrk :: "u32 \<Rightarrow> sched \<Rightarrow> sched option" where
  "xbrk chan st = Option.bind
     (if runout st \<noteq> 0 then wakeup chan (st\<lparr>runout := 0\<rparr>) else Some st) (\<lambda>st1.
     Some ((upd (u_procp st1) (p_stat_update (\<lambda>_. SXBRK)) st1)\<lparr>parked := True\<rparr>))"

text \<open>\<^verbatim>\<open>sched\<close>: the process to reactivate, the one longest out, and its reactivation.\<close>

definition wants_in :: "proc \<Rightarrow> bool" where
  "wants_in x \<longleftrightarrow> p_stat x = SXBRK \<or> p_stat x = SRUN \<and> \<not> loaded x"


definition sched_load :: "nat \<Rightarrow> sched \<Rightarrow> sched option" where
  "sched_load p st = Option.bind
     (if p_stat (pr st p) = SXBRK then setrq p (upd p (p_stat_update (\<lambda>_. SRUN)) st) else Some st) (\<lambda>st1.
     Some (upd p (\<lambda>x. x\<lparr>p_flag := p_flag x OR SLOAD, p_time := 0\<rparr>) st1))"

definition sched_out :: "nat \<Rightarrow> sched \<Rightarrow> sched" where
  "sched_out p st = upd p (\<lambda>x. x\<lparr>p_flag := (p_flag x OR SLOCK) AND NOT SLOAD AND NOT SLOCK, p_time := 0\<rparr>) st"







section \<open>Process numbers\<close>

abbreviation used :: "sched \<Rightarrow> nat \<Rightarrow> bool" where "used st p \<equiv> p_stat (pr st p) \<noteq> PFREE"

lemma np_scan_None:
  "np_scan st m ps cp a pend = None \<longleftrightarrow> (\<exists>p\<in>set ps. used st p \<and> p_pid (pr st p) = m)"
  by (induction ps arbitrary: cp a pend) auto

lemma np_scan_Some:
  "\<lbrakk>np_scan st m ps cp a pend = Some (cp', a', pend'); sorted ps; \<forall>p\<in>set ps. pend \<le> p\<rbrakk> \<Longrightarrow>
     cp' = (case cp of Some c \<Rightarrow> Some c | None \<Rightarrow> find (\<lambda>p. \<not> used st p) ps)
     \<and> (\<forall>p\<in>set ps. used st p \<longrightarrow> p \<le> pend') \<and> pend' \<in> insert pend (set ps) \<and> pend \<le> pend'
     \<and> a' = a + length (filter (\<lambda>p. used st p \<and> p_uid (pr st p) = u_ruid (uarea st)) ps)"
proof (induction ps arbitrary: cp a pend)
  case (Cons p ps)
  show ?case
  proof (cases "used st p")
    case False
    then have "np_scan st m ps (if cp = None then Some p else cp) a pend = Some (cp', a', pend')"
      using Cons.prems(1) by simp
    from Cons.IH [OF this] Cons.prems False show ?thesis by (auto split: option.splits)
  next
    case True
    then have "p_pid (pr st p) \<noteq> m" using Cons.prems(1) by auto
    with True have "np_scan st m ps cp (if p_uid (pr st p) = u_ruid (uarea st) then a + 1 else a) p = Some (cp', a', pend')"
      using Cons.prems(1) by simp
    from Cons.IH [OF this] Cons.prems True show ?thesis by (auto split: option.splits)
  qed
qed (auto split: option.splits)

abbreviation taken :: "sched \<Rightarrow> int \<Rightarrow> bool" where
  "taken st m \<equiv> \<exists>p<ve_proc st. used st p \<and> p_pid (pr st p) = m"

abbreviation scan_all :: "sched \<Rightarrow> int \<Rightarrow> (nat option \<times> nat \<times> nat) option" where
  "scan_all st m \<equiv> np_scan st m [0..<ve_proc st] None 0 0"

lemma scan_all_None: "scan_all st m = None \<longleftrightarrow> taken st m"
  by (auto simp: np_scan_None)

definition np_found :: "sched \<Rightarrow> int \<Rightarrow> bool" where
  "np_found st m \<longleftrightarrow> (\<exists>m' r. np_pid st m = Some (m', r) \<and> scan_all st m' = Some r \<and> m' < MAXPID \<and> (0 \<le> m \<longrightarrow> 1 \<le> m'))"

lemma np_found_step:
  assumes "m + 1 < MAXPID" "taken st (m + 1) \<Longrightarrow> np_found st (m + 1)"
  shows "np_found st m"
proof (cases "taken st (m + 1)")
  case True
  then have "scan_all st (m + 1) = None" by (simp add: scan_all_None)
  then have "np_pid st m = np_pid st (m + 1)" using assms(1) by (subst np_pid.simps) simp
  then show ?thesis using assms(2) [OF True] by (auto simp: np_found_def)
next
  case False
  then obtain r where "scan_all st (m + 1) = Some r" using scan_all_None by (metis option.exhaust)
  moreover from this have "np_pid st m = Some (m + 1, r)" using assms(1) by (subst np_pid.simps) simp
  ultimately show ?thesis using assms(1) by (auto simp: np_found_def)
qed

lemma np_found_below:
  assumes f: "\<not> taken st f" "f < MAXPID" and m: "m < f"
  shows "np_found st m"
  using m
proof (induction "nat (f - m)" arbitrary: m rule: less_induct)
  case less
  show ?case
  proof (rule np_found_step)
    show "m + 1 < MAXPID" using less.prems f(2) by simp
    assume "taken st (m + 1)"
    then have "m + 1 < f" using f(1) less.prems by (cases "m + 1 = f") auto
    then show "np_found st (m + 1)" by (intro less.hyps) auto
  qed
qed

text \<open>The search ends whenever one of the numbers below \<^verbatim>\<open>MAXPID\<close> is free.\<close>

lemma np_pid_ends:
  assumes f: "\<not> taken st f" "1 \<le> f" "f < MAXPID"
  shows "np_found st m"
proof (induction "nat (MAXPID - m)" arbitrary: m rule: less_induct)
  case less
  have z: "np_found st 0" by (rule np_found_below [OF f(1,3)]) (use f in simp)
  show ?case
  proof (cases "m + 1 < MAXPID")
    case True
    show ?thesis by (rule np_found_step [OF True]) (rule less.hyps, use True in auto)
  next
    case False
    then have "np_pid st m = np_pid st 0" by (subst np_pid.simps) simp
    then show ?thesis using z by (auto simp: np_found_def)
  qed
qed

lemma free_number:
  assumes "int (ve_proc st) < MAXPID - 1"
  shows "\<exists>f. \<not> taken st f \<and> 1 \<le> f \<and> f < MAXPID"
proof (rule ccontr)
  assume "\<not> ?thesis"
  then have all: "\<forall>f. 1 \<le> f \<and> f < MAXPID \<longrightarrow> (\<exists>p<ve_proc st. p_pid (pr st p) = f)" by blast
  have "{1..<MAXPID} \<subseteq> (\<lambda>p. p_pid (pr st p)) ` {..<ve_proc st}"
  proof
    fix f assume "f \<in> {1..<MAXPID}"
    then obtain p where "p < ve_proc st" "p_pid (pr st p) = f" using all by auto
    then show "f \<in> (\<lambda>p. p_pid (pr st p)) ` {..<ve_proc st}" by auto
  qed
  then have "card {1..<MAXPID} \<le> card ((\<lambda>p. p_pid (pr st p)) ` {..<ve_proc st})"
    by (intro card_mono) auto
  also have "\<dots> \<le> ve_proc st" using card_image_le [of "{..<ve_proc st}"] by fastforce
  finally show False using assms by (simp add: MAXPID_def)
qed

section \<open>New entries\<close>

text \<open>Making a process runnable that is on no queue.\<close>

lemma setrq_new:
  assumes ok: "sched_ok st" and p: "p < length (procs st)" and s: "p_stat (pr st p) \<notin> {SRUN, SSLEEP}"
    and f: "\<And>x. p_stat (f x) = SRUN" "\<And>x. p_link_update (\<lambda>_. None) (f x) = f (p_link_update (\<lambda>_. None) x)"
      "\<And>x. p_link (f x) = p_link x"
    and c: "p = u_procp st \<longrightarrow> parked st"
  shows "\<exists>st'. setrq p (upd p f st) = Some st' \<and> sched_ok st' \<and> bare st' = upd p f (bare st)
    \<and> queue_of st' Runq = p # queue_of st Runq"
proof -
  have i: "sched_inv st (queue_of st)" using ok by (simp add: sched_ok_def)
  note q = sched_invD(1) [OF i]
  have free: "p \<notin> set (queue_of st k)" if "k \<in> heads" for k
    using that sched_invD(2,3) [OF i] s by (cases k) auto
  have q1: "queues (upd p f st) (queue_of st)"
    by (rule queues_cong [OF q]) (simp_all add: links_upd_same f(3))
  have "on_runq (runq (upd p f st)) p (upd p f st) = Some (p \<in> set (queue_of st Runq))"
    by (rule on_runq_chain) (use queuesD(2) [OF q1, of Runq] in \<open>simp add: deref_def\<close>)
  then have e: "setrq p (upd p f st) = Some (push_runq p (upd p f st))"
    using free [of Runq] by (simp add: setrq_def)
  have b: "bare (push_runq p (upd p f st)) = upd p f (bare st)"
    unfolding bare_push by (rule bare_upd, rule f(2), rule p)
  have q2: "queues (push_runq p (upd p f st)) ((queue_of st)(Runq := p # queue_of st Runq))"
    by (rule push_runq_queues [OF q1]) (use p free in auto)
  let ?s = "push_runq p (upd p f st)"
  have n: "length (procs ?s) = length (procs st)" "u_procp ?s = u_procp st" "parked ?s = parked st"
    using bare_eqD(1,6,7) [OF bare_push, of p "upd p f st"] by simp_all
  have stt: "p_stat (pr ?s x) = (if x = p then SRUN else p_stat (pr st x))"
    and wc: "x \<noteq> p \<Longrightarrow> p_wchan (pr ?s x) = p_wchan (pr st x)" if "x < length (procs st)" for x
    using bare_eqD(2,3) [OF bare_push, of x p "upd p f st"] that p n f(1) by (auto simp: pr_upd)
  have wc': "p_wchan (pr ?s x) = p_wchan (pr st x)" if "x < length (procs st)" "p_stat (pr st x) = SSLEEP" for x
    using wc [OF that(1)] that(2) s by auto
  have "sched_inv ?s ((queue_of st)(Runq := p # queue_of st Runq))"
    unfolding sched_inv_def
  proof (intro conjI allI impI)
    show "set (((queue_of st)(Runq := p # queue_of st Runq)) Runq)
        = {x. x < length (procs ?s) \<and> p_stat (pr ?s x) = SRUN \<and> (x = u_procp ?s \<longrightarrow> parked ?s)}"
      using p c by (auto simp: sched_invD(2) [OF i] stt n split: if_splits)
    show "set (((queue_of st)(Runq := p # queue_of st Runq)) (Hsque h))
        = {x. x < length (procs ?s) \<and> p_stat (pr ?s x) = SSLEEP \<and> sqhash (p_wchan (pr ?s x)) = h}" if "h < NHSQUE" for h
      using that s by (auto simp: sched_invD(3) [OF i] stt n wc' split: if_splits)
  qed (use q2 sched_invD(4,5) [OF i] p in \<open>auto simp: n stt\<close>)
  then show ?thesis using e b sched_inv_ok sched_inv_queue [of ?s _ Runq] by auto
qed

lemma table_ok_ve:
  assumes "table_ok st" "1 \<le> v" "v \<le> length (procs st)" "\<And>p. \<lbrakk>v \<le> p; p < length (procs st)\<rbrakk> \<Longrightarrow> \<not> used st p"
  shows "table_ok (st\<lparr>ve_proc := v\<rparr>)"
  using assms unfolding table_ok_def by auto

lemma table_ok_new:
  assumes t: "table_ok st" and p: "p < ve_proc st" and fr: "\<not> used st p" and z: "p_stat (f (pr st p)) \<noteq> SZOMB"
    and m: "\<And>q. q < length (procs st) \<Longrightarrow> used st q \<Longrightarrow> p_pid (pr st q) \<noteq> p_pid (f (pr st p))"
    and sg: "\<And>x. p_sig (f x) = p_sig x"
  shows "table_ok (upd p f st)"
proof -
  have pl: "p < length (procs st)" by (rule less_le_trans [OF p table_okD(4) [OF t]])
  have p0: "p \<noteq> 0" using fr table_okD(8) [OF t] by metis
  have "\<not> bit (p_sig (pr st p)) 31" using table_okD(6) [OF t pl] fr by simp
  moreover have "p_pid (pr st q) \<noteq> p_pid (f (pr st p))" if "q < length (procs st)" "used st q" for q using m that by blast
  ultimately show ?thesis
    using t p pl p0 z sg unfolding table_ok_def by (auto simp: pr_upd) (metis table_okD(7) [OF t] m)+
qed

lemma table_ok_users:
  assumes t: "table_ok st" and c: "u_procp st < length (procs st)"
  shows "table_ok (st\<lparr>users := (users st)[q := uarea st]\<rparr>)"
proof -
  have "uarea st \<in> set (users st)" using c table_okD(1) [OF t] by (simp add: uarea_def)
  then have "length (u_signal x) = NSIG" if "x \<in> set ((users st)[q := uarea st])" for x
    using that set_update_subset_insert [of "users st" q "uarea st"] table_okD(2) [OF t] by blast
  then show ?thesis using t unfolding table_ok_def by simp
qed

section \<open>newproc\<close>

text \<open>What a successful \<^verbatim>\<open>newproc\<close> has made.\<close>

definition np_post :: "sched \<Rightarrow> sched \<Rightarrow> bool" where
  "np_post st st' \<longleftrightarrow> (\<exists>c<length (procs st). \<not> used st c \<and> c \<in> set (queue_of st' Runq)
     \<and> p_stat (pr st' c) = SRUN \<and> p_ppid (pr st' c) = p_pid (curp st) \<and> \<not> taken st (p_pid (pr st' c))
     \<and> p_pid (pr st' c) < MAXPID \<and> (0 \<le> mpid st \<longrightarrow> 1 \<le> p_pid (pr st' c))
     \<and> u_rval1 (uarea st') = p_pid (pr st' c) \<and> u_signal (users st' ! c) = u_signal (uarea st)
     \<and> p_sig (pr st' c) = p_sig (pr st c)
     \<and> (\<forall>q<length (procs st). q \<noteq> c \<longrightarrow> p_pid (pr st' q) = p_pid (pr st q) \<and> p_stat (pr st' q) = p_stat (pr st q)))"

lemma newproc_entry:
  assumes ok: "proc_ok st" and run: "\<not> parked st"
    and sc: "scan_all st m = Some (cp0, a, pend0)" and nf: "\<not> (cp0 = None \<and> ve_proc st \<ge> length (procs st))"
  defines "cp \<equiv> (case cp0 of None \<Rightarrow> ve_proc st | Some c \<Rightarrow> c)"
  defines "v \<equiv> (if cp > pend0 then cp else pend0) + 1"
  shows "cp < length (procs st)" "\<not> used st cp" "cp < v" "1 \<le> v" "v \<le> length (procs st)"
    "\<And>p. \<lbrakk>v \<le> p; p < length (procs st)\<rbrakk> \<Longrightarrow> \<not> used st p" "\<not> taken st m" "cp \<noteq> u_procp st"
proof -
  have t: "table_ok st" using ok by (simp add: proc_ok_def)
  have sp: "cp0 = find (\<lambda>p. \<not> used st p) [0..<ve_proc st]" "\<And>p. p < ve_proc st \<Longrightarrow> used st p \<Longrightarrow> p \<le> pend0"
    "pend0 < ve_proc st"
    using np_scan_Some [OF sc sorted_upt] table_okD(3) [OF t] by auto
  have "cp < length (procs st) \<and> \<not> used st cp"
  proof (cases cp0)
    case None
    then show ?thesis using nf table_okD(5) [OF t, of "ve_proc st"] by (simp add: cp_def)
  next
    case (Some c)
    then have "c \<in> set [0..<ve_proc st] \<and> \<not> used st c" using sp(1) by (intro find_SomeD) simp
    then show ?thesis using Some table_okD(4) [OF t] by (simp add: cp_def)
  qed
  then show cpl: "cp < length (procs st)" and fr: "\<not> used st cp" by simp_all
  show "cp < v" "1 \<le> v" by (simp_all add: v_def)
  show "v \<le> length (procs st)" using cpl sp(3) table_okD(4) [OF t] by (simp add: v_def)
  show "\<not> used st p" if "v \<le> p" "p < length (procs st)" for p
    using sp(2) [of p] table_okD(5) [OF t, of p] that by (fastforce simp: v_def split: if_splits)
  show "\<not> taken st m" using sc scan_all_None [of st m] by simp
  show "cp \<noteq> u_procp st"
    using fr sched_invD(5) [of st "queue_of st"] ok run by (auto simp: proc_ok_def sched_ok_def)
qed

lemma proc_ok_mpid: "proc_ok st \<Longrightarrow> proc_ok (st\<lparr>mpid := m\<rparr>)"
  by (simp add: proc_ok_def sched_ok_fields table_ok_def)

text \<open>The first part has made an entry that no scan takes for free and no queue holds.\<close>

definition begun :: "sched \<Rightarrow> nat \<Rightarrow> sched \<Rightarrow> bool" where
  "begun st c st' \<longleftrightarrow> c < length (procs st) \<and> \<not> used st c \<and> c \<noteq> 0 \<and> p_stat (pr st' c) = SIDL \<and> p_ppid (pr st' c) = p_pid (curp st)
     \<and> \<not> taken st (p_pid (pr st' c)) \<and> p_pid (pr st' c) < MAXPID \<and> (0 \<le> mpid st \<longrightarrow> 1 \<le> p_pid (pr st' c))
     \<and> p_sig (pr st' c) = p_sig (pr st c) \<and> users st' = users st
     \<and> (\<forall>q<length (procs st). q \<noteq> c \<longrightarrow> p_pid (pr st' q) = p_pid (pr st q) \<and> p_stat (pr st' q) = p_stat (pr st q))"

lemma np_entry_ok:
  assumes ok: "proc_ok st" and cp: "cp < ve_proc st" "\<not> used st cp"
    and m: "\<And>q. q < length (procs st) \<Longrightarrow> used st q \<Longrightarrow> p_pid (pr st q) \<noteq> m"
  shows "proc_ok (upd cp (np_entry x m) st)"
proof -
  have t: "table_ok st" and so: "sched_ok st" using ok by (simp_all add: proc_ok_def)
  have cl: "cp < length (procs st)" by (rule less_le_trans [OF cp(1) table_okD(4) [OF t]])
  have "sched_ok (upd cp (np_entry x m) st)"
    by (rule sched_ok_offqueue [OF so cl]) (use cp(2) in \<open>simp_all add: np_entry_def\<close>)
  moreover have "table_ok (upd cp (np_entry x m) st)"
    by (rule table_ok_new [OF t cp(1)]) (use cp(2) m in \<open>simp_all add: np_entry_def\<close>)
  ultimately show ?thesis by (simp add: proc_ok_def)
qed

lemma np_begin_ok:
  assumes ok: "proc_ok st" and run: "\<not> parked st" and few: "int (length (procs st)) < MAXPID - 1"
  shows "\<exists>r st'. np_begin i maxup st = Some (r, st') \<and> proc_ok st' \<and> u_procp st' = u_procp st \<and> parked st' = parked st
    \<and> length (procs st') = length (procs st) \<and> (i \<longrightarrow> r \<noteq> Inl NpPanic) \<and> r \<noteq> Inl NpChild \<and> (\<forall>c. r = Inr c \<longrightarrow> begun st c st')"
proof -
  have t: "table_ok st" using ok by (simp add: proc_ok_def)
  obtain f where "\<not> taken st f \<and> 1 \<le> f \<and> f < MAXPID"
    using free_number [of st] few table_okD(4) [OF t] by fastforce
  then obtain m cp0 a pend0 where m: "np_pid st (mpid st) = Some (m, cp0, a, pend0)"
    and sc: "scan_all st m = Some (cp0, a, pend0)" and mb: "m < MAXPID" "0 \<le> mpid st \<longrightarrow> 1 \<le> m"
    using np_pid_ends [of st f "mpid st"] by (auto simp: np_found_def)
  define st0 where "st0 = st\<lparr>mpid := m\<rparr>"
  have ok0: "proc_ok st0" unfolding st0_def by (rule proc_ok_mpid [OF ok])
  note NP = np_begin_def [of i maxup st, unfolded m Option.bind.simps prod.case Let_def, folded st0_def]
  show ?thesis
  proof (cases "cp0 = None \<and> ve_proc st0 \<ge> length (procs st0)")
    case True
    then have "np_begin i maxup st = Some (Inl (if i then NpFail EAGAIN else NpPanic), st0)" unfolding NP by simp
    then show ?thesis using ok0 by (simp add: st0_def)
  next
    case nf: False
    define cp where "cp = (case cp0 of None \<Rightarrow> ve_proc st | Some c \<Rightarrow> c)"
    define v where "v = (if cp > pend0 then cp else pend0) + 1"
    define st1 where "st1 = st0\<lparr>ve_proc := v\<rparr>"
    have "\<not> (cp0 = None \<and> ve_proc st \<ge> length (procs st))" using nf by (simp add: st0_def)
    note en = newproc_entry [OF ok run sc this, folded cp_def, folded v_def]
    have ok1: "proc_ok st1"
      using ok0 en table_ok_ve [of st0 v] unfolding st1_def proc_ok_def by (simp add: sched_ok_fields st0_def)
    have e1: "procs st1 = procs st" "users st1 = users st" "u_procp st1 = u_procp st" "parked st1 = parked st"
      "uarea st1 = uarea st" "ve_proc st1 = v" "curp st1 = curp st" by (simp_all add: st1_def st0_def uarea_def curp_def)
    have "(case cp0 of None \<Rightarrow> ve_proc st0 | Some c \<Rightarrow> c) = cp" by (simp add: cp_def st0_def split: option.split)
    then have np: "np_begin i maxup st = Some
        (if u_uid (uarea st1) \<noteq> 0 \<and> u_ruid (uarea st1) \<noteq> 0 \<and> (cp = length (procs st1) - 1 \<or> a > maxup)
         then (Inl (NpFail EAGAIN), st1) else (Inr cp, upd cp (np_entry (curp st1) m) st1))"
      unfolding NP if_not_P [OF nf] by (simp add: st1_def v_def)
    have "p_pid (pr st1 q) \<noteq> m" if "q < length (procs st1)" "used st1 q" for q
      using en(7) that table_okD(5) [OF t, of q] e1 by (metis not_le)
    then have "proc_ok (upd cp (np_entry (curp st1) m) st1)" using en e1 by (intro np_entry_ok [OF ok1]) simp_all
    moreover have "cp \<noteq> 0" using en(2) table_okD(8) [OF t] by metis
    then have "begun st cp (upd cp (np_entry (curp st1) m) st1)"
      using en mb e1 by (simp add: begun_def pr_upd np_entry_def)
    ultimately show ?thesis unfolding np using ok1 e1 by auto
  qed
qed

text \<open>The second part frees the entry again, or puts the child on the run queue.\<close>

lemma np_free_ok:
  assumes ok: "proc_ok st" and cp: "cp < length (procs st)" "cp \<noteq> 0" "p_stat (pr st cp) = SIDL"
  shows "proc_ok (upd cp (\<lambda>x. x\<lparr>p_stat := PFREE, p_ppid := 0\<rparr>) st)"
proof -
  let ?s = "upd cp (\<lambda>x. x\<lparr>p_stat := PFREE, p_ppid := 0\<rparr>) st"
  have t: "table_ok st" using ok by (simp add: proc_ok_def)
  have "sched_ok ?s" by (rule sched_ok_offqueue) (use ok cp in \<open>simp_all add: proc_ok_def\<close>)
  moreover have "table_ok ?s"
  proof (rule table_ok_frame [OF t])
    show "length (u_signal x) = NSIG" if "x \<in> set (users ?s)" for x using that table_okD(2) [OF t] by simp
    show "\<not> bit (p_sig (pr ?s x)) 31" if "x < length (procs st)" "p_stat (pr ?s x) \<noteq> SZOMB" for x
      using that table_okD(6) [OF t, of x] cp by (auto simp: pr_upd split: if_splits)
  qed (use cp table_okD(8,9) [OF t] in \<open>auto simp: pr_upd split: if_splits\<close>)
  ultimately show ?thesis by (simp add: proc_ok_def)
qed

lemma np_run_ok:
  fixes st :: sched
  assumes ok: "proc_ok st" and run: "\<not> parked st" and cp: "cp < length (procs st)" "cp \<noteq> 0" "p_stat (pr st cp) = SIDL"
  defines "f \<equiv> \<lambda>x. x\<lparr>p_flag := p_flag x AND NOT SLOCK, p_stat := SRUN\<rparr>"
  defines "st1 \<equiv> st\<lparr>users := (users st)[cp := uarea st]\<rparr>"
  shows "upd (u_procp st) (p_stat_update (\<lambda>_. SRUN)) st1 = st1"
    "\<exists>st2. setrq cp (upd cp f st1) = Some st2 \<and> proc_ok st2 \<and> like st st2 \<and> cp \<in> set (queue_of st2 Runq)
       \<and> bare st2 = upd cp f (bare st1)"
proof -
  have t: "table_ok st" and so: "sched_ok st" using ok by (simp_all add: proc_ok_def)
  have ok1: "proc_ok st1"
    unfolding st1_def proc_ok_def using so t u_procp_less [OF so] table_ok_users [OF t, of cp] by (simp add: sched_ok_fields)
  have cur: "p_stat (pr st (u_procp st)) = SRUN"
    using sched_invD(5) [of st "queue_of st"] so run by (simp add: sched_ok_def)
  then show "upd (u_procp st) (p_stat_update (\<lambda>_. SRUN)) st1 = st1" by (intro upd_id) (simp add: st1_def)
  have ne: "cp \<noteq> u_procp st" using cur cp(3) by auto
  have "\<exists>st2. setrq cp (upd cp f st1) = Some st2 \<and> sched_ok st2 \<and> bare st2 = upd cp f (bare st1)
      \<and> queue_of st2 Runq = cp # queue_of st1 Runq"
    by (rule setrq_new) (use ok1 cp ne in \<open>simp_all add: st1_def f_def proc_ok_def\<close>)
  then obtain st2 where 2: "setrq cp (upd cp f st1) = Some st2" "sched_ok st2" "bare st2 = upd cp f (bare st1)"
    "queue_of st2 Runq = cp # queue_of st1 Runq" by blast
  have t1: "table_ok (bare st1)" using ok1 by (simp add: proc_ok_def table_bare)
  have c1: "p_stat (pr (bare st1) cp) = SIDL" "cp < length (procs (bare st1))" using cp by (simp_all add: st1_def bare_stat)
  have "table_ok (upd cp f (bare st1))"
  proof (rule table_ok_frame [OF t1])
    show "length (u_signal x) = NSIG" if "x \<in> set (users (upd cp f (bare st1)))" for x using that table_okD(2) [OF t1] by simp
    show "\<not> bit (p_sig (pr (upd cp f (bare st1)) x)) 31"
      if "x < length (procs (bare st1))" "p_stat (pr (upd cp f (bare st1)) x) \<noteq> SZOMB" for x
      using that table_okD(6) [OF t1, of x] c1 by (auto simp: f_def pr_upd split: if_splits)
    show "p_stat (pr (upd cp f (bare st1)) 0) \<notin> {PFREE, SZOMB}"
      using table_okD(8,9) [OF t1] c1 cp(2) by (simp add: pr_upd f_def)
    show "used (bare st1) x \<and> p_pid (pr (upd cp f (bare st1)) x) = p_pid (pr (bare st1) x)"
      if "x < length (procs (bare st1))" "used (upd cp f (bare st1)) x" for x
      using that c1 by (auto simp: pr_upd f_def split: if_splits)
  qed simp_all
  then have "table_ok st2" using 2(3) table_bare [of st2] by simp
  moreover have "like st st2"
    using arg_cong [OF 2(3), of "\<lambda>s. length (procs s)"] arg_cong [OF 2(3), of ve_proc] arg_cong [OF 2(3), of u_procp]
      arg_cong [OF 2(3), of parked] arg_cong [OF 2(3), of "\<lambda>s. length (users s)"]
    by (simp add: like_def st1_def)
  ultimately show "\<exists>st2. setrq cp (upd cp f st1) = Some st2 \<and> proc_ok st2 \<and> like st st2 \<and> cp \<in> set (queue_of st2 Runq)
       \<and> bare st2 = upd cp f (bare st1)"
    using 2 by (auto simp: proc_ok_def)
qed

text \<open>What the second part has made of the entry \<open>c\<close>.\<close>

definition ended :: "sched \<Rightarrow> nat \<Rightarrow> sched \<Rightarrow> bool" where
  "ended st c st' \<longleftrightarrow> c \<in> set (queue_of st' Runq) \<and> p_stat (pr st' c) = SRUN \<and> p_ppid (pr st' c) = p_ppid (pr st c)
     \<and> p_pid (pr st' c) = p_pid (pr st c) \<and> p_sig (pr st' c) = p_sig (pr st c)
     \<and> u_rval1 (uarea st') = p_pid (pr st' c) \<and> u_signal (users st' ! c) = u_signal (uarea st)
     \<and> (\<forall>q<length (procs st). q \<noteq> c \<longrightarrow> p_pid (pr st' q) = p_pid (pr st q) \<and> p_stat (pr st' q) = p_stat (pr st q))"

lemma np_end_ok:
  assumes ok: "proc_ok st" and run: "\<not> parked st" and cp: "cp < length (procs st)" "cp \<noteq> 0" "p_stat (pr st cp) = SIDL"
  shows "\<exists>res st'. np_end i dup cp st = Some (res, st') \<and> proc_ok st' \<and> u_procp st' = u_procp st \<and> parked st' = parked st
    \<and> length (procs st') = length (procs st) \<and> (res = NpChild \<longrightarrow> ended st cp st') \<and> (i \<longrightarrow> res \<noteq> NpPanic)"
proof (cases dup)
  case False
  then show ?thesis using np_free_ok [OF ok cp] ok by (simp add: np_end_def)
next
  case True
  let ?f = "\<lambda>x. x\<lparr>p_flag := p_flag x AND NOT SLOCK, p_stat := SRUN\<rparr>" and ?st1 = "st\<lparr>users := (users st)[cp := uarea st]\<rparr>"
  note R = np_run_ok [OF ok run cp]
  obtain st2 where 2: "setrq cp (upd cp ?f ?st1) = Some st2" "proc_ok st2" "like st st2" "cp \<in> set (queue_of st2 Runq)"
    and b: "bare st2 = upd cp ?f (bare ?st1)" using R(2) by blast
  define st' where "st' = (u_upd (u_rval1_update (\<lambda>_. p_pid (pr st2 cp))) st2)\<lparr>runrun := 1\<rparr>"
  have np: "np_end i dup cp st = Some (NpChild, st')"
    using True 2(1) by (simp add: np_end_def Let_def R(1) st'_def)
  have ok': "proc_ok st'" unfolding st'_def using sched_ok_curpri proc_ok_u_upd [OF 2(2)] by simp
  have t: "table_ok st" and up: "u_procp st < length (procs st)" using ok u_procp_less by (simp_all add: proc_ok_def)
  have ul: "u_procp st < length (users st)" "cp < length (users st)" using up cp(1) table_okD(1) [OF t] by simp_all
  have n: "length (procs st2) = length (procs st)" "u_procp st2 = u_procp st" using 2(3) by (simp_all add: like_def)
  have us: "users st2 = (users st)[cp := uarea st]" using arg_cong [OF b, of users] by simp
  have "p_stat (pr st (u_procp st)) = SRUN" using sched_invD(5) [of st "queue_of st"] ok run by (simp add: proc_ok_def sched_ok_def)
  then have ne: "cp \<noteq> u_procp st" using cp(3) by auto
  have "ended st cp st'"
    unfolding ended_def
  proof (intro conjI allI impI)
    have pr': "pr st' q = pr st2 q" for q by (simp add: st'_def)
    have c: "pr (bare st2) cp = ?f (pr (bare st) cp)" and o: "q \<noteq> cp \<Longrightarrow> q < length (procs st) \<Longrightarrow> pr (bare st2) q = pr (bare st) q" for q
      unfolding b using cp(1) by (simp_all add: pr_upd bare_proc)
    show "cp \<in> set (queue_of st' Runq)" using 2(4) by (simp add: st'_def queue_of_def deref_def)
    show "p_stat (pr st' cp) = SRUN" "p_ppid (pr st' cp) = p_ppid (pr st cp)" "p_pid (pr st' cp) = p_pid (pr st cp)"
      "p_sig (pr st' cp) = p_sig (pr st cp)"
      using arg_cong [OF c, of p_pid] arg_cong [OF c, of p_stat] arg_cong [OF c, of p_ppid] arg_cong [OF c, of p_sig] cp(1) n
      by (simp_all add: bare_stat pr')
    show "p_pid (pr st' q) = p_pid (pr st q)" "p_stat (pr st' q) = p_stat (pr st q)" if "q < length (procs st)" "q \<noteq> cp" for q
      using arg_cong [OF o [OF that(2,1)], of p_pid] arg_cong [OF o [OF that(2,1)], of p_stat] that n by (simp_all add: bare_stat pr')
    have u': "users st' = ((users st)[cp := uarea st])[u_procp st := u_rval1_update (\<lambda>_. p_pid (pr st2 cp)) (uarea st)]"
      using us n ne by (simp add: st'_def u_upd_def uarea_def)
    show "u_rval1 (uarea st') = p_pid (pr st' cp)" using u' ul n by (simp add: uarea_def pr' st'_def)
    show "u_signal (users st' ! cp) = u_signal (uarea st)" using u' ul ne by simp
  qed
  then show ?thesis using np ok' 2(3) by (simp add: st'_def like_def)
qed

lemma newproc_ok:
  assumes ok: "proc_ok st" and run: "\<not> parked st" and few: "int (length (procs st)) < MAXPID - 1"
  shows "\<exists>res st'. newproc i maxup dup st = Some (res, st') \<and> proc_ok st' \<and> u_procp st' = u_procp st
      \<and> parked st' = parked st \<and> length (procs st') = length (procs st)
    \<and> (res = NpChild \<longrightarrow> np_post st st') \<and> (i \<longrightarrow> res \<noteq> NpPanic)"
proof -
  obtain r st1 where b: "np_begin i maxup st = Some (r, st1)" "proc_ok st1" "u_procp st1 = u_procp st" "parked st1 = parked st"
    "length (procs st1) = length (procs st)" "i \<longrightarrow> r \<noteq> Inl NpPanic" "r \<noteq> Inl NpChild" "\<forall>c. r = Inr c \<longrightarrow> begun st c st1"
    using np_begin_ok [OF ok run few] by blast
  show ?thesis
  proof (cases r)
    case (Inl e)
    then show ?thesis using b by (auto simp: newproc_def)
  next
    case (Inr c)
    then have g: "begun st c st1" using b(8) by simp
    then obtain res st' where e: "np_end i dup c st1 = Some (res, st')" "proc_ok st'" "u_procp st' = u_procp st1" "parked st' = parked st1"
      "length (procs st') = length (procs st1)" "res = NpChild \<longrightarrow> ended st1 c st'" "i \<longrightarrow> res \<noteq> NpPanic"
      using np_end_ok [OF b(2), of c i dup] run b(4,5) unfolding begun_def by metis
    have "uarea st1 = uarea st" using g b(3) by (simp add: begun_def uarea_def)
    then have "np_post st st'" if "res = NpChild"
      using g e(6) that b(5) unfolding begun_def ended_def np_post_def by (intro exI [of _ c]) auto
    then show ?thesis using b e Inr by (simp add: newproc_def)
  qed
qed

section \<open>The other operations keep the invariant\<close>

lemma table_ok_woken:
  assumes t: "table_ok st" and n: "length (procs st') = length (procs st)" "ve_proc st' = ve_proc st" "users st' = users st"
    and s: "\<And>x. x < length (procs st) \<Longrightarrow> p_stat (pr st' x) = p_stat (pr st x) \<or>
        p_stat (pr st' x) = SRUN \<and> p_stat (pr st x) \<notin> {PFREE, SZOMB}"
    and g: "\<And>x. x < length (procs st) \<Longrightarrow> p_pid (pr st' x) = p_pid (pr st x) \<and> p_sig (pr st' x) = p_sig (pr st x)"
  shows "table_ok st'"
proof (rule table_ok_frame [OF t n(1,2)])
  have z: "0 < length (procs st)" using table_okD(3,4) [OF t] by linarith
  show "p_stat (pr st' 0) \<notin> {PFREE, SZOMB}" using s [OF z] table_okD(8,9) [OF t] by auto
  show "used st x \<and> p_pid (pr st' x) = p_pid (pr st x)" if "x < length (procs st)" "used st' x" for x
    using s [OF that(1)] g [OF that(1)] that(2) by auto
  show "\<not> bit (p_sig (pr st' x)) 31" if "x < length (procs st)" "p_stat (pr st' x) \<noteq> SZOMB" for x
    using s [OF that(1)] g [OF that(1)] that table_okD(6) [OF t that(1)] by auto
qed (use n table_okD(2) [OF t] in auto)

lemma setrun_step:
  assumes s: "proc_ok s \<and> like st s" and p: "p < length (procs st)" "p_stat (pr s p) \<notin> {PFREE, SZOMB}"
  shows "\<exists>s'. setrun p s = Some s' \<and> proc_ok s' \<and> like st s'"
proof -
  have pl: "p < length (procs s)" and t: "table_ok s" using s p by (simp_all add: like_def proc_ok_def)
  obtain s' where s': "setrun p s = Some s'" "sched_ok s'" and b: "bare s' = setrun_eff p (bare s)"
    using setrun_ok [of s p] s pl by (auto simp: proc_ok_def)
  have z: "0 < length (procs s)" by (rule le_less_trans [OF le0 pl])
  have "table_ok (setrun_eff p (bare s))"
  proof (rule table_ok_woken)
    show "table_ok (bare s)" using t by (simp add: table_bare)
    show "p_stat (pr (setrun_eff p (bare s)) x) = p_stat (pr (bare s) x) \<or>
        p_stat (pr (setrun_eff p (bare s)) x) = SRUN \<and> p_stat (pr (bare s) x) \<notin> {PFREE, SZOMB}" for x
      using setrun_eff_stat [of p "bare s" x] pl p(2) table_okD(8,9) [OF t] z by (auto simp: bare_stat)
    show "p_pid (pr (setrun_eff p (bare s)) x) = p_pid (pr (bare s) x) \<and> p_sig (pr (setrun_eff p (bare s)) x) = p_sig (pr (bare s) x)" for x
      by (simp add: stable_setrun)
  qed simp_all
  then have "table_ok s'" using b table_bare [of s'] by simp
  moreover have "like s s'"
    using arg_cong [OF b, of "\<lambda>s. length (procs s)"] arg_cong [OF b, of ve_proc] arg_cong [OF b, of u_procp]
      arg_cong [OF b, of parked] by (simp add: like_def)
  ultimately show ?thesis using s' s like_trans by (auto simp: proc_ok_def)
qed

lemma wakeup_step:
  assumes s: "proc_ok s"
  shows "\<exists>s'. wakeup chan s = Some s' \<and> proc_ok s' \<and> like s s'"
proof -
  have so: "sched_ok s" and t: "table_ok s" using s by (simp_all add: proc_ok_def)
  obtain s' where s': "wakeup chan s = Some s'" "sched_ok s'" and b: "bare s' = wakeup_eff chan s"
    using wakeup_ok [OF so] by blast
  have n: "length (procs s') = length (procs s)" and f: "ve_proc s' = ve_proc s" "users s' = users s"
    "u_procp s' = u_procp s" "parked s' = parked s"
    using arg_cong [OF b, of "\<lambda>s. length (procs s)"] arg_cong [OF b, of ve_proc] arg_cong [OF b, of users]
      arg_cong [OF b, of u_procp] arg_cong [OF b, of parked] by simp_all
  have "table_ok s'"
  proof (rule table_ok_woken [OF t n f(1,2)])
    fix x assume x: "x < length (procs s)"
    have "p_stat (pr s' x) = p_stat (pr (wakeup_eff chan s) x)"
      using arg_cong [OF b, of "\<lambda>s. p_stat (pr s x)"] x n by (simp add: bare_stat)
    then show "p_stat (pr s' x) = p_stat (pr s x) \<or> p_stat (pr s' x) = SRUN \<and> p_stat (pr s x) \<notin> {PFREE, SZOMB}"
      using wakeup_stat [OF so x, of chan] sleepers_iff [OF so, of x chan] table_okD(8,9) [OF t]
      by (auto split: if_splits)
    show "p_pid (pr s' x) = p_pid (pr s x) \<and> p_sig (pr s' x) = p_sig (pr s x)"
      using arg_cong [OF b, of "\<lambda>s. p_pid (pr s x)"] arg_cong [OF b, of "\<lambda>s. p_sig (pr s x)"] x n
      by (simp add: bare_stat stable_wakeup)
  qed
  then show ?thesis using s' n f by (simp add: proc_ok_def like_def)
qed

text \<open>The running process leaves the processor with a status that names no queue.\<close>

lemma leave_ok:
  assumes ok: "proc_ok st" and run: "\<not> parked st"
    and f: "p_stat (f (curp st)) \<notin> {SRUN, SSLEEP, PFREE}" "\<And>x. p_link (f x) = p_link x" "\<And>x. p_pid (f x) = p_pid x"
      "p_stat (f (curp st)) = SZOMB \<and> u_procp st \<noteq> 0 \<or> p_stat (f (curp st)) \<noteq> SZOMB \<and> (\<forall>x. p_sig (f x) = p_sig x)"
  shows "proc_ok ((upd (u_procp st) f st)\<lparr>parked := True\<rparr>)"
proof -
  have so: "sched_ok st" and t: "table_ok st" using ok by (simp_all add: proc_ok_def)
  let ?p = "u_procp st"
  have i: "sched_inv st (queue_of st)" using so by (simp add: sched_ok_def)
  have p: "?p < length (procs st)" by (rule u_procp_less [OF so])
  have r: "p_stat (pr st ?p) = SRUN" using sched_invD(5) [OF i] run by simp
  let ?s = "(upd ?p f st)\<lparr>parked := True\<rparr>"
  have stt: "p_stat (pr st x) = SRUN \<and> x \<noteq> ?p \<longleftrightarrow> p_stat (pr ?s x) = SRUN"
    "p_stat (pr ?s x) = SSLEEP \<longleftrightarrow> p_stat (pr st x) = SSLEEP" for x
    using p r f(1) by (auto simp: pr_upd curp_def)
  have wc: "p_wchan (pr ?s x) = p_wchan (pr st x)" if "p_stat (pr st x) = SSLEEP" for x
    using that r by (cases "x = ?p") auto
  have "sched_inv ?s (queue_of st)"
    unfolding sched_inv_def
  proof (intro conjI allI impI)
    show "queues ?s (queue_of st)"
      by (rule queues_cong [OF sched_invD(1) [OF i]]) (simp_all add: links_upd_same f(2))
    show "set (queue_of st Runq) = {q. q < length (procs ?s) \<and> p_stat (pr ?s q) = SRUN \<and> (q = u_procp ?s \<longrightarrow> parked ?s)}"
    proof -
      have "q \<in> set (queue_of st Runq) \<longleftrightarrow> q < length (procs st) \<and> p_stat (pr ?s q) = SRUN" for q
        using sched_invD(2) [OF i, of q] stt(1) [of q] run by blast
      then show ?thesis unfolding set_eq_iff mem_Collect_eq by simp
    qed
    show "set (queue_of st (Hsque h)) = {q. q < length (procs ?s) \<and> p_stat (pr ?s q) = SSLEEP \<and> sqhash (p_wchan (pr ?s q)) = h}"
      if "h < NHSQUE" for h
      unfolding set_eq_iff mem_Collect_eq sched_invD(3) [OF i that] stt(2) using wc by auto
  qed (use p in simp_all)
  then have "sched_ok ?s" by (rule sched_inv_ok)
  moreover have "table_ok (upd ?p f st)"
  proof (rule table_ok_frame [OF t])
    show "length (u_signal x) = NSIG" if "x \<in> set (users (upd ?p f st))" for x
      using that table_okD(2) [OF t] by simp
    show "\<not> bit (p_sig (pr (upd ?p f st) x)) 31" if "x < length (procs st)" "p_stat (pr (upd ?p f st) x) \<noteq> SZOMB" for x
      using that table_okD(6) [OF t, of x] p f(4) r by (auto simp: pr_upd curp_def split: if_splits)
    show "p_stat (pr (upd ?p f st) 0) \<notin> {PFREE, SZOMB}"
      using table_okD(8,9) [OF t] p f(1,4) by (auto simp: pr_upd curp_def)
    show "used st x \<and> p_pid (pr (upd ?p f st) x) = p_pid (pr st x)" if "x < length (procs st)" "used (upd ?p f st) x" for x
      using that p r f(3) by (auto simp: pr_upd split: if_splits)
  qed simp_all
  ultimately show ?thesis by (simp add: proc_ok_def table_ok_fields)
qed

lemma exit_begin_ok:
  assumes ok: "proc_ok st"
  shows "\<exists>tty' st'. exit_begin tty st = Some (tty', st') \<and> proc_ok st' \<and> like st st'"
proof -
  let ?p = "u_procp st"
  define st2 where "st2 = u_upd (u_signal_update (\<lambda>s. replicate NSIG 1))
      (upd ?p (\<lambda>x. x\<lparr>p_flag := p_flag x AND NOT STRC, p_clktim := 0\<rparr>) st)"
  have 2: "proc_ok st2" "like st st2"
    unfolding st2_def by (intro proc_ok_u_upd proc_ok_upd ok) (simp_all add: like_def)
  obtain s3 where s3: "signal (p_pgrp (pr st2 ?p)) 1 st2 = Some s3" "proc_ok s3" "like st2 s3"
    using signal_ok [OF 2(1)] by blast
  have f: "proc_ok (upd ?p (p_pgrp_update (\<lambda>_. 0)) s) \<and> like st (upd ?p (p_pgrp_update (\<lambda>_. 0)) s)"
    if "proc_ok s" "like st s" for s
    using that by (auto intro!: proc_ok_upd simp: like_def)
  show ?thesis
    using f [OF 2] f [OF s3(2) like_trans [OF 2(2) s3(3)]] s3(1)
    by (auto simp: exit_begin_def Let_def st2_def [symmetric])
qed

lemma exit_child_ok:
  assumes s: "proc_ok s \<and> like st s" and q: "q < length (procs st)" and two: "1 < length (procs st)"
  shows "\<exists>s'. exit_child p q s = Some s' \<and> proc_ok s' \<and> like st s'"
proof -
  define s1 where "s1 = upd q (p_ppid_update (\<lambda>_. 1)) s"
  have 1: "proc_ok s1 \<and> like st s1" unfolding s1_def using s by (auto intro!: proc_ok_upd simp: like_def)
  obtain s2 where s2: "(if p_stat (pr s1 q) = SZOMB then psignal 1 (int SIGCLD) s1 else Some s1) = Some s2"
    "proc_ok s2 \<and> like st s2"
    using psignal_step [OF 1 two, of "int SIGCLD"] 1 by (cases "p_stat (pr s1 q) = SZOMB") (auto simp del: One_nat_def)
  obtain s3 where s3: "(if p_stat (pr s2 q) = SSTOP then setrun q s2 else Some s2) = Some s3" "proc_ok s3 \<and> like st s3"
    using setrun_step [OF s2(2) q] s2(2) by (cases "p_stat (pr s2 q) = SSTOP") auto
  obtain s4 where s4: "psignal q (int SIGCLD) s = Some s4" "proc_ok s4 \<and> like st s4"
    using psignal_step [OF s q] by blast
  define r where "r = (if p_pid (pr s p) = p_ppid (pr s q) then s3 else if p_ppid (pr s p) = p_pid (pr s q) then s4 else s)"
  have r: "proc_ok r \<and> like st r" using s s3 s4 by (simp add: r_def)
  have "exit_child p q s = Some (if p_pid (pr r p) = p_pgrp (pr r q) then upd q (p_pgrp_update (\<lambda>_. 0)) r else r)"
    unfolding exit_child_def Let_def s1_def [symmetric] s2(1) Option.bind.simps s3(1) s4(1)
    by (simp add: r_def)
  moreover have "proc_ok (upd q (p_pgrp_update (\<lambda>_. 0)) r) \<and> like st (upd q (p_pgrp_update (\<lambda>_. 0)) r)"
    using r by (auto intro!: proc_ok_upd simp: like_def)
  ultimately show ?thesis using r by auto
qed

lemma exit_end_ok:
  assumes ok: "proc_ok st" and run: "\<not> parked st" and nz: "u_procp st \<noteq> 0"
  shows "\<exists>st'. exit_end rv st = Some st' \<and> proc_ok st' \<and> like (st\<lparr>parked := True\<rparr>) st'"
proof -
  let ?p = "u_procp st"
  let ?f = "\<lambda>x. (set_xstat rv (x\<lparr>p_stat := SZOMB\<rparr>))\<lparr>xp_utime := u_cutime (uarea st) + u_utime (uarea st),
                  xp_stime := u_cstime (uarea st) + u_stime (uarea st)\<rparr>"
  define st1 where "st1 = (upd ?p ?f st)\<lparr>parked := True\<rparr>"
  have 1: "proc_ok st1" unfolding st1_def by (rule leave_ok [OF ok run]) (simp_all add: set_xstat_def nz)
  have e: "upd ?p ?f (st\<lparr>parked := True\<rparr>) = st1" by (simp add: st1_def upd_def)
  have l: "like (st\<lparr>parked := True\<rparr>) st1" by (simp add: st1_def like_def)
  have so: "sched_ok st" and t: "table_ok st" using ok by (simp_all add: proc_ok_def)
  have "?p < length (procs st)" by (rule u_procp_less [OF so])
  then have two: "1 < length (procs st1)" using nz by (simp add: st1_def)
  have ve: "ve_proc st1 \<le> length (procs st1)" using 1 table_okD(4) by (simp add: proc_ok_def)
  have "\<exists>st'. each (exit_child ?p) [1..<ve_proc st1] st1 = Some st' \<and> (proc_ok st' \<and> like st1 st')"
  proof (rule each_ok)
    show "\<exists>s'. exit_child ?p q s = Some s' \<and> proc_ok s' \<and> like st1 s'"
      if "proc_ok s \<and> like st1 s" "q \<in> set [1..<ve_proc st1]" for q s
      by (rule exit_child_ok [OF that(1) _ two]) (use that(2) ve in simp)
  qed (use 1 in simp)
  then show ?thesis
    unfolding exit_end_def Let_def e using like_trans [OF l] by (auto simp: st1_def)
qed

lemma wait_scan_ok:
  assumes "set ps \<subseteq> {1..<ve_proc st}" "proc_ok st"
  shows "proc_ok (snd (wait_scan ps f st)) \<and> like st (snd (wait_scan ps f st))"
  using assms
proof (induction ps arbitrary: f)
  case (Cons p ps)
  have IH: "proc_ok (snd (wait_scan ps f' st)) \<and> like st (snd (wait_scan ps f' st))" for f'
    by (rule Cons.IH) (use Cons.prems in auto)
  have p: "p < length (procs st)" "p \<noteq> 0" using Cons.prems table_okD(4) [of st] by (auto simp: proc_ok_def)
  have f: "proc_ok (freeproc p True st) \<and> like st (freeproc p True st)" if "p_stat (pr st p) = SZOMB"
    by (rule freeproc_ok [OF Cons.prems(2) p that])
  have w: "proc_ok (u_upd (u_rval1_update (\<lambda>_. p_pid (pr st p))) (upd p (p_flag_update (\<lambda>f. f OR SWTED)) st))
      \<and> like st (u_upd (u_rval1_update (\<lambda>_. p_pid (pr st p))) (upd p (p_flag_update (\<lambda>f. f OR SWTED)) st))"
    using Cons.prems(2) by (auto intro!: proc_ok_u_upd proc_ok_upd simp: like_def)
  show ?case using IH f w by (simp add: Let_def)
qed simp

lemma wait_ok: "proc_ok st \<Longrightarrow> proc_ok (snd (wait st)) \<and> like st (snd (wait st))"
  unfolding wait_def by (rule wait_scan_ok) simp_all

lemma stop_ok:
  assumes ok: "proc_ok st" and run: "\<not> parked st"
  shows "\<exists>r st'. stop chan st = Some (r, st') \<and> proc_ok st' \<and> like st (st'\<lparr>parked := parked st\<rparr>)"
proof (cases "find_parent st")
  case None
  then show ?thesis using ok by (simp add: stop_def like_def)
next
  case (Some pp)
  obtain st1 where w: "wakeup (chan pp) st = Some st1" "proc_ok st1" "like st st1" using wakeup_step [OF ok] by blast
  have "proc_ok ((upd (u_procp st1) (p_stat_update (\<lambda>_. SSTOP)) st1)\<lparr>parked := True\<rparr>)"
    by (rule leave_ok [OF w(2)]) (use w(3) run in \<open>simp_all add: like_def\<close>)
  then show ?thesis using Some w by (simp add: stop_def like_def)
qed

lemma xbrk_ok:
  assumes ok: "proc_ok st" and run: "\<not> parked st"
  shows "\<exists>st'. xbrk chan st = Some st' \<and> proc_ok st' \<and> like (st\<lparr>parked := True\<rparr>) st'"
proof -
  have "proc_ok (st\<lparr>runout := 0\<rparr>)" using ok by (simp add: proc_ok_def sched_ok_fields table_ok_def)
  then obtain st1 where w: "(if runout st \<noteq> 0 then wakeup chan (st\<lparr>runout := 0\<rparr>) else Some st) = Some st1"
    "proc_ok st1" "like st st1"
    using wakeup_step [of "st\<lparr>runout := 0\<rparr>" chan] ok by (cases "runout st = 0") (auto simp: like_def)
  have "proc_ok ((upd (u_procp st1) (p_stat_update (\<lambda>_. SXBRK)) st1)\<lparr>parked := True\<rparr>)"
    by (rule leave_ok [OF w(2)]) (use w(3) run in \<open>simp_all add: like_def\<close>)
  then show ?thesis using w by (simp add: xbrk_def like_def)
qed

lemma ptrace_cont_ok:
  assumes ok: "proc_ok st" and p: "p < length (procs st)" "p_stat (pr st p) = SSTOP"
  shows "\<exists>st'. ptrace_cont p st = Some st' \<and> proc_ok st' \<and> like st st'"
proof -
  have "proc_ok (upd p (p_flag_update (\<lambda>f. f AND NOT SWTED)) st) \<and> like st (upd p (p_flag_update (\<lambda>f. f AND NOT SWTED)) st)"
    using ok by (auto intro!: proc_ok_upd simp: like_def)
  then show ?thesis unfolding ptrace_cont_def by (rule setrun_step) (use p in \<open>simp_all add: pr_upd\<close>)
qed

lemma sched_load_ok:
  assumes ok: "proc_ok st" and p: "p < length (procs st)"
  shows "\<exists>st'. sched_load p st = Some st' \<and> proc_ok st' \<and> like st st'"
proof -
  have so: "sched_ok st" and t: "table_ok st" using ok by (simp_all add: proc_ok_def)
  have "\<exists>s. (if p_stat (pr st p) = SXBRK then setrq p (upd p (p_stat_update (\<lambda>_. SRUN)) st) else Some st) = Some s
      \<and> proc_ok s \<and> like st s"
  proof (cases "p_stat (pr st p) = SXBRK")
    case True
    have "\<exists>s. setrq p (upd p (p_stat_update (\<lambda>_. SRUN)) st) = Some s \<and> sched_ok s
        \<and> bare s = upd p (p_stat_update (\<lambda>_. SRUN)) (bare st) \<and> queue_of s Runq = p # queue_of st Runq"
    proof (rule setrq_new [OF so p])
      show "p = u_procp st \<longrightarrow> parked st"
        using True sched_invD(5) [OF so [unfolded sched_ok_def]] by (cases "parked st") auto
    qed (use True in auto)
    then obtain s where s: "setrq p (upd p (p_stat_update (\<lambda>_. SRUN)) st) = Some s" "sched_ok s"
      and b: "bare s = upd p (p_stat_update (\<lambda>_. SRUN)) (bare st)" by blast
    have n: "length (procs s) = length (procs st)" and f: "ve_proc s = ve_proc st" "users s = users st"
      "u_procp s = u_procp st" "parked s = parked st"
      using arg_cong [OF b, of "\<lambda>s. length (procs s)"] arg_cong [OF b, of ve_proc] arg_cong [OF b, of users]
        arg_cong [OF b, of u_procp] arg_cong [OF b, of parked] by simp_all
    have "table_ok s"
    proof (rule table_ok_woken [OF t n f(1,2)])
      fix x assume x: "x < length (procs st)"
      show "p_stat (pr s x) = p_stat (pr st x) \<or> p_stat (pr s x) = SRUN \<and> p_stat (pr st x) \<notin> {PFREE, SZOMB}"
        using arg_cong [OF b, of "\<lambda>s. p_stat (pr s x)"] x n p True by (auto simp: bare_stat pr_upd split: if_splits)
      show "p_pid (pr s x) = p_pid (pr st x) \<and> p_sig (pr s x) = p_sig (pr st x)"
        using arg_cong [OF b, of "\<lambda>s. p_pid (pr s x)"] arg_cong [OF b, of "\<lambda>s. p_sig (pr s x)"] x n p
        by (simp add: bare_stat pr_upd split: if_splits)
    qed
    then show ?thesis using True s n f by (simp add: proc_ok_def like_def)
  next
    case False
    then show ?thesis using ok by simp
  qed
  then obtain s where s: "(if p_stat (pr st p) = SXBRK then setrq p (upd p (p_stat_update (\<lambda>_. SRUN)) st) else Some st) = Some s"
    "proc_ok s" "like st s" by blast
  have "proc_ok (upd p (\<lambda>x. x\<lparr>p_flag := p_flag x OR SLOAD, p_time := 0\<rparr>) s)
      \<and> like st (upd p (\<lambda>x. x\<lparr>p_flag := p_flag x OR SLOAD, p_time := 0\<rparr>) s)"
    using s(2,3) by (auto intro!: proc_ok_upd simp: like_def)
  then show ?thesis unfolding sched_load_def s(1) by simp
qed

lemma sched_out_ok: "proc_ok st \<Longrightarrow> proc_ok (sched_out p st) \<and> like st (sched_out p st)"
  unfolding sched_out_def by (auto intro!: proc_ok_upd simp: like_def)





section \<open>Steps and reachable states\<close>

text \<open>The table at the start of \<^verbatim>\<open>main\<close>: process 0, the scheduler, runs; \<open>n\<close> other entries are free.\<close>

definition boot :: "nat \<Rightarrow> sched" where
  "boot n = \<lparr>procs = free_entry\<lparr>p_stat := SRUN, p_flag := SLOAD OR SSYS, p_nice := NZERO\<rparr> # replicate n free_entry,
     users = replicate (Suc n) boot_user, ve_proc = 1, runq = None, hsque = replicate NHSQUE None,
     curpri = 0, curproc = 0, runrun = 0, runout = 0, panicstr = False, u_procp = 0, parked = False, mpid = 0\<rparr>"

text \<open>
  What can happen next: calls of the running process, the choice of the next process while none
  runs, interrupts at any time, the scheduler's moves, and whatever the rest of the kernel (\<^verbatim>\<open>nice\<close>, \<^verbatim>\<open>setuid\<close>, \<^verbatim>\<open>exec\<close>, the
  return to user mode) writes into the other fields of an entry, the u area and the variables.
\<close>

inductive pstep :: "sched \<Rightarrow> sched \<Rightarrow> bool" where
  do_sleep: "\<lbrakk>\<not> parked s; sleep chan disp s = Some (r, t)\<rbrakk> \<Longrightarrow> pstep s t"
| do_return: "\<lbrakk>\<not> parked s; sleep_return disp s = Some (r, t)\<rbrakk> \<Longrightarrow> pstep s t"
| do_yield: "\<lbrakk>\<not> parked s; qswtch s = Some t\<rbrakk> \<Longrightarrow> pstep s t"
| do_swtch: "\<lbrakk>parked s; swtch s = Some t\<rbrakk> \<Longrightarrow> pstep s t"
| do_wakeup: "wakeup chan s = Some t \<Longrightarrow> pstep s t"
| do_psignal: "\<lbrakk>p < length (procs s); psignal p sig s = Some t\<rbrakk> \<Longrightarrow> pstep s t"
| do_signal: "signal pgrp sig s = Some t \<Longrightarrow> pstep s t"
| do_clock: "clock_second s = Some t \<Longrightarrow> pstep s t"
| do_kill: "\<lbrakk>\<not> parked s; kill pid signo s = Some (e, t)\<rbrakk> \<Longrightarrow> pstep s t"
| do_ssig: "\<lbrakk>\<not> parked s; ssig signo func s = Some (e, t)\<rbrakk> \<Longrightarrow> pstep s t"
| do_alarm: "\<not> parked s \<Longrightarrow> pstep s (alarm deltat s)"
| do_issig: "\<lbrakk>\<not> parked s; issig s = Some (n, t)\<rbrakk> \<Longrightarrow> pstep s t"
| do_psig: "\<lbrakk>\<not> parked s; psig s = (act, t)\<rbrakk> \<Longrightarrow> pstep s t"
| do_fork: "\<lbrakk>\<not> parked s; np_begin i maxup s = Some (r, t); r \<noteq> Inl NpPanic\<rbrakk> \<Longrightarrow> pstep s t"
| do_dup: "\<lbrakk>\<not> parked s; cp < length (procs s); cp \<noteq> 0; p_stat (pr s cp) = SIDL; np_end i dup cp s = Some (res, t); res \<noteq> NpPanic\<rbrakk>
    \<Longrightarrow> pstep s t"
| do_exit_begin: "\<lbrakk>\<not> parked s; exit_begin tty s = Some (tty', t)\<rbrakk> \<Longrightarrow> pstep s t"
| do_exit_end: "\<lbrakk>\<not> parked s; u_procp s \<noteq> 0; exit_end rv s = Some t\<rbrakk> \<Longrightarrow> pstep s t"
| do_wait: "\<lbrakk>\<not> parked s; wait s = (w, t)\<rbrakk> \<Longrightarrow> pstep s t"
| do_stop: "\<lbrakk>\<not> parked s; stop chanof s = Some (pp, t)\<rbrakk> \<Longrightarrow> pstep s t"
| do_cont: "\<lbrakk>p < length (procs s); p_stat (pr s p) = SSTOP; ptrace_cont p s = Some t\<rbrakk> \<Longrightarrow> pstep s t"
| do_xbrk: "\<lbrakk>\<not> parked s; xbrk chan s = Some t\<rbrakk> \<Longrightarrow> pstep s t"
| do_load: "\<lbrakk>p < length (procs s); wants_in (pr s p); sched_load p s = Some t\<rbrakk> \<Longrightarrow> pstep s t"
| do_out: "p < length (procs s) \<Longrightarrow> pstep s (sched_out p s)"
| do_attr: "pstep s (upd p (\<lambda>x. x\<lparr>p_flag := fl, p_pri := pri, p_inter := i, p_time := tm, p_cpu := c, p_nice := ni,
    p_uid := a, p_suid := b, p_pgrp := g\<rparr>) s)"
| do_uarea: "pstep s (u_upd (\<lambda>x. x\<lparr>u_signal := map f (u_signal x), u_error := e, u_uid := a, u_ruid := b, u_rval1 := v,
    u_utime := ut, u_stime := sti\<rparr>) s)"
| do_vars: "pstep s (s\<lparr>curpri := pri, runrun := rr, runout := ro, panicstr := pan\<rparr>)"

inductive preach :: "nat \<Rightarrow> sched \<Rightarrow> bool" for n where
  start: "preach n (boot n)"
| step: "\<lbrakk>preach n s; pstep s t\<rbrakk> \<Longrightarrow> preach n t"

lemma boot_ok: "proc_ok (boot n)"
proof -
  have nth: "pr (boot n) p = (if p = 0 then free_entry\<lparr>p_stat := SRUN, p_flag := SLOAD OR SSYS, p_nice := NZERO\<rparr> else free_entry)"
    if "p < Suc n" for p
    using that by (cases p) (simp_all add: boot_def)
  have "queues (boot n) (\<lambda>_. [])"
  proof (rule queuesI)
    show "chain (links (boot n)) (deref (boot n) k) []" if "k \<in> heads" for k
      using that by (cases k) (simp_all add: deref_def boot_def)
  qed (simp_all add: boot_def)
  moreover have l: "length (procs (boot n)) = Suc n" by (simp add: boot_def)
  ultimately have "sched_inv (boot n) (\<lambda>_. [])"
    unfolding sched_inv_def l by (auto simp: nth free_entry_def split: if_splits) (simp_all add: boot_def)
  moreover have "table_ok (boot n)"
  proof -
    have st: "p_stat (pr (boot n) p) = (if p = 0 then SRUN else PFREE)" "p_sig (pr (boot n) p) = 0" if "p < Suc n" for p
      using nth [OF that] by (simp_all add: free_entry_def)
    have us: "length (users (boot n)) = Suc n" "\<forall>us\<in>set (users (boot n)). length (u_signal us) = NSIG" "ve_proc (boot n) = 1"
      by (auto simp: boot_def boot_user_def)
    show ?thesis unfolding table_ok_def l us(1) using us(2,3) by (auto simp: st split: if_splits)
  qed
  ultimately show ?thesis by (simp add: proc_ok_def sched_inv_ok)
qed

lemma swtch_ok:
  assumes ok: "proc_ok st" and park: "parked st"
  shows "\<exists>st'. swtch st = Some st' \<and> proc_ok st' \<and> length (procs st') = length (procs st)"
proof -
  have so: "sched_ok st" and t: "table_ok st" using ok by (simp_all add: proc_ok_def)
  have c: "chain (links st) (runq st) (queue_of st Runq)"
    using queuesD(2) [OF sched_invD(1) [OF so [unfolded sched_ok_def]], of Runq] by (simp add: deref_def)
  obtain st' where s: "swtch st = Some st'" "sched_ok st'" using swtch_runs [OF so park] by blast
  from swtch_picks [OF c] s(1) consider (idle) "st' = st\<lparr>runrun := 0, curpri := PIDLE\<rparr>"
    | (run) a p where "st' = (upd p (p_flag_update (\<lambda>f. f AND NOT SSWAP))
          ((assign (at_cell Runq a) (links st p) (st\<lparr>runrun := 0\<rparr>))\<lparr>curpri := p_pri (pr st p), curproc := p\<rparr>))
            \<lparr>u_procp := p, parked := False\<rparr>"
    by auto
  then show ?thesis
  proof cases
    case idle
    then show ?thesis using s t by (simp add: proc_ok_def table_ok_fields)
  next
    case run
    let ?s = "assign (at_cell Runq a) (links st p) (st\<lparr>runrun := 0\<rparr>)"
    have "table_ok (?s\<lparr>curpri := p_pri (pr st p), curproc := p\<rparr>)"
      using t table_ok_assign [of "at_cell Runq a" "links st p" "st\<lparr>runrun := 0\<rparr>"] by (simp add: table_ok_def)
    from table_ok_upd [OF this, of "p_flag_update (\<lambda>f. f AND NOT SSWAP)" p] have "table_ok st'"
      unfolding run by (simp add: table_ok_fields)
    then show ?thesis using s run by (simp add: proc_ok_def)
  qed
qed

lemma qswtch_proc_ok:
  assumes ok: "proc_ok st" and run: "\<not> parked st"
  shows "\<exists>st'. qswtch st = Some st' \<and> proc_ok st' \<and> length (procs st') = length (procs st)"
proof -
  have so: "sched_ok st" and t: "table_ok st" using ok by (simp_all add: proc_ok_def)
  obtain st' where s: "qswtch st = Some st'" and b: "bare st' = (bare st)\<lparr>parked := True\<rparr>"
    and i: "sched_inv st' ((queue_of st)(Runq := u_procp st # queue_of st Runq))"
    using qswtch_ok [OF so run] by blast
  have "table_ok st'" using t table_bare [of st'] table_bare [of st] unfolding b by (simp add: table_ok_fields)
  then show ?thesis using s sched_inv_ok [OF i] arg_cong [OF b, of "\<lambda>s. length (procs s)"] by (simp add: proc_ok_def)
qed

lemma pstep_ok:
  assumes "pstep s t" "proc_ok s" "int (length (procs s)) < MAXPID - 1"
  shows "proc_ok t \<and> length (procs t) = length (procs s)"
  using assms
proof (induction rule: pstep.induct)
  case (do_sleep s chan disp r t)
  then show ?case using sleep_ok [of s chan disp] by auto
next
  case (do_return s disp r t)
  then show ?case using sleep_return_ok [of s disp] by (auto simp: like_def)
next
  case (do_yield s t)
  then show ?case using qswtch_proc_ok [of s] by auto
next
  case (do_swtch s t)
  then show ?case using swtch_ok [of s] by auto
next
  case (do_wakeup chan s t)
  then show ?case using wakeup_step [of s chan] by (auto simp: like_def)
next
  case (do_psignal p s sig t)
  then show ?case using psignal_step [of s s p sig] by (auto simp: like_def)
next
  case (do_signal pgrp sig s t)
  then show ?case using signal_ok [of s pgrp sig] by (auto simp: like_def)
next
  case (do_clock s t)
  then show ?case using clock_second_ok [of s] by (auto simp: like_def)
next
  case (do_kill s pid signo e t)
  then show ?case using kill_spec [of s pid signo] by (auto simp: like_def)
next
  case (do_ssig s signo func e t)
  then show ?case using ssig_ok [of s signo func] by (auto simp: like_def)
next
  case (do_alarm s deltat)
  then show ?case using alarm_ok [of s deltat] by (simp add: like_def)
next
  case (do_issig s n t)
  have "p_stat (curp s) \<noteq> SZOMB"
    using sched_invD(5) [of s "queue_of s"] do_issig by (simp add: proc_ok_def sched_ok_def curp_def)
  then show ?case using issig_spec [of s] do_issig by (auto simp: issig_post_def like_def)
next
  case (do_psig s act t)
  then show ?case using psig_ok [of s] by (auto simp: like_def)
next
  case (do_fork s i maxup r t)
  then show ?case using np_begin_ok [of s i maxup] by auto
next
  case (do_dup s cp i dup res t)
  then show ?case using np_end_ok [of s cp i dup] by auto
next
  case (do_exit_begin s tty tty' t)
  then show ?case using exit_begin_ok [of s tty] by (auto simp: like_def)
next
  case (do_exit_end s rv t)
  then show ?case using exit_end_ok [of s rv] by (auto simp: like_def)
next
  case (do_wait s w t)
  then show ?case using wait_ok [of s] by (auto simp: like_def)
next
  case (do_stop s chanof pp t)
  then show ?case using stop_ok [of s chanof] by (auto simp: like_def)
next
  case (do_cont p s t)
  then show ?case using ptrace_cont_ok [of s p] by (auto simp: like_def)
next
  case (do_xbrk s chan t)
  then show ?case using xbrk_ok [of s chan] by (auto simp: like_def)
next
  case (do_load p s t)
  then show ?case using sched_load_ok [of s p] by (auto simp: like_def)
next
  case (do_out p s)
  then show ?case using sched_out_ok [of s p] by (simp add: like_def)
next
  case (do_attr s p)
  then show ?case by (simp add: proc_ok_upd)
next
  case (do_uarea s)
  then show ?case by (simp add: proc_ok_u_upd)
next
  case (do_vars s pan ro rr pri)
  have "sched_ok (s\<lparr>curpri := pri, runrun := rr, runout := ro, panicstr := pan\<rparr>)"
    by (rule sched_ok_frame [of s]) (use do_vars in \<open>simp_all add: proc_ok_def links_def fun_eq_iff\<close>)
  then show ?case using do_vars by (simp add: proc_ok_def table_ok_def)
qed

lemma newproc_steps:
  assumes "newproc i maxup dup s = Some (NpChild, t)" "proc_ok s" "\<not> parked s" "int (length (procs s)) < MAXPID - 1"
  shows "\<exists>s1. pstep s s1 \<and> pstep s1 t"
proof -
  obtain r s1 where b: "np_begin i maxup s = Some (r, s1)" "parked s1 = parked s" "length (procs s1) = length (procs s)"
    "r \<noteq> Inl NpChild" "\<forall>c. r = Inr c \<longrightarrow> begun s c s1"
    using np_begin_ok [OF assms(2-4), of i maxup] by blast
  obtain c where c: "r = Inr c" "np_end i dup c s1 = Some (NpChild, t)"
    using assms(1) b(1,4) by (cases r) (auto simp: newproc_def)
  have "pstep s s1" by (rule do_fork [OF assms(3) b(1)]) (simp add: c(1))
  moreover have "pstep s1 t"
    by (rule do_dup [where cp = c]) (use c b assms(3) in \<open>auto simp: begun_def\<close>)
  ultimately show ?thesis by blast
qed

lemma preach_ok:
  assumes "preach n s" "int n < MAXPID - 2"
  shows "proc_ok s \<and> length (procs s) = Suc n"
  using assms
proof (induction rule: preach.induct)
  case start
  then show ?case using boot_ok by (simp add: boot_def)
next
  case (step s t)
  then show ?case using pstep_ok [of s t] by simp
qed

section \<open>wait\<close>

text \<open>A child of the running process, and one that \<^verbatim>\<open>wait\<close> reports.\<close>

definition my_child :: "sched \<Rightarrow> nat \<Rightarrow> bool" where
  "my_child st p \<longleftrightarrow> p_ppid (pr st p) = p_pid (curp st)"

definition reportable :: "sched \<Rightarrow> nat \<Rightarrow> bool" where
  "reportable st p \<longleftrightarrow> my_child st p
     \<and> (p_stat (pr st p) = SZOMB \<or> p_stat (pr st p) = SSTOP \<and> p_flag (pr st p) AND SWTED = 0)"

definition report_of :: "sched \<Rightarrow> nat \<Rightarrow> waited" where
  "report_of st p = (if p_stat (pr st p) = SZOMB then WZombie (p_pid (pr st p)) (get_xstat (pr st p))
     else WStopped (p_pid (pr st p)) (int (fsig (p_sig (pr st p))) * 256 + 127))"

lemma upd_get: "p < length (procs st) \<Longrightarrow> pr (upd p f st) p = f (pr st p)"
  by (simp add: pr_upd)

lemma wait_scan_spec:
  assumes "set ps \<subseteq> {..<length (procs st)}"
  shows "fst (wait_scan ps f st) = (case find (reportable st) ps of
      Some p \<Rightarrow> report_of st p
    | None \<Rightarrow> if f \<noteq> 0 \<or> (\<exists>p\<in>set ps. my_child st p) then WSleep else WErr ECHILD)"
  using assms
proof (induction ps arbitrary: f)
  case (Cons p ps)
  have p: "p < length (procs st)" using Cons.prems by simp
  have e: "p_pid (pr (upd p (p_flag_update h) st) p) = p_pid (pr st p)"
    "p_sig (pr (upd p (p_flag_update h) st) p) = p_sig (pr st p)" for h
    using p by (simp_all add: upd_get)
  have IH: "fst (wait_scan ps f' st) = (case find (reportable st) ps of
      Some p \<Rightarrow> report_of st p
    | None \<Rightarrow> if f' \<noteq> 0 \<or> (\<exists>p\<in>set ps. my_child st p) then WSleep else WErr ECHILD)" for f'
    by (rule Cons.IH) (use Cons.prems in simp)
  show ?case
  proof (cases "reportable st p")
    case True
    then have "fst (wait_scan (p # ps) f st) = report_of st p"
      by (auto simp: reportable_def my_child_def report_of_def Let_def e)
    then show ?thesis using True by simp
  next
    case False
    then have "wait_scan (p # ps) f st = wait_scan ps (if my_child st p then f + 1 else f) st"
      by (auto simp: reportable_def my_child_def)
    then show ?thesis using False by (simp add: IH split: option.split)
  qed
qed simp

lemma wait_spec:
  assumes "proc_ok st"
  shows "fst (wait st) = (case find (reportable st) [1..<ve_proc st] of
      Some p \<Rightarrow> report_of st p
    | None \<Rightarrow> if \<exists>p\<in>{1..<ve_proc st}. my_child st p then WSleep else WErr ECHILD)"
  unfolding wait_def using assms table_okD(4) [of st] by (subst wait_scan_spec) (auto simp: proc_ok_def split: option.split)

section \<open>The exit status\<close>

lemma get_set_xstat: "get_xstat (set_xstat rv x) = to_short rv"
proof -
  have "ucast (drop_bit 16 (push_bit 16 (word_of_int rv) OR (p_sig x AND 0xFFFF))) = (word_of_int rv :: u16)"
    by (rule bit_word_eqI)
       (auto simp: bit_ucast_iff bit_drop_bit_eq bit_or_iff bit_push_bit_iff bit_and_iff bit_word_of_int_iff bit_numeral_iff)
  then show ?thesis by (simp add: get_xstat_def set_xstat_def to_short_def)
qed

text \<open>\<open>zkeep p s s'\<close>: the entry of \<open>p\<close> keeps its status, signals (or exit status) and numbers.\<close>

definition zkeep :: "nat \<Rightarrow> sched \<Rightarrow> sched \<Rightarrow> bool" where
  "zkeep p s s' \<longleftrightarrow> p_stat (pr s' p) = p_stat (pr s p) \<and> p_sig (pr s' p) = p_sig (pr s p)
     \<and> p_pid (pr s' p) = p_pid (pr s p) \<and> p_ppid (pr s' p) = p_ppid (pr s p)"

lemma zkeep_trans: "\<lbrakk>zkeep p a b; zkeep p b c\<rbrakk> \<Longrightarrow> zkeep p a c"
  by (simp add: zkeep_def)

lemma setrun_zkeep:
  assumes ok: "sched_ok s" and r: "r < length (procs s)" and p: "p < length (procs s)" "p \<noteq> r" "p \<noteq> 0"
    and s': "setrun r s = Some s'"
  shows "zkeep p s s'"
proof -
  have b: "bare s' = setrun_eff r (bare s)" using setrun_ok [OF ok r] s' by auto
  have n: "length (procs s') = length (procs s)" using arg_cong [OF b, of "\<lambda>s. length (procs s)"] by simp
  show ?thesis
    using arg_cong [OF b, of "\<lambda>s. p_stat (pr s p)"] arg_cong [OF b, of "\<lambda>s. p_sig (pr s p)"]
      arg_cong [OF b, of "\<lambda>s. p_pid (pr s p)"] arg_cong [OF b, of "\<lambda>s. p_ppid (pr s p)"]
      setrun_eff_stat [of r "bare s" p] p r n
    by (auto simp: zkeep_def bare_stat stable_setrun)
qed

lemma psignal_zkeep:
  assumes ok: "proc_ok s" and r: "r < length (procs s)" and p: "p < length (procs s)" "p \<noteq> r" "p \<noteq> 0"
    and s': "psignal r sig s = Some s'"
  shows "zkeep p s s'"
proof -
  define s1 where "s1 = upd r (p_sig_update (\<lambda>x. x OR push_bit (nat (sig - 1)) 1)) s"
  have so1: "sched_ok s1" unfolding s1_def using ok by (intro sched_ok_upd) (simp_all add: proc_ok_def)
  have z1: "zkeep p s s1" using p by (simp add: zkeep_def s1_def)
  have cases: "s' = s \<or> s' = s1 \<or> setrun r s1 = Some s'"
    using s' unfolding psignal_def Let_def s1_def [symmetric] by (auto split: if_splits)
  moreover have "zkeep p s s'" if "setrun r s1 = Some s'"
    using zkeep_trans [OF z1 setrun_zkeep [OF so1 _ _ p(2,3) that]] r p by (simp add: s1_def)
  ultimately show ?thesis using z1 by (auto simp: zkeep_def)
qed

lemma exit_child_zkeep:
  assumes ok: "proc_ok s" and q: "q < length (procs s)" and p: "p < length (procs s)" "p \<noteq> 0" "p \<noteq> 1"
    and z: "p_stat (pr s p) = SZOMB" and np: "p_ppid (pr s p) \<noteq> p_pid (pr s p)" and s': "exit_child p q s = Some s'"
  shows "zkeep p s s'"
proof -
  have two: "1 < length (procs s)" using p by linarith
  define s1 where "s1 = upd q (p_ppid_update (\<lambda>_. 1)) s"
  have last: "zkeep p s r \<Longrightarrow> zkeep p s (if b then upd q (p_pgrp_update (\<lambda>_. 0)) r else r)" for r b
    by (cases "q < length (procs r)"; cases "p = q") (auto simp: zkeep_def upd_get upd_def list_update_beyond)
  show ?thesis
  proof (cases "p_pid (pr s p) = p_ppid (pr s q)")
    case True
    then have pq: "p \<noteq> q" using np by auto
    have 1: "proc_ok s1 \<and> like s s1" unfolding s1_def using ok by (auto intro!: proc_ok_upd simp: like_def)
    have z1: "zkeep p s s1" using pq by (simp add: s1_def zkeep_def)
    obtain s2 where s2: "(if p_stat (pr s1 q) = SZOMB then psignal 1 (int SIGCLD) s1 else Some s1) = Some s2"
      and 2: "proc_ok s2 \<and> like s s2"
      using psignal_step [OF 1 two, of "int SIGCLD"] 1
      by (cases "p_stat (pr s1 q) = SZOMB") (auto simp del: One_nat_def)
    have l1: "length (procs s1) = length (procs s)" by (simp add: s1_def)
    have z2: "zkeep p s s2"
    proof (cases "p_stat (pr s1 q) = SZOMB")
      case True
      then have "psignal 1 (int SIGCLD) s1 = Some s2" using s2 by simp
      then have "zkeep p s1 s2" using psignal_zkeep [of s1 1 p "int SIGCLD" s2] 1 two p l1 by simp
      then show ?thesis by (rule zkeep_trans [OF z1])
    next
      case False
      then show ?thesis using s2 z1 by simp
    qed
    obtain s3 where s3: "(if p_stat (pr s2 q) = SSTOP then setrun q s2 else Some s2) = Some s3"
      using setrun_step [OF 2 q] by (cases "p_stat (pr s2 q) = SSTOP") auto
    have z3: "zkeep p s s3"
    proof (cases "p_stat (pr s2 q) = SSTOP")
      case True
      then have "zkeep p s2 s3"
        using setrun_zkeep [of s2 q p s3] s3 2 q p pq by (simp add: proc_ok_def like_def)
      then show ?thesis by (rule zkeep_trans [OF z2])
    next
      case False
      then show ?thesis using s3 z2 by simp
    qed
    have "s' = (if p_pid (pr s3 p) = p_pgrp (pr s3 q) then upd q (p_pgrp_update (\<lambda>_. 0)) s3 else s3)"
      using s' unfolding exit_child_def Let_def if_P [OF True] s1_def [symmetric] s2 Option.bind.simps s3 by simp
    then show ?thesis using last [OF z3] by simp
  next
    case False
    have "\<exists>r. (if p_ppid (pr s p) = p_pid (pr s q) then psignal q (int SIGCLD) s else Some s) = Some r \<and> zkeep p s r"
    proof (cases "p_ppid (pr s p) = p_pid (pr s q)")
      case True
      then have "p \<noteq> q" using np by auto
      then show ?thesis using True psignal_ok [OF ok q, of "int SIGCLD"] psignal_zkeep [OF ok q p(1) _ p(2)] by auto
    qed (simp add: zkeep_def)
    then obtain r where r: "(if p_ppid (pr s p) = p_pid (pr s q) then psignal q (int SIGCLD) s else Some s) = Some r"
      "zkeep p s r" by blast
    have "s' = (if p_pid (pr r p) = p_pgrp (pr r q) then upd q (p_pgrp_update (\<lambda>_. 0)) r else r)"
      using s' unfolding exit_child_def if_not_P [OF False] r(1) Option.bind.simps by simp
    then show ?thesis using last [OF r(2)] by simp
  qed
qed

lemma exit_end_status:
  assumes ok: "proc_ok st" and run: "\<not> parked st" and c: "c = u_procp st" "c \<noteq> 0" "c \<noteq> 1"
    and np: "p_ppid (pr st c) \<noteq> p_pid (pr st c)"
  shows "\<exists>st'. exit_end rv st = Some st' \<and> proc_ok st' \<and> p_stat (pr st' c) = SZOMB
    \<and> get_xstat (pr st' c) = to_short rv \<and> p_pid (pr st' c) = p_pid (pr st c) \<and> p_ppid (pr st' c) = p_ppid (pr st c)"
proof -
  let ?f = "\<lambda>x. (set_xstat rv (x\<lparr>p_stat := SZOMB\<rparr>))\<lparr>xp_utime := u_cutime (uarea st) + u_utime (uarea st),
                  xp_stime := u_cstime (uarea st) + u_stime (uarea st)\<rparr>"
  define st1 where "st1 = (upd c ?f st)\<lparr>parked := True\<rparr>"
  have cl: "c < length (procs st)" unfolding c(1) by (rule u_procp_less) (use ok in \<open>simp add: proc_ok_def\<close>)
  have 1: "proc_ok st1" unfolding st1_def c(1) by (rule leave_ok [OF ok run]) (use c in \<open>simp_all add: set_xstat_def\<close>)
  have e: "upd c ?f (st\<lparr>parked := True\<rparr>) = st1" by (simp add: st1_def upd_def)
  have c1: "p_stat (pr st1 c) = SZOMB" "p_pid (pr st1 c) = p_pid (pr st c)" "p_ppid (pr st1 c) = p_ppid (pr st c)"
    "p_sig (pr st1 c) = p_sig (set_xstat rv (pr st c))"
    using cl by (simp_all add: st1_def upd_get set_xstat_def)
  have two: "1 < length (procs st1)" using c cl by (simp add: st1_def)
  have ve: "ve_proc st1 \<le> length (procs st1)" using 1 table_okD(4) by (simp add: proc_ok_def)
  have "\<exists>st'. each (exit_child c) [1..<ve_proc st1] st1 = Some st' \<and> (proc_ok st' \<and> like st1 st' \<and> zkeep c st1 st')"
  proof (rule each_ok)
    fix q s assume s: "proc_ok s \<and> like st1 s \<and> zkeep c st1 s" and q: "q \<in> set [1..<ve_proc st1]"
    have ql: "q < length (procs st1)" "q < length (procs s)" using q ve s by (auto simp: like_def)
    obtain s' where s': "exit_child c q s = Some s'" "proc_ok s' \<and> like st1 s'"
      using exit_child_ok [of s st1 q c] s ql two by blast
    have "zkeep c s s'"
      by (rule exit_child_zkeep [OF _ ql(2) _ c(2,3) _ _ s'(1)])
         (use s c1 np cl in \<open>auto simp: zkeep_def like_def st1_def\<close>)
    then show "\<exists>s'. exit_child c q s = Some s' \<and> proc_ok s' \<and> like st1 s' \<and> zkeep c st1 s'"
      using s' s zkeep_trans [of c st1 s s'] by blast
  qed (use 1 in \<open>simp add: zkeep_def\<close>)
  then obtain st' where st': "each (exit_child c) [1..<ve_proc st1] st1 = Some st'" "proc_ok st'" "zkeep c st1 st'" by blast
  have "exit_end rv st = Some st'" using st'(1) unfolding exit_end_def Let_def c(1) [symmetric] e by simp
  moreover have "get_xstat (pr st' c) = get_xstat (set_xstat rv (pr st c))"
    using st'(3) c1(4) by (simp add: get_xstat_def zkeep_def)
  ultimately show ?thesis using st' c1 by (auto simp: zkeep_def get_set_xstat)
qed

section \<open>The theorems\<close>

text \<open>
  C3: In every state the scheduler can reach, each process is on the queue its status names and on
  no other: on the run queue exactly when it is runnable and not the one that runs, on the sleep
  queue of its channel exactly when it sleeps; and no process is in a queue twice.
\<close>

theorem process_queues:
  assumes "preach n st" "int n < MAXPID - 2" "p < length (procs st)"
  shows "(p \<in> set (queue_of st Runq) \<longleftrightarrow> p_stat (pr st p) = SRUN \<and> (p = u_procp st \<longrightarrow> parked st))
    \<and> (\<forall>h<NHSQUE. p \<in> set (queue_of st (Hsque h)) \<longleftrightarrow>
         p_stat (pr st p) = SSLEEP \<and> sqhash (p_wchan (pr st p)) = h)
    \<and> (\<forall>k\<in>heads. distinct (queue_of st k))"
proof -
  have i: "sched_inv st (queue_of st)" using preach_ok [OF assms(1,2)] by (simp add: proc_ok_def sched_ok_def)
  show ?thesis
    using sched_invD(3) [OF i] sched_invD(2) [OF i, of p] queuesD(4) [OF sched_invD(1) [OF i]] assms(3)
    by blast
qed

text \<open>
  C5: From every reachable state, each call that follows the links of the process table returns:
  no chain is broken or endless, and the table always has a free process number.
\<close>

theorem process_calls_return:
  assumes "preach n st" "int n < MAXPID - 2"
  shows "(\<forall>chan. \<exists>t. wakeup chan st = Some t) \<and> (\<forall>p<length (procs st). \<forall>sig. \<exists>t. psignal p sig st = Some t)
    \<and> (\<exists>t. clock_second st = Some t)
    \<and> (if parked st then \<exists>t. swtch st = Some t
       else (\<exists>t. qswtch st = Some t) \<and> (\<forall>chan disp. \<exists>r. sleep chan disp st = Some r)
          \<and> (\<exists>r. issig st = Some r) \<and> (\<forall>pid signo. \<exists>r. kill pid signo st = Some r)
          \<and> (\<forall>maxup dup. \<exists>r. newproc True maxup dup st = Some r)
          \<and> (u_procp st \<noteq> 0 \<longrightarrow> (\<forall>rv. \<exists>t. exit_end rv st = Some t)))"
proof -
  have ok: "proc_ok st" and few: "int (length (procs st)) < MAXPID - 1" using preach_ok [OF assms] assms(2) by auto
  have a: "\<forall>chan. \<exists>t. wakeup chan st = Some t" using wakeup_step [OF ok] by blast
  have b: "\<forall>p<length (procs st). \<forall>sig. \<exists>t. psignal p sig st = Some t" using psignal_ok [OF ok] by blast
  have c: "\<exists>t. clock_second st = Some t" using clock_second_ok [OF ok] by blast
  show ?thesis
  proof (cases "parked st")
    case True
    then show ?thesis using a b c swtch_ok [OF ok True] by auto
  next
    case False
    have nz: "p_stat (curp st) \<noteq> SZOMB"
      using sched_invD(5) [of st "queue_of st"] ok False by (simp add: proc_ok_def sched_ok_def curp_def)
    have d: "\<exists>t. qswtch st = Some t" using qswtch_proc_ok [OF ok False] by blast
    have e: "\<forall>chan disp. \<exists>r. sleep chan disp st = Some r" using sleep_ok [OF ok False] by blast
    have f: "\<exists>r. issig st = Some r" using issig_spec [OF ok nz] by blast
    have g: "\<forall>pid signo. \<exists>r. kill pid signo st = Some r" using kill_spec [OF ok] by blast
    have h: "\<forall>maxup dup. \<exists>r. newproc True maxup dup st = Some r" using newproc_ok [OF ok False few] by blast
    have i: "u_procp st \<noteq> 0 \<longrightarrow> (\<forall>rv. \<exists>t. exit_end rv st = Some t)" using exit_end_ok [OF ok False] by blast
    show ?thesis using a b c d e f g h i False by simp
  qed
qed



text \<open>
  The status a process exits with is the one its parent's \<^verbatim>\<open>wait\<close> reports, cut to 16 bits, if the
  zombie is the first finished child in the table and its entry has not been touched in between.
\<close>

theorem exit_status_reaches_wait:
  assumes "proc_ok st" "\<not> parked st" "u_procp st \<notin> {0, 1}" "p_ppid (curp st) \<noteq> p_pid (curp st)"
    and "exit_end rv st = Some st1"
    and "proc_ok st2" "pr st2 (u_procp st) = pr st1 (u_procp st)"
    and "find (reportable st2) [1..<ve_proc st2] = Some (u_procp st)"
  shows "fst (wait st2) = WZombie (p_pid (curp st)) (to_short rv)"
proof -
  have "p_stat (pr st1 (u_procp st)) = SZOMB \<and> get_xstat (pr st1 (u_procp st)) = to_short rv
      \<and> p_pid (pr st1 (u_procp st)) = p_pid (curp st)"
    using exit_end_status [OF assms(1,2) refl, of rv] assms(3,4,5) by (auto simp: curp_def)
  then show ?thesis using wait_spec [OF assms(6)] assms(7,8) by (simp add: report_of_def)
qed

text \<open>
  A signal from 17 on that \<^verbatim>\<open>kill\<close> sends to a zombie is added to the exit status its parent
  has not collected yet: bit \<open>signo - 17\<close> of the status is set.
\<close>

theorem kill_spoils_exit_status:
  assumes "proc_ok st" "p < ve_proc st" "1 \<le> p" "p_stat (pr st p) = SZOMB" "p_pid (pr st p) = pid" "0 < pid"
    and "may_signal st p" "17 \<le> signo" "signo \<le> int NSIG"
  shows "\<exists>st'. kill pid signo st = Some (None, st')
    \<and> drop_bit 16 (p_sig (pr st' p)) = drop_bit 16 (p_sig (pr st p)) OR push_bit (nat (signo - 17)) 1"
proof -
  have pl: "p < length (procs st)" using assms(1,2) table_okD(4) [of st] by (simp add: proc_ok_def)
  have a: "addressed st pid p" using assms by (simp add: addressed_def)
  have ns: "\<not> (signo < 0 \<or> signo > int NSIG \<or> (signo = SIGKILL \<and> pid = 1))" "\<not> (pid = 0 \<and> p_pgrp (curp st) = 0)"
    using assms by auto
  have T: "p \<in> {(if pid > 0 then 1 else 2)..<ve_proc st}" using assms by simp
  obtain e st' where k: "kill pid signo st = Some (e, st')"
    and s: "e = None" "p_sig (pr st' p) = with_sig signo (p_sig (pr st p))"
    using kill_spec [OF assms(1), of pid signo] a T assms(7) pl
    unfolding if_not_P [OF ns(1)] if_not_P [OF ns(2)] by (metis (no_types, lifting))
  have "drop_bit 16 (with_sig signo w) = drop_bit 16 w OR push_bit (nat (signo - 17)) 1" for w
  proof (rule bit_word_eqI)
    fix i assume i: "i < LENGTH(32)"
    have "bit (push_bit (nat (signo - 1)) 1 :: u32) (16 + i) \<longleftrightarrow> bit (push_bit (nat (signo - 17)) 1 :: u32) i"
    proof (cases "16 + i < 32")
      case True
      then show ?thesis using assms(8) i bit_one_shift [of "16 + i" "nat (signo - 1)"] bit_one_shift [of i "nat (signo - 17)"]
        by (auto simp: nat_eq_iff)
    next
      case False
      then show ?thesis using assms(8,9) i bit_less_32 [of "push_bit (nat (signo - 1)) 1" "16 + i"]
          bit_one_shift [of i "nat (signo - 17)"] by (auto simp: NSIG_def)
    qed
    then show "bit (drop_bit 16 (with_sig signo w)) i = bit (drop_bit 16 w OR push_bit (nat (signo - 17)) 1) i"
      using assms(8) by (simp add: with_sig_def bit_drop_bit_eq bit_or_iff del: push_bit_of_1)
  qed
  then show ?thesis using k s by auto
qed

section \<open>Examples\<close>

text \<open>
  A fork of the first process, and one of process 2 of \<open>demo\<close>. The exit of process 2 of \<open>demo\<close> with
  \<open>0x100\<close>: \<open>exited k\<close> are the states after its entry is made a zombie (0), after process 1 has been
  sent \<^verbatim>\<open>SIGCLD\<close>, which wakes it (1), after the orphan has got a new parent (2), and after \<^verbatim>\<open>swtch\<close> has
  resumed process 1 (3).
\<close>

lemma boot_fork: "\<exists>st'. newproc True 30 True (boot 3) = Some (NpChild, st')"
proof -
  have s: "np_scan (boot 3) 1 [0..<ve_proc (boot 3)] None 0 0 = Some (None, 1, 0)"
    by code_simp
  have m: "np_pid (boot 3) (mpid (boot 3)) = Some (1, None, 1, 0)"
    using s by (subst np_pid.simps) (simp add: boot_def MAXPID_def)
  show ?thesis
    by (simp add: newproc_def np_begin_def m, simp add: np_end_def boot_def Let_def curp_def,
        simp add: setrq_def on_runq.simps upd_def u_upd_def uarea_def boot_user_def)
qed


lemma list_update_numeral: "(x # xs)[numeral n := y] = x # xs[pred_numeral n := y]"
  by (simp add: numeral_eq_Suc)

lemma setrun_sleeping:
  assumes "p_stat (pr st p) = SSLEEP" "take_off p st = Some st1"
    and "st2 = push_runq p (upd p (p_stat_update (\<lambda>_. SRUN)) st1)" "loaded (pr st2 p)"
  shows "setrun p st = Some (if p_pri (pr st2 p) < curpri st2 then st2\<lparr>runrun := runrun st2 + 1\<rparr> else st2)"
  using assms by (subst setrun.simps) (simp add: Let_def)

definition exited :: "nat \<Rightarrow> sched" where
  "exited k = demo\<lparr>procs := [
       free_entry\<lparr>p_stat := SSLEEP, p_flag := SLOAD OR SSYS, p_wchan := 0x1008\<rparr>,
       (if k = 0 then free_entry\<lparr>p_stat := SSLEEP, p_flag := SLOAD, p_pri := PWAIT, p_wchan := 0x2010, p_pid := 1\<rparr>
        else free_entry\<lparr>p_stat := SRUN, p_flag := SLOAD, p_pri := PWAIT, p_pid := 1, p_sig := 0x400000\<rparr>),
       free_entry\<lparr>p_stat := SZOMB, p_flag := SLOAD, p_pri := PUSER, p_pid := 2, p_ppid := 1, p_sig := 0x1000003\<rparr>,
       free_entry\<lparr>p_stat := SZOMB, p_pid := 3, p_ppid := (if k \<le> 1 then 2 else 1), p_sig := 0x1000000\<rparr>,
       free_entry],
     hsque := (if k = 0 then hsque demo else (hsque demo)[2 := None]), runq := (if k = 0 \<or> k = 3 then None else Some 1),
     runrun := (if k = 0 \<or> k = 3 then 0 else 1), parked := k < 3, u_procp := (if k < 3 then 2 else 1),
     curproc := (if k < 3 then 2 else 1), curpri := (if k < 3 then PUSER else PWAIT)\<rparr>"

lemmas exited_eval = list_update_numeral exited_def free_entry_def upd_def

lemma exit_begins: "exit_end 256 demo = each (exit_child 2) [1, 2, 3] (exited 0)"
proof -
  have u: "[1..<ve_proc (exited 0)] = [1, 2, 3]" by code_simp
  have v: "ve_proc (exited 0) = ve_proc demo" by (simp add: exited_def)
  have e: "upd 2 (\<lambda>x. (set_xstat 256 (x\<lparr>p_stat := SZOMB\<rparr>))\<lparr>
                  xp_utime := u_cutime (uarea demo) + u_utime (uarea demo),
                  xp_stime := u_cstime (uarea demo) + u_stime (uarea demo)\<rparr>) (demo\<lparr>parked := True\<rparr>) = exited 0"
    by (simp add: exited_eval set_xstat_def uarea_def boot_user_def) (simp add: demo_def exited_eval boot_user_def)
  show ?thesis unfolding exit_end_def Let_def demo_cur(1) e u ..
qed

lemma exit_wakes_parent: "exit_child 2 1 (exited 0) = Some (exited 1)"
proof -
  let ?s = "upd 1 (p_sig_update (\<lambda>x. x OR 0x400000)) (exited 0)"
  have c: "find_cell (Hsque 2) 1 ?s = Some (Hsque 2)"
    by (subst find_cell.simps) (simp add: deref_def exited_def demo_def NHSQUE_def nth_list_update)
  have t: "take_off 1 ?s = Some (upd 1 (p_wchan_update (\<lambda>_. 0)) (assign (Hsque 2) (links ?s 1) ?s))"
    using c by (simp add: take_off_def pr_upd exited_def free_entry_def sqhash_demo)
  have e: "push_runq 1 (upd 1 (p_stat_update (\<lambda>_. SRUN))
        (upd 1 (p_wchan_update (\<lambda>_. 0)) (assign (Hsque 2) (links ?s 1) ?s))) = (exited 1)\<lparr>runrun := 0\<rparr>"
    by (simp add: push_runq_def assign_def links_def exited_eval)
  have s: "p_stat (pr ?s 1) = SSLEEP" "loaded (pr ((exited 1)\<lparr>runrun := 0\<rparr>) 1)"
    "p_pri (pr ((exited 1)\<lparr>runrun := 0\<rparr>) 1) < curpri ((exited 1)\<lparr>runrun := 0\<rparr>)"
    by (simp_all add: pr_upd exited_def free_entry_def loaded_def SLOAD_def PUSER_def PWAIT_def)
  have "setrun 1 ?s = Some ((exited 1)\<lparr>runrun := runrun ((exited 1)\<lparr>runrun := 0\<rparr>) + 1\<rparr>)"
    using setrun_sleeping [OF s(1) t e [symmetric] s(2)] s(3) by simp
  also have "\<dots> = Some (exited 1)" by (simp add: exited_def)
  finally have r: "setrun 1 ?s = Some (exited 1)" .
  have x: "p_pid (pr (exited k) 2) = 2" "p_ppid (pr (exited k) 1) = 0" "p_ppid (pr (exited k) 2) = 1"
    "p_pid (pr (exited k) 1) = 1" "p_pri (pr (exited 0) 1) = PWAIT" "length (procs (exited k)) = 5" "p_pgrp (pr (exited 1) 1) = 0" for k
    by (simp_all add: exited_def free_entry_def)
  have "psignal 1 (int SIGCLD) (exited 0) = Some (exited 1)"
    using r s(1) by (simp add: psignal_def NSIG_def pr_upd x PWAIT_def PZERO_def del: One_nat_def)
  then show ?thesis by (simp add: exit_child_def x del: One_nat_def)
qed

lemma exit_self: "exit_child 2 2 (exited 1) = Some (exited 1)"
  by (simp add: exit_child_def exited_eval)
lemma exit_reparents: "exit_child 2 3 (exited 1) = Some (exited 2)"
  by (simp add: exit_child_def exited_eval psignal_def Let_def)

lemma exit_switches: "swtch (exited 2) = Some (exited 3)"
proof -
  let ?s = "(exited 2)\<lparr>runrun := 0\<rparr>"
  have r: "runq ?s = Some 1" "links ?s 1 = None" "\<not> panicstr ?s" "loaded (pr ?s 1)" "p_pri (pr ?s 1) = PWAIT"
    by (simp_all add: exited_def demo_def links_def free_entry_def loaded_def SLOAD_def)
  have c: "swtch_scan (Some 1) None None 256 ?s = Some (Some (1, None), PWAIT)"
    using r by (subst swtch_scan.simps, simp del: One_nat_def, subst swtch_scan.simps) (simp add: PWAIT_def)
  show ?thesis
    using r unfolding swtch_def Let_def
    by (simp add: c del: One_nat_def) (simp add: assign_def exited_eval demo_def SLOAD_def SSWAP_def)
qed

lemma demo_exit: "exit_end 256 demo = Some (exited 2)"
  by (simp add: exit_begins exit_wakes_parent exit_self exit_reparents del: One_nat_def)

lemma exited_ok: "proc_ok (exited 3)"
proof -
  have nz: "u_procp demo \<noteq> 0" "\<not> parked demo" by (simp_all add: demo_cur)
  have "proc_ok (exited 2)" using exit_end_ok [OF demo_proc_ok nz(2,1), of 256] demo_exit by auto
  moreover have "parked (exited 2)" by (simp add: exited_def)
  ultimately show ?thesis using swtch_ok [of "exited 2"] exit_switches by auto
qed

theorem process_queues_witness:
  "\<exists>st c. preach 3 st \<and> c \<in> set (queue_of st Runq) \<and> (\<forall>h<NHSQUE. c \<notin> set (queue_of st (Hsque h)))
    \<and> (\<forall>k\<in>heads. distinct (queue_of st k))"
proof -
  have n: "int 3 < MAXPID - 2" "int (length (procs (boot 3))) < MAXPID - 1" "\<not> parked (boot 3)"
    by (simp_all add: MAXPID_def boot_def)
  obtain st' where f: "newproc True 30 True (boot 3) = Some (NpChild, st')" using boot_fork by blast
  have "\<exists>s1. pstep (boot 3) s1 \<and> pstep s1 st'" by (rule newproc_steps [OF f boot_ok n(3,2)])
  then have r: "preach 3 st'" using start step by blast
  have "np_post (boot 3) st'" using newproc_ok [OF boot_ok n(3,2), of True 30 True] f by auto
  then obtain c where c: "c \<in> set (queue_of st' Runq)" "c < length (procs (boot 3))" by (auto simp: np_post_def)
  have "length (procs st') = length (procs (boot 3))" using preach_ok [OF r n(1)] by (simp add: boot_def)
  then have "(\<forall>h<NHSQUE. c \<notin> set (queue_of st' (Hsque h))) \<and> (\<forall>k\<in>heads. distinct (queue_of st' k))"
    using process_queues [OF r n(1), of c] c by auto
  then show ?thesis using c(1) r by blast
qed

theorem process_calls_return_witness:
  "(\<exists>t. wakeup 0x2010 (boot 3) = Some t) \<and> (\<exists>r. newproc True 30 True (boot 3) = Some r)"
proof -
  have "\<not> parked (boot 3)" by (simp add: boot_def)
  then show ?thesis using process_calls_return [OF start, of 3] by (simp add: MAXPID_def)
qed


theorem exit_status_reaches_wait_witness:
  "\<exists>st1 st2. exit_end 256 demo = Some st1 \<and> swtch st1 = Some st2 \<and> fst (wait st2) = WZombie 2 256"
proof -
  have n: "[1..<ve_proc (exited 3)] = [1, 2, 3]" by code_simp
  have "fst (wait (exited 3)) = WZombie (p_pid (curp demo)) (to_short 256)"
  proof (rule exit_status_reaches_wait [OF demo_proc_ok _ _ _ demo_exit exited_ok])
    show "pr (exited 3) (u_procp demo) = pr (exited 2) (u_procp demo)" by (simp add: demo_cur exited_def)
    show "find (reportable (exited 3)) [1..<ve_proc (exited 3)] = Some (u_procp demo)"
      unfolding n by (simp add: reportable_def my_child_def curp_def exited_def free_entry_def demo_cur)
  qed (simp_all add: demo_cur demo_procs free_entry_def)
  then show ?thesis using demo_exit exit_switches by (simp add: demo_cur demo_fields to_short_def)
qed

theorem kill_spoils_exit_status_witness:
  "\<exists>st'. kill 3 17 demo = Some (None, st') \<and> drop_bit 16 (p_sig (pr st' 3)) = 0x101"
  using kill_spoils_exit_status [OF demo_proc_ok, of 3 3 17]
  by (simp add: demo_cur demo_fields may_signal_def NSIG_def)


end
