(* ===== verification/Resource_Map.thy ===== *)
theory Resource_Map
  imports Kernel_Prelude
begin

text \<open>
  The kernel's resource maps (\<^verbatim>\<open>sys/os/malloc.c\<close>, \<^verbatim>\<open>sys/map.h\<close>): first-fit allocation of
  units from a sorted array of free extents, used for swap space, page-table space, message
  text and semaphores.
\<close>

section \<open>State\<close>

text \<open>
  \<^verbatim>\<open>struct map\<close> is an extent; a map is an array of them. Slot 0 is the header: its
  \<^verbatim>\<open>m_size\<close> counts the unused slots (\<^verbatim>\<open>mapsize\<close>), its \<^verbatim>\<open>m_addr\<close> is the want flag
  (\<^verbatim>\<open>mapwant\<close>). The slots from \<^verbatim>\<open>mapstart\<close> on hold the extents, ended by size 0.
\<close>

record mapent =
  m_size :: u32
  m_addr :: u32

record rmap =
  map_slots :: u32
  map_want :: u32
  map_ents :: "mapent list"

definition zero_ent :: mapent where
  "zero_ent = \<lparr>m_size = 0, m_addr = 0\<rparr>"

text \<open>\<^verbatim>\<open>mapinit\<close> on a cleared array of \<open>y\<close> slots (one of them the header).\<close>

definition mapinit :: "nat \<Rightarrow> rmap" where
  "mapinit y = \<lparr>map_slots = of_nat (y - 2), map_want = 0, map_ents = replicate (y - 1) zero_ent\<rparr>"

section \<open>Operations\<close>

text \<open>
  Moving the extents behind a removed slot down by one, up to and including the terminator:
  \<open>map_close\<close> is the loop that starts at a slot still to be overwritten, \<open>map_shift\<close> the
  form that first drops the slot at the head.
\<close>

fun map_close :: "mapent list \<Rightarrow> mapent list" where
  "map_close (e # f # r) = (if m_size e = 0 then e # f # r else f # map_close (f # r))"
| "map_close es = es"

fun map_shift :: "mapent list \<Rightarrow> mapent list" where
  "map_shift (e # f # r) = f # map_close (f # r)"
| "map_shift es = es"

text \<open>The result of the scan: the base found, whether a slot was given up, the new slots.\<close>

fun malloc_scan :: "u32 \<Rightarrow> mapent list \<Rightarrow> (u32 \<times> bool \<times> mapent list) option" where
  "malloc_scan sz [] = None"
| "malloc_scan sz (e # r) =
     (if m_size e = 0 then None
      else if sz \<le> m_size e then
        (let e' = e\<lparr>m_addr := m_addr e + sz, m_size := m_size e - sz\<rparr> in
         if m_size e' = 0 then Some (m_addr e, True, map_shift (e' # r))
         else Some (m_addr e, False, e' # r))
      else map_option (\<lambda>(a, gone, es). (a, gone, e # es)) (malloc_scan sz r))"

definition malloc :: "rmap \<Rightarrow> u32 \<Rightarrow> u32 \<times> rmap" where
  "malloc mp sz =
     (case malloc_scan sz (map_ents mp) of
        None \<Rightarrow> (0, mp)
      | Some (a, gone, es) \<Rightarrow>
          (a, mp\<lparr>map_ents := es, map_slots := (if gone then map_slots mp + 1 else map_slots mp)\<rparr>))"

text \<open>\<open>mfree_seek\<close> is the first loop of \<^verbatim>\<open>mfree\<close>, \<open>map_insert\<close> its last one.\<close>

fun mfree_seek :: "u32 \<Rightarrow> mapent list \<Rightarrow> nat" where
  "mfree_seek a [] = 0"
| "mfree_seek a (e # r) = (if m_addr e \<le> a \<and> m_size e \<noteq> 0 then Suc (mfree_seek a r) else 0)"

fun map_insert :: "mapent \<Rightarrow> mapent list \<Rightarrow> mapent list" where
  "map_insert n [] = []"
| "map_insert n (e # r) = n # (if m_size e = 0 then r else map_insert e r)"

datatype mfree_result = Freed bool   \<comment> \<open>was \<^verbatim>\<open>wakeup(mp)\<close> called\<close>
  | Lost                             \<comment> \<open>no slot left: the DANGER message and an early return\<close>

text \<open>The common end of \<^verbatim>\<open>mfree\<close>: wake whoever waits for space in the map.\<close>

definition mfree_wake :: "rmap \<Rightarrow> mfree_result \<times> rmap" where
  "mfree_wake mp = (if map_want mp \<noteq> 0 then (Freed True, mp\<lparr>map_want := 0\<rparr>) else (Freed False, mp))"

definition mfree :: "rmap \<Rightarrow> u32 \<Rightarrow> u32 \<Rightarrow> mfree_result \<times> rmap" where
  "mfree mp sz a =
     (let es = map_ents mp; i = mfree_seek a es; bp = es ! i; pr = es ! (i - 1) in
      if 0 < i \<and> m_addr pr + m_size pr = a then
        (if a + sz = m_addr bp then
           mfree_wake (mp\<lparr>map_ents := take (i - 1) es @ pr\<lparr>m_size := m_size pr + sz + m_size bp\<rparr>
                                    # map_close (drop i es),
                      map_slots := map_slots mp + 1\<rparr>)
         else mfree_wake (mp\<lparr>map_ents := es[i - 1 := pr\<lparr>m_size := m_size pr + sz\<rparr>]\<rparr>))
      else if a + sz = m_addr bp \<and> m_size bp \<noteq> 0 then
        mfree_wake (mp\<lparr>map_ents := es[i := \<lparr>m_size = m_size bp + sz, m_addr = m_addr bp - sz\<rparr>]\<rparr>)
      else if sz \<noteq> 0 then
        (if map_slots mp = 0 then (Lost, mp)
         else mfree_wake (mp\<lparr>map_ents := take i es @ map_insert \<lparr>m_size = sz, m_addr = a\<rparr> (drop i es),
                         map_slots := map_slots mp - 1\<rparr>))
      else mfree_wake mp)"

text \<open>
  \<^verbatim>\<open>malloc_at\<close> carves a given range out. Splitting an extent moves the extents behind it
  up by one (\<open>map_open\<close>); the panic comes when the header has no slot to give. The loop that
  closes a used-up slot relies on \<^verbatim>\<open>(++bp)\<close> being evaluated before \<^verbatim>\<open>bp[-1]\<close>, as
  \<^verbatim>\<open>malloc\<close> has it in two statements; it is modelled so.
\<close>

fun map_open :: "mapent \<Rightarrow> mapent list \<Rightarrow> mapent list" where
  "map_open e [] = [e]"
| "map_open e (f # r) =
     e # (if m_size f = 0 then (case r of [] \<Rightarrow> [] | g # r' \<Rightarrow> g\<lparr>m_size := 0\<rparr> # r')
          else map_open f r)"

datatype at_result = At_ok "mapent list" int | At_no | At_panic

fun malloc_at_scan :: "u32 \<Rightarrow> u32 \<Rightarrow> u32 \<Rightarrow> mapent list \<Rightarrow> at_result" where
  "malloc_at_scan slots addr sz [] = At_no"
| "malloc_at_scan slots addr sz (e # r) =
     (if m_size e = 0 then At_no
      else if addr < m_addr e then At_no
      else if addr + sz \<le> m_addr e + m_size e then
        (if m_addr e = addr then
           (let e' = e\<lparr>m_addr := m_addr e + sz, m_size := m_size e - sz\<rparr> in
            if m_size e' = 0 then At_ok (map_shift (e' # r)) 1 else At_ok (e' # r) 0)
         else if addr + sz \<noteq> m_addr e + m_size e then
           (if slots = 0 then At_panic
            else let left = addr - m_addr e in
              At_ok (e\<lparr>m_size := left\<rparr>
                     # map_open \<lparr>m_size = m_size e - (sz + left), m_addr = addr + sz\<rparr> r) (-1))
         else At_ok (e\<lparr>m_size := addr - m_addr e\<rparr> # r) 0)
      else (case malloc_at_scan slots addr sz r of
              At_ok es d \<Rightarrow> At_ok (e # es) d | res \<Rightarrow> res))"

text \<open>None is the panic; otherwise the C return value (nonzero for success) and the map.\<close>

definition malloc_at :: "rmap \<Rightarrow> u32 \<Rightarrow> u32 \<Rightarrow> (bool \<times> rmap) option" where
  "malloc_at mp addr sz =
     (if sz = 0 then Some (False, mp)
      else case malloc_at_scan (map_slots mp) addr sz (map_ents mp) of
        At_no \<Rightarrow> Some (False, mp)
      | At_panic \<Rightarrow> None
      | At_ok es d \<Rightarrow> Some (True, mp\<lparr>map_ents := es, map_slots := map_slots mp + of_int d\<rparr>))"


section \<open>Abstraction and invariant\<close>

text \<open>
  A map stands for the set of its free units. The invariant: the extents are sorted, do not
  touch (so they are coalesced), do not wrap, do not contain unit 0 (0 is the failure value
  of \<^verbatim>\<open>malloc\<close>), and the slots behind them are cleared, one more than the header counts.
\<close>

definition ent_units :: "mapent \<Rightarrow> nat set" where
  "ent_units e = {unat (m_addr e)..<unat (m_addr e) + unat (m_size e)}"

definition ents_units :: "mapent list \<Rightarrow> nat set" where
  "ents_units es = (\<Union>e\<in>set es. ent_units e)"

definition map_live :: "rmap \<Rightarrow> mapent list" where
  "map_live mp = takeWhile (\<lambda>e. m_size e \<noteq> 0) (map_ents mp)"

definition free_units :: "rmap \<Rightarrow> nat set" where
  "free_units mp = ents_units (map_live mp)"

fun map_chain :: "nat \<Rightarrow> mapent list \<Rightarrow> bool" where
  "map_chain lo [] = True"
| "map_chain lo (e # r) =
     (lo < unat (m_addr e) \<and> m_size e \<noteq> 0 \<and> unat (m_addr e) + unat (m_size e) < 2 ^ 32
      \<and> map_chain (unat (m_addr e) + unat (m_size e)) r)"

definition map_wf :: "rmap \<Rightarrow> bool" where
  "map_wf mp \<longleftrightarrow>
     map_chain 0 (map_live mp) \<and> length (map_ents mp) < 2 ^ 32 \<and>
     drop (length (map_live mp)) (map_ents mp) = replicate (Suc (unat (map_slots mp))) zero_ent"

text \<open>The slots of a well-formed map, taken apart.\<close>

lemma map_chain_nonzero: "map_chain lo es \<Longrightarrow> \<forall>e\<in>set es. m_size e \<noteq> 0"
  by (induction lo es rule: map_chain.induct) auto

lemma map_chain_mono: "map_chain lo es \<Longrightarrow> lo' \<le> lo \<Longrightarrow> map_chain lo' es"
  by (cases es) auto

lemma zero_ent_sel [simp]: "m_size zero_ent = 0" "m_addr zero_ent = 0"
  by (simp_all add: zero_ent_def)

lemma map_wfE:
  assumes "map_wf mp"
  obtains L k where "map_ents mp = L @ replicate (Suc k) zero_ent" "map_chain 0 L"
    "k = unat (map_slots mp)" "free_units mp = ents_units L" "map_live mp = L"
    "length L + Suc k < 2 ^ 32"
proof -
  let ?L = "map_live mp"
  have "map_ents mp = ?L @ drop (length ?L) (map_ents mp)"
    by (simp add: map_live_def dropWhile_eq_drop [symmetric])
  with assms have "map_ents mp = ?L @ replicate (Suc (unat (map_slots mp))) zero_ent"
    by (simp add: map_wf_def)
  moreover have "map_chain 0 ?L" using assms by (simp add: map_wf_def)
  moreover have "length ?L + Suc (unat (map_slots mp)) < 2 ^ 32"
    using assms calculation(1) by (metis length_append length_replicate map_wf_def)
  ultimately show ?thesis by (intro that [of ?L "unat (map_slots mp)"]) (simp_all add: free_units_def)
qed

lemma map_live_eq:
  "\<lbrakk>map_ents mp = L @ replicate (Suc k) zero_ent; map_chain lo L\<rbrakk> \<Longrightarrow> map_live mp = L"
  unfolding map_live_def by (simp add: map_chain_nonzero)

lemma map_wfI [wf_intros]:
  "\<lbrakk>map_ents mp = L @ replicate (Suc k) zero_ent; map_chain 0 L; k = unat (map_slots mp);
    length L + Suc k < 2 ^ 32\<rbrakk>
   \<Longrightarrow> map_wf mp \<and> free_units mp = ents_units L \<and> map_live mp = L"
  by (frule (1) map_live_eq) (simp add: map_wf_def free_units_def del: replicate_Suc)

lemma ents_units_simps [simp, unit_simps]:
  "ents_units [] = {}"
  "ents_units (e # es) = ent_units e \<union> ents_units es"
  "ents_units (es @ fs) = ents_units es \<union> ents_units fs"
  by (auto simp: ents_units_def)

lemma map_chain_above: "map_chain lo es \<Longrightarrow> x \<in> ents_units es \<Longrightarrow> lo < x \<and> Suc x < 2 ^ 32"
  by (induction lo es rule: map_chain.induct) (auto simp: ent_units_def)

lemma map_chain_append:
  "map_chain lo (es @ fs) \<longleftrightarrow>
     map_chain lo es \<and>
     map_chain (if es = [] then lo else unat (m_addr (last es)) + unat (m_size (last es))) fs"
  by (induction lo es rule: map_chain.induct) auto

text \<open>An interval of free units lies within a single extent, since extents never touch.\<close>

lemma run_in_extent:
  "\<lbrakk>map_chain lo es; {b..<b + n} \<subseteq> ents_units es; 0 < n\<rbrakk>
   \<Longrightarrow> \<exists>e\<in>set es. {b..<b + n} \<subseteq> ent_units e"
proof (induction lo es rule: map_chain.induct)
  case (2 lo e r)
  let ?g = "unat (m_addr e) + unat (m_size e)"
  have "{b..<b + n} \<subseteq> ent_units e \<or> {b..<b + n} \<subseteq> ents_units r"
  proof (rule interval_split)
    show "{b..<b + n} \<subseteq> ent_units e \<union> ents_units r" using "2.prems" by simp
    show "\<forall>x\<in>ent_units e. x < ?g" by (simp add: ent_units_def)
    show "\<forall>x\<in>ents_units r. ?g < x" using "2.prems"(1) map_chain_above by auto
  qed (rule "2.prems")
  with "2.prems" "2.IH" show ?case by auto
qed auto

lemma run_extent_fits:
  "{b..<b + n} \<subseteq> ent_units e \<Longrightarrow> 0 < n \<Longrightarrow> n \<le> unat (m_size e) \<and> unat (m_addr e) \<le> b"
  by (auto simp: ent_units_def ivl_subset)

section \<open>Correctness of the allocator\<close>

lemma map_close_live:
  "\<lbrakk>\<forall>e\<in>set L. m_size e \<noteq> 0\<rbrakk> \<Longrightarrow>
   map_close (e # L @ replicate (Suc k) zero_ent) =
     (if m_size e = 0 then e # L @ replicate (Suc k) zero_ent
      else L @ replicate (Suc (Suc k)) zero_ent)"
proof (induction L arbitrary: e)
  case Nil
  then show ?case by (cases k) simp_all
qed simp

lemma map_shift_live:
  assumes "\<forall>e\<in>set L. m_size e \<noteq> 0"
  shows "map_shift (e # L @ replicate (Suc k) zero_ent) = L @ replicate (Suc (Suc k)) zero_ent"
proof (cases L)
  case Nil
  then show ?thesis by (cases k) simp_all
next
  case (Cons f L')
  with assms show ?thesis by (simp add: map_close_live del: map_close.simps replicate_Suc)
qed

lemma unat_add_extent:
  "unat (m_addr e) + unat (m_size e) < 2 ^ 32 \<Longrightarrow> sz \<le> m_size e \<Longrightarrow>
   unat (m_addr e + sz) = unat (m_addr e) + unat sz"
  by (rule unat_plus_no_overflow) (simp add: word_le_nat_alt)

lemma malloc_scan_spec:
  assumes "map_chain lo L"
  shows "case malloc_scan sz (L @ replicate (Suc k) zero_ent) of
      None \<Rightarrow> \<forall>e\<in>set L. m_size e < sz
    | Some (a, gone, es) \<Rightarrow>
        (\<exists>L'. es = L' @ replicate (Suc (if gone then Suc k else k)) zero_ent \<and> map_chain lo L'
              \<and> ents_units L' = ents_units L - {unat a..<unat a + unat sz}
              \<and> {unat a..<unat a + unat sz} \<subseteq> ents_units L
              \<and> lo < unat a
              \<and> (\<not> gone \<longrightarrow> unat a + unat sz \<in> ents_units L')
              \<and> (\<forall>e\<in>set L. sz \<le> m_size e \<longrightarrow> unat a \<le> unat (m_addr e)))"
  using assms
proof (induction lo L rule: map_chain.induct)
  case (1 lo)
  show ?case by simp
next
  case (2 lo e r)
  let ?z = "\<lambda>n. replicate (Suc n) zero_ent"
  let ?e' = "e\<lparr>m_addr := m_addr e + sz, m_size := m_size e - sz\<rparr>"
  let ?hi = "unat (m_addr e) + unat (m_size e)"
  from "2.prems" have e: "lo < unat (m_addr e)" "m_size e \<noteq> 0" "?hi < 2 ^ 32" and r: "map_chain ?hi r"
    by auto
  have above: "ent_units e \<inter> ents_units r = {}"
    using map_chain_above [OF r] by (fastforce simp: ent_units_def)
  show ?case
  proof (cases "sz \<le> m_size e")
    case fits: True
    have base: "unat (m_addr e + sz) = unat (m_addr e) + unat sz"
      using e(3) fits by (rule unat_add_extent)
    have rest: "unat (m_size e - sz) = unat (m_size e) - unat sz" and le: "unat sz \<le> unat (m_size e)"
      using fits by (simp_all add: unat_minus_le word_le_nat_alt)
    have first: "\<forall>f\<in>set (e # r). unat (m_addr e) \<le> unat (m_addr f)"
    proof
      fix f assume "f \<in> set (e # r)"
      then consider "f = e" | "f \<in> set r" by auto
      then show "unat (m_addr e) \<le> unat (m_addr f)"
      proof cases
        case 2
        then have "unat (m_addr f) \<in> ents_units r"
          using map_chain_nonzero [OF r] by (auto simp: ents_units_def ent_units_def unat_pos_iff intro!: bexI)
        with map_chain_above [OF r] show ?thesis by fastforce
      qed simp
    qed
    have taken: "ent_units ?e' = ent_units e - {unat (m_addr e)..<unat (m_addr e) + unat sz}"
      "{unat (m_addr e)..<unat (m_addr e) + unat sz} \<subseteq> ent_units e"
      using le by (auto simp: ent_units_def base rest)
    show ?thesis
    proof (cases "m_size e = sz")
      case True
      with e r first taken above show ?thesis
        by (auto simp: map_shift_live [OF map_chain_nonzero [OF r]] ent_units_def
              intro!: map_chain_mono [OF r] simp del: replicate_Suc map_shift.simps)
    next
      case False
      with fits have "m_size e - sz \<noteq> 0" by simp
      moreover have "map_chain lo (?e' # r)"
        using e r base rest le \<open>m_size e - sz \<noteq> 0\<close> by simp
      moreover have "unat (m_addr e) + unat sz \<in> ent_units ?e'"
        using base rest le False by (auto simp: ent_units_def le_less word_unat_eq_iff)
      ultimately show ?thesis
        using e first taken above fits False
        by (auto simp: Let_def simp del: replicate_Suc intro!: exI [of _ "?e' # r"])
    qed
  next
    case False
    with e have scan: "malloc_scan sz ((e # r) @ ?z k) =
      map_option (\<lambda>(a, gone, es). (a, gone, e # es)) (malloc_scan sz (r @ ?z k))"
      by simp
    show ?thesis
    proof (cases "malloc_scan sz (r @ ?z k)")
      case None
      with "2.IH" r False scan show ?thesis by auto
    next
      case (Some t)
      then obtain a gone es where t: "malloc_scan sz (r @ ?z k) = Some (a, gone, es)"
        by (cases t) auto
      with "2.IH" [OF r] obtain L' where L': "es = L' @ ?z (if gone then Suc k else k)"
        "map_chain ?hi L'" "ents_units L' = ents_units r - {unat a..<unat a + unat sz}"
        "{unat a..<unat a + unat sz} \<subseteq> ents_units r" "?hi < unat a"
        "\<not> gone \<longrightarrow> unat a + unat sz \<in> ents_units L'"
        "\<forall>f\<in>set r. sz \<le> m_size f \<longrightarrow> unat a \<le> unat (m_addr f)"
        by auto
      have "ent_units e \<inter> {unat a..<unat a + unat sz} = {}"
        using L'(4) above by blast
      with L' t scan e False show ?thesis
        by (auto simp del: replicate_Suc intro!: exI [of _ "e # L'"])
    qed
  qed
qed



text \<open>The number of slots never changes; a slot given up is counted in the header.\<close>

lemma unat_slots_succ:
  "Suc (unat n) < 2 ^ 32 \<Longrightarrow> unat (n + 1 :: u32) = Suc (unat n)"
  by (subst unat_plus_no_overflow) simp_all

lemma malloc_scan_length:
  "malloc_scan sz es = Some (a, gone, es') \<Longrightarrow> length es' = length es"
proof (induction es arbitrary: a gone es')
  case (Cons e r)
  have close: "length (map_close xs) = length xs" for xs
    by (induction xs rule: map_close.induct) auto
  have "length (map_shift xs) = length xs" for xs
    by (cases xs rule: map_shift.cases) (auto simp: close)
  with Cons show ?case
    by (auto simp: Let_def split: if_splits simp del: map_shift.simps)
qed simp

lemma malloc_allocates:
  assumes wf: "map_wf mp" and res: "malloc mp sz = (a, mp')" and a: "a \<noteq> 0"
  shows "map_wf mp'" "{unat a..<unat a + unat sz} \<subseteq> free_units mp"
    "free_units mp' = free_units mp - {unat a..<unat a + unat sz}"
    "e \<in> set (map_live mp) \<Longrightarrow> sz \<le> m_size e \<Longrightarrow> unat a \<le> unat (m_addr e)"
proof -
  from wf obtain L k where L: "map_ents mp = L @ replicate (Suc k) zero_ent" "map_chain 0 L"
    "k = unat (map_slots mp)" "free_units mp = ents_units L" "map_live mp = L"
    "length L + Suc k < 2 ^ 32"
    by (rule map_wfE)
  from res a obtain gone es where scan: "malloc_scan sz (map_ents mp) = Some (a, gone, es)" and
    mp': "mp' = mp\<lparr>map_ents := es, map_slots := (if gone then map_slots mp + 1 else map_slots mp)\<rparr>"
    by (auto simp: malloc_def split: option.splits)
  from scan L(1) malloc_scan_spec [OF L(2), of sz k] obtain L' where L':
    "es = L' @ replicate (Suc (if gone then Suc k else k)) zero_ent" "map_chain 0 L'"
    "ents_units L' = ents_units L - {unat a..<unat a + unat sz}"
    "{unat a..<unat a + unat sz} \<subseteq> ents_units L"
    "\<forall>e\<in>set L. sz \<le> m_size e \<longrightarrow> unat a \<le> unat (m_addr e)"
    by auto
  have len: "length L' + Suc (if gone then Suc k else k) = length L + Suc k"
    using malloc_scan_length [OF scan] L(1) L'(1) by simp
  have "map_wf mp' \<and> free_units mp' = ents_units L' \<and> map_live mp' = L'"
  proof (rule map_wfI)
    show "map_ents mp' = L' @ replicate (Suc (if gone then Suc k else k)) zero_ent"
      using mp' L'(1) by simp
    show "(if gone then Suc k else k) = unat (map_slots mp')"
      using mp' L(3) len L(6) unat_slots_succ [of "map_slots mp"] by auto
  qed (use len L(6) L'(2) in simp_all)
  with L' L show "map_wf mp'" "{unat a..<unat a + unat sz} \<subseteq> free_units mp"
    "free_units mp' = free_units mp - {unat a..<unat a + unat sz}"
    "e \<in> set (map_live mp) \<Longrightarrow> sz \<le> m_size e \<Longrightarrow> unat a \<le> unat (m_addr e)"
    by simp_all
qed

lemma malloc_leaves_room:
  assumes wf: "map_wf mp" and res: "malloc mp sz = (a, mp')" and a: "a \<noteq> 0"
  shows "map_slots mp' \<noteq> 0 \<or> unat a + unat sz \<in> free_units mp'"
    "length (map_ents mp') = length (map_ents mp)" "map_want mp' = map_want mp"
proof -
  from wf obtain L k where L: "map_ents mp = L @ replicate (Suc k) zero_ent" "map_chain 0 L"
    "k = unat (map_slots mp)" "length L + Suc k < 2 ^ 32"
    by (rule map_wfE)
  from res a obtain gone es where scan: "malloc_scan sz (map_ents mp) = Some (a, gone, es)" and
    mp': "mp' = mp\<lparr>map_ents := es, map_slots := (if gone then map_slots mp + 1 else map_slots mp)\<rparr>"
    by (auto simp: malloc_def split: option.splits)
  from scan L(1) malloc_scan_spec [OF L(2), of sz k] obtain L' where L':
    "es = L' @ replicate (Suc (if gone then Suc k else k)) zero_ent" "map_chain 0 L'"
    "\<not> gone \<longrightarrow> unat a + unat sz \<in> ents_units L'"
    by auto
  have "map_live mp' = L'" by (rule map_live_eq [OF _ L'(2)]) (use mp' L'(1) in simp)
  moreover have "gone \<Longrightarrow> unat (map_slots mp') = Suc k"
    using mp' L(3,4) unat_slots_succ [of "map_slots mp"] by simp
  ultimately show "map_slots mp' \<noteq> 0 \<or> unat a + unat sz \<in> free_units mp'"
    using L'(3) by (cases gone) (auto simp: free_units_def)
  show "length (map_ents mp') = length (map_ents mp)" "map_want mp' = map_want mp"
    using malloc_scan_length [OF scan] mp' by simp_all
qed

lemma malloc_fails:
  assumes wf: "map_wf mp" and res: "malloc mp sz = (0, mp')"
  shows "mp' = mp" "e \<in> set (map_live mp) \<Longrightarrow> m_size e < sz"
proof -
  from wf obtain L k where L: "map_ents mp = L @ replicate (Suc k) zero_ent" "map_chain 0 L"
    "map_live mp = L"
    by (rule map_wfE)
  from res L malloc_scan_spec [OF L(2), of sz k] have "malloc_scan sz (map_ents mp) = None"
    by (auto simp: malloc_def split: option.splits)
  with res L malloc_scan_spec [OF L(2), of sz k]
  show "mp' = mp" "e \<in> set (map_live mp) \<Longrightarrow> m_size e < sz"
    by (auto simp: malloc_def)
qed

lemma free_run_extent:
  assumes "map_wf mp" "{b..<b + unat sz} \<subseteq> free_units mp" "0 < sz"
  shows "\<exists>e\<in>set (map_live mp). sz \<le> m_size e \<and> unat (m_addr e) \<le> b"
proof -
  from assms(3) have pos: "0 < unat sz" by (simp add: unat_pos_iff word_gt_0)
  from assms(1) have "map_chain 0 (map_live mp)" by (simp add: map_wf_def)
  with run_in_extent [OF this _ pos] assms(2) obtain e where "e \<in> set (map_live mp)"
    "{b..<b + unat sz} \<subseteq> ent_units e" unfolding free_units_def by blast
  with run_extent_fits [OF _ pos] show ?thesis by (auto simp: word_le_nat_alt)
qed


subsection \<open>Freeing\<close>

lemma mfree_wake_cases:
  "mfree_wake m = (r, m') \<Longrightarrow> r = Freed (map_want m \<noteq> 0) \<and> m' = m\<lparr>map_want := 0\<rparr>"
  by (auto simp: mfree_wake_def split: if_splits)

lemma map_want_frame [simp]:
  "map_live (m\<lparr>map_want := w\<rparr>) = map_live m"
  "map_wf (m\<lparr>map_want := w\<rparr>) = map_wf m"
  "free_units (m\<lparr>map_want := w\<rparr>) = free_units m"
  by (simp_all add: map_live_def map_wf_def free_units_def)

lemma mfree_seek_split:
  obtains P S where "L = P @ S" "\<forall>e\<in>set P. m_addr e \<le> a"
    "S \<noteq> [] \<longrightarrow> \<not> m_addr (hd S) \<le> a"
    "(\<forall>e\<in>set L. m_size e \<noteq> 0) \<longrightarrow> mfree_seek a (L @ replicate (Suc k) zero_ent) = length P"
proof
  let ?P = "takeWhile (\<lambda>e. m_addr e \<le> a) L" and ?S = "dropWhile (\<lambda>e. m_addr e \<le> a) L"
  show "L = ?P @ ?S" by simp
  show "\<forall>e\<in>set ?P. m_addr e \<le> a" using set_takeWhileD by fastforce
  show "?S \<noteq> [] \<longrightarrow> \<not> m_addr (hd ?S) \<le> a" using hd_dropWhile by metis
  show "(\<forall>e\<in>set L. m_size e \<noteq> 0) \<longrightarrow> mfree_seek a (L @ replicate (Suc k) zero_ent) = length ?P"
    by (induction L) auto
qed

lemma map_insert_live:
  "\<forall>e\<in>set S. m_size e \<noteq> 0 \<Longrightarrow>
   map_insert n (S @ replicate (Suc k) zero_ent) = n # S @ replicate k zero_ent"
  by (induction S arbitrary: n) auto

text \<open>The last extent before the freed range ends at or before it; the next one starts after it.\<close>

lemma mfree_neighbours:
  assumes "map_chain lo (P @ S)" "\<forall>e\<in>set P. m_addr e \<le> a" "S \<noteq> [] \<longrightarrow> \<not> m_addr (hd S) \<le> a"
    "{unat a..<unat a + n} \<inter> ents_units (P @ S) = {}" "0 < n"
  shows "P \<noteq> [] \<Longrightarrow> unat (m_addr (last P)) + unat (m_size (last P)) \<le> unat a"
    and "S \<noteq> [] \<Longrightarrow> unat a + n \<le> unat (m_addr (hd S))"
proof -
  assume "P \<noteq> []"
  then have in_P: "last P \<in> set P" by simp
  with assms(2) have "unat (m_addr (last P)) \<le> unat a" by (auto simp: word_le_nat_alt)
  moreover have "unat a \<notin> ent_units (last P)"
    using assms(4,5) in_P by (fastforce simp: ents_units_def)
  ultimately show "unat (m_addr (last P)) + unat (m_size (last P)) \<le> unat a"
    by (auto simp: ent_units_def)
next
  assume "S \<noteq> []"
  then have in_S: "hd S \<in> set S" by simp
  with assms(1) map_chain_nonzero have "m_size (hd S) \<noteq> 0" by fastforce
  then have "unat (m_addr (hd S)) \<in> ent_units (hd S)" by (simp add: ent_units_def unat_pos_iff)
  with in_S assms(4) have "unat (m_addr (hd S)) \<notin> {unat a..<unat a + n}"
    by (auto simp: ents_units_def)
  moreover have "unat a < unat (m_addr (hd S))"
    using assms(3) \<open>S \<noteq> []\<close> by (auto simp: word_le_nat_alt)
  ultimately show "unat a + n \<le> unat (m_addr (hd S))" by auto
qed


text \<open>Replacing the extents around a freed range by the extents \<^verbatim>\<open>mfree\<close> leaves there.\<close>

lemma map_chain_mid:
  "map_chain lo (P @ e # S) \<longleftrightarrow>
     map_chain lo P \<and> (if P = [] then lo else unat (m_addr (last P)) + unat (m_size (last P))) < unat (m_addr e)
     \<and> m_size e \<noteq> 0 \<and> unat (m_addr e) + unat (m_size e) < 2 ^ 32
     \<and> map_chain (unat (m_addr e) + unat (m_size e)) S"
  by (simp add: map_chain_append)

lemma map_chain_last_end:
  "map_chain lo (P @ e # S) \<Longrightarrow> unat (m_addr e) + unat (m_size e) < 2 ^ 32"
  by (simp add: map_chain_mid)

lemma map_chain_grow:
  assumes chain: "map_chain lo (P @ e # S)" and grow: "unat (m_size e') = unat (m_size e) + n"
    and addr: "m_addr e' = m_addr e" and bound: "unat (m_addr e) + unat (m_size e) + n < 2 ^ 32"
    and room: "S \<noteq> [] \<longrightarrow> unat (m_addr e) + unat (m_size e) + n < unat (m_addr (hd S))"
  shows "map_chain lo (P @ e' # S)"
    and "ents_units (P @ e' # S) = ents_units (P @ e # S)
           \<union> {unat (m_addr e) + unat (m_size e)..<unat (m_addr e) + unat (m_size e) + n}"
proof -
  have "m_size e' \<noteq> 0" using grow chain by (auto simp: map_chain_mid unat_pos_iff [symmetric])
  moreover have "map_chain (unat (m_addr e) + unat (m_size e')) S"
    using room chain grow by (cases S) (auto simp: map_chain_mid)
  ultimately show "map_chain lo (P @ e' # S)"
    using chain grow addr bound by (simp add: map_chain_mid)
  have "ent_units e' = ent_units e
      \<union> {unat (m_addr e) + unat (m_size e)..<unat (m_addr e) + unat (m_size e) + n}"
    using grow addr by (auto simp: ent_units_def)
  then show "ents_units (P @ e' # S) = ents_units (P @ e # S)
      \<union> {unat (m_addr e) + unat (m_size e)..<unat (m_addr e) + unat (m_size e) + n}"
    by auto
qed

text \<open>What \<^verbatim>\<open>mfree\<close> computes, in terms of the extents before and behind the freed range.\<close>

lemma mfree_eval:
  assumes es: "map_ents mp = (P @ S) @ replicate (Suc k) zero_ent" and chain: "map_chain 0 (P @ S)"
    and seek: "mfree_seek a (map_ents mp) = length P" and slots: "k = unat (map_slots mp)"
    and bound: "unat a + unat sz < 2 ^ 32" and sz: "sz \<noteq> 0"
  defines "z \<equiv> \<lambda>n. replicate (Suc n) zero_ent"
  shows "mfree mp sz a =
    (if P \<noteq> [] \<and> m_addr (last P) + m_size (last P) = a then
       (if S \<noteq> [] \<and> a + sz = m_addr (hd S) then
          mfree_wake (mp\<lparr>map_ents := (butlast P @ (last P)\<lparr>m_size := m_size (last P) + sz + m_size (hd S)\<rparr> # tl S) @ z (Suc k),
                         map_slots := map_slots mp + 1\<rparr>)
        else mfree_wake (mp\<lparr>map_ents := (butlast P @ (last P)\<lparr>m_size := m_size (last P) + sz\<rparr> # S) @ z k\<rparr>))
     else if S \<noteq> [] \<and> a + sz = m_addr (hd S) then
       mfree_wake (mp\<lparr>map_ents := (P @ \<lparr>m_size = m_size (hd S) + sz, m_addr = m_addr (hd S) - sz\<rparr> # tl S) @ z k\<rparr>)
     else if k = 0 then (Lost, mp)
     else mfree_wake (mp\<lparr>map_ents := (P @ \<lparr>m_size = sz, m_addr = a\<rparr> # S) @ z (k - 1), map_slots := map_slots mp - 1\<rparr>))"
proof -
  define bp where "bp = hd (S @ replicate (Suc k) zero_ent)"
  have nz: "\<forall>e\<in>set S. m_size e \<noteq> 0" using map_chain_nonzero [OF chain] by simp
  have nth_bp: "map_ents mp ! length P = bp" by (simp add: bp_def es nth_append hd_conv_nth)
  have pr: "map_ents mp ! (length P - Suc 0) = last P" if "P \<noteq> []" using that
    by (simp add: es nth_append last_conv_nth)
  have split: "take (length P) (map_ents mp) = P" "drop (length P) (map_ents mp) = S @ z k"
    "take (length P - Suc 0) (map_ents mp) = butlast P"
    by (simp_all add: es butlast_conv_take z_def del: replicate_Suc)
  have "unat (a + sz) \<noteq> 0" using bound sz by (simp add: unat_plus_no_overflow unat_pos_iff)
  then have "a + sz \<noteq> 0" by auto
  then have touch: "a + sz = m_addr bp \<longleftrightarrow> S \<noteq> [] \<and> a + sz = m_addr (hd S)"
    by (cases S) (auto simp: bp_def)
  have live: "m_size bp \<noteq> 0 \<longleftrightarrow> S \<noteq> []" and hd_bp: "S \<noteq> [] \<Longrightarrow> bp = hd S"
    using nz by (cases S; auto simp: bp_def)+
  have upd: "(map_ents mp)[length P - Suc 0 := e] = (butlast P @ e # S) @ z k" if "P \<noteq> []" for e
    using that unfolding es z_def
    by (cases P rule: rev_cases) (auto simp: list_update_append simp del: replicate_Suc)
  have upd': "(map_ents mp)[length P := e] = (P @ e # tl S) @ z k" if "S \<noteq> []" for e
    using that unfolding es z_def by (cases S) (auto simp: list_update_append simp del: replicate_Suc)
  have close: "map_close (S @ z k) = tl S @ z (Suc k)" if "S \<noteq> []"
    using that nz map_close_live [of "tl S" "hd S" k] by (cases S) (auto simp: z_def simp del: map_close.simps replicate_Suc)
  have ins: "map_insert n (S @ z k) = n # S @ z (k - 1)" if "k \<noteq> 0" for n
    using that map_insert_live [OF nz, of n k] by (cases k) (auto simp: z_def)
  have none: "map_slots mp = 0 \<longleftrightarrow> k = 0" using slots by (simp add: unat_eq_zero)
  show ?thesis
  proof (cases "P \<noteq> [] \<and> m_addr (last P) + m_size (last P) = a")
    case True
    then show ?thesis
      by (simp add: mfree_def Let_def seek nth_bp split pr upd close touch hd_bp sz del: map_close.simps)
  next
    case apart: False
    then have no_pr: "\<not> (0 < length P \<and> m_addr (map_ents mp ! (length P - 1)) + m_size (map_ents mp ! (length P - 1)) = a)"
      using pr by auto
    note mfree = mfree_def [of mp sz a, unfolded Let_def seek nth_bp if_not_P [OF no_pr]]
    show ?thesis
    proof (cases "S \<noteq> [] \<and> a + sz = m_addr (hd S)")
      case True
      then have "a + sz = m_addr bp \<and> m_size bp \<noteq> 0" "bp = hd S" using touch live hd_bp by auto
      with True show ?thesis
        unfolding if_not_P [OF apart] mfree by (simp add: upd')
    next
      case False
      then have no_bp: "\<not> (a + sz = m_addr bp \<and> m_size bp \<noteq> 0)" using touch by blast
      show ?thesis
        unfolding if_not_P [OF apart] if_not_P [OF False] mfree if_not_P [OF no_bp] split
        by (simp add: ins none sz)
    qed
  qed
qed


lemma map_chain_insert:
  assumes "map_chain lo (P @ S)" "lo < unat a"
    "P \<noteq> [] \<longrightarrow> unat (m_addr (last P)) + unat (m_size (last P)) < unat a"
    "S \<noteq> [] \<longrightarrow> unat a + unat n < unat (m_addr (hd S))" "n \<noteq> 0" "unat a + unat n < 2 ^ 32"
  shows "map_chain lo (P @ \<lparr>m_size = n, m_addr = a\<rparr> # S)"
    and "ents_units (P @ \<lparr>m_size = n, m_addr = a\<rparr> # S) = ents_units (P @ S) \<union> {unat a..<unat a + unat n}"
proof -
  have "map_chain (unat a + unat n) S" using assms by (cases S) (auto simp: map_chain_append)
  with assms show "map_chain lo (P @ \<lparr>m_size = n, m_addr = a\<rparr> # S)"
    by (simp add: map_chain_mid) (simp add: map_chain_append)
qed (auto simp: ent_units_def)

lemma map_chain_drop_mid: "map_chain lo (P @ e # S) \<Longrightarrow> map_chain lo (P @ S)"
  by (cases S) (auto simp: map_chain_append)

text \<open>
  The four ways a range is put back: it closes the gap between two extents, extends the one
  before it, extends the one behind it, or becomes an extent of its own.
\<close>

lemma join_both:
  fixes a sz :: u32
  assumes chain: "map_chain 0 (P' @ p # f # S')"
    and p: "unat (m_addr p) + unat (m_size p) = unat a" and f: "unat a + unat sz = unat (m_addr f)"
  defines "L' \<equiv> P' @ p\<lparr>m_size := m_size p + sz + m_size f\<rparr> # S'"
  shows "map_chain 0 L'"
    and "ents_units L' = ents_units (P' @ p # f # S') \<union> {unat a..<unat a + unat sz}"
proof -
  have tail: "unat (m_addr f) + unat (m_size f) < 2 ^ 32"
    "S' \<noteq> [] \<longrightarrow> unat (m_addr f) + unat (m_size f) < unat (m_addr (hd S'))"
    using chain by (cases S'; auto simp: map_chain_mid)+
  have drop: "map_chain 0 (P' @ p # S')"
    using map_chain_drop_mid [of 0 "P' @ [p]" f S'] chain by simp
  have grow: "unat (m_size p + sz + m_size f) = unat (m_size p) + (unat sz + unat (m_size f))"
    using p f tail(1) by (subst u32_add; subst u32_add; simp)
  note * = map_chain_grow [OF drop, of "p\<lparr>m_size := m_size p + sz + m_size f\<rparr>" "unat sz + unat (m_size f)"]
  show "map_chain 0 L'"
    unfolding L'_def by (rule *(1)) (use grow p f tail in auto)
  show "ents_units L' = ents_units (P' @ p # f # S') \<union> {unat a..<unat a + unat sz}"
    unfolding L'_def by (subst *(2)) (use grow p f tail in \<open>auto simp: ent_units_def\<close>)
qed

lemma join_prev:
  fixes a sz :: u32
  assumes chain: "map_chain 0 (P' @ p # S)"
    and p: "unat (m_addr p) + unat (m_size p) = unat a" and bound: "unat a + unat sz < 2 ^ 32"
    and room: "S \<noteq> [] \<longrightarrow> unat a + unat sz < unat (m_addr (hd S))"
  defines "L' \<equiv> P' @ p\<lparr>m_size := m_size p + sz\<rparr> # S"
  shows "map_chain 0 L'" and "ents_units L' = ents_units (P' @ p # S) \<union> {unat a..<unat a + unat sz}"
proof -
  have grow: "unat (m_size p + sz) = unat (m_size p) + unat sz"
    using p bound by (subst u32_add) simp_all
  note * = map_chain_grow [OF chain, of "p\<lparr>m_size := m_size p + sz\<rparr>" "unat sz"]
  show "map_chain 0 L'" unfolding L'_def by (rule *(1)) (use grow p bound room in auto)
  show "ents_units L' = ents_units (P' @ p # S) \<union> {unat a..<unat a + unat sz}"
    unfolding L'_def by (subst *(2)) (use grow p bound room in auto)
qed

lemma join_next:
  fixes a sz :: u32
  assumes chain: "map_chain 0 (P @ f # S')" and f: "unat a + unat sz = unat (m_addr f)"
    and prev: "P \<noteq> [] \<longrightarrow> unat (m_addr (last P)) + unat (m_size (last P)) < unat a"
    and sz: "sz \<noteq> 0" and a: "a \<noteq> 0"
  defines "L' \<equiv> P @ \<lparr>m_size = m_size f + sz, m_addr = m_addr f - sz\<rparr> # S'"
  shows "map_chain 0 L'" and "ents_units L' = ents_units (P @ f # S') \<union> {unat a..<unat a + unat sz}"
proof -
  have tail: "unat (m_addr f) + unat (m_size f) < 2 ^ 32"
    "S' \<noteq> [] \<longrightarrow> unat (m_addr f) + unat (m_size f) < unat (m_addr (hd S'))"
    using chain by (cases S'; auto simp: map_chain_mid)+
  have base: "m_addr f - sz = a"
    using f u32_less [of "m_addr f"] u32_add_eq_iff [of a sz "m_addr f"] by (simp add: algebra_simps)
  have len: "unat (m_size f + sz) = unat sz + unat (m_size f)"
    using tail(1) f by (subst u32_add) auto
  note ins = map_chain_insert [OF map_chain_drop_mid [OF chain], of a sz]
  have ins1: "map_chain 0 (P @ \<lparr>m_size = sz, m_addr = a\<rparr> # S')"
    by (rule ins(1)) (use prev tail f sz a in \<open>auto simp: unat_pos_iff\<close>)
  have ins2: "ents_units (P @ \<lparr>m_size = sz, m_addr = a\<rparr> # S') = ents_units (P @ S') \<union> {unat a..<unat a + unat sz}"
    by (rule ins(2)) (use prev tail f sz a in \<open>auto simp: unat_pos_iff\<close>)
  note * = map_chain_grow [OF ins1, of "\<lparr>m_size = m_size f + sz, m_addr = a\<rparr>" "unat (m_size f)"]
  show "map_chain 0 L'" unfolding L'_def base by (rule *(1)) (use len f tail in auto)
  show "ents_units L' = ents_units (P @ f # S') \<union> {unat a..<unat a + unat sz}"
    unfolding L'_def base by (subst *(2)) (use len f tail ins2 in \<open>auto simp: ent_units_def\<close>)
qed


text \<open>The four outcomes of \<^verbatim>\<open>mfree\<close> in one statement about the extents left.\<close>

lemma mfree_outcome:
  assumes es: "map_ents mp = (P @ S) @ replicate (Suc k) zero_ent" and chain: "map_chain 0 (P @ S)"
    and seek: "mfree_seek a (map_ents mp) = length P" and k: "k = unat (map_slots mp)"
    and bound: "unat a + unat sz < 2 ^ 32" and sz: "sz \<noteq> 0" and a: "a \<noteq> 0"
    and len: "length (P @ S) + Suc k < 2 ^ 32"
    and ends: "P \<noteq> [] \<Longrightarrow> unat (m_addr (last P)) + unat (m_size (last P)) \<le> unat a"
      "S \<noteq> [] \<Longrightarrow> unat a + unat sz \<le> unat (m_addr (hd S))"
    and kept: "fst (mfree mp sz a) \<noteq> Lost"
  shows "\<exists>L' k' s'. mfree mp sz a
      = mfree_wake (mp\<lparr>map_ents := L' @ replicate (Suc k') zero_ent, map_slots := s'\<rparr>)
    \<and> map_chain 0 L' \<and> ents_units L' = ents_units (P @ S) \<union> {unat a..<unat a + unat sz}
    \<and> k' = unat s' \<and> length L' + Suc k' = length (P @ S) + Suc k"
proof -
  have up: "unat (map_slots mp + 1) = Suc k" if "P @ S \<noteq> []"
    using that k len by (intro trans [OF unat_slots_succ]) (cases "P @ S"; simp)+
  have next_addr: "a + sz = w \<longleftrightarrow> unat a + unat sz = unat w" for w :: u32
    using bound by (rule u32_add_eq_iff)
  have prev_end: "m_addr (last P) + m_size (last P) = a \<longleftrightarrow>
      unat (m_addr (last P)) + unat (m_size (last P)) = unat a" if "P \<noteq> []"
    using ends(1) that u32_less [of a] by (intro u32_add_eq_iff) simp
  have P: "P \<noteq> [] \<Longrightarrow> P = butlast P @ [last P]" and S: "S \<noteq> [] \<Longrightarrow> S = hd S # tl S" by simp_all
  note eval = mfree_eval [OF es chain seek k bound sz]
  show ?thesis
  proof (cases "P \<noteq> [] \<and> m_addr (last P) + m_size (last P) = a")
    case join: True
    with prev_end have p: "unat (m_addr (last P)) + unat (m_size (last P)) = unat a" by blast
    show ?thesis
    proof (cases "S \<noteq> [] \<and> a + sz = m_addr (hd S)")
      case True
      with next_addr have f: "unat a + unat sz = unat (m_addr (hd S))" by blast
      have "map_chain 0 (butlast P @ last P # hd S # tl S)" and PS: "butlast P @ last P # hd S # tl S = P @ S"
        using chain join True by simp_all
      note j = join_both [OF this(1) p f, unfolded PS]
      show ?thesis
        unfolding eval if_P [OF join] if_P [OF True]
        by (intro exI conjI, rule refl, rule j, rule j, rule up [symmetric])
          (use join True in \<open>cases S; simp\<close>)+
    next
      case False
      have "map_chain 0 (butlast P @ last P # S)" and PS: "butlast P @ last P # S = P @ S"
        using chain join by simp_all
      note j = join_prev [OF this(1) p bound, unfolded PS]
      show ?thesis
        unfolding eval if_P [OF join] if_not_P [OF False]
        using j False ends next_addr k join
        by (intro exI [of _ "butlast P @ (last P)\<lparr>m_size := m_size (last P) + sz\<rparr> # S"]
              exI [of _ k] exI [of _ "map_slots mp"]) (auto simp: le_less)
    qed
  next
    case apart: False
    then have prev: "P \<noteq> [] \<longrightarrow> unat (m_addr (last P)) + unat (m_size (last P)) < unat a"
      using ends(1) prev_end by (auto simp: le_less)
    show ?thesis
    proof (cases "S \<noteq> [] \<and> a + sz = m_addr (hd S)")
      case True
      with next_addr have f: "unat a + unat sz = unat (m_addr (hd S))" by blast
      have "map_chain 0 (P @ hd S # tl S)" using chain True by simp
      note j = join_next [OF this f prev sz a]
      show ?thesis
        unfolding eval if_not_P [OF apart] if_P [OF True]
        using j True k
        by (intro exI [of _ "P @ \<lparr>m_size = m_size (hd S) + sz, m_addr = m_addr (hd S) - sz\<rparr> # tl S"]
              exI [of _ k] exI [of _ "map_slots mp"]) (cases S; auto)
    next
      case False
      have k0: "k \<noteq> 0"
        using kept unfolding eval if_not_P [OF apart] if_not_P [OF False] by (cases "k = 0") auto
      then have "1 \<le> map_slots mp" using k by (simp add: word_le_nat_alt)
      from unat_minus_le [OF this] have down: "unat (map_slots mp - 1) = k - 1" using k by simp
      have next': "S \<noteq> [] \<longrightarrow> unat a + unat sz < unat (m_addr (hd S))"
        using False ends(2) next_addr by (auto simp: le_less)
      have "0 < unat a" using a by (simp add: unat_pos_iff)
      note j = map_chain_insert [OF chain this prev next' sz bound]
      show ?thesis
        unfolding eval if_not_P [OF apart] if_not_P [OF False] if_not_P [OF k0]
        using j down k0
        by (intro exI [of _ "P @ \<lparr>m_size = sz, m_addr = a\<rparr> # S"] exI [of _ "k - 1"]
              exI [of _ "map_slots mp - 1"]) auto
    qed
  qed
qed

lemma mfree_frees:
  assumes wf: "map_wf mp" and sz: "sz \<noteq> 0" and a: "a \<noteq> 0" and bound: "unat a + unat sz < 2 ^ 32"
    and fresh: "{unat a..<unat a + unat sz} \<inter> free_units mp = {}"
    and res: "mfree mp sz a = (Freed w, mp')"
  shows "map_wf mp' \<and> free_units mp' = free_units mp \<union> {unat a..<unat a + unat sz}
         \<and> w = (map_want mp \<noteq> 0) \<and> map_want mp' = 0 \<and> length (map_ents mp') = length (map_ents mp)"
proof -
  from wf obtain L k where L: "map_ents mp = L @ replicate (Suc k) zero_ent" "map_chain 0 L"
    "k = unat (map_slots mp)" "free_units mp = ents_units L" "length L + Suc k < 2 ^ 32"
    by (rule map_wfE)
  obtain P S where PS: "L = P @ S" "\<forall>e\<in>set P. m_addr e \<le> a" "S \<noteq> [] \<longrightarrow> \<not> m_addr (hd S) \<le> a"
    "(\<forall>e\<in>set L. m_size e \<noteq> 0) \<longrightarrow> mfree_seek a (L @ replicate (Suc k) zero_ent) = length P"
    by (rule mfree_seek_split)
  have pos: "0 < unat sz" using sz by (simp add: unat_pos_iff)
  have chain: "map_chain 0 (P @ S)" using L(2) PS(1) by simp
  note ends = mfree_neighbours [OF chain PS(2,3), of "unat sz"]
  from L PS pos fresh res mfree_outcome [of mp P S k a sz, OF _ chain _ _ bound sz a]
  obtain L' k' s' where out: "mfree mp sz a
      = mfree_wake (mp\<lparr>map_ents := L' @ replicate (Suc k') zero_ent, map_slots := s'\<rparr>)"
    "map_chain 0 L'" "ents_units L' = ents_units (P @ S) \<union> {unat a..<unat a + unat sz}"
    "k' = unat s'" "length L' + Suc k' = length (P @ S) + Suc k"
    using ends map_chain_nonzero [OF L(2)] by auto
  let ?m = "mp\<lparr>map_ents := L' @ replicate (Suc k') zero_ent, map_slots := s'\<rparr>"
  have "map_wf ?m \<and> free_units ?m = ents_units L' \<and> map_live ?m = L'"
    by (rule map_wfI) (use out L(5) PS(1) in auto)
  with res out L(1,4) PS(1) show ?thesis by (auto dest!: mfree_wake_cases)
qed

text \<open>A map that gave a range out always has room to take it back.\<close>

lemma mfree_not_lost:
  assumes wf: "map_wf mp" and sz: "sz \<noteq> 0" and a: "a \<noteq> 0" and bound: "unat a + unat sz < 2 ^ 32"
    and fresh: "{unat a..<unat a + unat sz} \<inter> free_units mp = {}"
    and room: "map_slots mp \<noteq> 0 \<or> unat a + unat sz \<in> free_units mp"
  shows "fst (mfree mp sz a) \<noteq> Lost"
proof
  assume lost: "fst (mfree mp sz a) = Lost"
  from wf obtain L k where L: "map_ents mp = L @ replicate (Suc k) zero_ent" "map_chain 0 L"
    "k = unat (map_slots mp)" "free_units mp = ents_units L"
    by (rule map_wfE)
  obtain P S where PS: "L = P @ S" "\<forall>e\<in>set P. m_addr e \<le> a" "S \<noteq> [] \<longrightarrow> \<not> m_addr (hd S) \<le> a"
    "(\<forall>e\<in>set L. m_size e \<noteq> 0) \<longrightarrow> mfree_seek a (L @ replicate (Suc k) zero_ent) = length P"
    by (rule mfree_seek_split)
  have chain: "map_chain 0 (P @ S)" using L(2) PS(1) by simp
  have pos: "0 < unat sz" using sz by (simp add: unat_pos_iff)
  note ends = mfree_neighbours [OF chain PS(2,3), of "unat sz"]
  have "mfree_seek a (map_ents mp) = length P" using PS(4) map_chain_nonzero [OF L(2)] L(1) by simp
  from mfree_eval [OF L(1) [unfolded PS(1)] chain this L(3) bound sz] lost
  have k: "k = 0" and apart: "S \<noteq> [] \<Longrightarrow> a + sz \<noteq> m_addr (hd S)"
    by (auto simp: mfree_wake_def split: if_splits)
  from k L(3,4) PS(1) room have at: "unat a + unat sz \<in> ents_units P \<union> ents_units S"
    by (simp add: unat_eq_zero)
  have "unat a + unat sz \<notin> ents_units P"
  proof
    assume "unat a + unat sz \<in> ents_units P"
    then obtain e where e: "e \<in> set P" "unat a + unat sz \<in> ent_units e" by (auto simp: ents_units_def)
    with PS(2) have "unat a \<in> ent_units e" by (auto simp: ent_units_def word_le_nat_alt)
    with e(1) L(4) PS(1) have "unat a \<in> free_units mp" by (auto simp: ents_units_def)
    moreover from pos have "unat a \<in> {unat a..<unat a + unat sz}" by simp
    ultimately show False using fresh by blast
  qed
  with at have in_S: "unat a + unat sz \<in> ents_units S" by blast
  then obtain f S' where S: "S = f # S'" by (cases S) auto
  then have "map_chain (unat (m_addr f) - 1) S" using chain by (cases P) (auto simp: map_chain_append)
  with in_S have "unat (m_addr f) - 1 < unat a + unat sz" using map_chain_above by blast
  then have "unat a + unat sz = unat (m_addr f)"
    using ends(2) fresh L(4) PS(1) pos S by fastforce
  with apart S bound show False by (simp add: u32_add_eq_iff)
qed

text \<open>Coalesced maps are canonical: the extents are determined by the free units.\<close>

lemma map_chain_head:
  assumes "map_chain lo (e # r)"
  shows "unat (m_addr e) \<in> ents_units (e # r)"
    and "x \<in> ents_units (e # r) \<Longrightarrow> unat (m_addr e) \<le> x"
    and "unat (m_addr e) + unat (m_size e) \<notin> ents_units (e # r)"
    and "ents_units r = ents_units (e # r) - ent_units e"
  using assms map_chain_above [of "unat (m_addr e) + unat (m_size e)" r]
  by (fastforce simp: ent_units_def unat_pos_iff)+

lemma map_chain_canonical:
  "\<lbrakk>map_chain lo L; map_chain lo' L'; ents_units L = ents_units L'\<rbrakk> \<Longrightarrow> L = L'"
proof (induction L arbitrary: lo lo' L')
  case Nil
  then show ?case using map_chain_head(1) by (cases L') fastforce+
next
  case (Cons e r)
  then obtain e' r' where L': "L' = e' # r'" using map_chain_head(1) [OF Cons.prems(1)] by (cases L') auto
  note h = map_chain_head [OF Cons.prems(1)]
  note h' = map_chain_head [OF Cons.prems(2) [unfolded L']]
  note same = Cons.prems(3) [unfolded L']
  have addr: "unat (m_addr e) = unat (m_addr e')"
    using h(1,2) h'(1,2) same by (metis le_antisym)
  have "\<not> unat (m_size e) < unat (m_size e')"
  proof
    assume "unat (m_size e) < unat (m_size e')"
    then have "unat (m_addr e) + unat (m_size e) \<in> ent_units e'" using addr by (simp add: ent_units_def)
    with same h(3) show False by auto
  qed
  moreover have "\<not> unat (m_size e') < unat (m_size e)"
  proof
    assume "unat (m_size e') < unat (m_size e)"
    then have "unat (m_addr e') + unat (m_size e') \<in> ent_units e" using addr by (simp add: ent_units_def)
    with same h'(3) show False by auto
  qed
  ultimately have e: "e = e'" using addr by (simp add: word_unat_eq_iff)
  moreover have "ents_units r = ents_units r'" using h(4) h'(4) same e by metis
  ultimately show ?case using Cons.IH [of _ _ r'] Cons.prems(1,2) L' by auto
qed

lemma map_wf_canonical:
  assumes "map_wf m" "map_wf m'" "free_units m = free_units m'"
    "length (map_ents m) = length (map_ents m')"
  shows "map_ents m = map_ents m' \<and> map_slots m = map_slots m'"
proof -
  obtain L k where L: "map_ents m = L @ replicate (Suc k) zero_ent" "map_chain 0 L"
    "k = unat (map_slots m)" "free_units m = ents_units L" using assms(1) by (rule map_wfE)
  obtain L' k' where L': "map_ents m' = L' @ replicate (Suc k') zero_ent" "map_chain 0 L'"
    "k' = unat (map_slots m')" "free_units m' = ents_units L'" using assms(2) by (rule map_wfE)
  have "L = L'" using map_chain_canonical [OF L(2) L'(2)] L(4) L'(4) assms(3) by simp
  with L L' assms(4) show ?thesis by (auto simp: word_unat_eq_iff)
qed

lemma mfree_lost:
  assumes "mfree mp sz a = (Lost, mp')"
  shows "mp' = mp \<and> map_slots mp = 0"
  using assms by (auto simp: mfree_def mfree_wake_def Let_def split: if_splits)


subsection \<open>Carving out a given range\<close>

lemma map_open_live:
  assumes "\<forall>x\<in>set L. m_size x \<noteq> 0"
  shows "map_open e (L @ replicate (Suc (Suc k)) zero_ent) = e # L @ replicate (Suc k) zero_ent"
  using assms
proof (induction L arbitrary: e)
  case Nil
  have "zero_ent\<lparr>m_size := 0\<rparr> = zero_ent" by (simp add: zero_ent_def)
  then show ?case by simp
qed simp

text \<open>The extent that holds the range loses its front, its back, its middle, or goes away.\<close>

lemma malloc_at_within:
  assumes chain: "map_chain lo (e # r)" and sz: "sz \<noteq> 0"
    and bound: "unat addr + unat sz < 2 ^ 32" and k: "k = unat slots"
    and within: "m_addr e \<le> addr" "addr + sz \<le> m_addr e + m_size e"
  shows "case malloc_at_scan slots addr sz ((e # r) @ replicate (Suc k) zero_ent) of
      At_no \<Rightarrow> \<not> {unat addr..<unat addr + unat sz} \<subseteq> ents_units (e # r)
    | At_panic \<Rightarrow> k = 0 \<and> {unat addr..<unat addr + unat sz} \<subseteq> ents_units (e # r)
    | At_ok es d \<Rightarrow> (\<exists>L'. es = L' @ replicate (Suc (nat (int k + d))) zero_ent \<and> -1 \<le> d \<and> d \<le> 1
          \<and> 0 \<le> int k + d \<and> int (length L') + d = int (length (e # r))
          \<and> map_chain lo L' \<and> {unat addr..<unat addr + unat sz} \<subseteq> ents_units (e # r)
          \<and> ents_units L' = ents_units (e # r) - {unat addr..<unat addr + unat sz})"
proof -
  let ?A = "{unat addr..<unat addr + unat sz}" and ?hi = "unat (m_addr e) + unat (m_size e)"
  let ?z = "\<lambda>n. replicate (Suc n) zero_ent"
  from chain have e: "lo < unat (m_addr e)" "m_size e \<noteq> 0" "?hi < 2 ^ 32" and r: "map_chain ?hi r"
    by auto
  have pos: "0 < unat sz" using sz by (simp add: unat_pos_iff)
  have sum: "unat (addr + sz) = unat addr + unat sz" "unat (m_addr e + m_size e) = ?hi"
    using bound e(3) by (simp_all add: u32_add)
  have in_e: "unat (m_addr e) \<le> unat addr" "unat addr + unat sz \<le> ?hi"
    using within sum by (simp_all add: word_le_nat_alt)
  then have A: "?A \<subseteq> ent_units e" by (auto simp: ent_units_def)
  have apart: "ents_units r \<inter> ?A = {}"
    using A map_chain_above [OF r] in_e by (fastforce simp: ent_units_def)
  have nz: "\<forall>x\<in>set r. m_size x \<noteq> 0" using r by (rule map_chain_nonzero)
  have scan: "malloc_at_scan slots addr sz ((e # r) @ ?z k) =
    (if m_addr e = addr then
       (let e' = e\<lparr>m_addr := m_addr e + sz, m_size := m_size e - sz\<rparr> in
        if m_size e' = 0 then At_ok (map_shift (e' # r @ ?z k)) 1 else At_ok (e' # r @ ?z k) 0)
     else if addr + sz \<noteq> m_addr e + m_size e then
       (if slots = 0 then At_panic
        else let left = addr - m_addr e in
          At_ok (e\<lparr>m_size := left\<rparr>
                 # map_open \<lparr>m_size = m_size e - (sz + left), m_addr = addr + sz\<rparr> (r @ ?z k)) (-1))
     else At_ok (e\<lparr>m_size := addr - m_addr e\<rparr> # r @ ?z k) 0)"
    using within e(2) by (auto simp: not_less)
  have left: "unat (addr - m_addr e) = unat addr - unat (m_addr e)"
    using within(1) by (rule unat_minus_le)
  show ?thesis
  proof (cases "m_addr e = addr")
    case front: True
    then have "sz \<le> m_size e" using in_e by (simp add: word_le_nat_alt)
    then have rest: "unat (m_size e - sz) = unat (m_size e) - unat sz" by (rule unat_minus_le)
    show ?thesis
    proof (cases "m_size e = sz")
      case True
      then have "ent_units e = ?A" using front by (auto simp: ent_units_def)
      then show ?thesis
        unfolding scan using front True apart e
        by (auto simp: map_shift_live [OF nz] nat_add_distrib simp del: map_shift.simps replicate_Suc
            intro!: exI [of _ r] map_chain_mono [OF r])
    next
      case False
      have "?hi = unat addr + unat sz + unat (m_size e - sz)" using rest in_e front by simp
      then show ?thesis
        unfolding scan using front False apart A e r sum rest
        by (auto simp: Let_def ent_units_def simp del: replicate_Suc
            intro!: exI [of _ "\<lparr>m_size = m_size e - sz, m_addr = addr + sz\<rparr> # r"])
    qed
  next
    case inner: False
    then have "unat (m_addr e) < unat addr" using in_e(1) by (simp add: word_unat_eq_iff)
    then have left0: "addr - m_addr e \<noteq> 0" using inner by simp
    show ?thesis
    proof (cases "addr + sz = m_addr e + m_size e")
      case True
      then have "?hi = unat addr + unat sz" using sum by simp
      with True show ?thesis
        unfolding scan using inner apart A e r left left0 in_e
        by (auto simp: ent_units_def simp del: replicate_Suc intro: map_chain_mono
            intro!: exI [of _ "e\<lparr>m_size := addr - m_addr e\<rparr> # r"])
    next
      case False
      define right where "right = \<lparr>m_size = m_size e - (sz + (addr - m_addr e)), m_addr = addr + sz\<rparr>"
      have short: "unat addr + unat sz < ?hi" using False in_e(2) sum by (auto simp: word_unat_eq_iff)
      have cut: "unat (sz + (addr - m_addr e)) = unat sz + unat (addr - m_addr e)"
        using left in_e e(3) by (intro u32_add) simp
      then have "sz + (addr - m_addr e) \<le> m_size e" using left in_e by (simp add: word_le_nat_alt)
      from unat_minus_le [OF this] have size: "unat (m_size right) = ?hi - (unat addr + unat sz)"
        using cut left in_e by (simp add: right_def)
      have addr: "unat (m_addr right) = unat addr + unat sz" using sum by (simp add: right_def)
      have "m_size right \<noteq> 0" using size short by (auto simp flip: unat_pos_iff)
      then have chain': "map_chain lo (e\<lparr>m_size := addr - m_addr e\<rparr> # right # r)"
        using e r left left0 size addr in_e pos short by simp
      have units: "ents_units (e\<lparr>m_size := addr - m_addr e\<rparr> # right # r) = ents_units (e # r) - ?A"
        using left size addr in_e short apart by (auto simp: ent_units_def)
      show ?thesis
      proof (cases k)
        case 0
        then have "slots = 0" using k by (simp add: unat_eq_zero)
        with 0 A show ?thesis unfolding scan using inner False by auto
      next
        case (Suc k')
        then have "slots \<noteq> 0" using k by auto
        moreover have "?A \<subseteq> ents_units (e # r)" using A by auto
        ultimately show ?thesis using Suc chain' units
          unfolding scan right_def using inner False
          by (auto simp: Let_def map_open_live [OF nz] simp del: replicate_Suc map_open.simps map_chain.simps ents_units_simps
              intro!: exI [of _ "e\<lparr>m_size := addr - m_addr e\<rparr> # right # r"] simp flip: right_def)
      qed
    qed
  qed
qed

text \<open>
  The scan of \<^verbatim>\<open>malloc_at\<close> on a well-formed array: it fails exactly when the range is not
  free as a whole, panics only for want of a slot, and otherwise takes exactly the range.
\<close>

lemma malloc_at_scan_spec:
  assumes "map_chain lo L" "sz \<noteq> 0" "unat addr + unat sz < 2 ^ 32" "k = unat slots"
  shows "case malloc_at_scan slots addr sz (L @ replicate (Suc k) zero_ent) of
      At_no \<Rightarrow> \<not> {unat addr..<unat addr + unat sz} \<subseteq> ents_units L
    | At_panic \<Rightarrow> k = 0 \<and> {unat addr..<unat addr + unat sz} \<subseteq> ents_units L
    | At_ok es d \<Rightarrow> (\<exists>L'. es = L' @ replicate (Suc (nat (int k + d))) zero_ent \<and> -1 \<le> d \<and> d \<le> 1
          \<and> 0 \<le> int k + d \<and> int (length L') + d = int (length L)
          \<and> map_chain lo L' \<and> {unat addr..<unat addr + unat sz} \<subseteq> ents_units L
          \<and> ents_units L' = ents_units L - {unat addr..<unat addr + unat sz})"
  using assms(1)
proof (induction lo L rule: map_chain.induct)
  case (1 lo)
  have "0 < unat sz" using assms(2) by (simp add: unat_pos_iff)
  then show ?case by auto
next
  case (2 lo e r)
  let ?A = "{unat addr..<unat addr + unat sz}" and ?hi = "unat (m_addr e) + unat (m_size e)"
  let ?z = "\<lambda>n. replicate (Suc n) zero_ent"
  from "2.prems" have e: "lo < unat (m_addr e)" "m_size e \<noteq> 0" "?hi < 2 ^ 32" and r: "map_chain ?hi r"
    by auto
  have pos: "0 < unat sz" using assms(2) by (simp add: unat_pos_iff)
  have sum: "unat (addr + sz) = unat addr + unat sz" "unat (m_addr e + m_size e) = ?hi"
    using assms(3) e(3) by (simp_all add: u32_add)
  have above: "\<forall>x\<in>ents_units r. ?hi < x" using map_chain_above [OF r] by blast
  consider (below) "addr < m_addr e" | (within) "m_addr e \<le> addr" "addr + sz \<le> m_addr e + m_size e"
    | (beyond) "m_addr e \<le> addr" "\<not> addr + sz \<le> m_addr e + m_size e" by fastforce
  then show ?case
  proof cases
    case below
    then have "unat addr \<notin> ents_units (e # r)"
      using above by (fastforce simp: word_less_nat_alt ent_units_def)
    with pos have "\<not> ?A \<subseteq> ents_units (e # r)" by fastforce
    with below e(2) show ?thesis by (simp del: replicate_Suc ents_units_simps)
  next
    case within
    show ?thesis
      using malloc_at_within [where lo = lo and e = e and r = r and addr = addr and sz = sz
          and slots = slots and k = k] "2.prems" within assms by simp
  next
    case beyond
    have out: "?A \<subseteq> ents_units (e # r) \<longleftrightarrow> ?A \<subseteq> ents_units r"
    proof
      assume "?A \<subseteq> ents_units (e # r)"
      then have "?A \<subseteq> ent_units e \<or> ?A \<subseteq> ents_units r"
        using above pos by (intro interval_split [of _ _ _ _ ?hi]) (auto simp: ent_units_def)
      then show "?A \<subseteq> ents_units r"
        using beyond(2) sum pos run_extent_fits [of "unat addr" "unat sz" e]
        by (auto simp: word_le_nat_alt ent_units_def ivl_subset)
    qed auto
    have apart: "?A \<inter> ent_units e = {}" if "?A \<subseteq> ents_units r"
      using that above by (fastforce simp: ent_units_def)
    have scan: "malloc_at_scan slots addr sz ((e # r) @ ?z k) =
      (case malloc_at_scan slots addr sz (r @ ?z k) of At_ok es d \<Rightarrow> At_ok (e # es) d | res \<Rightarrow> res)"
      using beyond e(2) by (auto simp: not_less)
    show ?thesis
    proof (cases "malloc_at_scan slots addr sz (r @ ?z k)")
      case (At_ok es d)
      with "2.IH" [OF r] obtain L' where L': "es = L' @ ?z (nat (int k + d))" "-1 \<le> d" "d \<le> 1"
        "0 \<le> int k + d" "int (length L') + d = int (length r)" "map_chain ?hi L'"
        "?A \<subseteq> ents_units r" "ents_units L' = ents_units r - ?A" by auto
      have "ents_units (e # L') = ents_units (e # r) - ?A" using L'(7,8) apart by auto
      with L' out e show ?thesis
        unfolding scan At_ok by (auto intro!: exI [of _ "e # L'"] simp del: replicate_Suc)
    qed (use "2.IH" [OF r] out scan in \<open>simp_all del: replicate_Suc ents_units_simps\<close>)
  qed
qed


lemma malloc_at_correct:
  assumes wf: "map_wf mp" and sz: "sz \<noteq> 0" and bound: "unat addr + unat sz < 2 ^ 32"
  shows "case malloc_at mp addr sz of
      None \<Rightarrow> map_slots mp = 0 \<and> {unat addr..<unat addr + unat sz} \<subseteq> free_units mp
    | Some (False, mp') \<Rightarrow> mp' = mp \<and> \<not> {unat addr..<unat addr + unat sz} \<subseteq> free_units mp
    | Some (True, mp') \<Rightarrow> map_wf mp' \<and> {unat addr..<unat addr + unat sz} \<subseteq> free_units mp
          \<and> free_units mp' = free_units mp - {unat addr..<unat addr + unat sz}"
proof -
  from wf obtain L k where L: "map_ents mp = L @ replicate (Suc k) zero_ent" "map_chain 0 L"
    "k = unat (map_slots mp)" "free_units mp = ents_units L" "length L + Suc k < 2 ^ 32"
    by (rule map_wfE)
  note spec = malloc_at_scan_spec [OF L(2) sz bound L(3)]
  show ?thesis
  proof (cases "malloc_at_scan (map_slots mp) addr sz (map_ents mp)")
    case (At_ok es d)
    with spec L(1) obtain L' where L': "es = L' @ replicate (Suc (nat (int k + d))) zero_ent"
      "-1 \<le> d" "d \<le> 1" "0 \<le> int k + d" "int (length L') + d = int (length L)" "map_chain 0 L'"
      "{unat addr..<unat addr + unat sz} \<subseteq> ents_units L"
      "ents_units L' = ents_units L - {unat addr..<unat addr + unat sz}" by auto
    let ?m = "mp\<lparr>map_ents := es, map_slots := map_slots mp + of_int d\<rparr>"
    have sum: "map_slots mp + of_int d = word_of_int (int k + d)" using L(3) by simp
    have "int k + d < 2 ^ 32" using L'(3) L(5) by simp
    with L'(4) have "uint (word_of_int (int k + d) :: u32) = int k + d"
      by (simp only: uint_word_of_int) simp
    then have "uint (map_slots mp + of_int d) = int k + d" by (simp only: sum)
    then have slots: "nat (int k + d) = unat (map_slots ?m)" by (simp flip: nat_uint_eq)
    have "map_wf ?m \<and> free_units ?m = ents_units L' \<and> map_live ?m = L'"
      by (rule map_wfI [OF _ L'(6) slots]) (use L'(1,4,5) L(5) in auto)
    with At_ok L' L(4) sz show ?thesis by (simp add: malloc_at_def)
  next
    case At_no
    with spec L sz show ?thesis by (simp add: malloc_at_def del: replicate_Suc)
  next
    case At_panic
    with spec L sz show ?thesis by (simp add: malloc_at_def unat_eq_zero del: replicate_Suc)
  qed
qed

section \<open>The allocator interface\<close>

text \<open>
  What the message, semaphore and swap code rely on: an allocator hands out ranges of free
  units, a failed allocation changes nothing, and freed ranges come back.
\<close>

locale unit_allocator =
  fixes alloc :: "'m \<Rightarrow> u32 \<Rightarrow> u32 \<times> 'm"
    and release :: "'m \<Rightarrow> u32 \<Rightarrow> u32 \<Rightarrow> mfree_result \<times> 'm"
    and units :: "'m \<Rightarrow> nat set"
    and inv :: "'m \<Rightarrow> bool"
  assumes alloc_ok: "\<lbrakk>inv m; alloc m n = (a, m'); a \<noteq> 0\<rbrakk> \<Longrightarrow>
      inv m' \<and> {unat a..<unat a + unat n} \<subseteq> units m \<and> units m' = units m - {unat a..<unat a + unat n}"
    and alloc_fail: "\<lbrakk>inv m; alloc m n = (0, m')\<rbrakk> \<Longrightarrow> m' = m"
    and release_ok: "\<lbrakk>inv m; release m n a = (Freed w, m'); n \<noteq> 0; a \<noteq> 0; unat a + unat n < 2 ^ 32;
      {unat a..<unat a + unat n} \<inter> units m = {}\<rbrakk> \<Longrightarrow>
      inv m' \<and> units m' = units m \<union> {unat a..<unat a + unat n}"
    and release_lost: "release m n a = (Lost, m') \<Longrightarrow> m' = m"
    and units_bound: "inv m \<Longrightarrow> x \<in> units m \<Longrightarrow> 0 < x \<and> Suc x < 2 ^ 32"
begin

lemma alloc_disjoint:
  assumes "inv m" "alloc m n = (a, m')" "a \<noteq> 0" "alloc m' k = (b, m'')" "b \<noteq> 0"
  shows "{unat a..<unat a + unat n} \<inter> {unat b..<unat b + unat k} = {}"
  using alloc_ok [OF assms(1-3)] alloc_ok [of m' k b m''] assms(4,5) by blast

lemma alloc_range:
  assumes "inv m" "alloc m n = (a, m')" "a \<noteq> 0" "n \<noteq> 0"
  shows "unat a + unat n < 2 ^ 32"
proof -
  have pos: "0 < unat n" using assms(4) by (simp add: unat_pos_iff)
  then have "unat a + unat n - 1 \<in> {unat a..<unat a + unat n}" by auto
  with alloc_ok [OF assms(1-3)] units_bound [OF assms(1)] have "Suc (unat a + unat n - 1) < 2 ^ 32"
    by blast
  with pos show ?thesis by simp
qed

lemma alloc_release_inverse:
  assumes "inv m" "alloc m n = (a, m')" "a \<noteq> 0" "n \<noteq> 0" "release m' n a = (Freed w, m'')"
  shows "inv m'' \<and> units m'' = units m"
  using alloc_ok [OF assms(1-3)] release_ok [of m' n a w m''] alloc_range [OF assms(1-4)] assms
  by blast

lemma alloc_inv:
  assumes "inv m" "alloc m n = (a, m')"
  shows "inv m' \<and> units m' \<subseteq> units m"
proof (cases "a = 0")
  case True
  with assms alloc_fail [of m n m'] show ?thesis by simp
next
  case False
  with assms alloc_ok show ?thesis by blast
qed

end

lemma free_units_bound: "map_wf mp \<Longrightarrow> x \<in> free_units mp \<Longrightarrow> 0 < x \<and> Suc x < 2 ^ 32"
  unfolding map_wf_def free_units_def using map_chain_above by blast

interpretation rmap_alloc: unit_allocator malloc mfree free_units map_wf
proof unfold_locales
  fix m n a m'
  show "map_wf m \<Longrightarrow> malloc m n = (a, m') \<Longrightarrow> a \<noteq> 0 \<Longrightarrow> map_wf m' \<and>
      {unat a..<unat a + unat n} \<subseteq> free_units m \<and> free_units m' = free_units m - {unat a..<unat a + unat n}"
    using malloc_allocates by blast
  show "map_wf m \<Longrightarrow> malloc m n = (0, m') \<Longrightarrow> m' = m" using malloc_fails by blast
  show "mfree m n a = (Lost, m') \<Longrightarrow> m' = m" using mfree_lost by blast
qed (use mfree_frees free_units_bound in blast)+


section \<open>Properties\<close>

text \<open>
  C1: First-fit allocation is exact. On a well-formed map, \<^verbatim>\<open>malloc\<close> either returns the lowest
  base of a run of free units that is long enough and removes exactly that run from the free
  units, or returns 0, which it does only if no run of that length is free, and then the map is
  unchanged. The map stays well-formed.
\<close>

theorem malloc_first_fit:
  assumes "map_wf mp" and "malloc mp sz = (a, mp')"
  shows "map_wf mp' \<and>
    (if a = 0 then mp' = mp \<and> (\<forall>b. 0 < sz \<longrightarrow> \<not> {b..<b + unat sz} \<subseteq> free_units mp)
     else {unat a..<unat a + unat sz} \<subseteq> free_units mp
          \<and> free_units mp' = free_units mp - {unat a..<unat a + unat sz}
          \<and> (\<forall>b. 0 < sz \<longrightarrow> {b..<b + unat sz} \<subseteq> free_units mp \<longrightarrow> unat a \<le> b))"
proof (cases "a = 0")
  case True
  note fail = malloc_fails [OF assms(1), of sz mp'] assms(2) [unfolded True]
  have "\<not> {b..<b + unat sz} \<subseteq> free_units mp" if "0 < sz" for b
    using free_run_extent [OF assms(1) _ that] fail by (meson not_le)
  with fail assms(1) True show ?thesis by simp
next
  case False
  note ok = malloc_allocates [OF assms False]
  have "unat a \<le> b" if "0 < sz" "{b..<b + unat sz} \<subseteq> free_units mp" for b
    using free_run_extent [OF assms(1) that(2,1)] ok(4) by (meson le_trans)
  with ok False show ?thesis by simp
qed

definition demo_map :: rmap where
  "demo_map = \<lparr>map_slots = 1, map_want = 1,
     map_ents = [\<lparr>m_size = 2, m_addr = 5\<rparr>, \<lparr>m_size = 8, m_addr = 10\<rparr>, zero_ent, zero_ent]\<rparr>"

lemma demo_map_wf: "map_wf demo_map"
  by (simp add: demo_map_def map_wf_def map_live_def)

lemma demo_map_units: "free_units demo_map = {5..<7} \<union> {10..<18}"
  by (simp add: demo_map_def map_live_def free_units_def ents_units_def ent_units_def)

theorem malloc_first_fit_witness:
  "malloc demo_map 3 = (10, demo_map\<lparr>map_ents := [\<lparr>m_size = 2, m_addr = 5\<rparr>, \<lparr>m_size = 5, m_addr = 13\<rparr>,
     zero_ent, zero_ent]\<rparr>) \<and> {10..<13} \<subseteq> free_units demo_map"
proof -
  have run: "malloc demo_map 3 = (10, demo_map\<lparr>map_ents := [\<lparr>m_size = 2, m_addr = 5\<rparr>, \<lparr>m_size = 5, m_addr = 13\<rparr>,
     zero_ent, zero_ent]\<rparr>)"
    by (simp add: demo_map_def malloc_def)
  with malloc_first_fit [OF demo_map_wf run] show ?thesis by simp
qed

text \<open>
  C2: Freeing is exact. Giving back a range of units none of which is free adds exactly that range
  to the free units, coalescing it with its neighbours so that the map stays well-formed, and wakes
  the waiters if there are any; the only other outcome is the reported loss of the range when the
  map has no slot left, which changes nothing.
\<close>

theorem mfree_returns_units:
  assumes "map_wf mp" "sz \<noteq> 0" "a \<noteq> 0" "unat a + unat sz < 2 ^ 32"
    and "{unat a..<unat a + unat sz} \<inter> free_units mp = {}" and "mfree mp sz a = (r, mp')"
  shows "case r of
      Lost \<Rightarrow> mp' = mp \<and> map_slots mp = 0
    | Freed woken \<Rightarrow> map_wf mp' \<and> free_units mp' = free_units mp \<union> {unat a..<unat a + unat sz}
        \<and> woken = (map_want mp \<noteq> 0) \<and> map_want mp' = 0"
proof (cases r)
  case (Freed w)
  with mfree_frees [OF assms(1-5)] assms(6) show ?thesis by simp
next
  case Lost
  with mfree_lost assms(6) show ?thesis by simp
qed

theorem mfree_returns_units_witness:
  "mfree demo_map 3 7 = (Freed True, demo_map\<lparr>map_want := 0, map_slots := 2,
     map_ents := [\<lparr>m_size = 13, m_addr = 5\<rparr>, zero_ent, zero_ent, zero_ent]\<rparr>)
   \<and> free_units (demo_map\<lparr>map_want := 0, map_slots := 2,
     map_ents := [\<lparr>m_size = 13, m_addr = 5\<rparr>, zero_ent, zero_ent, zero_ent]\<rparr>) = {5..<7} \<union> {10..<18} \<union> {7..<10}"
proof -
  have run: "mfree demo_map 3 7 = (Freed True, demo_map\<lparr>map_want := 0, map_slots := 2,
     map_ents := [\<lparr>m_size = 13, m_addr = 5\<rparr>, zero_ent, zero_ent, zero_ent]\<rparr>)"
    by (simp add: demo_map_def mfree_def mfree_wake_def)
  with mfree_returns_units [OF demo_map_wf _ _ _ _ run] show ?thesis
    by (simp add: demo_map_units Int_Un_distrib)
qed

text \<open>
  Allocating and giving back is the identity. The range \<^verbatim>\<open>malloc\<close> handed out is always accepted
  by \<^verbatim>\<open>mfree\<close> (never lost for want of a slot, however full the map is) and the map is then exactly
  the one before, up to the want flag.
\<close>

theorem malloc_mfree_roundtrip:
  assumes "map_wf mp" "malloc mp sz = (a, mp')" "a \<noteq> 0" "sz \<noteq> 0"
  shows "mfree mp' sz a = (Freed (map_want mp \<noteq> 0), mp\<lparr>map_want := 0\<rparr>)"
proof -
  note ok = malloc_allocates [OF assms(1-3)] and room = malloc_leaves_room [OF assms(1-3)]
  have bound: "unat a + unat sz < 2 ^ 32" using assms by (rule rmap_alloc.alloc_range)
  have fresh: "{unat a..<unat a + unat sz} \<inter> free_units mp' = {}" using ok(3) by blast
  obtain r mp'' where res: "mfree mp' sz a = (r, mp'')" by fastforce
  with mfree_not_lost [OF ok(1) assms(4,3) bound fresh room(1)] obtain w where r: "r = Freed w"
    by (cases r) auto
  note freed = mfree_frees [OF ok(1) assms(4,3) bound fresh res [unfolded r]]
  have "free_units mp'' = free_units mp" using freed ok(2,3) by blast
  from map_wf_canonical [OF _ assms(1) this] freed room(2)
  have "map_ents mp'' = map_ents mp" "map_slots mp'' = map_slots mp" by simp_all
  with res r freed room(3) show ?thesis by simp
qed

theorem malloc_mfree_roundtrip_witness:
  "\<exists>mp'. malloc demo_map 2 = (5, mp') \<and> mfree mp' 2 5 = (Freed True, demo_map\<lparr>map_want := 0\<rparr>)"
proof -
  have run: "malloc demo_map 2 = (5, demo_map\<lparr>map_slots := 2,
     map_ents := [\<lparr>m_size = 8, m_addr = 10\<rparr>, zero_ent, zero_ent, zero_ent]\<rparr>)"
    by (simp add: demo_map_def malloc_def)
  with malloc_mfree_roundtrip [OF demo_map_wf run] show ?thesis by (simp add: demo_map_def)
qed

text \<open>
  \<^verbatim>\<open>malloc_at\<close> takes exactly the range asked for. It succeeds if and only if all of the range is
  free and then removes just that range, whether it lies at the front, at the back or in the middle of
  an extent; it refuses and changes nothing otherwise; the panic happens only when an extent has to be
  split and the map has no slot left.
\<close>

theorem malloc_at_exact:
  assumes "map_wf mp" and "sz \<noteq> 0" and "unat addr + unat sz < 2 ^ 32"
  shows "case malloc_at mp addr sz of
      None \<Rightarrow> map_slots mp = 0 \<and> {unat addr..<unat addr + unat sz} \<subseteq> free_units mp
    | Some (False, mp') \<Rightarrow> mp' = mp \<and> \<not> {unat addr..<unat addr + unat sz} \<subseteq> free_units mp
    | Some (True, mp') \<Rightarrow> map_wf mp' \<and> {unat addr..<unat addr + unat sz} \<subseteq> free_units mp
          \<and> free_units mp' = free_units mp - {unat addr..<unat addr + unat sz}"
  using assms by (rule malloc_at_correct)

theorem malloc_at_exact_witness:
  "malloc_at demo_map 12 3 = Some (True, demo_map\<lparr>map_slots := 0, map_ents :=
     [\<lparr>m_size = 2, m_addr = 5\<rparr>, \<lparr>m_size = 2, m_addr = 10\<rparr>, \<lparr>m_size = 3, m_addr = 15\<rparr>, zero_ent]\<rparr>)
   \<and> {12..<15} \<subseteq> free_units demo_map"
proof -
  have run: "malloc_at demo_map 12 3 = Some (True, demo_map\<lparr>map_slots := 0, map_ents :=
     [\<lparr>m_size = 2, m_addr = 5\<rparr>, \<lparr>m_size = 2, m_addr = 10\<rparr>, \<lparr>m_size = 3, m_addr = 15\<rparr>, zero_ent]\<rparr>)"
    by (simp add: demo_map_def malloc_at_def zero_ent_def)
  with malloc_at_exact [OF demo_map_wf, of 3 12] show ?thesis by simp
qed

end
