(* ===== verification/Clist.thy ===== *)
theory Clist
  imports Kernel_Prelude
begin

text \<open>
  Character lists (\<^verbatim>\<open>sys/io/clist.c\<close>, \<^verbatim>\<open>sys/tty.h\<close>): the byte queues of the terminal
  drivers, each a chain of 64-byte blocks taken from one free list. Blocks are addressed by
  number, \<^verbatim>\<open>NULL\<close> is \<open>None\<close>. A call that would follow \<^verbatim>\<open>NULL\<close> or run outside a
  block's data array has the result \<open>None\<close>, so a theorem that a call yields \<open>Some\<close> says
  that it does neither.
\<close>

section \<open>State\<close>

abbreviation CLSIZE :: nat where "CLSIZE \<equiv> 64"

record cblock =
  c_next :: "nat option"
  c_first :: nat
  c_last :: nat
  c_data :: "u8 list"

record clist =
  c_cc :: int
  c_cf :: "nat option"
  c_cl :: "nat option"

text \<open>
  \<^verbatim>\<open>cfreelist\<close> is the head of the free blocks with the block size in use and the flag of
  processes that wait for a block; \<open>fl_wakeups\<close> counts the calls of
  \<^verbatim>\<open>wakeup(&cfreelist)\<close>.
\<close>

record cstate =
  cblk :: "nat \<Rightarrow> cblock"
  fl_next :: "nat option"
  fl_size :: nat
  fl_flag :: bool
  fl_wakeups :: nat

section \<open>Operations\<close>

text \<open>Returning a block to the free list, as \<^verbatim>\<open>getc\<close> and \<^verbatim>\<open>putcf\<close> do it.\<close>

definition putcf :: "nat \<Rightarrow> cstate \<Rightarrow> cstate" where
  "putcf b s =
     (let s1 = s\<lparr>cblk := (cblk s)(b := (cblk s b)\<lparr>c_next := fl_next s\<rparr>), fl_next := Some b\<rparr> in
      if fl_flag s1 then s1\<lparr>fl_flag := False, fl_wakeups := Suc (fl_wakeups s1)\<rparr> else s1)"

definition cb_first_byte :: "cblock \<Rightarrow> u8 option" where
  "cb_first_byte bp = (if c_first bp < length (c_data bp) then Some (c_data bp ! c_first bp) else None)"

definition getc :: "clist \<Rightarrow> cstate \<Rightarrow> (int \<times> clist \<times> cstate) option" where
  "getc p s =
     (if 0 < c_cc p then
        (case c_cf p of None \<Rightarrow> None
         | Some b \<Rightarrow>
           (case cb_first_byte (cblk s b) of None \<Rightarrow> None
            | Some c \<Rightarrow>
              let bp = (cblk s b)\<lparr>c_first := Suc (c_first (cblk s b))\<rparr>;
                  s1 = s\<lparr>cblk := (cblk s)(b := bp)\<rparr>;
                  p1 = p\<lparr>c_cc := c_cc p - 1\<rparr> in
              if c_first bp = c_last bp then
                Some (uint c, p1\<lparr>c_cf := c_next bp, c_cl := (if c_next bp = None then None else c_cl p1)\<rparr>,
                      putcf b s1)
              else Some (uint c, p1, s1)))
      else Some (-1, p, s))"

text \<open>
  The start of \<^verbatim>\<open>putc\<close> and of each round of \<^verbatim>\<open>putcbp\<close>: the block to write to, the last one if
  it has room, else a free one linked in at the end; \<open>None\<close> if there is no free block.
\<close>

definition cl_room :: "clist \<Rightarrow> cstate \<Rightarrow> (nat \<times> clist \<times> cstate) option" where
  "cl_room p s =
     (case c_cl p of
        Some b \<Rightarrow> if c_last (cblk s b) \<noteq> fl_size s then Some (b, p, s) else
          (case fl_next s of None \<Rightarrow> None
           | Some n \<Rightarrow>
             let s1 = s\<lparr>fl_next := c_next (cblk s n),
                        cblk := (cblk s)(n := (cblk s n)\<lparr>c_next := None, c_first := 0, c_last := 0\<rparr>)\<rparr> in
             Some (n, p\<lparr>c_cl := Some n\<rparr>,
                   s1\<lparr>cblk := (cblk s1)(b := (cblk s1 b)\<lparr>c_next := Some n\<rparr>)\<rparr>))
      | None \<Rightarrow>
          (case fl_next s of None \<Rightarrow> None
           | Some n \<Rightarrow>
             Some (n, p\<lparr>c_cf := Some n, c_cl := Some n\<rparr>,
                   s\<lparr>fl_next := c_next (cblk s n),
                     cblk := (cblk s)(n := (cblk s n)\<lparr>c_next := None, c_first := 0, c_last := 0\<rparr>)\<rparr>)))"

text \<open>Writing bytes at \<^verbatim>\<open>c_last\<close> of a block; \<open>None\<close> outside the data array.\<close>

definition cb_append :: "nat \<Rightarrow> u8 list \<Rightarrow> cstate \<Rightarrow> cstate option" where
  "cb_append b xs s =
     (let bp = cblk s b; l = c_last bp in
      if l + length xs \<le> length (c_data bp) then
        Some (s\<lparr>cblk := (cblk s)(b := bp\<lparr>c_data := take l (c_data bp) @ xs @ drop (l + length xs) (c_data bp),
                                         c_last := l + length xs\<rparr>)\<rparr>)
      else None)"

definition putc :: "int \<Rightarrow> clist \<Rightarrow> cstate \<Rightarrow> (int \<times> clist \<times> cstate) option" where
  "putc c p s =
     (case cl_room p s of
        None \<Rightarrow> Some (-1, p, s)
      | Some (b, p1, s1) \<Rightarrow>
          map_option (\<lambda>s2. (0, p1\<lparr>c_cc := c_cc p1 + 1\<rparr>, s2)) (cb_append b [word_of_int c] s1))"

definition getcf :: "cstate \<Rightarrow> nat option \<times> cstate" where
  "getcf s =
     (case fl_next s of
        None \<Rightarrow> (None, s)
      | Some b \<Rightarrow>
          (Some b, s\<lparr>fl_next := c_next (cblk s b),
             cblk := (cblk s)(b := (cblk s b)\<lparr>c_next := None, c_first := 0, c_last := fl_size s\<rparr>)\<rparr>))"

definition getcb :: "clist \<Rightarrow> cstate \<Rightarrow> nat option \<times> clist" where
  "getcb p s =
     (case c_cf p of
        None \<Rightarrow> (None, p)
      | Some b \<Rightarrow>
          let bp = cblk s b in
          (Some b, p\<lparr>c_cc := c_cc p - (int (c_last bp) - int (c_first bp)), c_cf := c_next bp,
                     c_cl := (if c_next bp = None then None else c_cl p)\<rparr>))"

definition putcb :: "nat \<Rightarrow> clist \<Rightarrow> cstate \<Rightarrow> clist \<times> cstate" where
  "putcb b p s =
     (let (p1, s1) =
        (case c_cl p of
           None \<Rightarrow> (p\<lparr>c_cf := Some b\<rparr>, s)
         | Some ob \<Rightarrow> (p, s\<lparr>cblk := (cblk s)(ob := (cblk s ob)\<lparr>c_next := Some b\<rparr>)\<rparr>));
        s2 = s1\<lparr>cblk := (cblk s1)(b := (cblk s1 b)\<lparr>c_next := None\<rparr>)\<rparr> in
      (p1\<lparr>c_cl := Some b,
          c_cc := c_cc p1 + (int (c_last (cblk s2 b)) - int (c_first (cblk s2 b)))\<rparr>, s2))"

text \<open>
  The block transfers. The loop of \<^verbatim>\<open>getcbp\<close> follows the chain, that of \<^verbatim>\<open>putcbp\<close> takes blocks
  until the free list is empty; \<^verbatim>\<open>getcbp\<close> frees the blocks it empties without a look at the
  want flag. Counts are the non-negative byte counts of the callers. The result of the loops is
  \<open>None\<close> also for a run that does not end (a chain that closes on itself).
\<close>

partial_function (option) getcbp_loop ::
  "nat \<Rightarrow> u8 list \<Rightarrow> clist \<Rightarrow> cstate \<Rightarrow> (u8 list \<times> clist \<times> cstate) option" where
  "getcbp_loop n out p s =
     (if n = 0 then Some (out, p, s)
      else case c_cf p of
        None \<Rightarrow> Some (out, p, s)
      | Some b \<Rightarrow>
          let bp = cblk s b; op = drop (c_first bp) (c_data bp); on = c_last bp - c_first bp in
          if c_last bp < c_first bp \<or> length (c_data bp) < c_last bp then None
          else if on \<le> n then
            getcbp_loop (n - on) (out @ take on op)
              (p\<lparr>c_cf := c_next bp, c_cl := (if c_next bp = None then None else c_cl p)\<rparr>)
              (s\<lparr>cblk := (cblk s)(b := bp\<lparr>c_next := fl_next s\<rparr>), fl_next := Some b\<rparr>)
          else Some (out @ take n op, p, s\<lparr>cblk := (cblk s)(b := bp\<lparr>c_first := c_first bp + n\<rparr>)\<rparr>))"

definition getcbp :: "clist \<Rightarrow> nat \<Rightarrow> cstate \<Rightarrow> (u8 list \<times> clist \<times> cstate) option" where
  "getcbp p n s =
     map_option (\<lambda>(out, p', s'). (out, p'\<lparr>c_cc := c_cc p' - int (length out)\<rparr>, s'))
       (getcbp_loop n [] p s)"

partial_function (option) putcbp_loop ::
  "u8 list \<Rightarrow> nat \<Rightarrow> clist \<Rightarrow> cstate \<Rightarrow> (nat \<times> clist \<times> cstate) option" where
  "putcbp_loop cp done p s =
     (if cp = [] then Some (done, p, s)
      else case cl_room p s of
        None \<Rightarrow> Some (done, p, s)
      | Some (b, p1, s1) \<Rightarrow>
          let on = fl_size s1 - c_last (cblk s1 b) in
          if fl_size s1 < c_last (cblk s1 b) then None
          else if on \<le> length cp then
            (case cb_append b (take on cp) s1 of
               None \<Rightarrow> None
             | Some s2 \<Rightarrow> putcbp_loop (drop on cp) (done + on) p1 s2)
          else map_option (\<lambda>s2. (done + length cp, p1, s2)) (cb_append b cp s1))"

definition putcbp :: "clist \<Rightarrow> u8 list \<Rightarrow> cstate \<Rightarrow> (nat \<times> clist \<times> cstate) option" where
  "putcbp p cp s =
     map_option (\<lambda>(n, p', s'). (n, p'\<lparr>c_cc := c_cc p' + int n\<rparr>, s')) (putcbp_loop cp 0 p s)"

section \<open>Abstraction and invariant\<close>

primrec cb_path :: "(nat \<Rightarrow> cblock) \<Rightarrow> nat option \<Rightarrow> nat list \<Rightarrow> nat option \<Rightarrow> bool" where
  "cb_path h q [] r = (q = r)"
| "cb_path h q (b # bs) r = (q = Some b \<and> cb_path h (c_next (h b)) bs r)"

definition cb_bytes :: "cblock \<Rightarrow> u8 list" where
  "cb_bytes bp = take (c_last bp - c_first bp) (drop (c_first bp) (c_data bp))"

definition cl_bytes :: "(nat \<Rightarrow> cblock) \<Rightarrow> nat list \<Rightarrow> u8 list" where
  "cl_bytes h bs = concat (map (\<lambda>b. cb_bytes (h b)) bs)"

definition cb_ok :: "nat \<Rightarrow> cblock \<Rightarrow> bool" where
  "cb_ok sz bp \<longleftrightarrow> c_first bp < c_last bp \<and> c_last bp \<le> sz"

text \<open>
  \<open>clist_inv s p bs fs\<close>: the blocks of the queue are \<open>bs\<close> in order, those of the free list
  \<open>fs\<close>, all different; every block of the queue holds at least one byte, and the character
  count is the number of bytes held.
\<close>

definition clist_inv :: "cstate \<Rightarrow> clist \<Rightarrow> nat list \<Rightarrow> nat list \<Rightarrow> bool" where
  "clist_inv s p bs fs \<longleftrightarrow>
     cb_path (cblk s) (c_cf p) bs None \<and> c_cl p = (if bs = [] then None else Some (last bs)) \<and>
     cb_path (cblk s) (fl_next s) fs None \<and> distinct (bs @ fs) \<and>
     (\<forall>b\<in>set bs. cb_ok (fl_size s) (cblk s b)) \<and>
     (\<forall>b\<in>set (bs @ fs). length (c_data (cblk s b)) = CLSIZE) \<and>
     0 < fl_size s \<and> fl_size s \<le> CLSIZE \<and>
     c_cc p = int (length (cl_bytes (cblk s) bs))"

lemma cb_path_upd [simp]:
  "b \<notin> set bs \<Longrightarrow> cb_path (h(b := x)) q bs r = cb_path h q bs r"
  by (induction bs arbitrary: q) auto

lemma cb_path_append [simp]:
  "cb_path h q (as @ bs) r \<longleftrightarrow> (\<exists>m. cb_path h q as m \<and> cb_path h m bs r)"
  by (induction as arbitrary: q) auto

lemma cb_path_None [simp]: "cb_path h None bs r \<longleftrightarrow> bs = [] \<and> r = None"
  by (cases bs) auto

lemma cb_path_Some: "cb_path h (Some b) bs None \<Longrightarrow> \<exists>bs'. bs = b # bs' \<and> cb_path h (c_next (h b)) bs' None"
  by (cases bs) auto

lemma cl_bytes_simps [simp]:
  "cl_bytes h [] = []"
  "cl_bytes h (b # bs) = cb_bytes (h b) @ cl_bytes h bs"
  "cl_bytes h (bs @ cs) = cl_bytes h bs @ cl_bytes h cs"
  by (simp_all add: cl_bytes_def)

lemma cl_bytes_upd [simp]: "b \<notin> set bs \<Longrightarrow> cl_bytes (h(b := x)) bs = cl_bytes h bs"
  by (induction bs) auto

lemma cb_bytes_next [simp]: "cb_bytes (bp\<lparr>c_next := q\<rparr>) = cb_bytes bp"
  by (simp add: cb_bytes_def)

lemma cb_bytes_not_Nil:
  "cb_ok sz bp \<Longrightarrow> sz \<le> length (c_data bp) \<Longrightarrow> length (cb_bytes bp) = c_last bp - c_first bp \<and> cb_bytes bp \<noteq> []"
  by (auto simp: cb_ok_def cb_bytes_def)


lemma clist_inv_flags [simp]:
  "clist_inv (s\<lparr>fl_flag := f\<rparr>) p bs fs = clist_inv s p bs fs"
  "clist_inv (s\<lparr>fl_wakeups := w\<rparr>) p bs fs = clist_inv s p bs fs"
  by (simp_all add: clist_inv_def)

text \<open>What the first block of a non-empty queue looks like.\<close>

lemma clist_inv_Nil: "clist_inv s p [] fs \<Longrightarrow> c_cf p = None \<and> c_cl p = None \<and> c_cc p = 0"
  by (simp add: clist_inv_def)

lemma clist_inv_Cons:
  assumes "clist_inv s p (b # bs) fs"
  shows "c_cf p = Some b" "c_first (cblk s b) < c_last (cblk s b)" "c_last (cblk s b) \<le> fl_size s"
    "fl_size s \<le> length (c_data (cblk s b))" "0 < c_cc p" "b \<notin> set bs" "b \<notin> set fs"
    "length (cb_bytes (cblk s b)) = c_last (cblk s b) - c_first (cblk s b)"
  using assms cb_bytes_not_Nil [of "fl_size s" "cblk s b"]
  by (auto simp: clist_inv_def cb_ok_def)

lemma cb_bytes_first:
  assumes "c_first bp < c_last bp" "c_last bp \<le> length (c_data bp)"
  shows "cb_bytes bp = (c_data bp ! c_first bp) # cb_bytes (bp\<lparr>c_first := Suc (c_first bp)\<rparr>)"
  using assms by (simp add: cb_bytes_def Cons_nth_drop_Suc [symmetric] take_Cons' Suc_diff_Suc)

text \<open>Handing the first block over to the free list.\<close>

lemma clist_inv_free_first:
  assumes inv: "clist_inv s p (b # bs) fs" and len: "length (c_data bp') = CLSIZE"
  defines "bp \<equiv> cblk s b"
  shows "clist_inv (s\<lparr>cblk := (cblk s)(b := bp'\<lparr>c_next := fl_next s\<rparr>), fl_next := Some b\<rparr>)
     (p\<lparr>c_cc := c_cc p - int (length (cb_bytes bp)), c_cf := c_next bp,
        c_cl := (if c_next bp = None then None else c_cl p)\<rparr>) bs (b # fs)"
  using inv len by (cases bs) (auto simp: clist_inv_def bp_def)

lemma clist_inv_first_shorter:
  assumes inv: "clist_inv s p (b # bs) fs" and bp': "c_first bp' < c_last bp'" "c_last bp' \<le> fl_size s"
    "c_next bp' = c_next (cblk s b)" "length (c_data bp') = CLSIZE"
    and cc: "cc = int (length (cb_bytes bp') + length (cl_bytes (cblk s) bs))"
  shows "clist_inv (s\<lparr>cblk := (cblk s)(b := bp')\<rparr>) (p\<lparr>c_cc := cc\<rparr>) (b # bs) fs"
  using assms by (auto simp: clist_inv_def cb_ok_def)

lemma getc_spec:
  assumes inv: "clist_inv s p bs fs"
  shows "case cl_bytes (cblk s) bs of
      [] \<Rightarrow> getc p s = Some (-1, p, s)
    | c # cs \<Rightarrow> \<exists>p' s' bs' fs'. getc p s = Some (uint c, p', s') \<and> clist_inv s' p' bs' fs'
        \<and> cl_bytes (cblk s') bs' = cs \<and> set bs' \<union> set fs' = set bs \<union> set fs"
proof (cases bs)
  case Nil
  with inv show ?thesis by (simp add: getc_def clist_inv_def)
next
  case (Cons b bs1)
  let ?bp = "cblk s b" and ?bp' = "(cblk s b)\<lparr>c_first := Suc (c_first (cblk s b))\<rparr>"
  note f = clist_inv_Cons [OF inv [unfolded Cons]]
  have bytes: "cb_bytes ?bp = (c_data ?bp ! c_first ?bp) # cb_bytes ?bp'"
    using f by (intro cb_bytes_first) auto
  have fb: "cb_first_byte ?bp = Some (c_data ?bp ! c_first ?bp)" using f by (simp add: cb_first_byte_def)
  have len: "length (c_data ?bp) = CLSIZE" using inv Cons by (simp add: clist_inv_def)
  show ?thesis
  proof (cases "Suc (c_first ?bp) = c_last ?bp")
    case True
    then have one: "cb_bytes ?bp' = []" by (simp add: cb_bytes_def)
    let ?s' = "putcf b (s\<lparr>cblk := (cblk s)(b := ?bp')\<rparr>)"
    let ?p' = "p\<lparr>c_cc := c_cc p - 1, c_cf := c_next ?bp, c_cl := (if c_next ?bp = None then None else c_cl p)\<rparr>"
    have "getc p s = Some (uint (c_data ?bp ! c_first ?bp), ?p', ?s')"
      using f fb True by (simp add: getc_def Let_def)
    moreover have "clist_inv ?s' ?p' bs1 (b # fs)"
      using clist_inv_free_first [OF inv [unfolded Cons], of ?bp'] bytes one len
      by (auto simp: putcf_def Let_def)
    moreover have "cl_bytes (cblk ?s') bs1 = cl_bytes (cblk s) bs1"
      using f(6) by (simp add: putcf_def Let_def)
    moreover have "set bs1 \<union> set (b # fs) = set bs \<union> set fs" using Cons by auto
    moreover have head: "cl_bytes (cblk s) bs = (c_data ?bp ! c_first ?bp) # cl_bytes (cblk s) bs1"
      using Cons bytes one by simp
    ultimately show ?thesis unfolding head list.case by blast
  next
    case False
    let ?s' = "s\<lparr>cblk := (cblk s)(b := ?bp')\<rparr>"
    have "getc p s = Some (uint (c_data ?bp ! c_first ?bp), p\<lparr>c_cc := c_cc p - 1\<rparr>, ?s')"
      using f fb False by (simp add: getc_def Let_def)
    moreover have "clist_inv ?s' (p\<lparr>c_cc := c_cc p - 1\<rparr>) (b # bs1) fs"
      by (rule clist_inv_first_shorter [OF inv [unfolded Cons]])
        (use f False len inv Cons bytes in \<open>auto simp: clist_inv_def\<close>)
    ultimately show ?thesis using Cons f bytes by (fastforce simp: Let_def)
  qed
qed


text \<open>Room at the end of the queue: the last block or a new one, still empty.\<close>

lemma cl_room_None:
  assumes "clist_inv s p bs fs" "cl_room p s = None"
  shows "fs = []"
  using assms by (cases fs) (auto simp: cl_room_def clist_inv_def split: option.splits if_splits)

definition cb_write :: "u8 list \<Rightarrow> cblock \<Rightarrow> cblock" where
  "cb_write xs bp = bp\<lparr>c_data := take (c_last bp) (c_data bp) @ xs @ drop (c_last bp + length xs) (c_data bp),
                       c_last := c_last bp + length xs\<rparr>"

lemma cb_append_eq:
  "cb_append b xs s = (if c_last (cblk s b) + length xs \<le> length (c_data (cblk s b))
     then Some (s\<lparr>cblk := (cblk s)(b := cb_write xs (cblk s b))\<rparr>) else None)"
  by (simp add: cb_append_def cb_write_def Let_def)

lemma cb_write_simps:
  assumes "c_first bp \<le> c_last bp" "c_last bp + length xs \<le> length (c_data bp)"
  shows "c_next (cb_write xs bp) = c_next bp" "c_first (cb_write xs bp) = c_first bp"
    "c_last (cb_write xs bp) = c_last bp + length xs"
    "length (c_data (cb_write xs bp)) = length (c_data bp)"
    "cb_bytes (cb_write xs bp) = cb_bytes bp @ xs"
  using assms by (simp_all add: cb_write_def cb_bytes_def drop_take Nat.add_diff_assoc2)

lemma cb_append_spec:
  assumes inv: "clist_inv s p bs fs" and room: "cl_room p s = Some (b, p1, s1)"
    and xs: "xs \<noteq> []" "length xs \<le> fl_size s - c_last (cblk s1 b)"
  shows "\<exists>s2 bs' fs'. cb_append b xs s1 = Some s2
        \<and> clist_inv s2 (p1\<lparr>c_cc := c_cc p1 + int (length xs)\<rparr>) bs' fs'
        \<and> cl_bytes (cblk s2) bs' = cl_bytes (cblk s) bs @ xs
        \<and> set bs' \<union> set fs' = set bs \<union> set fs \<and> fl_size s2 = fl_size s"
proof (cases "c_cl p = Some b \<and> c_last (cblk s b) \<noteq> fl_size s")
  case True
  with room have same: "p1 = p" "s1 = s" by (auto simp: cl_room_def)
  from True inv obtain as where bs: "bs = as @ [b]"
    by (cases bs rule: rev_cases) (auto simp: clist_inv_def)
  have blk: "c_first (cblk s b) < c_last (cblk s b)" "c_last (cblk s b) \<le> fl_size s"
    "length (c_data (cblk s b)) = CLSIZE" "fl_size s \<le> CLSIZE" "b \<notin> set as" "b \<notin> set fs"
    using inv bs by (auto simp: clist_inv_def cb_ok_def)
  then have w: "c_last (cblk s b) + length xs \<le> length (c_data (cblk s b))" using xs same by simp
  note ws = cb_write_simps [OF less_imp_le [OF blk(1)] w]
  have "clist_inv (s\<lparr>cblk := (cblk s)(b := cb_write xs (cblk s b))\<rparr>) (p\<lparr>c_cc := c_cc p + int (length xs)\<rparr>) bs fs"
    using inv blk ws xs same unfolding clist_inv_def bs by (auto simp: cb_ok_def)
  then show ?thesis
    by (rule_tac exI, rule_tac x = bs in exI, rule_tac x = fs in exI)
      (use blk ws w in \<open>auto simp: cb_append_eq same bs\<close>)
next
  case False
  with room have full: "\<forall>ob. c_cl p = Some ob \<longrightarrow> c_last (cblk s ob) = fl_size s"
    by (auto simp: cl_room_def split: option.splits if_splits)
  with room obtain fs1 where fs: "fs = b # fs1" and nxt: "fl_next s = Some b"
    using inv by (cases fs) (auto simp: cl_room_def clist_inv_def Let_def split: option.splits if_splits)
  let ?n = "(cblk s b)\<lparr>c_next := None, c_first := 0, c_last := 0\<rparr>"
  have len: "length (c_data (cblk s b)) = CLSIZE" "fl_size s \<le> CLSIZE"
    using inv fs by (auto simp: clist_inv_def)
  have fresh: "b \<notin> set bs" "b \<notin> set fs1" using inv fs by (auto simp: clist_inv_def)
  show ?thesis
  proof (cases bs rule: rev_cases)
    case Nil
    with inv room nxt have "p1 = p\<lparr>c_cf := Some b, c_cl := Some b\<rparr>"
      "s1 = s\<lparr>fl_next := c_next (cblk s b), cblk := (cblk s)(b := ?n)\<rparr>"
      by (auto simp: cl_room_def clist_inv_def Let_def)
    moreover from this have w: "length xs \<le> length (c_data ?n)" using xs len by simp
    ultimately show ?thesis
      by (rule_tac exI, rule_tac x = "[b]" in exI, rule_tac x = fs1 in exI)
        (use cb_write_simps [of ?n xs] inv Nil fs xs len fresh in
          \<open>auto simp: cb_append_eq clist_inv_def cb_ok_def cb_bytes_def [of ?n]\<close>)
  next
    case (snoc as ob)
    have ob: "ob \<noteq> b" "ob \<notin> set as" "ob \<notin> set fs1" "c_cl p = Some ob"
      using inv fs snoc fresh by (auto simp: clist_inv_def)
    with inv room nxt full have "p1 = p\<lparr>c_cl := Some b\<rparr>"
      "s1 = s\<lparr>fl_next := c_next (cblk s b),
              cblk := (cblk s)(b := ?n, ob := (cblk s ob)\<lparr>c_next := Some b\<rparr>)\<rparr>"
      by (auto simp: cl_room_def Let_def)
    moreover from this have w: "length xs \<le> length (c_data ?n)" using xs len ob by simp
    ultimately show ?thesis
      by (rule_tac exI, rule_tac x = "as @ [ob, b]" in exI, rule_tac x = fs1 in exI)
        (use cb_write_simps [of ?n xs] inv snoc fs xs len fresh ob in
          \<open>auto simp: cb_append_eq clist_inv_def cb_ok_def cb_bytes_def [of ?n]\<close>)
  qed
qed


lemma cl_room_full:
  assumes inv: "clist_inv s p bs fs" and room: "cl_room p s = Some (b, p1, s1)"
  shows "c_last (cblk s1 b) < fl_size s \<and> fl_size s1 = fl_size s \<and> c_cc p1 = c_cc p"
proof (cases "c_cl p = Some b \<and> c_last (cblk s b) \<noteq> fl_size s")
  case True
  then have "b \<in> set bs" using inv by (auto simp: clist_inv_def split: if_splits)
  moreover from True room have "p1 = p" "s1 = s" by (auto simp: cl_room_def)
  ultimately show ?thesis using True inv by (auto simp: clist_inv_def cb_ok_def intro: le_neq_implies_less)
next
  case False
  with inv room obtain fs1 where "fs = b # fs1"
    by (cases fs) (auto simp: cl_room_def clist_inv_def Let_def split: option.splits if_splits)
  moreover have "c_cl p = Some ob \<Longrightarrow> ob \<in> set bs" for ob
    using inv by (auto simp: clist_inv_def split: if_splits)
  ultimately show ?thesis
    using False inv room by (fastforce simp: cl_room_def clist_inv_def Let_def split: option.splits if_splits)
qed

lemma putc_spec:
  assumes inv: "clist_inv s p bs fs"
  shows "(putc c p s = Some (-1, p, s) \<and> fs = []) \<or>
    (\<exists>p' s' bs' fs'. putc c p s = Some (0, p', s') \<and> clist_inv s' p' bs' fs'
      \<and> cl_bytes (cblk s') bs' = cl_bytes (cblk s) bs @ [word_of_int c]
      \<and> set bs' \<union> set fs' = set bs \<union> set fs)"
proof (cases "cl_room p s")
  case None
  with cl_room_None [OF inv] show ?thesis by (simp add: putc_def)
next
  case (Some t)
  then obtain b p1 s1 where room: "cl_room p s = Some (b, p1, s1)" by (cases t) auto
  have "length [word_of_int c :: u8] \<le> fl_size s - c_last (cblk s1 b)"
    using cl_room_full [OF inv room] by (simp add: Suc_le_eq)
  from cb_append_spec [OF inv room _ this] room show ?thesis
    by (fastforce simp: putc_def)
qed


text \<open>The block transfers: all of the bytes, in order, or as many as there are.\<close>

lemma clist_inv_take_first:
  assumes inv: "clist_inv s p (b # bs) fs"
  shows "clist_inv (s\<lparr>cblk := (cblk s)(b := (cblk s b)\<lparr>c_next := fl_next s\<rparr>), fl_next := Some b\<rparr>)
     (p\<lparr>c_cf := c_next (cblk s b), c_cl := (if c_next (cblk s b) = None then None else c_cl p),
        c_cc := c_cc p - int (length (cb_bytes (cblk s b)))\<rparr>) bs (b # fs)"
  using clist_inv_free_first [OF inv, of "cblk s b"] inv
  by (auto simp: clist_inv_def)

lemma getcbp_loop_spec:
  assumes "clist_inv s (p\<lparr>c_cc := cc\<rparr>) bs fs"
  shows "\<exists>p' s' bs' fs'. getcbp_loop n out p s = Some (out @ take n (cl_bytes (cblk s) bs), p', s')
    \<and> clist_inv s' (p'\<lparr>c_cc := cc - int (min n (length (cl_bytes (cblk s) bs)))\<rparr>) bs' fs'
    \<and> cl_bytes (cblk s') bs' = drop n (cl_bytes (cblk s) bs)
    \<and> set bs' \<union> set fs' = set bs \<union> set fs \<and> c_cc p' = c_cc p"
  using assms
proof (induction bs arbitrary: s p cc n out fs)
  case Nil
  then show ?case by (subst getcbp_loop.simps) (auto simp: clist_inv_def)
next
  case (Cons b bs)
  note inv = Cons.prems
  note f = clist_inv_Cons [OF inv]
  let ?bp = "cblk s b"
  let ?on = "c_last ?bp - c_first ?bp"
  have on: "take ?on (drop (c_first ?bp) (c_data ?bp)) = cb_bytes ?bp" by (simp add: cb_bytes_def)
  consider "n = 0" | "0 < n" "?on \<le> n" | "0 < n" "n < ?on" by linarith
  then show ?case
  proof cases
    case 1
    with inv show ?thesis
      by (subst getcbp_loop.simps) (simp, rule exI [of _ "b # bs"], rule exI [of _ fs], simp)
  next
    case 2
    let ?p1 = "p\<lparr>c_cf := c_next ?bp, c_cl := (if c_next ?bp = None then None else c_cl p)\<rparr>"
    let ?s1 = "s\<lparr>cblk := (cblk s)(b := ?bp\<lparr>c_next := fl_next s\<rparr>), fl_next := Some b\<rparr>"
    have step: "getcbp_loop n out p s = getcbp_loop (n - ?on) (out @ cb_bytes ?bp) ?p1 ?s1"
      using 2 f by (subst getcbp_loop.simps) (simp add: Let_def on)
    have inv1: "clist_inv ?s1 (?p1\<lparr>c_cc := cc - int ?on\<rparr>) bs (b # fs)"
      using clist_inv_take_first [OF inv] f by (cases "c_next ?bp") simp_all
    have "cl_bytes (cblk ?s1) bs = cl_bytes (cblk s) bs" using f(6) by simp
    with Cons.IH [OF inv1, of "n - ?on" "out @ cb_bytes ?bp"] step obtain p' s' bs' fs' where
      "getcbp_loop n out p s = Some ((out @ cb_bytes ?bp) @ take (n - ?on) (cl_bytes (cblk s) bs), p', s')"
      "clist_inv s' (p'\<lparr>c_cc := cc - int ?on - int (min (n - ?on) (length (cl_bytes (cblk s) bs)))\<rparr>) bs' fs'"
      "cl_bytes (cblk s') bs' = drop (n - ?on) (cl_bytes (cblk s) bs)"
      "set bs' \<union> set fs' = set bs \<union> set (b # fs)" "c_cc p' = c_cc p"
      by (simp only: simp_thms) auto
    moreover have "cc - int ?on - int (min (n - ?on) l) = cc - int (min n (?on + l))" for l
      using 2 by (auto simp: min_def)
    ultimately show ?thesis using 2 f(8)
      by (intro exI [of _ p'] exI [of _ s'] exI [of _ bs'] exI [of _ fs']) auto
  next
    case 3
    let ?bp' = "?bp\<lparr>c_first := c_first ?bp + n\<rparr>"
    have rest: "cb_bytes ?bp' = drop n (cb_bytes ?bp)" by (simp add: cb_bytes_def drop_take add.commute)
    have "getcbp_loop n out p s = Some (out @ take n (cb_bytes ?bp), p, s\<lparr>cblk := (cblk s)(b := ?bp')\<rparr>)"
      using 3 f by (subst getcbp_loop.simps) (simp add: Let_def cb_bytes_def min_def)
    moreover have "clist_inv (s\<lparr>cblk := (cblk s)(b := ?bp')\<rparr>) ((p\<lparr>c_cc := cc\<rparr>)\<lparr>c_cc := cc - int n\<rparr>) (b # bs) fs"
      by (rule clist_inv_first_shorter [OF inv])
        (use 3 f inv rest in \<open>auto simp: clist_inv_def\<close>)
    ultimately show ?thesis using 3 f rest
      by (intro exI [of _ p] exI [of _ "s\<lparr>cblk := (cblk s)(b := ?bp')\<rparr>"])
        (rule exI [of _ "b # bs"], rule exI [of _ fs], auto simp: fun_upd_same simp del: fun_upd_apply)
  qed
qed


lemma cl_room_cc:
  "cl_room (p\<lparr>c_cc := cc\<rparr>) s = map_option (\<lambda>(b, p', s'). (b, p'\<lparr>c_cc := cc\<rparr>, s')) (cl_room p s)"
  by (cases p) (auto simp: cl_room_def Let_def split: option.splits)

lemma cb_append_spec':
  assumes inv: "clist_inv s (p\<lparr>c_cc := cc\<rparr>) bs fs" and room: "cl_room p s = Some (b, p1, s1)"
    and xs: "xs \<noteq> []" "length xs \<le> fl_size s - c_last (cblk s1 b)"
  shows "c_last (cblk s1 b) < fl_size s1 \<and> fl_size s1 = fl_size s \<and> c_cc p1 = c_cc p \<and>
    (\<exists>s2 bs' fs'. cb_append b xs s1 = Some s2 \<and> clist_inv s2 (p1\<lparr>c_cc := cc + int (length xs)\<rparr>) bs' fs'
        \<and> cl_bytes (cblk s2) bs' = cl_bytes (cblk s) bs @ xs
        \<and> set bs' \<union> set fs' = set bs \<union> set fs \<and> fl_size s2 = fl_size s)"
proof -
  have room': "cl_room (p\<lparr>c_cc := cc\<rparr>) s = Some (b, p1\<lparr>c_cc := cc\<rparr>, s1)"
    using room by (simp add: cl_room_cc)
  have "c_cc p1 = c_cc p" using room by (auto simp: cl_room_def Let_def split: option.splits if_splits)
  with cl_room_full [OF inv room'] cb_append_spec [OF inv room' xs] show ?thesis by simp
qed

lemma putcbp_loop_spec:
  assumes "clist_inv s (p\<lparr>c_cc := cc\<rparr>) bs fs"
  shows "\<exists>m p' s' bs' fs'. putcbp_loop cp done p s = Some (done + m, p', s') \<and> m \<le> length cp
    \<and> clist_inv s' (p'\<lparr>c_cc := cc + int m\<rparr>) bs' fs'
    \<and> cl_bytes (cblk s') bs' = cl_bytes (cblk s) bs @ take m cp \<and> (m < length cp \<longrightarrow> fs' = [])
    \<and> set bs' \<union> set fs' = set bs \<union> set fs \<and> c_cc p' = c_cc p"
  using assms
proof (induction cp arbitrary: s p cc bs fs "done" rule: length_induct)
  case (1 cp)
  note inv = "1.prems"
  show ?case
  proof (cases "cp = [] \<or> cl_room p s = None")
    case True
    then have "putcbp_loop cp done p s = Some (done + 0, p, s)"
      by (subst putcbp_loop.simps) auto
    moreover have "cp \<noteq> [] \<Longrightarrow> fs = []" using True cl_room_None [OF inv] by (simp add: cl_room_cc)
    ultimately show ?thesis using inv
      by (intro exI [of _ 0] exI [of _ p] exI [of _ s]) (rule exI [of _ bs], rule exI [of _ fs], auto)
  next
    case False
    then obtain b p1 s1 where room: "cl_room p s = Some (b, p1, s1)" by auto
    let ?on = "fl_size s1 - c_last (cblk s1 b)"
    have c: "cl_room (p\<lparr>c_cc := cc\<rparr>) s = Some (b, p1\<lparr>c_cc := cc\<rparr>, s1)" using room by (simp add: cl_room_cc)
    note full = cl_room_full [OF inv c]
    show ?thesis
    proof (cases "?on \<le> length cp")
      case True
      have "take ?on cp \<noteq> []" "length (take ?on cp) \<le> fl_size s - c_last (cblk s1 b)"
        using False full True by auto
      moreover have "length (take ?on cp) = ?on" using True by simp
      ultimately obtain s2 bs2 fs2 where
        2: "cb_append b (take ?on cp) s1 = Some s2" "clist_inv s2 (p1\<lparr>c_cc := cc + int ?on\<rparr>) bs2 fs2"
        "cl_bytes (cblk s2) bs2 = cl_bytes (cblk s) bs @ take ?on cp"
        "set bs2 \<union> set fs2 = set bs \<union> set fs" "c_cc p1 = c_cc p"
        using cb_append_spec' [OF inv room, of "take ?on cp"] by metis
      have step: "putcbp_loop cp done p s = putcbp_loop (drop ?on cp) (done + ?on) p1 s2"
        using False room 2(1) True full by (subst putcbp_loop.simps) (simp add: Let_def)
      have "length (drop ?on cp) < length cp" using full False by (cases cp) auto
      with "1.IH" 2(2) obtain m p' s' bs' fs' where
        "putcbp_loop (drop ?on cp) (done + ?on) p1 s2 = Some (done + ?on + m, p', s')" "m \<le> length (drop ?on cp)"
        "clist_inv s' (p'\<lparr>c_cc := cc + int ?on + int m\<rparr>) bs' fs'"
        "cl_bytes (cblk s') bs' = cl_bytes (cblk s2) bs2 @ take m (drop ?on cp)"
        "m < length (drop ?on cp) \<longrightarrow> fs' = []" "set bs' \<union> set fs' = set bs2 \<union> set fs2" "c_cc p' = c_cc p1"
        by blast
      with 2 step True show ?thesis
        by (intro exI [of _ "?on + m"] exI [of _ p'] exI [of _ s'], rule_tac exI [of _ bs'], rule_tac exI [of _ fs'])
          (auto simp: take_add add.assoc)
    next
      case fits: False
      have "length cp \<le> fl_size s - c_last (cblk s1 b)" using fits full by auto
      with cb_append_spec' [OF inv room] False obtain s2 bs2 fs2 where
        2: "cb_append b cp s1 = Some s2" "clist_inv s2 (p1\<lparr>c_cc := cc + int (length cp)\<rparr>) bs2 fs2"
        "cl_bytes (cblk s2) bs2 = cl_bytes (cblk s) bs @ cp"
        "set bs2 \<union> set fs2 = set bs \<union> set fs" "c_cc p1 = c_cc p"
        by blast
      have "putcbp_loop cp done p s = Some (done + length cp, p1, s2)"
        using False room 2(1) fits full by (subst putcbp_loop.simps) (simp add: Let_def)
      with 2 show ?thesis
        by (intro exI [of _ "length cp"] exI [of _ p1] exI [of _ s2], rule_tac exI [of _ bs2], rule_tac exI [of _ fs2])
          auto
    qed
  qed
qed


section \<open>The byte-queue interface\<close>

text \<open>
  What a terminal driver relies on when it pairs \<^verbatim>\<open>putc\<close> with \<^verbatim>\<open>getc\<close>: a put that returns 0 appends the
  byte, one that returns -1 changes nothing, a get takes the oldest byte or returns -1 when there
  is none.
\<close>

locale byte_queue =
  fixes put :: "int \<Rightarrow> 'q \<Rightarrow> (int \<times> 'q) option"
    and get :: "'q \<Rightarrow> (int \<times> 'q) option"
    and bytes :: "'q \<Rightarrow> u8 list"
    and inv :: "'q \<Rightarrow> bool"
  assumes put_ok: "inv q \<Longrightarrow> \<exists>r q'. put c q = Some (r, q') \<and> inv q'
      \<and> (r = 0 \<and> bytes q' = bytes q @ [word_of_int c] \<or> r = -1 \<and> q' = q)"
    and get_empty: "inv q \<Longrightarrow> bytes q = [] \<Longrightarrow> get q = Some (-1, q)"
    and get_ok: "inv q \<Longrightarrow> bytes q = b # bs \<Longrightarrow> \<exists>q'. get q = Some (uint b, q') \<and> inv q' \<and> bytes q' = bs"

text \<open>Putting a string byte by byte until the first failure; taking up to \<open>n\<close> bytes.\<close>

fun put_all :: "(int \<Rightarrow> 'q \<Rightarrow> (int \<times> 'q) option) \<Rightarrow> u8 list \<Rightarrow> 'q \<Rightarrow> (nat \<times> 'q) option" where
  "put_all put [] q = Some (0, q)"
| "put_all put (c # cs) q =
     (case put (uint c) q of
        None \<Rightarrow> None
      | Some (r, q') \<Rightarrow> if r = -1 then Some (0, q')
                       else map_option (\<lambda>(n, q''). (Suc n, q'')) (put_all put cs q'))"

fun get_many :: "('q \<Rightarrow> (int \<times> 'q) option) \<Rightarrow> nat \<Rightarrow> 'q \<Rightarrow> (int list \<times> 'q) option" where
  "get_many get 0 q = Some ([], q)"
| "get_many get (Suc n) q =
     (case get q of
        None \<Rightarrow> None
      | Some (r, q') \<Rightarrow> if r = -1 then Some ([], q')
                       else map_option (\<lambda>(rs, q''). (r # rs, q'')) (get_many get n q'))"

context byte_queue
begin

lemma put_all_spec:
  "inv q \<Longrightarrow> \<exists>n q'. put_all put cs q = Some (n, q') \<and> n \<le> length cs \<and> inv q'
     \<and> bytes q' = bytes q @ take n cs"
proof (induction cs arbitrary: q)
  case (Cons c cs)
  from put_ok [OF Cons.prems, of "uint c"] obtain r q' where
    1: "put (uint c) q = Some (r, q')" "inv q'"
      "r = 0 \<and> bytes q' = bytes q @ [c] \<or> r = -1 \<and> q' = q" by auto
  show ?case
  proof (cases "r = -1")
    case True
    with 1 Cons.prems show ?thesis by (intro exI [of _ 0] exI [of _ q']) auto
  next
    case False
    with 1 Cons.IH [OF 1(2)] obtain n q'' where "put_all put cs q' = Some (n, q'')" "n \<le> length cs"
      "inv q''" "bytes q'' = bytes q' @ take n cs" by blast
    with 1 False show ?thesis by (intro exI [of _ "Suc n"] exI [of _ q'']) auto
  qed
qed simp

lemma get_many_spec:
  "inv q \<Longrightarrow> \<exists>q'. get_many get n q = Some (map uint (take n (bytes q)), q') \<and> inv q'
     \<and> bytes q' = drop n (bytes q)"
proof (induction n arbitrary: q)
  case (Suc n)
  show ?case
  proof (cases "bytes q")
    case Nil
    with get_empty [OF Suc.prems] Suc.prems show ?thesis by simp
  next
    case (Cons b bs)
    from get_ok [OF Suc.prems Cons] obtain q' where
      1: "get q = Some (uint b, q')" "inv q'" "bytes q' = bs" by blast
    from Suc.IH [OF 1(2)] obtain q'' where "get_many get n q' = Some (map uint (take n bs), q'')"
      "inv q''" "bytes q'' = drop n bs" using 1(3) by auto
    moreover have "uint b \<noteq> -1" using uint_ge_0 [of b] by linarith
    ultimately show ?thesis using 1 Cons by auto
  qed
qed simp

lemma fifo:
  assumes "inv q"
  shows "\<exists>n q' q''. put_all put cs q = Some (n, q')
    \<and> get_many get (length (bytes q) + n) q' = Some (map uint (bytes q @ take n cs), q'')
    \<and> inv q'' \<and> bytes q'' = []"
proof -
  from put_all_spec [OF assms] obtain n q' where 1: "put_all put cs q = Some (n, q')" "n \<le> length cs"
    "inv q'" "bytes q' = bytes q @ take n cs" by blast
  from get_many_spec [OF 1(3), of "length (bytes q) + n"] 1 show ?thesis by auto
qed

end

text \<open>
  The instance: a queue together with the block pool, abstracted by following the chain from
  \<^verbatim>\<open>c_cf\<close> for as many blocks as there are characters (every block holds at least one).
\<close>

fun cb_walk :: "nat \<Rightarrow> (nat \<Rightarrow> cblock) \<Rightarrow> nat option \<Rightarrow> nat list" where
  "cb_walk (Suc n) h (Some b) = b # cb_walk n h (c_next (h b))"
| "cb_walk n h q = []"

definition clist_bytes :: "clist \<times> cstate \<Rightarrow> u8 list" where
  "clist_bytes = (\<lambda>(p, s). cl_bytes (cblk s) (cb_walk (nat (c_cc p)) (cblk s) (c_cf p)))"

definition clist_ok :: "clist \<times> cstate \<Rightarrow> bool" where
  "clist_ok = (\<lambda>(p, s). \<exists>bs fs. clist_inv s p bs fs)"

definition putc_q :: "int \<Rightarrow> clist \<times> cstate \<Rightarrow> (int \<times> clist \<times> cstate) option" where
  "putc_q c = (\<lambda>(p, s). putc c p s)"

definition getc_q :: "clist \<times> cstate \<Rightarrow> (int \<times> clist \<times> cstate) option" where
  "getc_q = (\<lambda>(p, s). getc p s)"

lemma cb_walk_path:
  "cb_path h q bs None \<Longrightarrow> length bs \<le> n \<Longrightarrow> cb_walk n h q = bs"
proof (induction bs arbitrary: q n)
  case (Cons b bs)
  then show ?case by (cases n) auto
qed (cases n; auto)

lemma cl_bytes_length:
  "\<forall>b\<in>set bs. cb_ok sz (h b) \<and> sz \<le> length (c_data (h b)) \<Longrightarrow> length bs \<le> length (cl_bytes h bs)"
proof (induction bs)
  case (Cons b bs)
  then have "cb_bytes (h b) \<noteq> []" using cb_bytes_not_Nil by force
  then have "1 \<le> length (cb_bytes (h b))" by (cases "cb_bytes (h b)") auto
  with Cons show ?case by simp
qed simp

lemma clist_bytes_eq:
  assumes "clist_inv s p bs fs"
  shows "clist_bytes (p, s) = cl_bytes (cblk s) bs"
proof -
  have "length bs \<le> nat (c_cc p)"
    using assms cl_bytes_length [of bs "fl_size s" "cblk s"] by (auto simp: clist_inv_def)
  with assms show ?thesis by (auto simp: clist_bytes_def clist_inv_def cb_walk_path)
qed

lemma clist_okI [wf_intros]: "clist_inv s p bs fs \<Longrightarrow> clist_ok (p, s)"
  by (auto simp: clist_ok_def)

interpretation tty_queue: byte_queue putc_q getc_q clist_bytes clist_ok
proof unfold_locales
  fix q c
  assume "clist_ok q"
  then obtain p s bs fs where q: "q = (p, s)" "clist_inv s p bs fs"
    by (cases q) (auto simp: clist_ok_def)
  have bytes: "clist_bytes q = cl_bytes (cblk s) bs" using clist_bytes_eq [OF q(2)] q(1) by simp
  show "\<exists>r q'. putc_q c q = Some (r, q') \<and> clist_ok q' \<and>
      (r = 0 \<and> clist_bytes q' = clist_bytes q @ [word_of_int c] \<or> r = -1 \<and> q' = q)"
    using putc_spec [OF q(2), of c] q
    by (auto simp: putc_q_def bytes [unfolded q] clist_bytes_eq intro: wf_intros)
  { assume "clist_bytes q = []"
    with getc_spec [OF q(2)] bytes q show "getc_q q = Some (-1, q)" by (simp add: getc_q_def) }
  { fix b bs1 assume "clist_bytes q = b # bs1"
    with getc_spec [OF q(2)] bytes q
    show "\<exists>q'. getc_q q = Some (uint b, q') \<and> clist_ok q' \<and> clist_bytes q' = bs1"
      by (auto simp: getc_q_def clist_bytes_eq intro: wf_intros) }
qed


section \<open>Properties\<close>

text \<open>
  C4: Terminal queues are first-in first-out and lose nothing. Putting a string byte by byte into a
  sound queue and then taking as many bytes as the queue holds yields the bytes that were there,
  followed by the accepted prefix of the string, and leaves the queue empty; no call follows a null
  pointer or leaves a block's data array.
\<close>

theorem clist_fifo:
  assumes "clist_ok q"
  shows "\<exists>n q' q''. put_all putc_q cs q = Some (n, q')
    \<and> get_many getc_q (length (clist_bytes q) + n) q' = Some (map uint (clist_bytes q @ take n cs), q'')
    \<and> clist_ok q'' \<and> clist_bytes q'' = []"
  using assms by (rule tty_queue.fifo)

text \<open>A queue of two bytes in block 1, with block 0 free.\<close>

definition demo_blocks :: "nat \<Rightarrow> cblock" where
  "demo_blocks = (\<lambda>b. \<lparr>c_next = None, c_first = 0, c_last = (if b = 1 then 2 else 0), c_data = replicate 64 7\<rparr>)"

definition demo_queue :: "clist \<times> cstate" where
  "demo_queue = (\<lparr>c_cc = 2, c_cf = Some 1, c_cl = Some 1\<rparr>,
     \<lparr>cblk = demo_blocks, fl_next = Some 0, fl_size = 64, fl_flag = False, fl_wakeups = 0\<rparr>)"

lemma demo_queue_inv: "clist_inv (snd demo_queue) (fst demo_queue) [1] [0]"
  by (simp add: demo_queue_def demo_blocks_def clist_inv_def cb_ok_def cl_bytes_def cb_bytes_def)

lemma demo_queue_ok: "clist_ok demo_queue"
  using clist_okI [OF demo_queue_inv] by simp

lemma demo_queue_bytes: "cl_bytes (cblk (snd demo_queue)) [1] = [7, 7]"
proof -
  have "cb_bytes (demo_blocks 1) = take 2 (replicate 64 7)"
    by (simp only: cb_bytes_def demo_blocks_def cblock.simps if_True diff_zero drop_0 refl)
  also have "\<dots> = replicate 2 7" by (simp only: take_replicate) simp
  also have "\<dots> = [7, 7]" by (simp add: numeral_2_eq_2)
  finally show ?thesis by (simp add: cl_bytes_def demo_queue_def)
qed

theorem clist_fifo_witness:
  "\<exists>n q' q''. put_all putc_q [1, 2] demo_queue = Some (n, q')
    \<and> get_many getc_q (length (clist_bytes demo_queue) + n) q'
        = Some (map uint (clist_bytes demo_queue @ take n [1, 2]), q'')
    \<and> clist_ok q'' \<and> clist_bytes q'' = []"
  by (rule clist_fifo [OF demo_queue_ok])

text \<open>
  \<^verbatim>\<open>putc\<close> fails only for want of a block. On a sound queue it appends the (truncated) character
  and returns 0, or the free list is empty and it returns -1 with nothing changed; the blocks of the
  queue and of the free list together stay the same.
\<close>

theorem putc_appends:
  assumes "clist_inv s p bs fs"
  shows "(putc c p s = Some (-1, p, s) \<and> fs = []) \<or>
    (\<exists>p' s' bs' fs'. putc c p s = Some (0, p', s') \<and> clist_inv s' p' bs' fs'
      \<and> cl_bytes (cblk s') bs' = cl_bytes (cblk s) bs @ [word_of_int c]
      \<and> set bs' \<union> set fs' = set bs \<union> set fs)"
  using assms by (rule putc_spec)

theorem putc_appends_witness:
  "\<exists>p' s' bs' fs'. putc 321 (fst demo_queue) (snd demo_queue) = Some (0, p', s') \<and> clist_inv s' p' bs' fs'
      \<and> cl_bytes (cblk s') bs' = [7, 7, 65]"
proof -
  have "word_of_int 321 = (65 :: u8)" by simp
  with putc_appends [OF demo_queue_inv, of 321] obtain p' s' bs' fs'
    where "putc 321 (fst demo_queue) (snd demo_queue) = Some (0, p', s')" "clist_inv s' p' bs' fs'"
      "cl_bytes (cblk s') bs' = [7, 7] @ [65]"
    unfolding demo_queue_bytes by (elim disjE conjE exE) (simp only: list.distinct, metis)
  then show ?thesis by (intro exI conjI) simp_all
qed

text \<open>
  Block transfers move bytes in order and account for them. \<^verbatim>\<open>putcbp\<close> appends the longest prefix
  the free blocks can take (all of it unless the free list is used up) and returns its length;
  \<^verbatim>\<open>getcbp\<close> then takes the first \<open>n\<close> bytes of the queue, or all of them if there are fewer, and
  leaves the rest. Both end, without a fault, in sound queues.
\<close>

theorem putcbp_getcbp:
  assumes "clist_inv s p bs fs"
  shows "\<exists>m p1 s1 bs1 fs1 p2 s2 bs2 fs2. putcbp p cp s = Some (m, p1, s1)
    \<and> m \<le> length cp \<and> (m < length cp \<longrightarrow> fs1 = []) \<and> clist_inv s1 p1 bs1 fs1
    \<and> getcbp p1 n s1 = Some (take n (cl_bytes (cblk s) bs @ take m cp), p2, s2)
    \<and> clist_inv s2 p2 bs2 fs2 \<and> cl_bytes (cblk s2) bs2 = drop n (cl_bytes (cblk s) bs @ take m cp)
    \<and> set bs2 \<union> set fs2 = set bs \<union> set fs"
proof -
  from assms have "clist_inv s (p\<lparr>c_cc := c_cc p\<rparr>) bs fs" by simp
  from putcbp_loop_spec [OF this, of cp 0] obtain m p1 s1 bs1 fs1 where
    1: "putcbp_loop cp 0 p s = Some (m, p1, s1)" "m \<le> length cp"
    "clist_inv s1 (p1\<lparr>c_cc := c_cc p + int m\<rparr>) bs1 fs1"
    "cl_bytes (cblk s1) bs1 = cl_bytes (cblk s) bs @ take m cp" "m < length cp \<longrightarrow> fs1 = []"
    "set bs1 \<union> set fs1 = set bs \<union> set fs" "c_cc p1 = c_cc p" by auto
  let ?p1 = "p1\<lparr>c_cc := c_cc p1 + int m\<rparr>"
  have put: "putcbp p cp s = Some (m, ?p1, s1)" using 1(1) by (simp add: putcbp_def)
  have inv1: "clist_inv s1 ?p1 bs1 fs1" using 1(3,7) by simp
  then have "clist_inv s1 (?p1\<lparr>c_cc := c_cc ?p1\<rparr>) bs1 fs1" by simp
  from getcbp_loop_spec [OF this, of n "[]"] obtain p2 s2 bs2 fs2 where
    2: "getcbp_loop n [] ?p1 s1 = Some (take n (cl_bytes (cblk s1) bs1), p2, s2)"
    "clist_inv s2 (p2\<lparr>c_cc := c_cc ?p1 - int (min n (length (cl_bytes (cblk s1) bs1)))\<rparr>) bs2 fs2"
    "cl_bytes (cblk s2) bs2 = drop n (cl_bytes (cblk s1) bs1)"
    "set bs2 \<union> set fs2 = set bs1 \<union> set fs1" "c_cc p2 = c_cc ?p1" by auto
  let ?p2 = "p2\<lparr>c_cc := c_cc p2 - int (length (take n (cl_bytes (cblk s1) bs1)))\<rparr>"
  have get: "getcbp ?p1 n s1 = Some (take n (cl_bytes (cblk s1) bs1), ?p2, s2)"
    using 2(1) by (simp add: getcbp_def)
  have "clist_inv s2 ?p2 bs2 fs2" using 2(2,5) by (simp add: min.commute)
  with put get inv1 1 2 show ?thesis by auto
qed

theorem putcbp_getcbp_witness:
  "\<exists>m p1 s1 bs1 fs1 p2 s2 bs2 fs2. putcbp (fst demo_queue) [3, 4] (snd demo_queue) = Some (m, p1, s1)
    \<and> m \<le> length [3, 4 :: u8] \<and> (m < length [3, 4 :: u8] \<longrightarrow> fs1 = []) \<and> clist_inv s1 p1 bs1 fs1
    \<and> getcbp p1 3 s1 = Some (take 3 (cl_bytes (cblk (snd demo_queue)) [1] @ take m [3, 4]), p2, s2)
    \<and> clist_inv s2 p2 bs2 fs2
    \<and> cl_bytes (cblk s2) bs2 = drop 3 (cl_bytes (cblk (snd demo_queue)) [1] @ take m [3, 4])
    \<and> set bs2 \<union> set fs2 = {0, 1}"
  using putcbp_getcbp [OF demo_queue_inv, of "[3, 4]" 3] by (simp add: insert_commute)

end
