(* ===== verification/Callout.thy ===== *)
theory Callout
  imports Kernel_Prelude
begin

text \<open>
  The callout table (\<^verbatim>\<open>sys/os/timeout.c\<close>, \<^verbatim>\<open>sys/callo.h\<close> and the part of
  \<^verbatim>\<open>clock\<close> in \<^verbatim>\<open>sys/os/clock.c\<close> that drives it): an array of entries, each with the
  number of ticks it is due after the entry before it, ended by a null routine. Routines and their
  arguments are addresses; calling one is a parameter of the model. Ticks are plain integers:
  no sum of times in the table comes near the range of an \<^verbatim>\<open>int\<close>. A result \<open>None\<close> is the
  panic or an access outside the table.
\<close>

section \<open>State\<close>

record callo =
  c_time :: int
  c_id :: int
  c_arg :: nat
  c_func :: nat

record callouts =
  co_tab :: "callo list"
  co_timeid :: int

section \<open>Operations\<close>

text \<open>
  \<^verbatim>\<open>timeout\<close>: the search for the place (which uses up the times passed over), then the shift of
  the rest of the table, terminator included, by one slot.
\<close>

fun to_seek :: "int \<Rightarrow> callo list \<Rightarrow> callo list \<times> int \<times> callo list" where
  "to_seek t [] = ([], t, [])"
| "to_seek t (e # r) =
     (if c_func e \<noteq> 0 \<and> c_time e \<le> t then
        (let (pre, t', suf) = to_seek (t - c_time e) r in (e # pre, t', suf))
      else ([], t, e # r))"

fun to_open :: "callo \<Rightarrow> callo list \<Rightarrow> callo list option" where
  "to_open n [] = None"
| "to_open n (e # r) =
     (if c_func e = 0 then (case r of [] \<Rightarrow> None | x # r' \<Rightarrow> Some (n # e # r'))
      else map_option ((#) n) (to_open e r))"

definition timeout :: "nat \<Rightarrow> nat \<Rightarrow> int \<Rightarrow> callouts \<Rightarrow> (int \<times> callouts) option" where
  "timeout f a tim st =
     (let v_call = length (co_tab st) in
      if v_call < 2 \<or> c_func (co_tab st ! (v_call - 2)) \<noteq> 0 then None
      else case to_seek tim (co_tab st) of
        (pre, t, []) \<Rightarrow> None
      | (pre, t, e # r) \<Rightarrow>
          let tid = to_long (co_timeid st + 1) in
          (case to_open \<lparr>c_time = t, c_id = tid, c_arg = a, c_func = f\<rparr> (e\<lparr>c_time := c_time e - t\<rparr> # r) of
             None \<Rightarrow> None
           | Some suf \<Rightarrow> Some (tid, \<lparr>co_tab = pre @ suf, co_timeid = tid\<rparr>)))"

text \<open>
  The copying loop that closes a gap: the entries from the source pointer on are moved down to the
  destination pointer until the null routine has been copied; only the routine of that last entry
  is written.
\<close>

fun callo_copy :: "callo list \<Rightarrow> callo list \<Rightarrow> callo list option" where
  "callo_copy (d # ds) (e # es) =
     (if c_func e = 0 then Some (d\<lparr>c_func := 0\<rparr> # ds) else map_option ((#) e) (callo_copy ds es))"
| "callo_copy _ _ = None"

text \<open>
  \<^verbatim>\<open>timein\<close>: the routines of the leading entries that are due are called in order, the table
  being read afresh after each call since a routine may have changed it; \<open>n\<close> is the number of
  slots the loop can still visit.
\<close>

primrec timein_run ::
  "(nat \<Rightarrow> nat \<Rightarrow> callouts \<times> 'k \<Rightarrow> callouts \<times> 'k) \<Rightarrow> nat \<Rightarrow> nat \<Rightarrow> callouts \<times> 'k
    \<Rightarrow> (nat \<times> callouts \<times> 'k) option" where
  "timein_run call 0 i s = None"
| "timein_run call (Suc n) i s =
     (if length (co_tab (fst s)) \<le> i then None
      else let e = co_tab (fst s) ! i in
        if c_func e \<noteq> 0 \<and> c_time e \<le> 0 then timein_run call n (Suc i) (call (c_func e) (c_arg e) s)
        else Some (i, s))"

definition timein ::
  "(nat \<Rightarrow> nat \<Rightarrow> callouts \<times> 'k \<Rightarrow> callouts \<times> 'k) \<Rightarrow> callouts \<times> 'k \<Rightarrow> (callouts \<times> 'k) option" where
  "timein call s =
     (case co_tab (fst s) of
        [] \<Rightarrow> None
      | e # _ \<Rightarrow>
          if c_func e = 0 then Some s
          else if c_time e \<le> 0 then
            (case timein_run call (length (co_tab (fst s))) 0 s of
               None \<Rightarrow> None
             | Some (i, st, k) \<Rightarrow>
                 map_option (\<lambda>cs. (st\<lparr>co_tab := cs\<rparr>, k)) (callo_copy (co_tab st) (drop i (co_tab st))))
          else Some s)"

text \<open>What a clock interrupt does to the table; \<open>basepri\<close> is \<^verbatim>\<open>BASEPRI(ps)\<close>.\<close>

fun callo_dec :: "callo list \<Rightarrow> callo list option" where
  "callo_dec [] = None"
| "callo_dec (e # r) =
     (if c_time e \<le> 0 \<and> c_func e \<noteq> 0 then map_option ((#) e) (callo_dec r)
      else Some (e\<lparr>c_time := c_time e - 1\<rparr> # r))"

definition clock_callouts ::
  "(nat \<Rightarrow> nat \<Rightarrow> callouts \<times> 'k \<Rightarrow> callouts \<times> 'k) \<Rightarrow> bool \<Rightarrow> callouts \<times> 'k \<Rightarrow> (callouts \<times> 'k) option" where
  "clock_callouts call basepri s =
     (case co_tab (fst s) of
        [] \<Rightarrow> None
      | e # _ \<Rightarrow>
          (case (if c_func e \<noteq> 0 then callo_dec (co_tab (fst s)) else Some (co_tab (fst s))) of
             None \<Rightarrow> None
           | Some cs \<Rightarrow>
               let s' = ((fst s)\<lparr>co_tab := cs\<rparr>, snd s) in
               if \<not> basepri \<and> c_time (hd cs) \<le> 0 then timein call s' else Some s'))"

text \<open>
  \<^verbatim>\<open>cancelto\<close> and \<^verbatim>\<open>untimeout\<close> run over all slots but the last, whatever the terminator says,
  adding up times; on the first match the time of the entry goes to the next one and the gap is
  closed. They differ in the test only.
\<close>

fun callo_cancel :: "(callo \<Rightarrow> bool) \<Rightarrow> int \<Rightarrow> callo list \<Rightarrow> (int \<times> callo list) option" where
  "callo_cancel P t (e # f # r) =
     (let t' = t + c_time e in
      if P e then
        (let f' = f\<lparr>c_time := c_time f + c_time e\<rparr> in
         map_option (Pair t') (callo_copy (e # f' # r) (f' # r)))
      else map_option (\<lambda>(v, cs). (v, e # cs)) (callo_cancel P t' (f # r)))"
| "callo_cancel P t cs = Some (0, cs)"

definition cancelto :: "nat \<Rightarrow> nat \<Rightarrow> callouts \<Rightarrow> (int \<times> callouts) option" where
  "cancelto f a st =
     map_option (\<lambda>(v, cs). (v, st\<lparr>co_tab := cs\<rparr>))
       (callo_cancel (\<lambda>e. c_func e = f \<and> c_arg e = a) 0 (co_tab st))"

definition untimeout :: "int \<Rightarrow> callouts \<Rightarrow> (int \<times> callouts) option" where
  "untimeout tid st =
     map_option (\<lambda>(v, cs). (v, st\<lparr>co_tab := cs\<rparr>)) (callo_cancel (\<lambda>e. c_id e = tid) 0 (co_tab st))"

text \<open>
  \<^verbatim>\<open>delay\<close> up to its call of \<^verbatim>\<open>sleep\<close>: the channel slept on, \<open>None\<close> for an immediate return.
  \<open>wakeup_fn\<close> is the address of \<^verbatim>\<open>wakeup\<close>, \<open>procp\<close> that of the process.
\<close>

definition delay :: "nat \<Rightarrow> nat \<Rightarrow> int \<Rightarrow> callouts \<Rightarrow> (nat option \<times> callouts) option" where
  "delay wakeup_fn procp ticks st =
     (if ticks \<le> 0 then Some (None, st)
      else map_option (\<lambda>(tid, st'). (Some (procp + 1), st')) (timeout wakeup_fn (procp + 1) ticks st))"

section \<open>Abstraction and invariant\<close>

text \<open>
  The table stands for the list of pending calls with the number of ticks until each is due. The
  invariant: there is a terminator, and no pending time is negative.
\<close>

type_synonym pending_call = "int \<times> nat \<times> nat \<times> int"

abbreviation callo_live :: "callo list \<Rightarrow> callo list" where
  "callo_live cs \<equiv> takeWhile (\<lambda>e. c_func e \<noteq> 0) cs"

primrec due_times :: "int \<Rightarrow> callo list \<Rightarrow> pending_call list" where
  "due_times t [] = []"
| "due_times t (e # r) = (t + c_time e, c_func e, c_arg e, c_id e) # due_times (t + c_time e) r"

definition pending :: "callouts \<Rightarrow> pending_call list" where
  "pending st = due_times 0 (callo_live (co_tab st))"

definition callo_ok :: "callo list \<Rightarrow> bool" where
  "callo_ok cs \<longleftrightarrow> length (callo_live cs) < length cs \<and> (\<forall>e \<in> set (callo_live cs). 0 \<le> c_time e)"

definition callouts_wf :: "callouts \<Rightarrow> bool" where
  "callouts_wf st \<longleftrightarrow> callo_ok (co_tab st)"

lemma callo_ok_Nil [simp]: "\<not> callo_ok []"
  by (simp add: callo_ok_def)

lemma callo_ok_Cons [simp]: "callo_ok (e # r) \<longleftrightarrow> c_func e = 0 \<or> 0 \<le> c_time e \<and> callo_ok r"
  by (auto simp: callo_ok_def)

section \<open>Scheduling\<close>

lemma due_times_append [simp]:
  "due_times t (xs @ ys) = due_times t xs @ due_times (t + sum_list (map c_time xs)) ys"
  by (induction xs arbitrary: t) (simp_all add: algebra_simps)

lemma due_times_mono:
  assumes "\<forall>e \<in> set es. 0 \<le> c_time e" "x \<in> set (due_times t es)"
  shows "t \<le> fst x"
  using assms by (induction es arbitrary: t) (auto, smt (verit, best))

lemma to_seek_spec:
  assumes "to_seek t cs = (pre, t', suf)" "callo_ok cs" "0 \<le> t"
  shows "\<exists>e r. suf = e # r \<and> cs = pre @ suf \<and> (\<forall>x \<in> set pre. c_func x \<noteq> 0 \<and> 0 \<le> c_time x)
    \<and> t = t' + sum_list (map c_time pre) \<and> 0 \<le> t' \<and> callo_ok suf \<and> (c_func e = 0 \<or> t' < c_time e)"
  using assms
proof (induction t cs arbitrary: pre t' suf rule: to_seek.induct)
  case (2 t e r)
  show ?case
  proof (cases "c_func e \<noteq> 0 \<and> c_time e \<le> t")
    case True
    obtain pre2 t2 suf2 where *: "to_seek (t - c_time e) r = (pre2, t2, suf2)" by (cases "to_seek (t - c_time e) r")
    with True 2(2) have eq: "pre = e # pre2" "t' = t2" "suf = suf2" by auto
    have "callo_ok r" "0 \<le> c_time e" "0 \<le> t - c_time e" using 2(3) True by simp_all
    from 2(1) [OF True _ this(1,3)] * obtain e' r' where "suf2 = e' # r'" "r = pre2 @ suf2"
      "\<forall>x \<in> set pre2. c_func x \<noteq> 0 \<and> 0 \<le> c_time x" "t - c_time e = t2 + sum_list (map c_time pre2)"
      "0 \<le> t2" "callo_ok suf2" "c_func e' = 0 \<or> t2 < c_time e'" by blast
    with eq True \<open>0 \<le> c_time e\<close> show ?thesis by (intro exI [of _ e'] exI [of _ r']) simp
  next
    case False
    with 2 show ?thesis by auto
  qed
qed simp

lemma to_open_spec:
  assumes "to_open n cs = Some cs'" "c_func n \<noteq> 0"
  shows "callo_live cs' = n # callo_live cs \<and> length cs' = length cs \<and> Suc (length (callo_live cs)) < length cs"
  using assms
proof (induction n cs arbitrary: cs' rule: to_open.induct)
  case (2 n e r)
  show ?case
  proof (cases "c_func e = 0")
    case True
    with 2 show ?thesis by (cases r) auto
  next
    case False
    with 2(2) obtain r' where "to_open e r = Some r'" "cs' = n # r'" by auto
    with 2(1) [OF False this(1)] False 2(3) show ?thesis by simp
  qed
qed simp

lemma timeout_inserts:
  assumes "callouts_wf st" "0 \<le> tim" "f \<noteq> 0" "timeout f a tim st = Some (tid, st')"
  obtains xs ys where "callouts_wf st'" "tid = to_long (co_timeid st + 1)" "co_timeid st' = tid"
    "length (co_tab st') = length (co_tab st)"
    "pending st = xs @ ys" "pending st' = xs @ (tim, f, a, tid) # ys"
    "\<forall>x \<in> set xs. fst x \<le> tim" "\<forall>y \<in> set ys. tim < fst y"
proof -
  obtain pre t suf where seek: "to_seek tim (co_tab st) = (pre, t, suf)" by (cases "to_seek tim (co_tab st)")
  from to_seek_spec [OF this assms(1) [unfolded callouts_wf_def] assms(2)] obtain e r where sp: "suf = e # r" "co_tab st = pre @ suf"
    "\<forall>x \<in> set pre. c_func x \<noteq> 0 \<and> 0 \<le> c_time x" "tim = t + sum_list (map c_time pre)" "0 \<le> t"
    "callo_ok suf" "c_func e = 0 \<or> t < c_time e"
    by blast
  define n where "n = \<lparr>c_time = t, c_id = to_long (co_timeid st + 1), c_arg = a, c_func = f\<rparr>"
  have run: "timeout f a tim st = (if length (co_tab st) < 2 \<or> c_func (co_tab st ! (length (co_tab st) - 2)) \<noteq> 0
    then None else case to_open n (e\<lparr>c_time := c_time e - t\<rparr> # r) of None \<Rightarrow> None
      | Some s \<Rightarrow> Some (to_long (co_timeid st + 1), \<lparr>co_tab = pre @ s, co_timeid = to_long (co_timeid st + 1)\<rparr>))"
    unfolding timeout_def Let_def seek sp(1) n_def by simp
  from assms(4) obtain suf' where op: "to_open n (e\<lparr>c_time := c_time e - t\<rparr> # r) = Some suf'"
    unfolding run by (cases "to_open n (e\<lparr>c_time := c_time e - t\<rparr> # r)") (simp_all split: if_split_asm)
  from assms(4) have st': "st' = \<lparr>co_tab = pre @ suf', co_timeid = tid\<rparr>" and tid: "tid = to_long (co_timeid st + 1)"
    unfolding run op by (auto split: if_split_asm)
  have live: "callo_live suf' = n # callo_live (e\<lparr>c_time := c_time e - t\<rparr> # r)" "length suf' = length suf"
    "Suc (length (callo_live (e\<lparr>c_time := c_time e - t\<rparr> # r))) < length suf"
    using to_open_spec [OF op] assms(3) by (simp_all add: n_def sp(1))
  define xs ys where "xs = due_times 0 pre" and "ys = due_times (sum_list (map c_time pre)) (callo_live suf)"
  have pre_sum: "fst x \<le> sum_list (map c_time pre)" if "x \<in> set (due_times 0 pre)" for x
  proof -
    have "fst x \<le> u + sum_list (map c_time es)"
      if "\<forall>e \<in> set es. 0 \<le> c_time e" "x \<in> set (due_times u es)" for u es
      using that
    proof (induction es arbitrary: u)
      case (Cons e es)
      have "0 \<le> sum_list (map c_time es)" using Cons(2) by (intro sum_list_nonneg) auto
      with Cons show ?case by force
    qed simp
    from this [of pre 0] that sp(3) show ?thesis by simp
  qed
  have "callo_live (pre @ s) = pre @ callo_live s" for s
    using sp(3) by simp
  then have pend: "pending st = xs @ ys" "pending st' = xs @ (tim, f, a, tid) # ys"
    using live(1) sp(1,2,4,7) tid by (auto simp: pending_def st' xs_def ys_def n_def algebra_simps)
  have "\<forall>x \<in> set xs. fst x \<le> tim" using pre_sum sp(4,5) unfolding xs_def by force
  moreover have "\<forall>y \<in> set ys. tim < fst y"
  proof (cases "c_func e = 0")
    case False
    with sp(6) have tl: "\<forall>x \<in> set (callo_live r). 0 \<le> c_time x" by (simp add: sp(1) callo_ok_def)
    show ?thesis
    proof
      fix y assume "y \<in> set ys"
      with False have "y = (sum_list (map c_time pre) + c_time e, c_func e, c_arg e, c_id e)
        \<or> y \<in> set (due_times (sum_list (map c_time pre) + c_time e) (callo_live r))"
        by (auto simp: ys_def sp(1))
      with due_times_mono [OF tl, of y] False sp(4,7) show "tim < fst y" by fastforce
    qed
  qed (simp add: ys_def sp(1))
  moreover have "callouts_wf st'"
    using live sp by (auto simp: callouts_wf_def st' callo_ok_def n_def)
  ultimately show ?thesis using that pend tid live(2) sp(2) by (simp add: st')
qed

section \<open>Cancelling\<close>

lemma callo_copy_live:
  assumes "length (callo_live es) < length es" "length (callo_live es) < length ds"
  shows "\<exists>cs. callo_copy ds es = Some cs \<and> callo_live cs = callo_live es \<and> length cs = length ds"
  using assms by (induction ds es rule: callo_copy.induct) auto

lemma callo_cancel_spec:
  assumes "callo_ok (pre @ e # r)" "\<forall>x \<in> set pre. c_func x \<noteq> 0 \<and> \<not> P x" "c_func e \<noteq> 0" "P e"
  shows "\<exists>cs. callo_cancel P t (pre @ e # r) = Some (t + sum_list (map c_time pre) + c_time e, cs)
    \<and> callo_ok cs \<and> length cs = length (pre @ e # r)
    \<and> due_times t (callo_live cs) = due_times t pre @ due_times (t + sum_list (map c_time pre) + c_time e) (callo_live r)"
  using assms
proof (induction pre arbitrary: t)
  case Nil
  then obtain f r' where r: "r = f # r'" by (cases r) auto
  define f' where "f' = f\<lparr>c_time := c_time f + c_time e\<rparr>"
  have ok: "callo_ok (f' # r')" using Nil r by (auto simp: f'_def)
  then have "length (callo_live (f' # r')) < length (f' # r')" unfolding callo_ok_def by simp
  from callo_copy_live [OF this, of "e # f' # r'"] this obtain cs where
    cs: "callo_copy (e # f' # r') (f' # r') = Some cs" "callo_live cs = callo_live (f' # r')"
      "length cs = Suc (Suc (length r'))"
    by (auto simp del: callo_copy.simps takeWhile.simps)
  have "callo_ok cs" using cs ok by (simp add: callo_ok_def del: takeWhile.simps)
  moreover have "due_times t (callo_live (f' # r')) = due_times (t + c_time e) (callo_live (f # r'))"
    by (simp add: f'_def algebra_simps)
  ultimately show ?case using Nil cs by (simp add: r f'_def Let_def del: takeWhile.simps)
next
  case (Cons x pre)
  then obtain f r' where r: "pre @ e # r = f # r'" by (cases "pre @ e # r") auto
  from Cons.IH [of "t + c_time x"] Cons.prems obtain cs where
    cs: "callo_cancel P (t + c_time x) (f # r') = Some (t + c_time x + sum_list (map c_time pre) + c_time e, cs)"
      "callo_ok cs" "length cs = length (f # r')"
      "due_times (t + c_time x) (callo_live cs) =
        due_times (t + c_time x) pre @ due_times (t + c_time x + sum_list (map c_time pre) + c_time e) (callo_live r)"
    unfolding r [symmetric] by auto
  have len: "length (f # r') = length (pre @ e # r)" by (simp only: r)
  from cs Cons.prems show ?case using len by (simp add: r Let_def add.assoc)
qed

lemma callo_live_split:
  assumes "due_times t (callo_live cs) = xs @ (u, f, a, tid) # ys"
  obtains pre e r where "cs = pre @ e # r" "\<forall>x \<in> set pre. c_func x \<noteq> 0" "c_func e \<noteq> 0"
    "f = c_func e" "a = c_arg e" "tid = c_id e" "xs = due_times t pre" "u = t + sum_list (map c_time pre) + c_time e"
    "ys = due_times u (callo_live r)"
  using assms
proof (induction cs arbitrary: t xs thesis)
  case (Cons e r)
  show ?case
  proof (cases xs)
    case Nil
    with Cons(3) show ?thesis by (intro Cons(2) [of "[]" e r]) (auto split: if_splits)
  next
    case (Cons x xs')
    with Cons.prems(2) have *: "c_func e \<noteq> 0" "x = (t + c_time e, c_func e, c_arg e, c_id e)"
      "due_times (t + c_time e) (callo_live r) = xs' @ (u, f, a, tid) # ys"
      by (auto split: if_splits)
    obtain pre e' r' where "r = pre @ e' # r'" "\<forall>x \<in> set pre. c_func x \<noteq> 0" "c_func e' \<noteq> 0"
      "f = c_func e'" "a = c_arg e'" "tid = c_id e'" "xs' = due_times (t + c_time e) pre"
      "u = t + c_time e + sum_list (map c_time pre) + c_time e'" "ys = due_times u (callo_live r')"
      by (rule Cons.IH [OF _ *(3)])
    with * Cons show ?thesis by (intro Cons.prems(1) [of "e # pre" e' r']) auto
  qed
qed simp

lemma callo_cancel_pending:
  assumes "callouts_wf st" "pending st = xs @ (u, f, a, tid) # ys"
    and "\<And>e. c_func e = f \<Longrightarrow> c_arg e = a \<Longrightarrow> c_id e = tid \<Longrightarrow> P e"
    and "\<And>e t. (t, c_func e, c_arg e, c_id e) \<in> set xs \<Longrightarrow> \<not> P e"
  shows "\<exists>cs. callo_cancel P 0 (co_tab st) = Some (u, cs) \<and> callouts_wf (st\<lparr>co_tab := cs\<rparr>)
    \<and> pending (st\<lparr>co_tab := cs\<rparr>) = xs @ ys"
proof -
  from assms(2) [unfolded pending_def] obtain pre e r where
    sp: "co_tab st = pre @ e # r" "\<forall>x \<in> set pre. c_func x \<noteq> 0" "c_func e \<noteq> 0"
      "f = c_func e" "a = c_arg e" "tid = c_id e" "xs = due_times 0 pre"
      "u = 0 + sum_list (map c_time pre) + c_time e" "ys = due_times u (callo_live r)"
    by (rule callo_live_split)
  have "\<exists>t. (t, c_func x, c_arg x, c_id x) \<in> set (due_times v es)" if "x \<in> set es" for x v es
    using that by (induction es arbitrary: v) auto
  then have "\<forall>x \<in> set pre. c_func x \<noteq> 0 \<and> \<not> P x" using sp(2,7) assms(4) by metis
  from callo_cancel_spec [OF assms(1) [unfolded callouts_wf_def sp(1)] this sp(3), where t = 0] assms(3) sp
  show ?thesis by (auto simp: callouts_wf_def pending_def)
qed

section \<open>Ticking\<close>

text \<open>
  Routines that leave the table alone, with an effect \<open>eff\<close> on the rest of the system; the
  calls due within \<open>n\<close> ticks and those due later, with their new times.
\<close>

definition quiet :: "(nat \<Rightarrow> nat \<Rightarrow> 'k \<Rightarrow> 'k) \<Rightarrow> nat \<Rightarrow> nat \<Rightarrow> callouts \<times> 'k \<Rightarrow> callouts \<times> 'k" where
  "quiet eff f a s = (fst s, eff f a (snd s))"

definition run_calls :: "(nat \<Rightarrow> nat \<Rightarrow> 'k \<Rightarrow> 'k) \<Rightarrow> pending_call list \<Rightarrow> 'k \<Rightarrow> 'k" where
  "run_calls eff ps k = fold (\<lambda>(t, f, a, tid). eff f a) ps k"

definition due_now :: "int \<Rightarrow> pending_call list \<Rightarrow> pending_call list" where
  "due_now n ps = filter (\<lambda>p. fst p \<le> n) ps"

definition due_later :: "int \<Rightarrow> pending_call list \<Rightarrow> pending_call list" where
  "due_later n ps = map (\<lambda>(t, x). (t - n, x)) (filter (\<lambda>p. n < fst p) ps)"

lemma due_times_shift: "due_times (t + d) es = map (\<lambda>(u, x). (u + d, x)) (due_times t es)"
  by (induction es arbitrary: t) (simp_all add: algebra_simps, metis add.assoc add.commute)

lemma run_calls_due: "run_calls eff (due_times t es) k = fold (\<lambda>e. eff (c_func e) (c_arg e)) es k"
  by (induction es arbitrary: t k) (simp_all add: run_calls_def)

lemma callo_dec_spec:
  assumes "callo_ok cs"
  shows "\<exists>cs'. callo_dec cs = Some cs' \<and> callo_ok cs' \<and> length cs' = length cs
    \<and> due_times t (callo_live cs') = map (\<lambda>(u, x). (if u \<le> t then u else u - 1, x)) (due_times t (callo_live cs))"
  using assms
proof (induction cs)
  case (Cons e r)
  show ?case
  proof (cases "c_func e = 0")
    case False
    show ?thesis
    proof (cases "c_time e \<le> 0")
      case True
      with False Cons show ?thesis by auto
    next
      case pos: False
      let ?t = "t + c_time e"
      have "\<forall>x \<in> set (callo_live r). 0 \<le> c_time x" using False Cons(2) by (simp add: callo_ok_def)
      then have "\<forall>p \<in> set (due_times ?t (callo_live r)). \<not> fst p \<le> t"
        using due_times_mono [of "callo_live r" _ ?t] pos by force
      then have "map (\<lambda>(u, x). (if u \<le> t then u else u - 1, x)) (due_times ?t (callo_live r))
          = due_times (?t + -1) (callo_live r)"
        unfolding due_times_shift by (intro map_cong) auto
      with False pos Cons(2) show ?thesis by (auto simp: algebra_simps)
    qed
  qed simp
qed simp

lemma timein_run_quiet:
  assumes "P = (\<lambda>e. c_func e \<noteq> 0 \<and> c_time e \<le> 0)"
    and "i + length (takeWhile P (drop i (co_tab st))) < length (co_tab st)"
    and "length (takeWhile P (drop i (co_tab st))) < n"
  shows "timein_run (quiet eff) n i (st, k) = Some (i + length (takeWhile P (drop i (co_tab st))), st,
    fold (\<lambda>e. eff (c_func e) (c_arg e)) (takeWhile P (drop i (co_tab st))) k)"
  using assms(2,3)
proof (induction n arbitrary: i k)
  case (Suc n)
  then have i: "i < length (co_tab st)" by simp
  then have d: "drop i (co_tab st) = co_tab st ! i # drop (Suc i) (co_tab st)" by (simp add: Cons_nth_drop_Suc)
  show ?case
  proof (cases "P (co_tab st ! i)")
    case True
    with Suc.prems have "Suc i + length (takeWhile P (drop (Suc i) (co_tab st))) < length (co_tab st)"
      "length (takeWhile P (drop (Suc i) (co_tab st))) < n" by (simp_all add: d)
    note IH = Suc.IH [OF this, of "eff (c_func (co_tab st ! i)) (c_arg (co_tab st ! i)) k"]
    have "c_func (co_tab st ! i) \<noteq> 0" "c_time (co_tab st ! i) \<le> 0" using True by (simp_all add: assms(1))
    with IH True i show ?thesis by (simp add: d quiet_def Let_def)
  next
    case False
    then have "\<not> (c_func (co_tab st ! i) \<noteq> 0 \<and> c_time (co_tab st ! i) \<le> 0)" by (simp add: assms(1))
    with False i show ?thesis by (auto simp: d Let_def)
  qed
qed simp

lemma timein_quiet:
  assumes "callouts_wf st"
  shows "\<exists>st'. timein (quiet eff) (st, k) = Some (st', run_calls eff (due_now 0 (pending st)) k)
    \<and> callouts_wf st' \<and> pending st' = filter (\<lambda>p. 0 < fst p) (pending st)
    \<and> length (co_tab st') = length (co_tab st)"
proof -
  define cs where "cs = co_tab st"
  define P where "P = (\<lambda>e :: callo. c_func e \<noteq> 0 \<and> c_time e \<le> 0)"
  define fired rest where "fired = takeWhile P cs" and "rest = dropWhile P cs"
  have ok: "callo_ok cs" using assms by (simp add: callouts_wf_def cs_def)
  have cs: "cs = fired @ rest" by (simp add: fired_def rest_def)
  have fired: "\<forall>e \<in> set fired. c_func e \<noteq> 0 \<and> c_time e \<le> 0"
    unfolding fired_def P_def by (auto dest: set_takeWhileD)
  have "callo_ok rest \<and> (\<forall>e \<in> set fired. c_time e = 0)"
    using ok fired unfolding cs by (induction fired) auto
  then have rest: "callo_ok rest" and zero: "\<forall>e \<in> set fired. c_time e = 0" by simp_all
  then obtain e r where er: "rest = e # r" by (cases rest) auto
  have "\<not> P (hd rest)" using er hd_dropWhile [of P cs] by (simp add: rest_def)
  then have pos: "c_func e = 0 \<or> 0 < c_time e" by (auto simp: er P_def)
  have sum0: "sum_list (map c_time fired) = 0" using zero by (induction fired) auto
  have live: "callo_live cs = fired @ callo_live rest" using fired by (simp add: cs)
  have due0: "\<forall>p \<in> set (due_times 0 fired). fst p = 0" using zero by (induction fired) auto
  have later: "\<forall>p \<in> set (due_times 0 (callo_live rest)). 0 < fst p"
  proof (cases "c_func e = 0")
    case False
    then have nn: "\<forall>x \<in> set (callo_live r). 0 \<le> c_time x" using rest by (simp add: er callo_ok_def)
    from due_times_mono [OF nn] False pos show ?thesis by (auto simp: er) force
  qed (simp add: er)
  have pend: "pending st = due_times 0 fired @ due_times 0 (callo_live rest)"
    unfolding pending_def cs_def [symmetric] live due_times_append sum0 by simp
  then have split: "due_now 0 (pending st) = due_times 0 fired"
    "filter (\<lambda>p. 0 < fst p) (pending st) = due_times 0 (callo_live rest)"
    using due0 later by (auto simp: due_now_def filter_empty_conv intro!: filter_True)
  show ?thesis
  proof (cases "c_func (hd cs) \<noteq> 0 \<and> c_time (hd cs) \<le> 0")
    case True
    have run: "timein_run (quiet eff) (length cs) 0 (st, k)
        = Some (length fired, st, fold (\<lambda>e. eff (c_func e) (c_arg e)) fired k)"
      using timein_run_quiet [OF P_def, of 0 st "length cs" eff k] er
      by (simp flip: cs_def fired_def) (simp add: cs)
    have "length (callo_live rest) < length rest" "length (callo_live rest) < length cs"
      using rest by (simp_all add: callo_ok_def cs)
    from callo_copy_live [OF this] obtain cs' where
      cs': "callo_copy cs rest = Some cs'" "callo_live cs' = callo_live rest" "length cs' = length cs" by blast
    have "drop (length fired) cs = rest" by (simp add: cs)
    with run cs' True have "timein (quiet eff) (st, k) = Some (st\<lparr>co_tab := cs'\<rparr>, run_calls eff (due_times 0 fired) k)"
      by (cases cs) (simp_all add: timein_def run_calls_due flip: cs_def)
    moreover have "callouts_wf (st\<lparr>co_tab := cs'\<rparr>)"
      using rest cs' er by (simp add: callouts_wf_def callo_ok_def cs)
    ultimately show ?thesis using cs' split by (simp add: pending_def flip: cs_def)
  next
    case False
    then have "fired = []" by (cases cs) (auto simp: fired_def P_def)
    moreover have "timein (quiet eff) (st, k) = Some (st, k)"
      using False ok by (cases cs) (auto simp: timein_def simp flip: cs_def)
    ultimately show ?thesis using assms split pend by (simp add: run_calls_def)
  qed
qed

lemma clock_quiet:
  assumes "callouts_wf st"
  shows "\<exists>st'. clock_callouts (quiet eff) False (st, k) = Some (st', run_calls eff (due_now 1 (pending st)) k)
    \<and> callouts_wf st' \<and> pending st' = due_later 1 (pending st) \<and> length (co_tab st') = length (co_tab st)"
proof -
  from assms obtain e r where er: "co_tab st = e # r" by (cases "co_tab st") (auto simp: callouts_wf_def)
  show ?thesis
  proof (cases "c_func e = 0")
    case True
    have "st\<lparr>co_tab := e # r\<rparr> = st" using er by (cases st) simp
    with True assms er show ?thesis
      by (auto simp: Let_def callouts_wf_def clock_callouts_def timein_def pending_def due_now_def due_later_def run_calls_def)
  next
    case False
    from callo_dec_spec [of "co_tab st" 0] assms obtain cs where cs: "callo_dec (co_tab st) = Some cs"
      "callo_ok cs" "length cs = length (co_tab st)"
      "due_times 0 (callo_live cs) = map (\<lambda>(u, x). (if u \<le> 0 then u else u - 1, x)) (pending st)"
      unfolding callouts_wf_def pending_def by blast
    define st1 where "st1 = st\<lparr>co_tab := cs\<rparr>"
    have wf: "callouts_wf st1" using cs(2) by (simp add: st1_def callouts_wf_def)
    have p1: "pending st1 = map (\<lambda>(u, x). (if u \<le> 0 then u else u - 1, x)) (pending st)"
      using cs(4) by (simp add: st1_def pending_def)
    have "run_calls eff (due_now 0 (map (\<lambda>(u, x). (if u \<le> 0 then u else u - 1, x)) ps)) k
        = run_calls eff (due_now 1 ps) k" for ps k
      by (induction ps arbitrary: k) (auto simp: run_calls_def due_now_def split: if_splits)
    then have now: "run_calls eff (due_now 0 (pending st1)) k = run_calls eff (due_now 1 (pending st)) k"
      by (simp add: p1)
    have "filter (\<lambda>p. 0 < fst p) (map (\<lambda>(u, x). (if u \<le> 0 then u else u - 1, x)) ps) = due_later 1 ps" for ps
      unfolding due_later_def by (induction ps) (auto split: if_splits)
    then have later: "filter (\<lambda>p. 0 < fst p) (pending st1) = due_later 1 (pending st)"
      by (simp add: p1)
    from timein_quiet [OF wf, of eff k] obtain st' where
      t: "timein (quiet eff) (st1, k) = Some (st', run_calls eff (due_now 1 (pending st)) k)" "callouts_wf st'"
        "pending st' = due_later 1 (pending st)" "length (co_tab st') = length (co_tab st1)"
      unfolding now later by blast
    have "clock_callouts (quiet eff) False (st, k)
        = (if c_time (hd cs) \<le> 0 then timein (quiet eff) (st1, k) else Some (st1, k))"
      using False er cs(1) by (simp add: clock_callouts_def st1_def)
    moreover have "timein (quiet eff) (st1, k) = Some (st1, k)" if "\<not> c_time (hd cs) \<le> 0"
      using that cs(2) by (cases cs) (auto simp: timein_def st1_def)
    ultimately have "clock_callouts (quiet eff) False (st, k) = timein (quiet eff) (st1, k)" by auto
    with t show ?thesis using cs(3) by (auto simp: st1_def)
  qed
qed

primrec clock_ticks ::
  "(nat \<Rightarrow> nat \<Rightarrow> callouts \<times> 'k \<Rightarrow> callouts \<times> 'k) \<Rightarrow> nat \<Rightarrow> callouts \<times> 'k \<Rightarrow> (callouts \<times> 'k) option" where
  "clock_ticks call 0 s = Some s"
| "clock_ticks call (Suc n) s = Option.bind (clock_callouts call False s) (clock_ticks call n)"

lemma due_times_sorted: "\<forall>e \<in> set es. 0 \<le> c_time e \<Longrightarrow> sorted (map fst (due_times t es))"
  by (induction es arbitrary: t) (auto dest!: due_times_mono [rotated])

lemma pending_sorted: "callouts_wf st \<Longrightarrow> sorted (map fst (pending st))"
  by (simp add: callouts_wf_def callo_ok_def pending_def due_times_sorted)

lemma due_now_split:
  assumes "sorted (map fst ps)" "0 \<le> n"
  shows "run_calls eff (due_now n (due_later 1 ps)) (run_calls eff (due_now 1 ps) k) = run_calls eff (due_now (n + 1) ps) k"
proof -
  have "due_now (n + 1) ps = due_now 1 ps @ filter (\<lambda>p. 1 < fst p \<and> fst p \<le> n + 1) ps"
    using assms
  proof (induction ps)
    case (Cons p ps)
    show ?case
    proof (cases "fst p \<le> 1")
      case False
      with Cons(2) have "\<forall>q \<in> set ps. 1 < fst q" by auto
      then have "filter (\<lambda>p. fst p \<le> 1) ps = []"
        "filter (\<lambda>p. 1 < fst p \<and> fst p \<le> n + 1) ps = filter (\<lambda>p. fst p \<le> n + 1) ps"
        by (auto simp: filter_empty_conv intro!: filter_cong)
      then show ?thesis using False by (simp add: due_now_def)
    qed (use Cons in \<open>auto simp: due_now_def\<close>)
  qed (simp add: due_now_def)
  moreover have "run_calls eff (due_now n (due_later 1 ps)) k = run_calls eff (filter (\<lambda>p. 1 < fst p \<and> fst p \<le> n + 1) ps) k" for k
    by (induction ps arbitrary: k) (auto simp: run_calls_def due_now_def due_later_def)
  ultimately show ?thesis by (simp add: run_calls_def)
qed

lemma due_later_split: "0 \<le> n \<Longrightarrow> due_later n (due_later 1 ps) = due_later (n + 1) ps"
  by (induction ps) (auto simp: due_later_def)

lemma clock_ticks_quiet:
  assumes "callouts_wf st" "0 < n"
  shows "\<exists>st'. clock_ticks (quiet eff) n (st, k) = Some (st', run_calls eff (due_now (int n) (pending st)) k)
    \<and> callouts_wf st' \<and> pending st' = due_later (int n) (pending st)"
  using assms
proof (induction n arbitrary: st k)
  case (Suc n)
  from clock_quiet [OF Suc(2), of eff k] obtain st1 where
    one: "clock_callouts (quiet eff) False (st, k) = Some (st1, run_calls eff (due_now 1 (pending st)) k)"
      "callouts_wf st1" "pending st1 = due_later 1 (pending st)" by blast
  show ?case
  proof (cases "n = 0")
    case False
    with Suc.IH [OF one(2), of "run_calls eff (due_now 1 (pending st)) k"] obtain st' where
      "clock_ticks (quiet eff) n (st1, run_calls eff (due_now 1 (pending st)) k) = Some (st',
        run_calls eff (due_now (int n) (due_later 1 (pending st))) (run_calls eff (due_now 1 (pending st)) k))"
      "callouts_wf st'" "pending st' = due_later (int n) (due_later 1 (pending st))"
      unfolding one(3) by blast
    with one(1) show ?thesis
      unfolding due_now_split [OF pending_sorted [OF Suc(2)] of_nat_0_le_iff] due_later_split [OF of_nat_0_le_iff]
      by (simp add: add.commute)
  qed (use one in simp)
qed simp

section \<open>Properties\<close>

text \<open>
  C6: \<^verbatim>\<open>timeout\<close> on a sound table schedules the call at its time behind the calls due no later
  and before the calls due later, leaves the time of every other call as it was, gives the call
  the next identifier and keeps the table sound.
\<close>

theorem timeout_schedules:
  assumes "callouts_wf st" "0 \<le> tim" "f \<noteq> 0" "timeout f a tim st = Some (tid, st')"
  shows "callouts_wf st' \<and> tid = to_long (co_timeid st + 1) \<and> co_timeid st' = tid \<and>
    (\<exists>xs ys. pending st = xs @ ys \<and> pending st' = xs @ (tim, f, a, tid) # ys
      \<and> (\<forall>x \<in> set xs. fst x \<le> tim) \<and> (\<forall>y \<in> set ys. tim < fst y))"
  using timeout_inserts [OF assms] by metis

definition demo_call :: "int \<Rightarrow> int \<Rightarrow> nat \<Rightarrow> callo" where
  "demo_call t i f = \<lparr>c_time = t, c_id = i, c_arg = 7, c_func = f\<rparr>"

definition demo_callouts :: callouts where
  "demo_callouts = \<lparr>co_tab = [demo_call 2 1 100, demo_call 3 2 200, demo_call 0 0 0, demo_call 0 0 0, demo_call 0 0 0],
     co_timeid = 2\<rparr>"

lemma demo_callouts_wf: "callouts_wf demo_callouts"
  by (simp add: demo_callouts_def demo_call_def callouts_wf_def)

theorem timeout_schedules_witness:
  "\<exists>st'. timeout 300 9 4 demo_callouts = Some (3, st') \<and> callouts_wf st'
    \<and> pending st' = [(2, 100, 7, 1), (4, 300, 9, 3), (5, 200, 7, 2)]"
proof -
  have "timeout 300 9 4 demo_callouts = Some (3, \<lparr>co_tab = [demo_call 2 1 100,
      \<lparr>c_time = 2, c_id = 3, c_arg = 9, c_func = 300\<rparr>, demo_call 1 2 200, demo_call 0 0 0, demo_call 0 0 0], co_timeid = 3\<rparr>)"
    by (simp add: demo_callouts_def demo_call_def timeout_def)
  from this timeout_schedules [OF demo_callouts_wf _ _ this] show ?thesis
    by (simp add: pending_def demo_call_def)
qed

text \<open>
  \<^verbatim>\<open>untimeout\<close> of a pending call removes that call and no other, returns the ticks it still had
  to go and leaves the time of every other call as it was.
\<close>

theorem untimeout_removes:
  assumes "callouts_wf st" "pending st = xs @ (t, f, a, tid) # ys" "\<forall>(u, g, b, i) \<in> set xs. i \<noteq> tid"
  shows "\<exists>st'. untimeout tid st = Some (t, st') \<and> callouts_wf st' \<and> pending st' = xs @ ys"
proof -
  have "c_id e \<noteq> tid" if "(u, c_func e, c_arg e, c_id e) \<in> set xs" for u and e :: callo
    using assms(3) that by blast
  then have "\<exists>cs. callo_cancel (\<lambda>e. c_id e = tid) 0 (co_tab st) = Some (t, cs)
      \<and> callouts_wf (st\<lparr>co_tab := cs\<rparr>) \<and> pending (st\<lparr>co_tab := cs\<rparr>) = xs @ ys"
    by (intro callo_cancel_pending [OF assms(1,2)]) auto
  then show ?thesis by (auto simp: untimeout_def)
qed

theorem untimeout_removes_witness:
  "\<exists>st'. untimeout 1 demo_callouts = Some (2, st') \<and> callouts_wf st' \<and> pending st' = [(5, 200, 7, 2)]"
proof -
  have "pending demo_callouts = [] @ (2, 100, 7, 1) # [(5, 200, 7, 2)]"
    by (simp add: pending_def demo_callouts_def demo_call_def)
  from untimeout_removes [OF demo_callouts_wf this] show ?thesis by simp
qed

text \<open>
  C7: Calls are made on time. If the routines leave the table alone, then after \<open>n\<close> clock
  interrupts (none of them above base priority) exactly the calls due within \<open>n\<close> ticks have been
  made, each once and in the order of their times, and the others are \<open>n\<close> ticks closer.
\<close>

theorem clock_calls_on_time:
  assumes "callouts_wf st" "0 < n"
  shows "\<exists>st'. clock_ticks (quiet eff) n (st, k) = Some (st', run_calls eff (due_now (int n) (pending st)) k)
    \<and> callouts_wf st' \<and> pending st' = due_later (int n) (pending st)"
  using assms by (rule clock_ticks_quiet)

theorem clock_calls_on_time_witness:
  "\<exists>st'. clock_ticks (quiet (\<lambda>f a log. log @ [(f, a)])) 4 (demo_callouts, []) = Some (st', [(100, 7)])
    \<and> pending st' = [(1, 200, 7, 2)]"
proof -
  have "pending demo_callouts = [(2, 100, 7, 1), (5, 200, 7, 2)]"
    by (simp add: pending_def demo_callouts_def demo_call_def)
  with clock_calls_on_time [OF demo_callouts_wf, of 4 "\<lambda>f a log. log @ [(f, a)]" "[]"]
  show ?thesis by (auto simp: run_calls_def due_now_def due_later_def)
qed

text \<open>
  Entries behind the terminator are not cleared, and \<^verbatim>\<open>untimeout\<close> looks at them: cancelling a call
  that has been made already can schedule another one again that has been made, too.
\<close>

definition demo_expired :: callouts where
  "demo_expired = \<lparr>co_tab = [demo_call 0 1 100, demo_call 0 2 200, demo_call 0 0 0, demo_call 0 0 0], co_timeid = 2\<rparr>"

theorem untimeout_expired_revives:
  "\<exists>st1 st2 v. timein (quiet (\<lambda>f a log. log @ [f])) (demo_expired, []) = Some (st1, [100, 200])
     \<and> pending st1 = [] \<and> untimeout 1 st1 = Some (v, st2) \<and> pending st2 = [(0, 200, 7, 2)]"
proof -
  have "timein (quiet (\<lambda>f a log. log @ [f])) (demo_expired, []) = Some (\<lparr>co_tab = [demo_call 0 1 0,
      demo_call 0 2 200, demo_call 0 0 0, demo_call 0 0 0], co_timeid = 2\<rparr>, [100, 200])"
    by (simp add: timein_def demo_expired_def demo_call_def quiet_def Let_def)
  then show ?thesis
    by (simp add: demo_call_def pending_def untimeout_def)
qed

end
