(* ===== verification/Ipc_Perm.thy ===== *)
theory Ipc_Perm
  imports Kernel_Prelude
begin

unbundle bit_operations_syntax

text \<open>
  The common part of the System V facilities (\<^verbatim>\<open>sys/os/ipc.c\<close>, \<^verbatim>\<open>sys/ipc.h\<close>): access checks
  and the search of a facility's table by key. A table is the list of the permission structures
  embedded in its entries.
\<close>

section \<open>State\<close>

record cred =
  u_uid :: u16
  u_gid :: u16

text \<open>The calling process: its credentials and number, and the system time of the call.\<close>

record caller = cred +
  ca_pid :: u16
  ca_time :: int

definition suser :: "'a cred_scheme \<Rightarrow> bool" where
  "suser u \<longleftrightarrow> u_uid u = 0"

record ipc_perm =
  ipc_uid :: u16
  ipc_gid :: u16
  ipc_cuid :: u16
  ipc_cgid :: u16
  ipc_mode :: u16
  ipc_seq :: u16
  ipc_key :: int

abbreviation (input) IPC_ALLOC :: u16 where "IPC_ALLOC \<equiv> 0x8000"
abbreviation (input) IPC_CREAT :: u32 where "IPC_CREAT \<equiv> 0x200"
abbreviation (input) IPC_EXCL :: u32 where "IPC_EXCL \<equiv> 0x400"
abbreviation (input) IPC_NOWAIT :: u32 where "IPC_NOWAIT \<equiv> 0x800"
abbreviation (input) IPC_PRIVATE :: int where "IPC_PRIVATE \<equiv> 0"
abbreviation (input) IPC_RMID :: int where "IPC_RMID \<equiv> 0"
abbreviation (input) IPC_SET :: int where "IPC_SET \<equiv> 1"
abbreviation (input) IPC_STAT :: int where "IPC_STAT \<equiv> 2"

definition ipc_allocated :: "ipc_perm \<Rightarrow> bool" where
  "ipc_allocated p \<longleftrightarrow> ipc_mode p AND IPC_ALLOC \<noteq> 0"

section \<open>Operations\<close>

text \<open>\<^verbatim>\<open>ipcaccess\<close>: \<open>None\<close> is the return value 0, access granted.\<close>

definition ipcaccess :: "'a cred_scheme \<Rightarrow> ipc_perm \<Rightarrow> u16 \<Rightarrow> errno option" where
  "ipcaccess u p md =
     (if u_uid u = 0 then None
      else let md' = (if u_uid u \<noteq> ipc_uid p \<and> u_uid u \<noteq> ipc_cuid p then
                        (let m3 = drop_bit 3 md in
                         if u_gid u \<noteq> ipc_gid p \<and> u_gid u \<noteq> ipc_cgid p then drop_bit 3 m3 else m3)
                      else md) in
        if md' AND ipc_mode p \<noteq> 0 then None else Some EACCES)"

text \<open>
  \<^verbatim>\<open>ipcget\<close>: the two scans, by key (the entry found, if any, and the first free one passed) and for
  a private entry, and the initialization of a new entry. The result is the index of the entry, the
  status word (is it new) and the table.
\<close>

fun ipcget_scan :: "int \<Rightarrow> u32 \<Rightarrow> nat \<Rightarrow> nat option \<Rightarrow> ipc_perm list \<Rightarrow> errno + nat option \<times> nat option" where
  "ipcget_scan key flag i a [] = Inr (None, a)"
| "ipcget_scan key flag i a (b # r) =
     (if ipc_allocated b then
        (if ipc_key b = key then
           (if flag AND (IPC_CREAT OR IPC_EXCL) = IPC_CREAT OR IPC_EXCL then Inl EEXIST
            else if (flag AND 0x1FF) AND NOT (ucast (ipc_mode b)) \<noteq> 0 then Inl EACCES
            else Inr (Some i, a))
         else ipcget_scan key flag (Suc i) a r)
      else ipcget_scan key flag (Suc i) (if a = None then Some i else a) r)"

fun ipcget_private :: "nat \<Rightarrow> ipc_perm list \<Rightarrow> nat option" where
  "ipcget_private i [] = None"
| "ipcget_private i (b # r) = (if ipc_allocated b then ipcget_private (Suc i) r else Some i)"

definition ipcget_init :: "'a cred_scheme \<Rightarrow> int \<Rightarrow> u32 \<Rightarrow> ipc_perm \<Rightarrow> ipc_perm" where
  "ipcget_init u key flag b =
     b\<lparr>ipc_mode := IPC_ALLOC OR ucast (flag AND 0x1FF), ipc_key := key,
       ipc_uid := u_uid u, ipc_cuid := u_uid u, ipc_gid := u_gid u, ipc_cgid := u_gid u\<rparr>"

definition ipcget :: "'a cred_scheme \<Rightarrow> int \<Rightarrow> u32 \<Rightarrow> ipc_perm list \<Rightarrow> errno + nat \<times> bool \<times> ipc_perm list" where
  "ipcget u key flag ps =
     (let create = (\<lambda>i. Inr (i, True, ps[i := ipcget_init u key flag (ps ! i)])) in
      if key = IPC_PRIVATE then
        (case ipcget_private 0 ps of None \<Rightarrow> Inl ENOSPC | Some i \<Rightarrow> create i)
      else
        (case ipcget_scan key flag 0 None ps of
           Inl e \<Rightarrow> Inl e
         | Inr (Some i, _) \<Rightarrow> Inr (i, False, ps)
         | Inr (None, a) \<Rightarrow>
             if flag AND IPC_CREAT = 0 then Inl ENOENT
             else (case a of None \<Rightarrow> Inl ENOSPC | Some i \<Rightarrow> create i)))"

text \<open>The test of \<^verbatim>\<open>IPC_RMID\<close> and \<^verbatim>\<open>IPC_SET\<close>: owner, creator or super-user.\<close>

definition ipc_owner :: "'a cred_scheme \<Rightarrow> ipc_perm \<Rightarrow> bool" where
  "ipc_owner u p \<longleftrightarrow> u_uid u = ipc_uid p \<or> u_uid u = ipc_cuid p \<or> suser u"

section \<open>Access\<close>

text \<open>The three classes of a permission check, as a specification: owner, group, others.\<close>

definition ipc_class :: "'a cred_scheme \<Rightarrow> ipc_perm \<Rightarrow> nat" where
  "ipc_class u p =
     (if u_uid u \<in> {ipc_uid p, ipc_cuid p} then 0 else if u_gid u \<in> {ipc_gid p, ipc_cgid p} then 3 else 6)"

lemma ipcaccess_class:
  "ipcaccess u p md = None \<longleftrightarrow> u_uid u = 0 \<or> drop_bit (ipc_class u p) md AND ipc_mode p \<noteq> 0"
  by (auto simp: ipcaccess_def ipc_class_def Let_def)

section \<open>Keys\<close>

definition keys_unique :: "ipc_perm list \<Rightarrow> bool" where
  "keys_unique ps \<longleftrightarrow> (\<forall>i < length ps. \<forall>j < length ps.
     ipc_allocated (ps ! i) \<and> ipc_allocated (ps ! j) \<and> ipc_key (ps ! i) = ipc_key (ps ! j)
       \<and> ipc_key (ps ! i) \<noteq> IPC_PRIVATE \<longrightarrow> i = j)"

lemma init_allocated [simp]: "ipc_allocated (ipcget_init u key flag b)"
proof -
  have "(IPC_ALLOC OR x) AND IPC_ALLOC = IPC_ALLOC" for x
    by (simp add: word_ao_absorbs)
  then show ?thesis by (simp add: ipc_allocated_def ipcget_init_def)
qed

lemma init_fields [simp]:
  "ipc_key (ipcget_init u key flag b) = key" "ipc_seq (ipcget_init u key flag b) = ipc_seq b"
  "ipc_uid (ipcget_init u key flag b) = u_uid u" "ipc_cuid (ipcget_init u key flag b) = u_uid u"
  by (simp_all add: ipcget_init_def)

lemma ipcget_scan_found:
  "ipcget_scan key flag i a ps = Inr (Some k, a') \<Longrightarrow>
     i \<le> k \<and> k < i + length ps \<and> ipc_allocated (ps ! (k - i)) \<and> ipc_key (ps ! (k - i)) = key"
proof (induction key flag i a ps rule: ipcget_scan.induct)
  case (2 key flag i a b r)
  show ?case
  proof (cases "ipc_allocated b \<and> ipc_key b = key")
    case True
    with 2(3) show ?thesis by (auto split: if_splits)
  next
    case False
    then have "i < k \<and> k < i + Suc (length r) \<and> ipc_allocated (r ! (k - Suc i)) \<and> ipc_key (r ! (k - Suc i)) = key"
      using 2 by (cases "ipc_allocated b") auto
    then show ?thesis by (simp add: nth_Cons' Suc_diff_Suc)
  qed
qed simp

lemma ipcget_scan_missing:
  assumes "ipcget_scan key flag i a ps = Inr (None, a')"
  shows "(\<forall>b \<in> set ps. \<not> (ipc_allocated b \<and> ipc_key b = key)) \<and>
    (case a' of None \<Rightarrow> a = None \<and> (\<forall>b \<in> set ps. ipc_allocated b)
     | Some k \<Rightarrow> a = Some k \<or> a = None \<and> i \<le> k \<and> k < i + length ps \<and> \<not> ipc_allocated (ps ! (k - i)))"
  using assms
proof (induction key flag i a ps rule: ipcget_scan.induct)
  case (1 key flag i a)
  then show ?case by (cases a) auto
next
  case (2 key flag i a b r)
  show ?case
  proof (cases "ipc_allocated b")
    case True
    with 2(3) have "ipc_key b \<noteq> key" "ipcget_scan key flag (Suc i) a r = Inr (None, a')" by (auto split: if_splits)
    with 2(1) [OF True] True show ?thesis
      by (auto split: option.splits simp: nth_Cons' Suc_diff_le)
  next
    case False
    with 2(2) [OF False] 2(3) show ?thesis
      by (auto split: option.splits if_splits simp: nth_Cons' Suc_diff_le)
  qed
qed

lemma ipcget_scan_error:
  "ipcget_scan key flag i a ps = Inl e \<Longrightarrow> e \<in> {EEXIST, EACCES} \<and> (\<exists>b \<in> set ps. ipc_allocated b \<and> ipc_key b = key)"
  by (induction key flag i a ps rule: ipcget_scan.induct) (auto split: if_splits)

lemma ipcget_private_spec:
  "(case ipcget_private i ps of None \<Rightarrow> \<forall>b \<in> set ps. ipc_allocated b
    | Some k \<Rightarrow> i \<le> k \<and> k < i + length ps \<and> \<not> ipc_allocated (ps ! (k - i)))"
proof (induction i ps rule: ipcget_private.induct)
  case (2 i b r)
  then show ?case by (auto split: option.splits simp: nth_Cons' Suc_diff_le)
qed simp

lemma keys_unique_update:
  assumes "keys_unique ps" "k < length ps" "ipc_key p = IPC_PRIVATE \<or> (\<forall>b \<in> set ps. \<not> (ipc_allocated b \<and> ipc_key b = ipc_key p))"
  shows "keys_unique (ps[k := p])"
proof -
  have "i = j" if "i < length ps" "j < length ps" "ipc_allocated (ps[k := p] ! i)" "ipc_allocated (ps[k := p] ! j)"
    "ipc_key (ps[k := p] ! i) = ipc_key (ps[k := p] ! j)" "ipc_key (ps[k := p] ! i) \<noteq> IPC_PRIVATE" for i j
  proof (rule ccontr)
    assume "i \<noteq> j"
    then consider "i = k" "j \<noteq> k" | "j = k" "i \<noteq> k" | "i \<noteq> k" "j \<noteq> k" by blast
    then show False
    proof cases
      case 3
      with that assms(1) \<open>i \<noteq> j\<close> show False by (simp add: keys_unique_def)
    next
      case 1
      with that assms(2,3) show False by (auto dest: nth_mem)
    next
      case 2
      with that assms(2,3) show False by (auto dest: nth_mem)
    qed
  qed
  then show ?thesis by (simp add: keys_unique_def)
qed

lemma keys_unique_remove:
  "\<lbrakk>keys_unique ps; \<not> ipc_allocated p\<rbrakk> \<Longrightarrow> keys_unique (ps[k := p])"
  unfolding keys_unique_def by (metis length_list_update nth_list_update_eq nth_list_update_neq)

lemma ipcget_cases:
  assumes "ipcget u key flag ps = Inr (k, new, ps')"
  shows "k < length ps \<and> (if new
      then \<not> ipc_allocated (ps ! k) \<and> ps' = ps[k := ipcget_init u key flag (ps ! k)]
        \<and> (key = IPC_PRIVATE \<or> flag AND IPC_CREAT \<noteq> 0 \<and> (\<forall>b \<in> set ps. \<not> (ipc_allocated b \<and> ipc_key b = key)))
      else ps' = ps \<and> key \<noteq> IPC_PRIVATE \<and> ipc_allocated (ps ! k) \<and> ipc_key (ps ! k) = key)"
proof (cases "key = IPC_PRIVATE")
  case True
  then show ?thesis using assms ipcget_private_spec [where i = 0 and ps = ps]
    by (auto simp: ipcget_def Let_def split: option.splits)
next
  case False
  show ?thesis
  proof (cases "ipcget_scan key flag 0 None ps")
    case (Inl e)
    with False assms show ?thesis by (simp add: ipcget_def)
  next
    case (Inr fa)
    then obtain f a where fa: "ipcget_scan key flag 0 None ps = Inr (f, a)" by (cases fa) auto
    show ?thesis
    proof (cases f)
      case None
      with fa ipcget_scan_missing [of key flag 0 None ps a] False assms show ?thesis
        by (auto simp: ipcget_def Let_def split: option.splits if_splits)
    next
      case (Some i)
      with fa ipcget_scan_found [of key flag 0 None ps i a] False assms show ?thesis
        by (auto simp: ipcget_def Let_def)
    qed
  qed
qed

section \<open>Properties\<close>

text \<open>
  The three-way check. \<^verbatim>\<open>ipcaccess\<close> lets the super-user pass, and anyone else exactly if one of
  the requested bits is among the mode bits of the class (owner or creator, else group, else others)
  the caller is in.
\<close>

theorem ipcaccess_by_class:
  "ipcaccess u p md = None \<longleftrightarrow> u_uid u = 0 \<or> drop_bit (ipc_class u p) md AND ipc_mode p \<noteq> 0"
  by (rule ipcaccess_class)

theorem ipcaccess_by_class_witness:
  "ipcaccess \<lparr>u_uid = 7, u_gid = 3\<rparr> \<lparr>ipc_uid = 5, ipc_gid = 3, ipc_cuid = 5, ipc_cgid = 4, ipc_mode = 0x81A0, ipc_seq = 0, ipc_key = 9\<rparr> 0x100 = None
   \<and> ipcaccess \<lparr>u_uid = 7, u_gid = 3\<rparr> \<lparr>ipc_uid = 5, ipc_gid = 3, ipc_cuid = 5, ipc_cgid = 4, ipc_mode = 0x81A0, ipc_seq = 0, ipc_key = 9\<rparr> 0x80 \<noteq> None"
  unfolding ipcaccess_by_class by (code_simp)

text \<open>
  C8: A key names one entry. On a table in which no two allocated entries share a non-private key,
  a successful \<^verbatim>\<open>ipcget\<close> returns either the existing entry of that key with the table unchanged,
  or, if there is none, a formerly free slot, now owned by the caller, keeping its sequence number;
  keys stay unique either way.
\<close>

theorem ipcget_unique_key:
  assumes "keys_unique ps" "ipcget u key flag ps = Inr (k, new, ps')"
  shows "keys_unique ps' \<and> k < length ps \<and> ipc_allocated (ps' ! k) \<and> ipc_key (ps' ! k) = key
    \<and> ipc_seq (ps' ! k) = ipc_seq (ps ! k) \<and> (\<forall>j. j \<noteq> k \<longrightarrow> ps' ! j = ps ! j)
    \<and> (if new then \<not> ipc_allocated (ps ! k) \<and> ipc_cuid (ps' ! k) = u_uid u
        \<and> (key \<noteq> IPC_PRIVATE \<longrightarrow> (\<forall>b \<in> set ps. \<not> (ipc_allocated b \<and> ipc_key b = key)))
       else ps' = ps)"
proof -
  note * = ipcget_cases [OF assms(2)]
  have "keys_unique ps'" if new
    using * that keys_unique_update [OF assms(1), of k "ipcget_init u key flag (ps ! k)"] by auto
  with * assms(1) show ?thesis by (cases new) auto
qed

definition demo_perm :: "u16 \<Rightarrow> int \<Rightarrow> ipc_perm" where
  "demo_perm md key = \<lparr>ipc_uid = 5, ipc_gid = 6, ipc_cuid = 5, ipc_cgid = 6, ipc_mode = md, ipc_seq = 3, ipc_key = key\<rparr>"

theorem ipcget_unique_key_witness:
  "\<exists>ps'. ipcget \<lparr>u_uid = 9, u_gid = 9\<rparr> 77 (IPC_CREAT OR 0x180) [demo_perm 0x8180 42, demo_perm 0 77] = Inr (1, True, ps')
    \<and> keys_unique ps' \<and> ipc_cuid (ps' ! 1) = 9"
proof -
  let ?ps = "[demo_perm 0x8180 42, demo_perm 0 77]"
  have "keys_unique ?ps"
    by (auto simp: keys_unique_def less_Suc_eq demo_perm_def ipc_allocated_def)
  moreover obtain ps' where "ipcget \<lparr>u_uid = 9, u_gid = 9\<rparr> 77 (IPC_CREAT OR 0x180) ?ps = Inr (1, True, ps')"
    by (simp add: ipcget_def demo_perm_def ipc_allocated_def)
  ultimately show ?thesis using ipcget_unique_key [of ?ps "\<lparr>u_uid = 9, u_gid = 9\<rparr>" 77 "IPC_CREAT OR 0x180" 1 True ps']
    by simp
qed

end
