(* ===== verification/Msg_Queue.thy ===== *)
theory Msg_Queue
  imports Resource_Map Ipc_Perm
begin

unbundle bit_operations_syntax

text \<open>
  Message queues (\<^verbatim>\<open>sys/os/msg.c\<close>, \<^verbatim>\<open>sys/msg.h\<close>). A queue is the list of the numbers of its
  message headers in \<^verbatim>\<open>msgh\<close>, from \<^verbatim>\<open>msg_first\<close> to \<^verbatim>\<open>msg_last\<close> along \<^verbatim>\<open>msg_next\<close>; so is
  the free list \<^verbatim>\<open>msgfp\<close>. Message text lies in a pool of segments allocated from the resource map
  \<^verbatim>\<open>msgmap\<close>. A call runs in one step up to its end or its next \<^verbatim>\<open>sleep\<close>; the steps after a
  sleep are the \<open>resume\<close> operations. The calls of \<^verbatim>\<open>wakeup\<close> are recorded. \<^verbatim>\<open>msgrcv\<close> and \<^verbatim>\<open>msgsnd\<close> copy the message between what comes
  before (\<open>msgrcv_pick\<close>, \<open>msgsnd_reserve\<close>) and what comes after (\<open>msgrcv_take\<close>, \<open>msg_link\<close>); the copies may fault,
  but the step relation has them not sleep for a page. What goes wrong when they do is shown at the end.
\<close>

section \<open>State\<close>

record msghdr =
  msg_type :: int
  msg_ts :: int
  msg_spot :: int

record msqid_ds =
  msg_perm :: ipc_perm
  msg_chain :: "nat list"
  msg_cbytes :: u16
  msg_qnum :: u16
  msg_qbytes :: u16
  msg_lspid :: u16
  msg_lrpid :: u16
  msg_stime :: int
  msg_rtime :: int
  msg_ctime :: int

record msginfo =
  msgmapsz :: nat
  msgmax :: nat
  msgmnb :: nat
  msgmni :: nat
  msgssz :: nat
  msgtql :: nat
  msgseg :: nat

datatype msgchan = QnumChan nat | QueueChan nat | MsgfpChan | MsgmapChan

record msgsys =
  msgque :: "msqid_ds list"
  msgh :: "nat \<Rightarrow> msghdr"
  msgfp :: "nat list"
  msgmap :: rmap
  msgtext :: "nat \<Rightarrow> u8"
  msgwoken :: "msgchan list"

abbreviation MSG_R :: u16 where "MSG_R \<equiv> 0x100"
abbreviation MSG_W :: u16 where "MSG_W \<equiv> 0x80"
abbreviation MSG_RWAIT :: u16 where "MSG_RWAIT \<equiv> 0x200"
abbreviation MSG_WWAIT :: u16 where "MSG_WWAIT \<equiv> 0x400"
abbreviation MSG_NOERROR :: u32 where "MSG_NOERROR \<equiv> 0x1000"

section \<open>Operations\<close>

definition btoq :: "msginfo \<Rightarrow> nat \<Rightarrow> nat" where
  "btoq mi x = (x + msgssz mi - 1) div msgssz mi"

definition upd_queue :: "nat \<Rightarrow> (msqid_ds \<Rightarrow> msqid_ds) \<Rightarrow> msgsys \<Rightarrow> msgsys" where
  "upd_queue q f s = s\<lparr>msgque := (msgque s)[q := f (msgque s ! q)]\<rparr>"

definition msg_mode :: "(u16 \<Rightarrow> u16) \<Rightarrow> msqid_ds \<Rightarrow> msqid_ds" where
  "msg_mode f qp = qp\<lparr>msg_perm := (msg_perm qp)\<lparr>ipc_mode := f (ipc_mode (msg_perm qp))\<rparr>\<rparr>"

definition msg_wakeup :: "msgchan \<Rightarrow> msgsys \<Rightarrow> msgsys" where
  "msg_wakeup c s = s\<lparr>msgwoken := msgwoken s @ [c]\<rparr>"

definition has_mode :: "msgsys \<Rightarrow> nat \<Rightarrow> u16 \<Rightarrow> bool" where
  "has_mode s q m \<longleftrightarrow> ipc_mode (msg_perm (msgque s ! q)) AND m \<noteq> 0"

text \<open>\<^verbatim>\<open>msgconv\<close>: \<open>None\<close> is an index outside \<^verbatim>\<open>msgque\<close>, which a negative identifier gives.\<close>

definition msgconv :: "msginfo \<Rightarrow> int \<Rightarrow> msgsys \<Rightarrow> (errno + nat) option" where
  "msgconv mi mid s =
     (let i = c_rem mid (int (msgmni mi)) in
      if i < 0 \<or> length (msgque s) \<le> nat i then None
      else let p = msg_perm (msgque s ! nat i) in
        if \<not> ipc_allocated p \<or> c_quot mid (int (msgmni mi)) \<noteq> uint (ipc_seq p) then Some (Inl EINVAL)
        else Some (Inr (nat i)))"

text \<open>
  \<^verbatim>\<open>msgfree\<close> for the message at position \<open>k\<close> of queue \<open>q\<close>, its predecessor being the message
  before it: unlink it, free its text, put the header on the free list.
\<close>

definition msgfree_text :: "msginfo \<Rightarrow> msghdr \<Rightarrow> msgsys \<Rightarrow> msgsys" where
  "msgfree_text mi mp s =
     (if msg_ts mp = 0 then s
      else let (r, m) = mfree (msgmap s) (of_nat (btoq mi (nat (msg_ts mp)))) (of_int (msg_spot mp + 1));
               s' = s\<lparr>msgmap := m\<rparr> in
           if r = Freed True then msg_wakeup MsgmapChan s' else s')"

definition msgfree :: "msginfo \<Rightarrow> nat \<Rightarrow> nat \<Rightarrow> msgsys \<Rightarrow> msgsys" where
  "msgfree mi q k s =
     (let h = msg_chain (msgque s ! q) ! k;
        s1 = upd_queue q (\<lambda>qp. qp\<lparr>msg_chain := take k (msg_chain qp) @ drop (Suc k) (msg_chain qp),
                                  msg_qnum := msg_qnum qp - 1\<rparr>) s;
        s2 = (if has_mode s1 q MSG_WWAIT then
                msg_wakeup (QueueChan q) (upd_queue q (msg_mode (\<lambda>m. m AND NOT MSG_WWAIT)) s1)
              else s1);
        s3 = msgfree_text mi (msgh s2 h) s2;
        s4 = (if msgfp s3 = [] then msg_wakeup MsgfpChan s3 else s3) in
      s4\<lparr>msgfp := h # msgfp s4\<rparr>)"

primrec msg_purge :: "msginfo \<Rightarrow> nat \<Rightarrow> nat \<Rightarrow> msgsys \<Rightarrow> msgsys" where
  "msg_purge mi q 0 s = s"
| "msg_purge mi q (Suc n) s = msg_purge mi q n (msgfree mi q 0 s)"

text \<open>
  \<^verbatim>\<open>msgctl\<close>: \<open>buf\<close> is what \<^verbatim>\<open>copyin\<close> reads (\<open>None\<close> if it faults), \<open>out\<close> tells whether
  \<^verbatim>\<open>copyout\<close> succeeds. The copy handed out by \<^verbatim>\<open>IPC_STAT\<close> is the second component.
\<close>

definition msg_rmid :: "msginfo \<Rightarrow> int \<Rightarrow> nat \<Rightarrow> msgsys \<Rightarrow> msgsys" where
  "msg_rmid mi mid q s =
     (let s1 = msg_purge mi q (length (msg_chain (msgque s ! q))) s;
        s2 = upd_queue q (\<lambda>qp. qp\<lparr>msg_cbytes := 0,
               msg_perm := (msg_perm qp)\<lparr>ipc_seq :=
                 (if sint (word_of_int (mid + int (msgmni mi)) :: u32) < 0 then 0
                  else ipc_seq (msg_perm qp) + 1)\<rparr>\<rparr>) s1;
        s3 = (if has_mode s2 q MSG_RWAIT then msg_wakeup (QnumChan q) s2 else s2);
        s4 = (if has_mode s3 q MSG_WWAIT then msg_wakeup (QueueChan q) s3 else s3) in
      upd_queue q (msg_mode (\<lambda>_. 0)) s4)"

definition msgctl :: "msginfo \<Rightarrow> caller \<Rightarrow> int \<Rightarrow> int \<Rightarrow> msqid_ds option \<Rightarrow> bool \<Rightarrow> msgsys
    \<Rightarrow> msgchan outcome \<times> msqid_ds option \<times> msgsys" where
  "msgctl mi c mid cmd buf out s =
     (case msgconv mi mid s of
        None \<Rightarrow> (Wild, None, s)
      | Some (Inl e) \<Rightarrow> (Err e, None, s)
      | Some (Inr q) \<Rightarrow>
          let qp = msgque s ! q in
          if cmd = IPC_RMID then
            (if \<not> ipc_owner c (msg_perm qp) then (Err EPERM, None, s)
             else (Done 0, None, msg_rmid mi mid q s))
          else if cmd = IPC_SET then
            (if \<not> ipc_owner c (msg_perm qp) then (Err EPERM, None, s)
             else case buf of
               None \<Rightarrow> (Err EFAULT, None, s)
             | Some ds \<Rightarrow>
                 if msg_qbytes qp < msg_qbytes ds \<and> \<not> suser c then (Err EPERM, None, s)
                 else (Done 0, None, upd_queue q (\<lambda>qp. qp\<lparr>
                   msg_perm := (msg_perm qp)\<lparr>ipc_uid := ipc_uid (msg_perm ds), ipc_gid := ipc_gid (msg_perm ds),
                     ipc_mode := ipc_mode (msg_perm qp) AND NOT 0x1FF OR ipc_mode (msg_perm ds) AND 0x1FF\<rparr>,
                   msg_qbytes := msg_qbytes ds, msg_ctime := ca_time c\<rparr>) s))
          else if cmd = IPC_STAT then
            (case ipcaccess c (msg_perm qp) MSG_R of
               Some e \<Rightarrow> (Err e, None, s)
             | None \<Rightarrow> if out then (Done 0, Some qp, s) else (Err EFAULT, None, s))
          else (Err EINVAL, None, s))"

definition msgget :: "msginfo \<Rightarrow> caller \<Rightarrow> int \<Rightarrow> u32 \<Rightarrow> msgsys \<Rightarrow> msgchan outcome \<times> msgsys" where
  "msgget mi c key flg s =
     (case ipcget c key flg (map msg_perm (msgque s)) of
        Inl e \<Rightarrow> (Err e, s)
      | Inr (q, new, ps) \<Rightarrow>
          let s1 = upd_queue q (\<lambda>qp. qp\<lparr>msg_perm := ps ! q\<rparr>) s;
              s2 = (if new then upd_queue q (\<lambda>qp. qp\<lparr>msg_chain := [], msg_qnum := 0,
                      msg_qbytes := of_nat (msgmnb mi), msg_lspid := 0, msg_lrpid := 0,
                      msg_stime := 0, msg_rtime := 0, msg_ctime := ca_time c\<rparr>) s1
                    else s1) in
          (Done (uint (ipc_seq (ps ! q)) * int (msgmni mi) + int q), s2))"

text \<open>\<^verbatim>\<open>msginit\<close> on the cleared tables; \<open>buf_ok\<close> tells whether there was memory for the pool.\<close>

definition zero_perm :: ipc_perm where
  "zero_perm = \<lparr>ipc_uid = 0, ipc_gid = 0, ipc_cuid = 0, ipc_cgid = 0, ipc_mode = 0, ipc_seq = 0, ipc_key = 0\<rparr>"

definition msginit :: "msginfo \<Rightarrow> bool \<Rightarrow> msgsys" where
  "msginit mi buf_ok =
     \<lparr>msgque = replicate (msgmni mi) \<lparr>msg_perm = zero_perm, msg_chain = [], msg_cbytes = 0, msg_qnum = 0,
        msg_qbytes = 0, msg_lspid = 0, msg_lrpid = 0, msg_stime = 0, msg_rtime = 0, msg_ctime = 0\<rparr>,
      msgh = (\<lambda>_. \<lparr>msg_type = 0, msg_ts = 0, msg_spot = 0\<rparr>),
      msgfp = [0..<max 1 (msgtql mi)],
      msgmap = snd (mfree (mapinit (msgmapsz mi)) (if buf_ok then of_nat (msgseg mi) else 0) 1),
      msgtext = (\<lambda>_. 0), msgwoken = []\<rparr>"

text \<open>
  The search of \<^verbatim>\<open>msgrcv\<close>: the position of the message taken. \<open>best\<close> is \<^verbatim>\<open>smp\<close> with its position.
\<close>

fun msg_scan :: "(nat \<Rightarrow> msghdr) \<Rightarrow> int \<Rightarrow> nat \<Rightarrow> (nat \<times> nat) option \<Rightarrow> nat list \<Rightarrow> (nat \<times> nat) option" where
  "msg_scan H typ k best [] = best"
| "msg_scan H typ k best (h # r) =
     (if 0 < typ then
        (if typ \<noteq> msg_type (H h) then msg_scan H typ (Suc k) best r else Some (k, h))
      else if msg_type (H h) \<le> to_long (- typ) then
        (case best of
           Some (_, b) \<Rightarrow> if msg_type (H b) \<le> msg_type (H h) then msg_scan H typ (Suc k) best r
                          else msg_scan H typ (Suc k) (Some (k, h)) r
         | None \<Rightarrow> msg_scan H typ (Suc k) (Some (k, h)) r)
      else msg_scan H typ (Suc k) best r)"

definition msg_find :: "(nat \<Rightarrow> msghdr) \<Rightarrow> int \<Rightarrow> nat list \<Rightarrow> (nat \<times> nat) option" where
  "msg_find H typ hs =
     (if typ = 0 then (case hs of [] \<Rightarrow> None | h # _ \<Rightarrow> Some (0, h)) else msg_scan H typ 0 None hs)"

text \<open>
  \<^verbatim>\<open>msgrcv\<close> from the label \<^verbatim>\<open>findmsg\<close> on. The user's buffer is described by \<open>room\<close>: \<open>None\<close> if
  storing the type faults, else the number of text bytes that can be stored. What the user receives is
  the second component.
\<close>

definition msg_bytes :: "msginfo \<Rightarrow> (nat \<Rightarrow> u8) \<Rightarrow> msghdr \<Rightarrow> nat \<Rightarrow> u8 list" where
  "msg_bytes mi mem mp n = map mem [msgssz mi * nat (msg_spot mp)..<msgssz mi * nat (msg_spot mp) + n]"

datatype rcv_pick = RcvWait | RcvErr errno | RcvGot nat nat int

definition msgrcv_pick :: "int \<Rightarrow> int \<Rightarrow> u32 \<Rightarrow> nat \<Rightarrow> msgsys \<Rightarrow> rcv_pick" where
  "msgrcv_pick msgsz typ flg q s =
     (case msg_find (msgh s) typ (msg_chain (msgque s ! q)) of
        Some (k, h) \<Rightarrow>
          let mp = msgh s h in
          if msgsz < msg_ts mp \<and> flg AND MSG_NOERROR = 0 then RcvErr E2BIG
          else RcvGot k h (if msgsz < msg_ts mp then msgsz else msg_ts mp)
      | None \<Rightarrow> if flg AND IPC_NOWAIT \<noteq> 0 then RcvErr ENOMSG else RcvWait)"

definition msgrcv_take :: "msginfo \<Rightarrow> caller \<Rightarrow> nat \<Rightarrow> nat \<Rightarrow> nat \<Rightarrow> msgsys \<Rightarrow> msgsys" where
  "msgrcv_take mi c k h q s =
     msgfree mi q k (upd_queue q (\<lambda>qp. qp\<lparr>msg_cbytes := msg_cbytes qp - word_of_int (msg_ts (msgh s h)),
       msg_lrpid := ca_pid c, msg_rtime := ca_time c\<rparr>) s)"

definition msgrcv_find :: "msginfo \<Rightarrow> caller \<Rightarrow> int \<Rightarrow> int \<Rightarrow> u32 \<Rightarrow> nat option \<Rightarrow> nat \<Rightarrow> msgsys
    \<Rightarrow> msgchan outcome \<times> (int \<times> u8 list) option \<times> msgsys" where
  "msgrcv_find mi c msgsz typ flg room q s =
     (case msgrcv_pick msgsz typ flg q s of
        RcvErr e \<Rightarrow> (Err e, None, s)
      | RcvWait \<Rightarrow> (Sleep (QnumChan q), None, upd_queue q (msg_mode (\<lambda>m. m OR MSG_RWAIT)) s)
      | RcvGot k h sz \<Rightarrow>
          (case room of
             None \<Rightarrow> (Err EFAULT, None, s)
           | Some n \<Rightarrow>
               if sz \<noteq> 0 \<and> int n < sz then (Err EFAULT, None, s)
               else (Done sz, Some (msg_type (msgh s h), msg_bytes mi (msgtext s) (msgh s h) (nat sz)), msgrcv_take mi c k h q s)))"

lemma msgrcv_find_eq:
  "msgrcv_find mi c msgsz typ flg room q s =
     (case msg_find (msgh s) typ (msg_chain (msgque s ! q)) of
        Some (k, h) \<Rightarrow>
          let mp = msgh s h in
          if msgsz < msg_ts mp \<and> flg AND MSG_NOERROR = 0 then (Err E2BIG, None, s)
          else let sz = (if msgsz < msg_ts mp then msgsz else msg_ts mp) in
            (case room of
               None \<Rightarrow> (Err EFAULT, None, s)
             | Some n \<Rightarrow>
                 if sz \<noteq> 0 \<and> int n < sz then (Err EFAULT, None, s)
                 else
                   (Done sz, Some (msg_type mp, msg_bytes mi (msgtext s) mp (nat sz)),
                    msgfree mi q k (upd_queue q (\<lambda>qp. qp\<lparr>msg_cbytes := msg_cbytes qp - word_of_int (msg_ts mp),
                      msg_lrpid := ca_pid c, msg_rtime := ca_time c\<rparr>) s)))
      | None \<Rightarrow>
          if flg AND IPC_NOWAIT \<noteq> 0 then (Err ENOMSG, None, s)
          else (Sleep (QnumChan q), None, upd_queue q (msg_mode (\<lambda>m. m OR MSG_RWAIT)) s))"
  by (simp add: msgrcv_find_def msgrcv_pick_def msgrcv_take_def Let_def split: option.split prod.split)

definition msgrcv :: "msginfo \<Rightarrow> caller \<Rightarrow> int \<Rightarrow> int \<Rightarrow> int \<Rightarrow> u32 \<Rightarrow> nat option \<Rightarrow> msgsys
    \<Rightarrow> msgchan outcome \<times> (int \<times> u8 list) option \<times> msgsys" where
  "msgrcv mi c mid msgsz typ flg room s =
     (case msgconv mi mid s of
        None \<Rightarrow> (Wild, None, s)
      | Some (Inl e) \<Rightarrow> (Err e, None, s)
      | Some (Inr q) \<Rightarrow>
          (case ipcaccess c (msg_perm (msgque s ! q)) MSG_R of
             Some e \<Rightarrow> (Err e, None, s)
           | None \<Rightarrow> if msgsz < 0 then (Err EINVAL, None, s) else msgrcv_find mi c msgsz typ flg room q s))"

definition msgrcv_resume :: "msginfo \<Rightarrow> caller \<Rightarrow> int \<Rightarrow> int \<Rightarrow> int \<Rightarrow> u32 \<Rightarrow> nat option \<Rightarrow> bool \<Rightarrow> nat \<Rightarrow> msgsys
    \<Rightarrow> msgchan outcome \<times> (int \<times> u8 list) option \<times> msgsys" where
  "msgrcv_resume mi c mid msgsz typ flg room intr q s =
     (if intr then (Err EINTR, None, s)
      else case msgconv mi mid s of
        None \<Rightarrow> (Wild, None, s)
      | Some (Inl e) \<Rightarrow> (Err EIDRM, None, s)
      | Some (Inr _) \<Rightarrow> msgrcv_find mi c msgsz typ flg room q s)"

text \<open>
  \<^verbatim>\<open>msgsnd\<close> from the label \<^verbatim>\<open>getres\<close> on: space on the queue, a header, space for the text, each of
  which may have to be waited for; then the text is copied in (\<open>utext\<close> are the bytes that can be
  read from the user's buffer) and the message is linked in at the end.
\<close>

definition mem_write :: "nat \<Rightarrow> u8 list \<Rightarrow> (nat \<Rightarrow> u8) \<Rightarrow> nat \<Rightarrow> u8" where
  "mem_write a xs m = (\<lambda>i. if a \<le> i \<and> i < a + length xs then xs ! (i - a) else m i)"

definition msg_link :: "caller \<Rightarrow> nat \<Rightarrow> int \<Rightarrow> nat \<Rightarrow> int \<Rightarrow> msgsys \<Rightarrow> msgsys" where
  "msg_link c q typ cnt spot s =
     (let h = hd (msgfp s);
        s1 = upd_queue q (\<lambda>qp. qp\<lparr>msg_qnum := msg_qnum qp + 1, msg_cbytes := msg_cbytes qp + of_nat cnt,
               msg_lspid := ca_pid c, msg_stime := ca_time c, msg_chain := msg_chain qp @ [h]\<rparr>) s;
        s2 = s1\<lparr>msgfp := tl (msgfp s1),
                msgh := (msgh s1)(h := \<lparr>msg_type = typ, msg_ts = to_short (int cnt),
                  msg_spot = to_short (if cnt \<noteq> 0 then spot else -1)\<rparr>)\<rparr> in
      if has_mode s2 q MSG_RWAIT then
        msg_wakeup (QnumChan q) (upd_queue q (msg_mode (\<lambda>m. m AND NOT MSG_RWAIT)) s2)
      else s2)"

datatype snd_res = SndStop "msgchan outcome" | SndGot u32

definition msgsnd_reserve :: "msginfo \<Rightarrow> int \<Rightarrow> nat \<Rightarrow> u32 \<Rightarrow> nat \<Rightarrow> msgsys \<Rightarrow> snd_res \<times> msgsys" where
  "msgsnd_reserve mi mid cnt flg q s =
     (case msgconv mi mid s of
        None \<Rightarrow> (SndStop Wild, s)
      | Some (Inl e) \<Rightarrow> (SndStop (Err EIDRM), s)
      | Some (Inr _) \<Rightarrow>
          let nowait = (flg AND IPC_NOWAIT \<noteq> 0); qp = msgque s ! q in
          if unat (msg_qbytes qp) < cnt + unat (msg_cbytes qp) then
            (if nowait then (SndStop (Err EAGAIN), s)
             else (SndStop (Sleep (QueueChan q)), upd_queue q (msg_mode (\<lambda>m. m OR MSG_WWAIT)) s))
          else if msgfp s = [] then (if nowait then (SndStop (Err EAGAIN), s) else (SndStop (Sleep MsgfpChan), s))
          else if cnt = 0 then (SndGot 0, s)
          else
            (case malloc (msgmap s) (of_nat (btoq mi cnt)) of (a, m) \<Rightarrow>
               let s1 = s\<lparr>msgmap := m\<rparr> in
               if a = 0 then
                 (if nowait then (SndStop (Err EAGAIN), s1)
                  else (SndStop (Sleep MsgmapChan), s1\<lparr>msgmap := m\<lparr>map_want := map_want m + 1\<rparr>\<rparr>))
               else (SndGot a, s1)))"

definition msgsnd_copy :: "msginfo \<Rightarrow> caller \<Rightarrow> int \<Rightarrow> nat \<Rightarrow> u8 list \<Rightarrow> nat \<Rightarrow> u32 \<Rightarrow> msgsys \<Rightarrow> msgchan outcome \<times> msgsys" where
  "msgsnd_copy mi c typ cnt utext q a s1 =
     (if cnt = 0 then (Done 0, msg_link c q typ 0 0 s1)
      else let spot = unat a - 1;
               s2 = s1\<lparr>msgtext := mem_write (msgssz mi * spot) (take cnt utext) (msgtext s1)\<rparr> in
        if length utext < cnt then
          (let (r, m') = mfree (msgmap s2) (of_nat (btoq mi cnt)) a; s3 = s2\<lparr>msgmap := m'\<rparr> in
           (Err EFAULT, if r = Freed True then msg_wakeup MsgmapChan s3 else s3))
        else (Done 0, msg_link c q typ cnt (int spot) s2))"

definition msgsnd_get :: "msginfo \<Rightarrow> caller \<Rightarrow> int \<Rightarrow> int \<Rightarrow> nat \<Rightarrow> u8 list \<Rightarrow> u32 \<Rightarrow> nat \<Rightarrow> msgsys
    \<Rightarrow> msgchan outcome \<times> msgsys" where
  "msgsnd_get mi c mid typ cnt utext flg q s =
     (case msgsnd_reserve mi mid cnt flg q s of
        (SndStop r, s1) \<Rightarrow> (r, s1)
      | (SndGot a, s1) \<Rightarrow> msgsnd_copy mi c typ cnt utext q a s1)"

lemma msgsnd_get_eq:
  "msgsnd_get mi c mid typ cnt utext flg q s =
     (case msgconv mi mid s of
        None \<Rightarrow> (Wild, s)
      | Some (Inl e) \<Rightarrow> (Err EIDRM, s)
      | Some (Inr _) \<Rightarrow>
          let nowait = (flg AND IPC_NOWAIT \<noteq> 0); qp = msgque s ! q in
          if unat (msg_qbytes qp) < cnt + unat (msg_cbytes qp) then
            (if nowait then (Err EAGAIN, s)
             else (Sleep (QueueChan q), upd_queue q (msg_mode (\<lambda>m. m OR MSG_WWAIT)) s))
          else if msgfp s = [] then (if nowait then (Err EAGAIN, s) else (Sleep MsgfpChan, s))
          else if cnt = 0 then (Done 0, msg_link c q typ 0 0 s)
          else
            (case malloc (msgmap s) (of_nat (btoq mi cnt)) of (a, m) \<Rightarrow>
               let s1 = s\<lparr>msgmap := m\<rparr> in
               if a = 0 then
                 (if nowait then (Err EAGAIN, s1)
                  else (Sleep MsgmapChan, s1\<lparr>msgmap := m\<lparr>map_want := map_want m + 1\<rparr>\<rparr>))
               else
                 (let spot = unat a - 1;
                    s2 = s1\<lparr>msgtext := mem_write (msgssz mi * spot) (take cnt utext) (msgtext s1)\<rparr> in
                  if length utext < cnt then
                    (let (r, m') = mfree (msgmap s2) (of_nat (btoq mi cnt)) a; s3 = s2\<lparr>msgmap := m'\<rparr> in
                     (Err EFAULT, if r = Freed True then msg_wakeup MsgmapChan s3 else s3))
                  else (Done 0, msg_link c q typ cnt (int spot) s2))))"
  by (auto simp: msgsnd_get_def msgsnd_reserve_def msgsnd_copy_def Let_def split: option.split sum.split prod.split)

definition msgsnd :: "msginfo \<Rightarrow> caller \<Rightarrow> int \<Rightarrow> int option \<Rightarrow> int \<Rightarrow> u8 list \<Rightarrow> u32 \<Rightarrow> msgsys
    \<Rightarrow> msgchan outcome \<times> msgsys" where
  "msgsnd mi c mid utype msgsz utext flg s =
     (case msgconv mi mid s of
        None \<Rightarrow> (Wild, s)
      | Some (Inl e) \<Rightarrow> (Err e, s)
      | Some (Inr q) \<Rightarrow>
          (case ipcaccess c (msg_perm (msgque s ! q)) MSG_W of
             Some e \<Rightarrow> (Err e, s)
           | None \<Rightarrow>
               if msgsz < 0 \<or> int (msgmax mi) < msgsz then (Err EINVAL, s)
               else case utype of
                 None \<Rightarrow> (Err EFAULT, s)
               | Some typ \<Rightarrow>
                   if typ < 1 then (Err EINVAL, s)
                   else msgsnd_get mi c mid typ (nat msgsz) utext flg q s))"

text \<open>After a sleep; an interrupted wait for queue space clears the flag and passes the wakeup on.\<close>

definition msgsnd_resume :: "msginfo \<Rightarrow> caller \<Rightarrow> int \<Rightarrow> int \<Rightarrow> nat \<Rightarrow> u8 list \<Rightarrow> u32 \<Rightarrow> bool \<Rightarrow> msgchan \<Rightarrow> nat
    \<Rightarrow> msgsys \<Rightarrow> msgchan outcome \<times> msgsys" where
  "msgsnd_resume mi c mid typ cnt utext flg intr ch q s =
     (if intr then
        (Err EINTR, if ch = QueueChan q
                    then msg_wakeup (QueueChan q) (upd_queue q (msg_mode (\<lambda>m. m AND NOT MSG_WWAIT)) s) else s)
      else msgsnd_get mi c mid typ cnt utext flg q s)"

section \<open>Abstraction and invariant\<close>

text \<open>
  The segments of the pool a message occupies, as map units; the invariant keeps those of different
  messages, and the free ones, apart. The abstraction of a queue is the list of its messages with
  their types and texts.
\<close>

definition hsegs :: "msginfo \<Rightarrow> msghdr \<Rightarrow> nat set" where
  "hsegs mi mp = (if msg_ts mp = 0 then {}
     else {nat (msg_spot mp) + 1..<nat (msg_spot mp) + 1 + btoq mi (nat (msg_ts mp))})"

definition qchain :: "msgsys \<Rightarrow> nat \<Rightarrow> nat list" where
  "qchain s q = (if q < length (msgque s) then msg_chain (msgque s ! q) else [])"

definition hdr_ok :: "msginfo \<Rightarrow> msghdr \<Rightarrow> bool" where
  "hdr_ok mi mp \<longleftrightarrow> 0 \<le> msg_ts mp \<and> msg_ts mp \<le> int (msgmax mi) \<and> (msg_ts mp \<noteq> 0 \<longrightarrow> 0 \<le> msg_spot mp)
     \<and> hsegs mi mp \<subseteq> {1..msgseg mi}"

definition msg_heap :: "msginfo \<Rightarrow> (nat \<Rightarrow> nat list) \<Rightarrow> (nat \<Rightarrow> msghdr) \<Rightarrow> nat list \<Rightarrow> nat set \<Rightarrow> bool" where
  "msg_heap mi C H F U \<longleftrightarrow> distinct F
     \<and> (\<forall>q. distinct (C q) \<and> set (C q) \<inter> set F = {})
     \<and> (\<forall>q q'. q \<noteq> q' \<longrightarrow> set (C q) \<inter> set (C q') = {})
     \<and> (\<forall>q. \<forall>h \<in> set (C q). hdr_ok mi (H h) \<and> hsegs mi (H h) \<inter> U = {})
     \<and> (\<forall>q q' h h'. h \<in> set (C q) \<longrightarrow> h' \<in> set (C q') \<longrightarrow> h \<noteq> h' \<longrightarrow> hsegs mi (H h) \<inter> hsegs mi (H h') = {})"

definition bytes_ok :: "(nat \<Rightarrow> msghdr) \<Rightarrow> msqid_ds \<Rightarrow> bool" where
  "bytes_ok H qp \<longleftrightarrow> uint (msg_cbytes qp) = sum_list (map (\<lambda>h. msg_ts (H h)) (msg_chain qp))"

definition msg_cfg :: "msginfo \<Rightarrow> bool" where
  "msg_cfg mi \<longleftrightarrow> 0 < msgmni mi \<and> msgmni mi < 2 ^ 16 \<and> 0 < msgssz mi \<and> msgmax mi < 2 ^ 15 \<and> msgseg mi < 2 ^ 15"

text \<open>The invariant without and with the byte counts, which lag behind within a call.\<close>

definition msg_pool :: "msginfo \<Rightarrow> msgsys \<Rightarrow> bool" where
  "msg_pool mi s \<longleftrightarrow> msg_cfg mi \<and> length (msgque s) = msgmni mi \<and> map_wf (msgmap s)
     \<and> free_units (msgmap s) \<subseteq> {1..msgseg mi}
     \<and> msg_heap mi (qchain s) (msgh s) (msgfp s) (free_units (msgmap s))
     \<and> (\<forall>q < length (msgque s). msg_qnum (msgque s ! q) = of_nat (length (msg_chain (msgque s ! q))))"

definition msg_wf :: "msginfo \<Rightarrow> msgsys \<Rightarrow> bool" where
  "msg_wf mi s \<longleftrightarrow> msg_pool mi s \<and> (\<forall>q < length (msgque s). bytes_ok (msgh s) (msgque s ! q))"

definition msg_of :: "msginfo \<Rightarrow> msgsys \<Rightarrow> nat \<Rightarrow> int \<times> u8 list" where
  "msg_of mi s h = (msg_type (msgh s h), msg_bytes mi (msgtext s) (msgh s h) (nat (msg_ts (msgh s h))))"

definition msg_contents :: "msginfo \<Rightarrow> msgsys \<Rightarrow> nat \<Rightarrow> (int \<times> u8 list) list" where
  "msg_contents mi s q = map (msg_of mi s) (qchain s q)"

section \<open>Frame lemmas\<close>

lemma upd_queue_simps [simp]:
  "length (msgque (upd_queue q f s)) = length (msgque s)" "msgh (upd_queue q f s) = msgh s"
  "msgfp (upd_queue q f s) = msgfp s" "msgmap (upd_queue q f s) = msgmap s"
  "msgtext (upd_queue q f s) = msgtext s" "msgwoken (upd_queue q f s) = msgwoken s"
  by (simp_all add: upd_queue_def)

lemma msg_wakeup_simps [simp]:
  "msgque (msg_wakeup ch s) = msgque s" "msgh (msg_wakeup ch s) = msgh s"
  "msgfp (msg_wakeup ch s) = msgfp s" "msgmap (msg_wakeup ch s) = msgmap s"
  "msgtext (msg_wakeup ch s) = msgtext s" "msgwoken (msg_wakeup ch s) = msgwoken s @ [ch]"
  by (simp_all add: msg_wakeup_def)

lemma upd_queue_nth: "q' < length (msgque s) \<Longrightarrow>
    msgque (upd_queue q f s) ! q' = (if q' = q then f (msgque s ! q) else msgque s ! q')"
  by (simp add: upd_queue_def nth_list_update)

lemma msg_mode_simps [simp]:
  "msg_chain (msg_mode f qp) = msg_chain qp" "msg_cbytes (msg_mode f qp) = msg_cbytes qp"
  "msg_qnum (msg_mode f qp) = msg_qnum qp" "ipc_mode (msg_perm (msg_mode f qp)) = f (ipc_mode (msg_perm qp))"
  "ipc_seq (msg_perm (msg_mode f qp)) = ipc_seq (msg_perm qp)" "msg_qbytes (msg_mode f qp) = msg_qbytes qp"
  by (simp_all add: msg_mode_def)

lemma qchain_upd: "q < length (msgque s) \<Longrightarrow>
    qchain (upd_queue q f s) = (qchain s)(q := msg_chain (f (msgque s ! q)))"
  by (auto simp: qchain_def upd_queue_nth)

lemma msg_wf_frame:
  assumes "msg_wf mi s" "length (msgque s') = length (msgque s)"
    and "\<And>q. q < length (msgque s) \<Longrightarrow> msg_chain (msgque s' ! q) = msg_chain (msgque s ! q)
      \<and> msg_cbytes (msgque s' ! q) = msg_cbytes (msgque s ! q) \<and> msg_qnum (msgque s' ! q) = msg_qnum (msgque s ! q)"
    and "msgh s' = msgh s" "msgfp s' = msgfp s" "map_wf (msgmap s')" "free_units (msgmap s') = free_units (msgmap s)"
  shows "msg_wf mi s' \<and> qchain s' = qchain s"
proof -
  have "qchain s' = qchain s" using assms(2,3) by (auto simp: qchain_def)
  with assms show ?thesis by (simp add: msg_wf_def msg_pool_def bytes_ok_def)
qed

lemma msg_contents_frame:
  "\<lbrakk>qchain s' = qchain s; msgh s' = msgh s; msgtext s' = msgtext s\<rbrakk> \<Longrightarrow> msg_contents mi s' = msg_contents mi s"
  by (intro ext) (simp add: msg_contents_def msg_of_def)

text \<open>An update of one queue's record that leaves its messages and counts alone.\<close>

lemma msg_wf_upd:
  assumes "msg_wf mi s"
    and "\<And>qp. msg_chain (f qp) = msg_chain qp \<and> msg_cbytes (f qp) = msg_cbytes qp \<and> msg_qnum (f qp) = msg_qnum qp"
  shows "msg_wf mi (upd_queue q f s) \<and> qchain (upd_queue q f s) = qchain s"
  by (rule msg_wf_frame [OF assms(1)]) (use assms in \<open>auto simp: upd_queue_nth msg_wf_def msg_pool_def\<close>)

lemma msg_wf_wakeup [simp]: "msg_wf mi (msg_wakeup ch s) = msg_wf mi s" "qchain (msg_wakeup ch s) = qchain s"
proof -
  show "qchain (msg_wakeup ch s) = qchain s" by (simp add: qchain_def fun_eq_iff)
  then show "msg_wf mi (msg_wakeup ch s) = msg_wf mi s" by (simp add: msg_wf_def msg_pool_def)
qed

lemma msg_map_want_frame [simp]:
  "map_wf (m\<lparr>map_want := w\<rparr>) = map_wf m" "free_units (m\<lparr>map_want := w\<rparr>) = free_units m"
  by (simp_all add: map_wf_def map_live_def free_units_def)

section \<open>Segments\<close>

lemma div_up_bounds:
  assumes "0 < k" "0 < (n :: nat)"
  shows "0 < (n + k - 1) div k" "n \<le> k * ((n + k - 1) div k)" "(n + k - 1) div k \<le> n"
proof -
  have "k \<noteq> 0" "n + k - 1 = (n - 1) + k" using assms by simp_all
  then have b: "(n + k - 1) div k = Suc ((n - 1) div k)"
    by (simp only: div_add_self2 Suc_eq_plus1 simp_thms)
  show "0 < (n + k - 1) div k" by (simp only: b zero_less_Suc)
  have "n - 1 < k + k * ((n - 1) div k)" using dividend_less_times_div [OF assms(1)] .
  then show "n \<le> k * ((n + k - 1) div k)" unfolding b mult_Suc_right by linarith
  have "(n - 1) div k \<le> n - 1" by (rule div_le_dividend)
  then show "(n + k - 1) div k \<le> n" unfolding b using assms(2) by linarith
qed

lemma btoq_bounds:
  assumes "0 < msgssz mi" "0 < n"
  shows "0 < btoq mi n" "n \<le> msgssz mi * btoq mi n" "btoq mi n \<le> n"
  using div_up_bounds [OF assms] by (simp_all add: btoq_def)

lemma unat_btoq:
  assumes "msg_cfg mi" "0 < n" "n \<le> msgmax mi"
  shows "unat (of_nat (btoq mi n) :: u32) = btoq mi n"
proof -
  have "btoq mi n < 2 ^ 15" using btoq_bounds(3) [of mi n] assms by (simp add: msg_cfg_def)
  then show ?thesis by (simp add: unat_of_nat take_bit_nat_eq_self)
qed

text \<open>The bytes of a message lie within its segments.\<close>

lemma byte_seg:
  assumes "0 < msgssz mi" "i \<in> {msgssz mi * sp..<msgssz mi * sp + n}"
  shows "i div msgssz mi + 1 \<in> {sp + 1..<sp + 1 + btoq mi n}"
proof -
  have "0 < n" using assms(2) by (cases n) auto
  note b = btoq_bounds [OF assms(1) this]
  have "i < msgssz mi * (sp + btoq mi n)" using assms(2) b(2) by (simp add: distrib_left)
  then have "i div msgssz mi < sp + btoq mi n" using assms(1) by (simp add: less_mult_imp_div_less mult.commute)
  moreover have "sp \<le> i div msgssz mi" using assms by (simp add: less_eq_div_iff_mult_less_eq mult.commute)
  ultimately show ?thesis by simp
qed

lemma msg_bytes_length [simp]: "length (msg_bytes mi mem mp n) = n"
  by (simp add: msg_bytes_def)

lemma msg_bytes_write_other:
  assumes "0 < msgssz mi" "hsegs mi mp \<inter> {sp + 1..<sp + 1 + btoq mi (length xs)} = {}" "0 \<le> msg_ts mp"
  shows "msg_bytes mi (mem_write (msgssz mi * sp) xs mem) mp (nat (msg_ts mp)) = msg_bytes mi mem mp (nat (msg_ts mp))"
  unfolding msg_bytes_def
proof (rule map_cong [OF refl])
  fix i assume "i \<in> set [msgssz mi * nat (msg_spot mp)..<msgssz mi * nat (msg_spot mp) + nat (msg_ts mp)]"
  then have i: "i \<in> {msgssz mi * nat (msg_spot mp)..<msgssz mi * nat (msg_spot mp) + nat (msg_ts mp)}" by simp
  then have "msg_ts mp \<noteq> 0" by auto
  with byte_seg [OF assms(1) i] have "i div msgssz mi + 1 \<in> hsegs mi mp" by (simp add: hsegs_def)
  with assms(2) byte_seg [OF assms(1), of i sp "length xs"] have
    "i \<notin> {msgssz mi * sp..<msgssz mi * sp + length xs}" by blast
  then show "mem_write (msgssz mi * sp) xs mem i = mem i" by (auto simp: mem_write_def)
qed

lemma msg_bytes_written:
  assumes "msg_spot mp = int sp" "n = length xs"
  shows "msg_bytes mi (mem_write (msgssz mi * sp) xs mem) mp n = xs"
  by (rule nth_equalityI) (use assms in \<open>simp_all add: msg_bytes_def mem_write_def\<close>)

section \<open>Removing and adding a message\<close>

lemma take_drop_remove:
  assumes "distinct xs" "k < length xs"
  shows "distinct (take k xs @ drop (Suc k) xs)" "set (take k xs @ drop (Suc k) xs) = set xs - {xs ! k}"
proof -
  have xs: "xs = take k xs @ xs ! k # drop (Suc k) xs" using assms(2) by (rule id_take_nth_drop)
  then have "distinct (take k xs @ xs ! k # drop (Suc k) xs)" using assms(1) by argo
  then show "distinct (take k xs @ drop (Suc k) xs)"
    and "set (take k xs @ drop (Suc k) xs) = set xs - {xs ! k}"
    using arg_cong [OF xs, of set] by (auto simp del: append_take_drop_id)
qed

lemma msg_heapI:
  assumes "distinct F" "\<And>q. distinct (C q)" "\<And>q. set (C q) \<inter> set F = {}"
    and "\<And>q q'. q \<noteq> q' \<Longrightarrow> set (C q) \<inter> set (C q') = {}"
    and "\<And>q h. h \<in> set (C q) \<Longrightarrow> hdr_ok mi (H h) \<and> hsegs mi (H h) \<inter> U = {}"
    and "\<And>q q' h h'. \<lbrakk>h \<in> set (C q); h' \<in> set (C q'); h \<noteq> h'\<rbrakk> \<Longrightarrow> hsegs mi (H h) \<inter> hsegs mi (H h') = {}"
  shows "msg_heap mi C H F U"
  unfolding msg_heap_def using assms by simp

lemma msg_heapD:
  assumes "msg_heap mi C H F U"
  shows "distinct F" "distinct (C q)" "set (C q) \<inter> set F = {}"
    and "q \<noteq> q' \<Longrightarrow> set (C q) \<inter> set (C q') = {}"
    and "h \<in> set (C q) \<Longrightarrow> hdr_ok mi (H h)" "h \<in> set (C q) \<Longrightarrow> hsegs mi (H h) \<inter> U = {}"
    and "\<lbrakk>h \<in> set (C q); h' \<in> set (C q'); h \<noteq> h'\<rbrakk> \<Longrightarrow> hsegs mi (H h) \<inter> hsegs mi (H h') = {}"
  using assms unfolding msg_heap_def by blast+

lemma msg_heap_remove:
  assumes "msg_heap mi C H F U" "k < length (C q)" "U' \<subseteq> U \<union> hsegs mi (H (C q ! k))"
  shows "msg_heap mi (C(q := take k (C q) @ drop (Suc k) (C q))) H (C q ! k # F) U'"
proof -
  let ?h = "C q ! k" and ?C = "C(q := take k (C q) @ drop (Suc k) (C q))"
  have h: "?h \<in> set (C q)" using assms(2) by simp
  have dq: "distinct (C q)" using assms(1) by (simp add: msg_heap_def)
  note td = take_drop_remove [OF dq assms(2)]
  have sub: "set (?C q') \<subseteq> set (C q')" for q' using td(2) by auto
  have nh: "?h \<notin> set (?C q')" for q'   proof (cases "q' = q")
    case True
    then show ?thesis using td(2) by simp
  next
    case False
    then have "set (C q) \<inter> set (C q') = {}" using assms(1) unfolding msg_heap_def by (metis)
    with h False show ?thesis by auto
  qed
  note D = msg_heapD [OF assms(1)]
  show ?thesis
  proof (rule msg_heapI)
    show "distinct (?h # F)" using D(1) D(3) [of q] h by auto
    show "distinct (?C q')" for q' using D(2) td(1) by auto
    show "set (?C q') \<inter> set (?h # F) = {}" for q'
      using D(3) [of q'] sub [of q'] nh [of q'] unfolding list.set(2) by blast
    show "set (?C q') \<inter> set (?C q'') = {}" if "q' \<noteq> q''" for q' q''
      using D(4) [OF that] sub [of q'] sub [of q''] by blast
    show "hdr_ok mi (H h') \<and> hsegs mi (H h') \<inter> U' = {}" if "h' \<in> set (?C q')" for q' h'
    proof -
      have h': "h' \<in> set (C q')" "h' \<noteq> ?h" using that sub [of q'] nh [of q'] by blast+
      show ?thesis using D(5,6) [OF h'(1)] D(7) [OF h'(1) h h'(2)] assms(3) by blast
    qed
    show "hsegs mi (H h1) \<inter> hsegs mi (H h2) = {}" if "h1 \<in> set (?C q1)" "h2 \<in> set (?C q2)" "h1 \<noteq> h2" for q1 q2 h1 h2
      using D(7) [of h1 q1 h2 q2] that sub [of q1] sub [of q2] by blast
  qed
qed

lemma msg_heap_add:
  assumes "msg_heap mi C H (h # F) U" "hdr_ok mi mp" "hsegs mi mp \<subseteq> U" "U' \<subseteq> U - hsegs mi mp"
  shows "msg_heap mi (C(q := C q @ [h])) (H(h := mp)) F U'"
proof -
  let ?C = "C(q := C q @ [h])" and ?H = "H(h := mp)"
  note D = msg_heapD [OF assms(1)]
  have nh: "h \<notin> set (C q')" for q' using D(3) [of q'] by auto
  have mem: "h' \<in> set (?C q') \<longleftrightarrow> h' \<in> set (C q') \<or> h' = h \<and> q' = q" for h' q' by auto
  have new: "hsegs mi mp \<inter> hsegs mi (H h') = {}" if "h' \<in> set (C q')" for h' q'
    using D(6) [OF that] assms(3) by blast
  show ?thesis
  proof (rule msg_heapI)
    show "distinct F" using D(1) by simp
    show "distinct (?C q')" for q' using D(2) nh by auto
    show "set (?C q') \<inter> set F = {}" for q' using D(1) D(3) [of q'] by auto
    show "set (?C q') \<inter> set (?C q'') = {}" if "q' \<noteq> q''" for q' q''
      using D(4) [OF that] nh that by auto
    show "hdr_ok mi (?H h') \<and> hsegs mi (?H h') \<inter> U' = {}" if "h' \<in> set (?C q')" for q' h'
    proof (cases "h' = h")
      case True
      then show ?thesis using assms(2,4) by auto
    next
      case False
      with that have "h' \<in> set (C q')" unfolding mem by blast
      from D(5,6) [OF this] show ?thesis using False assms(4) by auto
    qed
    show "hsegs mi (?H h1) \<inter> hsegs mi (?H h2) = {}"
      if h12: "h1 \<in> set (?C q1)" "h2 \<in> set (?C q2)" "h1 \<noteq> h2" for q1 q2 h1 h2
    proof -
      consider "h1 = h" "h2 \<in> set (C q2)" "h2 \<noteq> h" | "h2 = h" "h1 \<in> set (C q1)" "h1 \<noteq> h"
        | "h1 \<in> set (C q1)" "h2 \<in> set (C q2)" "h1 \<noteq> h" "h2 \<noteq> h"
        using h12 unfolding mem by blast
      then show ?thesis
      proof cases
        case 1
        then show ?thesis using new [OF 1(2)] by simp
      next
        case 2
        then show ?thesis using new [OF 2(2)] by (simp add: Int_commute)
      next
        case 3
        then show ?thesis using D(7) [OF 3(1,2) h12(3)] by simp
      qed
    qed
  qed
qed

lemma sum_ts_nonneg:
  assumes "\<forall>h \<in> set hs. 0 \<le> msg_ts (H h)"
  shows "0 \<le> sum_list (map (\<lambda>h. msg_ts (H h)) hs)"
  using assms by (induction hs) auto

section \<open>Freeing\<close>

text \<open>Freeing message text adds the message's segments to the free ones, or loses them.\<close>

lemma hsegs_units:
  assumes "msg_cfg mi" "hdr_ok mi mp" "msg_ts mp \<noteq> 0"
  defines "a \<equiv> of_int (msg_spot mp + 1) :: u32" and "sz \<equiv> of_nat (btoq mi (nat (msg_ts mp))) :: u32"
  shows "{unat a..<unat a + unat sz} = hsegs mi mp" "a \<noteq> 0" "sz \<noteq> 0" "unat a + unat sz < 2 ^ 32"
proof -
  have ts: "0 < nat (msg_ts mp)" "nat (msg_ts mp) \<le> msgmax mi" and spot: "0 \<le> msg_spot mp"
    and sub: "hsegs mi mp \<subseteq> {1..msgseg mi}"
    using assms(2,3) by (auto simp: hdr_ok_def)
  have u: "unat sz = btoq mi (nat (msg_ts mp))" using unat_btoq [OF assms(1) ts] by (simp add: sz_def)
  have b: "0 < btoq mi (nat (msg_ts mp))" "btoq mi (nat (msg_ts mp)) < 2 ^ 15"
    using btoq_bounds [of mi "nat (msg_ts mp)"] assms(1) ts by (auto simp: msg_cfg_def)
  have "nat (msg_spot mp) + 1 \<in> hsegs mi mp" using assms(3) b by (simp add: hsegs_def)
  then have s: "nat (msg_spot mp) + 1 < 2 ^ 15" using sub assms(1) by (fastforce simp: msg_cfg_def)
  have "of_int (msg_spot mp + 1) = (of_nat (nat (msg_spot mp) + 1) :: u32)"
    using spot by (cases "msg_spot mp" rule: nonneg_int_cases) simp_all
  moreover have "unat (of_nat (nat (msg_spot mp) + 1) :: u32) = nat (msg_spot mp) + 1"
    using s by (simp only: unat_of_nat) (simp add: take_bit_nat_eq_self)
  ultimately have ua: "unat a = nat (msg_spot mp) + 1" unfolding a_def by (simp only:)
  show "{unat a..<unat a + unat sz} = hsegs mi mp" using assms(3) by (simp add: ua u hsegs_def)
  show "a \<noteq> 0" "sz \<noteq> 0" using ua u b(1) by (auto simp flip: unat_pos_iff)
  show "unat a + unat sz < 2 ^ 32" using ua u s b by simp
qed

definition mfree_units :: "rmap \<Rightarrow> nat set \<Rightarrow> rmap \<Rightarrow> bool" where
  "mfree_units m A m' \<longleftrightarrow> map_wf m' \<and> (free_units m' = free_units m \<union> A \<or> m' = m)"

lemma mfree_units_intro:
  assumes "map_wf m" "sz \<noteq> 0" "a \<noteq> 0" "unat a + unat sz < 2 ^ 32"
    "{unat a..<unat a + unat sz} \<inter> free_units m = {}" "mfree m sz a = (r, m')"
  shows "mfree_units m {unat a..<unat a + unat sz} m'"
proof (cases r)
  case (Freed w)
  from rmap_alloc.release_ok [OF assms(1) assms(6) [unfolded Freed] assms(2-5)]
  show ?thesis by (simp add: mfree_units_def)
next
  case Lost
  from rmap_alloc.release_lost [OF assms(6) [unfolded Lost]] assms(1) show ?thesis by (simp add: mfree_units_def)
qed

lemma msgfree_fields:
  fixes k :: nat and mi :: msginfo
  assumes "q < length (msgque s)"
  defines "h \<equiv> msg_chain (msgque s ! q) ! k" and "s' \<equiv> msgfree mi q k s"
  shows "length (msgque s') = length (msgque s)" "msgh s' = msgh s" "msgtext s' = msgtext s"
    "msgfp s' = h # msgfp s"
    "msgmap s' = (if msg_ts (msgh s h) = 0 then msgmap s
       else snd (mfree (msgmap s) (of_nat (btoq mi (nat (msg_ts (msgh s h))))) (of_int (msg_spot (msgh s h) + 1))))"
    "q' < length (msgque s) \<Longrightarrow> msg_chain (msgque s' ! q') = (if q' = q
       then take k (msg_chain (msgque s ! q)) @ drop (Suc k) (msg_chain (msgque s ! q)) else msg_chain (msgque s ! q'))"
    "q' < length (msgque s) \<Longrightarrow> msg_qnum (msgque s' ! q') = (if q' = q then msg_qnum (msgque s ! q) - 1 else msg_qnum (msgque s ! q'))"
    "q' < length (msgque s) \<Longrightarrow> msg_cbytes (msgque s' ! q') = msg_cbytes (msgque s ! q')"
    "q' < length (msgque s) \<Longrightarrow> ipc_seq (msg_perm (msgque s' ! q')) = ipc_seq (msg_perm (msgque s ! q'))"
    "\<exists>w. msgwoken s' = msgwoken s @ w \<and> (has_mode s q MSG_WWAIT \<longrightarrow> QueueChan q \<in> set w)
       \<and> (msgfp s = [] \<longrightarrow> MsgfpChan \<in> set w)"
  using assms(1)
  by (simp_all add: s'_def h_def msgfree_def Let_def msgfree_text_def upd_queue_nth has_mode_def
        split: prod.split)

lemma msgfree_pool:
  assumes "msg_pool mi s" "q < length (msgque s)" "k < length (msg_chain (msgque s ! q))"
  defines "h \<equiv> msg_chain (msgque s ! q) ! k" and "s' \<equiv> msgfree mi q k s"
  shows "msg_pool mi s'" "qchain s' = (qchain s)(q := take k (qchain s q) @ drop (Suc k) (qchain s q))"
    "free_units (msgmap s') = free_units (msgmap s) \<union> hsegs mi (msgh s h)
      \<or> free_units (msgmap s') = free_units (msgmap s)"
proof -
  note F = msgfree_fields [OF assms(2), where k = k and mi = mi, folded h_def s'_def]
  have C: "qchain s q ! k = h" "k < length (qchain s q)" using assms(2,3) by (simp_all add: qchain_def h_def)
  show ch: "qchain s' = (qchain s)(q := take k (qchain s q) @ drop (Suc k) (qchain s q))"
    using assms(2) by (auto simp: qchain_def fun_eq_iff F(1,6))
  have P: "msg_cfg mi" "map_wf (msgmap s)" "free_units (msgmap s) \<subseteq> {1..msgseg mi}"
    "msg_heap mi (qchain s) (msgh s) (msgfp s) (free_units (msgmap s))"
    using assms(1) by (simp_all add: msg_pool_def)
  have hq: "h \<in> set (qchain s q)" using C nth_mem by blast
  note D = msg_heapD(5,6) [OF P(4) hq]
  have mf: "mfree_units (msgmap s) (hsegs mi (msgh s h)) (msgmap s')"
  proof (cases "msg_ts (msgh s h) = 0")
    case True
    then show ?thesis using P(2) F(5) by (simp add: mfree_units_def hsegs_def)
  next
    case False
    note U = hsegs_units [OF P(1) D(1) False]
    from mfree_units_intro [OF P(2) U(3,2,4) _ surjective_pairing, unfolded U(1), OF D(2)] False
    show ?thesis by (simp add: F(5))
  qed
  then show un: "free_units (msgmap s') = free_units (msgmap s) \<union> hsegs mi (msgh s h)
      \<or> free_units (msgmap s') = free_units (msgmap s)" by (auto simp: mfree_units_def)
  then have sub: "free_units (msgmap s') \<subseteq> free_units (msgmap s) \<union> hsegs mi (msgh s (qchain s q ! k))"
    using C by auto
  have "free_units (msgmap s') \<subseteq> {1..msgseg mi}" using un P(3) D(1) by (auto simp: hdr_ok_def)
  moreover have "msg_qnum (msgque s' ! q') = of_nat (length (msg_chain (msgque s' ! q')))" if "q' < length (msgque s)" for q'
  proof (cases "q' = q")
    case True
    have "of_nat (length (msg_chain (msgque s ! q))) - 1 = (of_nat (length (msg_chain (msgque s ! q)) - 1) :: u16)"
      using assms(3) by (cases "msg_chain (msgque s ! q)") auto
    moreover have "k + (length (msg_chain (msgque s ! q)) - Suc k) = length (msg_chain (msgque s ! q)) - 1"
      using assms(3) by simp
    ultimately show ?thesis using True that assms(1,3) by (simp add: F msg_pool_def min_absorb2)
  qed (use that assms(1) in \<open>simp add: F msg_pool_def\<close>)
  ultimately show "msg_pool mi s'"
    using assms(1) mf msg_heap_remove [OF P(4) C(2) sub] unfolding ch C(1)
    by (simp add: msg_pool_def mfree_units_def F ch)
qed

lemma sum_list_remove:
  assumes "k < length (xs :: int list)"
  shows "sum_list (take k xs @ drop (Suc k) xs) = sum_list xs - xs ! k"
proof -
  have "sum_list xs = sum_list (take k xs @ xs ! k # drop (Suc k) xs)"
    using assms by (simp only: id_take_nth_drop [symmetric])
  then show ?thesis by simp
qed

section \<open>Receiving\<close>

lemma msg_pool_upd:
  assumes "msg_pool mi s" "\<And>qp. msg_chain (f qp) = msg_chain qp \<and> msg_qnum (f qp) = msg_qnum qp"
  shows "msg_pool mi (upd_queue q f s)" "qchain (upd_queue q f s) = qchain s"
proof -
  show *: "qchain (upd_queue q f s) = qchain s"
    using assms(2) by (auto simp: qchain_def upd_queue_nth fun_eq_iff)
  show "msg_pool mi (upd_queue q f s)"
    using assms by (auto simp: msg_pool_def * upd_queue_nth)
qed

lemma uint_minus_word:
  assumes "uint (c :: u16) = S" "0 \<le> t" "t \<le> S"
  shows "uint (c - word_of_int t) = S - t"
proof -
  have "S < 65536" using assms(1) uint_lt2p [of c] by simp
  moreover have "c - word_of_int t = word_of_int (S - t)" using assms(1) by (metis word_of_int_uint wi_hom_sub)
  ultimately show ?thesis using assms(2,3) by (simp only: uint_word_of_int) simp
qed

lemma uint_plus_word:
  assumes "unat (c :: u16) + n < 65536"
  shows "uint (c + of_nat n) = uint c + int n"
proof -
  have "c + of_nat n = word_of_int (uint c + int n)" by simp
  moreover have "uint c + int n < 65536" using assms uint_nat [of c] by linarith
  ultimately show ?thesis by (simp only: uint_word_of_int) simp
qed

text \<open>The message chosen: position \<open>k\<close> of the queue meets the request of type \<open>typ\<close>.\<close>

definition msg_match :: "int \<Rightarrow> int \<Rightarrow> bool" where
  "msg_match typ t \<longleftrightarrow> typ = 0 \<or> 0 < typ \<and> t = typ \<or> typ < 0 \<and> t \<le> to_long (- typ)"

definition msg_choice :: "int \<Rightarrow> int list \<Rightarrow> nat \<Rightarrow> bool" where
  "msg_choice typ ts k \<longleftrightarrow> k < length ts \<and> msg_match typ (ts ! k)
     \<and> (\<forall>j < length ts. msg_match typ (ts ! j) \<longrightarrow>
          (if typ < 0 then ts ! k < ts ! j \<or> ts ! k = ts ! j \<and> k \<le> j else k \<le> j))"

definition msg_best :: "(nat \<Rightarrow> msghdr) \<Rightarrow> int \<Rightarrow> nat list \<Rightarrow> (nat \<times> nat) option \<Rightarrow> bool" where
  "msg_best H typ hs b \<longleftrightarrow> (case b of
     None \<Rightarrow> (\<forall>h \<in> set hs. \<not> msg_match typ (msg_type (H h)))
   | Some (k, h) \<Rightarrow> k < length hs \<and> h = hs ! k \<and> msg_choice typ (map (\<lambda>h. msg_type (H h)) hs) k)"

lemma msg_choice_snoc:
  assumes "msg_choice typ ts k"
  shows "msg_choice typ (ts @ [t]) k \<longleftrightarrow> \<not> (msg_match typ t \<and> typ < 0 \<and> t < ts ! k)"
  using assms by (auto simp: msg_choice_def nth_append less_Suc_eq)

lemma msg_scan_best:
  assumes "typ \<noteq> 0" "msg_best H typ pre best" "0 < typ \<longrightarrow> best = None"
  shows "msg_best H typ (pre @ hs) (msg_scan H typ (length pre) best hs)"
  using assms(2,3)
proof (induction hs arbitrary: pre best)
  case (Cons h r)
  let ?m = "msg_match typ (msg_type (H h))"
  have step: "msg_best H typ (pre @ [h]) b \<Longrightarrow> 0 < typ \<longrightarrow> b = None \<Longrightarrow>
      msg_best H typ (pre @ h # r) (msg_scan H typ (Suc (length pre)) b r)" for b
    using Cons.IH [of "pre @ [h]" b] by simp
  have skip: "msg_best H typ (pre @ [h]) best" if "\<not> ?m"
    using Cons.prems(1) that
    by (auto simp: msg_best_def nth_append msg_choice_snoc split: option.splits)
  show ?case
  proof (cases "0 < typ")
    case True
    show ?thesis
    proof (cases "typ = msg_type (H h)")
      case False
      with True assms(1) have "\<not> ?m" by (auto simp: msg_match_def)
      with True False step [OF skip] Cons.prems(2) show ?thesis by simp
    next
      case here: True
      have "\<not> msg_match typ (msg_type (H h'))" if "h' \<in> set pre" for h'
        using Cons.prems True that by (auto simp: msg_best_def)
      then have "msg_choice typ (map (\<lambda>h. msg_type (H h)) (pre @ h # r)) (length pre)"
        using True here by (auto simp: msg_choice_def msg_match_def nth_append)
      with True here show ?thesis by (simp add: msg_best_def)
    qed
  next
    case False
    then have neg: "typ < 0" using assms(1) by simp
    have m: "?m \<longleftrightarrow> msg_type (H h) \<le> to_long (- typ)" using neg by (auto simp: msg_match_def)
    show ?thesis
    proof (cases ?m)
      case no: False
      with m False step [OF skip] show ?thesis by simp
    next
      case yes: True
      show ?thesis
      proof (cases best)
        case None
        have "msg_best H typ (pre @ [h]) (Some (length pre, h))"
          using Cons.prems(1) None yes
          by (auto simp: msg_best_def msg_choice_def nth_append less_Suc_eq)
        from step [OF this] None yes m False show ?thesis by simp
      next
        case (Some kb)
        obtain k b where kb: "kb = (k, b)" by (cases kb)
        with Some Cons.prems(1) have b: "k < length pre" "b = pre ! k"
          "msg_choice typ (map (\<lambda>h. msg_type (H h)) pre) k" by (auto simp: msg_best_def)
        show ?thesis
        proof (cases "msg_type (H b) \<le> msg_type (H h)")
          case True
          then have "msg_best H typ (pre @ [h]) best"
            using b by (simp add: Some kb msg_best_def nth_append msg_choice_snoc)
          from step [OF this] True Some kb yes m False show ?thesis by simp
        next
          case less: False
          then have "msg_best H typ (pre @ [h]) (Some (length pre, h))"
            using b yes neg by (fastforce simp: msg_best_def msg_choice_def nth_append less_Suc_eq)
          from step [OF this] less Some kb yes m False show ?thesis by simp
        qed
      qed
    qed
  qed
qed simp

lemma msg_find_best: "msg_best H typ hs (msg_find H typ hs)"
proof (cases "typ = 0")
  case True
  then show ?thesis
    by (cases hs) (auto simp: msg_find_def msg_best_def msg_choice_def msg_match_def)
next
  case False
  have "msg_best H typ hs (msg_scan H typ 0 None hs)"
    using msg_scan_best [of "typ" H "[]" None hs] False by (simp add: msg_best_def)
  with False show ?thesis by (simp add: msg_find_def)
qed

lemma msg_bytes_take:
  assumes "n \<le> m"
  shows "msg_bytes mi mem mp n = take n (msg_bytes mi mem mp m)"
  using assms by (simp add: msg_bytes_def take_map take_upt)

lemma msgrcv_find_done:
  assumes "msg_wf mi s" "q < length (msgque s)" "0 \<le> msgsz"
    and "msgrcv_find mi c msgsz typ flg room q s = (Done sz, got, s')"
  obtains k where "msg_choice typ (map fst (msg_contents mi s q)) k"
    "sz = min msgsz (int (length (snd (msg_contents mi s q ! k))))"
    "got = Some (fst (msg_contents mi s q ! k), take (nat sz) (snd (msg_contents mi s q ! k)))"
    "int (length (snd (msg_contents mi s q ! k))) \<le> msgsz \<or> flg AND MSG_NOERROR \<noteq> 0"
    "msg_wf mi s'" "msg_contents mi s' = (msg_contents mi s)(q := take k (msg_contents mi s q) @ drop (Suc k) (msg_contents mi s q))"
    "has_mode s q MSG_WWAIT \<longrightarrow> QueueChan q \<in> set (drop (length (msgwoken s)) (msgwoken s'))"
    "free_units (msgmap s) \<subseteq> free_units (msgmap s')"
proof -
  let ?hs = "msg_chain (msgque s ! q)"
  have qc: "qchain s q = ?hs" using assms(2) by (simp add: qchain_def)
  from assms(4) obtain k h where kh: "msg_find (msgh s) typ ?hs = Some (k, h)"
    by (auto simp: msgrcv_find_eq split: option.splits if_splits)
  from msg_find_best [of "msgh s" "typ" "?hs"] kh have k: "k < length ?hs" "h = ?hs ! k"
    "msg_choice typ (map (\<lambda>h. msg_type (msgh s h)) ?hs) k" by (simp_all add: msg_best_def)
  define f where "f = (\<lambda>qp :: msqid_ds. qp\<lparr>msg_cbytes := msg_cbytes qp - word_of_int (msg_ts (msgh s h)),
                      msg_lrpid := ca_pid c, msg_rtime := ca_time c\<rparr>)"
  define s1 where "s1 = upd_queue q f s"
  define mp where "mp = msgh s h"
  from assms(4) kh have r: "sz = min msgsz (msg_ts mp)" "msgsz < msg_ts mp \<longrightarrow> flg AND MSG_NOERROR \<noteq> 0"
    "got = Some (msg_type mp, msg_bytes mi (msgtext s) mp (nat sz))" "s' = msgfree mi q k s1"
    by (auto simp: msgrcv_find_eq Let_def s1_def f_def mp_def split: option.splits if_splits)
  have wf: "msg_pool mi s" "\<And>q. q < length (msgque s) \<Longrightarrow> bytes_ok (msgh s) (msgque s ! q)"
    using assms(1) by (simp_all add: msg_wf_def)
  have hd: "hdr_ok mi (msgh s h')" if "h' \<in> set ?hs" for h'
    using wf(1) that qc by (auto simp: msg_pool_def dest!: msg_heapD(5) [where q = q])
  have ts: "0 \<le> msg_ts mp" using hd [of h] k nth_mem by (auto simp: mp_def hdr_ok_def)
  have c1: "qchain s1 = qchain s" "msg_pool mi s1"
    using msg_pool_upd [OF wf(1), of f q] by (simp_all add: s1_def f_def)
  have q1: "q < length (msgque s1)" "msg_chain (msgque s1 ! q) = ?hs" "msgh s1 = msgh s" "msgtext s1 = msgtext s"
    "length (msgque s1) = length (msgque s)" "msgmap s1 = msgmap s" "msgwoken s1 = msgwoken s"
    using assms(2) by (simp_all add: s1_def f_def upd_queue_nth)
  note FR = msgfree_fields [OF q1(1), where k = k and mi = mi, folded r(4)] and
    PO = msgfree_pool [OF c1(2) q1(1), where k = k, unfolded q1(2), OF k(1), folded r(4)]
  have bytes: "bytes_ok (msgh s') (msgque s' ! q')" if q': "q' < length (msgque s)" for q'
  proof (cases "q' = q")
    case False
    then show ?thesis using wf(2) [OF q'] q' FR q1(3,5)
      by (simp add: bytes_ok_def s1_def upd_queue_nth)
  next
    case True
    let ?ts = "map (\<lambda>h. msg_ts (msgh s h)) ?hs"
    have kt: "k < length ?ts" using k(1) by simp
    have nn: "0 \<le> sum_list (take k ?ts @ drop (Suc k) ?ts)"
      using hd by (intro sum_list_nonneg) (auto simp: hdr_ok_def dest!: in_set_takeD in_set_dropD)
    have le: "msg_ts mp \<le> sum_list ?ts"
      using sum_list_remove [OF kt] nn k by (simp add: mp_def)
    have "uint (msg_cbytes (msgque s' ! q)) = sum_list ?ts - msg_ts mp"
      using uint_minus_word [OF wf(2) [OF assms(2), unfolded bytes_ok_def] ts le] FR(8) [of q] q1
      by (simp add: s1_def f_def mp_def upd_queue_nth assms(2))
    also have "\<dots> = sum_list (take k ?ts @ drop (Suc k) ?ts)"
      using sum_list_remove [OF kt] k by (simp add: mp_def)
    finally show ?thesis
      using True FR(2,6) q1 by (simp add: bytes_ok_def take_map drop_map)
  qed
  have wf': "msg_wf mi s'" using PO(1) bytes FR(1) q1(5) by (simp add: msg_wf_def)
  have mo: "msg_of mi s' = msg_of mi s" by (intro ext) (simp only: msg_of_def FR(2,3) q1)
  have len: "length ?hs = length (msg_contents mi s q)" by (simp add: msg_contents_def qc)
  have nth: "msg_contents mi s q ! k = (msg_type mp, msg_bytes mi (msgtext s) mp (nat (msg_ts mp)))"
    using k by (simp add: msg_contents_def qc msg_of_def mp_def)
  show ?thesis
  proof (rule that [of k])
    show "msg_choice typ (map fst (msg_contents mi s q)) k"
      using k(3) by (simp add: msg_contents_def qc msg_of_def comp_def)
    show "sz = min msgsz (int (length (snd (msg_contents mi s q ! k))))" using r(1) ts nth by simp
    show "got = Some (fst (msg_contents mi s q ! k), take (nat sz) (snd (msg_contents mi s q ! k)))"
      using r(1,3) nth ts msg_bytes_take [of "nat sz" "nat (msg_ts mp)"] by (simp add: nat_mono)
    show "int (length (snd (msg_contents mi s q ! k))) \<le> msgsz \<or> flg AND MSG_NOERROR \<noteq> 0"
      using r(2) nth ts by auto
    show "msg_contents mi s' = (msg_contents mi s)(q := take k (msg_contents mi s q) @ drop (Suc k) (msg_contents mi s q))"
      using PO(2) c1(1) by (auto simp: msg_contents_def mo take_map drop_map fun_eq_iff)
    show "has_mode s q MSG_WWAIT \<longrightarrow> QueueChan q \<in> set (drop (length (msgwoken s)) (msgwoken s'))"
      using FR(10) q1 assms(2) by (auto simp: has_mode_def s1_def f_def upd_queue_nth)
    show "free_units (msgmap s) \<subseteq> free_units (msgmap s')" using PO(3) q1 by auto
  qed (rule wf')
qed

section \<open>Sending\<close>

lemma msg_link_fields:
  fixes c :: caller and ty spot :: int and cnt :: nat
  assumes "q < length (msgque s)"
  defines "h \<equiv> hd (msgfp s)" and "s' \<equiv> msg_link c q ty cnt spot s"
  shows "length (msgque s') = length (msgque s)" "msgtext s' = msgtext s" "msgmap s' = msgmap s"
    "msgfp s' = tl (msgfp s)"
    "msgh s' = (msgh s)(h := \<lparr>msg_type = ty, msg_ts = to_short (int cnt),
                  msg_spot = to_short (if cnt \<noteq> 0 then spot else -1)\<rparr>)"
    "q' < length (msgque s) \<Longrightarrow> msg_chain (msgque s' ! q') =
       (if q' = q then msg_chain (msgque s ! q) @ [h] else msg_chain (msgque s ! q'))"
    "q' < length (msgque s) \<Longrightarrow> msg_qnum (msgque s' ! q') =
       (if q' = q then msg_qnum (msgque s ! q) + 1 else msg_qnum (msgque s ! q'))"
    "q' < length (msgque s) \<Longrightarrow> msg_cbytes (msgque s' ! q') =
       (if q' = q then msg_cbytes (msgque s ! q) + of_nat cnt else msg_cbytes (msgque s ! q'))"
    "msgwoken s' = msgwoken s @ (if has_mode s q MSG_RWAIT then [QnumChan q] else [])"
  using assms(1) by (simp_all add: s'_def h_def msg_link_def Let_def upd_queue_nth has_mode_def)

lemma msg_link_wf:
  fixes mi :: msginfo and ty :: int and c :: caller and sp :: nat and t :: "nat \<Rightarrow> u8"
  assumes wf: "msg_wf mi s" and q: "q < length (msgque s)" and fp: "msgfp s \<noteq> []"
    and cnt: "cnt \<le> msgmax mi" "cnt + unat (msg_cbytes (msgque s ! q)) < 65536"
    and segs: "A = (if cnt = 0 then {} else {sp + 1..<sp + 1 + btoq mi cnt})" "A \<subseteq> free_units (msgmap s)"
    and m: "map_wf m" "free_units m = free_units (msgmap s) - A"
  defines "h \<equiv> hd (msgfp s)" and "s' \<equiv> msg_link c q ty cnt (int sp) (s\<lparr>msgmap := m, msgtext := t\<rparr>)"
  shows "msg_wf mi s'" "qchain s' = (qchain s)(q := qchain s q @ [h])" "msgtext s' = t" "msgmap s' = m"
    "msgh s' = (msgh s)(h := \<lparr>msg_type = ty, msg_ts = int cnt, msg_spot = (if cnt \<noteq> 0 then int sp else -1)\<rparr>)"
    "h \<notin> set (qchain s q')"
    "msgwoken s' = msgwoken s @ (if has_mode s q MSG_RWAIT then [QnumChan q] else [])"
proof -
  let ?s = "s\<lparr>msgmap := m, msgtext := t\<rparr>"
  define mp where "mp = \<lparr>msg_type = ty, msg_ts = int cnt, msg_spot = (if cnt \<noteq> 0 then int sp else -1)\<rparr>"
  have P: "msg_cfg mi" "free_units (msgmap s) \<subseteq> {1..msgseg mi}" "length (msgque s) = msgmni mi"
    "msg_heap mi (qchain s) (msgh s) (h # tl (msgfp s)) (free_units (msgmap s))"
    "\<And>q. q < length (msgque s) \<Longrightarrow> msg_qnum (msgque s ! q) = of_nat (length (msg_chain (msgque s ! q)))"
    "\<And>q. q < length (msgque s) \<Longrightarrow> bytes_ok (msgh s) (msgque s ! q)"
    using wf fp by (simp_all add: msg_wf_def msg_pool_def h_def)
  have big: "cnt < 2 ^ 15" using cnt(1) P(1) by (simp add: msg_cfg_def)
  have sp: "sp < 2 ^ 15" if "cnt \<noteq> 0"
  proof -
    have "0 < btoq mi cnt" using btoq_bounds(1) [of mi cnt] that P(1) by (simp add: msg_cfg_def)
    then have "sp + 1 \<in> A" using that by (simp add: segs(1))
    then show ?thesis using segs(2) P(1,2) by (fastforce simp: msg_cfg_def)
  qed
  have F: "length (msgque s') = length (msgque s)" "msgtext s' = t" "msgmap s' = m" "msgfp s' = tl (msgfp s)"
    "msgh s' = (msgh s)(h := mp)"
    "\<And>q'. q' < length (msgque s) \<Longrightarrow> msg_chain (msgque s' ! q') =
       (if q' = q then msg_chain (msgque s ! q) @ [h] else msg_chain (msgque s ! q'))"
    "\<And>q'. q' < length (msgque s) \<Longrightarrow> msg_qnum (msgque s' ! q') =
       (if q' = q then msg_qnum (msgque s ! q) + 1 else msg_qnum (msgque s ! q'))"
    "\<And>q'. q' < length (msgque s) \<Longrightarrow> msg_cbytes (msgque s' ! q') =
       (if q' = q then msg_cbytes (msgque s ! q) + of_nat cnt else msg_cbytes (msgque s ! q'))"
    "msgwoken s' = msgwoken s @ (if has_mode s q MSG_RWAIT then [QnumChan q] else [])"
    using msg_link_fields [where q = q and s = ?s and c = c and ty = ty and cnt = cnt and spot = "int sp"] q big sp unfolding s'_def h_def mp_def
    by (simp_all add: has_mode_def)
  show "msgtext s' = t" "msgmap s' = m" "msgwoken s' = msgwoken s @ (if has_mode s q MSG_RWAIT then [QnumChan q] else [])"
    "msgh s' = (msgh s)(h := \<lparr>msg_type = ty, msg_ts = int cnt, msg_spot = (if cnt \<noteq> 0 then int sp else -1)\<rparr>)"
    using F(2,3,5,9) by (simp_all add: mp_def)
  have hs: "hsegs mi mp = A" by (simp add: hsegs_def mp_def segs(1))
  have ok: "hdr_ok mi mp" using cnt(1) segs(2) P(2) hs by (auto simp: hdr_ok_def mp_def)
  show ch: "qchain s' = (qchain s)(q := qchain s q @ [h])"
    using q F(1,6) by (auto simp: qchain_def fun_eq_iff)
  have heap: "msg_heap mi (qchain s') (msgh s') (msgfp s') (free_units (msgmap s'))"
    unfolding ch F(3-5) by (rule msg_heap_add [OF P(4) ok]) (simp_all add: hs segs(2) m(2))
  show fresh: "h \<notin> set (qchain s q')" for q' using msg_heapD(3) [OF P(4), of q'] by auto
  have "msg_qnum (msgque s' ! q') = of_nat (length (msg_chain (msgque s' ! q')))" if "q' < length (msgque s)" for q'
    using F(6,7) P(5) that q by simp
  moreover have "bytes_ok (msgh s') (msgque s' ! q')" if q': "q' < length (msgque s)" for q'
  proof -
    have tsh: "msg_ts (msgh s' h) = int cnt" by (simp add: F(5) mp_def)
    have other: "map (\<lambda>h. msg_ts (msgh s' h)) (msg_chain (msgque s ! q')) = map (\<lambda>h. msg_ts (msgh s h)) (msg_chain (msgque s ! q'))"
      using fresh [of q'] q' by (auto simp: F(5) qchain_def)
    show ?thesis
    proof (cases "q' = q")
      case True
      have "uint (msg_cbytes (msgque s ! q) + of_nat cnt) = uint (msg_cbytes (msgque s ! q)) + int cnt"
        by (rule uint_plus_word) (use cnt(2) in simp)
      moreover have "(\<Sum>h\<leftarrow>msg_chain (msgque s ! q'). msg_ts (msgh s' h)) = (\<Sum>h\<leftarrow>msg_chain (msgque s ! q'). msg_ts (msgh s h))"
        by (simp only: other)
      ultimately show ?thesis using True P(6) [OF q] q
        by (simp add: bytes_ok_def F(6,8) tsh)
    next
      case False
      have "(\<Sum>h\<leftarrow>msg_chain (msgque s ! q'). msg_ts (msgh s' h)) = (\<Sum>h\<leftarrow>msg_chain (msgque s ! q'). msg_ts (msgh s h))"
        by (simp only: other)
      then show ?thesis using False P(6) [OF q'] q' by (simp add: bytes_ok_def F(6,8))
    qed
  qed
  moreover have "free_units (msgmap s') \<subseteq> {1..msgseg mi}" using P(2) m(2) F(3) by auto
  ultimately show "msg_wf mi s'" using P(1,3) m(1) heap F(1,3) by (simp add: msg_wf_def msg_pool_def)
qed

lemma btoq_mono: "m \<le> n \<Longrightarrow> btoq mi m \<le> btoq mi n"
  by (simp add: btoq_def div_le_mono)

lemma free_segs_text:
  assumes "msg_wf mi s" "{sp + 1..<sp + 1 + btoq mi cnt} \<subseteq> free_units (msgmap s)" "length xs \<le> cnt"
    "h \<in> set (qchain s q)"
  shows "msg_bytes mi (mem_write (msgssz mi * sp) xs (msgtext s)) (msgh s h) (nat (msg_ts (msgh s h)))
    = msg_bytes mi (msgtext s) (msgh s h) (nat (msg_ts (msgh s h)))"
proof (rule msg_bytes_write_other)
  have P: "msg_cfg mi" "msg_heap mi (qchain s) (msgh s) (msgfp s) (free_units (msgmap s))"
    using assms(1) by (simp_all add: msg_wf_def msg_pool_def)
  show "0 < msgssz mi" using P(1) by (simp add: msg_cfg_def)
  show "0 \<le> msg_ts (msgh s h)" using msg_heapD(5) [OF P(2) assms(4)] by (simp add: hdr_ok_def)
  show "hsegs mi (msgh s h) \<inter> {sp + 1..<sp + 1 + btoq mi (length xs)} = {}"
    using msg_heapD(6) [OF P(2) assms(4)] assms(2) btoq_mono [OF assms(3), of mi] by fastforce
qed

definition msg_out_ok :: "msginfo \<Rightarrow> nat \<Rightarrow> int \<Rightarrow> u8 list \<Rightarrow> msgsys \<Rightarrow> msgchan outcome \<times> msgsys \<Rightarrow> bool" where
  "msg_out_ok mi q ty xs s r \<longleftrightarrow> msg_wf mi (snd r) \<and> length (msgque (snd r)) = length (msgque s) \<and>
     (case fst r of
        Done v \<Rightarrow> v = 0 \<and> msg_contents mi (snd r) = (msg_contents mi s)(q := msg_contents mi s q @ [(ty, xs)])
          \<and> (has_mode s q MSG_RWAIT \<longrightarrow> QnumChan q \<in> set (drop (length (msgwoken s)) (msgwoken (snd r))))
      | _ \<Rightarrow> msg_contents mi (snd r) = msg_contents mi s)"

lemma msg_link_out:
  assumes wf: "msg_wf mi s" and q: "q < length (msgque s)" and fp: "msgfp s \<noteq> []"
    and cnt: "cnt = length xs" "cnt \<le> msgmax mi" "cnt + unat (msg_cbytes (msgque s ! q)) < 65536"
    and segs: "A = (if cnt = 0 then {} else {sp + 1..<sp + 1 + btoq mi cnt})" "A \<subseteq> free_units (msgmap s)"
    and m: "map_wf m" "free_units m = free_units (msgmap s) - A"
    and t: "t = (if cnt = 0 then msgtext s else mem_write (msgssz mi * sp) xs (msgtext s))"
  shows "msg_out_ok mi q ty xs s (Done 0, msg_link c q ty cnt (int sp) (s\<lparr>msgmap := m, msgtext := t\<rparr>))"
proof -
  let ?s = "msg_link c q ty cnt (int sp) (s\<lparr>msgmap := m, msgtext := t\<rparr>)" and ?h = "hd (msgfp s)"
  note L = msg_link_wf(1-5,7) [where c = c and ty = ty and t = t, OF wf q fp cnt(2,3) segs m]
    and fresh = msg_link_wf(6) [OF wf q fp cnt(2,3) segs m]
  have old: "msg_of mi ?s h = msg_of mi s h" if h: "h \<in> set (qchain s q')" for h q'
  proof -
    have "msgh ?s h = msgh s h" using h fresh [of q'] unfolding L(5) by auto
    moreover have "msg_bytes mi t (msgh s h) (nat (msg_ts (msgh s h)))
        = msg_bytes mi (msgtext s) (msgh s h) (nat (msg_ts (msgh s h)))"
      using free_segs_text [OF wf _ _ h, of sp cnt xs] segs cnt(1) t by (cases "cnt = 0") simp_all
    ultimately show ?thesis by (simp only: msg_of_def L(3))
  qed
  have new: "msg_of mi ?s ?h = (ty, xs)"
    unfolding msg_of_def L(3,5) using cnt(1) t by (cases "cnt = 0") (simp_all add: msg_bytes_written, simp add: msg_bytes_def)
  have "msg_contents mi ?s = (msg_contents mi s)(q := msg_contents mi s q @ [(ty, xs)])"
    using old new by (auto simp: msg_contents_def L(2) fun_eq_iff)
  then show ?thesis using L(1,6) msg_link_fields(1) [of q "s\<lparr>msgmap := m, msgtext := t\<rparr>"] q
    by (simp add: msg_out_ok_def)
qed

lemma msgsnd_get_ok:
  assumes wf: "msg_wf mi s" and q: "q < length (msgque s)" and cnt: "cnt \<le> msgmax mi"
  shows "msg_out_ok mi q ty (take cnt utext) s (msgsnd_get mi c mid ty cnt utext flg q s)
    \<and> (fst (msgsnd_get mi c mid ty cnt utext flg q s) = Done 0 \<longrightarrow> cnt \<le> length utext)"
proof -
  let ?r = "msgsnd_get mi c mid ty cnt utext flg q s"
  have same: "msg_out_ok mi q ty (take cnt utext) s (r, s)" if "\<And>v. r \<noteq> Done v" for r
    using wf that by (auto simp: msg_out_ok_def split: outcome.split)
  have P: "msg_cfg mi" "map_wf (msgmap s)" "free_units (msgmap s) \<subseteq> {1..msgseg mi}"
    using wf by (simp_all add: msg_wf_def msg_pool_def)
  consider (early) "?r = (Wild, s)" | (err) e where "?r = (Err e, s)"
    | (slp) "?r = (Sleep (QueueChan q), upd_queue q (msg_mode (\<lambda>m. m OR MSG_WWAIT)) s)"
    | (slp2) "?r = (Sleep MsgfpChan, s)"
    | (go) "msgfp s \<noteq> []" "cnt + unat (msg_cbytes (msgque s ! q)) \<le> unat (msg_qbytes (msgque s ! q))"
        "?r = (if cnt = 0 then (Done 0, msg_link c q ty 0 0 s)
          else (case malloc (msgmap s) (of_nat (btoq mi cnt)) of (a, m) \<Rightarrow>
               let s1 = s\<lparr>msgmap := m\<rparr> in
               if a = 0 then
                 (if flg AND IPC_NOWAIT \<noteq> 0 then (Err EAGAIN, s1)
                  else (Sleep MsgmapChan, s1\<lparr>msgmap := m\<lparr>map_want := map_want m + 1\<rparr>\<rparr>))
               else
                 (let spot = unat a - 1;
                    s2 = s1\<lparr>msgtext := mem_write (msgssz mi * spot) (take cnt utext) (msgtext s1)\<rparr> in
                  if length utext < cnt then
                    (let (r, m') = mfree (msgmap s2) (of_nat (btoq mi cnt)) a; s3 = s2\<lparr>msgmap := m'\<rparr> in
                     (Err EFAULT, if r = Freed True then msg_wakeup MsgmapChan s3 else s3))
                  else (Done 0, msg_link c q ty cnt (int spot) s2))))"
  proof (cases "msgconv mi mid s")
    case None
    then show ?thesis using early by (simp add: msgsnd_get_eq)
  next
    case (Some cv)
    show ?thesis
    proof (cases cv)
      case (Inl e)
      then show ?thesis using err Some by (simp add: msgsnd_get_eq)
    next
      case (Inr i)
      note c = Some [unfolded Inr]
      show ?thesis
      proof (cases "unat (msg_qbytes (msgque s ! q)) < cnt + unat (msg_cbytes (msgque s ! q))")
        case True
        then show ?thesis using err [of EAGAIN] slp c
          by (cases "flg AND IPC_NOWAIT = 0") (simp_all add: msgsnd_get_eq)
      next
        case False
        show ?thesis
        proof (cases "msgfp s = []")
          case True
          then show ?thesis using err [of EAGAIN] slp2 c False
            by (cases "flg AND IPC_NOWAIT = 0") (simp_all add: msgsnd_get_eq)
        next
          case fp: False
          show ?thesis by (rule go) (use c False fp in \<open>simp_all add: msgsnd_get_eq\<close>)
        qed
      qed
    qed
  qed
  then show ?thesis
  proof cases
    case early
    then show ?thesis using same by simp
  next
    case err
    then show ?thesis using same by simp
  next
    case slp2
    then show ?thesis using same by simp
  next
    case slp
    have "msg_wf mi (upd_queue q (msg_mode (\<lambda>m. m OR MSG_WWAIT)) s)
      \<and> qchain (upd_queue q (msg_mode (\<lambda>m. m OR MSG_WWAIT)) s) = qchain s"
      by (rule msg_wf_upd [OF wf]) simp
    moreover from this have "msg_contents mi (upd_queue q (msg_mode (\<lambda>m. m OR MSG_WWAIT)) s) = msg_contents mi s"
      by (intro msg_contents_frame) simp_all
    ultimately show ?thesis unfolding slp by (simp add: msg_out_ok_def)
  next
    case go
    have room: "cnt + unat (msg_cbytes (msgque s ! q)) < 65536"
    proof -
      have "unat (msg_qbytes (msgque s ! q)) < 65536" using unsigned_less [of "msg_qbytes (msgque s ! q)"] by simp
      with go(2) show ?thesis by simp
    qed
    show ?thesis
    proof (cases "cnt = 0")
      case True
      have "s\<lparr>msgmap := msgmap s, msgtext := msgtext s\<rparr> = s" by simp
      with msg_link_out [OF wf q go(1), where cnt = 0 and xs = "[]" and A = "{}" and sp = 0 and m = "msgmap s" and t = "msgtext s"
          and ty = ty and c = c] True room P(2) go(3)
      show ?thesis by simp
    next
      case False
      obtain a m where am: "malloc (msgmap s) (of_nat (btoq mi cnt)) = (a, m)" by fastforce
      let ?n = "of_nat (btoq mi cnt) :: u32"
      have n: "unat ?n = btoq mi cnt" using unat_btoq [OF P(1)] cnt False by simp
      show ?thesis
      proof (cases "a = 0")
        case True
        with am rmap_alloc.alloc_fail [OF P(2)] have m: "m = msgmap s" by blast
        define s2 where "s2 = s\<lparr>msgmap := m\<lparr>map_want := map_want m + 1\<rparr>\<rparr>"
        have w2: "msg_wf mi s2 \<and> qchain s2 = qchain s"
          by (rule msg_wf_frame [OF wf]) (use m P(2) in \<open>simp_all add: s2_def\<close>)
        then have "msg_contents mi s2 = msg_contents mi s" by (intro msg_contents_frame) (simp_all add: s2_def)
        with w2 have s2: "msg_out_ok mi q ty (take cnt utext) s (Sleep MsgmapChan, s2)"
          by (simp add: msg_out_ok_def) (simp add: s2_def)
        have "s\<lparr>msgmap := m\<rparr> = s" using m by simp
        then have "?r = (Err EAGAIN, s) \<or> ?r = (Sleep MsgmapChan, s2)"
          using True am False m unfolding go(3) by (simp add: s2_def)
        with same [of "Err EAGAIN"] s2 show ?thesis by fastforce
      next
        case a: False
        note al = rmap_alloc.alloc_ok [OF P(2) am a]
        define sp where "sp = unat a - 1"
        have ua: "unat a = sp + 1" using a by (simp add: sp_def flip: unat_pos_iff)
        define A where "A = {sp + 1..<sp + 1 + btoq mi cnt}"
        have A: "{unat a..<unat a + unat ?n} = A" by (simp add: A_def ua n)
        define t where "t = mem_write (msgssz mi * sp) (take cnt utext) (msgtext s)"
        have rn: "?n \<noteq> 0" using btoq_bounds(1) [of mi cnt] P(1) False n by (auto simp: msg_cfg_def simp flip: unat_pos_iff)
        have sub: "{sp + 1..<sp + 1 + btoq mi cnt} \<subseteq> free_units (msgmap s)" using al A by (simp add: A_def)
        show ?thesis
        proof (cases "length utext < cnt")
          case False
          have "msg_out_ok mi q ty (take cnt utext) s (Done 0, msg_link c q ty cnt (int sp) (s\<lparr>msgmap := m, msgtext := t\<rparr>))"
            by (rule msg_link_out [OF wf q go(1), where A = A])
              (use False cnt room al \<open>cnt \<noteq> 0\<close> in \<open>simp_all add: A A_def [symmetric] t_def, simp_all add: A_def\<close>)
          then show ?thesis using False am a \<open>cnt \<noteq> 0\<close> unfolding go(3) by (simp add: Let_def sp_def t_def)
        next
          case short: True
          obtain r m' where fr: "mfree m ?n a = (r, m')" by fastforce
          have "{unat a..<unat a + unat ?n} \<inter> free_units m = {}" using al by blast
          from mfree_units_intro [OF _ rn a rmap_alloc.alloc_range [OF P(2) am a rn] this fr] al
          have mf: "map_wf m'" "free_units m' = free_units (msgmap s) \<or> free_units m' = free_units (msgmap s) - A"
            by (auto simp: mfree_units_def A)
          define s3 where "s3 = s\<lparr>msgmap := m', msgtext := t\<rparr>"
          have "qchain s3 = qchain s" by (simp add: s3_def qchain_def fun_eq_iff)
          moreover have "msg_heap mi (qchain s) (msgh s) (msgfp s) (free_units m')"
            using wf mf(2) unfolding msg_wf_def msg_pool_def msg_heap_def by blast
          ultimately have wf3: "msg_wf mi s3" "qchain s3 = qchain s"
            using wf mf P(3) by (auto simp: msg_wf_def msg_pool_def s3_def)
          have "msg_contents mi s3 = msg_contents mi s"
            unfolding msg_contents_def wf3(2)
          proof (intro ext map_cong refl)
            fix q' h assume "h \<in> set (qchain s q')"
            from free_segs_text [OF wf sub _ this, of "take cnt utext"] show "msg_of mi s3 h = msg_of mi s h"
              by (simp add: msg_of_def s3_def t_def)
          qed
          moreover from this have "msg_contents mi (msg_wakeup MsgmapChan s3) = msg_contents mi s"
            by (subst msg_contents_frame [of _ s3]) simp_all
          moreover have "length (msgque s3) = length (msgque s)" by (simp add: s3_def)
          moreover have "?r = (Err EFAULT, if r = Freed True then msg_wakeup MsgmapChan s3 else s3)"
            using short am a fr \<open>cnt \<noteq> 0\<close> unfolding go(3) by (simp add: Let_def s3_def sp_def t_def)
          ultimately show ?thesis using wf3(1) by (simp add: msg_out_ok_def)
        qed
      qed
    qed
  qed
qed

section \<open>Allocated queues\<close>

text \<open>A queue that is not allocated has no messages.\<close>

definition msg_alloc :: "msgsys \<Rightarrow> nat \<Rightarrow> bool" where
  "msg_alloc s q \<longleftrightarrow> q < length (msgque s) \<and> ipc_allocated (msg_perm (msgque s ! q))"

definition msg_inv :: "msginfo \<Rightarrow> msgsys \<Rightarrow> bool" where
  "msg_inv mi s \<longleftrightarrow> msg_wf mi s \<and> (\<forall>q. \<not> msg_alloc s q \<longrightarrow> qchain s q = [])"

lemma ipc_allocated_bit: "ipc_allocated p \<longleftrightarrow> bit (ipc_mode p) 15"
proof -
  have "(0x8000 :: u16) = 2 ^ 15" by simp
  then show ?thesis unfolding ipc_allocated_def by (simp only: and_exp_eq_0_iff_not_bit) simp
qed

lemma msg_alloc_simps [simp]:
  "msg_alloc (msg_wakeup ch s) = msg_alloc s" "msg_alloc (s\<lparr>msgmap := m\<rparr>) = msg_alloc s"
  "msg_alloc (s\<lparr>msgtext := t\<rparr>) = msg_alloc s" "msg_alloc (s\<lparr>msgh := H\<rparr>) = msg_alloc s"
  "msg_alloc (s\<lparr>msgfp := F\<rparr>) = msg_alloc s"
  by (simp_all add: msg_alloc_def fun_eq_iff)

lemma msg_alloc_upd:
  assumes "\<And>qp. ipc_allocated (msg_perm (f qp)) = ipc_allocated (msg_perm qp)"
  shows "msg_alloc (upd_queue q f s) = msg_alloc s"
  by (rule ext) (simp add: msg_alloc_def upd_queue_nth assms split: if_split cong: conj_cong)

lemma msg_alloc_modes [simp]:
  "msg_alloc (upd_queue q (msg_mode (\<lambda>m. m AND - 1025)) s) = msg_alloc s"
  "msg_alloc (upd_queue q (msg_mode (\<lambda>m. m AND - 513)) s) = msg_alloc s"
  "msg_alloc (upd_queue q (msg_mode (\<lambda>m. m OR MSG_WWAIT)) s) = msg_alloc s"
  "msg_alloc (upd_queue q (msg_mode (\<lambda>m. m OR MSG_RWAIT)) s) = msg_alloc s"
  by (rule msg_alloc_upd, simp add: ipc_allocated_bit bit_and_iff bit_or_iff bit_not_iff)+

lemma msg_alloc_msgfree [simp]: "msg_alloc (msgfree mi q k s) = msg_alloc s"
proof -
  have "msg_alloc (msgfree_text mi mp s) = msg_alloc s" for mp s
    by (simp add: msgfree_text_def Let_def split: prod.split)
  moreover have "msg_alloc (upd_queue q (\<lambda>qp. qp\<lparr>msg_chain := F qp, msg_qnum := G qp\<rparr>) s) = msg_alloc s" for F G s
    by (rule msg_alloc_upd) simp
  ultimately show ?thesis by (simp add: msgfree_def Let_def)
qed

lemma msg_alloc_link [simp]: "msg_alloc (msg_link c q ty cnt spot s) = msg_alloc s"
proof -
  have "msg_alloc (upd_queue q (\<lambda>qp. qp\<lparr>msg_qnum := A qp, msg_cbytes := B qp, msg_lspid := C, msg_stime := D,
      msg_chain := E qp\<rparr>) s) = msg_alloc s" for A B C D E
    by (rule msg_alloc_upd) simp
  then show ?thesis by (simp add: msg_link_def Let_def)
qed

lemma msgsnd_get_alloc: "msg_alloc (snd (msgsnd_get mi c mid ty cnt utext flg q s)) = msg_alloc s"
  by (simp add: msgsnd_get_eq Let_def split: option.split sum.split prod.split)

lemma msgrcv_find_alloc: "msg_alloc (snd (snd (msgrcv_find mi c msgsz ty flg room q s))) = msg_alloc s"
proof -
  have "msg_alloc (upd_queue q (\<lambda>qp. qp\<lparr>msg_cbytes := A qp, msg_lrpid := B, msg_rtime := C\<rparr>) s) = msg_alloc s" for A B C
    by (rule msg_alloc_upd) simp
  moreover have "msg_alloc (upd_queue q (\<lambda>qp. qp\<lparr>msg_lrpid := B, msg_rtime := C\<rparr>) s) = msg_alloc s" for B C
    by (rule msg_alloc_upd) simp
  ultimately show ?thesis by (simp add: msgrcv_find_eq Let_def split: option.split prod.split)
qed

lemma msgconv_ok:
  assumes "msgconv mi mid s = Some (Inr q)"
  shows "msg_alloc s q" "q < length (msgque s)" "q = nat (c_rem mid (int (msgmni mi)))"
    "uint (ipc_seq (msg_perm (msgque s ! q))) = c_quot mid (int (msgmni mi))"
  using assms by (auto simp: msgconv_def msg_alloc_def Let_def split: if_splits)

section \<open>Every call keeps the invariant\<close>

lemma msg_invI: "\<lbrakk>msg_wf mi s; \<And>q. \<not> msg_alloc s q \<Longrightarrow> qchain s q = []\<rbrakk> \<Longrightarrow> msg_inv mi s"
  by (simp add: msg_inv_def)

lemma msg_invD: "msg_inv mi s \<Longrightarrow> msg_wf mi s" "\<lbrakk>msg_inv mi s; \<not> msg_alloc s q\<rbrakk> \<Longrightarrow> qchain s q = []"
  by (simp_all add: msg_inv_def)

lemma contents_empty: "msg_contents mi s q = [] \<longleftrightarrow> qchain s q = []"
  by (simp add: msg_contents_def)

lemma msgsnd_get_inv:
  assumes "msg_inv mi s" "msgconv mi mid s = Some (Inr q)" "cnt \<le> msgmax mi"
  shows "msg_inv mi (snd (msgsnd_get mi c mid ty cnt utext flg q s))"
proof (rule msg_invI)
  let ?r = "msgsnd_get mi c mid ty cnt utext flg q s"
  note A = msgconv_ok [OF assms(2)]
  from msgsnd_get_ok [OF msg_invD(1) [OF assms(1)] A(2) assms(3)]
  have ok: "msg_out_ok mi q ty (take cnt utext) s ?r" by blast
  then show "msg_wf mi (snd ?r)" by (simp add: msg_out_ok_def)
  fix q' assume q': "\<not> msg_alloc (snd ?r) q'"
  then have "\<not> msg_alloc s q'" by (simp add: msgsnd_get_alloc)
  moreover from this A(1) have "q' \<noteq> q" by blast
  ultimately have "msg_contents mi (snd ?r) q' = []"
    using ok msg_invD(2) [OF assms(1)] by (cases "fst ?r") (auto simp: msg_out_ok_def contents_empty)
  then show "qchain (snd ?r) q' = []" by (simp add: contents_empty)
qed

lemma msg_inv_mode:
  assumes "msg_inv mi s" "msg_alloc (upd_queue q (msg_mode f) s) = msg_alloc s"
  shows "msg_inv mi (upd_queue q (msg_mode f) s)"
  using msg_wf_upd [OF msg_invD(1) [OF assms(1)], of "msg_mode f" q] msg_invD(2) [OF assms(1)] assms(2)
  by (simp add: msg_inv_def)

lemma msgrcv_find_inv:
  assumes "msg_inv mi s" "q < length (msgque s)" "0 \<le> msgsz"
  shows "msg_inv mi (snd (snd (msgrcv_find mi c msgsz ty flg room q s)))"
proof (cases "fst (msgrcv_find mi c msgsz ty flg room q s)")
  case (Done sz)
  obtain got s' where r: "msgrcv_find mi c msgsz ty flg room q s = (Done sz, got, s')"
    using Done by (cases "msgrcv_find mi c msgsz ty flg room q s") auto
  from msgrcv_find_done [OF msg_invD(1) [OF assms(1)] assms(2,3) r] obtain k where
    k: "msg_wf mi s'" "msg_contents mi s' = (msg_contents mi s)(q := take k (msg_contents mi s q) @ drop (Suc k) (msg_contents mi s q))"
    by metis
  have al: "msg_alloc s' = msg_alloc s" using msgrcv_find_alloc [of mi c msgsz ty flg room q s] by (simp add: r)
  have "qchain s' q' = []" if "\<not> msg_alloc s q'" for q'
  proof -
    have "msg_contents mi s q' = []" using msg_invD(2) [OF assms(1) that] by (simp add: contents_empty)
    then have "msg_contents mi s' q' = []" by (cases "q' = q") (auto simp: k(2))
    then show ?thesis by (simp add: contents_empty)
  qed
  then show ?thesis using k(1) by (simp add: r msg_inv_def al)
next
  case (Sleep ch)
  then have "snd (snd (msgrcv_find mi c msgsz ty flg room q s)) = upd_queue q (msg_mode (\<lambda>m. m OR MSG_RWAIT)) s"
    by (auto simp: msgrcv_find_eq Let_def split: option.splits if_splits)
  then show ?thesis using msg_inv_mode [OF assms(1)] by simp
next
  case (Err e)
  then have "snd (snd (msgrcv_find mi c msgsz ty flg room q s)) = s"
    by (auto simp: msgrcv_find_eq Let_def split: option.splits if_splits)
  then show ?thesis using assms(1) by simp
next
  case Wild
  then show ?thesis by (auto simp: msgrcv_find_eq Let_def split: option.splits if_splits)
qed

lemma msg_purge_pool:
  assumes "msg_pool mi s" "q < length (msgque s)" "n = length (msg_chain (msgque s ! q))"
  defines "s' \<equiv> msg_purge mi q n s"
  shows "msg_pool mi s' \<and> qchain s' = (qchain s)(q := []) \<and> msgh s' = msgh s \<and> msgtext s' = msgtext s
    \<and> length (msgque s') = length (msgque s) \<and> msg_alloc s' = msg_alloc s
    \<and> (\<forall>q' < length (msgque s). msg_cbytes (msgque s' ! q') = msg_cbytes (msgque s ! q')
        \<and> ipc_seq (msg_perm (msgque s' ! q')) = ipc_seq (msg_perm (msgque s ! q')))
    \<and> (\<exists>w. msgwoken s' = msgwoken s @ w)"
  using assms(1-3) unfolding s'_def
proof (induction n arbitrary: s)
  case 0
  then show ?case by (auto simp: qchain_def fun_eq_iff)
next
  case (Suc n)
  let ?s = "msgfree mi q 0 s"
  have k: "0 < length (msg_chain (msgque s ! q))" using Suc.prems(3) by (metis zero_less_Suc)
  note F = msgfree_fields [OF Suc.prems(2), where k = 0 and mi = mi] and P = msgfree_pool [OF Suc.prems(1,2) k]
  have "n = length (msg_chain (msgque ?s ! q))" using F(6) [of q] Suc.prems(2,3) by simp
  from Suc.IH [OF P(1) _ this] F(1) Suc.prems(2) have
    IH: "msg_pool mi (msg_purge mi q n ?s) \<and> qchain (msg_purge mi q n ?s) = (qchain ?s)(q := [])
      \<and> msgh (msg_purge mi q n ?s) = msgh ?s \<and> msgtext (msg_purge mi q n ?s) = msgtext ?s
      \<and> length (msgque (msg_purge mi q n ?s)) = length (msgque ?s) \<and> msg_alloc (msg_purge mi q n ?s) = msg_alloc ?s
      \<and> (\<forall>q' < length (msgque ?s). msg_cbytes (msgque (msg_purge mi q n ?s) ! q') = msg_cbytes (msgque ?s ! q')
          \<and> ipc_seq (msg_perm (msgque (msg_purge mi q n ?s) ! q')) = ipc_seq (msg_perm (msgque ?s ! q')))
      \<and> (\<exists>w. msgwoken (msg_purge mi q n ?s) = msgwoken ?s @ w)" by (simp add: fun_upd_def)
  moreover obtain w where "msgwoken ?s = msgwoken s @ w" using F(10) by blast
  ultimately show ?case by (auto simp: F(1-3,8,9) P(2))
qed

text \<open>Removing a queue.\<close>

lemma msg_rmid_spec:
  assumes "msg_inv mi s" "msgconv mi mid s = Some (Inr q)"
  defines "s' \<equiv> msg_rmid mi mid q s"
  shows "msg_inv mi s'" "msg_contents mi s' = (msg_contents mi s)(q := [])"
    "msg_alloc s' = (msg_alloc s)(q := False)"
    "ipc_seq (msg_perm (msgque s' ! q)) = (if sint (word_of_int (mid + int (msgmni mi)) :: u32) < 0 then 0
       else ipc_seq (msg_perm (msgque s ! q)) + 1)"
    "length (msgque s') = length (msgque s)"
proof -
  note A = msgconv_ok [OF assms(2)]
  define s1 where "s1 = msg_purge mi q (length (msg_chain (msgque s ! q))) s"
  define f where "f = (\<lambda>qp :: msqid_ds. qp\<lparr>msg_cbytes := 0, msg_perm := (msg_perm qp)\<lparr>ipc_seq :=
                 (if sint (word_of_int (mid + int (msgmni mi)) :: u32) < 0 then 0
                  else ipc_seq (msg_perm qp) + 1)\<rparr>\<rparr>)"
  define s2 where "s2 = upd_queue q f s1"
  have wf: "msg_wf mi s" using assms(1) by (simp add: msg_inv_def)
  from msg_purge_pool [OF _ A(2) refl, of mi] wf have P: "msg_pool mi s1" "qchain s1 = (qchain s)(q := [])"
    "msgh s1 = msgh s" "msgtext s1 = msgtext s" "length (msgque s1) = length (msgque s)" "msg_alloc s1 = msg_alloc s"
    "\<And>q'. q' < length (msgque s) \<Longrightarrow> msg_cbytes (msgque s1 ! q') = msg_cbytes (msgque s ! q')
        \<and> ipc_seq (msg_perm (msgque s1 ! q')) = ipc_seq (msg_perm (msgque s ! q'))"
    by (simp_all add: msg_wf_def s1_def)
  have P2: "msg_pool mi s2" "qchain s2 = (qchain s)(q := [])"
    using msg_pool_upd [OF P(1), of f q] P(2) by (simp_all add: s2_def f_def)
  have ch2: "msg_chain (msgque s2 ! q') = (qchain s2) q'" if "q' < length (msgque s)" for q'
    using that P(5) by (simp add: qchain_def s2_def)
  have "bytes_ok (msgh s2) (msgque s2 ! q')" if q': "q' < length (msgque s)" for q'
  proof (cases "q' = q")
    case True
    then show ?thesis using ch2 [OF q'] P2(2) q' P(5) by (simp add: bytes_ok_def) (simp add: s2_def f_def upd_queue_nth)
  next
    case False
    have "bytes_ok (msgh s) (msgque s ! q')" using wf q' by (simp add: msg_wf_def)
    moreover have "msg_chain (msgque s2 ! q') = msg_chain (msgque s ! q')" using ch2 [OF q'] P2(2) q' False by (simp add: qchain_def)
    moreover have "msg_cbytes (msgque s2 ! q') = msg_cbytes (msgque s ! q')"
      using P(5) P(7) [OF q'] q' False by (simp add: s2_def upd_queue_nth)
    ultimately show ?thesis by (simp add: bytes_ok_def s2_def P(3))
  qed
  then have wf2: "msg_wf mi s2" using P2(1) P(5) by (simp add: msg_wf_def s2_def)
  obtain s4 where s4: "s' = upd_queue q (msg_mode (\<lambda>_. 0)) s4" "msg_wf mi s4" "qchain s4 = qchain s2"
    "msgh s4 = msgh s2" "msgtext s4 = msgtext s2" "msgque s4 = msgque s2"
  proof
    let ?s3 = "if has_mode s2 q MSG_RWAIT then msg_wakeup (QnumChan q) s2 else s2"
    let ?s4 = "if has_mode ?s3 q MSG_WWAIT then msg_wakeup (QueueChan q) ?s3 else ?s3"
    show "s' = upd_queue q (msg_mode (\<lambda>_. 0)) ?s4"
      unfolding s'_def msg_rmid_def Let_def s1_def [symmetric] f_def [symmetric] s2_def [symmetric] ..
  qed (use wf2 in simp_all)
  have wf': "msg_wf mi s'" "qchain s' = qchain s2"
    using msg_wf_upd [OF s4(2), of "msg_mode (\<lambda>_. 0)" q] s4(1,3) by simp_all
  show len: "length (msgque s') = length (msgque s)" by (simp add: s4(1,6) s2_def P(5))
  have mem: "msgh s' = msgh s" "msgtext s' = msgtext s" by (simp_all add: s4 s2_def P(3,4))
  have "msg_of mi s' = msg_of mi s" by (intro ext) (simp only: msg_of_def mem)
  then show "msg_contents mi s' = (msg_contents mi s)(q := [])"
    by (auto simp: msg_contents_def wf'(2) P2(2) fun_eq_iff)
  have "msg_alloc s2 = msg_alloc s1" unfolding s2_def by (rule msg_alloc_upd) (simp add: f_def ipc_allocated_def)
  moreover have "msg_alloc s' q' = (q' \<noteq> q \<and> msg_alloc s2 q')" for q'
    by (cases "q' = q") (simp_all add: msg_alloc_def s4(1,6) upd_queue_nth ipc_allocated_def cong: conj_cong)
  ultimately show al: "msg_alloc s' = (msg_alloc s)(q := False)" by (auto simp: P(6) fun_eq_iff)
  show "msg_inv mi s'"
    using wf' P2(2) al msg_invD(2) [OF assms(1)] by (auto simp: msg_inv_def)
  show "ipc_seq (msg_perm (msgque s' ! q)) = (if sint (word_of_int (mid + int (msgmni mi)) :: u32) < 0 then 0
       else ipc_seq (msg_perm (msgque s ! q)) + 1)"
    using A(2) P(5) P(7) [OF A(2)] by (simp add: s4(1,6) s2_def f_def upd_queue_nth)
qed

text \<open>The sequence number changes, so an old identifier stays invalid when the slot is used again.\<close>

lemma msg_rmid_seq:
  assumes "msg_cfg mi" "length (msgque s) = msgmni mi" "msgconv mi mid s = Some (Inr q)" "mid < 2 ^ 31"
  shows "(if sint (word_of_int (mid + int (msgmni mi)) :: u32) < 0 then 0
       else ipc_seq (msg_perm (msgque s ! q)) + 1) \<noteq> ipc_seq (msg_perm (msgque s ! q))"
proof -
  note A = msgconv_ok [OF assms(3)]
  have mni: "0 < int (msgmni mi)" "int (msgmni mi) < 65536" using assms(1) by (simp_all add: msg_cfg_def)
  have rem: "0 \<le> c_rem mid (int (msgmni mi))" using assms(3) by (auto simp: msgconv_def Let_def split: if_splits)
  have pos: "0 \<le> mid"
  proof (rule ccontr)
    assume neg: "\<not> 0 \<le> mid"
    have "\<bar>mid\<bar> mod int (msgmni mi) = 0"
      using rem neg mni by (auto simp: c_rem_def) (metis mni(1) order_antisym pos_mod_sign)
    then have "int (msgmni mi) \<le> \<bar>mid\<bar>" using neg by (intro zdvd_imp_le) auto
    then have "0 < \<bar>mid\<bar> div int (msgmni mi)" using mni by (simp add: pos_imp_zdiv_pos_iff)
    then have "c_quot mid (int (msgmni mi)) < 0" using neg mni by (simp add: c_quot_def)
    then show False unfolding A(4) [symmetric] by (metis not_less unsigned_greater_eq)
  qed
  have seq: "uint (ipc_seq (msg_perm (msgque s ! q))) = mid div int (msgmni mi)" using A(4) pos mni by simp
  show ?thesis
  proof (cases "sint (word_of_int (mid + int (msgmni mi)) :: u32) < 0")
    case True
    have "2 ^ 31 \<le> mid + int (msgmni mi)"
    proof (rule ccontr)
      assume "\<not> 2 ^ 31 \<le> mid + int (msgmni mi)"
      then have "sint (word_of_int (mid + int (msgmni mi)) :: u32) = mid + int (msgmni mi)"
        using pos mni by (intro sint_u32_id) linarith+
      with True pos mni show False by simp
    qed
    then have "int (msgmni mi) \<le> mid" using mni by simp
    then have "0 < mid div int (msgmni mi)" using mni by (simp add: pos_imp_zdiv_pos_iff)
    with seq True show ?thesis by auto
  next
    case False
    then show ?thesis by simp
  qed
qed

text \<open>Creating a queue.\<close>

lemma msgget_inv:
  assumes "msg_inv mi s"
  shows "msg_inv mi (snd (msgget mi c key flg s))"
proof (cases "ipcget c key flg (map msg_perm (msgque s))")
  case (Inl e)
  then show ?thesis using assms by (simp add: msgget_def)
next
  case (Inr r)
  obtain q new ps where r: "ipcget c key flg (map msg_perm (msgque s)) = Inr (q, new, ps)"
    using Inr by (cases r) auto
  have wf: "msg_wf mi s" using assms by (simp add: msg_inv_def)
  from ipcget_cases [OF r] have q: "q < length (msgque s)"
    and ps: "if new then \<not> ipc_allocated (msg_perm (msgque s ! q)) \<and> ipc_allocated (ps ! q) else ps = map msg_perm (msgque s)"
    by (auto split: if_splits)
  let ?f = "\<lambda>qp :: msqid_ds. qp\<lparr>msg_perm := ps ! q\<rparr>"
  have w1: "msg_wf mi (upd_queue q ?f s)" "qchain (upd_queue q ?f s) = qchain s"
    using msg_wf_upd [OF wf, of ?f q] by simp_all
  show ?thesis
  proof (cases new)
    case False
    then have "upd_queue q ?f s = s" using ps q by (simp add: upd_queue_def)
    then show ?thesis using False r assms by (simp add: msgget_def)
  next
    case True
    let ?g = "\<lambda>qp :: msqid_ds. qp\<lparr>msg_chain := [], msg_qnum := 0, msg_qbytes := of_nat (msgmnb mi),
      msg_lspid := 0, msg_lrpid := 0, msg_stime := 0, msg_rtime := 0, msg_ctime := ca_time c\<rparr>"
    define s2 where "s2 = upd_queue q ?g (upd_queue q ?f s)"
    have emp: "msg_chain (msgque s ! q) = []"
      using msg_invD(2) [OF assms, of q] True ps q by (simp add: msg_alloc_def qchain_def)
    moreover have "msg_qnum (msgque s ! q) = 0"
      using wf q emp by (simp add: msg_wf_def msg_pool_def)
    ultimately have w2: "msg_wf mi s2 \<and> qchain s2 = qchain s"
      unfolding s2_def using wf q
      by (intro msg_wf_frame) (auto simp: upd_queue_nth msg_wf_def msg_pool_def)
    have "msg_alloc s q' \<Longrightarrow> msg_alloc s2 q'" for q'
      using True ps q by (cases "q' = q") (auto simp: msg_alloc_def s2_def upd_queue_nth)
    then have "msg_inv mi s2" using w2 msg_invD(2) [OF assms] by (auto simp: msg_inv_def)
    moreover have "snd (msgget mi c key flg s) = s2" using r True by (simp add: msgget_def s2_def Let_def)
    ultimately show ?thesis by simp
  qed
qed

text \<open>Control.\<close>

lemma msgctl_inv:
  assumes "msg_inv mi s"
  shows "msg_inv mi (snd (snd (msgctl mi c mid cmd buf out s)))"
proof (cases "msgconv mi mid s")
  case None
  then show ?thesis using assms by (simp add: msgctl_def)
next
  case (Some cv)
  show ?thesis
  proof (cases cv)
    case (Inl e)
    then show ?thesis using Some assms by (simp add: msgctl_def)
  next
    case (Inr q)
    note cq = Some [unfolded Inr]
    have wf: "msg_wf mi s" using assms by (simp add: msg_inv_def)
    define f where "f = (\<lambda>ds qp :: msqid_ds. qp\<lparr>
                   msg_perm := (msg_perm qp)\<lparr>ipc_uid := ipc_uid (msg_perm ds), ipc_gid := ipc_gid (msg_perm ds),
                     ipc_mode := ipc_mode (msg_perm qp) AND NOT 0x1FF OR ipc_mode (msg_perm ds) AND 0x1FF\<rparr>,
                   msg_qbytes := msg_qbytes (ds :: msqid_ds), msg_ctime := ca_time c\<rparr>)"
    have "msg_wf mi (upd_queue q (f ds) s) \<and> qchain (upd_queue q (f ds) s) = qchain s" for ds
      by (rule msg_wf_upd [OF wf]) (simp add: f_def)
    moreover have "msg_alloc (upd_queue q (f ds) s) = msg_alloc s" for ds
      by (rule msg_alloc_upd) (simp add: f_def ipc_allocated_bit bit_or_iff bit_and_iff bit_not_iff)
    ultimately have "msg_inv mi (upd_queue q (f ds) s)" for ds
      using assms by (simp add: msg_inv_def)
    then show ?thesis using cq assms msg_rmid_spec(1) [OF assms cq]
      by (simp add: msgctl_def Let_def f_def split: option.split)
  qed
qed

text \<open>The calls as a step relation; a resumed call still has the queue its identifier selected.\<close>

abbreviation msg_index :: "msginfo \<Rightarrow> int \<Rightarrow> nat" where
  "msg_index mi mid \<equiv> nat (c_rem mid (int (msgmni mi)))"

inductive msg_step :: "msginfo \<Rightarrow> msgsys \<Rightarrow> msgsys \<Rightarrow> bool" where
  step_get: "msg_step mi s (snd (msgget mi c key flg s))"
| step_ctl: "msg_step mi s (snd (snd (msgctl mi c mid cmd buf out s)))"
| step_rcv: "msg_step mi s (snd (snd (msgrcv mi c mid msgsz ty flg room s)))"
| step_rcv2: "0 \<le> msgsz \<Longrightarrow> msg_step mi s (snd (snd (msgrcv_resume mi c mid msgsz ty flg room intr (msg_index mi mid) s)))"
| step_snd: "msg_step mi s (snd (msgsnd mi c mid utype msgsz utext flg s))"
| step_snd2: "cnt \<le> msgmax mi \<Longrightarrow>
    msg_step mi s (snd (msgsnd_resume mi c mid ty cnt utext flg intr ch (msg_index mi mid) s))"

inductive_cases msg_stepE: "msg_step mi s s'"

lemma msgrcv_inv:
  assumes "msg_inv mi s"
  shows "msg_inv mi (snd (snd (msgrcv mi c mid msgsz ty flg room s)))"
    "0 \<le> msgsz \<Longrightarrow> msg_inv mi (snd (snd (msgrcv_resume mi c mid msgsz ty flg room intr (msg_index mi mid) s)))"
  using assms msgrcv_find_inv [OF assms] msgconv_ok [of mi mid s]
  by (auto simp: msgrcv_def msgrcv_resume_def split: option.split sum.split)

lemma msgsnd_inv:
  assumes "msg_inv mi s"
  shows "msg_inv mi (snd (msgsnd mi c mid utype msgsz utext flg s))"
  using assms msgsnd_get_inv [OF assms, of mid _ "nat msgsz"]
  by (auto simp: msgsnd_def split: option.split sum.split)

lemma msgsnd_resume_inv:
  assumes "msg_inv mi s" "cnt \<le> msgmax mi"
  shows "msg_inv mi (snd (msgsnd_resume mi c mid ty cnt utext flg intr ch (msg_index mi mid) s))"
proof (cases intr)
  case True
  have wk: "msg_inv mi (msg_wakeup ch s') = msg_inv mi s'" for ch s' by (simp add: msg_inv_def)
  from True show ?thesis using assms(1) msg_inv_mode [OF assms(1)] by (simp add: msgsnd_resume_def wk)
next
  case False
  show ?thesis
  proof (cases "\<exists>q. msgconv mi mid s = Some (Inr q)")
    case True
    then obtain q where "msgconv mi mid s = Some (Inr q)" by blast
    with msgsnd_get_inv [OF assms(1) this assms(2)] msgconv_ok(3) [OF this] False
    show ?thesis by (simp add: msgsnd_resume_def)
  next
    case no: False
    then have "snd (msgsnd_get mi c mid ty cnt utext flg (msg_index mi mid) s) = s"
      by (auto simp: msgsnd_get_eq split: option.split sum.split)
    then show ?thesis using False assms(1) by (simp add: msgsnd_resume_def)
  qed
qed

lemma msg_step_inv: "msg_step mi s s' \<Longrightarrow> msg_inv mi s \<Longrightarrow> msg_inv mi s'"
  by (erule msg_stepE) (simp_all add: msgget_inv msgctl_inv msgrcv_inv msgsnd_inv msgsnd_resume_inv)

lemma mapinit_ents: "2 \<le> y \<Longrightarrow> map_ents (mapinit y) = zero_ent # replicate (y - 2) zero_ent"
proof -
  assume "2 \<le> y"
  then have "y - 1 = Suc (y - 2)" by simp
  then show ?thesis unfolding mapinit_def by (simp only: rmap.simps replicate_Suc)
qed

lemma mapinit_wf: "2 \<le> y \<Longrightarrow> y < 2 ^ 32 \<Longrightarrow> map_wf (mapinit y) \<and> free_units (mapinit y) = {}"
proof -
  assume y: "2 \<le> y" "y < 2 ^ 32"
  note ents = mapinit_ents [OF y(1)]
  have live: "map_live (mapinit y) = []" by (simp add: map_live_def ents zero_ent_def)
  have "unat (map_slots (mapinit y)) = y - 2"
    using y unfolding mapinit_def rmap.simps unat_of_nat by (simp add: take_bit_nat_eq_self)
  then have "map_ents (mapinit y) = replicate (Suc (unat (map_slots (mapinit y)))) zero_ent"
    by (simp add: ents)
  moreover have "length (map_ents (mapinit y)) < 2 ^ 32" using y by (simp add: ents)
  ultimately show ?thesis using live by (simp add: map_wf_def free_units_def ents_units_def)
qed

lemma msginit_inv:
  assumes "msg_cfg mi" "2 \<le> msgmapsz mi" "msgmapsz mi < 2 ^ 16"
  shows "msg_inv mi (msginit mi ok)"
proof -
  let ?m0 = "mapinit (msgmapsz mi)" and ?n = "(if ok then of_nat (msgseg mi) else 0) :: u32"
  define m where "m = snd (mfree ?m0 ?n 1)"
  have m0: "map_wf ?m0" "free_units ?m0 = {}" using mapinit_wf [of "msgmapsz mi"] assms by simp_all
  have "msgseg mi < 2 ^ 15" using assms(1) by (simp add: msg_cfg_def)
  then have n: "unat ?n \<le> msgseg mi" by (auto simp: unat_of_nat take_bit_nat_eq_self)
  have m: "map_wf m \<and> free_units m \<subseteq> {1..msgseg mi}"
  proof (cases "?n = 0")
    case True
    have "m = ?m0" unfolding m_def True
      by (simp add: mfree_def mfree_wake_def mapinit_ents [OF assms(2)] zero_ent_def) (simp add: mapinit_def)
    then show ?thesis using m0 by simp
  next
    case False
    have u1: "unat (1 :: u32) = 1" by simp
    have "unat (1 :: u32) + unat ?n < 2 ^ 32" using n \<open>msgseg mi < 2 ^ 15\<close> unfolding u1 by simp
    from mfree_units_intro [OF m0(1) False one_neq_zero this _ surjective_pairing] m0(2)
    have "mfree_units ?m0 {unat (1 :: u32)..<unat (1 :: u32) + unat ?n} m" unfolding m_def by blast
    then show ?thesis using m0 n unfolding u1 by (auto simp: mfree_units_def)
  qed
  have qc: "qchain (msginit mi ok) = (\<lambda>_. [])" by (simp add: qchain_def msginit_def fun_eq_iff)
  have mm: "msgmap (msginit mi ok) = m" by (simp add: msginit_def m_def)
  have "msg_heap mi (\<lambda>_. []) H F U" if "distinct F" for H F U using that by (simp add: msg_heap_def)
  moreover have "distinct (msgfp (msginit mi ok))" by (simp add: msginit_def)
  ultimately have "msg_pool mi (msginit mi ok)"
    using assms(1) m by (simp add: msg_pool_def qc mm) (simp add: msginit_def)
  then show ?thesis by (simp add: msg_inv_def msg_wf_def qc) (simp add: msginit_def bytes_ok_def)
qed

section \<open>Properties\<close>

text \<open>
  C9: Sending appends. A \<^verbatim>\<open>msgsnd\<close> (or a resumed one) that succeeds on a sound system adds exactly
  the message of the caller, with its type and text, at the end of the queue, changes no message of
  any queue, and wakes a waiting reader; one that fails or goes to sleep changes no message at all.
\<close>

theorem msgsnd_appends:
  assumes "msg_wf mi s" "q < length (msgque s)" "cnt \<le> msgmax mi"
    and "msgsnd_get mi c mid ty cnt utext flg q s = (r, s')"
  shows "msg_wf mi s' \<and> (if \<exists>v. r = Done v
      then cnt \<le> length utext \<and> msg_contents mi s' = (msg_contents mi s)(q := msg_contents mi s q @ [(ty, take cnt utext)])
        \<and> (has_mode s q MSG_RWAIT \<longrightarrow> QnumChan q \<in> set (drop (length (msgwoken s)) (msgwoken s')))
      else msg_contents mi s' = msg_contents mi s)"
  using msgsnd_get_ok [OF assms(1-3), of ty utext c mid flg] assms(4)
  by (cases r) (auto simp: msg_out_ok_def)

definition demo_mi :: msginfo where
  "demo_mi = \<lparr>msgmapsz = 8, msgmax = 64, msgmnb = 64, msgmni = 2, msgssz = 4, msgtql = 3, msgseg = 8\<rparr>"

definition demo_root :: caller where
  "demo_root = \<lparr>u_uid = 0, u_gid = 0, ca_pid = 1, ca_time = 100\<rparr>"

definition demo_msgsys :: msgsys where
  "demo_msgsys = snd (msgget demo_mi demo_root 42 0x380 (msginit demo_mi True))"

definition demo_msgsys1 :: msgsys where
  "demo_msgsys1 = snd (msgsnd demo_mi demo_root 0 (Some 7) 3 [10, 11, 12] 0 demo_msgsys)"

lemma demo_msg_inv: "msg_inv demo_mi demo_msgsys" "msg_inv demo_mi demo_msgsys1"
proof -
  show 1: "msg_inv demo_mi demo_msgsys"
    unfolding demo_msgsys_def by (intro msgget_inv msginit_inv) (simp_all add: demo_mi_def msg_cfg_def)
  show "msg_inv demo_mi demo_msgsys1"
    unfolding demo_msgsys1_def by (rule msgsnd_inv [OF 1])
qed

theorem msgsnd_appends_witness:
  "\<exists>s'. msgsnd_get demo_mi demo_root 0 7 3 [10, 11, 12] 0 0 demo_msgsys = (Done 0, s') \<and> msg_wf demo_mi s'
    \<and> msg_contents demo_mi s' 0 = msg_contents demo_mi demo_msgsys 0 @ [(7, [10, 11, 12])]"
proof -
  have "fst (msgsnd_get demo_mi demo_root 0 7 3 [10, 11, 12] 0 0 demo_msgsys) = Done 0"
    "0 < length (msgque demo_msgsys)" "3 \<le> msgmax demo_mi" by code_simp+
  moreover from this obtain s' where
    "msgsnd_get demo_mi demo_root 0 7 3 [10, 11, 12] 0 0 demo_msgsys = (Done 0, s')" by (metis prod.collapse)
  ultimately show ?thesis
    using msgsnd_appends [OF msg_invD(1) [OF demo_msg_inv(1)], of 0 3 demo_root 0 7 "[10, 11, 12]" 0 "Done 0"] by simp
qed

text \<open>
  C10: Receiving takes one message, the right one. A \<^verbatim>\<open>msgrcv\<close> that succeeds removes the message its
  type asks for (the first one, the first of the given type, or the first of the lowest type up to
  the given bound), delivers its type and its text, cut to the size of the buffer only if that was
  allowed, leaves every other message as it was, and wakes a waiting writer.
\<close>

theorem msgrcv_takes:
  assumes "msg_wf mi s" "q < length (msgque s)" "0 \<le> msgsz"
    and "msgrcv_find mi c msgsz ty flg room q s = (Done sz, got, s')"
  shows "\<exists>k t text. msg_contents mi s q ! k = (t, text) \<and> msg_choice ty (map fst (msg_contents mi s q)) k
    \<and> got = Some (t, take (nat sz) text) \<and> sz = min msgsz (int (length text))
    \<and> (int (length text) \<le> msgsz \<or> flg AND MSG_NOERROR \<noteq> 0)
    \<and> msg_wf mi s' \<and> msg_contents mi s' = (msg_contents mi s)(q := take k (msg_contents mi s q) @ drop (Suc k) (msg_contents mi s q))
    \<and> (has_mode s q MSG_WWAIT \<longrightarrow> QueueChan q \<in> set (drop (length (msgwoken s)) (msgwoken s')))"
proof -
  from msgrcv_find_done [OF assms] obtain k where
    "msg_choice ty (map fst (msg_contents mi s q)) k"
    "sz = min msgsz (int (length (snd (msg_contents mi s q ! k))))"
    "got = Some (fst (msg_contents mi s q ! k), take (nat sz) (snd (msg_contents mi s q ! k)))"
    "int (length (snd (msg_contents mi s q ! k))) \<le> msgsz \<or> flg AND MSG_NOERROR \<noteq> 0"
    "msg_wf mi s'" "msg_contents mi s' = (msg_contents mi s)(q := take k (msg_contents mi s q) @ drop (Suc k) (msg_contents mi s q))"
    "has_mode s q MSG_WWAIT \<longrightarrow> QueueChan q \<in> set (drop (length (msgwoken s)) (msgwoken s'))"
    by metis
  then show ?thesis by (cases "msg_contents mi s q ! k") auto
qed

theorem msgrcv_takes_witness:
  "\<exists>got s'. msgrcv_find demo_mi demo_root 2 0 0x1000 (Some 2) 0 demo_msgsys1 = (Done 2, got, s') \<and> msg_wf demo_mi s'
    \<and> (\<exists>t text. got = Some (t, take 2 text))"
proof -
  have 1: "fst (msgrcv_find demo_mi demo_root 2 0 0x1000 (Some 2) 0 demo_msgsys1) = Done 2"
    and 2: "0 < length (msgque demo_msgsys1)" by code_simp+
  from 1 obtain got s' where
    3: "msgrcv_find demo_mi demo_root 2 0 0x1000 (Some 2) 0 demo_msgsys1 = (Done 2, got, s')" by (metis prod.collapse)
  have "0 \<le> (2 :: int)" by simp
  from msgrcv_takes [OF msg_invD(1) [OF demo_msg_inv(2)] 2 this 3] 3 show ?thesis by auto
qed

text \<open>
  The calls that do not remove queue \<open>q\<close>: their sequence number stays.
\<close>

definition seq_of :: "msgsys \<Rightarrow> nat \<Rightarrow> u16" where
  "seq_of s q = ipc_seq (msg_perm (msgque s ! q))"

lemma seq_of_simps [simp]:
  "seq_of (msg_wakeup ch s) = seq_of s" "seq_of (s\<lparr>msgmap := m\<rparr>) = seq_of s" "seq_of (s\<lparr>msgfp := f\<rparr>) = seq_of s"
  "seq_of (s\<lparr>msgh := g\<rparr>) = seq_of s" "seq_of (s\<lparr>msgtext := x\<rparr>) = seq_of s"
  by (simp_all add: seq_of_def fun_eq_iff)

lemma seq_of_upd: "(\<And>qp. ipc_seq (msg_perm (f qp)) = ipc_seq (msg_perm qp)) \<Longrightarrow> seq_of (upd_queue q f s) = seq_of s"
  by (cases "q < length (msgque s)") (auto simp: seq_of_def fun_eq_iff upd_queue_def nth_list_update list_update_beyond)

lemma seq_of_upd_other: "q \<noteq> j \<Longrightarrow> seq_of (upd_queue q f s) j = seq_of s j"
  by (simp add: seq_of_def upd_queue_def)

lemma seq_of_mode [simp]: "seq_of (upd_queue q (msg_mode f) s) = seq_of s"
  by (rule seq_of_upd) simp

lemma seq_of_recv [simp]: "seq_of (upd_queue q (\<lambda>qp. qp\<lparr>msg_cbytes := A qp, msg_lrpid := B, msg_rtime := C\<rparr>) s) = seq_of s"
  by (rule seq_of_upd) simp

lemma seq_of_msgfree [simp]: "seq_of (msgfree mi q k s) = seq_of s"
proof -
  have "seq_of (msgfree_text mi mp s) = seq_of s" for mp s
    by (simp add: msgfree_text_def Let_def split: prod.split)
  moreover have "seq_of (upd_queue q (\<lambda>qp. qp\<lparr>msg_chain := F qp, msg_qnum := G qp\<rparr>) s) = seq_of s" for F G s
    by (rule seq_of_upd) simp
  ultimately show ?thesis by (simp add: msgfree_def Let_def)
qed

lemma seq_of_purge [simp]: "seq_of (msg_purge mi q n s) = seq_of s"
  by (induction n arbitrary: s) simp_all

lemma seq_of_link [simp]: "seq_of (msg_link c q ty cnt spot s) = seq_of s"
proof -
  have "seq_of (upd_queue q (\<lambda>qp. qp\<lparr>msg_qnum := A qp, msg_cbytes := B qp, msg_lspid := C, msg_stime := D,
      msg_chain := E qp\<rparr>) s) = seq_of s" for A B C D E
    by (rule seq_of_upd) simp
  then show ?thesis by (simp add: msg_link_def Let_def)
qed

lemma seq_of_calls [simp]:
  "seq_of (snd (msgsnd_get mi c mid ty cnt utext flg q s)) = seq_of s"
  "seq_of (snd (snd (msgrcv_find mi c msgsz ty flg room q s))) = seq_of s"
proof -
  show "seq_of (snd (msgsnd_get mi c mid ty cnt utext flg q s)) = seq_of s"
    by (simp add: msgsnd_get_eq Let_def split: option.split sum.split prod.split)
  show "seq_of (snd (snd (msgrcv_find mi c msgsz ty flg room q s))) = seq_of s"
    by (simp add: msgrcv_find_def msgrcv_take_def Let_def split: option.split rcv_pick.split)
qed

lemma seq_of_get: "seq_of (snd (msgget mi c key flg s)) = seq_of s"
proof (cases "ipcget c key flg (map msg_perm (msgque s))")
  case (Inl e)
  then show ?thesis by (simp add: msgget_def)
next
  case (Inr r)
  obtain q new ps where r: "ipcget c key flg (map msg_perm (msgque s)) = Inr (q, new, ps)"
    using Inr by (cases r) auto
  from ipcget_cases [OF r] have q: "q < length (msgque s)" "ipc_seq (ps ! q) = ipc_seq (msg_perm (msgque s ! q))"
    by (auto split: if_splits)
  have "seq_of (upd_queue q (\<lambda>qp. qp\<lparr>msg_perm := ps ! q\<rparr>) s) = seq_of s"
    using q by (auto simp: seq_of_def fun_eq_iff upd_queue_def nth_list_update)
  moreover have "seq_of (upd_queue q (\<lambda>qp. qp\<lparr>msg_chain := [], msg_qnum := 0,
                      msg_qbytes := A, msg_lspid := 0, msg_lrpid := 0, msg_stime := 0, msg_rtime := 0, msg_ctime := B\<rparr>) s') = seq_of s'" for A B s'
    by (rule seq_of_upd) simp
  ultimately show ?thesis using r by (simp add: msgget_def Let_def)
qed

lemma seq_of_rmid: "j \<noteq> q \<Longrightarrow> seq_of (msg_rmid mi mid q s) j = seq_of s j"
  by (simp add: msg_rmid_def Let_def seq_of_upd_other)

lemma seq_of_ctl:
  assumes "cmd = IPC_RMID \<Longrightarrow> msgconv mi mid s \<noteq> Some (Inr q)"
  shows "seq_of (snd (snd (msgctl mi c mid cmd buf out s))) q = seq_of s q"
proof -
  have "seq_of (upd_queue q' (\<lambda>qp. qp\<lparr>msg_perm := (msg_perm qp)\<lparr>ipc_uid := A, ipc_gid := B, ipc_mode := C qp\<rparr>,
      msg_qbytes := D, msg_ctime := E\<rparr>) s) = seq_of s" for A B C D E q'
    by (rule seq_of_upd) simp
  then show ?thesis
    using assms by (auto simp: msgctl_def Let_def seq_of_rmid split: option.split sum.split)
qed

text \<open>A step that is not the removal of queue \<open>q\<close>.\<close>

inductive msg_other :: "msginfo \<Rightarrow> nat \<Rightarrow> msgsys \<Rightarrow> msgsys \<Rightarrow> bool" for mi q where
  other_get: "msg_other mi q s (snd (msgget mi c key flg s))"
| other_ctl: "(cmd = IPC_RMID \<Longrightarrow> msgconv mi mid s \<noteq> Some (Inr q)) \<Longrightarrow> msg_other mi q s (snd (snd (msgctl mi c mid cmd buf out s)))"
| other_rcv: "msg_other mi q s (snd (snd (msgrcv mi c mid msgsz ty flg room s)))"
| other_rcv2: "msg_other mi q s (snd (snd (msgrcv_resume mi c mid msgsz ty flg room intr q' s)))"
| other_snd: "msg_other mi q s (snd (msgsnd mi c mid utype msgsz utext flg s))"
| other_snd2: "msg_other mi q s (snd (msgsnd_resume mi c mid ty cnt utext flg intr ch q' s))"

lemma msg_other_len:
  "length (msgque (msg_wakeup ch s)) = length (msgque s)" "length (msgque (msgfree mi q k s)) = length (msgque s)"
  "length (msgque (msg_link c q ty cnt spot s)) = length (msgque s)" "length (msgque (msg_purge mi q n s)) = length (msgque s)"
  "length (msgque (msg_rmid mi mid q s)) = length (msgque s)"
proof -
  have ft: "length (msgque (msgfree_text mi mp s)) = length (msgque s)" for mp s
    by (simp add: msgfree_text_def Let_def split: prod.split)
  show f: "length (msgque (msgfree mi q k s)) = length (msgque s)" for q k s
    by (simp add: msgfree_def Let_def ft)
  show "length (msgque (msg_link c q ty cnt spot s)) = length (msgque s)" by (simp add: msg_link_def Let_def)
  have p: "length (msgque (msg_purge mi q n s)) = length (msgque s)" for q n s by (induction n arbitrary: s) (simp_all add: f)
  then show "length (msgque (msg_purge mi q n s)) = length (msgque s)" .
  show "length (msgque (msg_rmid mi mid q s)) = length (msgque s)" by (simp add: msg_rmid_def Let_def p)
qed simp

lemma msg_other_step: "msg_other mi q s s' \<Longrightarrow> seq_of s' q = seq_of s q \<and> length (msgque s') = length (msgque s)"
proof (induction rule: msg_other.induct)
  case (other_get s c key flg)
  then show ?case by (auto simp: seq_of_get) (simp add: msgget_def Let_def split: sum.split)
next
  case (other_ctl cmd mid s c buf out)
  then show ?case by (auto simp: seq_of_ctl) (simp add: msgctl_def Let_def msg_other_len split: option.split sum.split)
next
  case (other_rcv s c mid msgsz ty flg room)
  then show ?case
    by (auto simp: msgrcv_def msgrcv_find_def msgrcv_take_def msg_other_len split: option.split sum.split rcv_pick.split)
next
  case (other_rcv2 s c mid msgsz ty flg room intr q')
  then show ?case
    by (auto simp: msgrcv_resume_def msgrcv_find_def msgrcv_take_def msg_other_len split: option.split sum.split rcv_pick.split)
next
  case (other_snd s c mid utype msgsz utext flg)
  then show ?case
    by (auto simp: msgsnd_def msgsnd_get_eq Let_def msg_other_len split: option.split sum.split prod.split)
next
  case (other_snd2 s c mid ty cnt utext flg intr ch q')
  then show ?case
    by (auto simp: msgsnd_resume_def msgsnd_get_eq Let_def msg_other_len split: option.split sum.split prod.split)
qed

text \<open>
  C11: Removing a queue removes its messages and retires its identifier: the other queues keep their
  messages, the slot is free, and the identifier is refused after any run of message calls that does not remove the slot's queue
  again, also when the slot has been given out again meanwhile. (A later removal moves the sequence number on: it
  has 16 bits and is set back to 0 before identifiers overflow, so that an identifier is used again in the end.)
\<close>

theorem msg_rmid_retires:
  assumes "msg_inv mi s" "msgconv mi mid s = Some (Inr q)" "mid < 2 ^ 31"
  shows "msg_inv mi (msg_rmid mi mid q s) \<and> msg_contents mi (msg_rmid mi mid q s) = (msg_contents mi s)(q := [])
    \<and> \<not> msg_alloc (msg_rmid mi mid q s) q
    \<and> (\<forall>s2. (msg_other mi q)\<^sup>*\<^sup>* (msg_rmid mi mid q s) s2 \<longrightarrow> msgconv mi mid s2 = Some (Inl EINVAL))"
proof -
  note R = msg_rmid_spec [OF assms(1,2)] and A = msgconv_ok [OF assms(2)]
  have len: "msg_cfg mi" "length (msgque s) = msgmni mi" using assms(1) by (simp_all add: msg_inv_def msg_wf_def msg_pool_def)
  have ne: "ipc_seq (msg_perm (msgque (msg_rmid mi mid q s) ! q)) \<noteq> ipc_seq (msg_perm (msgque s ! q))"
    unfolding R(4) by (rule msg_rmid_seq [OF len assms(2,3)])
  have rem: "0 \<le> c_rem mid (int (msgmni mi))" using assms(2) by (auto simp: msgconv_def Let_def split: if_splits)
  have "msgconv mi mid s2 = Some (Inl EINVAL)" if run: "(msg_other mi q)\<^sup>*\<^sup>* (msg_rmid mi mid q s) s2" for s2
  proof -
    from run have k: "seq_of s2 q = seq_of (msg_rmid mi mid q s) q \<and> length (msgque s2) = length (msgque (msg_rmid mi mid q s))"
      by (induction rule: rtranclp_induct) (auto dest: msg_other_step)
    then have "uint (ipc_seq (msg_perm (msgque s2 ! q))) \<noteq> c_quot mid (int (msgmni mi))"
      using ne A(4) by (metis word_uint_eq_iff seq_of_def)
    then show ?thesis using k A(2,3) len(2) rem R(5) by (simp add: msgconv_def Let_def)
  qed
  then show ?thesis using R(1-3) by simp
qed

theorem msg_rmid_retires_witness:
  "msg_contents demo_mi (msg_rmid demo_mi 0 0 demo_msgsys1) 0 = []
    \<and> msgconv demo_mi 0 (snd (msgget demo_mi demo_root 7 0x3B6 (msg_rmid demo_mi 0 0 demo_msgsys1))) = Some (Inl EINVAL)"
proof -
  have "msgconv demo_mi 0 demo_msgsys1 = Some (Inr 0)" by code_simp
  note R = msg_rmid_retires [OF demo_msg_inv(2) this, simplified]
  have "(msg_other demo_mi 0)\<^sup>*\<^sup>* (msg_rmid demo_mi 0 0 demo_msgsys1)
      (snd (msgget demo_mi demo_root 7 0x3B6 (msg_rmid demo_mi 0 0 demo_msgsys1)))"
    by (intro r_into_rtranclp other_get)
  with R show ?thesis by auto
qed

text \<open>
  C12: As long as no copy between the kernel and a user's buffer has to wait for a page: from the state \<^verbatim>\<open>msginit\<close> sets up, no
  sequence of message calls by any processes, which may sleep for messages, queue space, headers or text space and resume
  in any order, leads to an unsound system: chains of headers never share a header, text
  segments of different messages and the free segments never overlap, the byte and message counts of
  every queue are exact, and an unallocated queue is empty.
\<close>

theorem msg_reachable_inv:
  assumes "msg_cfg mi" "2 \<le> msgmapsz mi" "msgmapsz mi < 2 ^ 16" "(msg_step mi)\<^sup>*\<^sup>* (msginit mi ok) s"
  shows "msg_inv mi s"
  using assms(4) by (induction rule: rtranclp_induct) (simp_all add: msginit_inv [OF assms(1-3)] msg_step_inv)

theorem msg_reachable_inv_witness: "msg_inv demo_mi demo_msgsys"
proof -
  have "(msg_step demo_mi)\<^sup>*\<^sup>* (msginit demo_mi True) demo_msgsys"
    unfolding demo_msgsys_def by (intro r_into_rtranclp step_get)
  then show ?thesis by (rule msg_reachable_inv [rotated 3]) (simp_all add: demo_mi_def msg_cfg_def)
qed


section \<open>Copies that wait\<close>

text \<open>
  A page fault in a copy may put the process to sleep while it holds what it has found. Two receivers that have picked the same message:
  when the first is done with it, the message the second one still holds is on the free list, its text
  is free, and the second frees both once more.
\<close>

lemma msgrcv_race:
  assumes "msg_inv mi s" "msgconv mi mid s = Some (Inr q)" "msgrcv_pick msgsz typ flg q s = RcvGot k h sz"
  shows "h \<in> set (msgfp (msgrcv_take mi c k h q s)) \<and> h \<notin> set (qchain (msgrcv_take mi c k h q s) q)"
proof -
  have f: "msg_find (msgh s) typ (msg_chain (msgque s ! q)) = Some (k, h)"
    using assms(3) by (auto simp: msgrcv_pick_def Let_def split: option.splits if_splits)
  have k: "k < length (msg_chain (msgque s ! q))" "h = msg_chain (msgque s ! q) ! k"
    using msg_find_best [of "msgh s" "typ" "msg_chain (msgque s ! q)"] by (auto simp: msg_best_def f)
  have q: "q < length (msgque s)" by (rule msgconv_ok(2) [OF assms(2)])
  have d: "distinct (msg_chain (msgque s ! q))"
    using assms(1) q by (auto simp: msg_inv_def msg_wf_def msg_pool_def msg_heap_def qchain_def split: if_splits)
  define s1 where "s1 = upd_queue q (\<lambda>qp. qp\<lparr>msg_cbytes := msg_cbytes qp - word_of_int (msg_ts (msgh s h)),
       msg_lrpid := ca_pid c, msg_rtime := ca_time c\<rparr>) s"
  have cq: "msg_chain (msgque s1 ! q) = msg_chain (msgque s ! q)" "q < length (msgque s1)" using q by (simp_all add: s1_def upd_queue_nth)
  have tk: "msgrcv_take mi c k h q s = msgfree mi q k s1" by (simp add: msgrcv_take_def s1_def)
  note F = msgfree_fields [OF cq(2), where k = k and mi = mi] and T = id_take_nth_drop [OF k(1)]
  have "h \<in> set (msgfp (msgfree mi q k s1))" by (simp add: F(4) cq(1) k(2))
  moreover have "h \<notin> set (take k (msg_chain (msgque s ! q)) @ drop (Suc k) (msg_chain (msgque s ! q)))"
    using d T k(2) by (metis distinct_append distinct.simps(2) Un_iff disjoint_iff list.set_intros(1) set_append)
  ultimately show ?thesis using F(6) [OF cq(2)] F(1) cq(2) by (simp add: tk qchain_def cq(1))
qed

text \<open>
  A sender that has found a free header and sleeps in its copy may find none when it goes on: \<^verbatim>\<open>msgfp\<close>, which it then follows, is null.
\<close>

lemma msgsnd_race:
  "(case msgsnd_reserve demo_mi 0 3 0 0 (demo_msgsys\<lparr>msgfp := [2]\<rparr>) of
      (SndGot a, s) \<Rightarrow> a \<noteq> 0 \<and> msgfp s = [2] \<and> fst (msgsnd demo_mi demo_root 0 (Some 1) 0 [] 0 s) = Done 0
        \<and> msgfp (snd (msgsnd demo_mi demo_root 0 (Some 1) 0 [] 0 s)) = []
    | _ \<Rightarrow> False)"
  by code_simp

end
