(* ===== verification/Sem_Set.thy ===== *)
theory Sem_Set
  imports Resource_Map Ipc_Perm "HOL-Library.Product_Lexorder"
begin

unbundle bit_operations_syntax

text \<open>
  Semaphore sets (\<^verbatim>\<open>sys/os/sem.c\<close>, \<^verbatim>\<open>sys/sem.h\<close>). Semaphores lie in one array; a set is a range
  of it allocated from the resource map \<^verbatim>\<open>semmap\<close>. Undo structures are numbered; the active entries
  of one are a list, the chains \<^verbatim>\<open>semunp\<close> and \<^verbatim>\<open>semfup\<close> are lists of numbers. A call runs in one
  step up to its end or its next \<^verbatim>\<open>sleep\<close>; calls of \<^verbatim>\<open>wakeup\<close> are recorded.
\<close>

section \<open>State\<close>

record sem =
  semval :: u16
  sempid :: u16
  semncnt :: u16
  semzcnt :: u16

record semid_ds =
  sem_perm :: ipc_perm
  sem_base :: nat
  sem_nsems :: nat
  sem_otime :: int
  sem_ctime :: int

record undo =
  un_aoe :: int
  un_num :: int
  un_id :: int

record sembuf =
  sem_num :: nat
  sem_op :: int
  sem_flg :: u16

record seminfo =
  semmapsz :: nat
  semmni :: nat
  semmns :: nat
  semmnu :: nat
  semmsl :: nat
  semopm :: nat
  semume :: nat
  semvmx :: int
  semaem :: int

datatype semchan = NcntChan nat | ZcntChan nat

record semsys =
  sema :: "semid_ds list"
  semarr :: "nat \<Rightarrow> sem"
  semmap :: rmap
  sem_undo :: "nat \<Rightarrow> nat option"
  semu :: "nat \<Rightarrow> undo list"
  semunp :: "nat list"
  semfup :: "nat list"
  semwoken :: "semchan list"

abbreviation (input) SEM_A :: u16 where "SEM_A \<equiv> 0x80"
abbreviation (input) SEM_R :: u16 where "SEM_R \<equiv> 0x100"
abbreviation (input) SEM_UNDO :: u16 where "SEM_UNDO \<equiv> 0x1000"
abbreviation (input) SEM_NOWAIT :: u16 where "SEM_NOWAIT \<equiv> 0x800"

definition upd_sem :: "nat \<Rightarrow> (sem \<Rightarrow> sem) \<Rightarrow> semsys \<Rightarrow> semsys" where
  "upd_sem k f s = s\<lparr>semarr := (semarr s)(k := f (semarr s k))\<rparr>"

definition sem_wakeup :: "semchan \<Rightarrow> semsys \<Rightarrow> semsys" where
  "sem_wakeup c s = s\<lparr>semwoken := semwoken s @ [c]\<rparr>"

text \<open>Waking the waiters for a greater value, and those for zero, if there are any.\<close>

definition wake_ncnt :: "nat \<Rightarrow> semsys \<Rightarrow> semsys" where
  "wake_ncnt k s = (if semncnt (semarr s k) \<noteq> 0
     then sem_wakeup (NcntChan k) (upd_sem k (\<lambda>p. p\<lparr>semncnt := 0\<rparr>) s) else s)"

definition wake_zcnt :: "nat \<Rightarrow> semsys \<Rightarrow> semsys" where
  "wake_zcnt k s = (if semzcnt (semarr s k) \<noteq> 0
     then sem_wakeup (ZcntChan k) (upd_sem k (\<lambda>p. p\<lparr>semzcnt := 0\<rparr>) s) else s)"

section \<open>Undo entries\<close>

text \<open>
  \<^verbatim>\<open>semaoe\<close>: the place of an entry in the list, which is ordered by set and number; the update of
  the list; and the handling of the process's undo structure around it. All members of an entry are
  \<^verbatim>\<open>short\<close>.
\<close>

fun undo_seek :: "int \<Rightarrow> int \<Rightarrow> undo list \<Rightarrow> nat \<times> bool" where
  "undo_seek i n [] = (0, False)"
| "undo_seek i n (e # r) =
     (if un_id e < i \<or> un_id e = i \<and> un_num e < n then (let (k, found) = undo_seek i n r in (Suc k, found))
      else (0, un_id e = i \<and> un_num e = n))"

definition undo_add :: "seminfo \<Rightarrow> int \<Rightarrow> int \<Rightarrow> int \<Rightarrow> undo list \<Rightarrow> errno + undo list" where
  "undo_add si val i n es =
     (let (k, found) = undo_seek i n es in
      if \<not> found then
        (if semume si \<le> length es then Inl EINVAL
         else Inr (take k es @ \<lparr>un_aoe = to_short (- val), un_num = to_short n, un_id = to_short i\<rparr> # drop k es))
      else
        (let aoe = to_short (un_aoe (es ! k) - val) in
         if aoe > semaem si \<or> aoe < - semaem si then Inl ERANGE
         else if aoe = 0 then Inr (take k es @ drop (Suc k) es)
         else Inr (es[k := (es ! k)\<lparr>un_aoe := aoe\<rparr>])))"

definition undo_store :: "nat \<Rightarrow> undo list \<Rightarrow> semsys \<Rightarrow> semsys" where
  "undo_store u es s =
     s\<lparr>semu := (semu s)(u := es),
       semunp := (if semu s u = [] then u # semunp s else if es = [] then remove1 u (semunp s) else semunp s)\<rparr>"

text \<open>The error is \<open>None\<close> for the return value 0.\<close>

definition semaoe :: "seminfo \<Rightarrow> nat \<Rightarrow> int \<Rightarrow> int \<Rightarrow> nat \<Rightarrow> semsys \<Rightarrow> errno option \<times> semsys" where
  "semaoe si p v i n s =
     (let val = to_short v; num = to_short (int n) in
      if val = 0 then (None, s)
      else if val > semaem si \<or> val < - semaem si then (Some ERANGE, s)
      else
        (case (case sem_undo s p of
                 Some u \<Rightarrow> Some (u, s)
               | None \<Rightarrow> (case semfup s of [] \<Rightarrow> None
                         | u # r \<Rightarrow> Some (u, s\<lparr>semfup := r, sem_undo := (sem_undo s)(p \<mapsto> u)\<rparr>))) of
           None \<Rightarrow> (Some ENOSPC, s)
         | Some (u, s1) \<Rightarrow>
             (case undo_add si val i num (semu s1 u) of
                Inl e \<Rightarrow> (Some e, s1)
              | Inr es \<Rightarrow> (None, undo_store u es s1))))"

text \<open>
  \<^verbatim>\<open>semunrm\<close> removes the entries of a set whose numbers lie in a range from every undo structure on
  the chain, and structures that become empty from the chain.
\<close>

fun undo_purge :: "int \<Rightarrow> int \<Rightarrow> int \<Rightarrow> undo list \<Rightarrow> undo list" where
  "undo_purge i low high [] = []"
| "undo_purge i low high (e # r) =
     (if i < un_id e then e # r
      else if un_id e < i \<or> un_num e < low then e # undo_purge i low high r
      else if high < un_num e then e # r
      else undo_purge i low high r)"

definition semunrm :: "int \<Rightarrow> nat \<Rightarrow> nat \<Rightarrow> semsys \<Rightarrow> semsys" where
  "semunrm i low high s =
     (let f = (\<lambda>u. undo_purge i (int low) (int high) (semu s u)) in
      s\<lparr>semu := (\<lambda>u. if u \<in> set (semunp s) then f u else semu s u),
        semunp := filter (\<lambda>u. f u \<noteq> []) (semunp s)\<rparr>)"

section \<open>Operations\<close>

definition semconv :: "seminfo \<Rightarrow> int \<Rightarrow> semsys \<Rightarrow> nat option" where
  "semconv si i s =
     (if i < 0 then None
      else let k = nat i mod semmni si; p = sem_perm (sema s ! k) in
        if \<not> ipc_allocated p \<or> nat i div semmni si \<noteq> unat (ipc_seq p) then None else Some k)"

definition upd_set :: "nat \<Rightarrow> (semid_ds \<Rightarrow> semid_ds) \<Rightarrow> semsys \<Rightarrow> semsys" where
  "upd_set k f s = s\<lparr>sema := (sema s)[k := f (sema s ! k)]\<rparr>"

text \<open>\<^verbatim>\<open>semundo\<close>, on the operations done, the last one first; its errors go to \<^verbatim>\<open>u.u_error\<close>.\<close>

fun semundo :: "seminfo \<Rightarrow> nat \<Rightarrow> int \<Rightarrow> nat \<Rightarrow> sembuf list \<Rightarrow> semsys \<Rightarrow> errno option \<times> semsys" where
  "semundo si p i base [] s = (None, s)"
| "semundo si p i base (oper # r) s =
     (if sem_op oper = 0 then semundo si p i base r s
      else let s1 = upd_sem (base + sem_num oper) (\<lambda>q. q\<lparr>semval := semval q - word_of_int (sem_op oper)\<rparr>) s;
               (e, s2) = (if sem_flg oper AND SEM_UNDO \<noteq> 0
                          then semaoe si p (- sem_op oper) i (sem_num oper) s1 else (None, s1));
               (e', s3) = semundo si p i base r s2 in
           (if e' = None then e else e', s3))"

text \<open>
  The operations of \<^verbatim>\<open>semop\<close> from the label \<^verbatim>\<open>check\<close> on, \<open>done\<close> being the ones done, last first. The
  second component of the result is \<^verbatim>\<open>u.u_error\<close> at a sleep.
\<close>

fun semop_loop :: "seminfo \<Rightarrow> nat \<Rightarrow> int \<Rightarrow> nat \<Rightarrow> sembuf list \<Rightarrow> sembuf list \<Rightarrow> semsys
    \<Rightarrow> semchan outcome \<times> errno option \<times> semsys" where
  "semop_loop si p i base done [] s = (Done 0, None, s)"
| "semop_loop si p i base done (oper # r) s =
     (let k = base + sem_num oper; v = uint (semval (semarr s k)); n = sem_op oper;
          fail = (\<lambda>e s. let (e', s') = semundo si p i base done s in
                        (Err (case e' of None \<Rightarrow> e | Some x \<Rightarrow> x), None, s'));
          add = upd_sem k (\<lambda>q. q\<lparr>semval := semval q + word_of_int n\<rparr>);
          aoe = (\<lambda>s. if sem_flg oper AND SEM_UNDO \<noteq> 0 then semaoe si p n i (sem_num oper) s else (None, s)) in
      if 0 < n then
        (if n + v > semvmx si then fail ERANGE s
         else case aoe s of
           (Some e, s1) \<Rightarrow> fail e s1
         | (None, s1) \<Rightarrow>
             let s2 = wake_ncnt k (add s1);
                 s3 = (if semval (semarr s2 k) = 0 then wake_zcnt k s2 else s2) in
             semop_loop si p i base (oper # done) r s3)
      else if n < 0 then
        (if - n \<le> v then
           (case aoe s of
              (Some e, s1) \<Rightarrow> fail e s1
            | (None, s1) \<Rightarrow>
                let s2 = add s1;
                    s3 = (if semval (semarr s2 k) = 0 then wake_zcnt k s2 else s2) in
                semop_loop si p i base (oper # done) r s3)
         else
           let (e, s1) = semundo si p i base done s in
           if sem_flg oper AND SEM_NOWAIT \<noteq> 0 then (Err EAGAIN, None, s1)
           else (Sleep (NcntChan k), e, upd_sem k (\<lambda>q. q\<lparr>semncnt := semncnt q + 1\<rparr>) s1))
      else if v \<noteq> 0 then
        (let (e, s1) = semundo si p i base done s in
         if sem_flg oper AND SEM_NOWAIT \<noteq> 0 then (Err EAGAIN, None, s1)
         else (Sleep (ZcntChan k), e, upd_sem k (\<lambda>q. q\<lparr>semzcnt := semzcnt q + 1\<rparr>) s1))
      else semop_loop si p i base (oper # done) r s)"

text \<open>
  The end of a successful call: the process number and the time are stored. \<open>p\<close> is the slot of
  the process, \<open>ops\<close> the operations read from the user (\<open>None\<close> if that faults).
\<close>

definition semop_finish :: "caller \<Rightarrow> nat \<Rightarrow> sembuf list \<Rightarrow> semchan outcome \<times> errno option \<times> semsys
    \<Rightarrow> semchan outcome \<times> errno option \<times> semsys" where
  "semop_finish c k ops r =
     (case r of (Done v, e, s) \<Rightarrow>
        (Done v, e, upd_set k (\<lambda>sp. sp\<lparr>sem_otime := ca_time c\<rparr>)
          (fold (\<lambda>oper. upd_sem (sem_base (sema s ! k) + sem_num oper) (\<lambda>q. q\<lparr>sempid := ca_pid c\<rparr>)) ops s))
      | _ \<Rightarrow> r)"

fun semop_verify :: "caller \<Rightarrow> semid_ds \<Rightarrow> sembuf list \<Rightarrow> errno option" where
  "semop_verify c sp [] = None"
| "semop_verify c sp (oper # r) =
     (case ipcaccess c (sem_perm sp) (if sem_op oper \<noteq> 0 then SEM_A else SEM_R) of
        Some e \<Rightarrow> Some e
      | None \<Rightarrow> if sem_nsems sp \<le> sem_num oper then Some EFBIG else semop_verify c sp r)"

definition semop :: "seminfo \<Rightarrow> caller \<Rightarrow> nat \<Rightarrow> int \<Rightarrow> nat \<Rightarrow> sembuf list option \<Rightarrow> semsys
    \<Rightarrow> semchan outcome \<times> errno option \<times> semsys" where
  "semop si c p i nsops ops s =
     (case semconv si i s of
        None \<Rightarrow> (Err EINVAL, None, s)
      | Some k \<Rightarrow>
          if semopm si < nsops then (Err E2BIG, None, s)
          else case ops of
            None \<Rightarrow> (Err EFAULT, None, s)
          | Some l \<Rightarrow>
              (case semop_verify c (sema s ! k) l of
                 Some e \<Rightarrow> (Err e, None, s)
               | None \<Rightarrow> semop_finish c k l (semop_loop si p i (sem_base (sema s ! k)) [] l s)))"

text \<open>
  After a sleep on \<open>ch\<close>, with \<open>ue\<close> the error pending since before. The index of the set is that of
  the identifier.
\<close>

definition semop_resume :: "seminfo \<Rightarrow> caller \<Rightarrow> nat \<Rightarrow> int \<Rightarrow> sembuf list option \<Rightarrow> bool \<Rightarrow> semchan \<Rightarrow> errno option
    \<Rightarrow> semsys \<Rightarrow> semchan outcome \<times> errno option \<times> semsys" where
  "semop_resume si c p i ops intr ch ue s =
     (if intr then
        (Err EINTR, None,
         (case ch of
            NcntChan k \<Rightarrow>
              (if unat (semncnt (semarr s k)) \<le> 1
               then sem_wakeup (NcntChan k) (upd_sem k (\<lambda>q. q\<lparr>semncnt := 0\<rparr>) s)
               else upd_sem k (\<lambda>q. q\<lparr>semncnt := semncnt q - 1\<rparr>) s)
          | ZcntChan k \<Rightarrow>
              (if unat (semzcnt (semarr s k)) \<le> 1
               then sem_wakeup (ZcntChan k) (upd_sem k (\<lambda>q. q\<lparr>semzcnt := 0\<rparr>) s)
               else upd_sem k (\<lambda>q. q\<lparr>semzcnt := semzcnt q - 1\<rparr>) s)))
      else case semconv si i s of
        None \<Rightarrow> (Err EIDRM, None, s)
      | Some k \<Rightarrow>
          (case ue of
             Some e \<Rightarrow> (Err e, None, s)
           | None \<Rightarrow>
               (case ops of
                  None \<Rightarrow> (Err EFAULT, None, s)
                | Some l \<Rightarrow> semop_finish c k l (semop_loop si p i (sem_base (sema s ! k)) [] l s))))"

text \<open>\<^verbatim>\<open>semexit\<close>: the adjustments of a process that exits, the last entry first.\<close>

fun semexit_apply :: "seminfo \<Rightarrow> undo list \<Rightarrow> semsys \<Rightarrow> semsys" where
  "semexit_apply si [] s = s"
| "semexit_apply si (e # r) s =
     (case semconv si (un_id e) s of
        None \<Rightarrow> semexit_apply si r s
      | Some j \<Rightarrow>
          let k = nat (int (sem_base (sema s ! j)) + un_num e); v = uint (semval (semarr s k)) + un_aoe e in
          if v < 0 \<or> v > semvmx si then semexit_apply si r s
          else let s1 = upd_sem k (\<lambda>q. q\<lparr>semval := word_of_int v\<rparr>) s;
                   s2 = (if v = 0 then wake_zcnt k s1 else s1);
                   s3 = (if 0 < un_aoe e then wake_ncnt k s2 else s2) in
               semexit_apply si r s3)"

definition semexit :: "seminfo \<Rightarrow> nat \<Rightarrow> semsys \<Rightarrow> semsys" where
  "semexit si p s =
     (case sem_undo s p of
        None \<Rightarrow> s
      | Some u \<Rightarrow>
          let s1 = (if semu s u = [] then s
                    else (let s0 = semexit_apply si (rev (semu s u)) s in
                          s0\<lparr>semu := (semu s0)(u := []), semunp := remove1 u (semunp s0)\<rparr>)) in
          s1\<lparr>semfup := u # semfup s1, sem_undo := (sem_undo s1)(p := None)\<rparr>)"

definition semget :: "seminfo \<Rightarrow> caller \<Rightarrow> int \<Rightarrow> int \<Rightarrow> u32 \<Rightarrow> semsys \<Rightarrow> semchan outcome \<times> semsys" where
  "semget si c key nsems flg s =
     (case ipcget c key flg (map sem_perm (sema s)) of
        Inl e \<Rightarrow> (Err e, s)
      | Inr (k, new, ps) \<Rightarrow>
          let s1 = upd_set k (\<lambda>sp. sp\<lparr>sem_perm := ps ! k\<rparr>) s;
              unalloc = upd_set k (\<lambda>sp. sp\<lparr>sem_perm := (sem_perm sp)\<lparr>ipc_mode := 0\<rparr>\<rparr>);
              rval = Done (uint (ipc_seq (ps ! k)) * int (semmni si) + int k) in
          if new then
            (if nsems \<le> 0 \<or> int (semmsl si) < nsems then (Err EINVAL, unalloc s1)
             else case malloc (semmap s1) (word_of_int nsems) of (a, m) \<Rightarrow>
               if a = 0 then (Err ENOSPC, unalloc (s1\<lparr>semmap := m\<rparr>))
               else (rval, upd_set k (\<lambda>sp. sp\<lparr>sem_base := unat a - 1, sem_nsems := nat nsems,
                       sem_otime := 0, sem_ctime := ca_time c\<rparr>) (s1\<lparr>semmap := m\<rparr>)))
          else if nsems \<noteq> 0 \<and> int (sem_nsems (sema s ! k)) < nsems then (Err EINVAL, s1)
          else (rval, s1))"

text \<open>\<^verbatim>\<open>semctl\<close>. \<open>reset\<close> is what \<^verbatim>\<open>IPC_RMID\<close> does to each semaphore of the set.\<close>

definition sem_reset :: "nat \<Rightarrow> semsys \<Rightarrow> semsys" where
  "sem_reset k s = wake_zcnt k (wake_ncnt k (upd_sem k (\<lambda>q. q\<lparr>semval := 0, sempid := 0\<rparr>) s))"

definition sem_rmid :: "seminfo \<Rightarrow> int \<Rightarrow> nat \<Rightarrow> semsys \<Rightarrow> semsys" where
  "sem_rmid si i k s =
     (let sp = sema s ! k;
        s1 = semunrm i 0 (sem_nsems sp) s;
        s2 = fold (\<lambda>j. sem_reset (sem_base sp + j)) [0..<sem_nsems sp] s1;
        s3 = s2\<lparr>semmap := snd (mfree (semmap s2) (of_nat (sem_nsems sp)) (of_nat (sem_base sp + 1)))\<rparr> in
      upd_set k (\<lambda>sp. sp\<lparr>sem_perm := (sem_perm sp)\<lparr>ipc_mode := 0, ipc_seq :=
        (if sint (word_of_int (i + int (semmni si)) :: u32) < 0 then 0 else ipc_seq (sem_perm sp) + 1)\<rparr>\<rparr>) s3)"

text \<open>Storing a value: waiters for more are woken by a nonzero value, waiters for zero by zero.\<close>

definition sem_set :: "u16 \<Rightarrow> u16 \<Rightarrow> nat \<Rightarrow> semsys \<Rightarrow> semsys" where
  "sem_set pid v k s =
     (let s1 = upd_sem k (\<lambda>q. q\<lparr>semval := v\<rparr>) s; s2 = (if v \<noteq> 0 then wake_ncnt k s1 else wake_zcnt k s1) in
      upd_sem k (\<lambda>q. q\<lparr>sempid := pid\<rparr>) s2)"

datatype semcmd =
    Sem_rmid | Sem_set_perm "semid_ds option" | Sem_stat bool
  | Sem_getncnt | Sem_getpid | Sem_getval | Sem_getall nat | Sem_getzcnt
  | Sem_setval u32 | Sem_setall "u16 list option" | Sem_other

datatype semdata = No_data | Set_data semid_ds | Val_data "u16 list"

definition semctl_get :: "caller \<Rightarrow> semid_ds \<Rightarrow> nat \<Rightarrow> (sem \<Rightarrow> int) \<Rightarrow> semsys \<Rightarrow> semchan outcome \<times> semdata \<times> semsys" where
  "semctl_get c sp num f s =
     (case ipcaccess c (sem_perm sp) SEM_R of
        Some e \<Rightarrow> (Err e, No_data, s)
      | None \<Rightarrow> if sem_nsems sp \<le> num then (Err EINVAL, No_data, s)
                else (Done (f (semarr s (sem_base sp + num))), No_data, s))"

text \<open>
  The command carries what is read from the user: the structure of \<^verbatim>\<open>IPC_SET\<close> (\<open>None\<close> for a fault),
  whether \<^verbatim>\<open>copyout\<close> of \<^verbatim>\<open>IPC_STAT\<close> succeeds, the number of values \<^verbatim>\<open>GETALL\<close> can store, the value
  of \<^verbatim>\<open>SETVAL\<close> (already shifted down for calls by trap 13), and the array of \<^verbatim>\<open>SETALL\<close>. The
  comparison in \<^verbatim>\<open>SETALL\<close> is between \<^verbatim>\<open>short\<close> and \<^verbatim>\<open>ushort\<close>, so it is signed.
\<close>

definition semctl :: "seminfo \<Rightarrow> caller \<Rightarrow> int \<Rightarrow> nat \<Rightarrow> semcmd \<Rightarrow> semsys \<Rightarrow> semchan outcome \<times> semdata \<times> semsys" where
  "semctl si c i num cmd s =
     (case semconv si i s of
        None \<Rightarrow> (Err EINVAL, No_data, s)
      | Some k \<Rightarrow>
          let sp = sema s ! k in
          (case cmd of
             Sem_rmid \<Rightarrow> if \<not> ipc_owner c (sem_perm sp) then (Err EPERM, No_data, s)
                         else (Done 0, No_data, sem_rmid si i k s)
           | Sem_set_perm buf \<Rightarrow>
               if \<not> ipc_owner c (sem_perm sp) then (Err EPERM, No_data, s)
               else (case buf of None \<Rightarrow> (Err EFAULT, No_data, s)
                 | Some ds \<Rightarrow> (Done 0, No_data, upd_set k (\<lambda>sp. sp\<lparr>sem_perm := (sem_perm sp)\<lparr>
                       ipc_uid := ipc_uid (sem_perm ds), ipc_gid := ipc_gid (sem_perm ds),
                       ipc_mode := ipc_mode (sem_perm ds) AND 0x1FF OR IPC_ALLOC\<rparr>, sem_ctime := ca_time c\<rparr>) s))
           | Sem_stat ok \<Rightarrow>
               (case ipcaccess c (sem_perm sp) SEM_R of
                  Some e \<Rightarrow> (Err e, No_data, s)
                | None \<Rightarrow> if ok then (Done 0, Set_data sp, s) else (Err EFAULT, No_data, s))
           | Sem_getncnt \<Rightarrow> semctl_get c sp num (\<lambda>q. uint (semncnt q)) s
           | Sem_getpid \<Rightarrow> semctl_get c sp num (\<lambda>q. sint (sempid q)) s
           | Sem_getval \<Rightarrow> semctl_get c sp num (\<lambda>q. uint (semval q)) s
           | Sem_getzcnt \<Rightarrow> semctl_get c sp num (\<lambda>q. uint (semzcnt q)) s
           | Sem_getall room \<Rightarrow>
               (case ipcaccess c (sem_perm sp) SEM_R of
                  Some e \<Rightarrow> (Err e, No_data, s)
                | None \<Rightarrow>
                    let vs = map (\<lambda>j. semval (semarr s (sem_base sp + j))) [0..<sem_nsems sp] in
                    if room < sem_nsems sp then (Err EFAULT, Val_data (take room vs), s) else (Done 0, Val_data vs, s))
           | Sem_setval a \<Rightarrow>
               (case ipcaccess c (sem_perm sp) SEM_A of
                  Some e \<Rightarrow> (Err e, No_data, s)
                | None \<Rightarrow> if sem_nsems sp \<le> num then (Err EINVAL, No_data, s)
                          else if semvmx si < uint a then (Err ERANGE, No_data, s)
                          else (Done 0, No_data, semunrm i num num (sem_set (ca_pid c) (ucast a) (sem_base sp + num) s)))
           | Sem_setall arr \<Rightarrow>
               (case ipcaccess c (sem_perm sp) SEM_A of
                  Some e \<Rightarrow> (Err e, No_data, s)
                | None \<Rightarrow>
                    (case arr of None \<Rightarrow> (Err EFAULT, No_data, s)
                     | Some vs \<Rightarrow>
                         if \<exists>v \<in> set (take (sem_nsems sp) vs). uint (word_of_int (semvmx si) :: u16) < sint v
                         then (Err ERANGE, No_data, s)
                         else (Done 0, No_data,
                           fold (\<lambda>(j, v). sem_set (ca_pid c) v (sem_base sp + j))
                             (zip [0..<sem_nsems sp] vs) (semunrm i 0 (sem_nsems sp) s))))
           | Sem_other \<Rightarrow> (Err EINVAL, No_data, s)))"

definition seminit :: "seminfo \<Rightarrow> semsys" where
  "seminit si =
     \<lparr>sema = replicate (semmni si) \<lparr>sem_perm = \<lparr>ipc_uid = 0, ipc_gid = 0, ipc_cuid = 0, ipc_cgid = 0,
        ipc_mode = 0, ipc_seq = 0, ipc_key = 0\<rparr>, sem_base = 0, sem_nsems = 0, sem_otime = 0, sem_ctime = 0\<rparr>,
      semarr = (\<lambda>_. \<lparr>semval = 0, sempid = 0, semncnt = 0, semzcnt = 0\<rparr>),
      semmap = snd (mfree (mapinit (semmapsz si)) (of_nat (semmns si)) 1),
      sem_undo = (\<lambda>_. None), semu = (\<lambda>_. []), semunp = [], semfup = [0..<max 1 (semmnu si)], semwoken = []\<rparr>"

section \<open>Undo lists\<close>

text \<open>
  The list of a process: strictly ordered by set and number, adjustments nonzero and within bounds.
  \<open>uval\<close> is the adjustment recorded for a semaphore.
\<close>

abbreviation ukey :: "undo \<Rightarrow> int \<times> int" where
  "ukey e \<equiv> (un_id e, un_num e)"

definition undo_list_ok :: "seminfo \<Rightarrow> undo list \<Rightarrow> bool" where
  "undo_list_ok si es \<longleftrightarrow> sorted_wrt (<) (map ukey es) \<and> length es \<le> semume si
     \<and> (\<forall>e \<in> set es. un_aoe e \<noteq> 0 \<and> \<bar>un_aoe e\<bar> \<le> semaem si)"

definition uval :: "undo list \<Rightarrow> int \<Rightarrow> int \<Rightarrow> int" where
  "uval es i n = (\<Sum>e\<leftarrow>es. if un_id e = i \<and> un_num e = n then un_aoe e else 0)"

lemma uval_simps [simp]:
  "uval [] i n = 0" "uval (e # es) i n = (if un_id e = i \<and> un_num e = n then un_aoe e else 0) + uval es i n"
  "uval (es @ fs) i n = uval es i n + uval fs i n"
  by (simp_all add: uval_def)

lemma undo_seek_append:
  assumes "\<forall>e \<in> set pre. ukey e < (i, n)"
  shows "undo_seek i n (pre @ post) = (let (k, found) = undo_seek i n post in (length pre + k, found))"
  using assms by (induction pre) (auto simp: Let_def less_prod_def split: prod.splits)

lemma undo_seek_head:
  assumes "post = [] \<or> (i, n) \<le> ukey (hd post)"
  shows "undo_seek i n post = (0, post \<noteq> [] \<and> ukey (hd post) = (i, n))"
  using assms by (cases post) (auto simp: less_eq_prod_def)

lemma undo_split:
  assumes "sorted_wrt (<) (map ukey es)"
  obtains (absent) pre post where "es = pre @ post" "\<forall>e \<in> set pre. ukey e < (i, n)" "\<forall>e \<in> set post. (i, n) < ukey e"
      "undo_seek i n es = (length pre, False)"
  | (present) pre e post where "es = pre @ e # post" "ukey e = (i, n)" "\<forall>e \<in> set pre. ukey e < (i, n)"
      "\<forall>e \<in> set post. (i, n) < ukey e" "undo_seek i n es = (length pre, True)"
proof -
  define pre post where "pre = takeWhile (\<lambda>e. ukey e < (i, n)) es" and "post = dropWhile (\<lambda>e. ukey e < (i, n)) es"
  have es: "es = pre @ post" by (simp add: pre_def post_def)
  have pre: "\<forall>e \<in> set pre. ukey e < (i, n)" unfolding pre_def by (auto dest: set_takeWhileD)
  have hd: "post = [] \<or> (i, n) \<le> ukey (hd post)"
  proof (cases "post = []")
    case False
    then have "\<not> ukey (hd post) < (i, n)" unfolding post_def by (rule hd_dropWhile)
    then show ?thesis using leI by blast
  qed blast
  have srt: "sorted_wrt (<) (map ukey post)" using assms unfolding es by (simp add: sorted_wrt_append)
  note seek = undo_seek_append [OF pre, of post] undo_seek_head [OF hd]
  show ?thesis
  proof (cases post)
    case Nil
    then show ?thesis using absent [of pre post] es pre seek by simp
  next
    case (Cons e r)
    have tail: "\<forall>x \<in> set r. ukey e < ukey x" using srt by (simp add: Cons)
    show ?thesis
    proof (cases "ukey e = (i, n)")
      case True
      then show ?thesis using present [of pre e r] es pre seek tail Cons by simp
    next
      case False
      then have "(i, n) < ukey e" using hd Cons by auto
      then have "\<forall>x \<in> set post. (i, n) < ukey x" using tail Cons by (metis less_trans set_ConsD)
      then show ?thesis using absent [of pre post] es pre seek Cons False by simp
    qed
  qed
qed

definition sem_cfg :: "seminfo \<Rightarrow> bool" where
  "sem_cfg si \<longleftrightarrow> 0 < semmni si \<and> 0 \<le> semaem si \<and> semaem si \<le> 16384 \<and> 0 < semvmx si \<and> semvmx si \<le> 32767"

lemma uval_absent: "\<forall>e \<in> set es. ukey e \<noteq> (i, n) \<Longrightarrow> uval es i n = 0"
  by (induction es) auto

text \<open>Recording an adjustment, and recording the opposite one afterwards.\<close>

lemma undo_add_spec:
  assumes cfg: "sem_cfg si" and ok: "undo_list_ok si es" and v: "v \<noteq> 0" "\<bar>v\<bar> \<le> semaem si"
    and key: "0 \<le> i" "i < 32768" "0 \<le> n" "n < 32768" and add: "undo_add si v i n es = Inr es'"
  shows "undo_list_ok si es'" "undo_add si (- v) i n es' = Inr es"
    "uval es' j m = (if j = i \<and> m = n then uval es i n - v else uval es j m)"
proof -
  have srt: "sorted_wrt (<) (map ukey es)" using ok by (simp add: undo_list_ok_def)
  have sh: "to_short v = v" "to_short (- v) = - v" "to_short n = n" "to_short i = i"
    using cfg [unfolded sem_cfg_def] v(2) key by - (rule to_short_id; linarith)+
  show "undo_list_ok si es'" "undo_add si (- v) i n es' = Inr es"
    "uval es' j m = (if j = i \<and> m = n then uval es i n - v else uval es j m)"
    using srt
  proof (atomize (full), cases rule: undo_split [of es i n])
    case (absent pre post)
    define new where "new = \<lparr>un_aoe = - v, un_num = n, un_id = i\<rparr>"
    have es': "es' = pre @ new # post" and len: "length es < semume si"
      using add absent(1,4) by (auto simp: undo_add_def sh new_def split: if_splits)
    have seek: "undo_seek i n es' = (length pre, True)"
      using undo_seek_append [OF absent(2), of "new # post"] undo_seek_head [of "new # post" i n]
      by (simp add: es' new_def)
    have "undo_list_ok si es'"
      using ok absent(1-3) v len by (auto simp: undo_list_ok_def es' new_def sorted_wrt_append)
    moreover have "undo_add si (- v) i n es' = Inr es"
      using cfg seek by (simp add: undo_add_def es' nth_append new_def sem_cfg_def absent(1))
    moreover have "uval es i n = 0" using absent(1-3) by (intro uval_absent) auto
    then have "uval es' j m = (if j = i \<and> m = n then uval es i n - v else uval es j m)"
      by (auto simp: es' new_def absent(1))
    ultimately show "undo_list_ok si es' \<and> undo_add si (- v) i n es' = Inr es
      \<and> uval es' j m = (if j = i \<and> m = n then uval es i n - v else uval es j m)" by blast
  next
    case (present pre e post)
    have e: "un_aoe e \<noteq> 0" "\<bar>un_aoe e\<bar> \<le> semaem si" using ok by (simp_all add: undo_list_ok_def present(1))
    have u0: "uval pre i n = 0" "uval post i n = 0" using present(3,4) by (auto intro!: uval_absent)
    define a where "a = to_short (un_aoe e - v)"
    have rng: "\<bar>a\<bar> \<le> semaem si" and es': "es' = (if a = 0 then pre @ post else pre @ e\<lparr>un_aoe := a\<rparr> # post)"
      using add present(1,5) by (auto simp: undo_add_def Let_def nth_append list_update_append a_def abs_le_iff split: if_splits)
    have a: "a = un_aoe e - v"
    proof (cases "un_aoe e - v = 32768")
      case True
      then have "a = - 32768" unfolding a_def True by (simp add: to_short_def)
      with rng cfg show ?thesis by (simp add: sem_cfg_def)
    next
      case False
      then show ?thesis unfolding a_def using e(2) v(2) cfg by (intro to_short_id) (auto simp: sem_cfg_def abs_le_iff)
    qed
    show "undo_list_ok si es' \<and> undo_add si (- v) i n es' = Inr es
      \<and> uval es' j m = (if j = i \<and> m = n then uval es i n - v else uval es j m)"
    proof (cases "a = 0")
      case True
      then have es': "es' = pre @ post" and ev: "un_aoe e = v" using es' a by simp_all
      have "e = \<lparr>un_aoe = v, un_num = n, un_id = i\<rparr>" using present(2) ev by (cases e) simp
      moreover have "undo_seek i n es' = (length pre, False)"
        using undo_seek_append [OF present(3), of post] undo_seek_head [of post i n] present(4)
        by (cases post) (auto simp: es' less_imp_le)
      moreover have "length es' < semume si" using ok by (simp add: undo_list_ok_def present(1) es')
      ultimately have "undo_add si (- v) i n es' = Inr es"
        by (simp add: undo_add_def es' sh present(1))
      moreover have "undo_list_ok si es'" using ok by (auto simp: undo_list_ok_def present(1) es' sorted_wrt_append)
      moreover have "uval es' j m = (if j = i \<and> m = n then uval es i n - v else uval es j m)"
        using present(2) u0 ev by (auto simp: es' present(1))
      ultimately show ?thesis by blast
    next
      case False
      then have es': "es' = pre @ e\<lparr>un_aoe := a\<rparr> # post" using es' by simp
      have seek: "undo_seek i n es' = (length pre, True)"
        using undo_seek_append [OF present(3), of "e\<lparr>un_aoe := a\<rparr> # post"] undo_seek_head [of "e\<lparr>un_aoe := a\<rparr> # post" i n] present(2)
        by (simp add: es')
      have "to_short (a - - v) = un_aoe e" using e(2) cfg by (subst to_short_id) (auto simp: a sem_cfg_def abs_le_iff)
      then have "undo_add si (- v) i n es' = Inr es"
        using seek e by (auto simp: undo_add_def es' nth_append present(1) abs_le_iff)
      moreover have "undo_list_ok si es'"
        using ok False rng by (auto simp: undo_list_ok_def present(1) es' sorted_wrt_append)
      moreover have "uval es' j m = (if j = i \<and> m = n then uval es i n - v else uval es j m)"
        using present(2) u0 a by (auto simp: es' present(1))
      ultimately show ?thesis by blast
    qed
  qed
qed

section \<open>The undo structures\<close>

text \<open>
  No two processes share a structure, those on the free list are empty and owned by none, and the
  chain holds exactly the structures with entries.
\<close>

definition proc_undo :: "semsys \<Rightarrow> nat \<Rightarrow> undo list" where
  "proc_undo s p = (case sem_undo s p of None \<Rightarrow> [] | Some u \<Rightarrow> semu s u)"

definition sem_tables :: "seminfo \<Rightarrow> semsys \<Rightarrow> bool" where
  "sem_tables si s \<longleftrightarrow> distinct (semfup s) \<and> (\<forall>u \<in> set (semfup s). semu s u = [])
     \<and> (\<forall>p u. sem_undo s p = Some u \<longrightarrow> u \<notin> set (semfup s))
     \<and> (\<forall>p q u. sem_undo s p = Some u \<longrightarrow> sem_undo s q = Some u \<longrightarrow> p = q)
     \<and> (\<forall>u. undo_list_ok si (semu s u))
     \<and> distinct (semunp s) \<and> set (semunp s) = {u. semu s u \<noteq> []}"

lemma sem_tablesI:
  assumes "distinct (semfup s)" "\<And>u. u \<in> set (semfup s) \<Longrightarrow> semu s u = []"
    "\<And>p u. sem_undo s p = Some u \<Longrightarrow> u \<notin> set (semfup s)"
    "\<And>p q u. sem_undo s p = Some u \<Longrightarrow> sem_undo s q = Some u \<Longrightarrow> p = q"
    "\<And>u. undo_list_ok si (semu s u)" "distinct (semunp s)" "set (semunp s) = {u. semu s u \<noteq> []}"
  shows "sem_tables si s"
  unfolding sem_tables_def using assms by simp

lemma sem_tablesD:
  assumes "sem_tables si s"
  shows "distinct (semfup s)" "u \<in> set (semfup s) \<Longrightarrow> semu s u = []"
    "sem_undo s p = Some u \<Longrightarrow> u \<notin> set (semfup s)"
    "sem_undo s p = Some u \<Longrightarrow> sem_undo s q = Some u \<Longrightarrow> p = q"
    "undo_list_ok si (semu s u)" "distinct (semunp s)" "set (semunp s) = {u. semu s u \<noteq> []}"
  using assms unfolding sem_tables_def by blast+

lemma sem_tables_cong:
  assumes "sem_tables si s" "semfup s' = semfup s" "sem_undo s' = sem_undo s" "semu s' = semu s" "semunp s' = semunp s"
  shows "sem_tables si s'"
  using assms by (simp add: sem_tables_def)

lemma undo_store_tables:
  assumes "sem_tables si s" "sem_undo s p = Some u" "undo_list_ok si es" "semu s u \<noteq> [] \<or> es \<noteq> []"
  shows "sem_tables si (undo_store u es s)"
proof (rule sem_tablesI)
  note D = sem_tablesD [OF assms(1)]
  show "distinct (semfup (undo_store u es s))" using D(1) by (simp add: undo_store_def)
  show "semu (undo_store u es s) u' = []" if "u' \<in> set (semfup (undo_store u es s))" for u'
    using D(2) [of u'] D(3) [OF assms(2)] that by (auto simp: undo_store_def)
  show "u' \<notin> set (semfup (undo_store u es s))" if "sem_undo (undo_store u es s) q = Some u'" for q u'
    using D(3) [of q u'] that by (simp add: undo_store_def)
  show "q = q'" if "sem_undo (undo_store u es s) q = Some u'" "sem_undo (undo_store u es s) q' = Some u'" for q q' u'
    using D(4) [of q u' q'] that by (simp add: undo_store_def)
  show "undo_list_ok si (semu (undo_store u es s) u')" for u'
    using D(5) [of u'] assms(3) by (simp add: undo_store_def)
  show "distinct (semunp (undo_store u es s))" using D(6,7) by (simp add: undo_store_def)
  show "set (semunp (undo_store u es s)) = {u'. semu (undo_store u es s) u' \<noteq> []}"
    using D(6,7) assms(4) by (auto simp: undo_store_def)
qed

text \<open>What does not concern the undo structures.\<close>

definition sem_same :: "semsys \<Rightarrow> semsys \<Rightarrow> bool" where
  "sem_same s s' \<longleftrightarrow> semarr s' = semarr s \<and> sema s' = sema s \<and> semmap s' = semmap s \<and> semwoken s' = semwoken s"

lemma semaoe_spec:
  assumes cfg: "sem_cfg si" and tab: "sem_tables si s" and key: "0 \<le> i" "i < 32768" "n < 32768"
    and v: "- 32768 \<le> v" "v < 32768" and run: "semaoe si p v i n s = (e, s')"
  shows "sem_tables si s'" "sem_same s s'" "q \<noteq> p \<Longrightarrow> proc_undo s' q = proc_undo s q"
    "sem_undo s q \<noteq> None \<Longrightarrow> sem_undo s' q = sem_undo s q"
    "e \<noteq> None \<Longrightarrow> proc_undo s' p = proc_undo s p"
    "e = None \<Longrightarrow> v \<noteq> 0 \<Longrightarrow> \<bar>v\<bar> \<le> semaem si \<and> sem_undo s' p \<noteq> None
       \<and> undo_add si v i (int n) (proc_undo s p) = Inr (proc_undo s' p)"
    "v = 0 \<Longrightarrow> e = None \<and> s' = s"
proof -
  have sh: "to_short v = v" "to_short (int n) = int n" using v key by simp_all
  have "sem_tables si s' \<and> sem_same s s' \<and> (\<forall>q. q \<noteq> p \<longrightarrow> proc_undo s' q = proc_undo s q)
    \<and> (\<forall>q. sem_undo s q \<noteq> None \<longrightarrow> sem_undo s' q = sem_undo s q) \<and> (e \<noteq> None \<longrightarrow> proc_undo s' p = proc_undo s p)
    \<and> (e = None \<longrightarrow> v \<noteq> 0 \<longrightarrow> \<bar>v\<bar> \<le> semaem si \<and> sem_undo s' p \<noteq> None
       \<and> undo_add si v i (int n) (proc_undo s p) = Inr (proc_undo s' p)) \<and> (v = 0 \<longrightarrow> e = None \<and> s' = s)"
  proof (cases "v = 0 \<or> v > semaem si \<or> v < - semaem si")
    case True
    then have "s' = s \<and> (v = 0 \<longrightarrow> e = None) \<and> (v \<noteq> 0 \<longrightarrow> e \<noteq> None)" using run by (auto simp: semaoe_def sh split: if_splits)
    then show ?thesis using tab by (auto simp: sem_same_def)
  next
    case False
    then have v0: "v \<noteq> 0" "\<bar>v\<bar> \<le> semaem si" by auto
    define r where "r = (case sem_undo s p of
                 Some u \<Rightarrow> Some (u, s)
               | None \<Rightarrow> (case semfup s of [] \<Rightarrow> None
                         | u # r \<Rightarrow> Some (u, s\<lparr>semfup := r, sem_undo := (sem_undo s)(p \<mapsto> u)\<rparr>)))"
    have run': "(e, s') = (case r of None \<Rightarrow> (Some ENOSPC, s) | Some (u, s1) \<Rightarrow>
       (case undo_add si v i (int n) (semu s1 u) of Inl e \<Rightarrow> (Some e, s1) | Inr es \<Rightarrow> (None, undo_store u es s1)))"
      using run False v0 by (simp add: semaoe_def sh r_def)
    show ?thesis
    proof (cases r)
      case None
      with run' tab v0 show ?thesis by (simp add: sem_same_def)
    next
      case (Some us)
      then obtain u s1 where us: "r = Some (u, s1)" by (cases us) auto
      have s1c: "sem_tables si s1 \<and> sem_same s s1 \<and> sem_undo s1 p = Some u \<and> semu s1 = semu s
          \<and> (\<forall>q. proc_undo s1 q = proc_undo s q) \<and> (\<forall>q. sem_undo s q \<noteq> None \<longrightarrow> sem_undo s1 q = sem_undo s q)
          \<and> semu s1 u = proc_undo s p"
      proof (cases "sem_undo s p")
        case (Some u0)
        then show ?thesis using us tab by (simp add: r_def sem_same_def proc_undo_def)
      next
        case none: None
        then obtain fr where fr: "semfup s = u # fr" "s1 = s\<lparr>semfup := fr, sem_undo := (sem_undo s)(p \<mapsto> u)\<rparr>"
          using us by (auto simp: r_def split: list.splits)
        note D = sem_tablesD [OF tab]
        have "sem_tables si s1"
        proof (rule sem_tablesI)
          show "distinct (semfup s1)" using D(1) fr by simp
          show "semu s1 u' = []" if "u' \<in> set (semfup s1)" for u' using D(2) [of u'] fr that by simp
          show "u' \<notin> set (semfup s1)" if "sem_undo s1 q = Some u'" for q u'
            using D(1) D(3) [of q u'] fr that by (auto split: if_splits)
          show "q = q'" if "sem_undo s1 q = Some u'" "sem_undo s1 q' = Some u'" for q q' u'
            using D(3) [of q u'] D(3) [of q' u'] D(4) [of q u' q'] fr that by (auto split: if_splits)
          show "undo_list_ok si (semu s1 u')" for u' using D(5) fr by simp
          show "distinct (semunp s1)" "set (semunp s1) = {u. semu s1 u \<noteq> []}" using D(6,7) fr by simp_all
        qed
        moreover have "semu s u = []" using D(2) [of u] fr by simp
        ultimately show ?thesis using fr none by (auto simp: sem_same_def proc_undo_def split: option.split)
      qed
      then have s1: "sem_tables si s1" "sem_same s s1" "sem_undo s1 p = Some u" "semu s1 = semu s"
        "\<forall>q. proc_undo s1 q = proc_undo s q" "\<forall>q. sem_undo s q \<noteq> None \<longrightarrow> sem_undo s1 q = sem_undo s q"
        "semu s1 u = proc_undo s p" by blast+
      show ?thesis
      proof (cases "undo_add si v i (int n) (semu s1 u)")
        case (Inl x)
        with run' us have "e = Some x" "s' = s1" by simp_all
        with s1 v0 show ?thesis by simp
      next
        case (Inr es)
        with run' us have es: "e = None" "s' = undo_store u es s1" by simp_all
        have ok: "undo_list_ok si es" "undo_add si (- v) i (int n) es = Inr (semu s1 u)"
          using undo_add_spec [OF cfg _ v0 key(1,2) _ _ Inr] sem_tablesD(5) [OF s1(1)] key by simp_all
        have "semu s1 u \<noteq> [] \<or> es \<noteq> []"
        proof (rule ccontr)
          assume "\<not> (semu s1 u \<noteq> [] \<or> es \<noteq> [])"
          with Inr show False by (auto simp: undo_add_def split: if_splits)
        qed
        then have tab': "sem_tables si s'" unfolding es(2) by (rule undo_store_tables [OF s1(1,3) ok(1)])
        have "proc_undo s' q = proc_undo s1 q" if "q \<noteq> p" for q
          using that sem_tablesD(4) [OF s1(1) s1(3)] by (auto simp: es(2) proc_undo_def undo_store_def split: option.split)
        moreover have "proc_undo s' p = es" using s1(3) by (simp add: proc_undo_def es(2) undo_store_def)
        moreover have "sem_undo s' = sem_undo s1" "sem_same s1 s'" by (simp_all add: es(2) undo_store_def sem_same_def)
        ultimately show ?thesis using tab' s1 v0 Inr es(1) by (auto simp: sem_same_def)
      qed
    qed
  qed
  then show "sem_tables si s'" "sem_same s s'" "q \<noteq> p \<Longrightarrow> proc_undo s' q = proc_undo s q"
    "sem_undo s q \<noteq> None \<Longrightarrow> sem_undo s' q = sem_undo s q"
    "e \<noteq> None \<Longrightarrow> proc_undo s' p = proc_undo s p"
    "e = None \<Longrightarrow> v \<noteq> 0 \<Longrightarrow> \<bar>v\<bar> \<le> semaem si \<and> sem_undo s' p \<noteq> None
       \<and> undo_add si v i (int n) (proc_undo s p) = Inr (proc_undo s' p)"
    "v = 0 \<Longrightarrow> e = None \<and> s' = s" by blast+
qed

lemma semaoe_inverse:
  assumes cfg: "sem_cfg si" and key: "0 \<le> i" "i < 32768" "n < 32768" and v: "v \<noteq> 0" "\<bar>v\<bar> \<le> semaem si"
    and ok: "undo_list_ok si es" "undo_add si v i (int n) es = Inr (proc_undo s p)"
    and tab: "sem_tables si s" "sem_undo s p \<noteq> None"
  shows "\<exists>s'. semaoe si p (- v) i n s = (None, s') \<and> proc_undo s' p = es"
proof -
  have bound: "- 32768 \<le> - v" "- v < 32768" "to_short (- v) = - v" "to_short (int n) = int n"
    using v(2) cfg key by (simp_all add: sem_cfg_def abs_le_iff)
  from undo_add_spec(2) [OF cfg ok(1) v key(1,2) _ _ ok(2)] key have
    inv: "undo_add si (- v) i (int n) (proc_undo s p) = Inr es" by simp
  obtain u where u: "sem_undo s p = Some u" using tab(2) by blast
  have "semaoe si p (- v) i n s = (None, undo_store u es s)"
    using inv u v bound by (auto simp: semaoe_def proc_undo_def abs_le_iff)
  moreover have "proc_undo (undo_store u es s) p = es" using u by (simp add: proc_undo_def undo_store_def)
  ultimately show ?thesis by blast
qed

section \<open>Operations and their undoing\<close>

abbreviation sem_vals :: "semsys \<Rightarrow> nat \<Rightarrow> u16" where
  "sem_vals s k \<equiv> semval (semarr s k)"

lemma upd_sem_tables [simp]:
  "sem_tables si (upd_sem k f s) = sem_tables si s" "proc_undo (upd_sem k f s) = proc_undo s"
  "sem_undo (upd_sem k f s) = sem_undo s" "sema (upd_sem k f s) = sema s" "semmap (upd_sem k f s) = semmap s"
  "semarr (upd_sem k f s) = (semarr s)(k := f (semarr s k))"
  by (simp_all add: upd_sem_def sem_tables_def proc_undo_def fun_eq_iff split: option.split)

lemma sem_wakeup_tables [simp]:
  "sem_tables si (sem_wakeup c s) = sem_tables si s" "proc_undo (sem_wakeup c s) = proc_undo s"
  "sem_undo (sem_wakeup c s) = sem_undo s" "sema (sem_wakeup c s) = sema s" "semarr (sem_wakeup c s) = semarr s"
  "semmap (sem_wakeup c s) = semmap s"
  by (simp_all add: sem_wakeup_def sem_tables_def proc_undo_def fun_eq_iff split: option.split)

lemma wake_tables [simp]:
  "sem_tables si (wake_ncnt k s) = sem_tables si s" "proc_undo (wake_ncnt k s) = proc_undo s"
  "sem_undo (wake_ncnt k s) = sem_undo s" "sema (wake_ncnt k s) = sema s" "sem_vals (wake_ncnt k s) j = sem_vals s j"
  "sem_tables si (wake_zcnt k s) = sem_tables si s" "proc_undo (wake_zcnt k s) = proc_undo s"
  "sem_undo (wake_zcnt k s) = sem_undo s" "sema (wake_zcnt k s) = sema s" "sem_vals (wake_zcnt k s) j = sem_vals s j"
  by (simp_all add: wake_ncnt_def wake_zcnt_def)

text \<open>\<open>sem_agree p s t\<close>: \<open>s\<close> has the values and undo entries of \<open>t\<close>, in sound tables.\<close>

definition sem_agree :: "seminfo \<Rightarrow> nat \<Rightarrow> semsys \<Rightarrow> semsys \<Rightarrow> bool" where
  "sem_agree si p s t \<longleftrightarrow> sem_tables si s \<and> (\<forall>k. sem_vals s k = sem_vals t k) \<and> (\<forall>q. proc_undo s q = proc_undo t q)
     \<and> (sem_undo t p \<noteq> None \<longrightarrow> sem_undo s p \<noteq> None) \<and> sema s = sema t"

lemma sem_agree_refl: "sem_tables si s \<Longrightarrow> sem_agree si p s s"
  by (simp add: sem_agree_def)

lemma sem_agree_trans: "\<lbrakk>sem_agree si p s t; sem_agree si p t r\<rbrakk> \<Longrightarrow> sem_agree si p s r"
  by (simp add: sem_agree_def)

text \<open>One operation, done as \<^verbatim>\<open>semop\<close> does it, and the inverse step of \<^verbatim>\<open>semundo\<close>.\<close>

definition sem_step :: "seminfo \<Rightarrow> nat \<Rightarrow> int \<Rightarrow> nat \<Rightarrow> sembuf \<Rightarrow> semsys \<Rightarrow> semsys \<Rightarrow> bool" where
  "sem_step si p i base oper s s' \<longleftrightarrow> sem_tables si s' \<and> sema s' = sema s
     \<and> (\<forall>k. sem_vals s' k = (if k = base + sem_num oper then sem_vals s k + word_of_int (sem_op oper) else sem_vals s k))
     \<and> (\<forall>q. q \<noteq> p \<longrightarrow> proc_undo s' q = proc_undo s q) \<and> (sem_undo s p \<noteq> None \<longrightarrow> sem_undo s' p \<noteq> None)
     \<and> (if sem_flg oper AND SEM_UNDO \<noteq> 0 \<and> sem_op oper \<noteq> 0
        then \<bar>sem_op oper\<bar> \<le> semaem si \<and> sem_undo s' p \<noteq> None
          \<and> undo_add si (sem_op oper) i (int (sem_num oper)) (proc_undo s p) = Inr (proc_undo s' p)
        else proc_undo s' p = proc_undo s p)"

definition semundo_one :: "seminfo \<Rightarrow> nat \<Rightarrow> int \<Rightarrow> nat \<Rightarrow> sembuf \<Rightarrow> semsys \<Rightarrow> errno option \<times> semsys" where
  "semundo_one si p i base oper s =
     (let s1 = upd_sem (base + sem_num oper) (\<lambda>q. q\<lparr>semval := semval q - word_of_int (sem_op oper)\<rparr>) s in
      if sem_flg oper AND SEM_UNDO \<noteq> 0 then semaoe si p (- sem_op oper) i (sem_num oper) s1 else (None, s1))"

definition sembuf_ok :: "sembuf \<Rightarrow> bool" where
  "sembuf_ok oper \<longleftrightarrow> sem_num oper < 32768 \<and> - 32768 \<le> sem_op oper \<and> sem_op oper < 32768"

lemma semundo_one_inverse:
  assumes cfg: "sem_cfg si" and key: "0 \<le> i" "i < 32768" and oper: "sembuf_ok oper" "sem_op oper \<noteq> 0"
    and tab: "sem_tables si s" and step: "sem_step si p i base oper s s'" and agr: "sem_agree si p t s'"
  shows "\<exists>t'. semundo_one si p i base oper t = (None, t') \<and> sem_agree si p t' s"
proof -
  let ?k = "base + sem_num oper"
  define t1 where "t1 = upd_sem ?k (\<lambda>q. q\<lparr>semval := semval q - word_of_int (sem_op oper)\<rparr>) t"
  have t1: "sem_tables si t1" "proc_undo t1 = proc_undo t" "sem_undo t1 = sem_undo t" "sema t1 = sema t"
    using agr by (simp_all add: t1_def sem_agree_def)
  have v1: "sem_vals t1 k = sem_vals s k" for k
    using step agr by (simp add: t1_def sem_step_def sem_agree_def)
  have oth: "proc_undo t q = proc_undo s q" if "q \<noteq> p" for q
    using step agr that by (simp add: sem_step_def sem_agree_def)
  have dom: "sem_undo s p \<noteq> None \<longrightarrow> sem_undo t p \<noteq> None"
    using step agr by (simp add: sem_step_def sem_agree_def)
  have sa: "sema t = sema s" using step agr by (simp add: sem_step_def sem_agree_def)
  show ?thesis
  proof (cases "sem_flg oper AND SEM_UNDO \<noteq> 0")
    case False
    then have "proc_undo t p = proc_undo s p" using step agr by (simp add: sem_step_def sem_agree_def)
    then have "proc_undo t q = proc_undo s q" for q using oth by (cases "q = p") auto
    then have "sem_agree si p t1 s" using t1 v1 dom sa by (simp add: sem_agree_def)
    then show ?thesis using False by (simp add: semundo_one_def t1_def)
  next
    case True
    then have add: "\<bar>sem_op oper\<bar> \<le> semaem si" "sem_undo s' p \<noteq> None"
      "undo_add si (sem_op oper) i (int (sem_num oper)) (proc_undo s p) = Inr (proc_undo t1 p)"
      using step agr oper(2) t1(2) by (simp_all add: sem_step_def sem_agree_def)
    have num: "sem_num oper < 32768" using oper(1) by (simp add: sembuf_ok_def)
    have ok: "undo_list_ok si (proc_undo s p)"
      using sem_tablesD(5) [OF tab] by (auto simp: proc_undo_def undo_list_ok_def split: option.split)
    have "sem_undo t1 p \<noteq> None" using agr add(2) t1(3) by (simp add: sem_agree_def)
    from semaoe_inverse [OF cfg key num oper(2) add(1) ok add(3) t1(1) this] obtain t' where
      t': "semaoe si p (- sem_op oper) i (sem_num oper) t1 = (None, t')" "proc_undo t' p = proc_undo s p" by blast
    have bnd: "- 32768 \<le> - sem_op oper" "- sem_op oper < 32768" using add(1) cfg by (simp_all add: sem_cfg_def abs_le_iff)
    note S = semaoe_spec [OF cfg t1(1) key num bnd t'(1)]
    have "sem_agree si p t' s"
      unfolding sem_agree_def
    proof (intro conjI allI)
      show "sem_tables si t'" by (rule S(1))
      show "sem_vals t' k = sem_vals s k" for k using S(2) v1 [of k] by (simp add: sem_same_def)
      show "proc_undo t' q = proc_undo s q" for q
        using S(3) [of q] t'(2) t1(2) oth [of q] by (cases "q = p") simp_all
      show "sem_undo s p \<noteq> None \<longrightarrow> sem_undo t' p \<noteq> None" using dom S(4) [of p] t1(3) by auto
      show "sema t' = sema s" using S(2) t1(4) sa by (simp add: sem_same_def)
    qed
    then show ?thesis using True t'(1) by (simp add: semundo_one_def t1_def)
  qed
qed

lemma semundo_Cons:
  "semundo si p i base (oper # r) s =
     (if sem_op oper = 0 then semundo si p i base r s
      else let (e, s2) = semundo_one si p i base oper s; (e', s3) = semundo si p i base r s2 in
           (if e' = None then e else e', s3))"
  by (simp add: semundo_one_def Let_def)

text \<open>\<open>undoes done s s0\<close>: undoing \<open>done\<close> from \<open>s\<close> leads back to \<open>s0\<close>.\<close>

definition undoes :: "seminfo \<Rightarrow> nat \<Rightarrow> int \<Rightarrow> nat \<Rightarrow> sembuf list \<Rightarrow> semsys \<Rightarrow> semsys \<Rightarrow> bool" where
  "undoes si p i base done s s0 \<longleftrightarrow>
     (\<forall>t. sem_agree si p t s \<longrightarrow> (\<exists>t'. semundo si p i base done t = (None, t') \<and> sem_agree si p t' s0))"

lemma undoes_Nil: "sem_tables si s \<Longrightarrow> undoes si p i base [] s s"
  by (simp add: undoes_def)

lemma undoes_step:
  assumes "sem_cfg si" "0 \<le> i" "i < 32768" "sembuf_ok oper" "sem_tables si s"
    and "sem_op oper \<noteq> 0 \<Longrightarrow> sem_step si p i base oper s s'" "sem_op oper = 0 \<Longrightarrow> s' = s"
    and "undoes si p i base done s s0"
  shows "undoes si p i base (oper # done) s' s0"
proof (cases "sem_op oper = 0")
  case True
  with assms(7,8) show ?thesis by (simp add: undoes_def)
next
  case False
  show ?thesis
    unfolding undoes_def
  proof (intro allI impI)
    fix t assume "sem_agree si p t s'"
    from semundo_one_inverse [OF assms(1-4) False assms(5) assms(6) [OF False] this] obtain t1 where
      t1: "semundo_one si p i base oper t = (None, t1)" "sem_agree si p t1 s" by blast
    from assms(8) t1(2) obtain t2 where "semundo si p i base done t1 = (None, t2)" "sem_agree si p t2 s0"
      unfolding undoes_def by blast
    with t1(1) False show "\<exists>t'. semundo si p i base (oper # done) t = (None, t') \<and> sem_agree si p t' s0"
      unfolding semundo_Cons by simp
  qed
qed

section \<open>Specification of an operation list\<close>

text \<open>The values after doing all operations in order; \<open>None\<close> if one of them cannot be done.\<close>

fun sem_spec :: "seminfo \<Rightarrow> nat \<Rightarrow> sembuf list \<Rightarrow> (nat \<Rightarrow> int) \<Rightarrow> (nat \<Rightarrow> int) option" where
  "sem_spec si base [] v = Some v"
| "sem_spec si base (oper # r) v =
     (let k = base + sem_num oper; n = sem_op oper in
      if 0 < n \<and> semvmx si < v k + n \<or> n < 0 \<and> v k + n < 0 \<or> n = 0 \<and> v k \<noteq> 0 then None
      else sem_spec si base r (v(k := v k + n)))"

definition undo_sum :: "sembuf list \<Rightarrow> int \<Rightarrow> int" where
  "undo_sum ops n = (\<Sum>oper\<leftarrow>ops. if sem_flg oper AND SEM_UNDO \<noteq> 0 \<and> int (sem_num oper) = n then sem_op oper else 0)"

lemma uint_add_int:
  assumes "0 \<le> uint (v :: u16) + n" "uint v + n < 65536"
  shows "uint (v + word_of_int n) = uint v + n"
proof -
  have "v + word_of_int n = word_of_int (uint v + n)" by simp
  then show ?thesis using assms by (simp only: uint_word_of_int) simp
qed

definition sem_done :: "seminfo \<Rightarrow> nat \<Rightarrow> int \<Rightarrow> nat \<Rightarrow> sembuf list \<Rightarrow> semsys \<Rightarrow> semsys \<Rightarrow> bool" where
  "sem_done si p i base ops s s' \<longleftrightarrow> sem_tables si s' \<and> sema s' = sema s
     \<and> sem_spec si base ops (\<lambda>k. uint (sem_vals s k)) = Some (\<lambda>k. uint (sem_vals s' k))
     \<and> (\<forall>q. q \<noteq> p \<longrightarrow> proc_undo s' q = proc_undo s q)
     \<and> (\<forall>j n. uval (proc_undo s' p) j n = uval (proc_undo s p) j n - (if j = i then undo_sum ops n else 0))"

lemma sem_done_step:
  assumes cfg: "sem_cfg si" and key: "0 \<le> i" "i < 32768" and oper: "sembuf_ok oper" "sem_op oper \<noteq> 0"
    and tab: "sem_tables si s" and step: "sem_step si p i base oper s s1"
    and rng: "0 \<le> uint (sem_vals s (base + sem_num oper)) + sem_op oper"
      "0 < sem_op oper \<Longrightarrow> uint (sem_vals s (base + sem_num oper)) + sem_op oper \<le> semvmx si"
    and rest: "sem_done si p i base r s1 s'"
  shows "sem_done si p i base (oper # r) s s'"
proof -
  let ?k = "base + sem_num oper"
  have lt: "uint (sem_vals s ?k) + sem_op oper < 65536"
  proof (cases "0 < sem_op oper")
    case True
    then show ?thesis using rng(2) cfg by (simp add: sem_cfg_def)
  next
    case False
    have "uint (sem_vals s ?k) < 65536" using uint_lt2p [of "sem_vals s ?k"] by simp
    with False show ?thesis by linarith
  qed
  have vals: "(\<lambda>k. uint (sem_vals s1 k)) = (\<lambda>k. uint (sem_vals s k))(?k := uint (sem_vals s ?k) + sem_op oper)"
    using step uint_add_int [OF rng(1) lt] by (auto simp: sem_step_def fun_eq_iff)
  have "sem_spec si base (oper # r) (\<lambda>k. uint (sem_vals s k)) = sem_spec si base r (\<lambda>k. uint (sem_vals s1 k))"
    using rng oper(2) unfolding vals by (auto simp: Let_def)
  moreover have "uval (proc_undo s1 p) j n = uval (proc_undo s p) j n
      - (if j = i \<and> sem_flg oper AND SEM_UNDO \<noteq> 0 \<and> int (sem_num oper) = n then sem_op oper else 0)" for j n
  proof (cases "sem_flg oper AND SEM_UNDO \<noteq> 0")
    case True
    then have add: "\<bar>sem_op oper\<bar> \<le> semaem si"
      "undo_add si (sem_op oper) i (int (sem_num oper)) (proc_undo s p) = Inr (proc_undo s1 p)"
      using step oper(2) by (simp_all add: sem_step_def)
    have ok: "undo_list_ok si (proc_undo s p)"
      using sem_tablesD(5) [OF tab] by (auto simp: proc_undo_def undo_list_ok_def split: option.split)
    have "int (sem_num oper) < 32768" using oper(1) by (simp add: sembuf_ok_def)
    from undo_add_spec(3) [OF cfg ok oper(2) add(1) key of_nat_0_le_iff this add(2), of j n] True
    show ?thesis by auto
  next
    case False
    then show ?thesis using step by (simp add: sem_step_def)
  qed
  ultimately show ?thesis
    using rest step by (auto simp: sem_done_def sem_step_def undo_sum_def)
qed

lemma sem_step_intro:
  assumes cfg: "sem_cfg si" and key: "0 \<le> i" "i < 32768" and oper: "sembuf_ok oper"
    and tab: "sem_tables si s"
    and aoe: "(if sem_flg oper AND SEM_UNDO \<noteq> 0 then semaoe si p (sem_op oper) i (sem_num oper) s else (None, s)) = (None, s1)"
    and s2: "sem_tables si s2 = sem_tables si s1" "proc_undo s2 = proc_undo s1" "sem_undo s2 = sem_undo s1" "sema s2 = sema s1"
      "\<And>j. sem_vals s2 j = (if j = base + sem_num oper then sem_vals s1 j + word_of_int (sem_op oper) else sem_vals s1 j)"
  shows "sem_step si p i base oper s s2"
proof (cases "sem_flg oper AND SEM_UNDO \<noteq> 0")
  case True
  have b: "- 32768 \<le> sem_op oper" "sem_op oper < 32768" "sem_num oper < 32768" using oper by (simp_all add: sembuf_ok_def)
  from True aoe have a: "semaoe si p (sem_op oper) i (sem_num oper) s = (None, s1)" by simp
  note S = semaoe_spec [OF cfg tab key b(3,1,2) a]
  have "sem_undo s p \<noteq> None \<longrightarrow> sem_undo s1 p \<noteq> None" using S(4) [of p] by auto
  then show ?thesis
    using True S(1,2,3,6,7) s2 by (auto simp: sem_step_def sem_same_def)
next
  case False
  then show ?thesis using aoe tab s2 by (auto simp: sem_step_def)
qed

lemma sem_agree_aoe_fail:
  assumes cfg: "sem_cfg si" and key: "0 \<le> i" "i < 32768" and oper: "sembuf_ok oper" and tab: "sem_tables si s"
    and aoe: "(if sem_flg oper AND SEM_UNDO \<noteq> 0 then semaoe si p (sem_op oper) i (sem_num oper) s else (None, s)) = (Some e, s1)"
  shows "sem_agree si p s1 s"
proof -
  have b: "- 32768 \<le> sem_op oper" "sem_op oper < 32768" "sem_num oper < 32768" using oper by (simp_all add: sembuf_ok_def)
  from aoe have a: "semaoe si p (sem_op oper) i (sem_num oper) s = (Some e, s1)" by (simp split: if_splits)
  note S = semaoe_spec [OF cfg tab key b(3,1,2) a]
  have "proc_undo s1 q = proc_undo s q" for q using S(3) [of q] S(5) by (cases "q = p") simp_all
  then show ?thesis using S(1,2) S(4) [of p] by (auto simp: sem_agree_def sem_same_def)
qed

text \<open>The result of the loop: all operations done, or everything as it was at the start.\<close>

definition sem_result_ok :: "seminfo \<Rightarrow> nat \<Rightarrow> int \<Rightarrow> nat \<Rightarrow> sembuf list \<Rightarrow> semsys \<Rightarrow> semsys
    \<Rightarrow> semchan outcome \<times> errno option \<times> semsys \<Rightarrow> bool" where
  "sem_result_ok si p i base ops s0 s r \<longleftrightarrow>
     (case r of (res, ue, s') \<Rightarrow> ue = None \<and> res \<noteq> Wild \<and>
        (if res = Done 0 then sem_done si p i base ops s s'
         else (\<forall>v. res \<noteq> Done v) \<and> sem_agree si p s' s0 \<and>
           ((\<forall>oper \<in> set ops. sem_flg oper AND SEM_UNDO = 0) \<longrightarrow> sem_spec si base ops (\<lambda>k. uint (sem_vals s k)) = None)))"

lemma sem_agree_count:
  assumes "sem_agree si p s t" "\<And>q. semval (f q) = semval q"
  shows "sem_agree si p (upd_sem k f s) t"
  using assms by (simp add: sem_agree_def)

lemma semop_loop_result:
  assumes cfg: "sem_cfg si" and key: "0 \<le> i" "i < 32768" and ops: "\<forall>oper \<in> set ops. sembuf_ok oper"
    and tab: "sem_tables si s" and und: "undoes si p i base dn s s0"
  shows "sem_result_ok si p i base ops s0 s (semop_loop si p i base dn ops s)"
  using ops tab und
proof (induction ops arbitrary: dn s)
  case Nil
  then show ?case by (simp add: sem_result_ok_def sem_done_def undo_sum_def)
next
  case (Cons oper r)
  let ?k = "base + sem_num oper" and ?n = "sem_op oper" and ?v = "uint (sem_vals s (base + sem_num oper))"
  define aoe where "aoe = (\<lambda>s. if sem_flg oper AND SEM_UNDO \<noteq> 0 then semaoe si p ?n i (sem_num oper) s else (None, s))"
  define add where "add = upd_sem ?k (\<lambda>q. q\<lparr>semval := semval q + word_of_int ?n\<rparr>)"
  have ok: "sembuf_ok oper" using Cons.prems(1) by simp
  have undo: "\<exists>t'. semundo si p i base dn t = (None, t') \<and> sem_agree si p t' s0" if "sem_agree si p t s" for t
    using Cons.prems(3) that by (simp add: undoes_def)
  obtain t0 where t0: "semundo si p i base dn s = (None, t0)" "sem_agree si p t0 s0"
    using undo [OF sem_agree_refl [OF Cons.prems(2)]] by blast
  have go: "sem_result_ok si p i base (oper # r) s0 s (semop_loop si p i base (oper # dn) r s2)"
    if a: "aoe s = (None, s1)" and n0: "?n \<noteq> 0" and rng: "0 \<le> ?v + ?n" "0 < ?n \<Longrightarrow> ?v + ?n \<le> semvmx si"
      and s2: "sem_tables si s2 = sem_tables si s1" "proc_undo s2 = proc_undo s1" "sem_undo s2 = sem_undo s1" "sema s2 = sema s1"
      "\<And>j. sem_vals s2 j = (if j = ?k then sem_vals s1 j + word_of_int ?n else sem_vals s1 j)" for s1 s2
  proof -
    have st: "sem_step si p i base oper s s2"
      by (rule sem_step_intro [OF cfg key ok Cons.prems(2) a [unfolded aoe_def] s2])
    have tab2: "sem_tables si s2" using st by (simp add: sem_step_def)
    have "undoes si p i base (oper # dn) s2 s0"
      by (rule undoes_step [OF cfg key ok Cons.prems(2) st _ Cons.prems(3)]) (use n0 in simp)
    from Cons.IH [OF _ tab2 this] Cons.prems(1) have
      IH: "sem_result_ok si p i base r s0 s2 (semop_loop si p i base (oper # dn) r s2)" by simp
    obtain res ue s' where r: "semop_loop si p i base (oper # dn) r s2 = (res, ue, s')" by (cases "semop_loop si p i base (oper # dn) r s2")
    show ?thesis
    proof (cases "res = Done 0")
      case True
      with IH r have "sem_done si p i base r s2 s'" "ue = None" by (simp_all add: sem_result_ok_def)
      with sem_done_step [OF cfg key ok n0 Cons.prems(2) st rng this(1)] True r show ?thesis
        by (simp add: sem_result_ok_def)
    next
      case False
      have lt: "?v + ?n < 65536"
        using rng cfg uint_lt2p [of "sem_vals s ?k"] by (cases "0 < ?n") (auto simp: sem_cfg_def)
      have vals: "(\<lambda>k. uint (sem_vals s2 k)) = (\<lambda>k. uint (sem_vals s k))(?k := ?v + ?n)"
        using st uint_add_int [OF rng(1) lt] by (auto simp: sem_step_def fun_eq_iff)
      have "sem_spec si base (oper # r) (\<lambda>k. uint (sem_vals s k)) = sem_spec si base r (\<lambda>k. uint (sem_vals s2 k))"
        using rng n0 unfolding vals by (auto simp: Let_def)
      with False IH r show ?thesis by (auto simp: sem_result_ok_def)
    qed
  qed
  have failed: "sem_result_ok si p i base (oper # r) s0 s (Err e', None, t')"
    if "sem_agree si p t' s0" "(sem_flg oper AND SEM_UNDO = 0) \<longrightarrow> sem_spec si base (oper # r) (\<lambda>k. uint (sem_vals s k)) = None" for e' t'
    using that by (auto simp: sem_result_ok_def)
  have slept: "sem_result_ok si p i base (oper # r) s0 s (Sleep ch, None, upd_sem ?k f t0)"
    if "\<And>q. semval (f q) = semval q" "sem_spec si base (oper # r) (\<lambda>k. uint (sem_vals s k)) = None" for ch f
    using sem_agree_count [OF t0(2), of f ?k] that by (auto simp: sem_result_ok_def)
  obtain e1 s1 where a: "aoe s = (e1, s1)" by (cases "aoe s")
  have aoe_fail: "sem_result_ok si p i base (oper # r) s0 s (let (e', s') = semundo si p i base dn s1 in
      (Err (case e' of None \<Rightarrow> e | Some x \<Rightarrow> x), None, s'))" if e: "e1 = Some e" for e
  proof -
    have "sem_agree si p s1 s" by (rule sem_agree_aoe_fail [OF cfg key ok Cons.prems(2)]) (use a e in \<open>simp add: aoe_def\<close>)
    from undo [OF this] obtain t' where t': "semundo si p i base dn s1 = (None, t')" "sem_agree si p t' s0" by blast
    have "sem_flg oper AND SEM_UNDO \<noteq> 0" using a e by (auto simp: aoe_def split: if_splits)
    with failed [OF t'(2)] t'(1) show ?thesis by simp
  qed
  show ?case
  proof (cases "0 < ?n")
    case pos: True
    show ?thesis
    proof (cases "?n + ?v > semvmx si")
      case True
      then have "sem_spec si base (oper # r) (\<lambda>k. uint (sem_vals s k)) = None" using pos by (simp add: add.commute)
      with failed [OF t0(2)] t0(1) pos True show ?thesis by (simp add: Let_def)
    next
      case False
      show ?thesis
      proof (cases e1)
        case None
        define s2 where "s2 = wake_ncnt ?k (add s1)"
        define s3 where "s3 = (if sem_vals s2 ?k = 0 then wake_zcnt ?k s2 else s2)"
        have "sem_result_ok si p i base (oper # r) s0 s (semop_loop si p i base (oper # dn) r s3)"
        proof (rule go)
          show "aoe s = (None, s1)" using a None by simp
          show "?n \<noteq> 0" "0 \<le> ?v + ?n" "?v + ?n \<le> semvmx si" using pos False by simp_all
        qed (simp_all add: s3_def s2_def add_def)
        moreover have "semop_loop si p i base dn (oper # r) s = semop_loop si p i base (oper # dn) r s3"
          using pos False a None by (simp add: aoe_def add_def s2_def s3_def Let_def)
        ultimately show ?thesis by simp
      next
        case (Some e)
        then have "semop_loop si p i base dn (oper # r) s = (let (e', s') = semundo si p i base dn s1 in
          (Err (case e' of None \<Rightarrow> e | Some x \<Rightarrow> x), None, s'))"
          using pos False a by (simp add: aoe_def Let_def)
        with aoe_fail [OF Some] show ?thesis by simp
      qed
    qed
  next
    case npos: False
    show ?thesis
    proof (cases "?n < 0")
      case neg: True
      show ?thesis
      proof (cases "- ?n \<le> ?v")
        case True
        show ?thesis
        proof (cases e1)
          case None
          define s3 where "s3 = (if sem_vals (add s1) ?k = 0 then wake_zcnt ?k (add s1) else add s1)"
          have "sem_result_ok si p i base (oper # r) s0 s (semop_loop si p i base (oper # dn) r s3)"
          proof (rule go)
            show "aoe s = (None, s1)" using a None by simp
            show "?n \<noteq> 0" "0 \<le> ?v + ?n" using neg True by simp_all
            show "0 < ?n \<Longrightarrow> ?v + ?n \<le> semvmx si" using neg by simp
          qed (simp_all add: s3_def add_def)
          moreover have "semop_loop si p i base dn (oper # r) s = semop_loop si p i base (oper # dn) r s3"
            using neg npos True a None by (simp add: aoe_def add_def s3_def Let_def)
          ultimately show ?thesis by simp
        next
          case (Some e)
          then have "semop_loop si p i base dn (oper # r) s = (let (e', s') = semundo si p i base dn s1 in
            (Err (case e' of None \<Rightarrow> e | Some x \<Rightarrow> x), None, s'))"
            using neg npos True a by (simp add: aoe_def Let_def)
          with aoe_fail [OF Some] show ?thesis by simp
        qed
      next
        case False
        then have sp: "sem_spec si base (oper # r) (\<lambda>k. uint (sem_vals s k)) = None" using neg by simp
        show ?thesis using neg npos False t0 failed [OF t0(2)] slept [OF _ sp] sp by (simp add: Let_def)
      qed
    next
      case False
      then have n0: "?n = 0" using npos by simp
      show ?thesis
      proof (cases "?v = 0")
        case True
        have "undoes si p i base (oper # dn) s s0" using Cons.prems(3) n0 by (simp add: undoes_def)
        from Cons.IH [OF _ Cons.prems(2) this] Cons.prems(1)
        have IH: "sem_result_ok si p i base r s0 s (semop_loop si p i base (oper # dn) r s)" by simp
        have "(\<lambda>k. uint (sem_vals s k))(?k := 0) = (\<lambda>k. uint (sem_vals s k))" using True by (auto simp: fun_eq_iff)
        then have "sem_spec si base (oper # r) (\<lambda>k. uint (sem_vals s k)) = sem_spec si base r (\<lambda>k. uint (sem_vals s k))"
          using n0 True by (simp add: Let_def)
        moreover have "undo_sum (oper # r) n = undo_sum r n" for n using n0 by (simp add: undo_sum_def)
        ultimately have "sem_result_ok si p i base (oper # r) s0 s (semop_loop si p i base (oper # dn) r s)"
          using IH by (auto simp: sem_result_ok_def sem_done_def split: prod.splits if_splits)
        moreover have "semop_loop si p i base dn (oper # r) s = semop_loop si p i base (oper # dn) r s"
          using n0 True by (simp add: Let_def)
        ultimately show ?thesis by simp
      next
        case False
        then have sp: "sem_spec si base (oper # r) (\<lambda>k. uint (sem_vals s k)) = None" using n0 by simp
        show ?thesis using n0 False t0 failed [OF t0(2)] slept [OF _ sp] sp by (simp add: Let_def)
      qed
    qed
  qed
qed

section \<open>Exit\<close>

lemma uval_entry:
  assumes "sorted_wrt (<) (map ukey es)" "e \<in> set es"
  shows "uval es (un_id e) (un_num e) = un_aoe e"
  using assms
proof (induction es)
  case (Cons x es)
  show ?case
  proof (cases "e = x")
    case True
    have "\<forall>y \<in> set es. ukey y \<noteq> (un_id x, un_num x)" using Cons.prems(1) by fastforce
    then have "uval es (un_id x) (un_num x) = 0" by (rule uval_absent)
    then show ?thesis using True by simp
  next
    case False
    then have "e \<in> set es" using Cons.prems(2) by simp
    moreover from this have "ukey x \<noteq> ukey e" using Cons.prems(1) by fastforce
    ultimately show ?thesis using Cons.IH Cons.prems(1) by auto
  qed
qed simp

lemma uval_rev: "uval (rev es) i n = uval es i n"
  by (induction es) (auto simp: add.commute)

lemma semconv_cong: "sema s' = sema s \<Longrightarrow> semconv si i s' = semconv si i s"
  by (simp add: semconv_def)

text \<open>The entries of the undo list of a process that has only adjusted the set \<open>i\<close>.\<close>

lemma undo_entries:
  assumes ok: "undo_list_ok si es" and uv: "\<forall>a n. uval es a n = (if a = i then - undo_sum ops n else 0)"
  shows "(\<forall>e \<in> set es. un_id e = i \<and> 0 \<le> un_num e \<and> un_aoe e = - undo_sum ops (un_num e))
    \<and> distinct (map un_num (rev es))"
proof -
  have srt: "sorted_wrt (<) (map ukey es)" and nz: "\<forall>e \<in> set es. un_aoe e \<noteq> 0" using ok by (auto simp: undo_list_ok_def)
  have ent: "un_id e = i \<and> 0 \<le> un_num e \<and> un_aoe e = - undo_sum ops (un_num e)" if e: "e \<in> set es" for e
  proof -
    have "uval es (un_id e) (un_num e) = un_aoe e" by (rule uval_entry [OF srt e])
    with uv nz e have i: "un_id e = i" "un_aoe e = - undo_sum ops (un_num e)" by (auto split: if_splits)
    have "undo_sum ops n = 0" if "n < 0" for n using that by (induction ops) (auto simp: undo_sum_def)
    then have "0 \<le> un_num e" using i nz e by (metis neg_0_equal_iff_equal not_le)
    with i show ?thesis by simp
  qed
  have "distinct (map ukey es)"
    using srt by (simp add: sorted_wrt_iff_nth_less distinct_conv_nth) (metis linorder_neqE_nat order_less_irrefl)
  then have "inj_on un_num (set es)" "distinct es" using ent by (auto simp: distinct_map inj_on_def)
  then show ?thesis using ent by (simp add: distinct_map rev_map [symmetric])
qed

lemma semexit_apply_vals:
  assumes "semconv si i s = Some j" "distinct (map un_num es)"
    and "\<forall>e \<in> set es. un_id e = i \<and> 0 \<le> un_num e
      \<and> 0 \<le> uint (sem_vals s (sem_base (sema s ! j) + nat (un_num e))) + un_aoe e
      \<and> uint (sem_vals s (sem_base (sema s ! j) + nat (un_num e))) + un_aoe e \<le> semvmx si"
    and "semvmx si \<le> 32767"
  defines "b \<equiv> sem_base (sema s ! j)"
  shows "uint (sem_vals (semexit_apply si es s) k) = uint (sem_vals s k) + (if b \<le> k then uval es i (int k - int b) else 0)
    \<and> sema (semexit_apply si es s) = sema s \<and> proc_undo (semexit_apply si es s) = proc_undo s
    \<and> sem_undo (semexit_apply si es s) = sem_undo s"
  using assms(1-3) unfolding b_def
proof (induction es arbitrary: s)
  case (Cons e r)
  let ?b = "sem_base (sema s ! j)"
  let ?k = "?b + nat (un_num e)" and ?v = "uint (sem_vals s (sem_base (sema s ! j) + nat (un_num e))) + un_aoe e"
  have e: "un_id e = i" "0 \<le> un_num e" "0 \<le> ?v" "?v \<le> semvmx si" using Cons.prems(3) by auto
  have k: "nat (int ?b + un_num e) = ?k" using e(2) by simp
  define s3 where "s3 = (let s1 = upd_sem ?k (\<lambda>q. q\<lparr>semval := word_of_int ?v\<rparr>) s;
      s2 = (if ?v = 0 then wake_zcnt ?k s1 else s1) in if 0 < un_aoe e then wake_ncnt ?k s2 else s2)"
  have step: "semexit_apply si (e # r) s = semexit_apply si r s3"
    using Cons.prems(1) e k by (simp add: s3_def Let_def)
  have uw: "uint (word_of_int ?v :: u16) = ?v" using e(3,4) assms(4) by (simp add: uint_add_int)
  have s3: "sema s3 = sema s" "proc_undo s3 = proc_undo s" "sem_undo s3 = sem_undo s"
    "uint (sem_vals s3 j) = (if j = ?k then ?v else uint (sem_vals s j))" for j
    using uw by (simp_all add: s3_def Let_def)
  have conv: "semconv si i s3 = Some j" using Cons.prems(1) semconv_cong [OF s3(1)] by simp
  have dist: "distinct (map un_num r)" "un_num e \<notin> un_num ` set r" using Cons.prems(2) by simp_all
  have "\<forall>x \<in> set r. un_id x = i \<and> 0 \<le> un_num x
      \<and> 0 \<le> uint (sem_vals s3 (sem_base (sema s3 ! j) + nat (un_num x))) + un_aoe x
      \<and> uint (sem_vals s3 (sem_base (sema s3 ! j) + nat (un_num x))) + un_aoe x \<le> semvmx si"
  proof
    fix x assume x: "x \<in> set r"
    then have "un_num x \<noteq> un_num e" "0 \<le> un_num x" using dist(2) Cons.prems(3) by (metis imageI, simp)
    then have "?b + nat (un_num x) \<noteq> ?k" using e(2) by (simp add: eq_nat_nat_iff)
    then show "un_id x = i \<and> 0 \<le> un_num x
      \<and> 0 \<le> uint (sem_vals s3 (sem_base (sema s3 ! j) + nat (un_num x))) + un_aoe x
      \<and> uint (sem_vals s3 (sem_base (sema s3 ! j) + nat (un_num x))) + un_aoe x \<le> semvmx si"
      using Cons.prems(3) x by (simp add: s3)
  qed
  note IH = Cons.IH [OF conv dist(1) this, unfolded s3(1)]
  have "\<forall>x \<in> set r. ukey x \<noteq> (i, un_num e)" using dist(2) by (metis imageI prod.inject)
  then have "uval r i (un_num e) = 0" by (rule uval_absent)
  then have "uint (sem_vals s3 k) + (if ?b \<le> k then uval r i (int k - int ?b) else 0)
      = uint (sem_vals s k) + (if ?b \<le> k then uval (e # r) i (int k - int ?b) else 0)"
    using e(1,2) by (auto simp: s3(4))
  then show ?case unfolding step using IH s3(2,3) by simp
qed simp

lemma sem_spec_sum:
  assumes "sem_spec si base ops v = Some v'" "\<forall>oper \<in> set ops. sem_op oper = 0 \<or> sem_flg oper AND SEM_UNDO \<noteq> 0"
  shows "v' k = v k + (if base \<le> k then undo_sum ops (int k - int base) else 0)"
  using assms
proof (induction ops arbitrary: v)
  case Nil
  then show ?case by (simp add: undo_sum_def)
next
  case (Cons oper r)
  from Cons.prems(1) have "sem_spec si base r (v(base + sem_num oper := v (base + sem_num oper) + sem_op oper)) = Some v'"
    by (auto simp: Let_def split: if_splits)
  from Cons.IH [OF this] Cons.prems(2)
  have IH: "v' k = (v(base + sem_num oper := v (base + sem_num oper) + sem_op oper)) k
      + (if base \<le> k then undo_sum r (int k - int base) else 0)" by simp
  have eq: "int (sem_num oper) = int k - int base \<longleftrightarrow> k = base + sem_num oper" if "base \<le> k" using that by linarith
  show ?case using IH Cons.prems(2) eq by (auto simp: undo_sum_def)
qed

section \<open>Properties\<close>

text \<open>
  C13: \<^verbatim>\<open>semop\<close> is all or nothing. If it succeeds, the values are those the operations give when done in
  order, each of them possible in its turn, and the process's adjustments change by exactly the
  opposite of its \<^verbatim>\<open>SEM_UNDO\<close> operations. If it fails, whatever the reason, or goes to sleep, every
  semaphore value and every undo entry of every process is what it was before the call.
\<close>

theorem semop_all_or_nothing:
  assumes "sem_cfg si" "sem_tables si s" "0 \<le> i" "i < 32768" "\<forall>oper \<in> set ops. sembuf_ok oper"
    and "semop_loop si p i base [] ops s = (res, ue, s')"
  shows "if \<exists>v. res = Done v
    then sem_spec si base ops (\<lambda>k. uint (sem_vals s k)) = Some (\<lambda>k. uint (sem_vals s' k))
      \<and> (\<forall>q. q \<noteq> p \<longrightarrow> proc_undo s' q = proc_undo s q)
      \<and> (\<forall>j n. uval (proc_undo s' p) j n = uval (proc_undo s p) j n - (if j = i then undo_sum ops n else 0))
    else (\<forall>k. sem_vals s' k = sem_vals s k) \<and> (\<forall>q. proc_undo s' q = proc_undo s q)"
proof -
  from semop_loop_result [OF assms(1,3,4,5,2) undoes_Nil [OF assms(2)], of p base] assms(6)
  have R: "sem_result_ok si p i base ops s s (res, ue, s')" by simp
  show ?thesis
  proof (cases "res = Done 0")
    case True
    with R show ?thesis by (simp add: sem_result_ok_def sem_done_def)
  next
    case False
    with R show ?thesis by (auto simp: sem_result_ok_def sem_agree_def)
  qed
qed

definition demo_si :: seminfo where
  "demo_si = \<lparr>semmapsz = 8, semmni = 2, semmns = 6, semmnu = 2, semmsl = 4, semopm = 4, semume = 3,
     semvmx = 100, semaem = 50\<rparr>"

definition demo_op :: "nat \<Rightarrow> int \<Rightarrow> u16 \<Rightarrow> sembuf" where
  "demo_op n v f = \<lparr>sem_num = n, sem_op = v, sem_flg = f\<rparr>"

lemma seminit_tables: "sem_tables si (seminit si)"
  by (simp add: sem_tables_def seminit_def undo_list_ok_def)

theorem semop_all_or_nothing_witness:
  "\<exists>s'. semop_loop demo_si 0 1 0 [] [demo_op 0 5 0x1000, demo_op 1 (- 1) 0x800] (seminit demo_si) = (Err EAGAIN, None, s')
    \<and> (\<forall>k. sem_vals s' k = 0) \<and> proc_undo s' 0 = []"
proof -
  let ?ops = "[demo_op 0 5 0x1000, demo_op 1 (- 1) 0x800]"
  have "(case semop_loop demo_si 0 1 0 [] ?ops (seminit demo_si) of (r, ue, s') \<Rightarrow> r = Err EAGAIN \<and> ue = None)" by code_simp
  then obtain s' where r: "semop_loop demo_si 0 1 0 [] ?ops (seminit demo_si) = (Err EAGAIN, None, s')"
    by (auto split: prod.splits)
  have "sem_cfg demo_si" "\<forall>oper \<in> set ?ops. sembuf_ok oper"
    by (simp_all add: sem_cfg_def demo_si_def demo_op_def sembuf_ok_def)
  from semop_all_or_nothing [OF this(1) seminit_tables _ _ this(2) r] r show ?thesis
    by (simp add: seminit_def proc_undo_def)
qed

text \<open>
  C14: Exit undoes. A process without adjustments that does a list of operations with \<^verbatim>\<open>SEM_UNDO\<close> and
  exits leaves every semaphore with the value it had before, and no adjustment behind.
\<close>

theorem semop_exit_restores:
  assumes cfg: "sem_cfg si" and tab: "sem_tables si s" and key: "0 \<le> i" "i < 32768"
    and ops: "\<forall>oper \<in> set ops. sembuf_ok oper \<and> (sem_op oper = 0 \<or> sem_flg oper AND SEM_UNDO \<noteq> 0)"
    and init: "proc_undo s p = []" "\<forall>k. uint (sem_vals s k) \<le> semvmx si" "semconv si i s = Some j"
    and run: "semop_loop si p i (sem_base (sema s ! j)) [] ops s = (Done v, ue, s')"
  shows "(\<forall>k. sem_vals (semexit si p s') k = sem_vals s k) \<and> proc_undo (semexit si p s') p = []"
proof -
  let ?b = "sem_base (sema s ! j)"
  from semop_loop_result [OF cfg key _ tab undoes_Nil [OF tab], of ops p ?b] run ops
  have D: "sem_done si p i ?b ops s s'" by (auto simp: sem_result_ok_def split: if_splits)
  then have tab': "sem_tables si s'" and sa: "sema s' = sema s"
    and uv: "\<And>a n. uval (proc_undo s' p) a n = (if a = i then - undo_sum ops n else 0)"
    and spec: "sem_spec si ?b ops (\<lambda>k. uint (sem_vals s k)) = Some (\<lambda>k. uint (sem_vals s' k))"
    by (auto simp: sem_done_def init(1))
  have vals: "uint (sem_vals s' k) = uint (sem_vals s k) + (if ?b \<le> k then undo_sum ops (int k - int ?b) else 0)" for k
    using sem_spec_sum [OF spec] ops by simp
  show ?thesis
  proof (cases "sem_undo s' p")
    case None
    then have "undo_sum ops n = 0" for n using uv [of i n] by (simp add: proc_undo_def)
    then have "sem_vals s' k = sem_vals s k" for k using vals [of k] by (simp add: word_uint_eq_iff)
    then show ?thesis using None by (simp add: semexit_def proc_undo_def)
  next
    case (Some u)
    define es where "es = semu s' u"
    have pu: "proc_undo s' p = es" using Some by (simp add: proc_undo_def es_def)
    have ok: "undo_list_ok si es" using sem_tablesD(5) [OF tab'] by (simp add: es_def)
    have ue: "\<forall>a n. uval es a n = (if a = i then - undo_sum ops n else 0)" using uv pu by simp
    note ent = bspec [OF conjunct1 [OF undo_entries [OF ok ue]]] and conjunct2 [OF undo_entries [OF ok ue]]
    moreover have "\<forall>e \<in> set (rev es). un_id e = i \<and> 0 \<le> un_num e
      \<and> 0 \<le> uint (sem_vals s' (sem_base (sema s' ! j) + nat (un_num e))) + un_aoe e
      \<and> uint (sem_vals s' (sem_base (sema s' ! j) + nat (un_num e))) + un_aoe e \<le> semvmx si"
    proof
      fix e assume "e \<in> set (rev es)"
      then have e: "un_id e = i" "0 \<le> un_num e" "un_aoe e = - undo_sum ops (un_num e)" using ent by simp_all
      have "uint (sem_vals s' (?b + nat (un_num e))) + un_aoe e = uint (sem_vals s (?b + nat (un_num e)))"
        using vals [of "?b + nat (un_num e)"] e by simp
      then show "un_id e = i \<and> 0 \<le> un_num e
        \<and> 0 \<le> uint (sem_vals s' (sem_base (sema s' ! j) + nat (un_num e))) + un_aoe e
        \<and> uint (sem_vals s' (sem_base (sema s' ! j) + nat (un_num e))) + un_aoe e \<le> semvmx si"
        using e(1,2) init(2) by (simp add: sa)
    qed
    moreover have "semconv si i s' = Some j" using init(3) semconv_cong [OF sa] by simp
    moreover have "semvmx si \<le> 32767" using cfg by (simp add: sem_cfg_def)
    ultimately have A: "uint (sem_vals (semexit_apply si (rev es) s') k) = uint (sem_vals s' k)
        + (if ?b \<le> k then uval es i (int k - int ?b) else 0)" for k
      using semexit_apply_vals [of si i s' j "rev es" k] by (simp add: sa uval_rev)
    have "uint (sem_vals (semexit_apply si (rev es) s') k) = uint (sem_vals s k)" for k
      using A [of k] vals [of k] uv [of i] pu by simp
    then have fin: "sem_vals (semexit_apply si (rev es) s') k = sem_vals s k" for k by (simp add: word_uint_eq_iff)
    have "es = [] \<Longrightarrow> sem_vals s' k = sem_vals s k" for k using fin [of k] by simp
    then show ?thesis using fin Some by (auto simp: semexit_def Let_def proc_undo_def simp flip: es_def)
  qed
qed

definition demo_sems :: semsys where
  "demo_sems = snd (semget demo_si \<lparr>u_uid = 0, u_gid = 0, ca_pid = 1, ca_time = 9\<rparr> 7 2 0x380 (seminit demo_si))"

theorem semop_exit_restores_witness:
  "\<exists>s'. semop_loop demo_si 0 0 0 [] [demo_op 0 5 0x1000, demo_op 1 3 0x1000, demo_op 0 (- 2) 0x1000] demo_sems = (Done 0, None, s')
    \<and> sem_vals s' 0 = 3 \<and> (\<forall>k. sem_vals (semexit demo_si 0 s') k = 0)"
proof -
  let ?ops = "[demo_op 0 5 0x1000, demo_op 1 3 0x1000, demo_op 0 (- 2) 0x1000]"
  have "(case semop_loop demo_si 0 0 0 [] ?ops demo_sems of (r, ue, s') \<Rightarrow> r = Done 0 \<and> ue = None \<and> sem_vals s' 0 = 3)"
    by code_simp
  then obtain s' where r: "semop_loop demo_si 0 0 0 [] ?ops demo_sems = (Done 0, None, s')" "sem_vals s' 0 = 3"
    by (auto split: prod.splits)
  have "semarr demo_sems = semarr (seminit demo_si) \<and> sem_undo demo_sems = sem_undo (seminit demo_si)
    \<and> semu demo_sems = semu (seminit demo_si) \<and> semfup demo_sems = semfup (seminit demo_si)
    \<and> semunp demo_sems = semunp (seminit demo_si)"
    by (simp add: demo_sems_def semget_def upd_set_def Let_def split: sum.split prod.split)
  then have tab: "sem_tables demo_si demo_sems" and z: "\<forall>k. sem_vals demo_sems k = 0" "proc_undo demo_sems 0 = []"
    using seminit_tables [of demo_si] by (auto simp: sem_tables_def proc_undo_def seminit_def)
  have cfg: "sem_cfg demo_si" "\<forall>oper \<in> set ?ops. sembuf_ok oper \<and> (sem_op oper = 0 \<or> sem_flg oper AND SEM_UNDO \<noteq> 0)"
    by (simp_all add: sem_cfg_def demo_si_def demo_op_def sembuf_ok_def)
  have vmx: "\<forall>k. uint (sem_vals demo_sems k) \<le> semvmx demo_si" using z by (simp add: demo_si_def)
  have "semconv demo_si 0 demo_sems = Some 0" "sem_base (sema demo_sems ! 0) = 0" by code_simp+
  with semop_exit_restores [OF cfg(1) tab _ _ cfg(2) z(2) vmx, of 0 0 0 None s'] r z show ?thesis by simp
qed

text \<open>
  The check of \<^verbatim>\<open>SETALL\<close> is signed: a value of 32768 or more passes it, although \<^verbatim>\<open>SETVAL\<close> refuses
  every value above \<^verbatim>\<open>semvmx\<close>.
\<close>

theorem setall_exceeds_maximum:
  "\<exists>s'. semctl demo_si \<lparr>u_uid = 0, u_gid = 0, ca_pid = 1, ca_time = 9\<rparr> 0 0 (Sem_setall (Some [40000, 1])) demo_sems = (Done 0, No_data, s')
     \<and> semvmx demo_si < uint (sem_vals s' 0)"
proof -
  have "(case semctl demo_si \<lparr>u_uid = 0, u_gid = 0, ca_pid = 1, ca_time = 9\<rparr> 0 0 (Sem_setall (Some [40000, 1])) demo_sems of
    (r, d, s') \<Rightarrow> r = Done 0 \<and> d = No_data \<and> semvmx demo_si < uint (sem_vals s' 0))" by code_simp
  then show ?thesis by (auto split: prod.splits)
qed

end
