(* ===== verification/Record_Lock.thy ===== *)
theory Record_Lock
  imports Kernel_Prelude
begin

text \<open>
  File and record locking (\<^verbatim>\<open>sys/os/flock.c\<close>, \<^verbatim>\<open>sys/flock.h\<close>). The locks of a file are a chain
  ordered by their start; lock records are numbered, and a pointer to a record is its number. The
  chain is the list of its records, \<^verbatim>\<open>prev\<close> and \<^verbatim>\<open>next\<close> being the neighbours in the list.
  Offsets are \<^verbatim>\<open>long\<close>, kept to 32 bits where the code adds to them.
\<close>

section \<open>State\<close>

record flock =
  l_type :: int
  l_whence :: int
  l_start :: int
  l_len :: int
  l_pid :: int

abbreviation (input) l_end :: "flock \<Rightarrow> int" where "l_end \<equiv> l_len"

abbreviation (input) F_RDLCK :: int where "F_RDLCK \<equiv> 1"
abbreviation (input) F_WRLCK :: int where "F_WRLCK \<equiv> 2"
abbreviation (input) F_UNLCK :: int where "F_UNLCK \<equiv> 3"
abbreviation (input) MAXEND :: int where "MAXEND \<equiv> 2147483647"

text \<open>\<open>fk_stat\<close> is the union of \<^verbatim>\<open>wakeflg\<close> and \<^verbatim>\<open>blkpid\<close>.\<close>

record filock =
  fk_no :: nat
  fk_set :: flock
  fk_stat :: int

abbreviation fk_start :: "filock \<Rightarrow> int" where "fk_start f \<equiv> l_start (fk_set f)"
abbreviation fk_end :: "filock \<Rightarrow> int" where "fk_end f \<equiv> l_len (fk_set f)"
abbreviation fk_pid :: "filock \<Rightarrow> int" where "fk_pid f \<equiv> l_pid (fk_set f)"
abbreviation fk_type :: "filock \<Rightarrow> int" where "fk_type f \<equiv> l_type (fk_set f)"

text \<open>The free records with the counters of records, and the records woken.\<close>

record lkpool =
  frlock :: "nat list"
  reccnt :: int
  rectot :: int
  lkwoken :: "nat list"

record flino =
  fl_dev :: int
  fl_number :: int
  fl_refcnt :: int
  fl_flck :: "filock list"

record flsys =
  flinotab :: "nat \<Rightarrow> flino"
  fids :: "nat list"
  frfid :: "nat list"
  filcnt :: int
  filtot :: int
  sleeplcks :: "filock list"
  lkrecs :: lkpool

text \<open>What the calls use of an open file.\<close>

record ofile =
  f_read :: bool
  f_write :: bool
  f_offset :: int
  f_isize :: int
  f_dev :: int
  f_ino :: int

section \<open>File identifiers\<close>

definition upd_fid :: "nat \<Rightarrow> (flino \<Rightarrow> flino) \<Rightarrow> flsys \<Rightarrow> flsys" where
  "upd_fid i f s = s\<lparr>flinotab := (flinotab s)(i := f (flinotab s i))\<rparr>"

definition findfid :: "ofile \<Rightarrow> flsys \<Rightarrow> nat option \<times> flsys" where
  "findfid fp s =
     (case List.find (\<lambda>i. fl_dev (flinotab s i) = f_dev fp \<and> fl_number (flinotab s i) = f_ino fp) (fids s) of
        None \<Rightarrow> (None, s)
      | Some i \<Rightarrow> (Some i, upd_fid i (\<lambda>x. x\<lparr>fl_refcnt := fl_refcnt x + 1\<rparr>) s))"

definition allocfid :: "ofile \<Rightarrow> flsys \<Rightarrow> nat option \<times> flsys" where
  "allocfid fp s =
     (case frfid s of
        [] \<Rightarrow> (None, s)
      | i # r \<Rightarrow>
          (Some i, upd_fid i (\<lambda>x. x\<lparr>fl_refcnt := fl_refcnt x + 1, fl_dev := f_dev fp, fl_number := f_ino fp\<rparr>)
             (s\<lparr>filcnt := filcnt s + 1, filtot := filtot s + 1, frfid := r, fids := i # fids s\<rparr>)))"

definition freefid :: "nat \<Rightarrow> flsys \<Rightarrow> flsys" where
  "freefid i s =
     (let s1 = upd_fid i (\<lambda>x. x\<lparr>fl_refcnt := fl_refcnt x - 1\<rparr>) s in
      if fl_refcnt (flinotab s1 i) \<le> 0 \<and> fl_flck (flinotab s1 i) = [] then
        upd_fid i (\<lambda>x. x\<lparr>fl_dev := 0, fl_number := 0, fl_refcnt := 0\<rparr>)
          (s1\<lparr>filcnt := filcnt s1 - 1, fids := remove1 i (fids s1), frfid := i # frfid s1\<rparr>)
      else s1)"

text \<open>\<^verbatim>\<open>flckinit\<close> on cleared tables, for \<open>fils\<close> file headers and \<open>recs\<close> records.\<close>

definition flckinit :: "nat \<Rightarrow> nat \<Rightarrow> flsys" where
  "flckinit fils recs =
     (let s0 = \<lparr>flinotab = (\<lambda>_. \<lparr>fl_dev = 0, fl_number = 0, fl_refcnt = 0, fl_flck = []\<rparr>), fids = [], frfid = [],
                filcnt = 0, filtot = 0, sleeplcks = [], lkrecs = \<lparr>frlock = [], reccnt = 0, rectot = 0, lkwoken = []\<rparr>\<rparr>;
          s1 = (fold freefid [0..<fils] s0)\<lparr>filcnt := 0\<rparr> in
      s1\<lparr>lkrecs := (lkrecs s1)\<lparr>frlock := fold (\<lambda>i l. i # l) [0..<recs] [], reccnt := 0\<rparr>\<rparr>)"

section \<open>Lock records\<close>

text \<open>A chain with the pool; insertion behind a record (\<open>None\<close>: at the head), and removal.\<close>

type_synonym lkst = "filock list \<times> lkpool"

fun ins_after :: "nat option \<Rightarrow> filock \<Rightarrow> filock list \<Rightarrow> filock list" where
  "ins_after None x fs = x # fs"
| "ins_after (Some n) x [] = []"
| "ins_after (Some n) x (f # fs) = (if fk_no f = n then f # x # fs else f # ins_after (Some n) x fs)"

definition insflck :: "int \<Rightarrow> flock \<Rightarrow> nat option \<Rightarrow> lkst \<Rightarrow> (nat \<times> lkst) option" where
  "insflck pid ld fl st =
     (case frlock (snd st) of
        [] \<Rightarrow> None
      | n # r \<Rightarrow>
          Some (n, ins_after fl \<lparr>fk_no = n, fk_set = ld\<lparr>l_pid := pid\<rparr>, fk_stat = 0\<rparr> (fst st),
                (snd st)\<lparr>frlock := r, reccnt := reccnt (snd st) + 1, rectot := rectot (snd st) + 1\<rparr>))"

definition find_lck :: "nat \<Rightarrow> filock list \<Rightarrow> filock option" where
  "find_lck n fs = List.find (\<lambda>f. fk_no f = n) fs"

fun prev_lck :: "nat \<Rightarrow> filock list \<Rightarrow> nat option" where
  "prev_lck n (f # g # fs) = (if fk_no g = n then Some (fk_no f) else prev_lck n (g # fs))"
| "prev_lck n fs = None"

definition wake_lck :: "filock \<Rightarrow> lkpool \<Rightarrow> lkpool" where
  "wake_lck f pl = (if fk_stat f \<noteq> 0 then pl\<lparr>lkwoken := lkwoken pl @ [fk_no f]\<rparr> else pl)"

definition delflck :: "filock \<Rightarrow> lkst \<Rightarrow> lkst" where
  "delflck f st =
     (let pl = wake_lck f (snd st) in
      (filter (\<lambda>x. fk_no x \<noteq> fk_no f) (fst st),
       pl\<lparr>frlock := fk_no f # frlock pl, reccnt := reccnt pl - 1\<rparr>))"

text \<open>Cutting a lock at its end, with the wakeup of those who wait for it.\<close>

definition cutflck :: "filock \<Rightarrow> int \<Rightarrow> lkst \<Rightarrow> lkst" where
  "cutflck f v st =
     (map (\<lambda>x. if fk_no x = fk_no f then x\<lparr>fk_set := (fk_set x)\<lparr>l_len := v\<rparr>, fk_stat := 0\<rparr> else x) (fst st),
      wake_lck f (snd st))"

section \<open>Regions\<close>

text \<open>\<^verbatim>\<open>regflck\<close>: the octal digits of the start and the end of a request relative to a lock.\<close>

definition regflck :: "flock \<Rightarrow> filock \<Rightarrow> nat \<times> nat" where
  "regflck ld f =
     (if l_start ld > fk_start f \<and> l_start ld > fk_end f then (5, 5)
      else if l_start ld > fk_start f \<and> l_start ld = fk_end f then (4, 5)
      else
        (if l_start ld > fk_start f then 3 else if l_start ld = fk_start f then 2 else 1,
         if l_end ld > fk_start f then (if l_end ld > fk_end f then 5 else if l_end ld = fk_end f then 4 else 3)
         else if l_end ld = fk_start f then 2 else 1))"

text \<open>The last record, from a given one on, of a run of records that start before \<open>v\<close>.\<close>

fun last_before :: "int \<Rightarrow> nat \<Rightarrow> filock list \<Rightarrow> nat" where
  "last_before v n [] = n"
| "last_before v n (f # fs) = (if fk_start f < v then last_before v (fk_no f) fs else n)"

definition lcks_from :: "nat \<Rightarrow> filock list \<Rightarrow> filock list" where
  "lcks_from n fs = dropWhile (\<lambda>f. fk_no f \<noteq> n) fs"

text \<open>
  One round of \<^verbatim>\<open>flckadj\<close> on a lock of the process itself: what is left of the request, the place to
  insert, and whether the scan is over; or the return of the routine.
\<close>

datatype adj = Adj_next bool "nat option" flock lkst | Adj_return "errno option" lkst

definition adj_tail :: "int \<Rightarrow> flock \<Rightarrow> filock \<Rightarrow> lkst \<Rightarrow> (nat \<times> lkst) option" where
  "adj_tail pid ld f st =
     insflck pid ((fk_set f)\<lparr>l_start := l_end ld\<rparr>)
       (Some (last_before (l_start ld) (fk_no f) (lcks_from (fk_no f) (fst st)))) st"

definition adj_own :: "int \<Rightarrow> nat option \<Rightarrow> flock \<Rightarrow> filock \<Rightarrow> lkst \<Rightarrow> adj" where
  "adj_own pid ins ld f st =
     (let same = (l_type ld = fk_type f); rg = regflck ld f; pv = prev_lck (fk_no f) (fst st);
          ins' = (if ins = Some (fk_no f) then pv else ins) in
      if rg = (1, 1) then Adj_next True ins ld st
      else if rg = (1, 2) then
        (if same then Adj_next True ins' (ld\<lparr>l_len := fk_end f\<rparr>) (delflck f st) else Adj_next True ins ld st)
      else if rg = (2, 4) then
        (if same then Adj_return None st else Adj_next False pv ld (delflck f st))
      else if rg = (2, 5) then Adj_next False pv ld (delflck f st)
      else if rg = (1, 4) then Adj_next same ins' ld (delflck f st)
      else if rg = (1, 5) then Adj_next False ins' ld (delflck f st)
      else if rg = (1, 3) then
        (if same then Adj_next True ins' (ld\<lparr>l_len := fk_end f\<rparr>) (delflck f st)
         else case adj_tail pid ld f st of
           None \<Rightarrow> Adj_return (Some ENOSPC) st
         | Some (_, st1) \<Rightarrow> Adj_next True (if ins = Some (fk_no f) then prev_lck (fk_no f) (fst st1) else ins) ld (delflck f st1))
      else if rg = (2, 3) \<or> rg = (3, 3) then
        (if same then Adj_return None st
         else case adj_tail pid ld f st of
           None \<Rightarrow> Adj_return (Some ENOSPC) st
         | Some (_, st1) \<Rightarrow>
             if rg = (3, 3) then Adj_next True (Some (fk_no f)) ld (cutflck f (l_start ld) st1)
             else Adj_next True (prev_lck (fk_no f) (fst st1)) ld (delflck f st1))
      else if rg = (3, 4) then
        (if same then Adj_return None st
         else Adj_next False (Some (fk_no f)) ld (cutflck f (l_start ld) st))
      else if rg = (3, 5) \<or> rg = (4, 5) then
        (if same then Adj_next False pv (ld\<lparr>l_start := fk_start f\<rparr>) (delflck f st)
         else Adj_next False (Some (fk_no f)) ld (cutflck f (l_start ld) st))
      else if rg = (5, 5) then Adj_next False (Some (fk_no f)) ld st
      else Adj_next False ins ld st)"

text \<open>The end of \<^verbatim>\<open>flckadj\<close>: the new lock is inserted unless the request was an unlock.\<close>

definition adj_insert :: "int \<Rightarrow> bool \<Rightarrow> nat option \<Rightarrow> flock \<Rightarrow> lkst \<Rightarrow> errno option \<times> lkst" where
  "adj_insert pid insrtflg ins ld st =
     (if \<not> insrtflg then (None, st)
      else let ins' = (case ins of None \<Rightarrow> None | Some n \<Rightarrow> Some (last_before (l_start ld) n (lcks_from n (fst st)))) in
        (case insflck pid ld ins' st of None \<Rightarrow> (Some ENOSPC, st) | Some (_, st1) \<Rightarrow> (None, st1)))"

fun adj_loop :: "int \<Rightarrow> bool \<Rightarrow> nat list \<Rightarrow> nat option \<Rightarrow> flock \<Rightarrow> lkst \<Rightarrow> errno option \<times> lkst" where
  "adj_loop pid fg [] ins ld st = adj_insert pid fg ins ld st"
| "adj_loop pid fg (n # ns) ins ld st =
     (case find_lck n (fst st) of
        None \<Rightarrow> adj_loop pid fg ns ins ld st
      | Some f \<Rightarrow>
          if fk_pid f = pid then
            (case adj_own pid ins ld f st of
               Adj_return e st1 \<Rightarrow> (e, st1)
             | Adj_next stop ins1 ld1 st1 \<Rightarrow> adj_loop pid fg (if stop then [] else ns) ins1 ld1 st1)
          else adj_loop pid fg (if fk_start f > l_end ld then [] else ns) ins ld st)"

definition flckadj :: "int \<Rightarrow> nat option \<Rightarrow> flock \<Rightarrow> lkst \<Rightarrow> errno option \<times> lkst" where
  "flckadj pid ins ld st =
     adj_loop pid (l_type ld \<noteq> F_UNLCK)
       (map fk_no (case ins of None \<Rightarrow> fst st | Some n \<Rightarrow> lcks_from n (fst st))) ins ld st"

section \<open>Conflicts\<close>

definition lck_conflict :: "int \<Rightarrow> flock \<Rightarrow> filock \<Rightarrow> bool" where
  "lck_conflict pid ld f \<longleftrightarrow> l_start ld < fk_end f \<and> l_end ld > fk_start f \<and> fk_pid f \<noteq> pid
     \<and> (fk_type f = F_WRLCK \<or> fk_type f = F_RDLCK \<and> l_type ld = F_WRLCK)"

text \<open>The two loops of \<^verbatim>\<open>blocked\<close>: the first also finds the place to insert.\<close>

fun blocked_first :: "int \<Rightarrow> flock \<Rightarrow> nat option \<Rightarrow> filock list \<Rightarrow> filock option \<times> nat option \<times> filock list" where
  "blocked_first pid ld ins [] = (None, ins, [])"
| "blocked_first pid ld ins (f # fs) =
     (if fk_start f < l_start ld then
        (if fk_pid f = pid then
           (if l_start ld \<le> fk_end f \<and> l_end ld \<ge> fk_start f then (None, Some (fk_no f), f # fs)
            else blocked_first pid ld (Some (fk_no f)) fs)
         else if lck_conflict pid ld f then (Some f, Some (fk_no f), f # fs)
         else blocked_first pid ld (Some (fk_no f)) fs)
      else (None, ins, f # fs))"

fun blocked_rest :: "int \<Rightarrow> flock \<Rightarrow> filock list \<Rightarrow> filock option" where
  "blocked_rest pid ld [] = None"
| "blocked_rest pid ld (f # fs) =
     (if lck_conflict pid ld f then Some f
      else if fk_start f > l_end ld then None
      else blocked_rest pid ld fs)"

definition blocked :: "int \<Rightarrow> flock \<Rightarrow> filock list \<Rightarrow> filock option \<times> nat option" where
  "blocked pid ld fs =
     (case blocked_first pid ld None fs of
        (Some f, ins, _) \<Rightarrow> (Some f, ins)
      | (None, ins, r) \<Rightarrow> (blocked_rest pid ld r, ins))"

text \<open>
  \<^verbatim>\<open>deadflck\<close> follows the chain of processes sleeping for one another. It does not end if it runs into
  a circle the caller is not on; then the result is \<open>None\<close>.
\<close>

partial_function (option) deadflck :: "int \<Rightarrow> filock list \<Rightarrow> int \<Rightarrow> bool option" where
  "deadflck pid sl blckpid =
     (if blckpid = pid then Some True
      else case List.find (\<lambda>f. fk_pid f = blckpid) sl of
        None \<Rightarrow> Some False
      | Some f \<Rightarrow> deadflck pid sl (fk_stat f))"

section \<open>Calls\<close>

definition convoff :: "ofile \<Rightarrow> int \<Rightarrow> flock \<Rightarrow> errno option \<times> flock" where
  "convoff fp wh ld =
     (if l_whence ld \<notin> {0, 1, 2} then (Some EINVAL, ld)
      else let ld1 = (if l_whence ld = 1 then ld\<lparr>l_start := to_long (l_start ld + f_offset fp)\<rparr>
                      else if l_whence ld = 2 then ld\<lparr>l_start := to_long (l_start ld + f_isize fp)\<rparr> else ld) in
        if l_start ld1 < 0 then (Some EINVAL, ld1)
        else if wh \<notin> {0, 1, 2} then (Some EINVAL, ld1)
        else (None, (if wh = 1 then ld1\<lparr>l_start := to_long (l_start ld1 - f_offset fp)\<rparr>
                     else if wh = 2 then ld1\<lparr>l_start := to_long (l_start ld1 - f_isize fp)\<rparr> else ld1)\<lparr>l_whence := wh\<rparr>))"

definition set_end :: "flock \<Rightarrow> flock" where
  "set_end ld = (if l_len ld = 0 then ld\<lparr>l_len := MAXEND\<rparr> else ld\<lparr>l_len := to_long (l_len ld + l_start ld)\<rparr>)"

definition with_chain :: "nat \<Rightarrow> flsys \<Rightarrow> lkst \<Rightarrow> flsys" where
  "with_chain i s st = (upd_fid i (\<lambda>x. x\<lparr>fl_flck := fst st\<rparr>) s)\<lparr>lkrecs := snd st\<rparr>"

text \<open>\<^verbatim>\<open>getflck\<close>: the first lock in the way, or an unlock if there is none.\<close>

definition getflck :: "ofile \<Rightarrow> int \<Rightarrow> flock \<Rightarrow> flsys \<Rightarrow> errno option \<times> flock \<times> flsys" where
  "getflck fp pid ld s =
     (case findfid fp s of
        (None, s1) \<Rightarrow> (None, ld\<lparr>l_type := F_UNLCK\<rparr>, s1)
      | (Some i, s1) \<Rightarrow>
          (case convoff fp 0 ld of
             (Some e, ld1) \<Rightarrow> (Some e, ld1, s1)
           | (None, ld1) \<Rightarrow>
               let ld2 = set_end ld1;
                   ld3 = (case fst (blocked pid ld2 (fl_flck (flinotab s1 i))) of
                            Some f \<Rightarrow> fk_set f | None \<Rightarrow> ld2\<lparr>l_type := F_UNLCK\<rparr>);
                   ld4 = (if l_end ld3 = MAXEND then ld3\<lparr>l_len := 0\<rparr>
                          else ld3\<lparr>l_len := to_long (l_len ld3 - l_start ld3)\<rparr>);
                   (e, ld5) = convoff fp (l_whence ld) ld4 in
               (e, ld5, freefid i s1)))"

text \<open>
  \<^verbatim>\<open>setflck\<close>: the loop body, which runs again after each sleep. A sleep is on the lock in the way, with
  a record of the waiting request on \<^verbatim>\<open>sleeplcks\<close>, whose number is part of the result.
  \<open>Wild\<close> is a deadlock search that does not end.
\<close>

definition setflck_body :: "int \<Rightarrow> flock \<Rightarrow> bool \<Rightarrow> nat \<Rightarrow> flsys \<Rightarrow> nat outcome \<times> nat option \<times> flsys" where
  "setflck_body pid ld slpflg i s =
     (let finish = (\<lambda>e s. (case e of None \<Rightarrow> Done 0 | Some x \<Rightarrow> Err x, None, freefid i s));
          chain = fl_flck (flinotab s i) in
      if l_type ld = F_RDLCK \<or> l_type ld = F_WRLCK then
        (case blocked pid ld chain of
           (None, ins) \<Rightarrow> (let (e, st) = flckadj pid ins ld (chain, lkrecs s) in finish e (with_chain i s st))
         | (Some f, ins) \<Rightarrow>
             if \<not> slpflg then finish (Some EACCES) s
             else case deadflck pid (sleeplcks s) (fk_pid f) of
               None \<Rightarrow> (Wild, None, s)
             | Some True \<Rightarrow> finish (Some EDEADLK) s
             | Some False \<Rightarrow>
                 (case insflck pid ld None (sleeplcks s, lkrecs s) of
                    None \<Rightarrow> finish (Some ENOSPC) s
                  | Some (n, sl, pl) \<Rightarrow>
                      (Sleep (fk_no f), Some n,
                       upd_fid i (\<lambda>x. x\<lparr>fl_flck := map (\<lambda>y. if fk_no y = fk_no f then y\<lparr>fk_stat := fk_stat y + 1\<rparr> else y) chain\<rparr>)
                         (s\<lparr>sleeplcks := map (\<lambda>y. if fk_no y = n then y\<lparr>fk_stat := fk_pid f\<rparr> else y) sl, lkrecs := pl\<rparr>))))
      else if l_type ld = F_UNLCK then
        (let (e, st) = flckadj pid (case chain of [] \<Rightarrow> None | f # _ \<Rightarrow> Some (fk_no f)) ld (chain, lkrecs s) in
         finish e (with_chain i s st))
      else finish (Some EINVAL) s)"

definition setflck_wake :: "int \<Rightarrow> flock \<Rightarrow> bool \<Rightarrow> nat \<Rightarrow> nat \<Rightarrow> flsys \<Rightarrow> nat outcome \<times> nat option \<times> flsys" where
  "setflck_wake pid ld intr n i s =
     (let sl = map (\<lambda>y. if fk_no y = n then y\<lparr>fk_stat := 0\<rparr> else y) (sleeplcks s);
          s1 = (case find_lck n sl of
                  None \<Rightarrow> s
                | Some f \<Rightarrow> let (sl', pl) = delflck f (sl, lkrecs s) in s\<lparr>sleeplcks := sl', lkrecs := pl\<rparr>) in
      if intr then (Err EINTR, None, freefid i s1) else setflck_body pid ld True i s1)"

definition setflck :: "ofile \<Rightarrow> int \<Rightarrow> flock \<Rightarrow> bool \<Rightarrow> flsys \<Rightarrow> nat outcome \<times> nat option \<times> flsys" where
  "setflck fp pid ld slpflg s =
     (if l_type ld = F_RDLCK \<and> \<not> f_read fp \<or> l_type ld = F_WRLCK \<and> \<not> f_write fp then (Err EBADF, None, s)
      else case convoff fp 0 ld of
        (Some e, _) \<Rightarrow> (Err e, None, s)
      | (None, ld1) \<Rightarrow>
          let ld2 = set_end ld1 in
          (case findfid fp s of
             (Some i, s1) \<Rightarrow> setflck_body pid ld2 slpflg i s1
           | (None, s1) \<Rightarrow>
               if l_type ld = F_UNLCK then (Done 0, None, s1)
               else (case allocfid fp s1 of
                       (None, s2) \<Rightarrow> (Err EMFILE, None, s2)
                     | (Some i, s2) \<Rightarrow> setflck_body pid ld2 slpflg i s2)))"

definition cleanlocks :: "ofile \<Rightarrow> int \<Rightarrow> flsys \<Rightarrow> flsys" where
  "cleanlocks fp pid s =
     (case findfid fp s of
        (None, s1) \<Rightarrow> s1
      | (Some i, s1) \<Rightarrow>
          freefid i (with_chain i s1
            (fold (\<lambda>f st. if fk_pid f = pid then delflck f st else st)
               (fl_flck (flinotab s1 i)) (fl_flck (flinotab s1 i), lkrecs s1))))"


section \<open>Chains as sets of records\<close>

text \<open>The types a process holds at an offset, and the locks of the others.\<close>

definition types_at :: "int \<Rightarrow> filock set \<Rightarrow> int \<Rightarrow> int set" where
  "types_at pid fs x = {fk_type f | f. f \<in> fs \<and> fk_pid f = pid \<and> fk_start f \<le> x \<and> x < fk_end f}"

definition foreign :: "int \<Rightarrow> filock list \<Rightarrow> filock list" where
  "foreign pid fs = filter (\<lambda>f. fk_pid f \<noteq> pid) fs"

text \<open>Records are used once, and the locks of a process are not empty and do not overlap.\<close>

definition lck_ok :: "int \<Rightarrow> filock set \<Rightarrow> bool" where
  "lck_ok pid fs \<longleftrightarrow>
     (\<forall>f \<in> fs. fk_pid f = pid \<longrightarrow> fk_start f < fk_end f \<and> fk_type f \<noteq> F_UNLCK)
     \<and> (\<forall>f \<in> fs. \<forall>g \<in> fs. fk_pid f = pid \<longrightarrow> fk_pid g = pid \<longrightarrow> fk_no f \<noteq> fk_no g \<longrightarrow>
          fk_end f \<le> fk_start g \<or> fk_end g \<le> fk_start f)"

definition recs_ok :: "lkst \<Rightarrow> bool" where
  "recs_ok st \<longleftrightarrow> distinct (map fk_no (fst st) @ frlock (snd st))"

lemma wake_lck_simps [simp]:
  "frlock (wake_lck f pl) = frlock pl" "reccnt (wake_lck f pl) = reccnt pl" "rectot (wake_lck f pl) = rectot pl"
  by (simp_all add: wake_lck_def)

lemma delflck_simps [simp]:
  "fst (delflck f st) = filter (\<lambda>x. fk_no x \<noteq> fk_no f) (fst st)"
  "frlock (snd (delflck f st)) = fk_no f # frlock (snd st)"
  by (simp_all add: delflck_def Let_def)

lemma cutflck_simps [simp]:
  "fst (cutflck f v st)
    = map (\<lambda>x. if fk_no x = fk_no f then x\<lparr>fk_set := (fk_set x)\<lparr>l_len := v\<rparr>, fk_stat := 0\<rparr> else x) (fst st)"
  "frlock (snd (cutflck f v st)) = frlock (snd st)"
  by (simp_all add: cutflck_def)

lemma ins_after_set:
  "(case p of None \<Rightarrow> True | Some n \<Rightarrow> n \<in> fk_no ` set fs) \<Longrightarrow> set (ins_after p x fs) = insert x (set fs)"
  by (induction p x fs rule: ins_after.induct) (auto split: option.splits)

lemma ins_after_nos:
  "distinct (map fk_no fs) \<Longrightarrow> fk_no x \<notin> fk_no ` set fs \<Longrightarrow>
    distinct (map fk_no (ins_after p x fs)) \<and> fk_no ` set (ins_after p x fs) \<subseteq> insert (fk_no x) (fk_no ` set fs)"
proof (induction p x fs rule: ins_after.induct)
  case (3 n x f fs)
  then show ?case by (cases "fk_no f = n") auto
qed auto

lemma ins_after_foreign:
  "fk_pid x = pid \<Longrightarrow> (case p of None \<Rightarrow> True | Some n \<Rightarrow> n \<in> fk_no ` set fs) \<Longrightarrow> foreign pid (ins_after p x fs) = foreign pid fs"
  by (induction p x fs rule: ins_after.induct) (auto simp: foreign_def)

text \<open>The three changes of a chain, on its set of records.\<close>

definition place_ok :: "nat option \<Rightarrow> lkst \<Rightarrow> bool" where
  "place_ok p st \<longleftrightarrow> (case p of None \<Rightarrow> True | Some n \<Rightarrow> n \<in> fk_no ` set (fst st))"

lemma insflck_spec:
  assumes "recs_ok st" "place_ok p st" "insflck pid ld p st = Some (n, st')"
  shows "recs_ok st'" "set (fst st') = insert \<lparr>fk_no = n, fk_set = ld\<lparr>l_pid := pid\<rparr>, fk_stat = 0\<rparr> (set (fst st))"
    "foreign pid (fst st') = foreign pid (fst st)" "n \<notin> fk_no ` set (fst st)"
    "length (frlock (snd st)) = Suc (length (frlock (snd st')))"
proof -
  let ?x = "\<lparr>fk_no = n, fk_set = ld\<lparr>l_pid := pid\<rparr>, fk_stat = 0\<rparr>"
  obtain r where r: "frlock (snd st) = n # r" "fst st' = ins_after p ?x (fst st)" "frlock (snd st') = r"
    using assms(3) by (auto simp: insflck_def split: list.splits)
  then have n: "n \<notin> fk_no ` set (fst st)" "distinct (map fk_no (fst st))" "distinct r" "n \<notin> set r"
    "fk_no ` set (fst st) \<inter> set r = {}" using assms(1) by (auto simp: recs_ok_def)
  have i: "distinct (map fk_no (ins_after p ?x (fst st)))" "fk_no ` set (ins_after p ?x (fst st)) \<subseteq> insert n (fk_no ` set (fst st))"
    using ins_after_nos [where x = "?x" and p = p and fs = "fst st"] n(1,2) by simp_all
  from i(2) n(4,5) have "fk_no ` set (ins_after p ?x (fst st)) \<inter> set r = {}" by blast
  with i(1) n(3) show "recs_ok st'" by (simp add: recs_ok_def r(2,3))
  show "set (fst st') = insert ?x (set (fst st))" using ins_after_set [where x = "?x" and p = p and fs = "fst st"] assms(2) r by (simp add: place_ok_def)
  show "foreign pid (fst st') = foreign pid (fst st)"
    using ins_after_foreign [where x = "?x" and p = p and fs = "fst st" and pid = pid] assms(2) r by (simp add: place_ok_def)
  show "n \<notin> fk_no ` set (fst st)" by (rule n)
  show "length (frlock (snd st)) = Suc (length (frlock (snd st')))" using r by simp
qed

lemma recs_ok_unique: "\<lbrakk>recs_ok st; f \<in> set (fst st); g \<in> set (fst st); fk_no f = fk_no g\<rbrakk> \<Longrightarrow> f = g"
  by (auto simp: recs_ok_def distinct_map inj_on_def)

lemma delflck_spec:
  assumes "recs_ok st" "f \<in> set (fst st)"
  shows "recs_ok (delflck f st)" "set (fst (delflck f st)) = set (fst st) - {f}"
    "fk_pid f = pid \<Longrightarrow> foreign pid (fst (delflck f st)) = foreign pid (fst st)"
    "frlock (snd (delflck f st)) = fk_no f # frlock (snd st)"
proof -
  show "recs_ok (delflck f st)" using assms by (auto simp: recs_ok_def distinct_map_filter)
  have u: "x = f" if "x \<in> set (fst st)" "fk_no x = fk_no f" for x
    using recs_ok_unique [OF assms] that by metis
  show "set (fst (delflck f st)) = set (fst st) - {f}" using u by auto
  show "fk_pid f = pid \<Longrightarrow> foreign pid (fst (delflck f st)) = foreign pid (fst st)"
    using u by (auto simp: foreign_def intro!: filter_cong)
qed simp

lemma cutflck_spec:
  assumes "recs_ok st" "f \<in> set (fst st)"
  shows "recs_ok (cutflck f v st)"
    "set (fst (cutflck f v st)) = insert (f\<lparr>fk_set := (fk_set f)\<lparr>l_len := v\<rparr>, fk_stat := 0\<rparr>) (set (fst st) - {f})"
    "fk_pid f = pid \<Longrightarrow> foreign pid (fst (cutflck f v st)) = foreign pid (fst st)"
proof -
  have "map fk_no (fst (cutflck f v st)) = map fk_no (fst st)" by simp
  then show "recs_ok (cutflck f v st)" using assms(1) by (simp only: recs_ok_def cutflck_simps(2))
  show "set (fst (cutflck f v st)) = insert (f\<lparr>fk_set := (fk_set f)\<lparr>l_len := v\<rparr>, fk_stat := 0\<rparr>) (set (fst st) - {f})"
  proof -
    have u: "fk_no x = fk_no f \<longleftrightarrow> x = f" if "x \<in> set (fst st)" for x
      using recs_ok_unique [OF assms that] by metis
    have "set (fst (cutflck f v st))
      = (\<lambda>x. if x = f then x\<lparr>fk_set := (fk_set x)\<lparr>l_len := v\<rparr>, fk_stat := 0\<rparr> else x) ` set (fst st)"
      unfolding cutflck_simps set_map by (intro image_cong) (simp_all add: u)
    then show ?thesis using assms(2) by auto
  qed
  assume p: "fk_pid f = pid"
  have "\<forall>x \<in> set l. fk_no x = fk_no f \<longrightarrow> x = f \<Longrightarrow>
    foreign pid (map (\<lambda>x. if fk_no x = fk_no f then x\<lparr>fk_set := (fk_set x)\<lparr>l_len := v\<rparr>, fk_stat := 0\<rparr> else x) l) = foreign pid l" for l
    using p by (induction l) (auto simp: foreign_def)
  moreover have "\<forall>x \<in> set (fst st). fk_no x = fk_no f \<longrightarrow> x = f" using recs_ok_unique [OF assms] by metis
  ultimately show "foreign pid (fst (cutflck f v st)) = foreign pid (fst st)" by simp
qed

section \<open>One round of the adjustment\<close>

text \<open>What a request of the process promises at an offset.\<close>

definition overlay :: "int \<Rightarrow> flock \<Rightarrow> filock set \<Rightarrow> int \<Rightarrow> int set" where
  "overlay pid ld fs x =
     (if l_start ld \<le> x \<and> x < l_end ld then (if l_type ld = F_UNLCK then {} else {l_type ld}) else types_at pid fs x)"

definition clear_of :: "int \<Rightarrow> nat list \<Rightarrow> flock \<Rightarrow> filock set \<Rightarrow> bool" where
  "clear_of pid ns ld fs \<longleftrightarrow>
     (\<forall>g \<in> fs. fk_pid g = pid \<longrightarrow> fk_no g \<notin> set ns \<longrightarrow> fk_end g \<le> l_start ld \<or> l_end ld \<le> fk_start g)"

text \<open>The loop's invariant, for the locks \<open>r\<close> it has still to visit.\<close>

definition adj_inv :: "int \<Rightarrow> nat option \<Rightarrow> filock list \<Rightarrow> flock \<Rightarrow> lkst \<Rightarrow> bool" where
  "adj_inv pid ins r ld st \<longleftrightarrow>
     recs_ok st \<and> lck_ok pid (set (fst st)) \<and> l_start ld < l_end ld \<and> clear_of pid (map fk_no r) ld (set (fst st))
     \<and> place_ok ins st \<and> set r \<subseteq> set (fst st) \<and> distinct r \<and> sorted (map fk_start r)"

definition adj_res :: "int \<Rightarrow> filock list \<Rightarrow> flock \<Rightarrow> lkst \<Rightarrow> bool \<Rightarrow> nat option \<Rightarrow> flock \<Rightarrow> lkst \<Rightarrow> bool" where
  "adj_res pid r ld st stop ins1 ld1 st1 \<longleftrightarrow>
     adj_inv pid ins1 (if stop then [] else r) ld1 st1 \<and> l_type ld1 = l_type ld
     \<and> foreign pid (fst st1) = foreign pid (fst st)
     \<and> (\<forall>x. overlay pid ld1 (set (fst st1)) x = overlay pid ld (set (fst st)) x)
     \<and> length (frlock (snd st)) \<le> length (frlock (snd st1)) + (if stop then 1 else 0)"

lemma types_remove:
  assumes "lck_ok pid S" "f \<in> S" "fk_pid f = pid" "\<forall>g \<in> S. fk_no g = fk_no f \<longrightarrow> g = f"
  shows "types_at pid S x = (if fk_start f \<le> x \<and> x < fk_end f then {fk_type f} else types_at pid (S - {f}) x)"
    "\<lbrakk>fk_start f \<le> x; x < fk_end f\<rbrakk> \<Longrightarrow> types_at pid (S - {f}) x = {}"
proof -
  have d: "fk_end f \<le> fk_start g \<or> fk_end g \<le> fk_start f" if "g \<in> S" "fk_pid g = pid" "g \<noteq> f" for g
    using assms that unfolding lck_ok_def by metis
  show e: "types_at pid (S - {f}) x = {}" if "fk_start f \<le> x" "x < fk_end f"
    using d that unfolding types_at_def by fastforce
  have "types_at pid S x = (if fk_start f \<le> x \<and> x < fk_end f then insert (fk_type f) (types_at pid (S - {f}) x) else types_at pid (S - {f}) x)"
    using assms(2,3) unfolding types_at_def by auto
  then show "types_at pid S x = (if fk_start f \<le> x \<and> x < fk_end f then {fk_type f} else types_at pid (S - {f}) x)"
    using e by simp
qed

lemma types_insert:
  "fk_pid g = pid \<Longrightarrow> types_at pid (insert g S) x =
    (if fk_start g \<le> x \<and> x < fk_end g then insert (fk_type g) (types_at pid S x) else types_at pid S x)"
  unfolding types_at_def by auto

lemma lck_ok_D:
  assumes "lck_ok pid S" "f \<in> S" "fk_pid f = pid"
  shows "fk_start f < fk_end f" "fk_type f \<noteq> F_UNLCK"
    "\<lbrakk>g \<in> S; fk_pid g = pid; fk_no g \<noteq> fk_no f\<rbrakk> \<Longrightarrow> fk_end f \<le> fk_start g \<or> fk_end g \<le> fk_start f"
  using assms unfolding lck_ok_def by (blast, blast, metis)

lemma lck_ok_subset: "lck_ok pid S \<Longrightarrow> T \<subseteq> S \<Longrightarrow> lck_ok pid T"
  unfolding lck_ok_def by (meson subsetD)

lemma lck_ok_insert:
  assumes "lck_ok pid S" "fk_pid g = pid \<Longrightarrow> fk_start g < fk_end g \<and> fk_type g \<noteq> F_UNLCK"
    "\<And>f. \<lbrakk>f \<in> S; fk_pid f = pid; fk_pid g = pid\<rbrakk> \<Longrightarrow> fk_end f \<le> fk_start g \<or> fk_end g \<le> fk_start f"
  shows "lck_ok pid (insert g S)"
  unfolding lck_ok_def
proof (intro conjI ballI impI)
  fix a b assume "a \<in> insert g S" "b \<in> insert g S" "fk_pid a = pid" "fk_pid b = pid" "fk_no a \<noteq> fk_no b"
  then show "fk_end a \<le> fk_start b \<or> fk_end b \<le> fk_start a"
    using assms(3) [of a] assms(3) [of b] lck_ok_D(3) [OF assms(1), of a b] by auto
qed (use assms(1,2) lck_ok_D(1,2) in blast)+

text \<open>What the invariant says of the lock visited and of the others of the process.\<close>

lemma adj_inv_D:
  assumes "adj_inv pid ins (f # r) ld st" "fk_pid f = pid"
  shows "recs_ok st" "lck_ok pid (set (fst st))" "l_start ld < l_end ld" "place_ok ins st" "f \<in> set (fst st)"
    "\<forall>g \<in> set (fst st). fk_no g = fk_no f \<longrightarrow> g = f" "fk_start f < fk_end f" "fk_type f \<noteq> F_UNLCK"
    "set r \<subseteq> set (fst st) - {f}" "distinct r" "sorted (map fk_start r)"
proof -
  show *: "recs_ok st" "lck_ok pid (set (fst st))" "l_start ld < l_end ld" "place_ok ins st" "f \<in> set (fst st)"
    "set r \<subseteq> set (fst st) - {f}" "distinct r" "sorted (map fk_start r)"
    using assms(1) by (auto simp: adj_inv_def)
  show "\<forall>g \<in> set (fst st). fk_no g = fk_no f \<longrightarrow> g = f" using recs_ok_unique [OF *(1) _ *(5)] by blast
  show "fk_start f < fk_end f" "fk_type f \<noteq> F_UNLCK" using lck_ok_D [OF *(2,5) assms(2)] by simp_all
qed

lemma adj_inv_others:
  assumes "adj_inv pid ins (f # r) ld st" "fk_pid f = pid" "g \<in> set (fst st)" "fk_pid g = pid" "g \<noteq> f"
  shows "fk_start g < fk_end g" "fk_end f \<le> fk_start g \<or> fk_end g \<le> fk_start f"
    "fk_no g \<in> fk_no ` set r \<Longrightarrow> fk_end f \<le> fk_start g"
    "fk_no g \<notin> fk_no ` set r \<Longrightarrow> fk_end g \<le> l_start ld \<or> l_end ld \<le> fk_start g"
proof -
  note D = adj_inv_D [OF assms(1,2)]
  have n: "fk_no g \<noteq> fk_no f" using D(6) assms(3,5) by auto
  show 1: "fk_start g < fk_end g" using lck_ok_D(1) [OF D(2) assms(3,4)] .
  show 2: "fk_end f \<le> fk_start g \<or> fk_end g \<le> fk_start f" using lck_ok_D(3) [OF D(2,5) assms(2,3,4) n] .
  show "fk_end f \<le> fk_start g" if "fk_no g \<in> fk_no ` set r"
  proof -
    have "g \<in> set r" using that D(9) recs_ok_unique [OF D(1) assms(3)] by auto
    then have "fk_start f \<le> fk_start g" using assms(1) by (simp add: adj_inv_def)
    then show ?thesis using 1 2 by linarith
  qed
  show "fk_end g \<le> l_start ld \<or> l_end ld \<le> fk_start g" if "fk_no g \<notin> fk_no ` set r"
    using assms(1,3,4) n that by (auto simp: adj_inv_def clear_of_def)
qed

text \<open>The lock visited is left, and replaced by pieces of it that the new request does not touch.\<close>

lemma adj_resI:
  assumes inv: "adj_inv pid ins (f # r) ld st" and f: "fk_pid f = pid"
    and st1: "recs_ok st1" "set (fst st1) = T \<union> (set (fst st) - {f})" "foreign pid (fst st1) = foreign pid (fst st)"
      "place_ok ins1 st1" "length (frlock (snd st)) \<le> length (frlock (snd st1)) + (if stop then 1 else 0)"
    and ld1: "l_type ld1 = l_type ld" "l_start ld1 < l_end ld1"
    and T: "\<And>t. t \<in> T \<Longrightarrow> fk_pid t = pid \<and> fk_type t = fk_type f \<and> fk_start f \<le> fk_start t \<and> fk_start t < fk_end t \<and> fk_end t \<le> fk_end f
        \<and> (fk_end t \<le> l_start ld1 \<or> l_end ld1 \<le> fk_start t)"
      "\<And>t u. \<lbrakk>t \<in> T; u \<in> T; t \<noteq> u\<rbrakk> \<Longrightarrow> fk_end t \<le> fk_start u \<or> fk_end u \<le> fk_start t"
    and clr: "\<And>g. \<lbrakk>g \<in> set (fst st); fk_pid g = pid; g \<noteq> f; stop \<or> fk_no g \<notin> fk_no ` set r\<rbrakk> \<Longrightarrow> fk_end g \<le> l_start ld1 \<or> l_end ld1 \<le> fk_start g"
    and ov: "\<And>x B. (fk_start f \<le> x \<and> x < fk_end f \<longrightarrow> B = {}) \<Longrightarrow>
      (if l_start ld1 \<le> x \<and> x < l_end ld1 then (if l_type ld = F_UNLCK then {} else {l_type ld})
       else if \<exists>t \<in> T. fk_start t \<le> x \<and> x < fk_end t then insert (fk_type f) B else B)
      = (if l_start ld \<le> x \<and> x < l_end ld then (if l_type ld = F_UNLCK then {} else {l_type ld})
       else if fk_start f \<le> x \<and> x < fk_end f then {fk_type f} else B)"
  shows "adj_res pid r ld st stop ins1 ld1 st1"
proof -
  note D = adj_inv_D [OF inv f] and O = adj_inv_others [OF inv f]
  let ?S = "set (fst st) - {f}"
  have t: "types_at pid (set (fst st1)) x = (if \<exists>t \<in> T. fk_start t \<le> x \<and> x < fk_end t then insert (fk_type f) (types_at pid ?S x) else types_at pid ?S x)" for x
  proof -
    have "types_at pid (set (fst st1)) x = types_at pid T x \<union> types_at pid ?S x"
      unfolding st1(2) types_at_def by blast
    moreover have "types_at pid T x = (if \<exists>t \<in> T. fk_start t \<le> x \<and> x < fk_end t then {fk_type f} else {})"
      using T(1) unfolding types_at_def by (auto; metis)
    ultimately show ?thesis
      by (cases "\<exists>t \<in> T. fk_start t \<le> x \<and> x < fk_end t") (simp_all only: if_True if_False Un_insert_left Un_empty_left)
  qed
  have "overlay pid ld1 (set (fst st1)) x = overlay pid ld (set (fst st)) x" for x
  proof -
    have "fk_start f \<le> x \<and> x < fk_end f \<longrightarrow> types_at pid ?S x = {}" using types_remove(2) [OF D(2,5) f D(6)] by blast
    from ov [OF this] show ?thesis
      unfolding overlay_def t ld1(1) types_remove(1) [OF D(2,5) f D(6), of x] .
  qed
  moreover have "lck_ok pid (set (fst st1))"
    unfolding lck_ok_def
  proof (intro conjI ballI impI)
    fix a b assume a: "a \<in> set (fst st1)" "fk_pid a = pid" and b: "b \<in> set (fst st1)" "fk_pid b = pid" and n: "fk_no a \<noteq> fk_no b"
    have *: "fk_end t \<le> fk_start g \<or> fk_end g \<le> fk_start t" if "t \<in> T" "g \<in> ?S" "fk_pid g = pid" for t g
      using T(1) [OF that(1)] O(2) [of g] that(2,3) by force
    show "fk_end a \<le> fk_start b \<or> fk_end b \<le> fk_start a"
    proof (cases "a \<in> T"; cases "b \<in> T")
      assume "a \<in> T" "b \<in> T"
      moreover have "a \<noteq> b" using n by blast
      ultimately show ?thesis by (rule T(2))
    next
      assume "a \<in> T" "b \<notin> T"
      then show ?thesis using * [of a b] b unfolding st1(2) by blast
    next
      assume "a \<notin> T" "b \<in> T"
      then show ?thesis using * [of b a] a unfolding st1(2) by blast
    next
      assume "a \<notin> T" "b \<notin> T"
      then show ?thesis using lck_ok_D(3) [OF D(2), of a b] a b n unfolding st1(2) by auto
    qed
  next
    fix a assume "a \<in> set (fst st1)" "fk_pid a = pid"
    then show "fk_start a < fk_end a" "fk_type a \<noteq> F_UNLCK"
      unfolding st1(2) using T(1) [of a] D(8) lck_ok_D(1,2) [OF D(2), of a] by auto
  qed
  moreover have "clear_of pid (map fk_no (if stop then [] else r)) ld1 (set (fst st1))"
    unfolding clear_of_def st1(2) using T(1) clr by (auto split: if_splits)
  moreover have "set (if stop then [] else r) \<subseteq> set (fst st1)" "distinct (if stop then [] else r)"
    "sorted (map fk_start (if stop then [] else r))"
    using D(9,10,11) st1(2) by auto
  ultimately show ?thesis using st1 ld1 by (simp add: adj_res_def adj_inv_def)
qed

text \<open>The kinds of rounds: the lock is passed by, covered, joined, severed at one end, or split.\<close>

lemma adj_res_pass:
  assumes "adj_inv pid ins (f # r) ld st" "fk_pid f = pid" "place_ok ins1 st"
    and "fk_end f \<le> l_start ld \<or> l_end ld \<le> fk_start f" "stop \<Longrightarrow> l_end ld \<le> fk_end f"
  shows "adj_res pid r ld st stop ins1 ld st"
proof (rule adj_resI [where T = "{f}", OF assms(1,2)])
  note D = adj_inv_D [OF assms(1,2)]
  show "recs_ok st" "set (fst st) = {f} \<union> (set (fst st) - {f})" "l_start ld < l_end ld" using D by auto
  show "fk_end g \<le> l_start ld \<or> l_end ld \<le> fk_start g"
    if "g \<in> set (fst st)" "fk_pid g = pid" "g \<noteq> f" "stop \<or> fk_no g \<notin> fk_no ` set r" for g
    using adj_inv_others [OF assms(1,2) that(1,2,3)] that(4) assms(5) by (meson order_trans)
qed (use assms adj_inv_D(7) [OF assms(1,2)] in auto)

lemma adj_res_cover:
  assumes "adj_inv pid ins (f # r) ld st" "fk_pid f = pid" "place_ok ins1 (delflck f st)"
    and "l_start ld \<le> fk_start f" "fk_end f \<le> l_end ld" "stop \<Longrightarrow> fk_end f = l_end ld"
  shows "adj_res pid r ld st stop ins1 ld (delflck f st)"
proof (rule adj_resI [where T = "{}", OF assms(1,2)])
  note D = adj_inv_D [OF assms(1,2)] and E = delflck_spec [OF D(1,5)]
  show "recs_ok (delflck f st)" "set (fst (delflck f st)) = {} \<union> (set (fst st) - {f})"
    "foreign pid (fst (delflck f st)) = foreign pid (fst st)" "l_start ld < l_end ld" using D E assms(2) by auto
  show "fk_end g \<le> l_start ld \<or> l_end ld \<le> fk_start g"
    if "g \<in> set (fst st)" "fk_pid g = pid" "g \<noteq> f" "stop \<or> fk_no g \<notin> fk_no ` set r" for g
    using adj_inv_others [OF assms(1,2) that(1,2,3)] that(4) assms(6) by (metis)
qed (use assms in auto)

lemma adj_res_join:
  assumes "adj_inv pid ins (f # r) ld st" "fk_pid f = pid" "place_ok ins1 (delflck f st)" "fk_type f = l_type ld"
    and "fk_start f \<le> l_end ld" "l_start ld \<le> fk_end f" "stop \<Longrightarrow> l_end ld \<le> fk_end f"
    and "l_start ld1 = min (l_start ld) (fk_start f)" "l_end ld1 = max (l_end ld) (fk_end f)" "l_type ld1 = l_type ld"
  shows "adj_res pid r ld st stop ins1 ld1 (delflck f st)"
proof (rule adj_resI [where T = "{}", OF assms(1,2)])
  note D = adj_inv_D [OF assms(1,2)] and E = delflck_spec [OF D(1,5)]
  show "recs_ok (delflck f st)" "set (fst (delflck f st)) = {} \<union> (set (fst st) - {f})"
    "foreign pid (fst (delflck f st)) = foreign pid (fst st)" "l_start ld1 < l_end ld1" using D E assms by auto
  show "fk_end g \<le> l_start ld1 \<or> l_end ld1 \<le> fk_start g"
    if "g \<in> set (fst st)" "fk_pid g = pid" "g \<noteq> f" "stop \<or> fk_no g \<notin> fk_no ` set r" for g
    using adj_inv_others [OF assms(1,2) that(1,2,3)] that(4) assms D(3,7) by (cases "fk_no g \<in> fk_no ` set r") auto
  fix x and B :: "int set"
  show "(if l_start ld1 \<le> x \<and> x < l_end ld1 then if l_type ld = F_UNLCK then {} else {l_type ld}
      else if \<exists>t\<in>{}. fk_start t \<le> x \<and> x < fk_end t then insert (fk_type f) B else B) =
     (if l_start ld \<le> x \<and> x < l_end ld then if l_type ld = F_UNLCK then {} else {l_type ld}
      else if fk_start f \<le> x \<and> x < fk_end f then {fk_type f} else B)"
    using assms(4-6,8,9) D(3,7,8) by auto
qed (use assms in auto)

lemma adj_res_front:
  assumes inv: "adj_inv pid ins (f # r) ld st" and f: "fk_pid f = pid" and p: "place_ok p st"
    and i: "insflck pid ((fk_set f)\<lparr>l_start := l_end ld\<rparr>) p st = Some (n, st1)" and ins1: "place_ok ins1 (delflck f st1)"
    and o: "l_start ld \<le> fk_start f" "fk_start f < l_end ld" "l_end ld < fk_end f"
  shows "adj_res pid r ld st True ins1 ld (delflck f st1)"
proof (rule adj_resI [OF inv f])
  note D = adj_inv_D [OF inv f] and I = insflck_spec [OF adj_inv_D(1) [OF inv f] p i]
  let ?t = "\<lparr>fk_no = n, fk_set = (fk_set f)\<lparr>l_start := l_end ld, l_pid := pid\<rparr>, fk_stat = 0\<rparr>"
  have "f \<in> set (fst st1)" using I(2) D(5) by simp
  note E = delflck_spec [OF I(1) this]
  have "fk_no f \<noteq> n" using I(4) D(5) by auto
  then have "?t \<noteq> f" by (metis filock.select_convs(1))
  then show "set (fst (delflck f st1)) = {?t} \<union> (set (fst st) - {f})" using E(2) I(2) by auto
  show "recs_ok (delflck f st1)" "foreign pid (fst (delflck f st1)) = foreign pid (fst st)" using E(1,3) I(3) f by auto
  show "length (frlock (snd st)) \<le> length (frlock (snd (delflck f st1))) + (if True then 1 else 0)" using E(4) I(5) by simp
  show "fk_end g \<le> l_start ld \<or> l_end ld \<le> fk_start g"
    if "g \<in> set (fst st)" "fk_pid g = pid" "g \<noteq> f" "True \<or> fk_no g \<notin> fk_no ` set r" for g
    using adj_inv_others [OF inv f that(1,2,3)] o by (cases "fk_no g \<in> fk_no ` set r") auto
qed (use ins1 o adj_inv_D(3) [OF inv f] in auto)

lemma adj_res_back:
  assumes inv: "adj_inv pid ins (f # r) ld st" and f: "fk_pid f = pid"
    and o: "fk_start f < l_start ld" "l_start ld \<le> fk_end f" "fk_end f \<le> l_end ld"
  shows "adj_res pid r ld st False (Some (fk_no f)) ld (cutflck f (l_start ld) st)"
proof (rule adj_resI [OF inv f])
  note D = adj_inv_D [OF inv f] and E = cutflck_spec [OF adj_inv_D(1,5) [OF inv f]]
  let ?t = "f\<lparr>fk_set := (fk_set f)\<lparr>l_len := l_start ld\<rparr>, fk_stat := 0\<rparr>"
  show s: "set (fst (cutflck f (l_start ld) st)) = {?t} \<union> (set (fst st) - {f})" using E(2) by auto
  show "recs_ok (cutflck f (l_start ld) st)" "foreign pid (fst (cutflck f (l_start ld) st)) = foreign pid (fst st)" using E(1,3) f by auto
  show "place_ok (Some (fk_no f)) (cutflck f (l_start ld) st)" using s unfolding place_ok_def by auto
  show "fk_end g \<le> l_start ld \<or> l_end ld \<le> fk_start g"
    if "g \<in> set (fst st)" "fk_pid g = pid" "g \<noteq> f" "False \<or> fk_no g \<notin> fk_no ` set r" for g
    using adj_inv_others [OF inv f that(1,2,3)] that(4) by auto
qed (use o f adj_inv_D(3) [OF inv f] in auto)

lemma adj_res_split:
  assumes inv: "adj_inv pid ins (f # r) ld st" and f: "fk_pid f = pid" and p: "place_ok p st"
    and i: "insflck pid ((fk_set f)\<lparr>l_start := l_end ld\<rparr>) p st = Some (n, st1)"
    and o: "fk_start f < l_start ld" "l_end ld < fk_end f"
  shows "adj_res pid r ld st True (Some (fk_no f)) ld (cutflck f (l_start ld) st1)"
proof (rule adj_resI [OF inv f])
  note D = adj_inv_D [OF inv f] and I = insflck_spec [OF adj_inv_D(1) [OF inv f] p i]
  let ?t = "\<lparr>fk_no = n, fk_set = (fk_set f)\<lparr>l_start := l_end ld, l_pid := pid\<rparr>, fk_stat = 0\<rparr>"
  let ?u = "f\<lparr>fk_set := (fk_set f)\<lparr>l_len := l_start ld\<rparr>, fk_stat := 0\<rparr>"
  have "f \<in> set (fst st1)" using I(2) D(5) by simp
  note E = cutflck_spec [OF I(1) this]
  have "fk_no f \<noteq> n" using I(4) D(5) by auto
  then have "?t \<noteq> f" by (metis filock.select_convs(1))
  then show s: "set (fst (cutflck f (l_start ld) st1)) = {?t, ?u} \<union> (set (fst st) - {f})" using E(2) I(2) by auto
  show "recs_ok (cutflck f (l_start ld) st1)" "foreign pid (fst (cutflck f (l_start ld) st1)) = foreign pid (fst st)"
    using E(1,3) I(3) f by auto
  show "place_ok (Some (fk_no f)) (cutflck f (l_start ld) st1)" using s unfolding place_ok_def by auto
  show "length (frlock (snd st)) \<le> length (frlock (snd (cutflck f (l_start ld) st1))) + (if True then 1 else 0)" using I(5) by simp
  show "fk_end g \<le> l_start ld \<or> l_end ld \<le> fk_start g"
    if "g \<in> set (fst st)" "fk_pid g = pid" "g \<noteq> f" "True \<or> fk_no g \<notin> fk_no ` set r" for g
    using adj_inv_others [OF inv f that(1,2,3)] o by (cases "fk_no g \<in> fk_no ` set r") auto
qed (use o f adj_inv_D(3) [OF inv f] in auto)

text \<open>The places the code computes are in the chain.\<close>

lemma prev_lck_in: "distinct (map fk_no fs) \<Longrightarrow> prev_lck n fs = Some m \<Longrightarrow> m \<in> fk_no ` set fs - {n}"
  by (induction n fs rule: prev_lck.induct) (auto split: if_splits)

lemma last_before_in: "last_before v n fs \<in> insert n (fk_no ` set fs)"
  by (induction v n fs rule: last_before.induct) auto

lemma lcks_from_sub: "set (lcks_from n fs) \<subseteq> set fs"
  unfolding lcks_from_def by (meson set_dropWhileD subsetI)

lemma place_prev:
  assumes "recs_ok st" "f \<in> set (fst st)"
  shows "place_ok (prev_lck (fk_no f) (fst st)) (delflck f st)" "place_ok (prev_lck (fk_no f) (fst st)) st"
  using assms prev_lck_in [of "fst st" "fk_no f"]
  by (auto simp: place_ok_def recs_ok_def split: option.split)

lemma place_keep:
  assumes "recs_ok st" "f \<in> set (fst st)" "place_ok ins st"
  shows "place_ok (if ins = Some (fk_no f) then prev_lck (fk_no f) (fst st) else ins) (delflck f st)"
  using place_prev [OF assms(1,2)] assms(3) by (auto simp: place_ok_def split: option.split)

lemma place_last:
  assumes "n \<in> fk_no ` set (fst st)"
  shows "place_ok (Some (last_before v n (lcks_from m (fst st)))) st"
  using last_before_in [of v n "lcks_from m (fst st)"] lcks_from_sub [of m "fst st"] assms unfolding place_ok_def by auto

section \<open>The adjustment\<close>

lemma regflck_regions:
  assumes "l_start ld < l_end ld" "fk_start f < fk_end f"
  shows "regflck ld f =
    (if fk_end f < l_start ld then (5, 5) else if l_start ld = fk_end f then (4, 5)
     else (if fk_start f < l_start ld then 3 else if fk_start f = l_start ld then 2 else 1,
       if l_end ld < fk_start f then 1 else if l_end ld = fk_start f then 2 else if l_end ld < fk_end f then 3
       else if l_end ld = fk_end f then 4 else 5))"
  using assms by (auto simp: regflck_def)

lemma insflck_full: "insflck pid ld p st = None \<longleftrightarrow> frlock (snd st) = []"
  by (auto simp: insflck_def split: list.splits)

text \<open>The places the code goes on from when the front of a lock has been taken away.\<close>

lemma adj_tail_front:
  assumes inv: "adj_inv pid ins (f # r) ld st" and f: "fk_pid f = pid" and p: "place_ok p st"
    and i: "insflck pid ((fk_set f)\<lparr>l_start := l_end ld\<rparr>) p st = Some (n, st1)"
    and o: "l_start ld \<le> fk_start f" "fk_start f < l_end ld" "l_end ld < fk_end f"
  shows "adj_res pid r ld st True (if ins = Some (fk_no f) then prev_lck (fk_no f) (fst st1) else ins) ld (delflck f st1)"
    "adj_res pid r ld st True (prev_lck (fk_no f) (fst st1)) ld (delflck f st1)"
proof -
  note D = adj_inv_D [OF inv f] and I = insflck_spec [OF adj_inv_D(1) [OF inv f] p i]
  have s: "f \<in> set (fst st1)" "place_ok ins st1" using I(2) D(4,5) by (auto simp: place_ok_def split: option.splits)
  show "adj_res pid r ld st True (if ins = Some (fk_no f) then prev_lck (fk_no f) (fst st1) else ins) ld (delflck f st1)"
    by (rule adj_res_front [OF inv f p i place_keep [OF I(1) s] o])
  show "adj_res pid r ld st True (prev_lck (fk_no f) (fst st1)) ld (delflck f st1)"
    by (rule adj_res_front [OF inv f p i place_prev(1) [OF I(1) s(1)] o])
qed

lemma adj_own_step:
  assumes inv: "adj_inv pid ins (f # r) ld st" and f: "fk_pid f = pid"
  shows "case adj_own pid ins ld f st of
      Adj_next stop ins1 ld1 st1 \<Rightarrow> adj_res pid r ld st stop ins1 ld1 st1
    | Adj_return None st1 \<Rightarrow> st1 = st \<and> l_type ld = fk_type f \<and> fk_start f \<le> l_start ld \<and> l_end ld \<le> fk_end f
    | Adj_return (Some e) st1 \<Rightarrow> e = ENOSPC \<and> st1 = st \<and> frlock (snd st) = []"
proof -
  note D = adj_inv_D [OF inv f]
  let ?s = "l_start ld" and ?e = "l_end ld" and ?a = "fk_start f" and ?b = "fk_end f"
  note P = place_prev [OF D(1,5)] and K = place_keep [OF D(1,5,4)]
  note R = regflck_regions [OF D(3,7)]
  have self: "place_ok (Some (fk_no f)) st" using D(5) by (auto simp: place_ok_def)
  show ?thesis
  proof (cases "l_type ld = fk_type f")
    case True
    consider "?e < ?a" | "?b < ?s" | "?e = ?a" | "?a \<le> ?s" "?e \<le> ?b" | "?a < ?s" "?s \<le> ?b" "?b < ?e" | "?s < ?a" "?b \<le> ?e" | "?s = ?a" "?b < ?e"
      | "?s < ?a" "?a < ?e" "?e < ?b"
      using D(3,7) by atomize_elim arith
    then show ?thesis
    proof cases
      case 1
      then show ?thesis using R True adj_res_pass [OF inv f D(4), of True] D(3,7) by (simp add: adj_own_def)
    next
      case 2
      then show ?thesis using R True adj_res_pass [OF inv f self, of False] D(3,7) by (simp add: adj_own_def)
    next
      case 3
      then show ?thesis using R True K D(3,7) adj_res_join [OF inv f K, of True "ld\<lparr>l_len := ?b\<rparr>"] by (simp add: adj_own_def Let_def)
    next
      case 4
      then show ?thesis using R True D(3,7) by (simp add: adj_own_def Let_def)
    next
      case 5
      then show ?thesis using R True D(3,7) adj_res_join [OF inv f P(1), of False "ld\<lparr>l_start := ?a\<rparr>"] by (simp add: adj_own_def Let_def)
    next
      case 6
      then show ?thesis using R True D(3,7) adj_res_cover [OF inv f K, of "?b = ?e"] by (cases "?e = ?b"; cases "ins = Some (fk_no f)"; simp add: adj_own_def Let_def)
    next
      case 7
      then show ?thesis using R True D(3,7) adj_res_cover [OF inv f P(1), of False] by (simp add: adj_own_def Let_def)
    next
      case 8
      then show ?thesis using R True D(3,7) adj_res_join [OF inv f K, of True "ld\<lparr>l_len := ?b\<rparr>"] by (simp add: adj_own_def Let_def)
    qed
  next
    case False
    let ?p = "Some (last_before ?s (fk_no f) (lcks_from (fk_no f) (fst st)))"
    have p: "place_ok ?p st" using place_last [of "fk_no f" st] D(5) by auto
    note T = insflck_full
    consider "?e \<le> ?a" | "?b < ?s" | "?s < ?a" "?b \<le> ?e" | "?s = ?a" "?b \<le> ?e" | "?s < ?a" "?a < ?e" "?e < ?b"
      | "?s = ?a" "?e < ?b" | "?a < ?s" "?e < ?b" | "?a < ?s" "?s \<le> ?b" "?b \<le> ?e"
      using D(3,7) by atomize_elim arith
    then show ?thesis
    proof cases
      case 1
      then show ?thesis using R False adj_res_pass [OF inv f D(4), of True] D(3,7) by (simp add: adj_own_def)
    next
      case 2
      then show ?thesis using R False adj_res_pass [OF inv f self, of False] D(3,7) by (simp add: adj_own_def)
    next
      case 3
      then show ?thesis using R False D(3,7) adj_res_cover [OF inv f K, of False] by (simp add: adj_own_def Let_def)
    next
      case 4
      then show ?thesis using R False D(3,7) adj_res_cover [OF inv f P(1), of False] by (simp add: adj_own_def Let_def)
    next
      case 5
      then show ?thesis using R False D(3,7) adj_tail_front(1) [OF inv f p] T by (simp add: adj_own_def Let_def adj_tail_def split: option.split)
    next
      case 6
      then show ?thesis using R False D(3,7) adj_tail_front(2) [OF inv f p] T by (simp add: adj_own_def Let_def adj_tail_def split: option.split)
    next
      case 7
      then show ?thesis using R False D(3,7) adj_res_split [OF inv f p] T by (simp add: adj_own_def Let_def adj_tail_def split: option.split)
    next
      case 8
      then show ?thesis using R False D(3,7) adj_res_back [OF inv f]
        by (cases "?s = ?b"; cases "?e = ?b"; simp add: adj_own_def Let_def)
    qed
  qed
qed


lemma find_lck_member: "recs_ok st \<Longrightarrow> f \<in> set (fst st) \<Longrightarrow> find_lck (fk_no f) (fst st) = Some f"
proof -
  assume a: "recs_ok st" "f \<in> set (fst st)"
  have "\<forall>g \<in> set l. fk_no g = fk_no f \<longrightarrow> g = f \<Longrightarrow> f \<in> set l \<Longrightarrow> List.find (\<lambda>g. fk_no g = fk_no f) l = Some f" for l
    by (induction l) auto
  then show ?thesis using recs_ok_unique [OF a(1) _ a(2)] a(2) unfolding find_lck_def by blast
qed

text \<open>What a call returns: success exactly as promised; an error only for want of records.\<close>

definition adj_done :: "int \<Rightarrow> flock \<Rightarrow> lkst \<Rightarrow> nat \<Rightarrow> errno option \<times> lkst \<Rightarrow> bool" where
  "adj_done pid ld st k rs \<longleftrightarrow>
     recs_ok (snd rs) \<and> lck_ok pid (set (fst (snd rs))) \<and> foreign pid (fst (snd rs)) = foreign pid (fst st)
     \<and> fst rs \<in> {None, Some ENOSPC} \<and> (fst rs = None \<longrightarrow> types_at pid (set (fst (snd rs))) = overlay pid ld (set (fst st)))
     \<and> (k \<le> length (frlock (snd st)) \<longrightarrow> fst rs = None)"

lemma adj_insert_done:
  assumes "adj_inv pid ins [] ld st"
  shows "adj_done pid ld st 1 (adj_insert pid (l_type ld \<noteq> F_UNLCK) ins ld st)"
proof -
  have st: "recs_ok st" "lck_ok pid (set (fst st))" "l_start ld < l_end ld" "clear_of pid [] ld (set (fst st))" "place_ok ins st"
    using assms by (simp_all add: adj_inv_def)
  have o: "types_at pid (set (fst st)) x = {}" if "l_start ld \<le> x" "x < l_end ld" for x
    using st(4) that unfolding types_at_def clear_of_def by fastforce
  let ?ins = "case ins of None \<Rightarrow> None | Some n \<Rightarrow> Some (last_before (l_start ld) n (lcks_from n (fst st)))"
  have p: "place_ok ?ins st" using st(5) place_last [of _ st] by (auto simp: place_ok_def [of ins] place_ok_def [of None] split: option.split)
  show ?thesis
  proof (cases "l_type ld = F_UNLCK")
    case True
    then show ?thesis using st o by (auto simp: adj_done_def adj_insert_def overlay_def fun_eq_iff)
  next
    case U: False
    show ?thesis
    proof (cases "insflck pid ld ?ins st")
      case None
      then have "adj_insert pid True ins ld st = (Some ENOSPC, st)" by (simp add: adj_insert_def Let_def)
      then show ?thesis using U st None by (simp add: adj_done_def insflck_full)
    next
      case (Some a)
      obtain n st1 where i: "insflck pid ld ?ins st = Some (n, st1)" using Some by (cases a) simp
      note I = insflck_spec [OF st(1) p i]
      let ?x = "\<lparr>fk_no = n, fk_set = ld\<lparr>l_pid := pid\<rparr>, fk_stat = 0\<rparr>"
      have "lck_ok pid (set (fst st1))" unfolding I(2)
        by (rule lck_ok_insert [OF st(2)]) (use st U in \<open>auto simp: clear_of_def\<close>)
      moreover have "types_at pid (set (fst st1)) x = overlay pid ld (set (fst st)) x" for x
        using types_insert [of ?x pid "set (fst st)" x] o [of x] U unfolding I(2) overlay_def by simp
      moreover have "adj_insert pid True ins ld st = (None, st1)" using i by (simp add: adj_insert_def Let_def)
      ultimately show ?thesis using I U by (simp add: adj_done_def fun_eq_iff)
    qed
  qed
qed

lemma adj_done_step:
  assumes "adj_done pid ld1 st1 k1 rs" "foreign pid (fst st1) = foreign pid (fst st)"
    "\<forall>x. overlay pid ld1 (set (fst st1)) x = overlay pid ld (set (fst st)) x" "k \<le> length (frlock (snd st)) \<Longrightarrow> k1 \<le> length (frlock (snd st1))"
  shows "adj_done pid ld st k rs"
  using assms by (auto simp: adj_done_def fun_eq_iff)

lemma adj_inv_foreign:
  assumes "adj_inv pid ins (f # r) ld st" "fk_pid f \<noteq> pid"
  shows "adj_inv pid ins (if fk_start f > l_end ld then [] else r) ld st"
proof -
  have st: "recs_ok st" "lck_ok pid (set (fst st))" "clear_of pid (map fk_no (f # r)) ld (set (fst st))"
    "set (f # r) \<subseteq> set (fst st)" "distinct (f # r)" "sorted (map fk_start (f # r))"
    using assms(1) by (simp_all add: adj_inv_def)
  have "fk_end g \<le> l_start ld \<or> l_end ld \<le> fk_start g"
    if g: "g \<in> set (fst st)" "fk_pid g = pid" "fk_start f > l_end ld \<or> fk_no g \<notin> fk_no ` set r" for g
  proof -
    have "fk_no g \<noteq> fk_no f" using recs_ok_unique [OF st(1) g(1), of f] st(4) g(2) assms(2) by auto
    moreover have "fk_start f \<le> fk_start g" if "fk_no g \<in> fk_no ` set r"
      using that recs_ok_unique [OF st(1) g(1)] st(4,6) by auto
    ultimately show ?thesis using st(3) g unfolding clear_of_def by force
  qed
  then show ?thesis using assms(1) by (auto simp: adj_inv_def clear_of_def)
qed

lemma adj_loop_done:
  assumes "adj_inv pid ins r ld st"
  shows "adj_done pid ld st (if r = [] then 1 else 2) (adj_loop pid (l_type ld \<noteq> F_UNLCK) (map fk_no r) ins ld st)"
  using assms
proof (induction "length r" arbitrary: r ins ld st rule: less_induct)
  case less
  show ?case
  proof (cases r)
    case Nil
    then show ?thesis using adj_insert_done less.prems by simp
  next
    case (Cons f r')
    have inv: "adj_inv pid ins (f # r') ld st" using less.prems Cons by simp
    then have st: "recs_ok st" "f \<in> set (fst st)" "lck_ok pid (set (fst st))" by (auto simp: adj_inv_def)
    note F = find_lck_member [OF st(1,2)]
    show ?thesis
    proof (cases "fk_pid f = pid")
      case own: True
      show ?thesis
      proof (cases "adj_own pid ins ld f st")
        case (Adj_next stop ins1 ld1 st1)
        let ?r = "if stop then [] else r'"
        have R: "adj_res pid r' ld st stop ins1 ld1 st1" using adj_own_step [OF inv own] Adj_next by simp
        then have i: "adj_inv pid ins1 ?r ld1 st1" and t: "l_type ld1 = l_type ld" by (simp_all add: adj_res_def)
        have "length ?r < length r" using Cons by simp
        from adj_done_step [OF less.hyps [OF this i], of st ld 2] R
        have "adj_done pid ld st 2 (adj_loop pid (l_type ld \<noteq> F_UNLCK) (map fk_no ?r) ins1 ld1 st1)"
          by (simp add: adj_res_def t split: if_splits)
        then show ?thesis using Cons own F Adj_next by (simp split: if_splits)
      next
        case (Adj_return e st1)
        then have l: "adj_loop pid (l_type ld \<noteq> F_UNLCK) (map fk_no r) ins ld st = (e, st1)"
          using Cons own F by simp
        show ?thesis
        proof (cases e)
          case None
          then have c: "st1 = st" "l_type ld = fk_type f" "fk_start f \<le> l_start ld" "l_end ld \<le> fk_end f"
            using adj_own_step [OF inv own] Adj_return by simp_all
          have "types_at pid (set (fst st)) x = overlay pid ld (set (fst st)) x" for x
            using types_remove [OF st(3,2) own adj_inv_D(6) [OF inv own], of x] c(2-) adj_inv_D(8) [OF inv own]
            unfolding overlay_def by auto
          then show ?thesis using st c(1) None l by (simp add: adj_done_def fun_eq_iff)
        next
          case (Some x)
          then have "x = ENOSPC" "st1 = st" "frlock (snd st) = []" using adj_own_step [OF inv own] Adj_return by simp_all
          then show ?thesis using st Some l by (simp add: adj_done_def)
        qed
      qed
    next
      case False
      let ?r = "if fk_start f > l_end ld then [] else r'"
      have i: "adj_inv pid ins ?r ld st"
        using adj_inv_foreign [OF inv False] by simp
      have "length ?r < length r" using Cons by simp
      from adj_done_step [OF less.hyps [OF this i], of st ld 2]
      have "adj_done pid ld st 2 (adj_loop pid (l_type ld \<noteq> F_UNLCK) (map fk_no ?r) ins ld st)" by (simp split: if_splits)
      then show ?thesis using Cons False F by (simp split: if_splits)
    qed
  qed
qed

section \<open>Conflicts\<close>

lemma blocked_first_spec:
  assumes "blocked_first pid ld ins0 fs = (res, ins, rest)" "l_start ld < l_end ld"
  shows "\<exists>pre. fs = pre @ rest \<and> (\<forall>g \<in> set pre. \<not> lck_conflict pid ld g \<and> (fk_pid g = pid \<longrightarrow> fk_end g < l_start ld))
    \<and> (case res of None \<Rightarrow> True | Some f \<Rightarrow> f \<in> set rest \<and> lck_conflict pid ld f)
    \<and> (ins = (if pre = [] then ins0 else Some (fk_no (last pre))) \<or> rest \<noteq> [] \<and> ins = Some (fk_no (hd rest)))"
  using assms(1)
proof (induction fs arbitrary: ins0)
  case (Cons f fs)
  let ?stop = "fk_start f < l_start ld \<longrightarrow> fk_pid f = pid \<and> l_start ld \<le> fk_end f \<and> l_end ld \<ge> fk_start f \<or> lck_conflict pid ld f"
  show ?case
  proof (cases ?stop)
    case True
    then show ?thesis using Cons.prems by (intro exI [of _ "[]"]) (auto simp: lck_conflict_def split: if_splits)
  next
    case False
    then have "blocked_first pid ld (Some (fk_no f)) fs = (res, ins, rest)" using Cons.prems by (auto split: if_splits)
    from Cons.IH [OF this] obtain pre where pre: "fs = pre @ rest"
      "\<forall>g \<in> set pre. \<not> lck_conflict pid ld g \<and> (fk_pid g = pid \<longrightarrow> fk_end g < l_start ld)"
      "case res of None \<Rightarrow> True | Some f \<Rightarrow> f \<in> set rest \<and> lck_conflict pid ld f"
      "ins = (if pre = [] then Some (fk_no f) else Some (fk_no (last pre))) \<or> rest \<noteq> [] \<and> ins = Some (fk_no (hd rest))" by blast
    then show ?thesis using False assms(2) by (intro exI [of _ "f # pre"]) auto
  qed
qed simp

lemma blocked_rest_spec:
  "sorted (map fk_start fs) \<Longrightarrow>
    (case blocked_rest pid ld fs of None \<Rightarrow> \<forall>g \<in> set fs. \<not> lck_conflict pid ld g | Some f \<Rightarrow> f \<in> set fs \<and> lck_conflict pid ld f)"
  by (induction fs) (auto simp: lck_conflict_def split: option.splits)

lemma blocked_spec:
  assumes "sorted (map fk_start fs)" "l_start ld < l_end ld"
  shows "case fst (blocked pid ld fs) of None \<Rightarrow> \<forall>g \<in> set fs. \<not> lck_conflict pid ld g | Some f \<Rightarrow> f \<in> set fs \<and> lck_conflict pid ld f"
proof -
  obtain res ins rest where b: "blocked_first pid ld None fs = (res, ins, rest)" by (metis prod_cases3)
  from blocked_first_spec [OF b assms(2)] obtain pre where pre: "fs = pre @ rest" "\<forall>g \<in> set pre. \<not> lck_conflict pid ld g"
    "case res of None \<Rightarrow> True | Some f \<Rightarrow> f \<in> set rest \<and> lck_conflict pid ld f" by blast
  have "sorted (map fk_start rest)" using assms(1) pre(1) by (simp add: sorted_append)
  note rest = blocked_rest_spec [OF this, of pid ld]
  show ?thesis
  proof (cases res)
    case None
    then have "fst (blocked pid ld fs) = blocked_rest pid ld rest" by (simp add: blocked_def b)
    then show ?thesis using rest pre(1,2) by (auto split: option.splits)
  next
    case (Some f)
    then have "fst (blocked pid ld fs) = Some f" by (simp add: blocked_def b)
    then show ?thesis using pre(1,3) Some by simp
  qed
qed

text \<open>No lock of the process before the place \<^verbatim>\<open>blocked\<close> returns comes near the request.\<close>

lemma blocked_place:
  assumes "blocked pid ld fs = (None, ins)" "l_start ld < l_end ld" "distinct (map fk_no fs)"
  shows "place_ok ins (fs, pl)"
    "\<lbrakk>g \<in> set fs; fk_pid g = pid; g \<notin> set (case ins of None \<Rightarrow> fs | Some n \<Rightarrow> lcks_from n fs)\<rbrakk> \<Longrightarrow> fk_end g < l_start ld"
proof -
  obtain res rest where b: "blocked_first pid ld None fs = (res, ins, rest)"
    using assms(1) by (cases "blocked_first pid ld None fs") (auto simp: blocked_def split: option.splits)
  from blocked_first_spec [OF b assms(2)] obtain pre where pre: "fs = pre @ rest"
    "\<forall>g \<in> set pre. fk_pid g = pid \<longrightarrow> fk_end g < l_start ld"
    "ins = (if pre = [] then None else Some (fk_no (last pre))) \<or> rest \<noteq> [] \<and> ins = Some (fk_no (hd rest))" by blast
  show "place_ok ins (fs, pl)" using pre(1,3) by (auto simp: place_ok_def split: if_splits)
  have "set rest \<subseteq> set (case ins of None \<Rightarrow> fs | Some n \<Rightarrow> lcks_from n fs)"
  proof (cases "ins = (if pre = [] then None else Some (fk_no (last pre)))")
    case True
    show ?thesis
    proof (cases "pre = []")
      case False
      then have "dropWhile (\<lambda>f. fk_no f \<noteq> fk_no (last pre)) (pre @ rest) = dropWhile (\<lambda>f. fk_no f \<noteq> fk_no (last pre)) pre @ rest"
        by (intro dropWhile_append1 [of "last pre"]) auto
      then show ?thesis using True False pre(1) by (simp add: lcks_from_def)
    qed (use True pre(1) in simp)
  next
    case False
    then obtain f r where r: "rest = f # r" "ins = Some (fk_no f)" using pre(3) by (cases rest) auto
    have "fk_no f \<notin> fk_no ` set pre" using assms(3) pre(1) r(1) by auto
    then have "\<forall>x \<in> set pre. fk_no x \<noteq> fk_no f" by (metis image_eqI)
    then show ?thesis using r pre(1) by (simp add: lcks_from_def dropWhile_append2)
  qed
  then show "\<lbrakk>g \<in> set fs; fk_pid g = pid; g \<notin> set (case ins of None \<Rightarrow> fs | Some n \<Rightarrow> lcks_from n fs)\<rbrakk> \<Longrightarrow> fk_end g < l_start ld"
    using pre(1,2) by auto
qed

lemma flckadj_done:
  assumes "recs_ok (fs, pl)" "lck_ok pid (set fs)" "sorted (map fk_start fs)" "l_start ld < l_end ld"
    and "blocked pid ld fs = (None, ins) \<or> ins = (case fs of [] \<Rightarrow> None | f # _ \<Rightarrow> Some (fk_no f))"
  shows "adj_done pid ld (fs, pl) 2 (flckadj pid ins ld (fs, pl))"
proof -
  let ?r = "case ins of None \<Rightarrow> fs | Some n \<Rightarrow> lcks_from n fs"
  have d: "distinct (map fk_no fs)" "distinct fs" using assms(1) by (auto simp: recs_ok_def distinct_map)
  have "place_ok ins (fs, pl) \<and> (\<forall>g \<in> set fs. fk_pid g = pid \<longrightarrow> g \<notin> set ?r \<longrightarrow> fk_end g < l_start ld)"
  proof (cases "blocked pid ld fs = (None, ins)")
    case True
    then show ?thesis using blocked_place [OF True assms(4) d(1)] by blast
  next
    case False
    then have "ins = (case fs of [] \<Rightarrow> None | f # _ \<Rightarrow> Some (fk_no f))" using assms(5) by simp
    then show ?thesis by (auto simp: place_ok_def lcks_from_def split: list.splits)
  qed
  moreover obtain k where "?r = drop k fs"
    by (cases ins) (auto simp: lcks_from_def dropWhile_eq_drop intro: that [of 0])
  then have "set ?r \<subseteq> set fs" "distinct ?r" "sorted (map fk_start ?r)"
    using d(2) assms(3) by (simp_all add: set_drop_subset drop_map [symmetric] sorted_wrt_drop)
  moreover have "fk_no g \<notin> fk_no ` set ?r" if "g \<in> set fs" "g \<notin> set ?r" for g
    using recs_ok_unique [OF assms(1), of g] that \<open>set ?r \<subseteq> set fs\<close> by auto
  ultimately have "adj_inv pid ins ?r ld (fs, pl)"
    using assms(1,2,4) unfolding adj_inv_def clear_of_def by fastforce
  note L = adj_done_step [OF adj_loop_done [OF this] refl, of ld 2]
  show ?thesis unfolding flckadj_def fst_conv by (rule L) simp_all
qed

section \<open>Calls\<close>

lemma freefid_chain [simp]: "fl_flck (flinotab (freefid i s) j) = fl_flck (flinotab s j)"
  by (simp add: freefid_def upd_fid_def Let_def)

lemma with_chain_simps [simp]:
  "fl_flck (flinotab (with_chain i s st) i) = fst st" "lkrecs (with_chain i s st) = snd st"
  "j \<noteq> i \<Longrightarrow> flinotab (with_chain i s st) j = flinotab s j"
  by (simp_all add: with_chain_def upd_fid_def)

lemma freefid_recs [simp]: "lkrecs (freefid i s) = lkrecs s" "sleeplcks (freefid i s) = sleeplcks s"
  by (simp_all add: freefid_def upd_fid_def Let_def)

text \<open>The locks of a file, and a state fit for a request on it.\<close>

abbreviation fid_locks :: "nat \<Rightarrow> flsys \<Rightarrow> filock set" where
  "fid_locks i s \<equiv> set (fl_flck (flinotab s i))"

text \<open>
  The condition the next theorems put on the chain of a file: its records are distinct and not on the free list,
  the locks of the process that calls are not empty and disjoint, and the chain is sorted by start. \<^verbatim>\<open>setflck\<close> keeps the first two,
  but not the order: an unlock of the front of a lock may break it (\<open>front_unlock_breaks_order\<close> below), and
  from then on nothing here is claimed about that file until its chain is sorted again.
\<close>

definition file_ok :: "int \<Rightarrow> nat \<Rightarrow> flsys \<Rightarrow> bool" where
  "file_ok pid i s \<longleftrightarrow> recs_ok (fl_flck (flinotab s i), lkrecs s) \<and> lck_ok pid (fid_locks i s)
     \<and> sorted (map fk_start (fl_flck (flinotab s i)))"

lemma setflck_body_cases:
  assumes ok: "file_ok pid i s" and ld: "l_start ld < l_end ld" "l_type ld \<in> {F_RDLCK, F_WRLCK, F_UNLCK}"
    and body: "setflck_body pid ld slp i s = (res, w, s')"
  defines "conf \<equiv> l_type ld \<noteq> F_UNLCK \<and> (\<exists>f \<in> fid_locks i s. lck_conflict pid ld f)"
  shows "if conf then fl_flck (flinotab s' i) = fl_flck (flinotab s i) \<and> res \<in> {Err EACCES, Err EDEADLK, Err ENOSPC} \<or> (\<exists>n. res = Sleep n) \<or> res = Wild
    else \<exists>e st. adj_done pid ld (fl_flck (flinotab s i), lkrecs s) 2 (e, st) \<and> fl_flck (flinotab s' i) = fst st \<and> lkrecs s' = snd st
      \<and> res = (case e of None \<Rightarrow> Done 0 | Some x \<Rightarrow> Err x)"
proof -
  let ?fs = "fl_flck (flinotab s i)"
  have fs: "recs_ok (?fs, lkrecs s)" "lck_ok pid (set ?fs)" "sorted (map fk_start ?fs)" using ok by (simp_all add: file_ok_def)
  note A = flckadj_done [OF fs ld(1)] and B = blocked_spec [OF fs(3) ld(1), of pid]
  obtain bf ins where b: "blocked pid ld ?fs = (bf, ins)" by fastforce
  have adj: "\<exists>e st. flckadj pid x ld (?fs, lkrecs s) = (e, st)" for x by (metis surj_pair)
  show ?thesis
  proof (cases "l_type ld = F_UNLCK")
    case True
    let ?x = "case ?fs of [] \<Rightarrow> None | f # _ \<Rightarrow> Some (fk_no f)"
    obtain e st where a: "flckadj pid ?x ld (?fs, lkrecs s) = (e, st)" using adj by blast
    from A [of ?x] a have "adj_done pid ld (?fs, lkrecs s) 2 (e, st)" by simp
    then show ?thesis using body True a by (auto simp: conf_def setflck_body_def Let_def)
  next
    case False
    show ?thesis
    proof (cases bf)
      case None
      obtain e st where a: "flckadj pid ins ld (?fs, lkrecs s) = (e, st)" using adj by blast
      have "adj_done pid ld (?fs, lkrecs s) 2 (e, st)" using A [of ins] a b None by simp
      moreover have "\<not> conf" using B b None by (simp add: conf_def)
      ultimately show ?thesis using body False None a b ld(2) by (auto simp: setflck_body_def Let_def)
    next
      case (Some f)
      then have "conf" using B b False by (auto simp: conf_def)
      then show ?thesis using body False Some b ld(2)
        by (auto simp: setflck_body_def Let_def split: if_splits option.splits bool.splits prod.splits)
    qed
  qed
qed

text \<open>Nobody writes where another process has a lock.\<close>

definition lck_excl :: "filock set \<Rightarrow> bool" where
  "lck_excl fs \<longleftrightarrow> (\<forall>p q x. p \<noteq> q \<longrightarrow> F_WRLCK \<in> types_at p fs x \<longrightarrow> types_at q fs x \<inter> {F_RDLCK, F_WRLCK} = {})"

lemma types_at_foreign: "foreign pid fs = foreign pid gs \<Longrightarrow> q \<noteq> pid \<Longrightarrow> types_at q (set fs) x = types_at q (set gs) x"
proof -
  assume "foreign pid fs = foreign pid gs" "q \<noteq> pid"
  then have "set (foreign pid fs) = set (foreign pid gs)" by simp
  then have "{f \<in> set fs. fk_pid f \<noteq> pid} = {f \<in> set gs. fk_pid f \<noteq> pid}" by (simp add: foreign_def)
  then have "f \<in> set fs \<longleftrightarrow> f \<in> set gs" if "fk_pid f = q" for f using that \<open>q \<noteq> pid\<close> by blast
  then show ?thesis unfolding types_at_def by blast
qed

lemma excl_overlay:
  assumes e: "lck_excl S" and nc: "l_type ld = F_UNLCK \<or> (\<forall>f \<in> S. \<not> lck_conflict pid ld f)"
    and t: "l_type ld \<in> {F_RDLCK, F_WRLCK, F_UNLCK}"
    and own: "types_at pid S' = overlay pid ld S" and oth: "\<And>q x. q \<noteq> pid \<Longrightarrow> types_at q S' x = types_at q S x"
  shows "lck_excl S'"
proof -
  have E: "types_at q S x \<inter> {F_RDLCK, F_WRLCK} = {}" if "F_WRLCK \<in> types_at p S x" "p \<noteq> q" for p q x
    using e that unfolding lck_excl_def by blast
  have N: "F_WRLCK \<notin> types_at q S x \<and> (F_RDLCK \<in> types_at q S x \<longrightarrow> l_type ld = F_RDLCK)"
    if "l_type ld \<noteq> F_UNLCK" "q \<noteq> pid" "l_start ld \<le> x" "x < l_end ld" for q x
    using nc t that unfolding types_at_def lck_conflict_def by force
  have P: "F_WRLCK \<in> overlay pid ld S x \<Longrightarrow> q \<noteq> pid \<Longrightarrow> types_at q S x \<inter> {F_RDLCK, F_WRLCK} = {}" for q x
    using E [of pid x q] N [of q x] t by (auto simp: overlay_def split: if_splits)
  have Q: "F_WRLCK \<in> types_at q S x \<Longrightarrow> q \<noteq> pid \<Longrightarrow> overlay pid ld S x \<inter> {F_RDLCK, F_WRLCK} = {}" for q x
    using E [of q x pid] N [of q x] by (auto simp: overlay_def split: if_splits)
  show ?thesis
    unfolding lck_excl_def
  proof (intro allI impI)
    fix p q x assume "p \<noteq> q" "F_WRLCK \<in> types_at p S' x"
    then show "types_at q S' x \<inter> {F_RDLCK, F_WRLCK} = {}"
      using own oth [of p x] oth [of q x] P [of x q] Q [of p x] E [of p x q] by (cases "p = pid"; cases "q = pid") simp_all
  qed
qed

section \<open>Waiting processes\<close>

text \<open>Which process a sleeping process waits for.\<close>

definition waits :: "filock list \<Rightarrow> int \<Rightarrow> int option" where
  "waits sl p = map_option fk_stat (List.find (\<lambda>f. fk_pid f = p) sl)"

definition waits_rel :: "filock list \<Rightarrow> (int \<times> int) set" where
  "waits_rel sl = {(p, q). waits sl p = Some q}"

lemma deadflck_eq [code]:
  "deadflck pid sl b = (if b = pid then Some True else case waits sl b of None \<Rightarrow> Some False | Some q \<Rightarrow> deadflck pid sl q)"
  by (subst deadflck.simps) (auto simp: waits_def split: option.split)

lemma waits_rel_finite: "finite (waits_rel sl)"
proof -
  have "waits_rel sl \<subseteq> (\<lambda>f. (fk_pid f, fk_stat f)) ` set sl"
    unfolding waits_rel_def waits_def by (force simp: find_Some_iff in_set_conv_nth)
  then show ?thesis by (rule finite_subset) simp
qed

lemma deadflck_acyclic:
  assumes "acyclic (waits_rel sl)"
  shows "deadflck pid sl b = Some ((b, pid) \<in> (waits_rel sl)\<^sup>*)"
proof -
  have "wf ((waits_rel sl)\<inverse>)" using assms by (simp add: finite_acyclic_wf_converse waits_rel_finite)
  then show ?thesis
  proof (induction b rule: wf_induct_rule)
    case (less b)
    have step: "(b, pid) \<in> (waits_rel sl)\<^sup>* \<longleftrightarrow> b = pid \<or> (\<exists>q. waits sl b = Some q \<and> (q, pid) \<in> (waits_rel sl)\<^sup>*)"
      by (auto simp: waits_rel_def elim: converse_rtranclE intro: converse_rtrancl_into_rtrancl)
    show ?case
      using less step by (subst deadflck_eq) (auto simp: waits_rel_def split: option.split)
  qed
qed

text \<open>A new sleeper whose wait does not lead back to itself closes no circle.\<close>

lemma waits_rel_new:
  assumes "waits sl pid = None" "fk_pid f = pid"
  shows "waits_rel (f # sl) = insert (pid, fk_stat f) (waits_rel sl)"
  using assms by (auto simp: waits_rel_def waits_def split: if_splits)

lemma insflck_head: "insflck pid ld None (sl, pl) = Some (n, sl', pl') \<Longrightarrow>
    sl' = \<lparr>fk_no = n, fk_set = ld\<lparr>l_pid := pid\<rparr>, fk_stat = 0\<rparr> # sl \<and> n \<in> set (frlock pl)"
  by (auto simp: insflck_def split: list.splits)

lemma setflck_sleep:
  assumes "setflck_body pid ld slp i s = (Sleep n, w, s')" "waits (sleeplcks s) pid = None"
    and "\<forall>f \<in> set (sleeplcks s). fk_no f \<notin> set (frlock (lkrecs s))"
  shows "\<exists>b. deadflck pid (sleeplcks s) b = Some False \<and> waits_rel (sleeplcks s') = insert (pid, b) (waits_rel (sleeplcks s))"
proof -
  obtain f ins where b: "blocked pid ld (fl_flck (flinotab s i)) = (Some f, ins)"
    using assms(1) by (auto simp: setflck_body_def Let_def split: prod.splits option.splits if_splits)
  then obtain m sl pl where i: "deadflck pid (sleeplcks s) (fk_pid f) = Some False"
      "insflck pid ld None (sleeplcks s, lkrecs s) = Some (m, sl, pl)"
      "sleeplcks s' = map (\<lambda>y. if fk_no y = m then y\<lparr>fk_stat := fk_pid f\<rparr> else y) sl"
    using assms(1)
    by (auto simp: setflck_body_def Let_def upd_fid_def split: prod.splits option.splits if_splits bool.splits)
  have h: "sl = \<lparr>fk_no = m, fk_set = ld\<lparr>l_pid := pid\<rparr>, fk_stat = 0\<rparr> # sleeplcks s" "m \<in> set (frlock (lkrecs s))"
    using insflck_head [OF i(2)] by simp_all
  then have "map (\<lambda>y. if fk_no y = m then y\<lparr>fk_stat := fk_pid f\<rparr> else y) (sleeplcks s) = sleeplcks s"
    using assms(3) by (intro map_idI) auto
  then have "sleeplcks s' = \<lparr>fk_no = m, fk_set = ld\<lparr>l_pid := pid\<rparr>, fk_stat = fk_pid f\<rparr> # sleeplcks s"
    by (simp add: i(3) h(1))
  then show ?thesis using i(1) waits_rel_new [OF assms(2)] by (intro exI [of _ "fk_pid f"]) simp
qed

lemma cleanlocks_fold:
  "set gs \<subseteq> set (fst st) \<Longrightarrow> recs_ok st \<Longrightarrow> distinct gs \<Longrightarrow>
    fst (fold (\<lambda>f st. if fk_pid f = pid then delflck f st else st) gs st) = filter (\<lambda>x. \<not> (x \<in> set gs \<and> fk_pid x = pid)) (fst st)
    \<and> recs_ok (fold (\<lambda>f st. if fk_pid f = pid then delflck f st else st) gs st)"
proof (induction gs arbitrary: st)
  case (Cons g gs)
  let ?st = "if fk_pid g = pid then delflck g st else st"
  have g: "g \<in> set (fst st)" using Cons.prems(1) by simp
  note E = delflck_spec [OF Cons.prems(2) g]
  have u: "fk_no x = fk_no g \<longleftrightarrow> x = g" if "x \<in> set (fst st)" for x
    using recs_ok_unique [OF Cons.prems(2) that g] by blast
  have "filter (\<lambda>x. fk_no x \<noteq> fk_no g) (fst st) = filter (\<lambda>x. x \<noteq> g) (fst st)"
    by (rule filter_cong [OF refl]) (simp add: u)
  then have "fst ?st = filter (\<lambda>x. \<not> (x = g \<and> fk_pid x = pid)) (fst st)"
    by (auto intro: filter_cong filter_True [symmetric])
  moreover have "set gs \<subseteq> set (fst ?st)" "recs_ok ?st" "distinct gs"
    using Cons.prems E by auto
  ultimately show ?case using Cons.IH [of ?st] by (auto intro!: filter_cong)
qed simp

section \<open>Properties\<close>

text \<open>
  The search for a lock in the way. On a chain sorted by start, \<^verbatim>\<open>blocked\<close>, which stops at the first
  lock beyond the request, finds a lock exactly if some lock of another process overlaps the request
  and one of the two is a write lock; what it finds is such a lock.
\<close>

theorem blocked_finds_conflict:
  assumes "sorted (map fk_start fs)" "l_start ld < l_end ld"
  shows "(fst (blocked pid ld fs) = None \<longleftrightarrow> (\<forall>f \<in> set fs. \<not> lck_conflict pid ld f))
    \<and> (\<forall>f. fst (blocked pid ld fs) = Some f \<longrightarrow> f \<in> set fs \<and> lck_conflict pid ld f)"
  using blocked_spec [OF assms, of pid] by (auto split: option.splits)

text \<open>
  C15: What a granted request does. When \<^verbatim>\<open>setflck\<close> grants a request on a file whose locks are in order,
  the process holds exactly the type requested (nothing, for an unlock) at every offset of the
  request and what it held before everywhere else, whatever its own locks there were: covered,
  severed at either end, split or joined. The locks of the other processes are as before, and no
  lock stood in the way.
\<close>

theorem setflck_sets_region:
  assumes "file_ok pid i s" "l_start ld < l_end ld" "l_type ld \<in> {F_RDLCK, F_WRLCK, F_UNLCK}"
    and "setflck_body pid ld slp i s = (Done v, w, s')"
  shows "types_at pid (fid_locks i s') x =
      (if l_start ld \<le> x \<and> x < l_end ld then (if l_type ld = F_UNLCK then {} else {l_type ld}) else types_at pid (fid_locks i s) x)
    \<and> foreign pid (fl_flck (flinotab s' i)) = foreign pid (fl_flck (flinotab s i))
    \<and> (l_type ld = F_UNLCK \<or> (\<forall>f \<in> fid_locks i s. \<not> lck_conflict pid ld f))"
  using setflck_body_cases [OF assms]
  by (auto simp: adj_done_def overlay_def split: if_splits option.splits)

text \<open>
  C16: Mutual exclusion on a sorted chain. On a file whose chain is sorted by start (\<open>file_ok\<close>), if no process has a lock where another one
  writes, then none has after a request has been granted. (The request may leave the chain unsorted; on an unsorted chain exclusion may be
  lost, as \<open>front_unlock_breaks_order\<close> below shows.)
\<close>

theorem setflck_excludes:
  assumes "file_ok pid i s" "l_start ld < l_end ld" "l_type ld \<in> {F_RDLCK, F_WRLCK, F_UNLCK}" "lck_excl (fid_locks i s)"
    and "setflck_body pid ld slp i s = (Done v, w, s')"
  shows "lck_excl (fid_locks i s')"
proof (rule excl_overlay [OF assms(4) _ assms(3)])
  obtain st where st: "adj_done pid ld (fl_flck (flinotab s i), lkrecs s) 2 (None, st)" "fl_flck (flinotab s' i) = fst st"
      "l_type ld = F_UNLCK \<or> (\<forall>f \<in> fid_locks i s. \<not> lck_conflict pid ld f)"
    using setflck_body_cases [OF assms(1,2,3,5)] by (auto split: if_splits option.splits)
  show "l_type ld = F_UNLCK \<or> (\<forall>f \<in> fid_locks i s. \<not> lck_conflict pid ld f)" by (rule st(3))
  show "types_at pid (fid_locks i s') = overlay pid ld (fid_locks i s)" using st(1,2) by (simp add: adj_done_def)
  show "types_at q (fid_locks i s') x = types_at q (fid_locks i s) x" if "q \<noteq> pid" for q x
  proof (rule types_at_foreign [OF _ that])
    show "foreign pid (fl_flck (flinotab s' i)) = foreign pid (fl_flck (flinotab s i))"
      unfolding st(2) using st(1) by (simp only: adj_done_def fst_conv snd_conv)
  qed
qed

text \<open>
  The errors of a request that does not wait, on a file whose chain is sorted by start (\<open>file_ok\<close>). It fails with \<^verbatim>\<open>EACCES\<close>, and leaves all locks alone,
  exactly if a lock is in the way; with two free lock records it succeeds otherwise.
\<close>

theorem setflck_errors:
  assumes "file_ok pid i s" "l_start ld < l_end ld" "l_type ld \<in> {F_RDLCK, F_WRLCK, F_UNLCK}"
    and "2 \<le> length (frlock (lkrecs s))" "setflck_body pid ld False i s = (res, w, s')"
  shows "res = (if l_type ld \<noteq> F_UNLCK \<and> (\<exists>f \<in> fid_locks i s. lck_conflict pid ld f) then Err EACCES else Done 0)
    \<and> (res = Err EACCES \<longrightarrow> fl_flck (flinotab s' i) = fl_flck (flinotab s i))"
proof (cases "l_type ld \<noteq> F_UNLCK \<and> (\<exists>f \<in> fid_locks i s. lck_conflict pid ld f)")
  case True
  obtain f ins where "blocked pid ld (fl_flck (flinotab s i)) = (Some f, ins)"
    using True blocked_spec [of "fl_flck (flinotab s i)" ld pid] assms(1,2)
    by (cases "blocked pid ld (fl_flck (flinotab s i))") (auto simp: file_ok_def split: option.splits)
  then show ?thesis using assms(3,5) True by (auto simp: setflck_body_def Let_def)
next
  case False
  then show ?thesis using setflck_body_cases [OF assms(1,2,3,5)] assms(4)
    by (auto simp: adj_done_def split: if_splits option.splits)
qed

text \<open>
  C19: Deadlock. As long as the sleeping processes do not wait for one another in a circle, the search
  \<^verbatim>\<open>deadflck\<close> ends, and tells whether the process is waited for by the one in its way; and a process
  put to sleep by \<^verbatim>\<open>setflck\<close> closes no circle. So the search always ends.
\<close>

theorem setflck_no_deadlock:
  assumes "acyclic (waits_rel (sleeplcks s))"
  shows "deadflck pid (sleeplcks s) b = Some ((b, pid) \<in> (waits_rel (sleeplcks s))\<^sup>*)
    \<and> (setflck_body pid ld slp i s = (Sleep n, w, s') \<and> waits (sleeplcks s) pid = None
         \<and> (\<forall>f \<in> set (sleeplcks s). fk_no f \<notin> set (frlock (lkrecs s))) \<longrightarrow> acyclic (waits_rel (sleeplcks s')))"
proof -
  have D: "deadflck pid (sleeplcks s) b = Some ((b, pid) \<in> (waits_rel (sleeplcks s))\<^sup>*)" for b
    by (rule deadflck_acyclic [OF assms])
  then show ?thesis using setflck_sleep [of pid ld slp i s n w s'] assms by (auto simp: acyclic_insert)
qed

text \<open>
  Closing a file. \<^verbatim>\<open>cleanlocks\<close> removes the locks of the process from the file and no other lock.
\<close>

theorem cleanlocks_removes_own:
  assumes "findfid fp s = (Some i, s1)" "recs_ok (fl_flck (flinotab s i), lkrecs s)"
  shows "fl_flck (flinotab (cleanlocks fp pid s) i) = filter (\<lambda>f. fk_pid f \<noteq> pid) (fl_flck (flinotab s i))"
proof -
  have s1: "fl_flck (flinotab s1 i) = fl_flck (flinotab s i)" "lkrecs s1 = lkrecs s"
    using assms(1) by (auto simp: findfid_def upd_fid_def split: option.splits)
  have "distinct (fl_flck (flinotab s i))" using assms(2) by (simp add: recs_ok_def distinct_map)
  from cleanlocks_fold [OF _ assms(2) this, of pid] show ?thesis
    using assms(1) by (auto simp: cleanlocks_def s1 intro: filter_cong)
qed


section \<open>Sample runs\<close>

definition demo_req :: "int \<Rightarrow> int \<Rightarrow> int \<Rightarrow> flock" where
  "demo_req t a e = \<lparr>l_type = t, l_whence = 0, l_start = a, l_len = e, l_pid = 0\<rparr>"

definition demo_file :: ofile where
  "demo_file = \<lparr>f_read = True, f_write = True, f_offset = 0, f_isize = 100, f_dev = 3, f_ino = 7\<rparr>"

text \<open>Process 1 reads [10, 100) and process 2 reads [20, 30).\<close>

definition demo_locks :: flsys where
  "demo_locks = snd (snd (setflck demo_file 2 (demo_req F_RDLCK 20 10) False
     (snd (snd (setflck demo_file 1 (demo_req F_RDLCK 10 90) False (flckinit 2 6))))))"

lemma demo_locks_state:
  "flinotab demo_locks 1 = \<lparr>fl_dev = 3, fl_number = 7, fl_refcnt = 0,
     fl_flck = [\<lparr>fk_no = 5, fk_set = \<lparr>l_type = 1, l_whence = 0, l_start = 10, l_len = 100, l_pid = 1\<rparr>, fk_stat = 0\<rparr>,
       \<lparr>fk_no = 4, fk_set = \<lparr>l_type = 1, l_whence = 0, l_start = 20, l_len = 30, l_pid = 2\<rparr>, fk_stat = 0\<rparr>]\<rparr>"
  "lkrecs demo_locks = \<lparr>frlock = [3, 2, 1, 0], reccnt = 2, rectot = 2, lkwoken = []\<rparr>" "sleeplcks demo_locks = []" "fids demo_locks = [1]"
  by code_simp+

lemmas demo_locks_eqs = demo_locks_state demo_locks_state(1) [unfolded One_nat_def]

lemma demo_locks_ok: "file_ok p 1 demo_locks" "lck_excl (fid_locks 1 demo_locks)"
proof -
  show "file_ok p 1 demo_locks"
    by (simp add: file_ok_def recs_ok_def lck_ok_def demo_locks_eqs)
  have "F_WRLCK \<notin> types_at q (fid_locks 1 demo_locks) x" for q x
    by (auto simp: types_at_def demo_locks_eqs)
  then show "lck_excl (fid_locks 1 demo_locks)" unfolding lck_excl_def by blast
qed

theorem blocked_finds_conflict_witness:
  "fst (blocked 1 (demo_req F_WRLCK 25 70) (fl_flck (flinotab demo_locks 1))) \<noteq> None
   \<and> fst (blocked 2 (demo_req F_RDLCK 25 70) (fl_flck (flinotab demo_locks 1))) = None"
proof -
  have s: "sorted (map fk_start (fl_flck (flinotab demo_locks 1)))" using demo_locks_ok(1) by (simp add: file_ok_def)
  have w: "l_start (demo_req F_WRLCK 25 70) < l_end (demo_req F_WRLCK 25 70)"
    "l_start (demo_req F_RDLCK 25 70) < l_end (demo_req F_RDLCK 25 70)" by (simp_all add: demo_req_def)
  have "lck_conflict 1 (demo_req F_WRLCK 25 70) (fl_flck (flinotab demo_locks 1) ! 1)"
    "\<forall>f \<in> fid_locks 1 demo_locks. \<not> lck_conflict 2 (demo_req F_RDLCK 25 70) f"
    by (simp_all add: demo_locks_eqs lck_conflict_def demo_req_def)
  then show ?thesis
    using blocked_finds_conflict [OF s w(1), of 1] blocked_finds_conflict [OF s w(2), of 2] by (auto simp: demo_locks_eqs)
qed

text \<open>Process 1 unlocks [40, 60), in the middle of its lock.\<close>

lemma demo_unlock: "\<exists>s'. setflck_body 1 (demo_req F_UNLCK 40 60) False 1 demo_locks = (Done 0, None, s')"
proof -
  have "(case setflck_body 1 (demo_req F_UNLCK 40 60) False 1 demo_locks of (r, w, s') \<Rightarrow> r = Done 0 \<and> w = None)" by code_simp
  then show ?thesis by (auto split: prod.splits)
qed

lemma demo_req_unlock:
  "l_start (demo_req F_UNLCK 40 60) < l_end (demo_req F_UNLCK 40 60)"
  "l_type (demo_req F_UNLCK 40 60) \<in> {F_RDLCK, F_WRLCK, F_UNLCK}"
  by (simp_all add: demo_req_def)

theorem setflck_sets_region_witness:
  "\<exists>s'. setflck_body 1 (demo_req F_UNLCK 40 60) False 1 demo_locks = (Done 0, None, s')
     \<and> types_at 1 (fid_locks 1 s') 50 = {} \<and> types_at 1 (fid_locks 1 s') 99 = {F_RDLCK}"
proof -
  obtain s' where r: "setflck_body 1 (demo_req F_UNLCK 40 60) False 1 demo_locks = (Done 0, None, s')" using demo_unlock by blast
  have "types_at 1 (fid_locks 1 demo_locks) 99 = {F_RDLCK}"
    by (auto simp: types_at_def demo_locks_eqs intro!: exI [of _ "fl_flck (flinotab demo_locks 1) ! 0"])
  then show ?thesis
    using setflck_sets_region [OF demo_locks_ok(1) demo_req_unlock r, of 50] setflck_sets_region [OF demo_locks_ok(1) demo_req_unlock r, of 99] r
    by (simp add: demo_req_def)
qed

theorem setflck_excludes_witness:
  "\<exists>s'. setflck_body 1 (demo_req F_UNLCK 40 60) False 1 demo_locks = (Done 0, None, s') \<and> lck_excl (fid_locks 1 s')"
proof -
  obtain s' where r: "setflck_body 1 (demo_req F_UNLCK 40 60) False 1 demo_locks = (Done 0, None, s')" using demo_unlock by blast
  from setflck_excludes [OF demo_locks_ok(1) demo_req_unlock demo_locks_ok(2) r] r show ?thesis by blast
qed

theorem setflck_errors_witness:
  "fst (setflck_body 2 (demo_req F_WRLCK 50 60) False 1 demo_locks) = Err EACCES"
proof -
  obtain res w s' where r: "setflck_body 2 (demo_req F_WRLCK 50 60) False 1 demo_locks = (res, w, s')" by (metis prod_cases3)
  have "lck_conflict 2 (demo_req F_WRLCK 50 60) (fl_flck (flinotab demo_locks 1) ! 0)"
    by (simp add: demo_locks_eqs lck_conflict_def demo_req_def)
  then show ?thesis
    using setflck_errors [OF demo_locks_ok(1) _ _ _ r] r by (simp add: demo_locks_eqs demo_req_def)
qed

text \<open>Process 2 sleeps for [50, 60), where process 1 reads.\<close>

theorem setflck_no_deadlock_witness:
  "\<exists>n w s'. setflck_body 2 (demo_req F_WRLCK 50 60) True 1 demo_locks = (Sleep n, w, s') \<and> acyclic (waits_rel (sleeplcks s'))"
proof -
  have "(case setflck_body 2 (demo_req F_WRLCK 50 60) True 1 demo_locks of (r, w, s') \<Rightarrow> r = Sleep 5)" by code_simp
  then obtain w s' where r: "setflck_body 2 (demo_req F_WRLCK 50 60) True 1 demo_locks = (Sleep 5, w, s')" by (auto split: prod.splits)
  have a: "acyclic (waits_rel (sleeplcks demo_locks))" by (simp add: demo_locks_eqs waits_rel_def waits_def acyclic_def)
  have "waits (sleeplcks demo_locks) 2 = None" "\<forall>f \<in> set (sleeplcks demo_locks). fk_no f \<notin> set (frlock (lkrecs demo_locks))"
    by (simp_all add: demo_locks_eqs waits_def)
  then show ?thesis using setflck_no_deadlock [OF a, of 2 1 "demo_req F_WRLCK 50 60" True 1 5 w s'] r by blast
qed

theorem cleanlocks_removes_own_witness:
  "map fk_pid (fl_flck (flinotab (cleanlocks demo_file 1 demo_locks) 1)) = [2]"
proof -
  obtain s1 where f: "findfid demo_file demo_locks = (Some 1, s1)"
    by (simp add: findfid_def demo_locks_eqs demo_file_def)
  have "recs_ok (fl_flck (flinotab demo_locks 1), lkrecs demo_locks)" using demo_locks_ok(1) by (simp add: file_ok_def)
  from cleanlocks_removes_own [OF f this, of 1] show ?thesis by (simp add: demo_locks_eqs)
qed

text \<open>
  The rest of a lock whose front is taken away is inserted where the old lock was, even if locks of
  other processes start in between: after process 1 unlocks [5, 50), its lock [50, 100) precedes
  the lock [20, 30) of process 2, the search stops at it, and process 3 may write what process 2
  reads.
\<close>

lemma front_unlock_breaks_order:
  "let s1 = snd (snd (setflck demo_file 1 (demo_req F_UNLCK 5 45) False demo_locks));
       r = setflck demo_file 3 (demo_req F_WRLCK 20 10) False s1 in
   map fk_start (fl_flck (flinotab s1 1)) = [50, 20]
   \<and> fst r = Done 0 \<and> map (\<lambda>f. (fk_pid f, fk_start f, fk_end f, fk_type f)) (fl_flck (flinotab (snd (snd r)) 1))
     = [(3, 20, 30, F_WRLCK), (1, 50, 100, F_RDLCK), (2, 20, 30, F_RDLCK)]"
  by code_simp

end
