(* ===== verification/Fs_Alloc.thy ===== *)
theory Fs_Alloc
  imports Kernel_Prelude
begin

unbundle bit_operations_syntax

text \<open>
  Allocation of disk blocks and inodes of a file system (\<^verbatim>\<open>sys/os/alloc.c\<close>, \<^verbatim>\<open>sys/filsys.h\<close>,
  \<^verbatim>\<open>sys/fblk.h\<close>). The super block holds the head of the list of free blocks, whose rest is chained
  through free blocks of the disk, and a stock of numbers of free inodes. The device is what a
  process sees of it through the buffer cache: its blocks read as \<^verbatim>\<open>struct fblk\<close>, and the modes of
  the inodes in the blocks of the i-list. Reading a block may fail; \<open>rd\<close> tells which blocks can be
  read.
\<close>

section \<open>State\<close>

record fblk =
  df_nfree :: int
  df_free :: "int list"

record filsys =
  s_isize :: int
  s_fsize :: int
  s_nfree :: int
  s_free :: "int list"
  s_ninode :: int
  s_inode :: "u16 list"
  s_flock :: int
  s_ilock :: int
  s_fmod :: bool
  s_tfree :: int
  s_tinode :: u16

record fsdev =
  dv_blk :: "int \<Rightarrow> fblk"
  dv_ino :: "int \<Rightarrow> nat \<Rightarrow> u16"   \<comment> \<open>\<open>di_mode\<close> of an inode of a block\<close>

datatype fs_chan = Chan_flock | Chan_ilock

abbreviation (input) NICFREE :: int where "NICFREE \<equiv> 50"
abbreviation (input) NICINOD :: int where "NICINOD \<equiv> 100"

section \<open>Blocks\<close>

definition badblock :: "filsys \<Rightarrow> int \<Rightarrow> bool" where
  "badblock fp bn \<longleftrightarrow> bn < s_isize fp \<or> bn \<ge> s_fsize fp"

text \<open>The first loop of \<^verbatim>\<open>doalloc\<close>; 0 is no space.\<close>

function doalloc_pick :: "filsys \<Rightarrow> fs_chan outcome \<times> filsys" where
  "doalloc_pick fp =
     (if s_nfree fp \<le> 0 then (Done 0, fp)
      else let fp1 = fp\<lparr>s_nfree := s_nfree fp - 1\<rparr> in
        if nat (s_nfree fp1) \<ge> length (s_free fp) then (Wild, fp)
        else let bno = s_free fp ! nat (s_nfree fp1) in
          if bno = 0 then (Done 0, fp1)
          else if badblock fp1 bno then doalloc_pick fp1
          else (Done bno, fp1))"
  by pat_completeness auto
termination by (relation "measure (\<lambda>fp. nat (s_nfree fp))") auto

declare doalloc_pick.simps [simp del]

definition doalloc_fill :: "(int \<Rightarrow> bool) \<Rightarrow> fsdev \<Rightarrow> int \<Rightarrow> filsys \<Rightarrow> filsys" where
  "doalloc_fill rd dv bno fp =
     (if s_nfree fp \<le> 0 then
        (if rd bno then fp\<lparr>s_nfree := df_nfree (dv_blk dv bno), s_free := df_free (dv_blk dv bno)\<rparr> else fp)\<lparr>s_flock := 0\<rparr>
      else fp)"

definition nospace :: "filsys \<Rightarrow> fs_chan outcome \<times> filsys" where
  "nospace fp = (Done 0, fp\<lparr>s_nfree := 0, s_tfree := 0\<rparr>)"

definition doalloc :: "(int \<Rightarrow> bool) \<Rightarrow> fsdev \<Rightarrow> filsys \<Rightarrow> fs_chan outcome \<times> filsys" where
  "doalloc rd dv fp =
     (if s_flock fp \<noteq> 0 then (Sleep Chan_flock, fp)
      else case doalloc_pick fp of
        (Done bno, fp1) \<Rightarrow>
          if bno = 0 then nospace fp1
          else let fp2 = doalloc_fill rd dv bno fp1 in
            if s_nfree fp2 \<le> 0 \<or> s_nfree fp2 > NICFREE then nospace fp2
            else (Done bno, if s_tfree fp2 \<noteq> 0 then fp2\<lparr>s_tfree := s_tfree fp2 - 1\<rparr> else fp2)
      | (r, fp1) \<Rightarrow> (r, fp1))"

text \<open>
  \<^verbatim>\<open>alloc\<close>: the block comes back cleared. On a diskless root the server allocates; \<open>dl\<close> is the block it
  returns.
\<close>

definition alloc :: "int option \<Rightarrow> (int \<Rightarrow> bool) \<Rightarrow> fsdev \<Rightarrow> filsys \<Rightarrow> fs_chan outcome \<times> fsdev \<times> filsys" where
  "alloc dl rd dv fp =
     (case (case dl of None \<Rightarrow> doalloc rd dv fp | Some b \<Rightarrow> (Done b, fp)) of
        (Done bno, fp1) \<Rightarrow>
          if bno \<noteq> 0 then
            (Done bno, dv\<lparr>dv_blk := (dv_blk dv)(bno := \<lparr>df_nfree = 0, df_free = replicate 50 0\<rparr>)\<rparr>, fp1\<lparr>s_fmod := True\<rparr>)
          else (Err ENOSPC, dv, fp1)
      | (r, fp1) \<Rightarrow> (r, dv, fp1))"

definition dofree :: "int \<Rightarrow> fsdev \<Rightarrow> filsys \<Rightarrow> fs_chan outcome \<times> fsdev \<times> filsys" where
  "dofree bno dv fp =
     (if s_flock fp \<noteq> 0 then (Sleep Chan_flock, dv, fp)
      else if badblock fp bno then (Done 0, dv, fp)
      else let fp1 = (if s_nfree fp \<le> 0 then fp\<lparr>s_nfree := 1, s_free := (s_free fp)[0 := 0]\<rparr> else fp);
               (dv2, fp2) = (if s_nfree fp1 \<ge> NICFREE
                  then (dv\<lparr>dv_blk := (dv_blk dv)(bno := \<lparr>df_nfree = s_nfree fp1, df_free = s_free fp1\<rparr>)\<rparr>, fp1\<lparr>s_nfree := 0, s_flock := 0\<rparr>)
                  else (dv, fp1)) in
        (Done 0, dv2, fp2\<lparr>s_free := (s_free fp2)[nat (s_nfree fp2) := bno], s_nfree := s_nfree fp2 + 1,
                          s_tfree := s_tfree fp2 + 1, s_fmod := True\<rparr>))"

definition free :: "bool \<Rightarrow> int \<Rightarrow> fsdev \<Rightarrow> filsys \<Rightarrow> fs_chan outcome \<times> fsdev \<times> filsys" where
  "free remote bno dv fp =
     (let fp1 = fp\<lparr>s_fmod := True\<rparr> in if remote then (Done 0, dv, fp1) else dofree bno dv fp1)"

section \<open>Inodes\<close>

text \<open>The geometry of the i-list, for small and large blocks: inodes per block, block and offset of an
  inode, and the first inode of its group.\<close>

definition fsINOPB :: "bool \<Rightarrow> nat" where "fsINOPB lrg = (if lrg then 16 else 8)"

definition fsITOD :: "bool \<Rightarrow> u16 \<Rightarrow> int" where
  "fsITOD lrg x = (if lrg then (uint x + (2 * 16 - 1)) div 16 else (uint x + (2 * 8 - 1)) div 8)"

definition fsITOO :: "bool \<Rightarrow> u16 \<Rightarrow> nat" where
  "fsITOO lrg x = nat (if lrg then (uint x + (2 * 16 - 1)) mod 16 else (uint x + (2 * 8 - 1)) mod 8)"

definition fsINOS :: "bool \<Rightarrow> u16 \<Rightarrow> u16" where
  "fsINOS lrg x = (if lrg then (x AND NOT 0xF) + 1 else (x AND NOT 0x7) + 1)"

text \<open>The search of the i-list: the inodes of a block, and the blocks.\<close>

fun ial_blk :: "(nat \<Rightarrow> u16) \<Rightarrow> nat \<Rightarrow> nat \<Rightarrow> u16 \<Rightarrow> filsys \<Rightarrow> u16 \<times> filsys" where
  "ial_blk dp i 0 ino fp = (ino, fp)"
| "ial_blk dp i (Suc n) ino fp =
     (if s_ninode fp \<le> 0 then (ino, fp)
      else ial_blk dp (Suc i) n (ino + 1)
        (if dp i = 0 then fp\<lparr>s_ninode := s_ninode fp - 1, s_inode := (s_inode fp)[nat (s_ninode fp - 1) := ino]\<rparr> else fp))"

function ial_scan :: "bool \<Rightarrow> (int \<Rightarrow> bool) \<Rightarrow> fsdev \<Rightarrow> int \<Rightarrow> u16 \<Rightarrow> int \<Rightarrow> filsys \<Rightarrow> filsys" where
  "ial_scan lrg rd dv adr ino isize fp =
     (if adr \<ge> isize then fp
      else if \<not> rd adr then ial_scan lrg rd dv (adr + 1) (ino + of_nat (fsINOPB lrg)) isize fp
      else let (ino1, fp1) = ial_blk (dv_ino dv adr) 0 (fsINOPB lrg) ino fp in
        if s_ninode fp1 \<le> 0 then fp1 else ial_scan lrg rd dv (adr + 1) ino1 isize fp1)"
  by pat_completeness auto
termination by (relation "measure (\<lambda>(lrg, rd, dv, adr, ino, isize, fp). nat (isize - adr))") auto

declare ial_scan.simps [simp del]

definition ial_refill :: "bool \<Rightarrow> (int \<Rightarrow> bool) \<Rightarrow> fsdev \<Rightarrow> filsys \<Rightarrow> filsys" where
  "ial_refill lrg rd dv fp =
     (let ino = fsINOS lrg (s_inode fp ! 0);
          fp1 = ial_scan lrg rd dv (fsITOD lrg ino) ino (s_isize fp) (fp\<lparr>s_ninode := NICINOD\<rparr>);
          fp2 = fp1\<lparr>s_ilock := 0\<rparr> in
      if s_ninode fp2 > 0 then fp2\<lparr>s_inode := (s_inode fp2)[nat (s_ninode fp2 - 1) := 0, 0 := 0]\<rparr> else fp2)"

text \<open>\<^verbatim>\<open>doialloc\<close>; 0 is no inode. The loop is not structural: its end is a theorem.\<close>

partial_function (option) doialloc :: "bool \<Rightarrow> (int \<Rightarrow> bool) \<Rightarrow> fsdev \<Rightarrow> filsys \<Rightarrow> (fs_chan outcome \<times> filsys) option" where
  "doialloc lrg rd dv fp =
     (if s_ilock fp \<noteq> 0 then Some (Sleep Chan_ilock, fp)
      else if s_ninode fp > 0 \<and> nat (s_ninode fp - 1) \<ge> length (s_inode fp) then Some (Wild, fp)
      else let fp1 = (if s_ninode fp > 0 then fp\<lparr>s_ninode := s_ninode fp - 1\<rparr> else fp);
               ino = s_inode fp ! nat (s_ninode fp - 1) in
        if s_ninode fp > 0 \<and> ino \<noteq> 0 then Some (Done (uint ino), fp1)
        else let fp2 = ial_refill lrg rd dv fp1 in
          if s_ninode fp2 \<noteq> NICINOD then doialloc lrg rd dv (fp2\<lparr>s_ninode := NICINOD\<rparr>)
          else Some (Done 0, fp2\<lparr>s_ninode := 0, s_tinode := 0\<rparr>))"

definition doifree :: "u16 \<Rightarrow> filsys \<Rightarrow> fs_chan outcome \<times> filsys" where
  "doifree ino fp =
     (if s_ilock fp \<noteq> 0 then (Sleep Chan_ilock, fp)
      else let fp1 = fp\<lparr>s_ilock := 1, s_tinode := s_tinode fp + 1, s_fmod := True\<rparr>;
               fp2 = (if s_ninode fp1 \<ge> NICINOD
                      then (if ino < s_inode fp1 ! 0 then fp1\<lparr>s_inode := (s_inode fp1)[0 := ino]\<rparr> else fp1)
                      else fp1\<lparr>s_inode := (s_inode fp1)[nat (s_ninode fp1) := ino], s_ninode := s_ninode fp1 + 1\<rparr>) in
        (Done 0, fp2\<lparr>s_ilock := s_ilock fp2 - 1\<rparr>))"

text \<open>
  \<^verbatim>\<open>ialloc\<close>: \<open>ig\<close> is the mode of the in-core inode \<^verbatim>\<open>iget\<close> returns for a number, if it returns one. Of the inode
  on the disk only the mode matters here; the links, owner, size and addresses \<^verbatim>\<open>ialloc\<close> sets besides are left out. \<^verbatim>\<open>iupdat\<close>
  writes it, unless the file system is mounted read-only (\<open>ro\<close>) or the block of the inode cannot be read.
\<close>

definition ino_mode :: "bool \<Rightarrow> fsdev \<Rightarrow> u16 \<Rightarrow> u16" where
  "ino_mode lrg dv ino = dv_ino dv (fsITOD lrg ino) (fsITOO lrg ino)"

definition put_mode :: "bool \<Rightarrow> u16 \<Rightarrow> u16 \<Rightarrow> fsdev \<Rightarrow> fsdev" where
  "put_mode lrg ino m dv =
     dv\<lparr>dv_ino := (dv_ino dv)(fsITOD lrg ino := (dv_ino dv (fsITOD lrg ino))(fsITOO lrg ino := m))\<rparr>"

definition iupdat_mode :: "bool \<Rightarrow> (int \<Rightarrow> bool) \<Rightarrow> bool \<Rightarrow> u16 \<Rightarrow> u16 \<Rightarrow> fsdev \<Rightarrow> fsdev" where
  "iupdat_mode lrg rd ro ino m dv =
     (if ro then dv else if \<not> rd (fsITOD lrg ino) then dv else put_mode lrg ino m dv)"

lemma iupdat_mode_put: "\<lbrakk>\<not> ro; rd (fsITOD lrg ino)\<rbrakk> \<Longrightarrow> iupdat_mode lrg rd ro ino m dv = put_mode lrg ino m dv"
  by (simp add: iupdat_mode_def)

partial_function (option) ialloc ::
  "bool \<Rightarrow> (int \<Rightarrow> bool) \<Rightarrow> bool \<Rightarrow> (u16 \<Rightarrow> u16 option) \<Rightarrow> u16 \<Rightarrow> fsdev \<Rightarrow> filsys \<Rightarrow> (fs_chan outcome \<times> fsdev \<times> filsys) option" where
  "ialloc lrg rd ro ig mode dv fp =
     Option.bind (doialloc lrg rd dv fp) (\<lambda>(r, fp1).
       case r of
         Done n \<Rightarrow>
           if n > 0 then
             (case ig (word_of_int n) of
                None \<Rightarrow> Some (Done 0, dv, fp1)
              | Some m \<Rightarrow>
                  if m = 0 then
                    Some (Done n, iupdat_mode lrg rd ro (word_of_int n) mode dv,
                      (if s_tinode fp1 \<noteq> 0 then fp1\<lparr>s_tinode := s_tinode fp1 - 1\<rparr> else fp1)\<lparr>s_fmod := True\<rparr>)
                  else ialloc lrg rd ro ig mode (iupdat_mode lrg rd ro (word_of_int n) m dv) fp1)
           else Some (Err ENOSPC, dv, fp1)
       | _ \<Rightarrow> Some (r, dv, fp1))"

text \<open>\<^verbatim>\<open>ifree\<close> of an inode of mode \<open>m\<close>.\<close>

definition ifree :: "bool \<Rightarrow> (int \<Rightarrow> bool) \<Rightarrow> bool \<Rightarrow> bool \<Rightarrow> u16 \<Rightarrow> u16 \<Rightarrow> fsdev \<Rightarrow> filsys \<Rightarrow> fs_chan outcome \<times> fsdev \<times> filsys" where
  "ifree lrg rd ro remote m ino dv fp =
     (if m = 0 then (Done 0, dv, fp)
      else let dv1 = iupdat_mode lrg rd ro ino 0 dv in
        if remote then (Done 0, dv1, fp\<lparr>s_fmod := True\<rparr>)
        else (case doifree ino fp of (r, fp1) \<Rightarrow> (r, dv1, fp1)))"

section \<open>The list of free blocks\<close>

text \<open>The blocks of the list in the order of their allocation, from a segment of \<open>n\<close> entries on.\<close>

inductive fseg :: "(int \<Rightarrow> fblk) \<Rightarrow> nat \<Rightarrow> int list \<Rightarrow> int list \<Rightarrow> bool" for d :: "int \<Rightarrow> fblk" where
  fseg_end: "a ! 0 = 0 \<Longrightarrow> fseg d 1 a []"
| fseg_link: "\<lbrakk>a ! 0 = b; b \<noteq> 0; 0 < df_nfree (d b); df_nfree (d b) \<le> NICFREE; length (df_free (d b)) = 50;
    fseg d (nat (df_nfree (d b))) (df_free (d b)) bs\<rbrakk> \<Longrightarrow> fseg d 1 a (b # bs)"
| fseg_more: "\<lbrakk>fseg d n a bs; 1 \<le> n; a ! n = b; b \<noteq> 0\<rbrakk> \<Longrightarrow> fseg d (Suc n) a (b # bs)"

inductive_cases fseg_one: "fseg d (Suc 0) a bs"
inductive_cases fseg_Suc: "fseg d (Suc n) a bs"

lemma fseg_pos: "fseg d n a bs \<Longrightarrow> 1 \<le> n"
  by (induction rule: fseg.induct) auto

lemma fseg_cong: "fseg d n a bs \<Longrightarrow> \<forall>b \<in> set bs. d' b = d b \<Longrightarrow> \<forall>i < n. a' ! i = a ! i \<Longrightarrow> fseg d' n a' bs"
proof (induction arbitrary: a' rule: fseg.induct)
  case (fseg_link a b bs)
  then show ?case by (intro fseg.fseg_link) auto
next
  case (fseg_more n a bs b)
  then show ?case by (intro fseg.fseg_more) auto
next
  case (fseg_end a)
  then show ?case by (intro fseg.fseg_end) auto
qed

definition block_valid :: "(int \<Rightarrow> bool) \<Rightarrow> int \<Rightarrow> int \<Rightarrow> int \<Rightarrow> bool" where
  "block_valid rd isz fsz b \<longleftrightarrow> isz \<le> b \<and> b < fsz \<and> rd b"

definition free_ok :: "(int \<Rightarrow> bool) \<Rightarrow> int \<Rightarrow> int \<Rightarrow> fsdev \<times> filsys \<Rightarrow> int list \<Rightarrow> bool" where
  "free_ok rd isz fsz dvp bs \<longleftrightarrow> (case dvp of (dv, fp) \<Rightarrow>
     s_isize fp = isz \<and> s_fsize fp = fsz \<and> 0 < isz \<and> s_flock fp = 0 \<and> length (s_free fp) = 50 \<and> s_nfree fp \<le> NICFREE
     \<and> (if s_nfree fp \<le> 0 then bs = [] else fseg (dv_blk dv) (nat (s_nfree fp)) (s_free fp) bs)
     \<and> distinct bs \<and> (\<forall>b \<in> set bs. block_valid rd isz fsz b) \<and> s_tfree fp = int (length bs))"

text \<open>Allocation and freeing on the pair of device and super block.\<close>

definition fs_pop :: "(int \<Rightarrow> bool) \<Rightarrow> fsdev \<times> filsys \<Rightarrow> (int \<times> (fsdev \<times> filsys)) option" where
  "fs_pop rd dvp = (case alloc None rd (fst dvp) (snd dvp) of (Done b, dvp') \<Rightarrow> Some (b, dvp') | _ \<Rightarrow> None)"

definition fs_push :: "int \<Rightarrow> fsdev \<times> filsys \<Rightarrow> fsdev \<times> filsys" where
  "fs_push b dvp = snd (free False b (fst dvp) (snd dvp))"

lemma doalloc_pick_step:
  assumes "fseg d n (s_free fp) bs" "s_nfree fp = int n" "length (s_free fp) = 50" "n \<le> 50" "0 < s_isize fp"
    and "\<forall>b \<in> set bs. \<not> badblock fp b"
  shows "doalloc_pick fp = (case bs of [] \<Rightarrow> (Done 0, fp\<lparr>s_nfree := 0\<rparr>) | b # _ \<Rightarrow> (Done b, fp\<lparr>s_nfree := int n - 1\<rparr>))"
  using assms
proof (cases rule: fseg.cases)
  case fseg_end
  then show ?thesis using assms by (subst doalloc_pick.simps) simp
next
  case (fseg_link b bs')
  then have "\<not> badblock (fp\<lparr>s_nfree := 0\<rparr>) b" using assms(6) by (simp add: badblock_def)
  then show ?thesis using fseg_link assms by (subst doalloc_pick.simps) simp
next
  case (fseg_more n' bs' b)
  then have "\<not> badblock (fp\<lparr>s_nfree := int n'\<rparr>) b" using assms(6) by (simp add: badblock_def)
  then show ?thesis using fseg_more assms by (subst doalloc_pick.simps) simp
qed

lemma doalloc_head:
  assumes ok: "free_ok rd isz fsz (dv, fp) (b # bs)"
  shows "\<exists>fp'. doalloc rd dv fp = (Done b, fp') \<and> b \<noteq> 0 \<and> free_ok rd isz fsz (dv, fp') bs"
proof -
  have fp: "s_isize fp = isz" "s_fsize fp = fsz" "0 < isz" "s_flock fp = 0" "length (s_free fp) = 50" "s_nfree fp \<le> NICFREE"
    "distinct (b # bs)" "\<forall>x \<in> set (b # bs). block_valid rd isz fsz x" "s_tfree fp = 1 + int (length bs)"
    using ok by (auto simp: free_ok_def)
  obtain n where n: "s_nfree fp = int n" "1 \<le> n" "n \<le> 50" and seg: "fseg (dv_blk dv) n (s_free fp) (b # bs)"
    using ok fp(6) by (auto simp: free_ok_def split: if_splits intro: that [of "nat (s_nfree fp)"])
  have b: "b \<noteq> 0" "rd b" using fp(1,3,8) by (auto simp: block_valid_def)
  have "\<forall>x \<in> set (b # bs). \<not> badblock fp x" using fp(1,2,8) by (auto simp: badblock_def block_valid_def)
  from doalloc_pick_step [OF seg n(1) fp(5) n(3) _ this] fp(1,3)
  have pick: "doalloc_pick fp = (Done b, fp\<lparr>s_nfree := int n - 1\<rparr>)" by simp
  from seg show ?thesis
  proof (cases rule: fseg.cases)
    case fseg_link
    then show ?thesis using fp b pick by (simp add: doalloc_def doalloc_fill_def free_ok_def)
  next
    case (fseg_more n')
    then have "1 \<le> n'" "n' < 50" using n by simp_all
    then show ?thesis using fseg_more fp b pick by (simp add: doalloc_def doalloc_fill_def free_ok_def)
  qed
qed

lemma doalloc_empty:
  assumes "free_ok rd isz fsz (dv, fp) []"
  shows "\<exists>fp'. doalloc rd dv fp = (Done 0, fp') \<and> free_ok rd isz fsz (dv, fp') []"
proof -
  have fp: "s_isize fp = isz" "0 < isz" "s_flock fp = 0" "length (s_free fp) = 50" "s_nfree fp \<le> NICFREE" using assms by (auto simp: free_ok_def)
  have "fst (doalloc_pick fp) = Done 0 \<and> (\<exists>n. snd (doalloc_pick fp) = fp\<lparr>s_nfree := n\<rparr>)"
  proof (cases "s_nfree fp \<le> 0")
    case True
    then show ?thesis by (subst (1 2) doalloc_pick.simps) (simp, metis filsys.surjective filsys.update_convs(3))
  next
    case False
    then have "fseg (dv_blk dv) (nat (s_nfree fp)) (s_free fp) []" using assms by (simp add: free_ok_def)
    from doalloc_pick_step [OF this] False fp show ?thesis by auto
  qed
  then obtain n where "doalloc_pick fp = (Done 0, fp\<lparr>s_nfree := n\<rparr>)" by (metis prod.collapse)
  then show ?thesis using assms fp by (simp add: doalloc_def nospace_def free_ok_def)
qed

lemma free_ok_device:
  assumes "free_ok rd isz fsz (dv, fp) bs" "\<forall>b \<in> set bs. dv_blk dv' b = dv_blk dv b"
  shows "free_ok rd isz fsz (dv', fp\<lparr>s_fmod := m\<rparr>) bs"
  using assms fseg_cong [of "dv_blk dv" "nat (s_nfree fp)" "s_free fp" bs "dv_blk dv'" "s_free fp"] by (simp add: free_ok_def split: if_splits)

lemma fs_pop_Cons:
  assumes "free_ok rd isz fsz dvp (b # bs)"
  shows "\<exists>dvp'. fs_pop rd dvp = Some (b, dvp') \<and> free_ok rd isz fsz dvp' bs"
proof -
  obtain dv fp where p: "dvp = (dv, fp)" by fastforce
  from doalloc_head [of rd isz fsz dv fp b bs] assms p obtain fp' where
    fp': "doalloc rd dv fp = (Done b, fp')" "b \<noteq> 0" "free_ok rd isz fsz (dv, fp') bs" by auto
  have "b \<notin> set bs" using assms by (simp add: free_ok_def p)
  then have "free_ok rd isz fsz (dv\<lparr>dv_blk := (dv_blk dv)(b := \<lparr>df_nfree = 0, df_free = replicate 50 0\<rparr>)\<rparr>, fp'\<lparr>s_fmod := True\<rparr>) bs"
    by (intro free_ok_device [OF fp'(3)]) auto
  then show ?thesis using fp' by (simp add: fs_pop_def alloc_def p)
qed

lemma fs_pop_Nil:
  assumes "free_ok rd isz fsz dvp []"
  shows "fs_pop rd dvp = None" "fst (alloc None rd (fst dvp) (snd dvp)) = Err ENOSPC"
  using doalloc_empty [of rd isz fsz "fst dvp" "snd dvp"] assms by (auto simp: fs_pop_def alloc_def)

lemma fs_push_free:
  assumes "free_ok rd isz fsz dvp bs" "block_valid rd isz fsz b" "b \<notin> set bs"
  shows "free_ok rd isz fsz (fs_push b dvp) (b # bs)"
proof -
  obtain dv fp where p: "dvp = (dv, fp)" by fastforce
  have fp: "s_isize fp = isz" "s_fsize fp = fsz" "0 < isz" "s_flock fp = 0" "length (s_free fp) = 50" "s_nfree fp \<le> NICFREE"
    "distinct bs" "\<forall>x \<in> set bs. block_valid rd isz fsz x" "s_tfree fp = int (length bs)"
    using assms(1) by (auto simp: free_ok_def p)
  have b: "\<not> badblock (fp\<lparr>s_fmod := True\<rparr>) b" "b \<noteq> 0" using assms(2) fp by (auto simp: badblock_def block_valid_def)
  consider "s_nfree fp \<le> 0" | n where "s_nfree fp = int n" "1 \<le> n" "n < 50" | "s_nfree fp = 50"
    using fp(6) by (cases "s_nfree fp \<le> 0") (force intro: that(2) [of "nat (s_nfree fp)"] simp: le_less)+
  then show ?thesis
  proof cases
    case 1
    then have "bs = []" using assms(1) by (simp add: free_ok_def p)
    moreover have "fseg (dv_blk dv) 1 ((s_free fp)[0 := 0, Suc 0 := b]) []" using fp(5) by (intro fseg_end) simp
    then have "fseg (dv_blk dv) (Suc 1) ((s_free fp)[0 := 0, Suc 0 := b]) [b]" using fp(5) b(2) by (intro fseg_more) auto
    ultimately show ?thesis using 1 fp b assms(2) by (simp add: p fs_push_def free_def dofree_def Let_def free_ok_def numeral_2_eq_2)
  next
    case 2
    then have "fseg (dv_blk dv) n (s_free fp) bs" using assms(1) by (simp add: free_ok_def p)
    then have "fseg (dv_blk dv) n ((s_free fp)[n := b]) bs" by (rule fseg_cong) simp_all
    then have "fseg (dv_blk dv) (Suc n) ((s_free fp)[n := b]) (b # bs)" using fp(5) b(2) 2 by (intro fseg_more) auto
    then show ?thesis using 2 fp b assms(2,3) by (simp add: p fs_push_def free_def dofree_def Let_def free_ok_def nat_add_distrib)
  next
    case 3
    let ?d = "(dv_blk dv)(b := \<lparr>df_nfree = 50, df_free = s_free fp\<rparr>)"
    have "fseg (dv_blk dv) 50 (s_free fp) bs" using assms(1) 3 by (simp add: free_ok_def p)
    then have "fseg ?d 50 (s_free fp) bs" by (rule fseg_cong) (use assms(3) in auto)
    then have "fseg ?d 1 ((s_free fp)[0 := b]) (b # bs)" using fp(5) b(2) by (intro fseg_link) auto
    then show ?thesis using 3 fp b assms(2,3) by (simp add: p fs_push_def free_def dofree_def Let_def free_ok_def)
  qed
qed

section \<open>A stack of blocks\<close>

text \<open>What a client of the list of free blocks relies on: it is a stack.\<close>

fun pop_many :: "('s \<Rightarrow> ('b \<times> 's) option) \<Rightarrow> nat \<Rightarrow> 's \<Rightarrow> ('b list \<times> 's) option" where
  "pop_many pop 0 s = Some ([], s)"
| "pop_many pop (Suc n) s =
     (case pop s of None \<Rightarrow> None
      | Some (b, s1) \<Rightarrow> (case pop_many pop n s1 of None \<Rightarrow> None | Some (bs, s2) \<Rightarrow> Some (b # bs, s2)))"

locale block_stack =
  fixes pop :: "'s \<Rightarrow> ('b \<times> 's) option" and push :: "'b \<Rightarrow> 's \<Rightarrow> 's"
    and inv :: "'s \<Rightarrow> 'b list \<Rightarrow> bool" and valid :: "'b \<Rightarrow> bool"
  assumes pop_Cons: "inv s (b # bs) \<Longrightarrow> \<exists>s'. pop s = Some (b, s') \<and> inv s' bs"
    and pop_Nil: "inv s [] \<Longrightarrow> pop s = None"
    and push_free: "\<lbrakk>inv s bs; valid b; b \<notin> set bs\<rbrakk> \<Longrightarrow> inv (push b s) (b # bs)"
begin

lemma pop_all:
  "inv s (cs @ bs) \<Longrightarrow> \<exists>s'. pop_many pop (length cs) s = Some (cs, s') \<and> inv s' bs"
proof (induction cs arbitrary: s)
  case (Cons c cs)
  from pop_Cons [of s c "cs @ bs"] Cons.prems obtain s1 where s1: "pop s = Some (c, s1)" "inv s1 (cs @ bs)" by auto
  from Cons.IH [OF s1(2)] s1(1) show ?case by auto
qed simp

lemma push_all:
  "\<lbrakk>inv s bs; distinct cs; set cs \<inter> set bs = {}; \<forall>c \<in> set cs. valid c\<rbrakk> \<Longrightarrow> inv (fold push cs s) (rev cs @ bs)"
proof (induction cs arbitrary: s bs)
  case (Cons c cs)
  then have "inv (push c s) (c # bs)" by (intro push_free) auto
  from Cons.IH [OF this] Cons.prems show ?case by auto
qed simp

lemma push_pop_all:
  assumes "inv s bs" "distinct cs" "set cs \<inter> set bs = {}" "\<forall>c \<in> set cs. valid c"
  shows "\<exists>s'. pop_many pop (length cs + length bs) (fold push cs s) = Some (rev cs @ bs, s') \<and> pop s' = None"
  using pop_all [of "fold push cs s" "rev cs @ bs" "[]"] push_all [OF assms] pop_Nil by auto

end

interpretation fsb: block_stack "fs_pop rd" fs_push "free_ok rd isz fsz" "block_valid rd isz fsz"
  for rd isz fsz
  by unfold_locales (erule fs_pop_Cons, erule fs_pop_Nil, rule fs_push_free)

section \<open>The stock of inodes\<close>

text \<open>What \<^verbatim>\<open>doialloc\<close> takes from the super block before it has to search, in order.\<close>

definition stock :: "filsys \<Rightarrow> u16 list" where
  "stock fp = takeWhile (\<lambda>w. w \<noteq> 0) (rev (take (nat (s_ninode fp)) (s_inode fp)))"

definition ino_valid :: "bool \<Rightarrow> int \<Rightarrow> u16 \<Rightarrow> bool" where
  "ino_valid lrg isz w \<longleftrightarrow> w \<noteq> 0 \<and> uint w \<le> (isz - 2) * int (fsINOPB lrg)"

definition stock_ok :: "bool \<Rightarrow> fsdev \<Rightarrow> filsys \<Rightarrow> bool" where
  "stock_ok lrg dv fp \<longleftrightarrow>
     length (s_inode fp) = 100 \<and> 0 \<le> s_ninode fp \<and> s_ninode fp \<le> NICINOD \<and> s_ilock fp = 0
     \<and> 2 \<le> s_isize fp \<and> (s_isize fp - 2) * int (fsINOPB lrg) < 65536
     \<and> distinct (stock fp) \<and> (\<forall>w \<in> set (stock fp). ino_valid lrg (s_isize fp) w \<and> ino_mode lrg dv w = 0)"

text \<open>The free inodes in readable blocks from a number on.\<close>

definition free_inos :: "bool \<Rightarrow> (int \<Rightarrow> bool) \<Rightarrow> fsdev \<Rightarrow> int \<Rightarrow> int \<Rightarrow> u16 list" where
  "free_inos lrg rd dv isz i =
     filter (\<lambda>w. rd (fsITOD lrg w) \<and> ino_mode lrg dv w = 0) (map word_of_int [i..(isz - 2) * int (fsINOPB lrg)])"

lemma fsINOPB_pos [simp]: "0 < fsINOPB lrg" by (simp add: fsINOPB_def)

lemma fsITO_eq:
  assumes "1 \<le> uint x"
  shows "fsITOD lrg x = (uint x - 1) div int (fsINOPB lrg) + 2" "fsITOO lrg x = nat ((uint x - 1) mod int (fsINOPB lrg))"
proof -
  have e: "uint x + (2 * 16 - 1) = uint x - 1 + 2 * 16" "uint x + (2 * 8 - 1) = uint x - 1 + 2 * 8" by simp_all
  have d: "(uint x - 1 + 2 * 16) div 16 = 2 + (uint x - 1) div 16" "(uint x - 1 + 2 * 8) div 8 = 2 + (uint x - 1) div 8"
    by (rule div_mult_self1, simp)+
  show "fsITOD lrg x = (uint x - 1) div int (fsINOPB lrg) + 2"
    unfolding fsITOD_def fsINOPB_def e d by (cases lrg) (simp_all only: if_True if_False of_nat_numeral add.commute)
  show "fsITOO lrg x = nat ((uint x - 1) mod int (fsINOPB lrg))"
    unfolding fsITOO_def fsINOPB_def e mod_mult_self1 by (cases lrg) (simp_all only: if_True if_False of_nat_numeral)
qed

text \<open>The stock a search has collected: the entries from \<^verbatim>\<open>s_ninode\<close> up, from the top.\<close>

definition found :: "filsys \<Rightarrow> u16 list" where
  "found fp = rev (drop (nat (s_ninode fp)) (s_inode fp))"

lemma found_add:
  assumes "0 < s_ninode fp" "s_ninode fp \<le> int (length (s_inode fp))"
  shows "found (fp\<lparr>s_ninode := s_ninode fp - 1, s_inode := (s_inode fp)[nat (s_ninode fp - 1) := w]\<rparr>) = found fp @ [w]"
proof -
  obtain k where k: "nat (s_ninode fp) = Suc k" using assms(1) by (cases "nat (s_ninode fp)") simp_all
  then have n: "nat (s_ninode fp - 1) = k" "k < length (s_inode fp)" using assms by simp_all
  show ?thesis unfolding found_def using n k by (simp add: Cons_nth_drop_Suc [symmetric])
qed

text \<open>A search has put the free inodes \<open>L\<close> it came by into the stock, as far as there was room.\<close>

definition scan_res :: "filsys \<Rightarrow> u16 list \<Rightarrow> filsys \<Rightarrow> bool" where
  "scan_res fp L fp' \<longleftrightarrow> found fp' = found fp @ take (nat (s_ninode fp)) L
    \<and> length (s_inode fp') = 100 \<and> 0 \<le> s_ninode fp' \<and> s_ninode fp' \<le> s_ninode fp
    \<and> fp'\<lparr>s_ninode := 0, s_inode := []\<rparr> = fp\<lparr>s_ninode := 0, s_inode := []\<rparr>"

definition stock_room :: "filsys \<Rightarrow> bool" where
  "stock_room fp \<longleftrightarrow> length (s_inode fp) = 100 \<and> 0 \<le> s_ninode fp \<and> s_ninode fp \<le> NICINOD"

lemma scan_res_room: "scan_res fp L fp' \<Longrightarrow> stock_room fp \<Longrightarrow> stock_room fp'"
  by (simp add: scan_res_def stock_room_def)

lemma scan_res_left:
  assumes "scan_res fp L fp'" "stock_room fp"
  shows "nat (s_ninode fp') = nat (s_ninode fp) - length L"
proof -
  have "length (found fp') = length (found fp) + min (length L) (nat (s_ninode fp))" using assms(1) by (simp add: scan_res_def)
  then have "100 - nat (s_ninode fp') = 100 - nat (s_ninode fp) + min (length L) (nat (s_ninode fp))"
    using assms by (simp add: found_def scan_res_def stock_room_def)
  moreover have "nat (s_ninode fp) \<le> 100" "nat (s_ninode fp') \<le> 100" using assms by (auto simp: scan_res_def stock_room_def)
  ultimately show ?thesis by linarith
qed

lemma scan_res_trans:
  assumes "scan_res fp L fp1" "scan_res fp1 M fp2" "stock_room fp"
  shows "scan_res fp (L @ M) fp2"
  using assms(1,2) scan_res_left [OF assms(1,3)] by (auto simp: scan_res_def)

lemma scan_res_full: "scan_res fp L fp' \<Longrightarrow> stock_room fp \<Longrightarrow> s_ninode fp' \<le> 0 \<Longrightarrow> scan_res fp (L @ M) fp'"
  using scan_res_left [of fp L fp'] by (auto simp: scan_res_def)

lemma scan_res_refl: "stock_room fp \<Longrightarrow> scan_res fp [] fp"
  by (simp add: scan_res_def stock_room_def)

lemma ial_blk_spec:
  assumes "stock_room fp" "ial_blk dp i n ino fp = (ino', fp')"
  shows "scan_res fp (map (\<lambda>j. ino + of_nat j) (filter (\<lambda>j. dp (i + j) = 0) [0..<n])) fp' \<and> (0 < s_ninode fp' \<longrightarrow> ino' = ino + of_nat n)"
  using assms
proof (induction dp i n ino fp arbitrary: ino' fp' rule: ial_blk.induct)
  case (1 dp i ino fp)
  then show ?case using scan_res_refl by auto
next
  case (2 dp i n ino fp)
  show ?case
  proof (cases "s_ninode fp \<le> 0")
    case True
    then show ?thesis using 2(2,3) scan_res_full [OF scan_res_refl [OF 2(2)] 2(2)] by auto
  next
    case False
    let ?fp = "if dp i = 0 then fp\<lparr>s_ninode := s_ninode fp - 1, s_inode := (s_inode fp)[nat (s_ninode fp - 1) := ino]\<rparr> else fp"
    have r: "ial_blk dp (Suc i) n (ino + 1) ?fp = (ino', fp')" using 2(3) False by simp
    have room: "stock_room ?fp" using 2(2) False by (auto simp: stock_room_def)
    note IH = 2(1) [OF False room r]
    have u: "[0..<Suc n] = 0 # map Suc [0..<n]" by (simp only: upt_conv_Cons map_Suc_upt zero_less_Suc)
    have m: "map (\<lambda>j. ino + of_nat j) (filter (\<lambda>j. dp (i + j) = 0) [0..<Suc n])
      = (if dp i = 0 then [ino] else []) @ map (\<lambda>j. ino + 1 + of_nat j) (filter (\<lambda>j. dp (Suc i + j) = 0) [0..<n])"
      unfolding u by (simp add: filter_map o_def add.assoc)
    have f: "scan_res fp (if dp i = 0 then [ino] else []) ?fp"
      using found_add [of fp ino] False 2(2) by (auto simp: scan_res_def stock_room_def take_Cons')
    show ?thesis unfolding m using scan_res_trans [OF f conjunct1 [OF IH] 2(2)] IH by (simp add: add.assoc)
  qed
qed

lemma free_inos_end: "isz \<le> adr \<Longrightarrow> free_inos lrg rd dv isz ((adr - 2) * int (fsINOPB lrg) + 1) = []"
proof -
  assume "isz \<le> adr"
  then have "(isz - 2) * int (fsINOPB lrg) \<le> (adr - 2) * int (fsINOPB lrg)" by (intro mult_right_mono) simp_all
  then have "(isz - 2) * int (fsINOPB lrg) < (adr - 2) * int (fsINOPB lrg) + 1" by linarith
  then show ?thesis by (simp add: free_inos_def del: upto.simps)
qed

lemma u16_add_nat: "uint (w :: u16) + int n < 65536 \<Longrightarrow> uint (w + of_nat n) = uint w + int n"
proof -
  assume a: "uint w + int n < 65536"
  moreover have "n < 65536" using a uint_ge_0 [of w] by linarith
  then have "uint (of_nat n :: u16) = int n" by (simp add: unsigned_of_nat take_bit_eq_mod)
  ultimately show ?thesis by (simp add: uint_word_ariths)
qed

lemma ino_block_bound:
  assumes "adr < isz" "(isz - 2) * int (fsINOPB lrg) < 65536"
  shows "(adr - 1) * int (fsINOPB lrg) + 1 < 65536" "(adr - 1) * int (fsINOPB lrg) \<le> (isz - 2) * int (fsINOPB lrg)"
proof -
  show le: "(adr - 1) * int (fsINOPB lrg) \<le> (isz - 2) * int (fsINOPB lrg)" using assms(1) by (intro mult_right_mono) simp_all
  then have "(adr - 1) * int (fsINOPB lrg) < 65536" using assms(2) by linarith
  then show "(adr - 1) * int (fsINOPB lrg) + 1 < 65536" by (cases lrg) (simp_all add: fsINOPB_def)
qed

lemma free_inos_block:
  assumes adr: "2 \<le> adr" "adr < isz" and top: "(isz - 2) * int (fsINOPB lrg) < 65536"
    and ino: "uint ino = (adr - 2) * int (fsINOPB lrg) + 1"
  shows "free_inos lrg rd dv isz (uint ino)
    = (if rd adr then map (\<lambda>j. ino + of_nat j) (filter (\<lambda>j. dv_ino dv adr j = 0) [0..<fsINOPB lrg]) else [])
      @ free_inos lrg rd dv isz ((adr + 1 - 2) * int (fsINOPB lrg) + 1)"
proof -
  let ?N = "int (fsINOPB lrg)"
  note B = ino_block_bound [OF adr(2) top]
  have N: "uint ino + ?N = (adr - 1) * ?N + 1" using ino by (simp add: algebra_simps)
  have "[uint ino..(isz - 2) * ?N] = [uint ino..uint ino + ?N - 1] @ [uint ino + ?N..(isz - 2) * ?N]"
  proof -
    have "uint ino \<le> uint ino + ?N - 1" by (cases lrg) (simp_all add: fsINOPB_def)
    moreover have "uint ino + ?N - 1 \<le> (isz - 2) * ?N" using N B(2) by linarith
    ultimately show ?thesis using upto_split2 [of "uint ino" "uint ino + ?N - 1" "(isz - 2) * ?N"] by simp
  qed
  moreover have "[uint ino..uint ino + ?N - 1] = map (\<lambda>j. uint ino + int j) [0..<fsINOPB lrg]"
    by (rule nth_equalityI) simp_all
  moreover have W: "word_of_int (uint ino + int j) = ino + of_nat j" for j by simp
  have u: "uint (ino + of_nat j) = uint ino + int j" if "j < fsINOPB lrg" for j
    by (rule u16_add_nat) (use that N B(1) in linarith)
  have D: "fsITOD lrg (ino + of_nat j) = adr" "fsITOO lrg (ino + of_nat j) = j" if j: "j < fsINOPB lrg" for j
  proof -
    have "uint (ino + of_nat j) - 1 = int j + (adr - 2) * ?N" using u [OF j] ino by simp
    moreover have "1 \<le> uint (ino + of_nat j)" using u [OF j] ino adr(1) by simp
    ultimately show "fsITOD lrg (ino + of_nat j) = adr" "fsITOO lrg (ino + of_nat j) = j"
      using fsITO_eq [of "ino + of_nat j" lrg] j by (simp_all add: div_mult_self1 mod_mult_self1)
  qed
  have "filter (\<lambda>j. rd (fsITOD lrg (ino + of_nat j)) \<and> ino_mode lrg dv (ino + of_nat j) = 0) [0..<fsINOPB lrg]
    = (if rd adr then filter (\<lambda>j. dv_ino dv adr j = 0) [0..<fsINOPB lrg] else [])"
    using D by (auto simp: ino_mode_def filter_empty_conv intro!: filter_cong)
  ultimately show ?thesis using N unfolding free_inos_def by (simp add: filter_map o_def W)
qed

lemma ial_scan_spec:
  assumes "stock_room fp" "2 \<le> adr" "(isz - 2) * int (fsINOPB lrg) < 65536" "uint ino = (adr - 2) * int (fsINOPB lrg) + 1"
  shows "scan_res fp (free_inos lrg rd dv isz (uint ino)) (ial_scan lrg rd dv adr ino isz fp)"
  using assms
proof (induction lrg rd dv adr ino isz fp rule: ial_scan.induct)
  case (1 lrg rd dv adr ino isz fp)
  let ?N = "fsINOPB lrg"
  show ?case
  proof (cases "isz \<le> adr")
    case True
    then have "free_inos lrg rd dv isz (uint ino) = []" using free_inos_end 1(6) by simp
    then show ?thesis using True scan_res_refl [OF 1(3)] by (subst ial_scan.simps) simp
  next
    case False
    note B = ino_block_bound [of adr isz lrg] and S = free_inos_block [OF 1(4) _ 1(5,6), of rd dv]
    have ino': "uint (ino + of_nat ?N) = (adr + 1 - 2) * int ?N + 1"
    proof -
      have "uint ino + int ?N = (adr - 1) * int ?N + 1" using 1(6) by (simp add: algebra_simps)
      moreover have "uint ino + int ?N < 65536" using calculation B(1) [OF _ 1(5)] False by simp
      ultimately show ?thesis using u16_add_nat [of ino ?N] by simp
    qed
    show ?thesis
    proof (cases "rd adr")
      case F: False
      have "ial_scan lrg rd dv adr ino isz fp = ial_scan lrg rd dv (adr + 1) (ino + of_nat ?N) isz fp"
        using False F by (subst ial_scan.simps) simp
      then show ?thesis using 1(1) [OF False F 1(3) _ 1(5) ino'] 1(4) S False F ino' by simp
    next
      case True
      obtain ino1 fp1 where b: "ial_blk (dv_ino dv adr) 0 ?N ino fp = (ino1, fp1)" by fastforce
      note L = ial_blk_spec [OF 1(3) b]
      have e: "ial_scan lrg rd dv adr ino isz fp = (if s_ninode fp1 \<le> 0 then fp1 else ial_scan lrg rd dv (adr + 1) ino1 isz fp1)"
        using False True b by (subst ial_scan.simps) simp
      show ?thesis
      proof (cases "s_ninode fp1 \<le> 0")
        case Z: True
        from scan_res_full [OF conjunct1 [OF L] 1(3) Z] show ?thesis unfolding e using S False True Z by simp
      next
        case P: False
        have "scan_res fp1 (free_inos lrg rd dv isz (uint ino1)) (ial_scan lrg rd dv (adr + 1) ino1 isz fp1)"
          using 1(2) [OF False _ b [symmetric] refl P] True L P ino' 1(4,5) scan_res_room [OF conjunct1 [OF L] 1(3)] by simp
        from scan_res_trans [OF conjunct1 [OF L] this 1(3)] show ?thesis unfolding e using S False True P L ino' by simp
      qed
    qed
  qed
qed

lemma scan_res_frame:
  assumes "scan_res fp L fp'"
  shows "s_isize fp' = s_isize fp" "s_ilock fp' = s_ilock fp"
proof -
  have "s_isize (fp'\<lparr>s_ninode := 0, s_inode := []\<rparr>) = s_isize (fp\<lparr>s_ninode := 0, s_inode := []\<rparr>)"
    "s_ilock (fp'\<lparr>s_ninode := 0, s_inode := []\<rparr>) = s_ilock (fp\<lparr>s_ninode := 0, s_inode := []\<rparr>)"
    using assms by (simp_all only: scan_res_def)
  then show "s_isize fp' = s_isize fp" "s_ilock fp' = s_ilock fp" by simp_all
qed

text \<open>The first inode of the group a search starts in.\<close>

definition start_ino :: "bool \<Rightarrow> u16 \<Rightarrow> int" where
  "start_ino lrg x = uint x div int (fsINOPB lrg) * int (fsINOPB lrg) + 1"

lemma and_not_mask_uint: "uint ((x :: u16) AND NOT (mask n)) = uint x div 2 ^ n * 2 ^ n"
proof -
  have "x AND NOT (mask n) = push_bit n (drop_bit n x)"
    by (rule bit_word_eqI) (auto simp: bit_simps bit_mask_iff)
  moreover have "uint (push_bit n (drop_bit n x)) = take_bit 16 (uint x div 2 ^ n * 2 ^ n)"
  proof -
    have "take_bit 16 (uint x) = uint x" using unsigned_less [of x] by (simp add: take_bit_int_eq_self_iff)
    then show ?thesis unfolding unsigned_push_bit_eq unsigned_drop_bit_eq by (simp add: push_bit_eq_mult drop_bit_eq_div)
  qed
  moreover have "uint x < 65536" using unsigned_less [of x] by simp
  moreover have "uint x div 2 ^ n * 2 ^ n \<le> uint x" by (simp add: minus_mod_eq_div_mult [symmetric])
  moreover have "0 \<le> uint x div 2 ^ n * 2 ^ n" by (simp add: pos_imp_zdiv_nonneg_iff)
  ultimately have "take_bit 16 (uint x div 2 ^ n * 2 ^ n) = uint x div 2 ^ n * 2 ^ n" "uint (x AND NOT (mask n)) = take_bit 16 (uint x div 2 ^ n * 2 ^ n)"
    by (simp_all add: take_bit_int_eq_self_iff)
  then show ?thesis by simp
qed

lemma fsINOS_eq: "uint (fsINOS lrg x) = start_ino lrg x"
proof -
  have m: "(0xF :: u16) = mask 4" "(0x7 :: u16) = mask 3" by (simp_all add: mask_eq_exp_minus_1)
  have a: "uint (w + 1) = uint w + 1" if "uint w + 1 < 65536" for w :: u16
    using u16_add_nat [of w 1] that by simp
  have "uint x < 65536" using unsigned_less [of x] by simp
  then have b: "uint x div 16 * 16 + 1 < 65536" "uint x div 8 * 8 + 1 < 65536" by presburger+
  show ?thesis
    unfolding fsINOS_def start_ino_def fsINOPB_def m
    using a [of "x AND NOT (mask 4)"] a [of "x AND NOT (mask 3)"] b by (cases lrg) (simp_all add: and_not_mask_uint)
qed

text \<open>A refill from a hint, and what the next call takes.\<close>

lemma stock_found:
  assumes "length (s_inode fp) = 100" "0 \<notin> set L" "rev (s_inode fp) = L @ r" "r = [] \<or> hd r = 0"
  shows "stock (fp\<lparr>s_ninode := NICINOD\<rparr>) = L"
proof -
  have t: "take 100 (s_inode fp) = s_inode fp" using assms(1) by simp
  have "takeWhile (\<lambda>w. w \<noteq> 0) (L @ r) = L" using assms(2,4) by (cases r) (auto simp: takeWhile_append takeWhile_eq_all_conv)
  then show ?thesis by (simp add: stock_def t assms(3))
qed

lemma free_inos_mem:
  "w \<in> set (free_inos lrg rd dv isz i) \<longleftrightarrow>
    (\<exists>k. i \<le> k \<and> k \<le> (isz - 2) * int (fsINOPB lrg) \<and> w = word_of_int k) \<and> rd (fsITOD lrg w) \<and> ino_mode lrg dv w = 0"
  by (auto simp: free_inos_def simp del: upto.simps)

lemma free_inos_props:
  assumes "1 \<le> i" "(isz - 2) * int (fsINOPB lrg) < 65536"
  shows "distinct (free_inos lrg rd dv isz i)" "\<forall>w \<in> set (free_inos lrg rd dv isz i). ino_valid lrg isz w \<and> ino_mode lrg dv w = 0"
    "w \<noteq> 0 \<Longrightarrow> w \<in> set (free_inos lrg rd dv isz i) \<longleftrightarrow> i \<le> uint w \<and> ino_valid lrg isz w \<and> rd (fsITOD lrg w) \<and> ino_mode lrg dv w = 0"
proof -
  have u: "uint (word_of_int k :: u16) = k" if "i \<le> k" "k \<le> (isz - 2) * int (fsINOPB lrg)" for k
    using that assms by (simp add: unsigned_of_int take_bit_int_eq_self_iff)
  then have "inj_on (word_of_int :: int \<Rightarrow> u16) {i..(isz - 2) * int (fsINOPB lrg)}" by (intro inj_on_inverseI [where g = uint]) auto
  then show "distinct (free_inos lrg rd dv isz i)" unfolding free_inos_def
    by (intro distinct_filter) (simp add: distinct_map del: upto.simps)
  have v: "ino_valid lrg isz (word_of_int k)" if "i \<le> k" "k \<le> (isz - 2) * int (fsINOPB lrg)" for k
    using u [OF that] that assms(1) by (auto simp: ino_valid_def)
  then show "\<forall>w \<in> set (free_inos lrg rd dv isz i). ino_valid lrg isz w \<and> ino_mode lrg dv w = 0" by (auto simp: free_inos_mem)
  show "w \<noteq> 0 \<Longrightarrow> w \<in> set (free_inos lrg rd dv isz i) \<longleftrightarrow> i \<le> uint w \<and> ino_valid lrg isz w \<and> rd (fsITOD lrg w) \<and> ino_mode lrg dv w = 0"
  proof
    assume "w \<in> set (free_inos lrg rd dv isz i)"
    then obtain k where "i \<le> k" "k \<le> (isz - 2) * int (fsINOPB lrg)" "w = word_of_int k" "rd (fsITOD lrg w) \<and> ino_mode lrg dv w = 0"
      unfolding free_inos_mem by blast
    then show "i \<le> uint w \<and> ino_valid lrg isz w \<and> rd (fsITOD lrg w) \<and> ino_mode lrg dv w = 0" using u [of k] v [of k] by simp
  next
    assume a: "i \<le> uint w \<and> ino_valid lrg isz w \<and> rd (fsITOD lrg w) \<and> ino_mode lrg dv w = 0"
    then have "i \<le> uint w \<and> uint w \<le> (isz - 2) * int (fsINOPB lrg) \<and> w = word_of_int (uint w)" by (simp add: ino_valid_def)
    with a show "w \<in> set (free_inos lrg rd dv isz i)" unfolding free_inos_mem by blast
  qed
qed

lemma ial_refill_spec:
  fixes lrg :: bool and rd :: "int \<Rightarrow> bool" and dv :: fsdev
  assumes "length (s_inode fp) = 100" "2 \<le> s_isize fp" "(s_isize fp - 2) * int (fsINOPB lrg) < 65536"
  defines "L \<equiv> free_inos lrg rd dv (s_isize fp) (start_ino lrg (s_inode fp ! 0))"
  defines "fp' \<equiv> ial_refill lrg rd dv fp"
  shows "length (s_inode fp') = 100 \<and> s_ilock fp' = 0 \<and> s_isize fp' = s_isize fp \<and> stock (fp'\<lparr>s_ninode := NICINOD\<rparr>) = take 100 L
    \<and> (s_ninode fp' = NICINOD \<longleftrightarrow> L = []) \<and> (L = [] \<longrightarrow> s_inode fp' ! 0 = 0)"
proof -
  let ?N = "int (fsINOPB lrg)"
  let ?ino = "fsINOS lrg (s_inode fp ! 0)" and ?fp = "fp\<lparr>s_ninode := NICINOD\<rparr>"
  define fp1 where "fp1 = ial_scan lrg rd dv (fsITOD lrg ?ino) ?ino (s_isize fp) ?fp"
  have s1: "1 \<le> start_ino lrg (s_inode fp ! 0)" unfolding start_ino_def using uint_ge_0 by (simp add: pos_imp_zdiv_nonneg_iff)
  have d: "fsITOD lrg ?ino = uint (s_inode fp ! 0) div ?N + 2"
    using fsITO_eq(1) [of ?ino lrg] s1 fsINOS_eq [of lrg "s_inode fp ! 0"] by (simp add: start_ino_def)
  have room: "stock_room ?fp" using assms(1) by (simp add: stock_room_def)
  have "scan_res ?fp (free_inos lrg rd dv (s_isize fp) (uint ?ino)) fp1" unfolding fp1_def
    by (rule ial_scan_spec [OF room]) (use assms(3) d fsINOS_eq [of lrg "s_inode fp ! 0"] in \<open>auto simp: start_ino_def pos_imp_zdiv_nonneg_iff\<close>)
  then have R: "scan_res ?fp L fp1" by (simp add: L_def fsINOS_eq)
  note F = scan_res_frame [OF R] and left = scan_res_left [OF R room]
  have L0: "0 \<notin> set L" using free_inos_props(2) [OF s1 assms(3)] unfolding L_def by (auto simp: ino_valid_def)
  have fnd: "rev (drop (nat (s_ninode fp1)) (s_inode fp1)) = take 100 L" and len: "length (s_inode fp1) = 100" "0 \<le> s_ninode fp1"
    using R assms(1) by (simp_all add: scan_res_def found_def)
  have fp': "fp' = (if s_ninode fp1 > 0 then fp1\<lparr>s_ilock := 0, s_inode := (s_inode fp1)[nat (s_ninode fp1 - 1) := 0, 0 := 0]\<rparr> else fp1\<lparr>s_ilock := 0\<rparr>)"
    by (simp add: fp'_def ial_refill_def Let_def fp1_def)
  show ?thesis
  proof (cases "s_ninode fp1 > 0")
    case False
    then have "rev (s_inode fp1) = take 100 L" "length L \<ge> 100" "L \<noteq> []" using fnd left len by auto
    moreover from this have "stock (fp'\<lparr>s_ninode := NICINOD\<rparr>) = take 100 L"
      using stock_found [of fp' "take 100 L" "[]"] L0 len False by (auto simp: fp' dest: in_set_takeD)
    ultimately show ?thesis using False len F fp' assms(1) by auto
  next
    case True
    define k where "k = nat (s_ninode fp1 - 1)"
    have k: "nat (s_ninode fp1) = Suc k" "length L = 99 - k" "k < 100" using True left len R by (auto simp: k_def scan_res_def)
    have i: "s_inode fp' = (s_inode fp1)[k := 0, 0 := 0]" using True by (simp add: fp' k_def)
    have "rev (s_inode fp') = take 100 L @ rev (take (Suc k) ((s_inode fp1)[k := 0, 0 := 0]))"
    proof -
      have "s_inode fp' = take (Suc k) (s_inode fp') @ drop (Suc k) (s_inode fp')" by simp
      moreover have "drop (Suc k) (s_inode fp') = drop (Suc k) (s_inode fp1)" by (simp add: i)
      ultimately have "rev (s_inode fp') = rev (drop (Suc k) (s_inode fp1)) @ rev (take (Suc k) (s_inode fp'))" by (metis rev_append)
      then show ?thesis using fnd k(1) i by simp
    qed
    moreover have "hd (rev (take (Suc k) ((s_inode fp1)[k := 0, 0 := 0]))) = 0"
      using k len by (simp add: hd_rev take_Suc_conv_app_nth nth_list_update)
    ultimately have "stock (fp'\<lparr>s_ninode := NICINOD\<rparr>) = take 100 L"
      using stock_found [of fp' "take 100 L"] L0 len i by (auto dest: in_set_takeD)
    moreover have "s_ninode fp' = NICINOD \<longleftrightarrow> L = []" using k True len by (auto simp: fp')
    ultimately show ?thesis using len F fp' True i assms(1) k by (simp add: k_def)
  qed
qed

lemma stock_step:
  assumes "length (s_inode fp) = 100" "0 < s_ninode fp" "s_ninode fp \<le> 100"
  shows "stock fp = (if s_inode fp ! nat (s_ninode fp - 1) = 0 then []
    else s_inode fp ! nat (s_ninode fp - 1) # stock (fp\<lparr>s_ninode := s_ninode fp - 1\<rparr>))"
proof -
  define k where "k = nat (s_ninode fp - 1)"
  have "nat (s_ninode fp) = Suc k" "k < length (s_inode fp)" using assms by (auto simp: k_def)
  then show ?thesis by (simp add: stock_def k_def [symmetric] take_Suc_conv_app_nth)
qed

lemma doialloc_stock:
  assumes "length (s_inode fp) = 100" "0 \<le> s_ninode fp" "s_ninode fp \<le> 100" "s_ilock fp = 0" "stock fp = w # ws"
  shows "doialloc lrg rd dv fp = Some (Done (uint w), fp\<lparr>s_ninode := s_ninode fp - 1\<rparr>)"
    "stock (fp\<lparr>s_ninode := s_ninode fp - 1\<rparr>) = ws" "0 < s_ninode fp" "w \<noteq> 0"
proof -
  show p: "0 < s_ninode fp" using assms(2,5) by (cases "s_ninode fp = 0") (auto simp: stock_def)
  have *: "s_inode fp ! nat (s_ninode fp - 1) = w" "w \<noteq> 0" "stock (fp\<lparr>s_ninode := s_ninode fp - 1\<rparr>) = ws"
    using stock_step [OF assms(1) p assms(3)] assms(5) by (auto split: if_splits)
  then show "w \<noteq> 0" "stock (fp\<lparr>s_ninode := s_ninode fp - 1\<rparr>) = ws" by simp_all
  show "doialloc lrg rd dv fp = Some (Done (uint w), fp\<lparr>s_ninode := s_ninode fp - 1\<rparr>)"
    by (subst doialloc.simps) (use * p assms in simp)
qed

lemma doialloc_empty:
  assumes "length (s_inode fp) = 100" "0 \<le> s_ninode fp" "s_ninode fp \<le> 100" "s_ilock fp = 0" "stock fp = []"
  shows "doialloc lrg rd dv fp =
    (let fp2 = ial_refill lrg rd dv (fp\<lparr>s_ninode := max 0 (s_ninode fp - 1)\<rparr>) in
     if s_ninode fp2 \<noteq> NICINOD then doialloc lrg rd dv (fp2\<lparr>s_ninode := NICINOD\<rparr>)
     else Some (Done 0, fp2\<lparr>s_ninode := 0, s_tinode := 0\<rparr>))"
proof (cases "s_ninode fp = 0")
  case True
  have e: "fp\<lparr>s_ninode := max 0 (s_ninode fp - 1)\<rparr> = fp" using True by simp
  show ?thesis unfolding e by (subst doialloc.simps) (use True assms in \<open>simp add: Let_def\<close>)
next
  case False
  then have "s_inode fp ! nat (s_ninode fp - 1) = 0" using stock_step [of fp] assms by (auto split: if_splits)
  moreover have "max 0 (s_ninode fp - 1) = s_ninode fp - 1" "\<not> 100 \<le> nat (s_ninode fp - 1)" using False assms(2,3) by simp_all
  ultimately show ?thesis by (subst doialloc.simps) (use False assms in \<open>simp add: Let_def\<close>)
qed

text \<open>What a call does, over the stock.\<close>

lemma doialloc_result:
  fixes rd :: "int \<Rightarrow> bool"
  assumes ok: "stock_ok lrg dv fp"
  defines "L \<equiv> free_inos lrg rd dv (s_isize fp) (start_ino lrg (s_inode fp ! 0))"
  defines "ws \<equiv> (if stock fp = [] then take 100 L else stock fp)"
  shows "\<exists>fp'. doialloc lrg rd dv fp = Some (Done (case ws of [] \<Rightarrow> 0 | w # _ \<Rightarrow> uint w), fp') \<and> stock fp' = tl ws
    \<and> length (s_inode fp') = 100 \<and> 0 \<le> s_ninode fp' \<and> s_ninode fp' \<le> NICINOD \<and> s_ilock fp' = 0 \<and> s_isize fp' = s_isize fp
    \<and> (ws = [] \<longrightarrow> s_inode fp' ! 0 = 0)"
proof -
  have fp: "length (s_inode fp) = 100" "0 \<le> s_ninode fp" "s_ninode fp \<le> NICINOD" "s_ilock fp = 0" "2 \<le> s_isize fp"
    "(s_isize fp - 2) * int (fsINOPB lrg) < 65536" using ok by (simp_all add: stock_ok_def)
  show ?thesis
  proof (cases "stock fp")
    case (Cons w r)
    note D = doialloc_stock(2-4) [OF fp(1-4) Cons]
    from doialloc_stock(1) [OF fp(1-4) Cons, of lrg rd dv] D fp Cons show ?thesis by (simp add: ws_def)
  next
    case Nil
    let ?fp = "fp\<lparr>s_ninode := max 0 (s_ninode fp - 1)\<rparr>"
    let ?fp2 = "ial_refill lrg rd dv ?fp"
    note R = ial_refill_spec [of ?fp lrg rd dv, simplified, OF fp(1,5,6), folded L_def]
    note E = doialloc_empty [OF fp(1-4) Nil, of lrg rd dv]
    show ?thesis
    proof (cases "L = []")
      case True
      then show ?thesis using R E Nil by (simp add: ws_def Let_def stock_def)
    next
      case False
      then obtain w r where w: "take 100 L = w # r" by (cases L) auto
      let ?fp3 = "?fp2\<lparr>s_ninode := NICINOD\<rparr>"
      from R w False have "doialloc lrg rd dv fp = doialloc lrg rd dv ?fp3" "stock ?fp3 = w # r" using E by (simp_all add: Let_def)
      moreover note doialloc_stock(1) [of ?fp3 w r lrg rd dv] doialloc_stock(2,4) [of ?fp3 w r]
      ultimately show ?thesis using R w Nil False by (simp add: ws_def)
    qed
  qed
qed

lemma ino_mode_iupdat:
  assumes "a \<noteq> 0" "b \<noteq> 0"
  shows "ino_mode lrg (put_mode lrg a m dv) b = (if a = b then m else ino_mode lrg dv b)"
proof -
  have p: "1 \<le> uint w" if "w \<noteq> 0" for w :: u16 using that uint_ge_0 [of w] by (metis int_one_le_iff_zero_less order_le_less uint_0_iff)
  have "uint a = uint b" if "fsITOD lrg a = fsITOD lrg b" "fsITOO lrg a = fsITOO lrg b"
  proof -
    let ?N = "int (fsINOPB lrg)"
    have "(uint a - 1) div ?N = (uint b - 1) div ?N" "(uint a - 1) mod ?N = (uint b - 1) mod ?N"
      using that by (simp_all add: fsITO_eq [OF p [OF assms(1)]] fsITO_eq [OF p [OF assms(2)]] eq_nat_nat_iff)
    then have "uint a - 1 = uint b - 1" by (metis div_mult_mod_eq)
    then show ?thesis by simp
  qed
  then have "a = b" if "fsITOD lrg a = fsITOD lrg b" "fsITOO lrg a = fsITOO lrg b" using that by (simp add: word_uint_eq_iff)
  then show ?thesis by (auto simp: ino_mode_def put_mode_def)
qed

lemma stock_ok_iupdat:
  assumes "stock_ok lrg dv fp" "w \<noteq> 0" "w \<notin> set (stock fp)"
  shows "stock_ok lrg (put_mode lrg w m dv) fp"
  using assms ino_mode_iupdat [of w _ lrg m dv] unfolding stock_ok_def by (metis ino_valid_def)

lemma stock_ok_cong: "stock_ok lrg dv fp \<Longrightarrow> stock_ok lrg dv (fp\<lparr>s_tinode := t, s_fmod := m\<rparr>)"
  by (simp add: stock_ok_def stock_def)

lemma doialloc_ok:
  assumes ok: "stock_ok lrg dv fp"
  shows "\<exists>n fp'. doialloc lrg rd dv fp = Some (Done n, fp') \<and> stock_ok lrg dv fp' \<and> s_isize fp' = s_isize fp
    \<and> (n \<noteq> 0 \<longrightarrow> (\<exists>w. n = uint w \<and> ino_valid lrg (s_isize fp) w \<and> ino_mode lrg dv w = 0 \<and> w \<notin> set (stock fp')))
    \<and> (n = 0 \<longrightarrow> stock fp = [] \<and> s_inode fp' ! 0 = 0
         \<and> (\<forall>w. start_ino lrg (s_inode fp ! 0) \<le> uint w \<and> ino_valid lrg (s_isize fp) w \<and> rd (fsITOD lrg w) \<longrightarrow> ino_mode lrg dv w \<noteq> 0))"
proof -
  define L where "L = free_inos lrg rd dv (s_isize fp) (start_ino lrg (s_inode fp ! 0))"
  define ws where "ws = (if stock fp = [] then take 100 L else stock fp)"
  from doialloc_result [OF ok, of rd] obtain fp' where R: "doialloc lrg rd dv fp = Some (Done (case ws of [] \<Rightarrow> 0 | w # _ \<Rightarrow> uint w), fp')"
    "stock fp' = tl ws" "length (s_inode fp') = 100 \<and> 0 \<le> s_ninode fp' \<and> s_ninode fp' \<le> NICINOD \<and> s_ilock fp' = 0 \<and> s_isize fp' = s_isize fp"
    "ws = [] \<longrightarrow> s_inode fp' ! 0 = 0" unfolding ws_def L_def by blast
  have "1 \<le> start_ino lrg (s_inode fp ! 0)" by (simp add: start_ino_def pos_imp_zdiv_nonneg_iff)
  note P = free_inos_props [OF this, of "s_isize fp" lrg, folded L_def]
  have top: "(s_isize fp - 2) * int (fsINOPB lrg) < 65536" "2 \<le> s_isize fp" using ok by (simp_all add: stock_ok_def)
  have ws: "distinct ws" "\<forall>w \<in> set ws. ino_valid lrg (s_isize fp) w \<and> ino_mode lrg dv w = 0"
    using ok P(1,2) [OF top(1), of rd dv] unfolding ws_def stock_ok_def L_def by (auto dest: in_set_takeD)
  have "stock_ok lrg dv fp'" using R(2,3) ws top unfolding stock_ok_def by (cases ws) auto
  moreover have "ws = [] \<longrightarrow> stock fp = [] \<and> L = []" by (simp add: ws_def)
  moreover have "uint w \<noteq> 0" if "ino_valid lrg (s_isize fp) w" for w using that by (simp add: ino_valid_def uint_0_iff)
  ultimately show ?thesis
    using R ws P(3) [OF top(1), of _ rd dv, folded L_def] by (cases ws) (auto simp: ino_valid_def L_def)
qed

lemma stock_push_full:
  assumes "length xs = 100"
  defines "P \<equiv> \<lambda>w :: u16. w \<noteq> 0"
  shows "takeWhile P (rev (xs[0 := v])) = takeWhile P (rev xs)
    \<or> (\<exists>ys. takeWhile P (rev (xs[0 := v])) = ys @ takeWhile P [v] \<and> takeWhile P (rev xs) = ys @ takeWhile P [xs ! 0])"
proof -
  obtain x r where xs: "xs = x # r" using assms(1) by (cases xs) auto
  show ?thesis by (cases "\<forall>w \<in> set r. P w") (auto simp: xs takeWhile_append)
qed

lemma doifree_stock:
  assumes ok: "stock_ok lrg dv fp" and w: "w \<noteq> 0" "w \<notin> set (stock fp)" and r: "doifree w fp = (r, fp')"
  shows "r = Done 0 \<and> set (stock fp') \<subseteq> insert w (set (stock fp)) \<and> distinct (stock fp')
    \<and> length (s_inode fp') = 100 \<and> 0 \<le> s_ninode fp' \<and> s_ninode fp' \<le> NICINOD \<and> s_ilock fp' = 0 \<and> s_isize fp' = s_isize fp
    \<and> (s_ninode fp < NICINOD \<longrightarrow> stock fp' = w # stock fp)"
proof -
  have fp: "length (s_inode fp) = 100" "0 \<le> s_ninode fp" "s_ninode fp \<le> NICINOD" "s_ilock fp = 0" "distinct (stock fp)"
    using ok by (simp_all add: stock_ok_def)
  show ?thesis
  proof (cases "s_ninode fp < 100")
    case True
    then obtain k where k: "s_ninode fp = int k" "k < 100" using fp(2) by (metis nat_less_iff nonneg_int_cases of_nat_less_numeral_iff)
    have "stock fp' = w # stock fp"
      using r k fp(1,4) w(1) by (auto simp: doifree_def Let_def stock_def nat_add_distrib take_Suc_conv_app_nth)
    then show ?thesis using r k fp w(2) by (auto simp: doifree_def Let_def)
  next
    case False
    then have n: "s_ninode fp = 100" using fp(3) by simp
    then have fr: "r = Done 0" "fp' = fp\<lparr>s_ilock := 0, s_tinode := s_tinode fp + 1, s_fmod := True,
        s_inode := (if w < s_inode fp ! 0 then (s_inode fp)[0 := w] else s_inode fp)\<rparr>"
      using r fp(4) by (auto simp: doifree_def Let_def)
    have "set (stock fp') \<subseteq> insert w (set (stock fp)) \<and> distinct (stock fp')"
      using stock_push_full [OF fp(1), of w] fp(1,5) w n unfolding fr(2) stock_def by (auto split: if_splits)
    then show ?thesis using fr fp n by simp
  qed
qed

text \<open>The two ways on from an inode number, for \<^verbatim>\<open>ialloc\<close>.\<close>

lemma ialloc_got:
  assumes "doialloc lrg rd dv fp = Some (Done n, fp1)" "n = uint w" "0 < n" "ig w = Some 0" "stock_ok lrg dv fp1" "w \<notin> set (stock fp1)"
    and "\<not> ro" "rd (fsITOD lrg w)"
  shows "\<exists>fp'. ialloc lrg rd ro ig mode dv fp = Some (Done n, put_mode lrg w mode dv, fp')
    \<and> stock_ok lrg (put_mode lrg w mode dv) fp' \<and> stock fp' = stock fp1"
proof -
  let ?fp = "(if s_tinode fp1 \<noteq> 0 then fp1\<lparr>s_tinode := s_tinode fp1 - 1\<rparr> else fp1)\<lparr>s_fmod := True\<rparr>"
  have "w \<noteq> 0" using assms(2,3) by auto
  then have "stock_ok lrg (put_mode lrg w mode dv) fp1" using stock_ok_iupdat [OF assms(5) _ assms(6)] by simp
  then have "stock_ok lrg (put_mode lrg w mode dv) ?fp" "stock ?fp = stock fp1" by (simp_all add: stock_ok_def stock_def)
  moreover have "ialloc lrg rd ro ig mode dv fp = Some (Done n, put_mode lrg w mode dv, ?fp)"
    by (subst ialloc.simps) (use assms in \<open>simp add: iupdat_mode_put\<close>)
  ultimately show ?thesis by blast
qed

lemma free_inos_fewer:
  assumes "ino_valid lrg isz w" "ino_mode lrg dv w = 0" "m \<noteq> 0"
  shows "card {v. ino_valid lrg isz v \<and> ino_mode lrg (put_mode lrg w m dv) v = 0} < card {v. ino_valid lrg isz v \<and> ino_mode lrg dv v = 0}"
proof -
  have "{v. ino_valid lrg isz v \<and> ino_mode lrg (put_mode lrg w m dv) v = 0} = {v. ino_valid lrg isz v \<and> ino_mode lrg dv v = 0} - {w}"
    using ino_mode_iupdat [of w _ lrg m dv] assms by (auto simp: ino_valid_def split: if_splits)
  moreover have "card ({v. ino_valid lrg isz v \<and> ino_mode lrg dv v = 0} - {w}) < card {v. ino_valid lrg isz v \<and> ino_mode lrg dv v = 0}"
    by (rule card_Diff1_less) (simp_all add: assms(1,2))
  ultimately show ?thesis by (simp only:)
qed

section \<open>Properties\<close>

text \<open>
  Allocation of a block. On a list of free blocks in order, \<^verbatim>\<open>alloc\<close> returns its first block, cleared,
  and leaves the list of the others in order, wherever the list continues on the disk; it fails with
  \<^verbatim>\<open>ENOSPC\<close> exactly if the list is empty.
\<close>

theorem alloc_takes_first:
  assumes "free_ok rd isz fsz (dv, fp) bs"
  shows "case bs of
      [] \<Rightarrow> fst (alloc None rd dv fp) = Err ENOSPC
    | b # bs' \<Rightarrow> \<exists>dv' fp'. alloc None rd dv fp = (Done b, dv', fp') \<and> free_ok rd isz fsz (dv', fp') bs'
        \<and> dv_blk dv' b = \<lparr>df_nfree = 0, df_free = replicate 50 0\<rparr> \<and> (\<forall>x. x \<noteq> b \<longrightarrow> dv_blk dv' x = dv_blk dv x)"
proof (cases bs)
  case Nil
  then show ?thesis using fs_pop_Nil(2) [of rd isz fsz "(dv, fp)"] assms by simp
next
  case (Cons b bs')
  from fs_pop_Cons [of rd isz fsz "(dv, fp)" b bs'] assms Cons obtain dv' fp' where
    "alloc None rd dv fp = (Done b, dv', fp')" "free_ok rd isz fsz (dv', fp') bs'"
    by (auto simp: fs_pop_def split: prod.splits outcome.splits)
  moreover from this have "dv' = dv\<lparr>dv_blk := (dv_blk dv)(b := \<lparr>df_nfree = 0, df_free = replicate 50 0\<rparr>)\<rparr>"
    by (auto simp: alloc_def split: prod.splits outcome.splits if_splits)
  ultimately show ?thesis using Cons by auto
qed

text \<open>
  C20: The free list is a stack of any depth. Blocks freed one after the other, over as many link blocks
  as it takes, are allocated again in the reverse order, then the blocks that were free before, and
  then there are none.
\<close>

theorem free_alloc_stack:
  assumes "free_ok rd isz fsz dvp bs" "distinct cs" "set cs \<inter> set bs = {}" "\<forall>c \<in> set cs. block_valid rd isz fsz c"
  shows "\<exists>dvp'. pop_many (fs_pop rd) (length cs + length bs) (fold fs_push cs dvp) = Some (rev cs @ bs, dvp') \<and> fs_pop rd dvp' = None"
  by (rule fsb.push_pop_all [OF assms])

text \<open>
  C21: Allocation of an inode number. \<^verbatim>\<open>doialloc\<close> ends, whatever the stock holds. The number it returns is
  that of an inode free on the disk, which is then no longer in the stock; it returns none only if
  the stock is empty and no inode from the group of the hint on is free, and then the hint is reset.
\<close>

theorem doialloc_takes_free:
  assumes "stock_ok lrg dv fp"
  shows "\<exists>n fp'. doialloc lrg rd dv fp = Some (Done n, fp') \<and> stock_ok lrg dv fp'
    \<and> (n \<noteq> 0 \<longrightarrow> (\<exists>w. n = uint w \<and> ino_valid lrg (s_isize fp) w \<and> ino_mode lrg dv w = 0 \<and> w \<notin> set (stock fp')))
    \<and> (n = 0 \<longrightarrow> stock fp = [] \<and> s_inode fp' ! 0 = 0
         \<and> (\<forall>w. start_ino lrg (s_inode fp ! 0) \<le> uint w \<and> ino_valid lrg (s_isize fp) w \<and> rd (fsITOD lrg w) \<longrightarrow> ino_mode lrg dv w \<noteq> 0))"
  using doialloc_ok [OF assms, of rd] by blast

text \<open>
  Allocation of an inode, when all inodes can be read and written. \<^verbatim>\<open>ialloc\<close>, which takes another number when the inode turns out to be in use
  after all, ends; the inode it returns was free on the disk and in core and has its new mode.
\<close>

theorem ialloc_ends:
  assumes "stock_ok lrg dv fp" "mode \<noteq> 0" "\<not> ro" "\<And>w. rd (fsITOD lrg w)"
  shows "\<exists>r dv' fp'. ialloc lrg rd ro ig mode dv fp = Some (r, dv', fp') \<and> stock_ok lrg dv' fp' \<and> r \<in> insert (Err ENOSPC) (range Done)
    \<and> (\<forall>n > 0. r = Done n \<longrightarrow> (\<exists>w. n = uint w \<and> ino_mode lrg dv w = 0 \<and> ig w = Some 0 \<and> ino_mode lrg dv' w = mode \<and> w \<notin> set (stock fp')))"
  using assms(1)
proof (induction "card {w. ino_valid lrg (s_isize fp) w \<and> ino_mode lrg dv w = 0}" arbitrary: dv fp rule: less_induct)
  case less
  from doialloc_ok [OF less.prems, of rd] obtain n fp1 where D: "doialloc lrg rd dv fp = Some (Done n, fp1)" "stock_ok lrg dv fp1"
    "s_isize fp1 = s_isize fp" "n \<noteq> 0 \<longrightarrow> (\<exists>w. n = uint w \<and> ino_valid lrg (s_isize fp) w \<and> ino_mode lrg dv w = 0 \<and> w \<notin> set (stock fp1))" by blast
  show ?case
  proof (cases "n = 0")
    case True
    then show ?thesis using D by (subst ialloc.simps) simp
  next
    case False
    with D(4) obtain w where w: "n = uint w" "ino_valid lrg (s_isize fp) w" "ino_mode lrg dv w = 0" "w \<notin> set (stock fp1)" by blast
    have p: "0 < n" "w \<noteq> 0" using False w(1,2) uint_ge_0 [of w] by (linarith, simp add: ino_valid_def)
    show ?thesis
    proof (cases "ig w")
      case None
      then show ?thesis using D w p by (subst ialloc.simps) simp
    next
      case (Some m)
      note U = stock_ok_iupdat [OF D(2) p(2) w(4)] and I = ino_mode_iupdat [OF p(2)]
      show ?thesis
      proof (cases "m = 0")
        case True
        from ialloc_got [OF D(1) w(1) p(1) _ D(2) w(4) assms(3,4), of ig mode] True Some obtain fp' where
          A: "ialloc lrg rd ro ig mode dv fp = Some (Done n, put_mode lrg w mode dv, fp')"
            "stock_ok lrg (put_mode lrg w mode dv) fp'" "stock fp' = stock fp1" by auto
        show ?thesis using A(2) I [of w lrg mode dv] Some True w p by (auto simp: A(1,3))
      next
        case F: False
        let ?dv = "put_mode lrg w m dv"
        have "card {v. ino_valid lrg (s_isize fp1) v \<and> ino_mode lrg ?dv v = 0} < card {v. ino_valid lrg (s_isize fp) v \<and> ino_mode lrg dv v = 0}"
          unfolding D(3) by (rule free_inos_fewer [OF w(2,3) F])
        from less.hyps [OF this U] obtain r dv' fp' where R: "ialloc lrg rd ro ig mode ?dv fp1 = Some (r, dv', fp')" "stock_ok lrg dv' fp'"
          "r \<in> insert (Err ENOSPC) (range Done)"
          "\<forall>n > 0. r = Done n \<longrightarrow> (\<exists>v. n = uint v \<and> ino_mode lrg ?dv v = 0 \<and> ig v = Some 0 \<and> ino_mode lrg dv' v = mode \<and> v \<notin> set (stock fp'))" by blast
        have e: "ialloc lrg rd ro ig mode dv fp = ialloc lrg rd ro ig mode ?dv fp1"
          using D(1) w p Some F iupdat_mode_put [of ro rd lrg w m dv] assms(3,4) by (subst ialloc.simps) simp
        have "\<exists>v. n = uint v \<and> ino_mode lrg dv v = 0 \<and> ig v = Some 0 \<and> ino_mode lrg dv' v = mode \<and> v \<notin> set (stock fp')"
          if n: "n > 0" "r = Done n" for n
        proof -
          obtain v where v: "n = uint v" "ino_mode lrg ?dv v = 0" "ig v = Some 0" "ino_mode lrg dv' v = mode" "v \<notin> set (stock fp')"
            using R(4) n by blast
          then have "v \<noteq> 0" using n(1) by auto
          then have "ino_mode lrg dv v = 0" using v(2) I [of v lrg m dv] w(3) by (auto split: if_splits)
          then show ?thesis using v by blast
        qed
        then show ?thesis unfolding e using R(1-3) by blast
      qed
    qed
  qed
qed

text \<open>
  Freeing an inode. Unless the stock is full, \<^verbatim>\<open>ifree\<close> puts the number of an inode in use into the stock, and \<^verbatim>\<open>doialloc\<close>
  returns it next. When the file system may be written and the block of the inode can be read, its mode on the disk
  is cleared and the stock holds only free inodes again; when not, the disk is as before, where the inode is
  still in use, but its number enters the stock all the same.
\<close>

theorem ifree_then_ialloc:
  assumes "stock_ok lrg dv fp" "ino_valid lrg (s_isize fp) w" "ino_mode lrg dv w \<noteq> 0" "m \<noteq> 0"
    and "ifree lrg rd ro False m w dv fp = (r, dv', fp')"
  shows "r = Done 0
    \<and> (s_ninode fp < NICINOD \<longrightarrow> stock fp' = w # stock fp \<and> (\<exists>fp''. doialloc lrg rd dv' fp' = Some (Done (uint w), fp'')))
    \<and> (if ro \<or> \<not> rd (fsITOD lrg w) then dv' = dv \<and> (s_ninode fp < NICINOD \<longrightarrow> \<not> stock_ok lrg dv' fp')
       else ino_mode lrg dv' w = 0 \<and> stock_ok lrg dv' fp')"
proof -
  have w: "w \<noteq> 0" "w \<notin> set (stock fp)" using assms(1-3) by (auto simp: ino_valid_def stock_ok_def)
  have dv': "dv' = iupdat_mode lrg rd ro w 0 dv" and d: "doifree w fp = (r, fp')" using assms(4,5) by (auto simp: ifree_def Let_def split: prod.splits)
  note F = doifree_stock [OF assms(1) w d] and I = ino_mode_iupdat [OF w(1)]
  have n: "\<exists>fp''. doialloc lrg rd dv' fp' = Some (Done (uint w), fp'')" if "s_ninode fp < NICINOD"
    using doialloc_stock(1) [of fp' w "stock fp" lrg rd dv'] F that by blast
  show ?thesis
  proof (cases "ro \<or> \<not> rd (fsITOD lrg w)")
    case True
    then have "dv' = dv" by (auto simp: dv' iupdat_mode_def)
    moreover have "\<not> stock_ok lrg dv fp'" if "s_ninode fp < NICINOD"
      using F that assms(3) by (auto simp: stock_ok_def)
    ultimately show ?thesis using F n True by auto
  next
    case False
    then have e: "dv' = put_mode lrg w 0 dv" by (simp add: dv' iupdat_mode_put)
    have "stock_ok lrg dv' fp'" unfolding stock_ok_def e
      using F assms(1,2) I [of _ lrg 0 dv] by (fastforce simp: stock_ok_def ino_valid_def)
    then show ?thesis using F I [of w lrg 0 dv] w(1) e n False by auto
  qed
qed

section \<open>Sample runs\<close>

text \<open>A file system of 26 blocks of 8 inodes, the last block of them and inode 1 in use, with no free block.\<close>

definition demo_sb :: filsys where
  "demo_sb = \<lparr>s_isize = 28, s_fsize = 200, s_nfree = 0, s_free = replicate 50 0, s_ninode = 0, s_inode = replicate 100 0,
     s_flock = 0, s_ilock = 0, s_fmod = False, s_tfree = 0, s_tinode = 199\<rparr>"

definition demo_dv :: fsdev where
  "demo_dv = \<lparr>dv_blk = (\<lambda>_. \<lparr>df_nfree = 0, df_free = replicate 50 0\<rparr>),
     dv_ino = (\<lambda>adr i. if adr = 27 \<or> adr = 2 \<and> i = 0 then 0x81A4 else 0)\<rparr>"

lemma demo_free_ok: "free_ok (\<lambda>_. True) 28 200 (demo_dv, demo_sb) []"
  by (simp add: free_ok_def demo_sb_def)

lemma demo_freed: "free_ok (\<lambda>_. True) 28 200 (fold fs_push [30, 31] (demo_dv, demo_sb)) [31, 30]"
  using fsb.push_all [OF demo_free_ok, of "[30, 31]"] by (simp add: block_valid_def)

theorem alloc_takes_first_witness:
  "(case fold fs_push [30, 31] (demo_dv, demo_sb) of (dv, fp) \<Rightarrow> fst (alloc None (\<lambda>_. True) dv fp)) = Done 31"
proof -
  obtain dv fp where p: "fold fs_push [30, 31] (demo_dv, demo_sb) = (dv, fp)" by (metis prod.exhaust)
  have "free_ok (\<lambda>_. True) 28 200 (dv, fp) [31, 30]" using demo_freed p by simp
  from alloc_takes_first [OF this] show ?thesis unfolding p by auto
qed

theorem free_alloc_stack_witness:
  "\<exists>dvp'. pop_many (fs_pop (\<lambda>_. True)) 120 (fold fs_push [40..159] (demo_dv, demo_sb)) = Some (rev [40..159], dvp') \<and> fs_pop (\<lambda>_. True) dvp' = None"
  using free_alloc_stack [OF demo_free_ok, of "[40..159]"] by (simp add: block_valid_def del: upto.simps upto_rec_numeral)

lemma demo_stock_ok: "stock_ok False demo_dv demo_sb" "stock demo_sb = []"
  by (simp_all add: stock_ok_def stock_def demo_sb_def fsINOPB_def)

lemma demo_modes:
  "ino_mode False demo_dv 1 = 0x81A4" "ino_mode False demo_dv 2 = 0" "ino_valid False 28 1" "ino_valid False 28 2"
  by (code_simp; fail)+

theorem doialloc_takes_free_witness:
  "\<exists>w fp'. doialloc False (\<lambda>_. True) demo_dv demo_sb = Some (Done (uint w), fp') \<and> ino_mode False demo_dv w = 0 \<and> w \<notin> set (stock fp')"
proof -
  have "start_ino False (s_inode demo_sb ! 0) \<le> uint (2 :: u16) \<and> ino_valid False (s_isize demo_sb) 2"
    using demo_modes(4) by (simp add: start_ino_def demo_sb_def)
  then show ?thesis using doialloc_takes_free [OF demo_stock_ok(1), of "\<lambda>_. True"] demo_modes(2) by (metis (mono_tags, lifting))
qed

theorem ialloc_ends_witness:
  "\<exists>r dv' fp'. ialloc False (\<lambda>_. True) False (\<lambda>w. Some (if w < 5 then 7 else 0)) 0x81A4 demo_dv demo_sb = Some (r, dv', fp') \<and> stock_ok False dv' fp'"
  using ialloc_ends [OF demo_stock_ok(1), of "0x81A4" False "\<lambda>_. True" "\<lambda>w. Some (if w < 5 then 7 else 0)"] by auto

theorem ifree_then_ialloc_witness:
  "\<exists>dv' fp' fp''. ifree False (\<lambda>_. True) False False 0x81A4 1 demo_dv demo_sb = (Done 0, dv', fp') \<and> ino_mode False dv' 1 = 0
     \<and> doialloc False (\<lambda>_. True) dv' fp' = Some (Done 1, fp'')"
proof -
  obtain r dv' fp' where f: "ifree False (\<lambda>_. True) False False 0x81A4 1 demo_dv demo_sb = (r, dv', fp')" by (metis prod_cases3)
  have "ino_valid False (s_isize demo_sb) 1" "ino_mode False demo_dv 1 \<noteq> 0" "s_ninode demo_sb < NICINOD"
    using demo_modes by (simp_all add: demo_sb_def)
  then show ?thesis using ifree_then_ialloc [OF demo_stock_ok(1) _ _ _ f] f by simp
qed

text \<open>
  A freed inode that meets an empty stock becomes the hint of the next search, although lower inodes
  are free: after inodes 1 to 100 have been taken from the stock, freeing and taking inode 208 makes
  the next allocation fail while inode 101 is free.
\<close>

declare doialloc.simps [code]

definition demo_sb_taken :: filsys where
  "demo_sb_taken = demo_sb\<lparr>s_inode := 100 # replicate 99 0\<rparr>"

lemma freed_inode_hides_lower:
  "(case doialloc False (\<lambda>_. True) demo_dv (snd (doifree 208 demo_sb_taken)) of
      Some (Done n, fp) \<Rightarrow> n = 208 \<and> (case doialloc False (\<lambda>_. True) demo_dv fp of Some (r, _) \<Rightarrow> r = Done 0 | None \<Rightarrow> False)
    | _ \<Rightarrow> False) \<and> ino_mode False demo_dv 101 = 0"
  by code_simp

end
