(* ===== verification/Fs_Params.thy ===== *)
theory Fs_Params
  imports Kernel_Prelude
begin

text \<open>
  The block sizes of a file system (\<^verbatim>\<open>sys/param.h\<close>, dual system): 512 bytes, or 1024 when the device
  number has the bit \<^verbatim>\<open>Fs2BLK\<close>. The argument of the conversions is that bit.
\<close>

definition fsLRG :: "int \<Rightarrow> bool" where "fsLRG dev = bit dev 14"

definition fsBSIZE :: "bool \<Rightarrow> int" where "fsBSIZE lrg = (if lrg then 1024 else 512)"
definition fsBOFF :: "bool \<Rightarrow> int \<Rightarrow> int" where "fsBOFF lrg x = (if lrg then x mod 1024 else x mod 512)"
definition fsBNO :: "bool \<Rightarrow> int \<Rightarrow> int" where "fsBNO lrg x = (if lrg then x div 1024 else x div 512)"
definition fsNINDIR :: "bool \<Rightarrow> nat" where "fsNINDIR lrg = (if lrg then 256 else 128)"
definition fsNSHIFT :: "bool \<Rightarrow> nat" where "fsNSHIFT lrg = (if lrg then 8 else 7)"
definition fsLTOP :: "bool \<Rightarrow> int \<Rightarrow> int" where "fsLTOP lrg b = (if lrg then push_bit 1 b else b)"
definition fsPTOL :: "bool \<Rightarrow> int \<Rightarrow> int" where "fsPTOL lrg b = (if lrg then drop_bit 1 b else b)"

end
