(* ===== verification/Bmap.thy ===== *)
theory Bmap
  imports Fs_Alloc Fs_Params
begin

text \<open>
  The mapping of file offsets to disk blocks (\<^verbatim>\<open>bmap\<close> of \<^verbatim>\<open>sys/os/subr.c\<close>), over the allocation of blocks.
  An inode has 10 direct block addresses and 3 for trees of indirect blocks of depth 1 to 3. The
  contents of the indirect blocks are \<open>bm_ind\<close>, another reading of the blocks of the device: a block
  is read so only while it belongs to a file, and \<^verbatim>\<open>alloc\<close> hands it out cleared.
  The blocks \<^verbatim>\<open>bmap\<close> has cleared or changed are written (those of a directory at once, by \<^verbatim>\<open>bwrite\<close>, the
  others by \<^verbatim>\<open>bdwrite\<close>): these writes are taken to succeed, so that the error a failing \<^verbatim>\<open>bwrite\<close> leaves in \<^verbatim>\<open>u_error\<close> is not modelled.
\<close>

section \<open>State\<close>

datatype ftype = IFDIR | IFCHR | IFBLK | IFREG | IFIFO | IFLNK | IFLAN

record bmst =
  bm_dv :: fsdev
  bm_ind :: "int \<Rightarrow> int list"
  bm_fp :: filsys
  i_addr :: "int list"
  i_chg :: bool

text \<open>What the call uses of the inode and the user area, and what it leaves there.\<close>

record bmreq =
  i_type :: ftype
  i_size :: int
  u_offset :: int
  u_count :: int
  u_limit :: int

record bmres =
  u_rablock :: int
  u_xablock :: int
  u_pboff :: int
  u_pbsize :: int
  i_lastr :: int

abbreviation (input) NADDR :: nat where "NADDR \<equiv> 13"

section \<open>The mapping\<close>

text \<open>A new block: its number is read back from the buffer.\<close>

definition bm_alloc :: "bool \<Rightarrow> (int \<Rightarrow> bool) \<Rightarrow> bmst \<Rightarrow> fs_chan outcome \<times> bmst" where
  "bm_alloc lrg rd st =
     (case alloc None rd (bm_dv st) (bm_fp st) of
        (Done b, dv, fp) \<Rightarrow>
          (Done (fsPTOL lrg (fsLTOP lrg b)), st\<lparr>bm_dv := dv, bm_fp := fp, bm_ind := (bm_ind st)(b := replicate (fsNINDIR lrg) 0)\<rparr>)
      | (r, dv, fp) \<Rightarrow> (r, st\<lparr>bm_dv := dv, bm_fp := fp\<rparr>))"

text \<open>The block in a slot, allocated if the slot is empty and the call is for writing. \<open>-1\<close> is no block.\<close>

definition bm_slot :: "bool \<Rightarrow> (int \<Rightarrow> bool) \<Rightarrow> bool \<Rightarrow> int \<Rightarrow> (int \<Rightarrow> bmst \<Rightarrow> bmst) \<Rightarrow> bmst \<Rightarrow> fs_chan outcome \<times> bmst" where
  "bm_slot lrg rd readflg nb store st =
     (if nb = 0 then
        (if readflg then (Done (- 1), st)
         else case bm_alloc lrg rd st of
           (Done nb1, st1) \<Rightarrow> (Done nb1, store nb1 st1)
         | (r, st1) \<Rightarrow> (r, st1))
      else (Done nb, st))"

definition set_addr :: "nat \<Rightarrow> int \<Rightarrow> bmst \<Rightarrow> bmst" where
  "set_addr i nb st = st\<lparr>i_addr := (i_addr st)[i := nb], i_chg := True\<rparr>"

definition set_ind :: "int \<Rightarrow> nat \<Rightarrow> int \<Rightarrow> bmst \<Rightarrow> bmst" where
  "set_ind b i nb st = st\<lparr>bm_ind := (bm_ind st)(b := (bm_ind st b)[i := nb])\<rparr>"

text \<open>The level of indirection, with the shift and the number within the tree.\<close>

fun bm_level :: "bool \<Rightarrow> nat \<Rightarrow> nat \<Rightarrow> int \<Rightarrow> int \<Rightarrow> (nat \<times> nat \<times> int) option" where
  "bm_level lrg 0 sh nb bn = None"
| "bm_level lrg (Suc j) sh nb bn =
     (let sh1 = sh + fsNSHIFT lrg; nb1 = nb * 2 ^ fsNSHIFT lrg in
      if bn < nb1 then Some (Suc j, sh1, bn) else bm_level lrg j sh1 nb1 (bn - nb1))"

text \<open>
  The walk through \<open>k\<close> levels of indirect blocks. The last indirect block and the index in it are left
  for the read-ahead.
\<close>

fun bm_walk :: "bool \<Rightarrow> (int \<Rightarrow> bool) \<Rightarrow> bool \<Rightarrow> int \<Rightarrow> nat \<Rightarrow> nat \<Rightarrow> int \<Rightarrow> int \<times> nat \<Rightarrow> bmst \<Rightarrow> fs_chan outcome \<times> (int \<times> nat) \<times> bmst" where
  "bm_walk lrg rd readflg bn 0 sh nb lf st = (Done nb, lf, st)"
| "bm_walk lrg rd readflg bn (Suc k) sh nb lf st =
     (if \<not> rd nb then (Err EIO, lf, st)
      else let sh1 = sh - fsNSHIFT lrg; i = nat (bn div 2 ^ sh1 mod int (fsNINDIR lrg)) in
        case bm_slot lrg rd readflg (bm_ind st nb ! i) (set_ind nb i) st of
          (Done nb1, st1) \<Rightarrow> if nb1 = - 1 then (Done (- 1), (nb, i), st1) else bm_walk lrg rd readflg bn k sh1 nb1 (nb, i) st1
        | (r, st1) \<Rightarrow> (r, (nb, i), st1))"

definition bm_direct :: "bool \<Rightarrow> (int \<Rightarrow> bool) \<Rightarrow> bool \<Rightarrow> bool \<Rightarrow> nat \<Rightarrow> bmres \<Rightarrow> bmst \<Rightarrow> fs_chan outcome \<times> bmres \<times> bmst" where
  "bm_direct lrg rd readflg ra i u st =
     (case bm_slot lrg rd readflg (i_addr st ! i) (set_addr i) st of
        (Done nb, st1) \<Rightarrow>
          (Done nb,
           (if nb \<noteq> - 1 \<and> i < NADDR - 4 \<and> ra then
              (let u1 = u\<lparr>u_rablock := i_addr st1 ! (i + 1)\<rparr> in if i < NADDR - 5 then u1\<lparr>u_xablock := i_addr st1 ! (i + 2)\<rparr> else u1)
            else u), st1)
      | (r, st1) \<Rightarrow> (r, u, st1))"

definition bm_indirect :: "bool \<Rightarrow> (int \<Rightarrow> bool) \<Rightarrow> bool \<Rightarrow> bool \<Rightarrow> int \<Rightarrow> bmres \<Rightarrow> bmst \<Rightarrow> fs_chan outcome \<times> bmres \<times> bmst" where
  "bm_indirect lrg rd readflg ra bn u st =
     (case bm_level lrg 3 0 1 (bn - int (NADDR - 3)) of
        None \<Rightarrow> (Err EFBIG, u, st)
      | Some (j, sh, bn1) \<Rightarrow>
          (case bm_slot lrg rd readflg (i_addr st ! (NADDR - j)) (set_addr (NADDR - j)) st of
             (Done nb, st1) \<Rightarrow>
               if nb = - 1 then (Done (- 1), u, st1)
               else (case bm_walk lrg rd readflg bn1 (4 - j) sh nb (0, 0) st1 of
                 (Done nb2, (b, i), st2) \<Rightarrow>
                   (Done nb2,
                    (if nb2 \<noteq> - 1 \<and> i < fsNINDIR lrg - 1 \<and> ra then
                       (let u1 = u\<lparr>u_rablock := bm_ind st2 b ! (i + 1)\<rparr> in
                        if i < fsNINDIR lrg - 2 then u1\<lparr>u_xablock := bm_ind st2 b ! (i + 2)\<rparr> else u1)
                     else u), st2)
               | (r, _, st2) \<Rightarrow> (r, u, st2))
           | (r, st1) \<Rightarrow> (r, u, st1)))"

definition bmap :: "bool \<Rightarrow> (int \<Rightarrow> bool) \<Rightarrow> bool \<Rightarrow> bmreq \<Rightarrow> int \<Rightarrow> bmst \<Rightarrow> fs_chan outcome \<times> bmres \<times> bmst" where
  "bmap lrg rd readflg rq lastr st =
     (let bn = fsBNO lrg (u_offset rq);
          u0 = \<lparr>u_rablock = 0, u_xablock = 0, u_pboff = 0, u_pbsize = 0, i_lastr = lastr\<rparr> in
      if bn < 0 then (Err EFBIG, u0, st)
      else let pboff = fsBOFF lrg (u_offset rq); sz0 = fsBSIZE lrg - pboff;
               part = (u_count rq < sz0);
               sz = (if part then u_count rq else sz0);
               ra = (\<not> part \<and> lastr + 1 = bn);
               u1 = u0\<lparr>u_pboff := pboff, u_pbsize := sz, i_lastr := (if part then lastr else bn)\<rparr> in
        if i_type rq = IFBLK then (Done bn, if ra then u1\<lparr>u_rablock := bn + 1, u_xablock := bn + 2\<rparr> else u1, st)
        else
          let rem = max 0 (if i_type rq = IFIFO then i_size rq else i_size rq - u_offset rq);
              sz2 = (if readflg then min rem sz else sz);
              ra2 = (ra \<and> \<not> (readflg \<and> i_type rq = IFIFO));
              u2 = u1\<lparr>u_pbsize := sz2\<rparr> in
          if readflg \<and> sz2 = 0 then (Done (- 1), u2, st)
          else if \<not> readflg \<and> i_type rq = IFREG \<and> bn \<ge> fsPTOL lrg (u_limit rq) then (Err EFBIG, u2, st)
          else if bn < int (NADDR - 3) then bm_direct lrg rd readflg ra2 (nat bn) u2 st
          else bm_indirect lrg rd readflg ra2 bn u2 st)"

section \<open>The tree of a file\<close>

text \<open>
  The blocks of a file are found along paths: the slot of the inode, then the indices in the indirect
  blocks. A block number 0 is a hole.
\<close>

fun node :: "(int \<Rightarrow> int list) \<Rightarrow> int \<Rightarrow> nat list \<Rightarrow> int" where
  "node d b [] = b"
| "node d b (i # is) = (if b = 0 then 0 else node d (d b ! i) is)"

definition lookup :: "bmst \<Rightarrow> nat list \<Rightarrow> int" where
  "lookup st p = node (bm_ind st) (i_addr st ! hd p) (tl p)"

definition path_pre :: "bool \<Rightarrow> nat list \<Rightarrow> bool" where
  "path_pre lrg p \<longleftrightarrow> p \<noteq> [] \<and> hd p < NADDR \<and> length (tl p) \<le> hd p - 9 \<and> (\<forall>i \<in> set (tl p). i < fsNINDIR lrg)"

definition path_full :: "nat list \<Rightarrow> bool" where
  "path_full p \<longleftrightarrow> length (tl p) = hd p - 9"

lemma node_zero [simp]: "node d 0 is = 0" by (cases "is") simp_all

lemma node_snoc: "node d b (is @ [i]) = (if node d b is = 0 then 0 else d (node d b is) ! i)"
  by (induction "is" arbitrary: b) auto

lemma node_append: "node d b (is @ js) = node d (node d b is) js"
  by (induction "is" arbitrary: b) auto

lemma lookup_one: "lookup st [r] = i_addr st ! r" by (simp add: lookup_def)

lemma lookup_snoc: "p \<noteq> [] \<Longrightarrow> lookup st (p @ [i]) = (if lookup st p = 0 then 0 else bm_ind st (lookup st p) ! i)"
  by (cases p) (simp_all add: lookup_def node_snoc)

lemma lookup_zero: "lookup st p = 0 \<Longrightarrow> p \<noteq> [] \<Longrightarrow> lookup st (p @ q) = 0"
  by (cases p) (simp_all add: lookup_def node_append)

lemma path_pre_snoc: "path_pre lrg (p @ [i]) \<Longrightarrow> p \<noteq> [] \<Longrightarrow> path_pre lrg p \<and> i < fsNINDIR lrg"
  by (cases p) (auto simp: path_pre_def)

text \<open>Every block is in one place of the tree, is a block of the device, and is not free.\<close>

definition bm_ok :: "bool \<Rightarrow> (int \<Rightarrow> bool) \<Rightarrow> int \<Rightarrow> int \<Rightarrow> bmst \<Rightarrow> int list \<Rightarrow> bool" where
  "bm_ok lrg rd isz fsz st bs \<longleftrightarrow>
     free_ok rd isz fsz (bm_dv st, bm_fp st) bs \<and> length (i_addr st) = NADDR \<and> (\<forall>b. length (bm_ind st b) = fsNINDIR lrg)
     \<and> (\<forall>p. path_pre lrg p \<longrightarrow> lookup st p \<noteq> 0 \<longrightarrow> block_valid rd isz fsz (lookup st p) \<and> lookup st p \<notin> set bs)
     \<and> (\<forall>p q. path_pre lrg p \<longrightarrow> path_pre lrg q \<longrightarrow> lookup st p \<noteq> 0 \<longrightarrow> lookup st p = lookup st q \<longrightarrow> p = q)"

lemma bm_ok_D:
  assumes "bm_ok lrg rd isz fsz st bs"
  shows "free_ok rd isz fsz (bm_dv st, bm_fp st) bs" "length (i_addr st) = NADDR" "length (bm_ind st b) = fsNINDIR lrg"
    "\<lbrakk>path_pre lrg p; lookup st p \<noteq> 0\<rbrakk> \<Longrightarrow> block_valid rd isz fsz (lookup st p)"
    "\<lbrakk>path_pre lrg p; lookup st p \<noteq> 0\<rbrakk> \<Longrightarrow> lookup st p \<notin> set bs"
    "\<lbrakk>path_pre lrg p; path_pre lrg q; lookup st p \<noteq> 0; lookup st p = lookup st q\<rbrakk> \<Longrightarrow> p = q"
  using assms unfolding bm_ok_def by blast+

lemma block_valid_pos: "free_ok rd isz fsz dvp bs \<Longrightarrow> block_valid rd isz fsz b \<Longrightarrow> 0 < b \<and> rd b"
  by (auto simp: free_ok_def block_valid_def)

text \<open>A new, cleared block in an empty slot appears there and nowhere else.\<close>

lemma lookup_set_addr:
  assumes "length (i_addr st) = NADDR" "r < NADDR" "i_addr st ! r = 0" "c \<noteq> 0"
    and "\<And>q. path_pre lrg q \<Longrightarrow> lookup st q \<noteq> c" "bm_ind st1 = (bm_ind st)(c := replicate (fsNINDIR lrg) 0)" "i_addr st1 = i_addr st"
  shows "path_pre lrg q \<Longrightarrow> lookup (set_addr r c st1) q = (if q = [r] then c else lookup st q)"
proof (induction q rule: rev_induct)
  case Nil
  then show ?case by (simp add: path_pre_def)
next
  case (snoc j q)
  show ?case
  proof (cases "q = []")
    case True
    then show ?thesis using assms(1,7) snoc.prems by (auto simp: lookup_one set_addr_def path_pre_def)
  next
    case False
    note P = path_pre_snoc [OF snoc.prems False]
    then have IH: "lookup (set_addr r c st1) q = (if q = [r] then c else lookup st q)" using snoc.IH by blast
    have "bm_ind (set_addr r c st1) = bm_ind st1" by (simp add: set_addr_def)
    then show ?thesis
      using IH P assms(3,4) assms(5) [of q] False by (auto simp: lookup_snoc assms(6) lookup_one)
  qed
qed

lemma lookup_set_ind:
  assumes ok: "bm_ok lrg rd isz fsz st bs" and p: "path_pre lrg (p @ [i])" "p \<noteq> []" "lookup st p \<noteq> 0" "lookup st (p @ [i]) = 0"
    and c: "c \<noteq> 0" "\<And>q. path_pre lrg q \<Longrightarrow> lookup st q \<noteq> c" "bm_ind st1 = (bm_ind st)(c := replicate (fsNINDIR lrg) 0)" "i_addr st1 = i_addr st"
  shows "path_pre lrg q \<Longrightarrow> lookup (set_ind (lookup st p) i c st1) q = (if q = p @ [i] then c else lookup st q)"
proof (induction q rule: rev_induct)
  case Nil
  then show ?case by (simp add: path_pre_def)
next
  case (snoc j q)
  let ?st = "set_ind (lookup st p) i c st1"
  show ?case
  proof (cases "q = []")
    case True
    then show ?thesis using c(4) p(2) by (simp add: lookup_one set_ind_def)
  next
    case False
    note P = path_pre_snoc [OF snoc.prems False] and Q = path_pre_snoc [OF p(1,2)]
    then have IH: "lookup ?st q = (if q = p @ [i] then c else lookup st q)" using snoc.IH by blast
    have ind: "bm_ind ?st x = (if x = lookup st p then (bm_ind st (lookup st p))[i := c] else if x = c then replicate (fsNINDIR lrg) 0 else bm_ind st x)" for x
      using c(2) [of p] Q by (simp add: set_ind_def c(3))
    show ?thesis
    proof (cases "q = p @ [i]")
      case True
      have "lookup st q = 0" using True p(4) by simp
      then have "lookup st (q @ [j]) = 0" using lookup_snoc [OF False] by simp
      moreover have "lookup ?st q = c" using IH True by simp
      then have "lookup ?st (q @ [j]) = 0" using lookup_snoc [OF False] P c(1) c(2) [of p] Q by (simp add: ind)
      ultimately show ?thesis using True by simp
    next
      case n: False
      then have l: "lookup ?st q = lookup st q" using IH by simp
      show ?thesis
      proof (cases "q = p")
        case True
        have "i < length (bm_ind st (lookup st p))" using Q bm_ok_D(3) [OF ok] by simp
        then show ?thesis using True l p(3) False by (auto simp: lookup_snoc ind)
      next
        case m: False
        then have "lookup st q \<noteq> lookup st p \<or> lookup st q = 0" using bm_ok_D(6) [OF ok, of q p] P Q by blast
        moreover have "lookup st q \<noteq> c" using c(2) P by blast
        ultimately show ?thesis using l m False by (auto simp: lookup_snoc ind)
      qed
    qed
  qed
qed

text \<open>A slot of the tree, and the routine that stores into it.\<close>

definition slot_store :: "bmst \<Rightarrow> nat list \<Rightarrow> int \<Rightarrow> bmst \<Rightarrow> bmst" where
  "slot_store st p = (if length p = 1 then set_addr (hd p) else set_ind (lookup st (butlast p)) (last p))"

lemma lookup_slot_store:
  assumes ok: "bm_ok lrg rd isz fsz st bs" and p: "path_pre lrg p" "length p = 1 \<or> lookup st (butlast p) \<noteq> 0" "lookup st p = 0"
    and c: "c \<noteq> 0" "\<And>q. path_pre lrg q \<Longrightarrow> lookup st q \<noteq> c" "bm_ind st1 = (bm_ind st)(c := replicate (fsNINDIR lrg) 0)" "i_addr st1 = i_addr st"
    and q: "path_pre lrg q"
  shows "lookup (slot_store st p c st1) q = (if q = p then c else lookup st q)"
proof (cases "length p = 1")
  case True
  then obtain r where r: "p = [r]" by (cases p) auto
  then show ?thesis
    using lookup_set_addr [OF bm_ok_D(2) [OF ok], of r c lrg st1 q] p c q by (simp add: slot_store_def lookup_one path_pre_def)
next
  case False
  have "p \<noteq> []" using p(1) by (simp add: path_pre_def)
  then obtain p0 i where p0: "p = p0 @ [i]" by (meson rev_exhaust)
  then have "p0 \<noteq> []" using False by auto
  then show ?thesis
    using lookup_set_ind [OF ok, of p0 i c st1 q] p c q False p0 by (simp add: slot_store_def)
qed

lemma slot_store_frame:
  "bm_dv (slot_store st p c st1) = bm_dv st1" "bm_fp (slot_store st p c st1) = bm_fp st1"
  "length (i_addr (slot_store st p c st1)) = length (i_addr st1)"
  "(\<And>b. length (bm_ind st1 b) = n) \<Longrightarrow> length (bm_ind (slot_store st p c st1) b) = n"
  by (simp_all add: slot_store_def set_addr_def set_ind_def)

text \<open>What a write leaves: the blocks it had, and new ones along one path, from the list of free blocks.\<close>

definition bm_grown :: "bool \<Rightarrow> (int \<Rightarrow> bool) \<Rightarrow> int \<Rightarrow> int \<Rightarrow> nat list \<Rightarrow> bmst \<Rightarrow> int list \<Rightarrow> bmst \<Rightarrow> int list \<Rightarrow> bool" where
  "bm_grown lrg rd isz fsz p st bs st' bs' \<longleftrightarrow>
     bm_ok lrg rd isz fsz st' bs' \<and> (\<exists>cs. bs = cs @ bs')
     \<and> (\<forall>q. path_pre lrg q \<longrightarrow> lookup st' q = lookup st q \<or> lookup st q = 0 \<and> lookup st' q \<in> set bs \<and> (\<exists>r. p = q @ r))"

lemma bm_grown_refl: "bm_ok lrg rd isz fsz st bs \<Longrightarrow> bm_grown lrg rd isz fsz p st bs st bs"
  by (simp add: bm_grown_def)

lemma bm_grown_trans:
  assumes "bm_grown lrg rd isz fsz p st bs st1 bs1" "bm_grown lrg rd isz fsz q st1 bs1 st2 bs2" "\<exists>r. q = p @ r"
  shows "bm_grown lrg rd isz fsz q st bs st2 bs2"
  unfolding bm_grown_def
proof (intro conjI allI impI)
  show "bm_ok lrg rd isz fsz st2 bs2" "\<exists>cs. bs = cs @ bs2" using assms(1,2) by (auto simp: bm_grown_def)
  fix x assume x: "path_pre lrg x"
  have a: "lookup st1 x = lookup st x \<or> lookup st x = 0 \<and> lookup st1 x \<in> set bs \<and> (\<exists>r. p = x @ r)" using assms(1) x unfolding bm_grown_def by blast
  have b: "lookup st2 x = lookup st1 x \<or> lookup st1 x = 0 \<and> lookup st2 x \<in> set bs1 \<and> (\<exists>r. q = x @ r)" using assms(2) x unfolding bm_grown_def by blast
  have "set bs1 \<subseteq> set bs" using assms(1) by (auto simp: bm_grown_def)
  then show "lookup st2 x = lookup st x \<or> lookup st x = 0 \<and> lookup st2 x \<in> set bs \<and> (\<exists>r. q = x @ r)"
    using a b assms(3) by auto
qed

lemma bm_alloc_spec:
  assumes ok: "free_ok rd isz fsz (bm_dv st, bm_fp st) bs"
  shows "case bs of
      [] \<Rightarrow> \<exists>st1. bm_alloc lrg rd st = (Err ENOSPC, st1) \<and> free_ok rd isz fsz (bm_dv st1, bm_fp st1) [] \<and> bm_ind st1 = bm_ind st \<and> i_addr st1 = i_addr st
    | b # bs' \<Rightarrow> \<exists>st1. bm_alloc lrg rd st = (Done b, st1) \<and> free_ok rd isz fsz (bm_dv st1, bm_fp st1) bs'
        \<and> bm_ind st1 = (bm_ind st)(b := replicate (fsNINDIR lrg) 0) \<and> i_addr st1 = i_addr st"
proof (cases bs)
  case Nil
  from doalloc_empty [of rd isz fsz "bm_dv st" "bm_fp st"] ok Nil show ?thesis by (auto simp: bm_alloc_def alloc_def)
next
  case (Cons b bs')
  from fs_pop_Cons [of rd isz fsz "(bm_dv st, bm_fp st)" b bs'] ok Cons obtain dv fp where
    "alloc None rd (bm_dv st) (bm_fp st) = (Done b, dv, fp)" "free_ok rd isz fsz (dv, fp) bs'"
    by (auto simp: fs_pop_def split: prod.splits outcome.splits)
  then show ?thesis using Cons by (simp add: bm_alloc_def fsPTOL_def fsLTOP_def drop_bit_eq_div push_bit_eq_mult)
qed

lemma bm_slot_write:
  assumes ok: "bm_ok lrg rd isz fsz st bs" and p: "path_pre lrg p" "length p = 1 \<or> lookup st (butlast p) \<noteq> 0"
    and r: "bm_slot lrg rd False (lookup st p) (slot_store st p) st = (r, st')"
  shows "\<exists>bs'. bm_grown lrg rd isz fsz p st bs st' bs' \<and> (r = Done (lookup st' p) \<and> lookup st' p \<noteq> 0 \<or> r = Err ENOSPC \<and> bs' = [] \<and> lookup st' p = 0)"
proof (cases "lookup st p = 0")
  case False
  then show ?thesis using r bm_grown_refl [OF ok] by (auto simp: bm_slot_def)
next
  case zero: True
  note A = bm_alloc_spec [OF bm_ok_D(1) [OF ok], of lrg]
  show ?thesis
  proof (cases bs)
    case Nil
    then obtain st1 where a: "bm_alloc lrg rd st = (Err ENOSPC, st1)" "free_ok rd isz fsz (bm_dv st1, bm_fp st1) []"
      "bm_ind st1 = bm_ind st" "i_addr st1 = i_addr st" using A by auto
    have l: "lookup st1 q = lookup st q" for q by (simp add: lookup_def a(3,4))
    have "bm_ok lrg rd isz fsz st1 []" using ok a Nil unfolding bm_ok_def l by simp
    then show ?thesis using r zero a(1) Nil l by (auto simp: bm_slot_def bm_grown_def)
  next
    case (Cons c bs')
    then obtain st1 where a: "bm_alloc lrg rd st = (Done c, st1)" "free_ok rd isz fsz (bm_dv st1, bm_fp st1) bs'"
      "bm_ind st1 = (bm_ind st)(c := replicate (fsNINDIR lrg) 0)" "i_addr st1 = i_addr st" using A by auto
    have c: "block_valid rd isz fsz c" "c \<notin> set bs'" using bm_ok_D(1) [OF ok] Cons by (auto simp: free_ok_def)
    then have c0: "c \<noteq> 0" using block_valid_pos [OF a(2)] by auto
    have fresh: "lookup st q \<noteq> c" if "path_pre lrg q" for q using bm_ok_D(5) [OF ok that] c0 Cons by (cases "lookup st q = 0") auto
    have L: "lookup (slot_store st p c st1) q = (if q = p then c else lookup st q)" if "path_pre lrg q" for q
      using lookup_slot_store [OF ok p zero c0 _ a(3,4) that] fresh by blast
    note F = slot_store_frame(1-3) [of st p c st1]
    have "length (bm_ind st1 b) = fsNINDIR lrg" for b using bm_ok_D(3) [OF ok] by (simp add: a(3))
    note F4 = slot_store_frame(4) [OF this, of st p c]
    have "bm_ok lrg rd isz fsz (slot_store st p c st1) bs'"
      unfolding bm_ok_def F(1-3)
    proof (intro conjI allI impI)
      fix q assume q: "path_pre lrg q" "lookup (slot_store st p c st1) q \<noteq> 0"
      show "block_valid rd isz fsz (lookup (slot_store st p c st1) q)" "lookup (slot_store st p c st1) q \<notin> set bs'"
        using q c bm_ok_D(4,5) [OF ok q(1)] Cons by (auto simp: L)
    next
      fix q x assume q: "path_pre lrg q" "path_pre lrg x" "lookup (slot_store st p c st1) q \<noteq> 0"
        "lookup (slot_store st p c st1) q = lookup (slot_store st p c st1) x"
      then show "q = x" using fresh bm_ok_D(6) [OF ok q(1,2)] by (auto simp: L split: if_splits)
    qed (use a F4 bm_ok_D(2) [OF ok] in simp_all)
    then have "bm_grown lrg rd isz fsz p st bs (slot_store st p c st1) bs'"
      using Cons zero by (auto simp: bm_grown_def L)
    moreover have "r = Done c" "st' = slot_store st p c st1" using r zero a(1) by (simp_all add: bm_slot_def)
    ultimately show ?thesis using L [OF p(1)] c0 by (metis (no_types, lifting))
  qed
qed

section \<open>Walks\<close>

fun digits :: "bool \<Rightarrow> int \<Rightarrow> nat \<Rightarrow> nat \<Rightarrow> nat list" where
  "digits lrg bn 0 sh = []"
| "digits lrg bn (Suc k) sh =
     (let sh1 = sh - fsNSHIFT lrg in nat (bn div 2 ^ sh1 mod int (fsNINDIR lrg)) # digits lrg bn k sh1)"

lemma path_pre_front: "path_pre lrg (p @ q) \<Longrightarrow> p \<noteq> [] \<Longrightarrow> path_pre lrg p"
  by (auto simp: path_pre_def)

lemma bm_ok_pos: "bm_ok lrg rd isz fsz st bs \<Longrightarrow> path_pre lrg p \<Longrightarrow> lookup st p \<noteq> 0 \<Longrightarrow> 0 < lookup st p \<and> rd (lookup st p)"
  using block_valid_pos bm_ok_D(1,4) by blast

lemma bm_walk_read:
  assumes "bm_ok lrg rd isz fsz st bs" "path_pre lrg (p @ digits lrg bn k sh)" "p \<noteq> []" "lookup st p \<noteq> 0"
  shows "\<exists>lf'. bm_walk lrg rd True bn k sh (lookup st p) lf st
    = (Done (if lookup st (p @ digits lrg bn k sh) = 0 then - 1 else lookup st (p @ digits lrg bn k sh)), lf', st)"
  using assms(2-4)
proof (induction k arbitrary: p sh lf)
  case (Suc k)
  let ?i = "nat (bn div 2 ^ (sh - fsNSHIFT lrg) mod int (fsNINDIR lrg))"
  let ?ds = "digits lrg bn k (sh - fsNSHIFT lrg)"
  have d: "digits lrg bn (Suc k) sh = ?i # ?ds" by (simp add: Let_def)
  have pre: "path_pre lrg p" "path_pre lrg (p @ [?i])" using path_pre_front [of lrg p] path_pre_front [of lrg "p @ [?i]" ?ds] Suc.prems(1,2) d by simp_all
  have rd: "rd (lookup st p)" using bm_ok_pos [OF assms(1) pre(1) Suc.prems(3)] by blast
  have l: "lookup st (p @ [?i]) = bm_ind st (lookup st p) ! ?i" using lookup_snoc [OF Suc.prems(2), of st ?i] Suc.prems(3) by simp
  show ?case
  proof (cases "lookup st (p @ [?i]) = 0")
    case True
    have "lookup st (p @ ?i # ?ds) = 0"
      using True Suc.prems(2) node_zero by (cases p) (auto simp: lookup_def node_append)
    then show ?thesis using True rd l d by (auto simp: bm_slot_def Let_def)
  next
    case False
    have n: "lookup st (p @ [?i]) \<noteq> - 1" using bm_ok_pos [OF assms(1) pre(2) False] by auto
    have "path_pre lrg ((p @ [?i]) @ ?ds)" using Suc.prems(1) d by simp
    from Suc.IH [OF this _ False] obtain lf' where
      w: "bm_walk lrg rd True bn k (sh - fsNSHIFT lrg) (lookup st (p @ [?i])) (lookup st p, ?i) st
        = (Done (if lookup st ((p @ [?i]) @ ?ds) = 0 then - 1 else lookup st ((p @ [?i]) @ ?ds)), lf', st)" by blast
    have "bm_walk lrg rd True bn (Suc k) sh (lookup st p) lf st
      = bm_walk lrg rd True bn k (sh - fsNSHIFT lrg) (lookup st (p @ [?i])) (lookup st p, ?i) st"
      using rd False n by (simp add: bm_slot_def Let_def l [symmetric])
    then show ?thesis unfolding d w by simp
  qed
qed auto

lemma bm_walk_write:
  assumes "bm_ok lrg rd isz fsz st bs" "path_pre lrg (p @ digits lrg bn k sh)" "p \<noteq> []" "lookup st p \<noteq> 0"
    and "bm_walk lrg rd False bn k sh (lookup st p) lf st = (r, lf', st')"
  shows "\<exists>bs'. bm_grown lrg rd isz fsz (p @ digits lrg bn k sh) st bs st' bs'
    \<and> (r = Done (lookup st' (p @ digits lrg bn k sh)) \<and> lookup st' (p @ digits lrg bn k sh) \<noteq> 0
      \<or> r = Err ENOSPC \<and> bs' = [] \<and> lookup st' (p @ digits lrg bn k sh) = 0)"
  using assms
proof (induction k arbitrary: p sh lf st bs)
  case 0
  then show ?case using bm_grown_refl [OF 0(1)] by auto
next
  case (Suc k)
  let ?i = "nat (bn div 2 ^ (sh - fsNSHIFT lrg) mod int (fsNINDIR lrg))"
  let ?ds = "digits lrg bn k (sh - fsNSHIFT lrg)"
  have d: "digits lrg bn (Suc k) sh = ?i # ?ds" by (simp add: Let_def)
  have pre: "path_pre lrg p" "path_pre lrg (p @ [?i])"
    using path_pre_front [of lrg p] path_pre_front [of lrg "p @ [?i]" ?ds] Suc.prems(2,3) d by simp_all
  have rd: "rd (lookup st p)" using bm_ok_pos [OF Suc.prems(1) pre(1) Suc.prems(4)] by blast
  have l: "lookup st (p @ [?i]) = bm_ind st (lookup st p) ! ?i" using lookup_snoc [OF Suc.prems(3), of st ?i] Suc.prems(4) by simp
  have ss: "slot_store st (p @ [?i]) = set_ind (lookup st p) ?i" using Suc.prems(3) by (simp add: slot_store_def fun_eq_iff)
  obtain r1 st1 where s: "bm_slot lrg rd False (lookup st (p @ [?i])) (slot_store st (p @ [?i])) st = (r1, st1)" by fastforce
  from bm_slot_write [OF Suc.prems(1) pre(2) _ s] Suc.prems(4) obtain bs1 where
    G: "bm_grown lrg rd isz fsz (p @ [?i]) st bs st1 bs1"
    and R: "r1 = Done (lookup st1 (p @ [?i])) \<and> lookup st1 (p @ [?i]) \<noteq> 0 \<or> r1 = Err ENOSPC \<and> bs1 = [] \<and> lookup st1 (p @ [?i]) = 0" by auto
  have ok1: "bm_ok lrg rd isz fsz st1 bs1" using G by (simp add: bm_grown_def)
  have T: "\<exists>r. p @ digits lrg bn (Suc k) sh = (p @ [?i]) @ r" using d by simp
  have run: "bm_walk lrg rd False bn (Suc k) sh (lookup st p) lf st = (case (r1, st1) of
      (Done nb1, st1) \<Rightarrow> if nb1 = - 1 then (Done (- 1), (lookup st p, ?i), st1) else bm_walk lrg rd False bn k (sh - fsNSHIFT lrg) nb1 (lookup st p, ?i) st1
    | (r, st1) \<Rightarrow> (r, (lookup st p, ?i), st1))"
    using rd s by (simp add: Let_def l ss)
  show ?case
  proof (cases "r1 = Err ENOSPC")
    case True
    then have "r = Err ENOSPC" "st' = st1" "bs1 = []" "lookup st1 (p @ [?i]) = 0" using run Suc.prems(5) R by auto
    moreover from this(4) have "lookup st1 (p @ digits lrg bn (Suc k) sh) = 0" using lookup_zero [of st1 "p @ [?i]" ?ds] d by simp
    ultimately show ?thesis using bm_grown_trans [OF G bm_grown_refl [OF ok1] T] by auto
  next
    case False
    then have v: "r1 = Done (lookup st1 (p @ [?i]))" "lookup st1 (p @ [?i]) \<noteq> 0" using R by simp_all
    then have "lookup st1 (p @ [?i]) \<noteq> - 1" using bm_ok_pos [OF ok1 pre(2)] by auto
    then have "bm_walk lrg rd False bn k (sh - fsNSHIFT lrg) (lookup st1 (p @ [?i])) (lookup st p, ?i) st1 = (r, lf', st')"
      using run Suc.prems(5) v by simp
    from Suc.IH [OF ok1 _ _ v(2) this] Suc.prems(2) d obtain bs' where
      W: "bm_grown lrg rd isz fsz (p @ digits lrg bn (Suc k) sh) st1 bs1 st' bs'"
        "r = Done (lookup st' (p @ digits lrg bn (Suc k) sh)) \<and> lookup st' (p @ digits lrg bn (Suc k) sh) \<noteq> 0
          \<or> r = Err ENOSPC \<and> bs' = [] \<and> lookup st' (p @ digits lrg bn (Suc k) sh) = 0" by auto
    then show ?thesis using bm_grown_trans [OF G W(1) T] by blast
  qed
qed

section \<open>Paths of logical blocks\<close>

text \<open>The path of a logical block, in plain arithmetic: direct, or in the tree of depth 1, 2 or 3.\<close>

definition blk_path :: "bool \<Rightarrow> int \<Rightarrow> nat list option" where
  "blk_path lrg n =
     (let N = int (fsNINDIR lrg); a = n - 10; b = a - N; c = b - N * N in
      if n < 0 then None
      else if n < 10 then Some [nat n]
      else if a < N then Some [10, nat a]
      else if b < N * N then Some [11, nat (b div N), nat (b mod N)]
      else if c < N * N * N then Some [12, nat (c div (N * N)), nat (c div N mod N), nat (c mod N)]
      else None)"

definition file_block :: "bool \<Rightarrow> bmst \<Rightarrow> int \<Rightarrow> int option" where
  "file_block lrg st n = map_option (lookup st) (blk_path lrg n)"

lemma fsN_simps: "fsNINDIR lrg = 2 ^ fsNSHIFT lrg" "0 < fsNINDIR lrg" "(2 :: int) ^ fsNSHIFT lrg = int (fsNINDIR lrg)"
  by (simp_all add: fsNINDIR_def fsNSHIFT_def)

lemma digit_lt: "nat (x mod int (fsNINDIR lrg)) < fsNINDIR lrg"
  using fsN_simps(2) [of lrg] by (simp add: nat_less_iff)

lemma pow_shift: "(2 :: int) ^ (fsNSHIFT lrg + fsNSHIFT lrg) = int (fsNINDIR lrg) * int (fsNINDIR lrg)"
  by (simp add: power_add fsN_simps(3))

lemma idiv_less: "0 < (k :: int) \<Longrightarrow> x < m * k \<Longrightarrow> x div k < m"
proof -
  assume a: "0 < k" "x < m * k"
  have "k * (x div k) \<le> x" using a(1) by (simp add: minus_mod_eq_mult_div [symmetric])
  then have "k * (x div k) < k * m" using a(2) by (simp add: mult.commute)
  then show ?thesis using a(1) by (simp only: mult_less_cancel_left_pos)
qed

lemma bm_level_path:
  assumes "10 \<le> n"
  shows "case bm_level lrg 3 0 1 (n - 10) of
      None \<Rightarrow> blk_path lrg n = None
    | Some (j, sh, m) \<Rightarrow> j \<in> {1, 2, 3} \<and> blk_path lrg n = Some ((13 - j) # digits lrg m (4 - j) sh)"
proof -
  let ?N = "int (fsNINDIR lrg)" and ?S = "fsNSHIFT lrg"
  have three: "(3 :: nat) = Suc (Suc (Suc 0))" by simp
  have L: "bm_level lrg 3 0 1 (n - 10) = (let a = n - 10; b = a - ?N; c = b - ?N * ?N in
      if a < ?N then Some (3, ?S, a) else if b < ?N * ?N then Some (2, ?S + ?S, b)
      else if c < ?N * ?N * ?N then Some (1, ?S + ?S + ?S, c) else None)"
    unfolding three by (simp add: Let_def fsN_simps(3))
  have small: "x div ?N mod ?N = x div ?N" if "0 \<le> x" "x < ?N * ?N" for x
    using that fsN_simps(2) [of lrg] by (intro mod_pos_pos_trivial) (simp_all add: pos_imp_zdiv_nonneg_iff idiv_less)
  have top: "x div (?N * ?N) mod ?N = x div (?N * ?N)" if "0 \<le> x" "x < ?N * ?N * ?N" for x
    using that fsN_simps(2) [of lrg] by (intro mod_pos_pos_trivial) (simp_all add: pos_imp_zdiv_nonneg_iff idiv_less mult.assoc)
  have "n - 10 \<ge> 0" "\<not> n < 0" "\<not> n < 10" using assms by simp_all
  note P = blk_path_def [of lrg n, unfolded Let_def if_not_P [OF this(2)] if_not_P [OF this(3)]]
  consider "n - 10 < ?N" | "?N \<le> n - 10" "n - 10 - ?N < ?N * ?N"
    | "?N \<le> n - 10" "?N * ?N \<le> n - 10 - ?N" "n - 10 - ?N - ?N * ?N < ?N * ?N * ?N"
    | "?N \<le> n - 10" "?N * ?N \<le> n - 10 - ?N" "?N * ?N * ?N \<le> n - 10 - ?N - ?N * ?N" by linarith
  then show ?thesis
  proof cases
    case 1
    then show ?thesis using assms unfolding L P by (simp add: Let_def)
  next
    case 2
    then show ?thesis using small [of "n - 10 - ?N"] unfolding L P by (simp add: Let_def fsN_simps(3) numeral_2_eq_2)
  next
    case 3
    then show ?thesis using top [of "n - 10 - ?N - ?N * ?N"] unfolding L P
      by (simp add: Let_def fsN_simps(3) pow_shift numeral_3_eq_3 zdiv_zmult2_eq)
  next
    case 4
    then show ?thesis unfolding L P by (simp add: Let_def)
  qed
qed

fun path_blk :: "bool \<Rightarrow> nat list \<Rightarrow> int" where
  "path_blk lrg [r] = int r"
| "path_blk lrg [r, i] = 10 + int i"
| "path_blk lrg [r, i, j] = 10 + int (fsNINDIR lrg) + (int i * int (fsNINDIR lrg) + int j)"
| "path_blk lrg (r # i # j # k # _) =
     10 + int (fsNINDIR lrg) + int (fsNINDIR lrg) * int (fsNINDIR lrg)
       + ((int i * int (fsNINDIR lrg) + int j) * int (fsNINDIR lrg) + int k)"
| "path_blk lrg [] = 0"

lemma blk_path_props:
  assumes "blk_path lrg n = Some p"
  shows "path_pre lrg p" "path_full p" "path_blk lrg p = n" "0 \<le> n"
proof -
  let ?N = "int (fsNINDIR lrg)"
  have N: "0 < ?N" "0 < ?N * ?N" using fsN_simps(2) [of lrg] by simp_all
  have lt: "nat (x div ?N) < fsNINDIR lrg" if "x < ?N * ?N" for x using idiv_less [OF N(1) that] fsN_simps(2) [of lrg] by simp
  have lt3: "nat (x div (?N * ?N)) < fsNINDIR lrg" if "x < ?N * ?N * ?N" for x
    using idiv_less [OF N(2), of x ?N] that fsN_simps(2) [of lrg] by (simp add: mult.assoc)
  have two: "int (nat (x div ?N)) * ?N + int (nat (x mod ?N)) = x" if "0 \<le> x" for x
    using that N by (simp add: pos_imp_zdiv_nonneg_iff)
  have three: "(int (nat (x div (?N * ?N))) * ?N + int (nat (x div ?N mod ?N))) * ?N + int (nat (x mod ?N)) = x" if "0 \<le> x" for x
  proof -
    have "x div (?N * ?N) = x div ?N div ?N" using N by (simp add: zdiv_zmult2_eq)
    then show ?thesis using that N two [of "x div ?N"] two [of x] by (simp add: pos_imp_zdiv_nonneg_iff)
  qed
  consider "0 \<le> n" "n < 10" "p = [nat n]" | "0 \<le> n - 10" "n - 10 < ?N" "p = [10, nat (n - 10)]"
    | "0 \<le> n - 10 - ?N" "n - 10 - ?N < ?N * ?N" "p = [11, nat ((n - 10 - ?N) div ?N), nat ((n - 10 - ?N) mod ?N)]"
    | c where "c = n - 10 - ?N - ?N * ?N" "0 \<le> c" "c < ?N * ?N * ?N" "p = [12, nat (c div (?N * ?N)), nat (c div ?N mod ?N), nat (c mod ?N)]"
    using assms by (simp add: blk_path_def Let_def split: if_splits)
  then have "path_pre lrg p \<and> path_full p \<and> path_blk lrg p = n \<and> 0 \<le> n"
  proof cases
    case 1
    then show ?thesis by (simp add: path_pre_def path_full_def)
  next
    case 2
    then show ?thesis by (simp add: path_pre_def path_full_def nat_less_iff)
  next
    case 3
    have "0 \<le> n" using 3(1) N by linarith
    then show ?thesis using 3 lt [OF 3(2)] two [OF 3(1)] digit_lt [of _ lrg] by (simp add: path_pre_def path_full_def)
  next
    case 4
    have "0 \<le> n" using 4(1,2) N by linarith
    moreover have "path_blk lrg p = 10 + ?N + ?N * ?N + c" unfolding 4(4) path_blk.simps three [OF 4(2)] by simp
    ultimately show ?thesis using lt3 [OF 4(3)] digit_lt [of _ lrg] 4(1,4) by (simp add: path_pre_def path_full_def)
  qed
  then show "path_pre lrg p" "path_full p" "path_blk lrg p = n" "0 \<le> n" by simp_all
qed

lemma blk_path_disjoint:
  assumes "blk_path lrg n = Some p" "blk_path lrg m = Some q" "p = q @ r"
  shows "n = m"
proof -
  have "hd p = hd q" "length (tl p) = length (tl q) + length r"
    using assms(3) blk_path_props(1) [OF assms(2)] by (cases q; simp add: path_pre_def)+
  then have "r = []" using blk_path_props(2) [OF assms(1)] blk_path_props(2) [OF assms(2)] by (simp add: path_full_def)
  then show ?thesis using assms blk_path_props(3) by (metis append_Nil2)
qed

section \<open>Properties\<close>

lemma bm_slot_root: "r < 13 \<Longrightarrow> bm_slot lrg rd rf (i_addr st ! r) (set_addr r) st = bm_slot lrg rd rf (lookup st [r]) (slot_store st [r]) st"
  by (simp add: lookup_one slot_store_def)

text \<open>The write of a block, along its path.\<close>

definition bm_written :: "bool \<Rightarrow> (int \<Rightarrow> bool) \<Rightarrow> int \<Rightarrow> int \<Rightarrow> nat list \<Rightarrow> bmst \<Rightarrow> int list \<Rightarrow> fs_chan outcome \<times> bmst \<Rightarrow> bool" where
  "bm_written lrg rd isz fsz p st bs rs \<longleftrightarrow> (\<exists>bs'. bm_grown lrg rd isz fsz p st bs (snd rs) bs'
     \<and> (fst rs = Done (lookup (snd rs) p) \<and> lookup (snd rs) p \<noteq> 0
       \<or> fst rs = Err ENOSPC \<and> bs' = [] \<and> lookup (snd rs) p = 0))"

lemma bm_direct_write:
  assumes "bm_ok lrg rd isz fsz st bs" "i < 10" "bm_direct lrg rd False ra i u st = (r, u', st')"
  shows "bm_written lrg rd isz fsz [i] st bs (r, st')"
proof -
  obtain r1 st1 where s: "bm_slot lrg rd False (lookup st [i]) (slot_store st [i]) st = (r1, st1)" by fastforce
  have "path_pre lrg [i]" using assms(2) by (simp add: path_pre_def)
  from bm_slot_write [OF assms(1) this _ s] have "bm_written lrg rd isz fsz [i] st bs (r1, st1)" by (simp add: bm_written_def)
  moreover have "r = r1 \<and> st' = st1"
    using assms(2,3) s by (auto simp: bm_direct_def bm_slot_root split: outcome.splits)
  ultimately show ?thesis by simp
qed

lemma bm_indirect_write:
  assumes ok: "bm_ok lrg rd isz fsz st bs" and a: "bm_level lrg 3 0 1 (n - 10) = Some (j, sh, m)" "j \<in> {1, 2, 3}"
    and pre: "path_pre lrg ((13 - j) # digits lrg m (4 - j) sh)" and run: "bm_indirect lrg rd False ra n u st = (r, u', st')"
  shows "bm_written lrg rd isz fsz ((13 - j) # digits lrg m (4 - j) sh) st bs (r, st')"
proof -
  let ?p = "[13 - j] @ digits lrg m (4 - j) sh"
  have pre1: "path_pre lrg ?p" "path_pre lrg [13 - j]" using pre path_pre_front [of lrg "[13 - j]"] by simp_all
  obtain r1 st1 where s: "bm_slot lrg rd False (lookup st [13 - j]) (slot_store st [13 - j]) st = (r1, st1)" by fastforce
  from bm_slot_write [OF ok pre1(2) _ s] obtain bs1 where G: "bm_grown lrg rd isz fsz [13 - j] st bs st1 bs1"
    and R: "r1 = Done (lookup st1 [13 - j]) \<and> lookup st1 [13 - j] \<noteq> 0 \<or> r1 = Err ENOSPC \<and> bs1 = [] \<and> lookup st1 [13 - j] = 0" by auto
  have ok1: "bm_ok lrg rd isz fsz st1 bs1" using G by (simp add: bm_grown_def)
  have s': "bm_slot lrg rd False (i_addr st ! (NADDR - j)) (set_addr (NADDR - j)) st = (r1, st1)"
    using s a(2) by (subst bm_slot_root) auto
  show ?thesis
  proof (cases "r1 = Err ENOSPC")
    case True
    then have "r = Err ENOSPC" "st' = st1" "bs1 = []" "lookup st1 [13 - j] = 0" using run a(1) s' R by (auto simp: bm_indirect_def)
    moreover from this(4) have "lookup st1 ?p = 0" using lookup_zero [of st1 "[13 - j]"] by simp
    ultimately show ?thesis using bm_grown_trans [OF G bm_grown_refl [OF ok1], of ?p] by (auto simp: bm_written_def)
  next
    case False
    then have v: "r1 = Done (lookup st1 [13 - j])" "lookup st1 [13 - j] \<noteq> 0" using R by simp_all
    then have n1: "lookup st1 [13 - j] \<noteq> - 1" using bm_ok_pos [OF ok1 pre1(2)] by auto
    obtain r2 lf st2 where w: "bm_walk lrg rd False m (4 - j) sh (lookup st1 [13 - j]) (0, 0) st1 = (r2, lf, st2)" by (metis prod_cases3)
    have "r = r2" "st' = st2" using run a(1) s' v(1) n1 w by (auto simp: bm_indirect_def split: outcome.splits prod.splits)
    moreover from bm_walk_write [OF ok1 pre1(1) _ v(2) w] obtain bs2 where
      "bm_grown lrg rd isz fsz ?p st1 bs1 st2 bs2" "r2 = Done (lookup st2 ?p) \<and> lookup st2 ?p \<noteq> 0
        \<or> r2 = Err ENOSPC \<and> bs2 = [] \<and> lookup st2 ?p = 0" by auto
    ultimately show ?thesis using bm_grown_trans [OF G, of ?p st2 bs2] unfolding bm_written_def by auto
  qed
qed

lemma bmap_write_path:
  assumes ok: "bm_ok lrg rd isz fsz st bs" and ty: "i_type rq \<in> {IFREG, IFDIR, IFLNK}" and off: "0 \<le> u_offset rq"
    and lim: "i_type rq = IFREG \<longrightarrow> fsBNO lrg (u_offset rq) < fsPTOL lrg (u_limit rq)"
    and p: "blk_path lrg (fsBNO lrg (u_offset rq)) = Some p" and run: "bmap lrg rd False rq lastr st = (r, u, st')"
  shows "bm_written lrg rd isz fsz p st bs (r, st')"
proof -
  define n where "n = fsBNO lrg (u_offset rq)"
  have n0: "0 \<le> n" using off by (simp add: n_def fsBNO_def pos_imp_zdiv_nonneg_iff)
  obtain ra u0 where r: "(if n < 10 then bm_direct lrg rd False ra (nat n) u0 st else bm_indirect lrg rd False ra n u0 st) = (r, u, st')"
    using run ty lim n0 unfolding bmap_def Let_def n_def [symmetric] by (auto split: if_splits)
  show ?thesis
  proof (cases "n < 10")
    case True
    then have "p = [nat n]" using p n0 by (simp add: blk_path_def n_def [symmetric])
    then show ?thesis using bm_direct_write [OF ok, of "nat n"] r True n0 by simp
  next
    case False
    then obtain j sh m where a: "bm_level lrg 3 0 1 (n - 10) = Some (j, sh, m)" "j \<in> {1, 2, 3}" "p = (13 - j) # digits lrg m (4 - j) sh"
      using bm_level_path [of n lrg] p unfolding n_def [symmetric] by (auto split: option.splits)
    have "path_pre lrg p" using blk_path_props(1) [OF p] .
    then show ?thesis using bm_indirect_write [OF ok a(1,2)] r False a(3) by simp
  qed
qed

lemma bmap_read:
  assumes "bm_ok lrg rd isz fsz st bs" "i_type rq \<in> {IFREG, IFDIR, IFLNK}" "0 \<le> u_offset rq" "u_offset rq < i_size rq" "0 < u_count rq"
  shows "\<exists>u. bmap lrg rd True rq lastr st
    = ((case file_block lrg st (fsBNO lrg (u_offset rq)) of None \<Rightarrow> Err EFBIG | Some b \<Rightarrow> Done (if b = 0 then - 1 else b)), u, st)"
proof -
  define n where "n = fsBNO lrg (u_offset rq)"
  have n0: "0 \<le> n" using assms(3) by (simp add: n_def fsBNO_def pos_imp_zdiv_nonneg_iff)
  have "fsBOFF lrg (u_offset rq) < fsBSIZE lrg" by (simp add: fsBOFF_def fsBSIZE_def)
  then have run: "\<exists>ra u. bmap lrg rd True rq lastr st =
      (if n < 10 then bm_direct lrg rd True ra (nat n) u st else bm_indirect lrg rd True ra n u st)"
    using assms(2-5) n0 unfolding bmap_def Let_def n_def [symmetric] by (auto simp: min_def max_def)
  show ?thesis
  proof (cases "n < 10")
    case True
    then have "blk_path lrg n = Some [nat n]" using n0 by (simp add: blk_path_def)
    then show ?thesis using run True n0
      by (auto simp: file_block_def n_def [symmetric] lookup_one bm_direct_def bm_slot_def split: if_splits)
  next
    case False
    have L: "case bm_level lrg 3 0 1 (n - 10) of None \<Rightarrow> blk_path lrg n = None
      | Some (j, sh, m) \<Rightarrow> j \<in> {1, 2, 3} \<and> blk_path lrg n = Some ((13 - j) # digits lrg m (4 - j) sh)"
      using bm_level_path [of n lrg] False by simp
    obtain ra u where r: "bmap lrg rd True rq lastr st = bm_indirect lrg rd True ra n u st" using run False by auto
    show ?thesis
    proof (cases "bm_level lrg 3 0 1 (n - 10)")
      case None
      then show ?thesis using L r by (simp add: bm_indirect_def file_block_def n_def [symmetric])
    next
      case (Some a)
      then obtain j sh m where a: "bm_level lrg 3 0 1 (n - 10) = Some (j, sh, m)" by (cases a) auto
      then have j: "j \<in> {1, 2, 3}" and p: "blk_path lrg n = Some ((13 - j) # digits lrg m (4 - j) sh)" using L by auto
      have pre: "path_pre lrg ([13 - j] @ digits lrg m (4 - j) sh)" using blk_path_props(1) [OF p] by simp
      show ?thesis
      proof (cases "lookup st [13 - j] = 0")
        case True
        then have "lookup st ([13 - j] @ digits lrg m (4 - j) sh) = 0" by (simp add: lookup_def)
        then show ?thesis using r a p True by (simp add: bm_indirect_def file_block_def n_def [symmetric] bm_slot_def lookup_one)
      next
        case F: False
        have "lookup st [13 - j] \<noteq> - 1" using bm_ok_pos [OF assms(1) path_pre_front [OF pre] F] by auto
        then show ?thesis using bm_walk_read [OF assms(1) pre _ F, of "(0, 0)"] r a p F
          by (auto simp: bm_indirect_def file_block_def n_def [symmetric] bm_slot_def lookup_one split: prod.splits)
      qed
    qed
  qed
qed

text \<open>
  C24: Reading. For a block of a file within its size, \<^verbatim>\<open>bmap\<close> returns what the path of the block, computed
  by division, leads to in the file's tree of indirect blocks, \<open>-1\<close> for a hole, and the error \<^verbatim>\<open>EFBIG\<close>
  exactly for a block beyond the three trees; it changes neither the file nor the free list.
\<close>

theorem bmap_reads_path:
  assumes "bm_ok lrg rd isz fsz st bs" "i_type rq \<in> {IFREG, IFDIR, IFLNK}" "0 \<le> u_offset rq" "u_offset rq < i_size rq" "0 < u_count rq"
  shows "\<exists>u. bmap lrg rd True rq lastr st
    = ((case file_block lrg st (fsBNO lrg (u_offset rq)) of None \<Rightarrow> Err EFBIG | Some b \<Rightarrow> Done (if b = 0 then - 1 else b)), u, st)"
  by (rule bmap_read [OF assms])

lemma bmap_write:
  assumes "bm_ok lrg rd isz fsz st bs" "i_type rq \<in> {IFREG, IFDIR, IFLNK}" "0 \<le> u_offset rq"
    and "i_type rq = IFREG \<longrightarrow> fsBNO lrg (u_offset rq) < fsPTOL lrg (u_limit rq)"
    and "file_block lrg st (fsBNO lrg (u_offset rq)) = Some b0" "bmap lrg rd False rq lastr st = (r, u, st')"
  shows "\<exists>bs'. bm_ok lrg rd isz fsz st' bs' \<and> (\<exists>cs. bs = cs @ bs')
    \<and> (\<forall>m. m \<noteq> fsBNO lrg (u_offset rq) \<longrightarrow> file_block lrg st' m = file_block lrg st m)
    \<and> ((\<exists>b. r = Done b \<and> file_block lrg st' (fsBNO lrg (u_offset rq)) = Some b \<and> b \<noteq> 0 \<and> (if b0 = 0 then b \<in> set bs else b = b0))
       \<or> r = Err ENOSPC \<and> bs' = [] \<and> b0 = 0 \<and> file_block lrg st' (fsBNO lrg (u_offset rq)) = Some 0)"
proof -
  let ?n = "fsBNO lrg (u_offset rq)"
  obtain p where p: "blk_path lrg ?n = Some p" "b0 = lookup st p" using assms(5) by (auto simp: file_block_def)
  from bmap_write_path [OF assms(1-4) p(1) assms(6)] obtain bs' where G: "bm_grown lrg rd isz fsz p st bs st' bs'"
    and R: "r = Done (lookup st' p) \<and> lookup st' p \<noteq> 0 \<or> r = Err ENOSPC \<and> bs' = [] \<and> lookup st' p = 0" by (auto simp: bm_written_def)
  have L: "lookup st' q = lookup st q \<or> lookup st q = 0 \<and> lookup st' q \<in> set bs \<and> (\<exists>r. p = q @ r)" if "path_pre lrg q" for q
    using G that unfolding bm_grown_def by blast
  have "file_block lrg st' m = file_block lrg st m" if m: "m \<noteq> ?n" for m
  proof (cases "blk_path lrg m")
    case (Some q)
    then show ?thesis using L [OF blk_path_props(1) [OF Some]] blk_path_disjoint [OF p(1) Some] m by (auto simp: file_block_def)
  qed (simp add: file_block_def)
  moreover have "bm_ok lrg rd isz fsz st' bs'" "\<exists>cs. bs = cs @ bs'" using G by (simp_all add: bm_grown_def)
  ultimately show ?thesis
    using R L [OF blk_path_props(1) [OF p(1)]] p by (intro exI [of _ bs']) (auto simp: file_block_def)
qed

text \<open>
  C23: Writing. For a block a file may have, \<^verbatim>\<open>bmap\<close> returns the block the path leads to afterwards: the
  same as before if there was one, otherwise one from the list of free blocks. No other block of the
  file moves, every block stays in one place and none of them is free; it fails with \<^verbatim>\<open>ENOSPC\<close> only if
  the block has to be allocated and all free blocks are used up, and then the file still lacks it.
\<close>

theorem bmap_writes_path:
  assumes "bm_ok lrg rd isz fsz st bs" "i_type rq \<in> {IFREG, IFDIR, IFLNK}" "0 \<le> u_offset rq"
    and "i_type rq = IFREG \<longrightarrow> fsBNO lrg (u_offset rq) < fsPTOL lrg (u_limit rq)"
    and "file_block lrg st (fsBNO lrg (u_offset rq)) = Some b0" "bmap lrg rd False rq lastr st = (r, u, st')"
  shows "\<exists>bs'. bm_ok lrg rd isz fsz st' bs' \<and> (\<exists>cs. bs = cs @ bs')
    \<and> (\<forall>m. m \<noteq> fsBNO lrg (u_offset rq) \<longrightarrow> file_block lrg st' m = file_block lrg st m)
    \<and> ((\<exists>b. r = Done b \<and> file_block lrg st' (fsBNO lrg (u_offset rq)) = Some b \<and> b \<noteq> 0 \<and> (if b0 = 0 then b \<in> set bs else b = b0))
       \<or> r = Err ENOSPC \<and> bs' = [] \<and> b0 = 0 \<and> file_block lrg st' (fsBNO lrg (u_offset rq)) = Some 0)"
  by (rule bmap_write [OF assms])

text \<open>What \<^verbatim>\<open>bmap\<close> leaves as the extent, whatever it returns.\<close>

lemma bmap_extent:
  assumes "bmap lrg rd rf rq lastr st = (r, u, st')" "0 \<le> u_offset rq" "i_type rq \<in> {IFREG, IFDIR, IFLNK}"
  defines "sz \<equiv> min (u_count rq) (fsBSIZE lrg - fsBOFF lrg (u_offset rq))"
  shows "u_pboff u = fsBOFF lrg (u_offset rq) \<and> u_pbsize u = (if rf then min (max 0 (i_size rq - u_offset rq)) sz else sz)"
proof -
  have D: "u_pboff v' = u_pboff v \<and> u_pbsize v' = u_pbsize v" if "bm_direct lrg rd rf ra i v st = (q, v', s')" for ra i v q v' s'
    using that by (auto simp: bm_direct_def Let_def split: prod.splits outcome.splits if_splits)
  have I: "u_pboff v' = u_pboff v \<and> u_pbsize v' = u_pbsize v" if "bm_indirect lrg rd rf ra i v st = (q, v', s')" for ra i v q v' s'
    using that by (auto simp: bm_indirect_def Let_def split: prod.splits outcome.splits if_splits option.splits)
  have n: "\<not> fsBNO lrg (u_offset rq) < 0" using assms(2) by (simp add: fsBNO_def pos_imp_zdiv_nonneg_iff not_less)
  define v0 where "v0 = \<lparr>u_rablock = 0, u_xablock = 0, u_pboff = fsBOFF lrg (u_offset rq),
      u_pbsize = (if rf then min (max 0 (i_size rq - u_offset rq)) sz else sz),
      i_lastr = (if u_count rq < fsBSIZE lrg - fsBOFF lrg (u_offset rq) then lastr else fsBNO lrg (u_offset rq))\<rparr>"
  have sz: "(if u_count rq < fsBSIZE lrg - fsBOFF lrg (u_offset rq) then u_count rq else fsBSIZE lrg - fsBOFF lrg (u_offset rq)) = sz"
    by (simp add: sz_def min_def)
  have "u = v0 \<or> (\<exists>ra i. bm_direct lrg rd rf ra i v0 st = (r, u, st')) \<or> (\<exists>ra i. bm_indirect lrg rd rf ra i v0 st = (r, u, st'))"
    using assms(1,3) n unfolding bmap_def Let_def sz by (cases rf) (auto simp: v0_def split: if_splits)
  then have "u_pboff u = u_pboff v0 \<and> u_pbsize u = u_pbsize v0" using D I by metis
  then show ?thesis by (simp add: v0_def)
qed

text \<open>Beyond the limit, or beyond the trees, a write fails and changes nothing.\<close>

lemma bmap_too_big:
  assumes "0 \<le> u_offset rq" "i_type rq \<in> {IFREG, IFDIR, IFLNK}"
    and "i_type rq = IFREG \<and> fsPTOL lrg (u_limit rq) \<le> fsBNO lrg (u_offset rq) \<or> blk_path lrg (fsBNO lrg (u_offset rq)) = None"
  shows "\<exists>u. bmap lrg rd False rq lastr st = (Err EFBIG, u, st)"
proof -
  define n where "n = fsBNO lrg (u_offset rq)"
  have n0: "0 \<le> n" using assms(1) by (simp add: n_def fsBNO_def pos_imp_zdiv_nonneg_iff)
  show ?thesis
  proof (cases "i_type rq = IFREG \<and> fsPTOL lrg (u_limit rq) \<le> n")
    case True
    then show ?thesis using n0 unfolding bmap_def Let_def n_def [symmetric] by auto
  next
    case F: False
    then have none: "blk_path lrg n = None" using assms(3) by (auto simp: n_def)
    then have n10: "\<not> n < 10" using n0 by (auto simp: blk_path_def)
    have "bm_level lrg 3 0 1 (n - 10) = None" using bm_level_path [of n lrg] n10 none by (auto split: option.splits)
    then have "bm_indirect lrg rd False ra n u st = (Err EFBIG, u, st)" for ra u by (simp add: bm_indirect_def)
    then show ?thesis using n0 n10 F assms(2) unfolding bmap_def Let_def n_def [symmetric] by auto
  qed
qed

text \<open>
  The extent of the transfer. When \<^verbatim>\<open>bmap\<close> returns a block, \<^verbatim>\<open>u_pboff\<close> is the offset in it, and
  \<^verbatim>\<open>u_pbsize\<close> is positive and stays within the block, within the request and, for reading, within the
  file.
\<close>

theorem bmap_bounds:
  assumes "bmap lrg rd rf rq lastr st = (Done b, u, st')" "b \<noteq> - 1" "0 \<le> u_offset rq" "0 < u_count rq" "i_type rq \<in> {IFREG, IFDIR, IFLNK}"
  shows "u_pboff u = u_offset rq - fsBNO lrg (u_offset rq) * fsBSIZE lrg \<and> 0 < u_pbsize u \<and> u_pboff u + u_pbsize u \<le> fsBSIZE lrg
    \<and> u_pbsize u \<le> u_count rq \<and> (rf \<longrightarrow> u_offset rq + u_pbsize u \<le> i_size rq)"
proof -
  have D: "u_pboff v' = u_pboff v \<and> u_pbsize v' = u_pbsize v" if "bm_direct lrg rd rf ra i v st = (q, v', s')" for ra i v q v' s'
    using that by (auto simp: bm_direct_def Let_def split: prod.splits outcome.splits if_splits)
  have I: "u_pboff v' = u_pboff v \<and> u_pbsize v' = u_pbsize v" if "bm_indirect lrg rd rf ra i v st = (q, v', s')" for ra i v q v' s'
    using that by (auto simp: bm_indirect_def Let_def split: prod.splits outcome.splits if_splits option.splits)
  have o: "fsBOFF lrg (u_offset rq) = u_offset rq - fsBNO lrg (u_offset rq) * fsBSIZE lrg"
    "0 \<le> fsBOFF lrg (u_offset rq)" "fsBOFF lrg (u_offset rq) < fsBSIZE lrg"
    by (simp_all add: fsBOFF_def fsBNO_def fsBSIZE_def minus_div_mult_eq_mod)
  let ?sz = "if u_count rq < fsBSIZE lrg - fsBOFF lrg (u_offset rq) then u_count rq else fsBSIZE lrg - fsBOFF lrg (u_offset rq)"
  let ?sz2 = "if rf then min (max 0 (i_size rq - u_offset rq)) ?sz else ?sz"
  define n v0 where "n = fsBNO lrg (u_offset rq)"
    and "v0 = \<lparr>u_rablock = 0, u_xablock = 0, u_pboff = fsBOFF lrg (u_offset rq), u_pbsize = ?sz2,
      i_lastr = (if u_count rq < fsBSIZE lrg - fsBOFF lrg (u_offset rq) then lastr else n)\<rparr>"
  have "\<exists>ra. bm_direct lrg rd rf ra (nat n) v0 st = (Done b, u, st') \<or> bm_indirect lrg rd rf ra n v0 st = (Done b, u, st')"
    and nz: "\<not> (rf \<and> ?sz2 = 0)"
    using assms(1,2,5) unfolding bmap_def Let_def n_def [symmetric] v0_def by (auto split: if_splits)
  then have "u_pboff u = fsBOFF lrg (u_offset rq) \<and> u_pbsize u = ?sz2 \<and> \<not> (rf \<and> ?sz2 = 0)"
    using D [of _ "nat n" v0] I [of _ n v0] by (fastforce simp: v0_def)
  moreover have "0 < ?sz" "?sz \<le> u_count rq" "fsBOFF lrg (u_offset rq) + ?sz \<le> fsBSIZE lrg" using o assms(4) by auto
  ultimately show ?thesis using o(1) by (auto simp: min_def max_def split: if_splits)
qed

section \<open>Sample runs\<close>

text \<open>An empty file, with the blocks 39 down to 30 free.\<close>

definition demo_bm :: bmst where
  "demo_bm = (case fold fs_push [30..39] (demo_dv, demo_sb) of (dv, fp) \<Rightarrow>
     \<lparr>bm_dv = dv, bm_ind = (\<lambda>_. replicate 128 0), bm_fp = fp, i_addr = replicate 13 0, i_chg = False\<rparr>)"

definition demo_rq :: "int \<Rightarrow> bmreq" where
  "demo_rq off = \<lparr>i_type = IFREG, i_size = 12000, u_offset = off, u_count = 100, u_limit = 5000\<rparr>"

lemma demo_bm_ok: "bm_ok False (\<lambda>_. True) 28 200 demo_bm (rev [30..39])"
proof -
  have "free_ok (\<lambda>_. True) 28 200 (fold fs_push [30..39] (demo_dv, demo_sb)) (rev [30..39])"
    using fsb.push_all [OF demo_free_ok, of "[30..39]"] by (simp add: block_valid_def del: upto.simps upto_rec_numeral)
  moreover have "node (\<lambda>_. replicate 128 0) b q = 0" if "b = 0" for b q using that by simp
  then have "lookup demo_bm q = 0" if "path_pre False q" for q
    using that by (simp add: lookup_def demo_bm_def path_pre_def split: prod.split)
  moreover have "(bm_dv demo_bm, bm_fp demo_bm) = fold fs_push [30..39] (demo_dv, demo_sb)"
    "length (i_addr demo_bm) = 13" "\<forall>b. length (bm_ind demo_bm b) = 128"
    by (simp_all add: demo_bm_def split: prod.split)
  ultimately show ?thesis by (simp add: bm_ok_def fsNINDIR_def del: upto.simps upto_rec_numeral)
qed

lemma demo_bno: "fsBNO False 10300 = 20" "fsBNO False (u_offset (demo_rq 10300)) = 20" by (simp_all add: fsBNO_def demo_rq_def)

lemma demo_path: "blk_path False 20 = Some [10, 10]" by code_simp

lemma demo_write: "\<exists>u st'. bmap False (\<lambda>_. True) False (demo_rq 10300) (- 1) demo_bm = (Done 38, u, st')"
proof -
  have "fst (bmap False (\<lambda>_. True) False (demo_rq 10300) (- 1) demo_bm) = Done 38" by code_simp
  then show ?thesis by (metis prod.collapse)
qed

lemma demo_hole: "file_block False demo_bm 20 = Some 0"
  by (simp add: file_block_def demo_path lookup_def demo_bm_def split: prod.split)

theorem bmap_reads_path_witness: "fst (bmap False (\<lambda>_. True) True (demo_rq 10300) (- 1) demo_bm) = Done (- 1)"
  using bmap_reads_path [OF demo_bm_ok, of "demo_rq 10300" "- 1"] demo_hole demo_bno by (auto simp: demo_rq_def)

theorem bmap_writes_path_witness:
  "\<exists>u st'. bmap False (\<lambda>_. True) False (demo_rq 10300) (- 1) demo_bm = (Done 38, u, st') \<and> file_block False st' 20 = Some 38"
proof -
  obtain u st' where r: "bmap False (\<lambda>_. True) False (demo_rq 10300) (- 1) demo_bm = (Done 38, u, st')" using demo_write by blast
  have "i_type (demo_rq 10300) = IFREG \<longrightarrow> fsBNO False (u_offset (demo_rq 10300)) < fsPTOL False (u_limit (demo_rq 10300))"
    "i_type (demo_rq 10300) \<in> {IFREG, IFDIR, IFLNK}" "0 \<le> u_offset (demo_rq 10300)"
    by (simp_all add: demo_bno fsPTOL_def) (simp_all add: demo_rq_def)
  from bmap_writes_path [OF demo_bm_ok this(2,3,1) _ r] r show ?thesis by (auto simp: demo_bno demo_hole)
qed

theorem bmap_bounds_witness:
  "\<exists>u st'. bmap False (\<lambda>_. True) False (demo_rq 10300) (- 1) demo_bm = (Done 38, u, st') \<and> 0 < u_pbsize u \<and> u_pbsize u \<le> 100"
proof -
  obtain u st' where r: "bmap False (\<lambda>_. True) False (demo_rq 10300) (- 1) demo_bm = (Done 38, u, st')" using demo_write by blast
  from bmap_bounds [OF r] r show ?thesis by (simp add: demo_rq_def)
qed

end
