(* ===== verification/Inode_Trunc.thy ===== *)
theory Inode_Trunc
  imports Bmap
begin

text \<open>
  Freeing the blocks of a file (\<^verbatim>\<open>itrunc\<close> and \<^verbatim>\<open>tloop\<close> of \<^verbatim>\<open>sys/os/iget.c\<close>), over the mapping of \<^verbatim>\<open>bmap\<close>
  and the list of free blocks. A freed block may become a link of that list: then it no longer reads
  as the indirect block it was, but as \<open>lk\<close> of the link. \<^verbatim>\<open>None\<close> is a call that would sleep for the lock
  of the free list.
\<close>

section \<open>The operations\<close>









section \<open>The blocks of a file\<close>













section \<open>Freeing a tree\<close>










section \<open>Properties\<close>


section \<open>A sample run\<close>




end
