(* ===== verification/Inode_Disk.thy ===== *)
theory Inode_Disk
  imports Fs_Alloc Fs_Params
begin

text \<open>
  The inode on the disk (\<^verbatim>\<open>sys/ino.h\<close>) and in the inode table: reading it (\<^verbatim>\<open>iread\<close>), writing it
  (\<^verbatim>\<open>iupdat\<close>) and its status (\<^verbatim>\<open>stat1\<close>), of \<^verbatim>\<open>sys/os/iget.c\<close>, on a local device. The 68020 stores the high
  byte of a long first; the disk keeps the other three bytes of a block address.
\<close>

section \<open>Data\<close>

abbreviation (input) NADDR :: nat where "NADDR \<equiv> 13"
abbreviation (input) NFADDR :: nat where "NFADDR \<equiv> 10"
abbreviation (input) NSADDR :: nat where "NSADDR \<equiv> 26"
abbreviation (input) IFMT :: u16 where "IFMT \<equiv> 0xF000"
abbreviation (input) S_IFIFO :: u16 where "S_IFIFO \<equiv> 0x1000"

record dinode =
  di_mode :: u16
  di_nlink :: u16
  di_uid :: u16
  di_gid :: u16
  di_size :: u32
  di_addr :: "u8 list"
  di_atime :: u32
  di_mtime :: u32
  di_ctime :: u32

record inode =
  i_mode :: u16
  i_nlink :: u16
  i_uid :: u16
  i_gid :: u16
  i_size :: u32
  i_addr :: "u32 list"

datatype iflag = ILOCK | IUPD | IACC | IMOUNT | IWANT | ITEXT | ICHG | ISYN | ILAND | ISEL

text \<open>
  The state around an inode: its flags, \<^verbatim>\<open>u.u_error\<close>, the blocks of the i-list, the warnings printed
  and, for each block written, whether the write was synchronous.
\<close>

record iustate =
  iu_flag :: "iflag set"
  iu_error :: "errno option"
  iu_dev :: "int \<Rightarrow> dinode list"
  iu_warn :: nat
  iu_writes :: "(int \<times> bool) list"

section \<open>Reading\<close>

definition join4 :: "u8 \<Rightarrow> u8 \<Rightarrow> u8 \<Rightarrow> u8 \<Rightarrow> u32" where
  "join4 a b c d = push_bit 24 (ucast a) OR push_bit 16 (ucast b) OR push_bit 8 (ucast c) OR ucast d"

definition byte_of :: "nat \<Rightarrow> u32 \<Rightarrow> u8" where
  "byte_of k a = ucast (drop_bit (8 * k) a)"

fun rd_addrs :: "nat \<Rightarrow> u8 list \<Rightarrow> u32 list" where
  "rd_addrs (Suc n) (a # b # c # p2) = join4 0 a b c # rd_addrs n p2"
| "rd_addrs n p2 = []"

text \<open>The short \<open>k\<close> of the union with the addresses, \<^verbatim>\<open>i_f[k]\<close>.\<close>

definition set_if :: "nat \<Rightarrow> u16 \<Rightarrow> u32 list \<Rightarrow> u32 list" where
  "set_if k v as = as[k div 2 :=
     (if even k then push_bit 16 (ucast v) OR (as ! (k div 2) AND 0xFFFF) else (as ! (k div 2) AND 0xFFFF0000) OR ucast v)]"

text \<open>\<^verbatim>\<open>i_frptr\<close>, \<^verbatim>\<open>i_fwptr\<close>, \<^verbatim>\<open>i_fwcnt\<close> and \<^verbatim>\<open>i_waite\<close> are the shorts 5, 4, 2 and 3 from the end.\<close>

definition fifo_reset :: "u32 list \<Rightarrow> u32 list" where
  "fifo_reset as = set_if (NSADDR - 3) 0 (set_if (NSADDR - 2) 0 (set_if (NSADDR - 5) 0 (set_if (NSADDR - 4) 0 as)))"

definition i_load :: "dinode \<Rightarrow> inode" where
  "i_load dp =
     (let as = rd_addrs NADDR (di_addr dp) in
      \<lparr>i_mode = di_mode dp, i_nlink = di_nlink dp, i_uid = di_uid dp, i_gid = di_gid dp, i_size = di_size dp,
       i_addr = (if di_mode dp AND IFMT = S_IFIFO then fifo_reset as else as)\<rparr>)"

text \<open>\<^verbatim>\<open>iread\<close>: \<^verbatim>\<open>None\<close> is the path on which the inode is released again, whatever set \<^verbatim>\<open>u.u_error\<close>.\<close>

definition iread :: "bool \<Rightarrow> (int \<Rightarrow> bool) \<Rightarrow> u16 \<Rightarrow> iustate \<Rightarrow> iustate \<times> inode option" where
  "iread lrg rd ino st =
     (let st1 = (if rd (fsITOD lrg ino) then st else st\<lparr>iu_error := Some EIO\<rparr>) in
      if iu_error st1 \<noteq> None then (st1, None)
      else (st1, Some (i_load (iu_dev st1 (fsITOD lrg ino) ! fsITOO lrg ino))))"

section \<open>Writing\<close>

text \<open>The bytes for \<open>n\<close> addresses, and how many of these lose their high byte.\<close>

fun wr_addrs :: "nat \<Rightarrow> u32 list \<Rightarrow> u8 list" where
  "wr_addrs (Suc n) (a # as) = byte_of 2 a # byte_of 1 a # byte_of 0 a # wr_addrs n as"
| "wr_addrs n as = []"

fun wr_warn :: "nat \<Rightarrow> u32 list \<Rightarrow> nat" where
  "wr_warn (Suc n) (a # as) = (if byte_of 3 a \<noteq> 0 then 1 else 0) + wr_warn n as"
| "wr_warn n as = 0"

definition n_addrs :: "inode \<Rightarrow> nat" where
  "n_addrs ip = (if i_mode ip AND IFMT = S_IFIFO then NFADDR else NADDR)"

definition addr_bytes :: "inode \<Rightarrow> u8 list" where
  "addr_bytes ip = wr_addrs (n_addrs ip) (i_addr ip) @ replicate (3 * (NADDR - n_addrs ip)) 0 @ [0]"

text \<open>The part of the disk inode before the times is copied; each time is set when its flag is.\<close>

definition i_save :: "inode \<Rightarrow> iflag set \<Rightarrow> u32 \<Rightarrow> u32 \<Rightarrow> u32 \<Rightarrow> dinode \<Rightarrow> dinode" where
  "i_save ip fl ta tm now dp =
     \<lparr>di_mode = i_mode ip, di_nlink = i_nlink ip, di_uid = i_uid ip, di_gid = i_gid ip, di_size = i_size ip,
      di_addr = addr_bytes ip,
      di_atime = (if IACC \<in> fl then ta else di_atime dp),
      di_mtime = (if IUPD \<in> fl then tm else di_mtime dp),
      di_ctime = (if ICHG \<in> fl then now else di_ctime dp)\<rparr>"

definition iupdat :: "bool \<Rightarrow> (int \<Rightarrow> bool) \<Rightarrow> bool \<Rightarrow> u32 \<Rightarrow> u16 \<Rightarrow> inode \<Rightarrow> u32 \<Rightarrow> u32 \<Rightarrow> iustate \<Rightarrow> iustate" where
  "iupdat lrg rd ronly now ino ip ta tm st =
     (if ronly then
        st\<lparr>iu_error := (if iu_flag st \<inter> {IUPD, ICHG} \<noteq> {} then Some EROFS else iu_error st),
           iu_flag := iu_flag st - {IACC, IUPD, ICHG, ISYN}\<rparr>
      else let st1 = st\<lparr>iu_warn := iu_warn st + wr_warn (n_addrs ip) (i_addr ip)\<rparr>; b = fsITOD lrg ino in
        if \<not> rd b then st1\<lparr>iu_error := Some EIO\<rparr>
        else let blk = iu_dev st1 b; k = fsITOO lrg ino in
          st1\<lparr>iu_dev := (iu_dev st1)(b := blk[k := i_save ip (iu_flag st1) ta tm now (blk ! k)]),
              iu_writes := iu_writes st1 @ [(b, ISYN \<in> iu_flag st1)],
              iu_flag := iu_flag st1 - {IACC, IUPD, ICHG, ISYN}\<rparr>)"

text \<open>The status of a file; \<open>None\<close> is \<^verbatim>\<open>EFAULT\<close>.\<close>

record istat =
  st_dev :: u16
  st_ino :: u16
  st_mode :: u16
  st_nlink :: u16
  st_uid :: u16
  st_gid :: u16
  st_rdev :: u32
  st_size :: u32
  st_atime :: u32
  st_mtime :: u32
  st_ctime :: u32

definition brdev :: "u16 \<Rightarrow> u16" where "brdev x = x AND 0x3FFF"

definition stat1 :: "u16 \<Rightarrow> (int \<Rightarrow> bool) \<Rightarrow> bool \<Rightarrow> u32 \<Rightarrow> u16 \<Rightarrow> inode \<Rightarrow> bool \<Rightarrow> iustate \<Rightarrow> iustate \<times> istat option" where
  "stat1 dev rd ronly now ino ip copyout st =
     (let lrg = fsLRG (uint dev);
          st1 = (if iu_flag st \<inter> {IACC, IUPD, ICHG} \<noteq> {} then iupdat lrg rd ronly now ino ip now now st else st);
          b = fsITOD lrg ino;
          st2 = (if rd b then st1 else st1\<lparr>iu_error := Some EIO\<rparr>);
          dp = iu_dev st2 b ! fsITOO lrg ino in
      if copyout then
        (st2, Some \<lparr>st_dev = brdev dev, st_ino = ino, st_mode = i_mode ip, st_nlink = i_nlink ip, st_uid = i_uid ip, st_gid = i_gid ip,
           st_rdev = i_addr ip ! 0, st_size = i_size ip, st_atime = di_atime dp, st_mtime = di_mtime dp, st_ctime = di_ctime dp\<rparr>)
      else (st2\<lparr>iu_error := Some EFAULT\<rparr>, None))"

section \<open>The geometry of the i-list\<close>

lemma fsITOO_less: "fsITOO lrg x < fsINOPB lrg"
proof -
  have "(uint x + 31) mod 16 < 16" "(uint x + 15) mod 8 < 8" by (rule pos_mod_bound, simp)+
  then show ?thesis by (auto simp: fsITOO_def fsINOPB_def)
qed

lemma i_place_inj: "fsITOD lrg x = fsITOD lrg y \<Longrightarrow> fsITOO lrg x = fsITOO lrg y \<Longrightarrow> x = y"
proof -
  assume e: "fsITOD lrg x = fsITOD lrg y" "fsITOO lrg x = fsITOO lrg y"
  let ?n = "if lrg then 16 else (8::int)"
  have p: "(uint z + (2 * ?n - 1)) = ?n * fsITOD lrg z + int (fsITOO lrg z)" for z
    by (auto simp: fsITOD_def fsITOO_def)
  have "uint x = uint y" using p [of x] p [of y] e by simp
  then show "x = y" by (simp add: word_uint_eq_iff)
qed

section \<open>Addresses in three bytes\<close>

lemma join4_bit: "bit (join4 a b c d) n \<longleftrightarrow>
    (if n < 8 then bit d n else if n < 16 then bit c (n - 8) else if n < 24 then bit b (n - 16) else n < 32 \<and> bit a (n - 24))"
  by (auto simp: join4_def bit_simps dest: bit_imp_le_length)

lemma byte_of_bit: "bit (byte_of k a) n \<longleftrightarrow> n < 8 \<and> bit a (8 * k + n)"
  by (auto simp: byte_of_def bit_simps add.commute)

lemma join4_bytes [simplified]: "byte_of 3 a = 0 \<Longrightarrow> join4 0 (byte_of 2 a) (byte_of 1 a) (byte_of 0 a) = a"
proof (rule bit_word_eqI)
  fix n assume h: "byte_of 3 a = 0" and n: "n < LENGTH(32)"
  have "bit a n \<Longrightarrow> n < 24" 
  proof (rule ccontr)
    assume "bit a n" "\<not> n < 24"
    then have "bit (byte_of 3 a) (n - 24)" using n by (simp add: byte_of_bit)
    with h show False by simp
  qed
  with n show "bit (join4 0 (byte_of 2 a) (byte_of 1 a) (byte_of 0 a)) n = bit a n"
    by (auto simp: join4_bit byte_of_bit)
qed

lemma byte3_join4: "byte_of 3 (join4 0 a b c) = 0"
  by (rule bit_word_eqI) (auto simp: byte_of_bit join4_bit)

lemma rd_wr_addrs:
  "\<lbrakk>length as = n; \<forall>a\<in>set as. byte_of 3 a = 0\<rbrakk> \<Longrightarrow> rd_addrs n (wr_addrs n as @ rest) = as"
proof (induction n arbitrary: as)
  case 0
  then show ?case by (cases rest rule: rd_addrs.cases [of "(0, rest)" for rest]) auto
next
  case (Suc n)
  then obtain a bs where "as = a # bs" by (cases as) auto
  with Suc show ?case by (simp add: join4_bytes)
qed

lemma length_wr_addrs: "n \<le> length as \<Longrightarrow> length (wr_addrs n as) = 3 * n"
proof (induction n arbitrary: as)
  case (Suc n)
  then obtain a bs where "as = a # bs" by (cases as) auto
  with Suc show ?case by simp
qed simp

lemma wr_addrs_take: "wr_addrs n (take n as) = wr_addrs n as"
proof (induction n arbitrary: as)
  case (Suc n)
  then show ?case by (cases as) auto
qed simp

lemma rd_addrs_zeros: "rd_addrs n (replicate (3 * n) 0 @ rest) = replicate n 0"
proof (induction n)
  case (Suc n)
  have "replicate (3 * Suc n) (0 :: u8) = 0 # 0 # 0 # replicate (3 * n) 0" by (simp add: numeral_3_eq_3)
  with Suc show ?case by (simp add: join4_def)
qed simp

lemma rd_addrs_append:
  "\<lbrakk>length as = n; \<forall>a\<in>set as. byte_of 3 a = 0\<rbrakk> \<Longrightarrow> rd_addrs (n + m) (wr_addrs n as @ rest) = as @ rd_addrs m rest"
proof (induction n arbitrary: as)
  case (Suc n)
  then obtain a bs where "as = a # bs" by (cases as) auto
  with Suc show ?case by (simp add: join4_bytes)
qed simp

lemma rd_addrs_types: "3 * n \<le> length bs \<Longrightarrow> length (rd_addrs n bs) = n \<and> (\<forall>a\<in>set (rd_addrs n bs). byte_of 3 a = 0)"
proof (induction n bs rule: rd_addrs.induct)
  case (1 n a b c p2)
  then show ?case by (simp add: byte3_join4)
qed auto

lemma wr_warn_zero: "\<forall>a\<in>set as. byte_of 3 a = 0 \<Longrightarrow> wr_warn n as = 0"
  by (induction n as rule: wr_warn.induct) auto

section \<open>Inodes of the right shape\<close>

text \<open>The shape of an inode in the table, 13 addresses below \<open>2\<^sup>2\<^sup>4\<close>, and of the i-list.\<close>

definition inode_ok :: "inode \<Rightarrow> bool" where
  "inode_ok ip \<longleftrightarrow> length (i_addr ip) = NADDR \<and> (\<forall>a\<in>set (i_addr ip). byte_of 3 a = 0)"

text \<open>An inode that can be written without loss: of a FIFO only the ten block addresses count.\<close>

definition disk_ok :: "inode \<Rightarrow> bool" where
  "disk_ok ip \<longleftrightarrow> length (i_addr ip) = NADDR \<and> (\<forall>a\<in>set (take (n_addrs ip) (i_addr ip)). byte_of 3 a = 0)"

lemma disk_ok_inode: "inode_ok ip \<Longrightarrow> disk_ok ip"
  by (auto simp: inode_ok_def disk_ok_def dest: in_set_takeD)

definition ilist_ok :: "bool \<Rightarrow> (int \<Rightarrow> dinode list) \<Rightarrow> bool" where
  "ilist_ok lrg d \<longleftrightarrow> (\<forall>b. length (d b) = fsINOPB lrg \<and> (\<forall>dp\<in>set (d b). length (di_addr dp) = 40))"

lemma ilist_ok_nth: "ilist_ok lrg d \<Longrightarrow> length (di_addr (d b ! fsITOO lrg x)) = 40"
  using fsITOO_less [of lrg x] unfolding ilist_ok_def by (metis nth_mem)

lemma fifo_reset_zeros: "length as = NADDR \<Longrightarrow> fifo_reset as = take 10 as @ [as ! 10 AND 0xFFFF0000, 0, as ! 12 AND 0xFFFF]"
  by (rule nth_equalityI) (auto simp: fifo_reset_def set_if_def nth_append nth_Cons' nth_list_update less_Suc_eq_le and.assoc)

lemma fifo_reset_types:
  assumes "length as = NADDR" "\<forall>a\<in>set as. byte_of 3 a = 0"
  shows "length (fifo_reset as) = NADDR \<and> (\<forall>a\<in>set (fifo_reset as). byte_of 3 a = 0)"
proof -
  have "byte_of 3 (a AND m) = 0" if "a \<in> set as" for a m
  proof (rule bit_word_eqI)
    fix n
    have "\<not> bit (byte_of 3 a) n" using assms(2) that by simp
    then show "bit (byte_of 3 (a AND m)) n = bit (0 :: u8) n" by (auto simp: byte_of_bit bit_simps)
  qed
  moreover have "as ! 10 \<in> set as" "as ! 12 \<in> set as" using assms(1) by (auto intro: nth_mem)
  moreover have "byte_of 3 0 = 0" by (simp add: byte_of_def)
  ultimately have "\<forall>a\<in>set (fifo_reset as). byte_of 3 a = 0"
    unfolding fifo_reset_zeros [OF assms(1)] using assms(2) by (auto dest: in_set_takeD)
  then show ?thesis using assms(1) by (simp add: fifo_reset_zeros)
qed

lemma i_load_ok: "length (di_addr dp) = 40 \<Longrightarrow> inode_ok (i_load dp)"
  using rd_addrs_types [of NADDR "di_addr dp"] fifo_reset_types by (auto simp: i_load_def inode_ok_def Let_def)

lemma length_addr_bytes: "disk_ok ip \<Longrightarrow> length (addr_bytes ip) = 40"
  by (auto simp: addr_bytes_def n_addrs_def disk_ok_def length_wr_addrs)

text \<open>What the addresses become when they are written and read again; a FIFO keeps ten.\<close>

definition kept_addrs :: "inode \<Rightarrow> u32 list" where
  "kept_addrs ip = (if i_mode ip AND IFMT = S_IFIFO then take NFADDR (i_addr ip) @ [0, 0, 0] else i_addr ip)"

lemma rd_addr_bytes:
  assumes "disk_ok ip"
  shows "rd_addrs NADDR (addr_bytes ip) = kept_addrs ip"
proof (cases "i_mode ip AND IFMT = S_IFIFO")
  case True
  let ?as = "take NFADDR (i_addr ip)"
  have as: "length ?as = NFADDR" "\<forall>a\<in>set ?as. byte_of 3 a = 0" using assms True by (simp_all add: disk_ok_def n_addrs_def)
  have "rd_addrs (NFADDR + 3) (wr_addrs NFADDR ?as @ replicate (3 * 3) 0 @ [0]) = ?as @ rd_addrs 3 (replicate (3 * 3) 0 @ [0])"
    by (rule rd_addrs_append [OF as])
  also have "rd_addrs 3 (replicate (3 * 3) 0 @ [0]) = [0, 0, 0]" unfolding rd_addrs_zeros by (simp add: numeral_3_eq_3)
  finally show ?thesis using True by (simp add: addr_bytes_def n_addrs_def kept_addrs_def wr_addrs_take)
next
  case False
  then show ?thesis using assms rd_wr_addrs by (simp add: addr_bytes_def n_addrs_def kept_addrs_def disk_ok_def)
qed

lemma i_load_save: "disk_ok ip \<Longrightarrow> i_load (i_save ip fl ta tm now dp) = ip\<lparr>i_addr := kept_addrs ip\<rparr>"
  by (auto simp: i_load_def i_save_def rd_addr_bytes kept_addrs_def fifo_reset_zeros disk_ok_def nth_append)

text \<open>Writing an inode leaves the others in their places.\<close>

lemma iupdat_dev:
  assumes "ilist_ok lrg (iu_dev st)" "rd (fsITOD lrg ino)"
  shows "iu_dev (iupdat lrg rd False now ino ip ta tm st) (fsITOD lrg jno) ! fsITOO lrg jno =
    (let dp = iu_dev st (fsITOD lrg jno) ! fsITOO lrg jno in if jno = ino then i_save ip (iu_flag st) ta tm now dp else dp)"
  using assms i_place_inj [of lrg ino jno] fsITOO_less [of lrg ino]
  by (auto simp: iupdat_def ilist_ok_def Let_def nth_list_update)

lemma ilist_ok_iupdat:
  assumes "ilist_ok lrg (iu_dev st)" "disk_ok ip"
  shows "ilist_ok lrg (iu_dev (iupdat lrg rd ronly now ino ip ta tm st))"
proof -
  have "length (di_addr (i_save ip (iu_flag st) ta tm now dp)) = 40" for dp
    using assms(2) by (simp add: i_save_def length_addr_bytes)
  then show ?thesis
    using assms(1) by (auto simp: iupdat_def ilist_ok_def Let_def dest!: set_update_subset_insert [THEN subsetD])
qed

section \<open>Properties\<close>

text \<open>
  What an inode is. From an i-list of the right shape, \<^verbatim>\<open>iread\<close> makes an inode with thirteen addresses that fit
  in three bytes; and \<^verbatim>\<open>iupdat\<close> of such an inode leaves an i-list of the right shape and never
  warns of a lost byte.
\<close>

theorem inode_types:
  assumes "ilist_ok lrg (iu_dev st)" "iread lrg rd ino st = (st1, Some ip)"
  shows "inode_ok ip \<and> ilist_ok lrg (iu_dev st1) \<and>
    (\<forall>jp jno ronly now ta tm. inode_ok jp \<longrightarrow>
       ilist_ok lrg (iu_dev (iupdat lrg rd ronly now jno jp ta tm st1)) \<and> iu_warn (iupdat lrg rd ronly now jno jp ta tm st1) = iu_warn st1)"
proof -
  have "iu_dev st1 = iu_dev st" "ip = i_load (iu_dev st (fsITOD lrg ino) ! fsITOO lrg ino)"
    using assms(2) by (auto simp: iread_def Let_def split: if_splits)
  moreover have "wr_warn n (i_addr jp) = 0" if "inode_ok jp" for n jp using that by (auto simp: inode_ok_def intro: wr_warn_zero)
  ultimately show ?thesis
    using assms(1) ilist_ok_iupdat [OF _ disk_ok_inode] i_load_ok [OF ilist_ok_nth [OF assms(1)]] by (simp add: iupdat_def Let_def)
qed

text \<open>
  C36: An inode written with \<^verbatim>\<open>iupdat\<close> is what \<^verbatim>\<open>iread\<close> finds, all fields and all addresses, as long as those it stores fit in three bytes; only a FIFO comes back
  with its ten block addresses alone, its pointers and counts cleared. Every other inode, in the same block or not,
  is read as before.
\<close>

theorem iread_iupdat:
  assumes "ilist_ok lrg (iu_dev st)" "disk_ok ip" "rd (fsITOD lrg ino)"
  shows "snd (iread lrg rd jno (iupdat lrg rd False now ino ip ta tm st)) =
    (if jno = ino then (if iu_error st = None then Some (ip\<lparr>i_addr := kept_addrs ip\<rparr>) else None) else snd (iread lrg rd jno st))"
proof -
  have e: "iu_error (iupdat lrg rd False now ino ip ta tm st) = iu_error st" using assms(3) by (simp add: iupdat_def Let_def)
  show ?thesis using assms(3) e iupdat_dev [where rd = rd, OF assms(1,3)] i_load_save [OF assms(2)]
    by (auto simp: iread_def Let_def)
qed

text \<open>The times a status shows: of the update just made, where the flags asked for one.\<close>

lemma stat1_fields:
  assumes "ilist_ok (fsLRG (uint dev)) (iu_dev st)" "rd (fsITOD (fsLRG (uint dev)) ino)" "stat1 dev rd False now ino ip True st = (st', r)"
  defines "dp \<equiv> iu_dev st (fsITOD (fsLRG (uint dev)) ino) ! fsITOO (fsLRG (uint dev)) ino"
  shows "\<exists>s. r = Some s \<and> st_mode s = i_mode ip \<and> st_size s = i_size ip
    \<and> st_atime s = (if IACC \<in> iu_flag st then now else di_atime dp) \<and> st_mtime s = (if IUPD \<in> iu_flag st then now else di_mtime dp)
    \<and> st_ctime s = (if ICHG \<in> iu_flag st then now else di_ctime dp)"
  using assms(3) iupdat_dev [where rd = rd and jno = ino, OF assms(1,2)] assms(2)
  by (auto simp: stat1_def Let_def dp_def i_save_def split: if_splits)

section \<open>Sample runs\<close>

definition demo_ilist :: "int \<Rightarrow> dinode list" where
  "demo_ilist _ = replicate 8 \<lparr>di_mode = 0, di_nlink = 0, di_uid = 0, di_gid = 0, di_size = 0, di_addr = replicate 40 0,
     di_atime = 1, di_mtime = 1, di_ctime = 1\<rparr>"

definition demo_iu :: iustate where
  "demo_iu = \<lparr>iu_flag = {IUPD}, iu_error = None, iu_dev = demo_ilist, iu_warn = 0, iu_writes = []\<rparr>"

definition demo_ip :: inode where
  "demo_ip = \<lparr>i_mode = 0x81A4, i_nlink = 1, i_uid = 3, i_gid = 4, i_size = 700, i_addr = [0x12345, 77] @ replicate 11 0\<rparr>"

lemma demo_ilist_ok: "ilist_ok False (iu_dev demo_iu)"
  by (simp add: ilist_ok_def demo_iu_def demo_ilist_def fsINOPB_def)

lemma demo_ip_ok: "inode_ok demo_ip" by code_simp

theorem inode_types_witness:
  "\<exists>ip. iread False (\<lambda>_. True) 9 demo_iu = (demo_iu, Some ip) \<and> inode_ok ip"
proof -
  have "iread False (\<lambda>_. True) 9 demo_iu = (demo_iu, Some (i_load (demo_ilist 3 ! 0)))"
    by (simp add: iread_def demo_iu_def fsITOD_def fsITOO_def)
  with inode_types [OF demo_ilist_ok this] show ?thesis by blast
qed

theorem iread_iupdat_witness:
  "snd (iread False (\<lambda>_. True) 9 (iupdat False (\<lambda>_. True) False 50 9 demo_ip 50 50 demo_iu)) = Some demo_ip"
  using iread_iupdat [OF demo_ilist_ok disk_ok_inode [OF demo_ip_ok], of "\<lambda>_. True" 9 9]
  by (simp add: demo_iu_def kept_addrs_def demo_ip_def)

end
