(* ===== verification/Inode_Cache.thy ===== *)
theory Inode_Cache
  imports Inode_Disk
begin

text \<open>
  The inode table (\<^verbatim>\<open>iget\<close>, \<^verbatim>\<open>iput\<close>, \<^verbatim>\<open>iflush\<close>, \<^verbatim>\<open>icheck\<close> and \<^verbatim>\<open>inoinit\<close> of \<^verbatim>\<open>sys/os/iget.c\<close>, \<^verbatim>\<open>plock\<close> and
  \<^verbatim>\<open>prele\<close> of \<^verbatim>\<open>sys/os/pipe.c\<close>) with its hash chains, free list and reference counts, and what mounting
  does to it (\<^verbatim>\<open>smount\<close> and \<^verbatim>\<open>sumount\<close> of \<^verbatim>\<open>sys/os/sys3.c\<close>). An operation runs up to its next \<^verbatim>\<open>sleep\<close>.
  While \<^verbatim>\<open>iget\<close> reads the inode it holds its lock; what other processes do meanwhile are steps of their own.
\<close>

section \<open>State\<close>

record islot =
  sl_flag :: "iflag set"
  sl_count :: nat
  sl_dev :: u16
  sl_number :: u16
  sl_mount :: nat
  sl_lastr :: int
  sl_ino :: inode

datatype mflag = MFREE | MINUSE | MINTER

record mnt =
  m_flags :: mflag
  m_dev :: u16
  m_inodp :: "nat option"
  m_mount :: "nat option"
  m_count :: int
  m_omnt :: "nat option"

text \<open>
  What leaves the table: blocks of a truncated file, freed inodes. A chain or list is the sequence of
  its slots; a slot whose links point to itself is in no chain.
\<close>

datatype ilog = LTrunc u16 u16 "u32 list" | LFree u16 u16

record icst =
  tab :: "nat \<Rightarrow> islot"
  hino :: "nat \<Rightarrow> nat list"
  ifreel :: "nat list"
  mnts :: "nat \<Rightarrow> mnt"
  ilist :: "u16 \<Rightarrow> int \<Rightarrow> dinode list"
  ic_error :: "errno option"
  ic_log :: "ilog list"
  ic_woken :: "nat list"

text \<open>What the table uses of the rest: which blocks can be read, read-only file systems, the time.\<close>

record icenv =
  e_rd :: "u16 \<Rightarrow> int \<Rightarrow> bool"
  e_ronly :: "nat \<Rightarrow> bool"
  e_time :: u32

definition sets :: "nat \<Rightarrow> (islot \<Rightarrow> islot) \<Rightarrow> icst \<Rightarrow> icst" where
  "sets i f st = st\<lparr>tab := (tab st)(i := f (tab st i))\<rparr>"

definition setm :: "nat \<Rightarrow> (mnt \<Rightarrow> mnt) \<Rightarrow> icst \<Rightarrow> icst" where
  "setm k f st = st\<lparr>mnts := (mnts st)(k := f (mnts st k))\<rparr>"

definition flg :: "icst \<Rightarrow> nat \<Rightarrow> iflag \<Rightarrow> bool" where
  "flg st i f \<longleftrightarrow> f \<in> sl_flag (tab st i)"

definition ihash :: "u16 \<Rightarrow> nat" where "ihash x = unat (x AND 127)"

abbreviation (input) ROOTINO :: u16 where "ROOTINO \<equiv> 2"

section \<open>Locks\<close>

definition prele :: "nat \<Rightarrow> icst \<Rightarrow> icst" where
  "prele i st =
     (if flg st i ILAND then st
      else let st1 = sets i (\<lambda>s. s\<lparr>sl_flag := sl_flag s - {ILOCK}\<rparr>) st in
        if flg st1 i IWANT then sets i (\<lambda>s. s\<lparr>sl_flag := sl_flag s - {IWANT}\<rparr>) (st1\<lparr>ic_woken := ic_woken st1 @ [i]\<rparr>)
        else st1)"

text \<open>The result tells whether the lock is held now; otherwise the process sleeps, and tries again.\<close>

definition plock :: "nat \<Rightarrow> icst \<Rightarrow> icst \<times> bool" where
  "plock i st =
     (if flg st i ILAND then (st, True)
      else if flg st i ILOCK then (sets i (\<lambda>s. s\<lparr>sl_flag := sl_flag s \<union> {IWANT}\<rparr>) st, False)
      else (sets i (\<lambda>s. s\<lparr>sl_flag := sl_flag s \<union> {ILOCK}\<rparr>) st, True))"

section \<open>Releasing an inode\<close>

definition upd_run :: "icenv \<Rightarrow> nat \<Rightarrow> icst \<Rightarrow> iustate" where
  "upd_run e i st =
     (let s = tab st i; d = sl_dev s in
      iupdat (fsLRG (uint d)) (e_rd e d) (e_ronly e (sl_mount s)) (e_time e) (sl_number s) (sl_ino s) (e_time e) (e_time e)
        \<lparr>iu_flag = sl_flag s, iu_error = ic_error st, iu_dev = ilist st d, iu_warn = 0, iu_writes = []\<rparr>)"

definition upd_slot :: "icenv \<Rightarrow> nat \<Rightarrow> icst \<Rightarrow> icst" where
  "upd_slot e i st =
     (let r = upd_run e i st in
      sets i (\<lambda>s. s\<lparr>sl_flag := iu_flag r\<rparr>) (st\<lparr>ic_error := iu_error r, ilist := (ilist st)(sl_dev (tab st i) := iu_dev r)\<rparr>))"

text \<open>\<^verbatim>\<open>itrunc\<close> and \<^verbatim>\<open>ifree\<close>, as far as the table goes.\<close>

definition trunc_slot :: "icenv \<Rightarrow> nat \<Rightarrow> icst \<Rightarrow> icst" where
  "trunc_slot e i st =
     (let s = tab st i; ip = sl_ino s in
      if i_mode ip AND IFMT \<notin> {0x8000, 0x4000, 0xA000} then st
      else let st1 = sets i (\<lambda>s. s\<lparr>sl_ino := ip\<lparr>i_size := 0, i_addr := replicate NADDR 0\<rparr>,
                                  sl_flag := sl_flag s \<union> {ISYN, ICHG, IUPD}\<rparr>) st;
               st2 = upd_slot e i st1 in
        st2\<lparr>ic_log := ic_log st2 @ [LTrunc (sl_dev s) (sl_number s) (i_addr ip)]\<rparr>)"

definition free_slot :: "icenv \<Rightarrow> nat \<Rightarrow> icst \<Rightarrow> icst" where
  "free_slot e i st =
     (let s = tab st i; ip = sl_ino s in
      if i_mode ip = 0 then st
      else let st2 = upd_slot e i (sets i (\<lambda>s. s\<lparr>sl_ino := ip\<lparr>i_mode := 0\<rparr>\<rparr>) st) in
        st2\<lparr>ic_log := ic_log st2 @ [LFree (sl_dev s) (sl_number s)]\<rparr>)"

definition iput_last :: "icenv \<Rightarrow> nat \<Rightarrow> icst \<Rightarrow> icst" where
  "iput_last e i st =
     (let st1 = (if sint (i_nlink (sl_ino (tab st i))) \<le> 0
                 then free_slot e i (sets i (\<lambda>s. s\<lparr>sl_flag := sl_flag s \<union> {IUPD, ICHG}\<rparr>) (trunc_slot e i st)) else st);
          st2 = (if sl_flag (tab st1 i) \<inter> {IACC, IUPD, ICHG} \<noteq> {} then upd_slot e i st1 else st1) in
      setm (sl_mount (tab st2 i)) (\<lambda>m. m\<lparr>m_count := m_count m - 1\<rparr>) (st2\<lparr>ifreel := ifreel st2 @ [i]\<rparr>))"

text \<open>\<open>None\<close> is the panic for a negative count of the file system.\<close>

definition iput :: "icenv \<Rightarrow> nat \<Rightarrow> icst \<Rightarrow> icst option" where
  "iput e i st =
     (let st1 = (if sl_count (tab st i) = 1 then iput_last e i st else st) in
      if sl_count (tab st i) = 1 \<and> m_count (mnts st1 (sl_mount (tab st1 i))) < 0 then None
      else Some (prele i (sets i (\<lambda>s. s\<lparr>sl_count := sl_count s - 1\<rparr>) st1)))"

section \<open>Getting an inode\<close>

datatype iget_res =
    IGot nat
  | IReading nat \<comment> \<open>the slot is taken and locked; the disk is read next\<close>
  | ISleep nat nat u16 u16 \<comment> \<open>on a slot; then again from this mount, device and number\<close>
  | INone
  | IPanic

definition unhash :: "nat \<Rightarrow> icst \<Rightarrow> icst" where
  "unhash i st = st\<lparr>hino := (\<lambda>h. remove1 i (hino st h))\<rparr>"

definition take_slot :: "nat \<Rightarrow> u16 \<Rightarrow> u16 \<Rightarrow> nat \<Rightarrow> icst \<Rightarrow> icst" where
  "take_slot mp dev ino i st =
     (let st1 = setm mp (\<lambda>m. m\<lparr>m_count := m_count m + 1\<rparr>) (st\<lparr>ifreel := remove1 i (ifreel st)\<rparr>);
          st2 = unhash i st1;
          st3 = st2\<lparr>hino := (hino st2)(ihash ino := i # hino st2 (ihash ino))\<rparr> in
      sets i (\<lambda>s. s\<lparr>sl_mount := mp, sl_flag := {ILOCK}, sl_dev := dev, sl_number := ino, sl_count := 1, sl_lastr := 0\<rparr>) st3)"

definition found_slot :: "nat \<Rightarrow> nat \<Rightarrow> icst \<Rightarrow> icst" where
  "found_slot mp i st =
     (let st1 = (if sl_count (tab st i) = 0
                 then setm mp (\<lambda>m. m\<lparr>m_count := m_count m + 1\<rparr>) (st\<lparr>ifreel := remove1 i (ifreel st)\<rparr>) else st) in
      sets i (\<lambda>s. s\<lparr>sl_count := sl_count s + 1, sl_flag := sl_flag s \<union> {ILOCK}\<rparr>) st1)"

text \<open>
  The loop of \<^verbatim>\<open>iget\<close>, from the slot \<open>start\<close> when there is one (the label \<^verbatim>\<open>found\<close>), else from the search of
  the chain (\<^verbatim>\<open>loop\<close>). It goes round once per mounted file system on the way.
\<close>

partial_function (option) iget_at :: "nat \<Rightarrow> u16 \<Rightarrow> u16 \<Rightarrow> nat option \<Rightarrow> icst \<Rightarrow> (icst \<times> iget_res) option" where
  "iget_at mp dev ino start st =
     (case (if start = None then find (\<lambda>i. sl_number (tab st i) = ino \<and> sl_dev (tab st i) = dev) (hino st (ihash ino)) else start) of
        None \<Rightarrow>
          (case find (\<lambda>i. \<not> flg st i ILOCK) (ifreel st) of
             None \<Rightarrow> Some (st\<lparr>ic_error := Some ENFILE\<rparr>, INone)
           | Some i \<Rightarrow> Some (take_slot mp dev ino i st, IReading i))
      | Some i \<Rightarrow>
          if flg st i ILAND then Some (sets i (\<lambda>s. s\<lparr>sl_count := sl_count s + 1\<rparr>) st, IGot i)
          else if flg st i ILOCK then Some (sets i (\<lambda>s. s\<lparr>sl_flag := sl_flag s \<union> {IWANT}\<rparr>) st, ISleep i mp dev ino)
          else if flg st i IMOUNT then
            (let k = sl_mount (tab st i); m = mnts st k in
             if m_inodp m = Some i then iget_at k (m_dev m) ROOTINO (m_mount m) st else Some (st, IPanic))
          else Some (found_slot mp i st, IGot i))"

declare iget_at.simps [code]

definition iget :: "nat \<Rightarrow> u16 \<Rightarrow> icst \<Rightarrow> (icst \<times> iget_res) option" where
  "iget mp ino st =
     (case m_inodp (mnts st mp) of
        Some l \<Rightarrow> if flg st l ILAND then Some (sets l (\<lambda>s. s\<lparr>sl_count := sl_count s + 1\<rparr>) st, IGot l)
                  else iget_at mp (m_dev (mnts st mp)) ino None st
      | None \<Rightarrow> iget_at mp (m_dev (mnts st mp)) ino None st)"

text \<open>The end of \<^verbatim>\<open>iget\<close> for a slot just taken: \<^verbatim>\<open>iread\<close>.\<close>

definition iread_slot :: "icenv \<Rightarrow> nat \<Rightarrow> icst \<Rightarrow> (icst \<times> iget_res) option" where
  "iread_slot e i st =
     (let s = tab st i; d = sl_dev s;
          (r, ip) = iread (fsLRG (uint d)) (e_rd e d) (sl_number s)
             \<lparr>iu_flag = sl_flag s, iu_error = ic_error st, iu_dev = ilist st d, iu_warn = 0, iu_writes = []\<rparr>;
          st1 = st\<lparr>ic_error := iu_error r\<rparr> in
      case ip of
        None \<Rightarrow> map_option (\<lambda>st2. (st2, INone)) (iput e i st1)
      | Some x \<Rightarrow> Some (sets i (\<lambda>s. s\<lparr>sl_ino := x\<rparr>) st1, IGot i))"

section \<open>Flushing, checking, starting\<close>

text \<open>The slots from \<open>i\<close>, \<open>n\<close> of them; a slot that is locked is waited for.\<close>

datatype iflush_res = FlushOk | FlushBusy | FlushWait nat

fun iflush_from :: "u16 \<Rightarrow> nat \<Rightarrow> nat \<Rightarrow> icst \<Rightarrow> icst \<times> iflush_res" where
  "iflush_from dev i 0 st = (st, FlushOk)"
| "iflush_from dev i (Suc n) st =
     (if sl_dev (tab st i) \<noteq> dev then iflush_from dev (Suc i) n st
      else if sl_count (tab st i) \<noteq> 0 then (st, FlushBusy)
      else case plock i st of
          (st1, False) \<Rightarrow> (st1, FlushWait i)
        | (st1, True) \<Rightarrow> iflush_from dev (Suc i) n (prele i (unhash i st1)))"

definition iflush :: "nat \<Rightarrow> u16 \<Rightarrow> icst \<Rightarrow> icst \<times> iflush_res" where
  "iflush n dev st = iflush_from dev 0 n st"

fun icheck_from :: "u16 \<Rightarrow> nat \<Rightarrow> nat \<Rightarrow> nat \<Rightarrow> icst \<Rightarrow> int" where
  "icheck_from dev i 0 flag st = 0"
| "icheck_from dev i (Suc n) flag st =
     (if sl_dev (tab st i) = dev \<and> sl_count (tab st i) \<noteq> 0 then
        let flag1 = flag + sl_count (tab st i) in if flag1 > 1 then -1 else icheck_from dev (Suc i) n flag1 st
      else icheck_from dev (Suc i) n flag st)"

definition icheck :: "nat \<Rightarrow> u16 \<Rightarrow> icst \<Rightarrow> int" where
  "icheck n dev st = icheck_from dev 0 n 0 st"

definition inoinit :: "nat \<Rightarrow> icst \<Rightarrow> icst" where
  "inoinit n st = fold (\<lambda>i st. st\<lparr>ifreel := i # ifreel st\<rparr>) [0..<n] (st\<lparr>ifreel := [], hino := (\<lambda>_. [])\<rparr>)"

section \<open>Mounting\<close>

text \<open>
  \<^verbatim>\<open>smount\<close>: a free entry is taken, and, when the root inode \<open>r\<close> of the file system has been got, entered over the
  directory \<open>i\<close>. The code sets the count to 1, for the root.
\<close>

definition mount_take :: "nat \<Rightarrow> u16 \<Rightarrow> icst \<Rightarrow> icst" where
  "mount_take k dev = setm k (\<lambda>m. m\<lparr>m_flags := MINTER, m_dev := dev\<rparr>)"

definition mount_enter :: "nat \<Rightarrow> nat \<Rightarrow> nat \<Rightarrow> icst \<Rightarrow> icst" where
  "mount_enter k i r st =
     (let st1 = prele r (setm k (\<lambda>m. m\<lparr>m_mount := Some r\<rparr>) st);
          st2 = setm k (\<lambda>m. m\<lparr>m_inodp := Some i, m_flags := MINUSE, m_count := 1, m_omnt := Some (sl_mount (tab st1 i))\<rparr>) st1 in
      prele i (sets i (\<lambda>s. s\<lparr>sl_flag := sl_flag s \<union> {IMOUNT}, sl_mount := k\<rparr>) st2))"

text \<open>
  \<^verbatim>\<open>sumount\<close>: the root is released, once its lock is got; the file system must not be in use then. After that
  the directory is as it was before, and its reference is released (\<^verbatim>\<open>plock\<close>, \<^verbatim>\<open>iput\<close>) before the entry is free.
\<close>

datatype umount_res = UmDone nat | UmBusy | UmWait nat | UmPanic

definition umount_root :: "icenv \<Rightarrow> nat \<Rightarrow> icst \<Rightarrow> icst \<times> umount_res option" where
  "umount_root e k st =
     (case m_mount (mnts st k) of
        None \<Rightarrow> (st, None)
      | Some r \<Rightarrow>
          (case plock r st of
             (st1, False) \<Rightarrow> (st1, Some (UmWait r))
           | (st1, True) \<Rightarrow>
               (case iput e r st1 of
                  None \<Rightarrow> (st1, Some UmPanic)
                | Some st2 \<Rightarrow> ((setm k (\<lambda>m. m\<lparr>m_mount := None\<rparr>) st2)\<lparr>ic_error := None\<rparr>, None))))"

definition umount :: "icenv \<Rightarrow> nat \<Rightarrow> nat \<Rightarrow> icst \<Rightarrow> icst \<times> umount_res" where
  "umount e n k st =
     (case umount_root e k st of
        (st1, Some r) \<Rightarrow> (st1, r)
      | (st1, None) \<Rightarrow>
          (case iflush n (m_dev (mnts st1 k)) st1 of
             (st2, FlushBusy) \<Rightarrow> (st2\<lparr>ic_error := Some EBUSY\<rparr>, UmBusy)
           | (st2, FlushWait i) \<Rightarrow> (st2, UmWait i)
           | (st2, FlushOk) \<Rightarrow>
               (let i = the (m_inodp (mnts st2 k));
                    st3 = setm k (\<lambda>m. m\<lparr>m_flags := MINTER\<rparr>) st2;
                    st4 = sets i (\<lambda>s. s\<lparr>sl_flag := sl_flag s - {IMOUNT}, sl_mount := the (m_omnt (mnts st3 k))\<rparr>) st3 in
                (setm k (\<lambda>m. m\<lparr>m_omnt := None\<rparr>) st4, UmDone i))))"

definition mount_free :: "nat \<Rightarrow> icst \<Rightarrow> icst" where
  "mount_free k = setm k (\<lambda>m. m\<lparr>m_flags := MFREE\<rparr>)"

section \<open>The invariant\<close>

definition cnt :: "icst \<Rightarrow> nat \<Rightarrow> nat" where "cnt st i = sl_count (tab st i)"
definition key :: "icst \<Rightarrow> nat \<Rightarrow> u16 \<times> u16" where "key st i = (sl_dev (tab st i), sl_number (tab st i))"
definition used :: "icst \<Rightarrow> nat \<Rightarrow> bool" where "used st k \<longleftrightarrow> m_flags (mnts st k) \<noteq> MFREE"
definition hashed :: "icst \<Rightarrow> nat \<Rightarrow> bool" where "hashed st i \<longleftrightarrow> i \<in> set (hino st (ihash (snd (key st i))))"

text \<open>The file system that counts a slot: a mounted-on inode belongs to the one it was found in.\<close>

definition home :: "icst \<Rightarrow> nat \<Rightarrow> nat" where
  "home st i = (if flg st i IMOUNT then the (m_omnt (mnts st (sl_mount (tab st i)))) else sl_mount (tab st i))"

definition active_in :: "nat \<Rightarrow> icst \<Rightarrow> nat \<Rightarrow> nat set" where
  "active_in n st k = {i. i < n \<and> 0 < cnt st i \<and> home st i = k}"

text \<open>The slots: lists, chains and keys.\<close>

definition slots_ok :: "nat \<Rightarrow> icst \<Rightarrow> bool" where
  "slots_ok n st \<longleftrightarrow> distinct (ifreel st) \<and> set (ifreel st) = {i. i < n \<and> cnt st i = 0} \<and>
     (\<forall>h. distinct (hino st h) \<and> (\<forall>i\<in>set (hino st h). i < n \<and> ihash (snd (key st i)) = h)) \<and>
     (\<forall>i<n. 0 < cnt st i \<longrightarrow> hashed st i) \<and>
     (\<forall>i j. hashed st i \<longrightarrow> hashed st j \<longrightarrow> key st i = key st j \<longrightarrow> i = j) \<and>
     (\<forall>i. \<not> flg st i ILAND \<and> (cnt st i = 0 \<longrightarrow> \<not> flg st i ILOCK))"

text \<open>The mounts: devices, counts, mounted-on inodes and roots (but for the entries \<open>X\<close>).\<close>

definition mounts_ok :: "nat \<Rightarrow> nat set \<Rightarrow> icst \<Rightarrow> bool" where
  "mounts_ok n X st \<longleftrightarrow>
     (\<forall>i. hashed st i \<longrightarrow> used st (home st i) \<and> m_dev (mnts st (home st i)) = fst (key st i)) \<and>
     (\<forall>k l. used st k \<longrightarrow> used st l \<longrightarrow> m_dev (mnts st k) = m_dev (mnts st l) \<longrightarrow> k = l) \<and>
     (\<forall>k. m_count (mnts st k) = int (card (active_in n st k))) \<and>
     (\<forall>i. flg st i IMOUNT \<longrightarrow> i < n \<and> 0 < cnt st i \<and> snd (key st i) \<noteq> ROOTINO \<and> m_omnt (mnts st (sl_mount (tab st i))) \<noteq> None \<and>
        m_inodp (mnts st (sl_mount (tab st i))) = Some i \<and> m_flags (mnts st (sl_mount (tab st i))) = MINUSE) \<and>
     (\<forall>k i. m_flags (mnts st k) = MINUSE \<longrightarrow> m_inodp (mnts st k) = Some i \<longrightarrow> flg st i IMOUNT \<and> sl_mount (tab st i) = k) \<and>
     (\<forall>k r. k \<notin> X \<longrightarrow> m_mount (mnts st k) = Some r \<longrightarrow>
        m_flags (mnts st k) = MINUSE \<and> r < n \<and> 0 < cnt st r \<and> key st r = (m_dev (mnts st k), ROOTINO))"

lemma slots_okD:
  assumes "slots_ok n st"
  shows "distinct (ifreel st)" "set (ifreel st) = {i. i < n \<and> cnt st i = 0}" "distinct (hino st h)"
    "i \<in> set (hino st h) \<Longrightarrow> i < n \<and> ihash (snd (key st i)) = h" "i < n \<Longrightarrow> 0 < cnt st i \<Longrightarrow> hashed st i"
    "hashed st i \<Longrightarrow> hashed st j \<Longrightarrow> key st i = key st j \<Longrightarrow> i = j" "\<not> flg st i ILAND" "cnt st i = 0 \<Longrightarrow> \<not> flg st i ILOCK"
  using assms unfolding slots_ok_def by blast+

lemma mounts_okD:
  assumes "mounts_ok n X st"
  shows "hashed st i \<Longrightarrow> used st (home st i) \<and> m_dev (mnts st (home st i)) = fst (key st i)"
    "used st k \<Longrightarrow> used st l \<Longrightarrow> m_dev (mnts st k) = m_dev (mnts st l) \<Longrightarrow> k = l"
    "m_count (mnts st k) = int (card (active_in n st k))"
    "flg st i IMOUNT \<Longrightarrow> i < n \<and> 0 < cnt st i \<and> snd (key st i) \<noteq> ROOTINO \<and> m_omnt (mnts st (sl_mount (tab st i))) \<noteq> None \<and>
        m_inodp (mnts st (sl_mount (tab st i))) = Some i \<and> m_flags (mnts st (sl_mount (tab st i))) = MINUSE"
    "m_flags (mnts st k) = MINUSE \<Longrightarrow> m_inodp (mnts st k) = Some i \<Longrightarrow> flg st i IMOUNT \<and> sl_mount (tab st i) = k"
    "k \<notin> X \<Longrightarrow> m_mount (mnts st k) = Some r \<Longrightarrow>
        m_flags (mnts st k) = MINUSE \<and> r < n \<and> 0 < cnt st r \<and> key st r = (m_dev (mnts st k), ROOTINO)"
  using assms unfolding mounts_ok_def by blast+

text \<open>Slots, chains and mounts that look the same; only flags other than \<^verbatim>\<open>IMOUNT\<close> and the contents differ.\<close>

definition same_view :: "icst \<Rightarrow> icst \<Rightarrow> bool" where
  "same_view st st' \<longleftrightarrow> hino st' = hino st \<and> ifreel st' = ifreel st \<and> mnts st' = mnts st \<and>
     (\<forall>i. cnt st' i = cnt st i \<and> key st' i = key st i \<and> sl_mount (tab st' i) = sl_mount (tab st i) \<and> flg st' i IMOUNT = flg st i IMOUNT)"

lemma same_view_refl [simp]: "same_view st st" by (simp add: same_view_def)

lemma same_view_trans: "same_view st st1 \<Longrightarrow> same_view st1 st2 \<Longrightarrow> same_view st st2" by (simp add: same_view_def)

lemma same_view_home: "same_view st st' \<Longrightarrow> home st' = home st \<and> hashed st' = hashed st \<and> used st' = used st \<and> active_in n st' = active_in n st"
  by (auto simp: same_view_def home_def hashed_def used_def active_in_def fun_eq_iff)

lemma same_view_ok:
  assumes "same_view st st'"
  shows "mounts_ok n X st' = mounts_ok n X st"
    and "\<forall>i. \<not> flg st' i ILAND \<and> (cnt st i = 0 \<longrightarrow> \<not> flg st' i ILOCK) \<Longrightarrow> slots_ok n st \<Longrightarrow> slots_ok n st'"
proof -
  note h = same_view_home [OF assms, of n, THEN conjunct1] same_view_home [OF assms, of n, THEN conjunct2, THEN conjunct1]
    same_view_home [OF assms, of n, THEN conjunct2, THEN conjunct2, THEN conjunct1]
    same_view_home [OF assms, of n, THEN conjunct2, THEN conjunct2, THEN conjunct2]
  show "mounts_ok n X st' = mounts_ok n X st" unfolding mounts_ok_def h using assms by (simp add: same_view_def)
  show "\<forall>i. \<not> flg st' i ILAND \<and> (cnt st i = 0 \<longrightarrow> \<not> flg st' i ILOCK) \<Longrightarrow> slots_ok n st \<Longrightarrow> slots_ok n st'"
    unfolding slots_ok_def h using assms by (simp add: same_view_def)
qed

text \<open>What an operation on the locked slot \<open>i\<close> may do to it.\<close>

definition works_on :: "nat \<Rightarrow> icst \<Rightarrow> icst \<Rightarrow> bool" where
  "works_on i st st' \<longleftrightarrow> same_view st st' \<and> (\<forall>j. j \<noteq> i \<longrightarrow> tab st' j = tab st j) \<and>
     (\<forall>f\<in>{ILOCK, IWANT, ILAND, ITEXT, ISEL}. flg st' i f = flg st i f) \<and> ic_woken st' = ic_woken st"

lemma works_on_refl [simp]: "works_on i st st" by (simp add: works_on_def)

lemma works_on_trans: "works_on i st st1 \<Longrightarrow> works_on i st1 st2 \<Longrightarrow> works_on i st st2"
  by (auto simp: works_on_def intro: same_view_trans)

lemma works_on_sets:
  assumes "\<And>s. sl_count (f s) = sl_count s \<and> sl_dev (f s) = sl_dev s \<and> sl_number (f s) = sl_number s \<and> sl_mount (f s) = sl_mount s"
    "\<And>s x. x \<in> {ILOCK, IWANT, ILAND, ITEXT, ISEL, IMOUNT} \<Longrightarrow> x \<in> sl_flag (f s) \<longleftrightarrow> x \<in> sl_flag s"
  shows "works_on i st (sets i f st)"
  using assms by (auto simp: works_on_def same_view_def sets_def cnt_def key_def flg_def)

lemma iupdat_flags:
  "iu_flag (iupdat lrg rd ronly now ino ip ta tm st) \<subseteq> iu_flag st \<and>
   iu_flag st - {IACC, IUPD, ICHG, ISYN} \<subseteq> iu_flag (iupdat lrg rd ronly now ino ip ta tm st)"
  by (auto simp: iupdat_def Let_def)

lemma works_on_upd: "works_on i st (upd_slot e i st)"
proof -
  have "iu_flag (upd_run e i st) \<subseteq> sl_flag (tab st i)" "sl_flag (tab st i) - {IACC, IUPD, ICHG, ISYN} \<subseteq> iu_flag (upd_run e i st)"
    unfolding upd_run_def Let_def using iupdat_flags by (metis iustate.select_convs(1))+
  then show ?thesis by (auto simp: upd_slot_def Let_def works_on_def same_view_def sets_def cnt_def key_def flg_def)
qed

lemma works_on_trunc: "works_on i st (trunc_slot e i st)"
proof -
  have log: "works_on i a b \<Longrightarrow> works_on i a (b\<lparr>ic_log := x\<rparr>)" for a b x
    by (auto simp: works_on_def same_view_def cnt_def key_def flg_def)
  show ?thesis unfolding trunc_slot_def Let_def
    by (auto intro!: log works_on_trans [OF works_on_sets works_on_upd])
qed

lemma works_on_free: "works_on i st (free_slot e i st)"
proof -
  have log: "works_on i a b \<Longrightarrow> works_on i a (b\<lparr>ic_log := x\<rparr>)" for a b x
    by (auto simp: works_on_def same_view_def cnt_def key_def flg_def)
  show ?thesis unfolding free_slot_def Let_def
    by (auto intro!: log works_on_trans [OF works_on_sets works_on_upd])
qed

section \<open>Changing the count of a slot\<close>

text \<open>The count of slot \<open>i\<close> becomes \<open>c\<close>; the mount counts it while it is not zero.\<close>

definition recount :: "nat \<Rightarrow> nat \<Rightarrow> icst \<Rightarrow> icst \<Rightarrow> bool" where
  "recount i c st st' \<longleftrightarrow> hino st' = hino st \<and> (\<forall>j. j \<noteq> i \<longrightarrow> tab st' j = tab st j) \<and> key st' i = key st i \<and>
     sl_mount (tab st' i) = sl_mount (tab st i) \<and> flg st' i IMOUNT = flg st i IMOUNT \<and> cnt st' i = c \<and>
     (\<forall>k. mnts st' k = (mnts st k)\<lparr>m_count := m_count (mnts st k) +
        (if k = sl_mount (tab st i) then of_bool (0 < c) - of_bool (0 < cnt st i) else 0)\<rparr>)"

lemma recount_same:
  assumes "recount i c st st'"
  shows "key st' = key st" "home st' = home st" "hashed st' = hashed st" "used st' = used st"
    "\<And>j. flg st' j IMOUNT = flg st j IMOUNT" "\<And>j. sl_mount (tab st' j) = sl_mount (tab st j)" "cnt st' = (cnt st)(i := c)"
    "\<And>k. m_flags (mnts st' k) = m_flags (mnts st k)" "\<And>k. m_dev (mnts st' k) = m_dev (mnts st k)"
    "\<And>k. m_inodp (mnts st' k) = m_inodp (mnts st k)" "\<And>k. m_mount (mnts st' k) = m_mount (mnts st k)"
    "\<And>k. m_omnt (mnts st' k) = m_omnt (mnts st k)"
proof -
  note d = assms [unfolded recount_def]
  have same: "tab st' j = tab st j" if "j \<noteq> i" for j using d that by blast
  show k: "key st' = key st" using d same by (intro ext, rename_tac j, case_tac "j = i") (auto simp: key_def)
  show f: "flg st' j IMOUNT = flg st j IMOUNT" for j using d same by (cases "j = i") (auto simp: flg_def)
  show s: "sl_mount (tab st' j) = sl_mount (tab st j)" for j using d same by (cases "j = i") auto
  show m: "m_flags (mnts st' k) = m_flags (mnts st k)" "m_dev (mnts st' k) = m_dev (mnts st k)"
    "m_inodp (mnts st' k) = m_inodp (mnts st k)" "m_mount (mnts st' k) = m_mount (mnts st k)"
    "m_omnt (mnts st' k) = m_omnt (mnts st k)" for k using d by simp_all
  show "home st' = home st" by (rule ext) (simp add: home_def f s m)
  show "used st' = used st" by (rule ext) (simp add: used_def m)
  show "hashed st' = hashed st" using d by (intro ext) (simp add: hashed_def k)
  show "cnt st' = (cnt st)(i := c)" using d same by (intro ext, rename_tac j, case_tac "j = i") (auto simp: cnt_def)
qed

lemma slots_recount:
  assumes "slots_ok n st" "recount i c st st'" "i < n" "hashed st i"
    and "\<not> flg st' i ILAND" "c = 0 \<Longrightarrow> \<not> flg st' i ILOCK"
    and "distinct (ifreel st')" "set (ifreel st') = (if c = 0 then insert i (set (ifreel st)) else set (ifreel st) - {i})"
  shows "slots_ok n st'"
proof -
  note s = recount_same [OF assms(2)]
  have flags: "flg st' j f = flg st j f" if "j \<noteq> i" for j f using assms(2) that by (simp add: recount_def flg_def)
  have "\<forall>j. \<not> flg st' j ILAND \<and> (cnt st' j = 0 \<longrightarrow> \<not> flg st' j ILOCK)"
    using assms(1,5,6) flags unfolding slots_ok_def s by (metis fun_upd_apply)
  moreover have "set (ifreel st') = {j. j < n \<and> cnt st' j = 0}" "hino st' = hino st"
    using assms(1,2,3,8) unfolding slots_ok_def s by (auto simp: recount_def)
  ultimately show ?thesis using assms(1,4,7) unfolding slots_ok_def s by simp
qed

lemma active_in_recount:
  assumes "recount i c st st'" "i < n"
  shows "active_in n st' k = (if 0 < c \<and> home st i = k then insert i (active_in n st k) else active_in n st k - {i})"
  using assms(2) unfolding active_in_def recount_same [OF assms(1)] by auto

lemma mounts_recount:
  assumes "mounts_ok n X st" "recount i c st st'" "i < n"
    and "c = 0 \<Longrightarrow> \<not> flg st i IMOUNT \<and> (\<forall>k. k \<notin> X \<longrightarrow> m_mount (mnts st k) \<noteq> Some i)"
  shows "mounts_ok n X st'"
proof -
  note s = recount_same [OF assms(2)]
  have fin: "finite (active_in n st k)" for k by (simp add: active_in_def)
  have cnt0: "\<not> flg st i IMOUNT" if "cnt st i = 0" using assms(1) that unfolding mounts_ok_def by (metis less_not_refl)
  have "m_count (mnts st' k) = int (card (active_in n st' k))" for k
  proof -
    have m: "m_count (mnts st k) = int (card (active_in n st k))" using assms(1) by (simp add: mounts_ok_def)
    have mem: "i \<in> active_in n st k \<longleftrightarrow> 0 < cnt st i \<and> home st i = k" using assms(3) by (simp add: active_in_def)
    have h: "home st i = sl_mount (tab st i)" if "(0 < c) \<noteq> (0 < cnt st i)" using that cnt0 assms(4) by (auto simp: home_def)
    have c1: "card (active_in n st k - {i}) + 1 = card (active_in n st k)" if "i \<in> active_in n st k"
      using that fin by (metis Suc_eq_plus1 card_Suc_Diff1)
    have e: "m_count (mnts st' k) = m_count (mnts st k) + (if k = sl_mount (tab st i) then of_bool (0 < c) - of_bool (0 < cnt st i) else 0)"
      using assms(2) by (simp add: recount_def)
    show ?thesis
    proof (cases "(0 < c) = (0 < cnt st i)")
      case True
      then have "active_in n st' k = active_in n st k" unfolding active_in_recount [OF assms(2,3)] using mem by auto
      with True e m show ?thesis by simp
    next
      case False
      then show ?thesis unfolding active_in_recount [OF assms(2,3)] e m
        using h [OF False] mem c1 fin by (cases "0 < c"; cases "k = sl_mount (tab st i)") (auto simp: insert_absorb)
    qed
  qed
  moreover have "0 < cnt st' j" if "0 < cnt st j" "flg st j IMOUNT \<or> (\<exists>k. k \<notin> X \<and> m_mount (mnts st k) = Some j)" for j
    using that assms(4) by (auto simp: s)
  ultimately show ?thesis using assms(1) unfolding mounts_ok_def s(1-6,8-12) by (smt (verit, best))
qed

section \<open>Releasing an inode\<close>

lemma prele_view:
  assumes "\<not> flg st i ILAND"
  shows "hino (prele i st) = hino st" "ifreel (prele i st) = ifreel st" "mnts (prele i st) = mnts st"
    "\<And>j. cnt (prele i st) j = cnt st j" "\<And>j. key (prele i st) j = key st j" "\<And>j. sl_mount (tab (prele i st) j) = sl_mount (tab st j)"
    "\<And>j. j \<noteq> i \<Longrightarrow> tab (prele i st) j = tab st j" "sl_ino (tab (prele i st) i) = sl_ino (tab st i)"
    "\<And>f. flg (prele i st) i f \<longleftrightarrow> flg st i f \<and> f \<notin> {ILOCK, IWANT}"
  using assms by (auto simp: prele_def Let_def sets_def cnt_def key_def flg_def)

lemma iput_last_works:
  "\<exists>st1. works_on i st st1 \<and>
     iput_last e i st = setm (sl_mount (tab st i)) (\<lambda>m. m\<lparr>m_count := m_count m - 1\<rparr>) (st1\<lparr>ifreel := ifreel st @ [i]\<rparr>)"
proof -
  define st1 where "st1 = (if sint (i_nlink (sl_ino (tab st i))) \<le> 0
      then free_slot e i (sets i (\<lambda>s. s\<lparr>sl_flag := sl_flag s \<union> {IUPD, ICHG}\<rparr>) (trunc_slot e i st)) else st)"
  define st2 where "st2 = (if sl_flag (tab st1 i) \<inter> {IACC, IUPD, ICHG} \<noteq> {} then upd_slot e i st1 else st1)"
  have "works_on i a (sets i (\<lambda>s. s\<lparr>sl_flag := sl_flag s \<union> {IUPD, ICHG}\<rparr>) a)" for a by (rule works_on_sets) auto
  then have "works_on i st (free_slot e i (sets i (\<lambda>s. s\<lparr>sl_flag := sl_flag s \<union> {IUPD, ICHG}\<rparr>) (trunc_slot e i st)))"
    by (rule works_on_trans [OF works_on_trunc works_on_trans [OF _ works_on_free]])
  then have "works_on i st st1" by (simp add: st1_def)
  then have w: "works_on i st st2" using works_on_trans [OF _ works_on_upd] by (simp add: st2_def)
  then have "sl_mount (tab st2 i) = sl_mount (tab st i)" "ifreel st2 = ifreel st" by (simp_all add: works_on_def same_view_def)
  then have "iput_last e i st = setm (sl_mount (tab st i)) (\<lambda>m. m\<lparr>m_count := m_count m - 1\<rparr>) (st2\<lparr>ifreel := ifreel st @ [i]\<rparr>)"
    unfolding iput_last_def Let_def st1_def [symmetric] st2_def [symmetric] by simp
  with w show ?thesis by blast
qed

text \<open>What a release does: the count goes down; a slot without references is put at the end of the free list.\<close>

definition released :: "nat \<Rightarrow> icst \<Rightarrow> icst \<Rightarrow> bool" where
  "released i st st' \<longleftrightarrow> recount i (cnt st i - 1) st st' \<and> ifreel st' = ifreel st @ (if cnt st i = 1 then [i] else []) \<and>
     \<not> flg st' i ILOCK"

lemma works_on_tab: "works_on i st st1 \<Longrightarrow> hino st1 = hino st \<and> ifreel st1 = ifreel st \<and> mnts st1 = mnts st \<and> (\<forall>j. j \<noteq> i \<longrightarrow> tab st1 j = tab st j) \<and>
    sl_count (tab st1 i) = sl_count (tab st i) \<and> key st1 i = key st i \<and> sl_mount (tab st1 i) = sl_mount (tab st i) \<and>
    flg st1 i IMOUNT = flg st i IMOUNT \<and> flg st1 i ILAND = flg st i ILAND"
  by (auto simp: works_on_def same_view_def cnt_def)

lemma iput_works:
  assumes "0 < cnt st i" "\<not> flg st i ILAND" "cnt st i = 1 \<Longrightarrow> 0 < m_count (mnts st (sl_mount (tab st i)))"
  shows "\<exists>st'. iput e i st = Some st' \<and> released i st st' \<and> \<not> flg st' i ILAND"
proof -
  define st2 where "st2 = (if sl_count (tab st i) = 1 then iput_last e i st else st)"
  obtain st1 where w: "works_on i st st1"
    and last: "iput_last e i st = setm (sl_mount (tab st i)) (\<lambda>m. m\<lparr>m_count := m_count m - 1\<rparr>) (st1\<lparr>ifreel := ifreel st @ [i]\<rparr>)"
    using iput_last_works by blast
  note t = works_on_tab [OF w]
  have e2: "hino st2 = hino st" "ifreel st2 = ifreel st @ (if cnt st i = 1 then [i] else [])" "\<And>j. j \<noteq> i \<Longrightarrow> tab st2 j = tab st j"
    "sl_count (tab st2 i) = cnt st i" "key st2 i = key st i" "sl_mount (tab st2 i) = sl_mount (tab st i)"
    "flg st2 i IMOUNT = flg st i IMOUNT" "flg st2 i ILAND = flg st i ILAND"
    using t by (auto simp: st2_def last setm_def cnt_def key_def flg_def)
  have m2: "mnts st2 k = (mnts st k)\<lparr>m_count := m_count (mnts st k) - (if k = sl_mount (tab st i) \<and> cnt st i = 1 then 1 else 0)\<rparr>" for k
    using t by (auto simp: st2_def last setm_def cnt_def)
  define st3 where "st3 = sets i (\<lambda>s. s\<lparr>sl_count := sl_count s - 1\<rparr>) st2"
  have land: "\<not> flg st3 i ILAND" using e2(8) assms(2) by (simp add: st3_def sets_def flg_def)
  note p = prele_view [OF land]
  have "\<not> (sl_count (tab st i) = 1 \<and> m_count (mnts st2 (sl_mount (tab st2 i))) < 0)"
    using assms(3) by (auto simp: e2(6) m2 cnt_def)
  then have "iput e i st = Some (prele i st3)" unfolding iput_def Let_def st2_def [symmetric] st3_def by simp
  moreover have "recount i (cnt st i - 1) st (prele i st3)"
    using assms(1) e2 m2 by (auto simp: recount_def p) (auto simp: st3_def sets_def cnt_def key_def flg_def)
  moreover have "ifreel (prele i st3) = ifreel st2" by (simp add: p) (simp add: st3_def sets_def)
  ultimately show ?thesis using e2(2) land by (simp add: released_def p)
qed

lemma slots_released:
  assumes "slots_ok n st" "released i st st'" "i < n" "0 < cnt st i" "\<not> flg st' i ILAND"
  shows "slots_ok n st'"
proof -
  have r: "recount i (cnt st i - 1) st st'" "ifreel st' = ifreel st @ (if cnt st i = 1 then [i] else [])" "\<not> flg st' i ILOCK"
    using assms(2) by (simp_all add: released_def)
  have "distinct (ifreel st)" "set (ifreel st) = {j. j < n \<and> cnt st j = 0}" "hashed st i" using assms(1,3,4) by (simp_all add: slots_ok_def)
  then show ?thesis using r(2,3) assms(3-5) by (intro slots_recount [OF assms(1) r(1)]) auto
qed

text \<open>A slot nobody else pins can lose its last reference.\<close>

definition droppable :: "nat set \<Rightarrow> nat \<Rightarrow> icst \<Rightarrow> bool" where
  "droppable X i st \<longleftrightarrow> 0 < cnt st i \<and> (cnt st i = 1 \<longrightarrow> \<not> flg st i IMOUNT \<and> (\<forall>k. k \<notin> X \<longrightarrow> m_mount (mnts st k) \<noteq> Some i))"

lemma iput_ok:
  assumes "slots_ok n st" "mounts_ok n X st" "i < n" "droppable X i st"
  shows "\<exists>st'. iput e i st = Some st' \<and> released i st st' \<and> slots_ok n st' \<and> mounts_ok n X st'"
proof -
  have d: "0 < cnt st i" "cnt st i = 1 \<Longrightarrow> \<not> flg st i IMOUNT \<and> (\<forall>k. k \<notin> X \<longrightarrow> m_mount (mnts st k) \<noteq> Some i)"
    using assms(4) by (auto simp: droppable_def)
  have land: "\<not> flg st i ILAND" using assms(1) by (simp add: slots_ok_def)
  have "0 < m_count (mnts st (sl_mount (tab st i)))" if "cnt st i = 1"
  proof -
    have "i \<in> active_in n st (sl_mount (tab st i))" using d that assms(3) by (auto simp: active_in_def home_def)
    moreover have "finite (active_in n st (sl_mount (tab st i)))" by (simp add: active_in_def)
    ultimately have "0 < card (active_in n st (sl_mount (tab st i)))" by (auto simp: card_gt_0_iff)
    then show ?thesis using assms(2) by (simp add: mounts_ok_def)
  qed
  from iput_works [OF d(1) land this] obtain st' where st': "iput e i st = Some st'" "released i st st'" "\<not> flg st' i ILAND" by blast
  have "mounts_ok n X st'"
    using st'(2) d by (intro mounts_recount [OF assms(2) _ assms(3), of "cnt st i - 1"]) (auto simp: released_def)
  with st' slots_released [OF assms(1) st'(2) assms(3) d(1) st'(3)] show ?thesis by blast
qed

section \<open>Locking and getting\<close>

definition ic_inv :: "nat \<Rightarrow> icst \<Rightarrow> bool" where "ic_inv n st \<longleftrightarrow> slots_ok n st \<and> mounts_ok n {} st"

lemma inv_view:
  assumes "ic_inv n st" "same_view st st'" "\<forall>i. \<not> flg st' i ILAND \<and> (cnt st i = 0 \<longrightarrow> \<not> flg st' i ILOCK)"
  shows "ic_inv n st'"
  using same_view_ok [OF assms(2), of n] assms unfolding ic_inv_def by blast

lemma inv_land: "ic_inv n st \<Longrightarrow> \<not> flg st i ILAND"
  by (simp add: ic_inv_def slots_ok_def)

lemma inv_idle: "ic_inv n st \<Longrightarrow> cnt st i = 0 \<Longrightarrow> \<not> flg st i ILOCK"
  by (simp add: ic_inv_def slots_ok_def)

lemma prele_inv:
  assumes "ic_inv n st"
  shows "ic_inv n (prele i st)"
proof -
  note p = prele_view [OF inv_land [OF assms]]
  have "flg (prele i st) j f \<longrightarrow> flg st j f" for j f using p(7,9) by (cases "j = i") (auto simp: flg_def)
  moreover have "flg (prele i st) j IMOUNT = flg st j IMOUNT" for j using p(7,9) by (cases "j = i") (auto simp: flg_def)
  ultimately show ?thesis
    using inv_land [OF assms] inv_idle [OF assms] by (intro inv_view [OF assms]) (simp add: same_view_def p(1-6), blast)
qed

lemma setflag_inv:
  assumes "ic_inv n st" "f \<noteq> IMOUNT" "f \<noteq> ILAND" "f = ILOCK \<longrightarrow> 0 < cnt st i"
  shows "ic_inv n (sets i (\<lambda>s. s\<lparr>sl_flag := sl_flag s \<union> {f}\<rparr>) st)"
  using inv_land [OF assms(1)] inv_idle [OF assms(1)] assms(2-4)
  by (intro inv_view [OF assms(1)]) (auto simp: same_view_def sets_def cnt_def key_def flg_def)

lemma plock_inv: "ic_inv n st \<Longrightarrow> 0 < cnt st i \<Longrightarrow> ic_inv n (fst (plock i st))"
  using setflag_inv [of n st IWANT i] setflag_inv [of n st ILOCK i] by (simp add: plock_def)

lemma found_slot_recount:
  assumes "cnt st i = 0 \<Longrightarrow> mp = sl_mount (tab st i)"
  shows "recount i (cnt st i + 1) st (found_slot mp i st)"
  using assms by (cases "cnt st i = 0") (auto simp: recount_def found_slot_def Let_def sets_def setm_def key_def flg_def cnt_def)

lemma found_slot_inv:
  assumes "ic_inv n st" "hashed st i" "i < n" "used st mp" "m_dev (mnts st mp) = fst (key st i)"
  shows "ic_inv n (found_slot mp i st)"
proof -
  have s: "slots_ok n st" and m: "mounts_ok n {} st" using assms(1) by (simp_all add: ic_inv_def)
  have mp: "mp = sl_mount (tab st i)" if "cnt st i = 0"
  proof -
    have "home st i = sl_mount (tab st i)" using m that unfolding mounts_ok_def home_def by (metis less_not_refl)
    moreover have "used st (home st i)" "m_dev (mnts st (home st i)) = fst (key st i)" using m assms(2) by (simp_all add: mounts_ok_def)
    ultimately show ?thesis using m assms(4,5) unfolding mounts_ok_def by metis
  qed
  note r = found_slot_recount [of st i, OF mp]
  have free: "ifreel (found_slot mp i st) = (if cnt st i = 0 then remove1 i (ifreel st) else ifreel st)"
    by (simp add: found_slot_def Let_def sets_def setm_def cnt_def)
  have fr: "distinct (ifreel st)" "set (ifreel st) = {j. j < n \<and> cnt st j = 0}" using s by (simp_all add: slots_ok_def)
  have "slots_ok n (found_slot mp i st)"
  proof (rule slots_recount [OF s r assms(3,2)])
    show "\<not> flg (found_slot mp i st) i ILAND" using inv_land [OF assms(1), of i]
      by (simp add: found_slot_def Let_def sets_def setm_def flg_def)
  qed (use fr in \<open>auto simp: free\<close>)
  moreover have "mounts_ok n {} (found_slot mp i st)" by (rule mounts_recount [OF m r assms(3)]) simp_all
  ultimately show ?thesis by (simp add: ic_inv_def)
qed

lemma found_slot_at:
  "sl_flag (tab (found_slot mp i st) i) = sl_flag (tab st i) \<union> {ILOCK}" "sl_ino (tab (found_slot mp i st) i) = sl_ino (tab st i)"
  by (simp_all add: found_slot_def Let_def sets_def setm_def)

text \<open>Taking a slot from the free list for a new inode.\<close>

lemma take_slot_at:
  fixes mp dev x i st
  defines "st' \<equiv> take_slot mp dev x i st"
  shows "\<And>j. j \<noteq> i \<Longrightarrow> tab st' j = tab st j" "key st' i = (dev, x)" "cnt st' i = 1" "sl_flag (tab st' i) = {ILOCK}"
    "sl_mount (tab st' i) = mp" "ifreel st' = remove1 i (ifreel st)" "sl_ino (tab st' i) = sl_ino (tab st i)"
    "\<And>h. hino st' h = (if h = ihash x then i # remove1 i (hino st h) else remove1 i (hino st h))"
    "\<And>k. mnts st' k = (mnts st k)\<lparr>m_count := m_count (mnts st k) + (if k = mp then 1 else 0)\<rparr>"
  by (simp_all add: st'_def take_slot_def Let_def sets_def setm_def unhash_def key_def cnt_def)

lemma take_slot_inv:
  assumes "ic_inv n st" "i \<in> set (ifreel st)" "used st mp" "\<And>j. hashed st j \<Longrightarrow> key st j \<noteq> (m_dev (mnts st mp), x)"
  shows "ic_inv n (take_slot mp (m_dev (mnts st mp)) x i st)"
proof -
  let ?st' = "take_slot mp (m_dev (mnts st mp)) x i st"
  have s: "slots_ok n st" and m: "mounts_ok n {} st" using assms(1) by (simp_all add: ic_inv_def)
  have i: "i < n" "cnt st i = 0" using s assms(2) by (auto simp: slots_ok_def)
  have ni: "\<not> flg st i IMOUNT" "\<And>k. m_mount (mnts st k) \<noteq> Some i" using m i(2) unfolding mounts_ok_def by (metis empty_iff less_not_refl)+
  have same: "tab ?st' j = tab st j" if "j \<noteq> i" for j using take_slot_at(1) that by blast
  have k: "key ?st' j = (if j = i then (m_dev (mnts st mp), x) else key st j)" for j using take_slot_at(2) same by (auto simp: key_def)
  have c: "cnt ?st' j = (if j = i then 1 else cnt st j)" for j using take_slot_at(3) same by (auto simp: cnt_def)
  have f: "flg ?st' j g = (if j = i then g = ILOCK else flg st j g)" for j g using take_slot_at(4) same by (auto simp: flg_def)
  have sm: "sl_mount (tab ?st' j) = (if j = i then mp else sl_mount (tab st j))" for j using take_slot_at(5) same by auto
  have mm: "m_flags (mnts ?st' k) = m_flags (mnts st k)" "m_dev (mnts ?st' k) = m_dev (mnts st k)" "m_inodp (mnts ?st' k) = m_inodp (mnts st k)"
    "m_mount (mnts ?st' k) = m_mount (mnts st k)" "m_omnt (mnts ?st' k) = m_omnt (mnts st k)"
    "m_count (mnts ?st' k) = m_count (mnts st k) + (if k = mp then 1 else 0)" for k by (simp_all add: take_slot_at(9))
  have u: "used ?st' = used st" by (rule ext) (simp add: used_def mm)
  have hm: "home ?st' j = (if j = i then mp else home st j)" for j by (simp add: home_def f sm mm)
  have chain: "distinct (hino st h)" "j \<in> set (hino st h) \<Longrightarrow> j < n \<and> ihash (snd (key st j)) = h" for h j using s by (simp_all add: slots_ok_def)
  have hs: "hashed ?st' j \<longleftrightarrow> j = i \<or> hashed st j" for j
    using chain by (auto simp: hashed_def take_slot_at(8) k)
  have "\<forall>h. distinct (hino ?st' h) \<and> (\<forall>j\<in>set (hino ?st' h). j < n \<and> ihash (snd (key ?st' j)) = h)"
    using chain i(1) by (auto simp: take_slot_at(8) k)
  moreover have "\<forall>j. hashed st j \<longrightarrow> key st j \<noteq> (m_dev (mnts st mp), x)" using assms(4) by blast
  ultimately have "slots_ok n ?st'" using s i unfolding slots_ok_def hs k c f take_slot_at(6) by auto
  moreover have "m_count (mnts ?st' k) = int (card (active_in n ?st' k))" for k
  proof -
    have "active_in n ?st' k = (if k = mp then insert i (active_in n st k) else active_in n st k)"
      using i by (auto simp: active_in_def c hm)
    moreover have "finite (active_in n st k)" "i \<notin> active_in n st k" using i(2) by (simp_all add: active_in_def)
    moreover have "m_count (mnts st k) = int (card (active_in n st k))" using m by (simp add: mounts_ok_def)
    ultimately show ?thesis by (cases "k = mp") (simp_all add: mm)
  qed
  then have "mounts_ok n {} ?st'" using m ni assms(3) i unfolding mounts_ok_def hs k c f sm mm(1-5) u hm by auto
  ultimately show ?thesis by (simp add: ic_inv_def)
qed

text \<open>Where a pair of file system and number leads: through a mounted-on inode to the root mounted there.\<close>

definition leads :: "icst \<Rightarrow> nat \<Rightarrow> u16 \<Rightarrow> nat \<Rightarrow> u16 \<Rightarrow> bool" where
  "leads st mp x mp' x' \<longleftrightarrow>
     (if \<exists>i. hashed st i \<and> key st i = (m_dev (mnts st mp), x) \<and> flg st i IMOUNT
      then \<exists>i. hashed st i \<and> key st i = (m_dev (mnts st mp), x) \<and> flg st i IMOUNT \<and> mp' = sl_mount (tab st i) \<and> x' = ROOTINO
      else mp' = mp \<and> x' = x)"

text \<open>What a call of \<^verbatim>\<open>iget\<close> comes to.\<close>

fun get_post :: "nat \<Rightarrow> icst \<Rightarrow> nat \<Rightarrow> u16 \<Rightarrow> icst \<times> iget_res \<Rightarrow> bool" where
  "get_post n st mp x (st', IGot i) \<longleftrightarrow> hashed st i \<and> key st i = (m_dev (mnts st mp), x) \<and> \<not> flg st i ILOCK \<and> \<not> flg st i IMOUNT \<and> st' = found_slot mp i st"
| "get_post n st mp x (st', IReading i) \<longleftrightarrow> (\<forall>j. hashed st j \<longrightarrow> key st j \<noteq> (m_dev (mnts st mp), x)) \<and> i \<in> set (ifreel st) \<and>
     st' = take_slot mp (m_dev (mnts st mp)) x i st"
| "get_post n st mp x (st', ISleep i mp' d x') \<longleftrightarrow> hashed st i \<and> flg st i ILOCK \<and> key st i = (d, x') \<and> used st mp' \<and> d = m_dev (mnts st mp') \<and>
     st' = sets i (\<lambda>s. s\<lparr>sl_flag := sl_flag s \<union> {IWANT}\<rparr>) st"
| "get_post n st mp x (st', INone) \<longleftrightarrow> (\<forall>j. hashed st j \<longrightarrow> key st j \<noteq> (m_dev (mnts st mp), x)) \<and> (\<forall>i<n. 0 < cnt st i) \<and> st' = st\<lparr>ic_error := Some ENFILE\<rparr>"
| "get_post n st mp x (st', IPanic) \<longleftrightarrow> False"

lemma chain_find:
  assumes "ic_inv n st"
  shows "(case find (\<lambda>i. sl_number (tab st i) = x \<and> sl_dev (tab st i) = d) (hino st (ihash x)) of
     None \<Rightarrow> \<forall>j. hashed st j \<longrightarrow> key st j \<noteq> (d, x) | Some i \<Rightarrow> hashed st i \<and> key st i = (d, x))"
proof (cases "find (\<lambda>i. sl_number (tab st i) = x \<and> sl_dev (tab st i) = d) (hino st (ihash x))")
  case None
  then have "\<forall>j. hashed st j \<longrightarrow> key st j \<noteq> (d, x)" by (auto simp: find_None_iff hashed_def key_def)
  with None show ?thesis by simp
next
  case (Some i)
  then show ?thesis using find_SomeD [OF Some] by (auto simp: hashed_def key_def)
qed

lemma hashed_less: "ic_inv n st \<Longrightarrow> hashed st i \<Longrightarrow> i < n"
  by (simp add: ic_inv_def slots_ok_def hashed_def)

lemma get_post_inv:
  assumes "ic_inv n st" "used st mp" "get_post n st mp x (st', r)"
  shows "ic_inv n st'"
proof (cases r)
  case (IGot i)
  with assms show ?thesis using found_slot_inv [OF assms(1)] hashed_less [OF assms(1)] by simp
next
  case (IReading i)
  with assms show ?thesis using take_slot_inv [OF assms(1)] by simp
next
  case (ISleep i mp' d x')
  with assms show ?thesis using setflag_inv [OF assms(1), of IWANT i] by simp
next
  case INone
  with assms show ?thesis using inv_land [OF assms(1)] inv_idle [OF assms(1)]
    by (intro inv_view [OF assms(1)]) (auto simp: same_view_def cnt_def key_def flg_def)
qed (use assms in simp)

lemma iget_at_plain:
  assumes "ic_inv n st" "used st mp" "start = Some i0 \<Longrightarrow> hashed st i0 \<and> key st i0 = (m_dev (mnts st mp), x)"
    and "\<And>i. hashed st i \<Longrightarrow> key st i = (m_dev (mnts st mp), x) \<Longrightarrow> \<not> flg st i IMOUNT"
    and "start = None \<or> start = Some i0"
  shows "\<exists>st' r. iget_at mp (m_dev (mnts st mp)) x start st = Some (st', r) \<and> get_post n st mp x (st', r)"
proof -
  let ?f = "if start = None then find (\<lambda>i. sl_number (tab st i) = x \<and> sl_dev (tab st i) = m_dev (mnts st mp)) (hino st (ihash x)) else start"
  have f: "case ?f of None \<Rightarrow> \<forall>j. hashed st j \<longrightarrow> key st j \<noteq> (m_dev (mnts st mp), x) | Some i \<Rightarrow> hashed st i \<and> key st i = (m_dev (mnts st mp), x)"
    using chain_find [OF assms(1), where x = x and d = "m_dev (mnts st mp)"] assms(3,5) by auto
  show ?thesis
  proof (cases ?f)
    case (Some i)
    with f have i: "hashed st i" "key st i = (m_dev (mnts st mp), x)" by simp_all
    have "iget_at mp (m_dev (mnts st mp)) x start st =
      (if flg st i ILOCK then Some (sets i (\<lambda>s. s\<lparr>sl_flag := sl_flag s \<union> {IWANT}\<rparr>) st, ISleep i mp (m_dev (mnts st mp)) x)
       else Some (found_slot mp i st, IGot i))"
      using inv_land [OF assms(1)] assms(4) [OF i] by (subst iget_at.simps) (simp add: Some)
    with i assms(2,4) show ?thesis by auto
  next
    case None
    with f have no: "\<forall>j. hashed st j \<longrightarrow> key st j \<noteq> (m_dev (mnts st mp), x)" by simp
    have fr: "set (ifreel st) = {i. i < n \<and> cnt st i = 0}" using assms(1) by (simp add: ic_inv_def slots_ok_def)
    show ?thesis
    proof (cases "find (\<lambda>i. \<not> flg st i ILOCK) (ifreel st)")
      case n2: None
      have "iget_at mp (m_dev (mnts st mp)) x start st = Some (st\<lparr>ic_error := Some ENFILE\<rparr>, INone)"
        by (subst iget_at.simps) (simp add: None n2)
      moreover have "\<forall>i<n. 0 < cnt st i" using n2 fr inv_idle [OF assms(1)] by (auto simp: find_None_iff)
      ultimately show ?thesis using no by auto
    next
      case s2: (Some i)
      have "iget_at mp (m_dev (mnts st mp)) x start st = Some (take_slot mp (m_dev (mnts st mp)) x i st, IReading i)"
        by (subst iget_at.simps) (simp add: None s2)
      with find_SomeD [OF s2] no show ?thesis by auto
    qed
  qed
qed

lemma iget_at_ok:
  assumes "ic_inv n st" "used st mp"
  shows "\<exists>st' r mp' x'. iget_at mp (m_dev (mnts st mp)) x None st = Some (st', r) \<and> get_post n st mp' x' (st', r) \<and> used st mp' \<and>
    (leads st mp x mp' x' \<or> (\<exists>i. r = ISleep i mp (m_dev (mnts st mp)) x))"
proof (cases "\<exists>i. hashed st i \<and> key st i = (m_dev (mnts st mp), x) \<and> flg st i IMOUNT")
  case False
  then have "leads st mp x mp x" unfolding leads_def if_not_P [OF False] by simp
  with iget_at_plain [OF assms, of None undefined x] False assms(2) show ?thesis by blast
next
  case True
  then obtain i where i: "hashed st i" "key st i = (m_dev (mnts st mp), x)" "flg st i IMOUNT" by blast
  let ?f = "find (\<lambda>i. sl_number (tab st i) = x \<and> sl_dev (tab st i) = m_dev (mnts st mp)) (hino st (ihash x))"
  have m: "mounts_ok n {} st" using assms(1) by (simp add: ic_inv_def)
  have "\<forall>a b. hashed st a \<longrightarrow> hashed st b \<longrightarrow> key st a = key st b \<longrightarrow> a = b" using assms(1) unfolding ic_inv_def slots_ok_def by blast
  then have uniq: "hashed st j \<Longrightarrow> key st j = key st i \<Longrightarrow> j = i" for j using i(1) by blast
  have f: "?f = Some i"
  proof (cases ?f)
    case None
    with chain_find [OF assms(1), where x = x and d = "m_dev (mnts st mp)"] i(1,2) show ?thesis by simp
  next
    case (Some j)
    with chain_find [OF assms(1), where x = x and d = "m_dev (mnts st mp)"] have "hashed st j" "key st j = key st i" by (simp_all add: i(2))
    with Some uniq show ?thesis by simp
  qed
  show ?thesis
  proof (cases "flg st i ILOCK")
    case lk: True
    have "iget_at mp (m_dev (mnts st mp)) x None st = Some (sets i (\<lambda>s. s\<lparr>sl_flag := sl_flag s \<union> {IWANT}\<rparr>) st, ISleep i mp (m_dev (mnts st mp)) x)"
      using inv_land [OF assms(1)] lk by (subst iget_at.simps) (simp add: f)
    with i lk assms(2) show ?thesis by (auto intro: exI [of _ mp])
  next
    case False
    let ?k = "sl_mount (tab st i)"
    have k: "m_inodp (mnts st ?k) = Some i" "m_flags (mnts st ?k) = MINUSE" using mounts_okD(4) [OF m i(3)] by simp_all
    then have u: "used st ?k" by (simp add: used_def)
    have e: "iget_at mp (m_dev (mnts st mp)) x None st = iget_at ?k (m_dev (mnts st ?k)) ROOTINO (m_mount (mnts st ?k)) st"
      using inv_land [OF assms(1)] False i(3) k(1) by (subst iget_at.simps) (simp add: f Let_def)
    have nr: "\<not> flg st j IMOUNT" if "key st j = (m_dev (mnts st ?k), ROOTINO)" for j using mounts_okD(4) [OF m, of j] that by auto
    have "hashed st r \<and> key st r = (m_dev (mnts st ?k), ROOTINO)" if "m_mount (mnts st ?k) = Some r" for r
      using mounts_okD(6) [OF m _ that] assms(1) slots_okD(5) unfolding ic_inv_def by blast
    with iget_at_plain [OF assms(1) u, of "m_mount (mnts st ?k)" _ ROOTINO] nr
    have "\<exists>st' r. iget_at ?k (m_dev (mnts st ?k)) ROOTINO (m_mount (mnts st ?k)) st = Some (st', r) \<and> get_post n st ?k ROOTINO (st', r)"
      by (metis option.exhaust)
    moreover have "leads st mp x ?k ROOTINO" using i by (auto simp: leads_def)
    ultimately show ?thesis using e u by auto
  qed
qed

lemma iget_ok:
  assumes "ic_inv n st" "used st mp"
  shows "\<exists>st' r mp' x'. iget mp x st = Some (st', r) \<and> ic_inv n st' \<and> get_post n st mp' x' (st', r) \<and> used st mp' \<and>
    (leads st mp x mp' x' \<or> (\<exists>i. r = ISleep i mp (m_dev (mnts st mp)) x))"
proof -
  have "iget mp x st = iget_at mp (m_dev (mnts st mp)) x None st"
    using inv_land [OF assms(1)] by (simp add: iget_def split: option.split)
  with iget_at_ok [OF assms] get_post_inv [OF assms(1)] show ?thesis by metis
qed

section \<open>Reading\<close>

definition read_env :: "nat \<Rightarrow> icst \<Rightarrow> iustate" where
  "read_env i st = \<lparr>iu_flag = sl_flag (tab st i), iu_error = ic_error st, iu_dev = ilist st (sl_dev (tab st i)), iu_warn = 0, iu_writes = []\<rparr>"

lemma iread_slot_cases:
  fixes e i st
  defines "d \<equiv> sl_dev (tab st i)"
  shows "if ic_error st = None \<and> e_rd e d (fsITOD (fsLRG (uint d)) (sl_number (tab st i)))
    then iread_slot e i st = Some (sets i (\<lambda>s. s\<lparr>sl_ino := i_load (ilist st d (fsITOD (fsLRG (uint d)) (sl_number (tab st i))) ! fsITOO (fsLRG (uint d)) (sl_number (tab st i)))\<rparr>) st, IGot i)
    else \<exists>err. err \<noteq> None \<and> iread_slot e i st = map_option (\<lambda>st2. (st2, INone)) (iput e i (st\<lparr>ic_error := err\<rparr>))"
proof -
  have same: "st\<lparr>ic_error := None\<rparr> = st" if "ic_error st = None" using that by (cases st) simp
  show ?thesis
  proof (cases "ic_error st = None \<and> e_rd e d (fsITOD (fsLRG (uint d)) (sl_number (tab st i)))")
    case True
    then have e: "st\<lparr>ic_error := None\<rparr> = st" using same by blast
    have "\<exists>st1. st1 = st\<lparr>ic_error := None\<rparr> \<and> iread_slot e i st = Some (sets i (\<lambda>s. s\<lparr>sl_ino := i_load (ilist st d (fsITOD (fsLRG (uint d)) (sl_number (tab st i))) ! fsITOO (fsLRG (uint d)) (sl_number (tab st i)))\<rparr>) st1, IGot i)"
      using True by (simp add: iread_slot_def iread_def Let_def d_def)
    then show ?thesis unfolding e using True by simp
  next
    case False
    let ?err = "if e_rd e d (fsITOD (fsLRG (uint d)) (sl_number (tab st i))) then ic_error st else Some EIO"
    have "?err \<noteq> None" "iread_slot e i st = map_option (\<lambda>st2. (st2, INone)) (iput e i (st\<lparr>ic_error := ?err\<rparr>))"
      using False by (auto simp: iread_slot_def iread_def Let_def d_def)
    then show ?thesis unfolding if_not_P [OF False] by blast
  qed
qed

lemma same_view_error [simp]: "same_view st (st\<lparr>ic_error := x\<rparr>)" "flg (st\<lparr>ic_error := x\<rparr>) i f = flg st i f"
  "cnt (st\<lparr>ic_error := x\<rparr>) i = cnt st i"
  by (simp_all add: same_view_def cnt_def key_def flg_def)

lemma inv_error: "ic_inv n st \<Longrightarrow> ic_inv n (st\<lparr>ic_error := x\<rparr>)"
  by (rule inv_view [of n st]) (simp_all add: inv_land inv_idle)

lemma iread_slot_inv:
  assumes "ic_inv n st" "i < n" "droppable {} i st"
  shows "\<exists>st' r. iread_slot e i st = Some (st', r) \<and> ic_inv n st'"
proof (cases "ic_error st = None \<and> e_rd e (sl_dev (tab st i)) (fsITOD (fsLRG (uint (sl_dev (tab st i)))) (sl_number (tab st i)))")
  case True
  have "ic_inv n (sets i (\<lambda>s. s\<lparr>sl_ino := x\<rparr>) st)" for x
    using inv_land [OF assms(1)] inv_idle [OF assms(1)]
    by (intro inv_view [OF assms(1)]) (auto simp: same_view_def sets_def cnt_def key_def flg_def)
  then show ?thesis using iread_slot_cases [of st e i] True by auto
next
  case False
  then obtain err where r: "iread_slot e i st = map_option (\<lambda>st2. (st2, INone)) (iput e i (st\<lparr>ic_error := err\<rparr>))"
    using iread_slot_cases [of st e i] by auto
  have "droppable {} i (st\<lparr>ic_error := err\<rparr>)" using assms(3) by (simp add: droppable_def)
  then show ?thesis using iput_ok [of n "st\<lparr>ic_error := err\<rparr>" "{}" i e] inv_error [OF assms(1), of err] assms(2)
    by (auto simp: r ic_inv_def)
qed

section \<open>Flushing\<close>

lemma unhash_ok:
  assumes "slots_ok n st" "mounts_ok n X st" "cnt st i = 0"
  shows "slots_ok n (unhash i st)" "mounts_ok n X (unhash i st)" "hashed (unhash i st) j \<longleftrightarrow> hashed st j \<and> j \<noteq> i"
proof -
  have f: "cnt (unhash i st) = cnt st" "key (unhash i st) = key st" "home (unhash i st) = home st" "used (unhash i st) = used st"
    "flg (unhash i st) = flg st" "active_in n (unhash i st) = active_in n st" "tab (unhash i st) = tab st" "mnts (unhash i st) = mnts st"
    "ifreel (unhash i st) = ifreel st" "hino (unhash i st) = (\<lambda>h. remove1 i (hino st h))"
    by (auto simp: unhash_def cnt_def key_def home_def used_def flg_def active_in_def fun_eq_iff)
  have h: "hashed (unhash i st) j \<longleftrightarrow> hashed st j \<and> j \<noteq> i" for j
    using slots_okD(3) [OF assms(1)] by (auto simp: hashed_def f)
  then show "hashed (unhash i st) j \<longleftrightarrow> hashed st j \<and> j \<noteq> i" .
  have "\<forall>a b. hashed st a \<and> a \<noteq> i \<longrightarrow> hashed st b \<and> b \<noteq> i \<longrightarrow> key st a = key st b \<longrightarrow> a = b" using slots_okD(6) [OF assms(1)] by blast
  then show "slots_ok n (unhash i st)" using slots_okD(1-5,7,8) [OF assms(1)] assms(3)
    unfolding slots_ok_def f h by (auto dest: notin_set_remove1)
  show "mounts_ok n X (unhash i st)" using assms(2) unfolding mounts_ok_def f h by blast
qed

text \<open>Flushing a device only takes idle slots out of their chains.\<close>

definition flushed :: "icst \<Rightarrow> icst \<Rightarrow> bool" where
  "flushed st st' \<longleftrightarrow> mnts st' = mnts st \<and> key st' = key st \<and> cnt st' = cnt st \<and> (\<forall>j. hashed st' j \<longrightarrow> hashed st j) \<and>
     (\<forall>j. sl_mount (tab st' j) = sl_mount (tab st j)) \<and> (\<forall>j. flg st' j IMOUNT = flg st j IMOUNT)"

lemma flushed_refl: "flushed st st" by (simp add: flushed_def)

lemma flush_one_ok:
  assumes "slots_ok n st" "mounts_ok n X st" "cnt st i = 0"
  shows "\<exists>st1. plock i st = (st1, True) \<and> slots_ok n (prele i (unhash i st1)) \<and> mounts_ok n X (prele i (unhash i st1)) \<and>
    flushed st (prele i (unhash i st1)) \<and> \<not> hashed (prele i (unhash i st1)) i"
proof -
  let ?st1 = "sets i (\<lambda>s. s\<lparr>sl_flag := insert ILOCK (sl_flag s)\<rparr>) st"
  let ?st2 = "unhash i st" and ?st' = "prele i (unhash i ?st1)"
  have p: "plock i st = (?st1, True)" using slots_okD(7,8) [OF assms(1)] assms(3) by (simp add: plock_def)
  have land: "\<not> flg (unhash i ?st1) i ILAND" using slots_okD(7) [OF assms(1), of i] by (simp add: unhash_def sets_def flg_def)
  note v = prele_view [OF land]
  have lk: "\<not> flg st i ILOCK" "\<not> flg st j ILAND" for j using slots_okD(7,8) [OF assms(1)] assms(3) by blast+
  have fl: "flg ?st' j f \<longleftrightarrow> flg st j f \<and> (j = i \<longrightarrow> f \<notin> {ILOCK, IWANT})" for j f
  proof (cases "j = i")
    case True
    have "flg (unhash i ?st1) i f \<longleftrightarrow> flg st i f \<or> f = ILOCK" by (auto simp: unhash_def sets_def flg_def)
    then show ?thesis using v(9) [of f] by (auto simp: True)
  next
    case False
    then have "tab ?st' j = tab (unhash i ?st1) j" by (rule v(7))
    also have "\<dots> = tab st j" using False by (simp add: unhash_def sets_def)
    finally have "tab ?st' j = tab st j" .
    with False show ?thesis by (simp add: flg_def)
  qed
  have e: "hino ?st' = hino ?st2" "ifreel ?st' = ifreel ?st2" "mnts ?st' = mnts ?st2" "cnt ?st' = cnt st" "key ?st' = key st"
    "\<And>j. sl_mount (tab ?st' j) = sl_mount (tab st j)"
    by (simp_all only: v(1-6) fun_eq_iff) (auto simp: unhash_def sets_def cnt_def key_def)
  have u: "cnt ?st2 = cnt st" "key ?st2 = key st" "tab ?st2 = tab st" "mnts ?st2 = mnts st" "flg ?st2 = flg st"
    by (auto simp: unhash_def cnt_def key_def flg_def fun_eq_iff)
  have sv: "same_view ?st2 ?st'" by (simp add: same_view_def e u fl)
  note h = unhash_ok [OF assms]
  have hs: "hashed ?st' = hashed ?st2" using same_view_home [OF sv, of n] by blast
  have "slots_ok n ?st'" using same_view_ok(2) [OF sv _ h(1)] lk(2) slots_okD(8) [OF assms(1)] by (simp add: fl u)
  moreover have "mounts_ok n X ?st'" using same_view_ok(1) [OF sv] h(2) by blast
  moreover have "flushed st ?st'" by (simp add: flushed_def e u fl hs h(3))
  ultimately show ?thesis using p h(3) [of i] by (simp add: hs)
qed

lemma iflush_from_ok:
  assumes "slots_ok n st" "mounts_ok n X st"
  shows "slots_ok n (fst (iflush_from d i m st)) \<and> mounts_ok n X (fst (iflush_from d i m st)) \<and> flushed st (fst (iflush_from d i m st)) \<and>
    (case snd (iflush_from d i m st) of
       FlushOk \<Rightarrow> \<forall>j. j \<in> {i..<i + m} \<and> fst (key st j) = d \<longrightarrow> cnt st j = 0 \<and> \<not> hashed (fst (iflush_from d i m st)) j
     | FlushBusy \<Rightarrow> \<exists>j. j \<in> {i..<i + m} \<and> fst (key st j) = d \<and> 0 < cnt st j
     | FlushWait _ \<Rightarrow> False)"
  using assms
proof (induction m arbitrary: i st)
  case 0
  then show ?case by (auto simp: flushed_def)
next
  case (Suc m)
  have range: "{i..<i + Suc m} = insert i {Suc i..<Suc i + m}" by auto
  consider "sl_dev (tab st i) \<noteq> d" | "sl_dev (tab st i) = d" "0 < cnt st i" | "sl_dev (tab st i) = d" "cnt st i = 0" by blast
  then show ?case
  proof cases
    case 1
    then have e: "iflush_from d i (Suc m) st = iflush_from d (Suc i) m st" by simp
    have "fst (key st i) \<noteq> d" using 1 by (simp add: key_def)
    then show ?thesis using Suc.IH [OF Suc.prems, of "Suc i"] unfolding e range
      by (auto split: iflush_res.splits simp del: atLeastLessThan_iff)
  next
    case 2
    then show ?thesis using Suc.prems unfolding range by (auto simp: flushed_def cnt_def key_def intro!: exI [of _ i])
  next
    case 3
    obtain st1 where st1: "plock i st = (st1, True)" "slots_ok n (prele i (unhash i st1))" "mounts_ok n X (prele i (unhash i st1))"
      "flushed st (prele i (unhash i st1))" "\<not> hashed (prele i (unhash i st1)) i"
      using flush_one_ok [OF Suc.prems 3(2)] by blast
    let ?st2 = "prele i (unhash i st1)"
    have e: "iflush_from d i (Suc m) st = iflush_from d (Suc i) m ?st2" using 3 st1(1) by (simp add: cnt_def)
    note IH = Suc.IH [OF st1(2,3), of "Suc i"]
    have fl: "flushed st (fst (iflush_from d (Suc i) m ?st2))" using IH st1(4) by (auto simp: flushed_def)
    have same: "key ?st2 = key st" "cnt ?st2 = cnt st" using st1(4) by (auto simp: flushed_def)
    have nh: "\<not> hashed (fst (iflush_from d (Suc i) m ?st2)) i" using IH st1(5) by (auto simp: flushed_def)
    show ?thesis using IH fl nh 3(2) unfolding e same range
      by (auto split: iflush_res.splits simp del: atLeastLessThan_iff)
  qed
qed

section \<open>Mounting\<close>

lemma setm_at: "mnts (setm k f st) l = (if l = k then f (mnts st k) else mnts st l)" "tab (setm k f st) = tab st"
  "hino (setm k f st) = hino st" "ifreel (setm k f st) = ifreel st" "cnt (setm k f st) = cnt st" "key (setm k f st) = key st"
  "flg (setm k f st) = flg st" "hashed (setm k f st) = hashed st"
  by (auto simp: setm_def cnt_def key_def flg_def hashed_def fun_eq_iff)

lemma slots_ok_setm [simp]: "slots_ok n (setm k f st) = slots_ok n st"
  by (simp add: slots_ok_def setm_at)

text \<open>Entries of the mount table change in their flags, device and root only.\<close>

lemma mounts_ok_setm:
  assumes "mounts_ok n X st" "\<And>m. m_count (f m) = m_count m \<and> m_inodp (f m) = m_inodp m \<and> m_omnt (f m) = m_omnt m"
    and "\<And>i. hashed st i \<Longrightarrow> home st i \<noteq> k \<or> m_flags (f (mnts st k)) \<noteq> MFREE \<and> m_dev (f (mnts st k)) = m_dev (mnts st k)"
    and "m_flags (f (mnts st k)) \<noteq> MFREE \<Longrightarrow> (\<forall>l. l \<noteq> k \<longrightarrow> used st l \<longrightarrow> m_dev (mnts st l) \<noteq> m_dev (f (mnts st k)))"
    and "(m_flags (f (mnts st k)) = MINUSE) = (m_flags (mnts st k) = MINUSE)"
    and "\<And>r. k \<notin> Y \<Longrightarrow> m_mount (f (mnts st k)) = Some r \<Longrightarrow> m_mount (mnts st k) = Some r \<and> k \<notin> X \<and> m_dev (f (mnts st k)) = m_dev (mnts st k)"
    and "X \<subseteq> insert k Y"
  shows "mounts_ok n Y (setm k f st)"
proof -
  let ?st' = "setm k f st"
  note M = mounts_okD [OF assms(1)]
  have om: "m_omnt (mnts ?st' l) = m_omnt (mnts st l)" "m_inodp (mnts ?st' l) = m_inodp (mnts st l)" "m_count (mnts ?st' l) = m_count (mnts st l)"
    "(m_flags (mnts ?st' l) = MINUSE) = (m_flags (mnts st l) = MINUSE)" for l
    using assms(2,5) by (simp_all add: setm_at)
  have home: "home ?st' i = home st i" for i by (simp add: home_def setm_at(2,7) om)
  have act: "active_in n ?st' l = active_in n st l" for l by (simp add: active_in_def home setm_at)
  have used: "used ?st' l = (if l = k then m_flags (f (mnts st k)) \<noteq> MFREE else used st l)" for l by (simp add: used_def setm_at)
  have 1: "\<forall>i. hashed st i \<longrightarrow> used ?st' (home st i) \<and> m_dev (mnts ?st' (home st i)) = fst (key st i)"
    using M(1) assms(3) by (simp add: used setm_at(1)) metis
  have 2: "\<forall>a b. used ?st' a \<longrightarrow> used ?st' b \<longrightarrow> m_dev (mnts ?st' a) = m_dev (mnts ?st' b) \<longrightarrow> a = b"
    using M(2) assms(4) by (simp add: used setm_at(1)) metis
  have 3: "\<forall>l r. l \<notin> Y \<longrightarrow> m_mount (mnts ?st' l) = Some r \<longrightarrow>
        m_flags (mnts ?st' l) = MINUSE \<and> r < n \<and> 0 < cnt st r \<and> key st r = (m_dev (mnts ?st' l), ROOTINO)"
  proof (intro allI impI)
    fix l r assume l: "l \<notin> Y" "m_mount (mnts ?st' l) = Some r"
    have "m_mount (mnts st l) = Some r \<and> l \<notin> X \<and> m_dev (mnts ?st' l) = m_dev (mnts st l)"
    proof (cases "l = k")
      case True
      then show ?thesis using l assms(6) by (simp add: setm_at)
    next
      case False
      then show ?thesis using l assms(7) by (auto simp: setm_at)
    qed
    then show "m_flags (mnts ?st' l) = MINUSE \<and> r < n \<and> 0 < cnt st r \<and> key st r = (m_dev (mnts ?st' l), ROOTINO)"
      using M(6) [of l r] by (simp add: om)
  qed
  show ?thesis using 1 2 3 M(3,4,5) unfolding mounts_ok_def home act om setm_at(2,5-8) by blast
qed

lemma mount_take_inv:
  assumes "ic_inv n st" "m_flags (mnts st k) = MFREE" "\<forall>l. used st l \<longrightarrow> m_dev (mnts st l) \<noteq> d"
  shows "ic_inv n (mount_take k d st)"
proof -
  have m: "mounts_ok n {} st" using assms(1) by (simp add: ic_inv_def)
  have "\<not> used st k" using assms(2) by (simp add: used_def)
  have "mounts_ok n {} (setm k (\<lambda>m. m\<lparr>m_flags := MINTER, m_dev := d\<rparr>) st)"
  proof (rule mounts_ok_setm [OF m])
    show "home st i \<noteq> k \<or> m_flags (mnts st k\<lparr>m_flags := MINTER, m_dev := d\<rparr>) \<noteq> MFREE \<and> m_dev (mnts st k\<lparr>m_flags := MINTER, m_dev := d\<rparr>) = m_dev (mnts st k)"
      if "hashed st i" for i using mounts_okD(1) [OF m that] \<open>\<not> used st k\<close> by auto
  qed (use assms mounts_okD(6) [OF m, of k] in auto)
  then show ?thesis using assms(1) by (simp add: ic_inv_def mount_take_def)
qed

lemma mount_free_inv:
  assumes "ic_inv n st" "m_flags (mnts st k) = MINTER" "\<And>i. hashed st i \<Longrightarrow> fst (key st i) \<noteq> m_dev (mnts st k)"
  shows "ic_inv n (mount_free k st)"
proof -
  have m: "mounts_ok n {} st" using assms(1) by (simp add: ic_inv_def)
  have "mounts_ok n {} (setm k (\<lambda>m. m\<lparr>m_flags := MFREE\<rparr>) st)"
  proof (rule mounts_ok_setm [OF m])
    show "home st i \<noteq> k \<or> m_flags (mnts st k\<lparr>m_flags := MFREE\<rparr>) \<noteq> MFREE \<and> m_dev (mnts st k\<lparr>m_flags := MFREE\<rparr>) = m_dev (mnts st k)"
      if "hashed st i" for i using mounts_okD(1) [OF m that] assms(3) [OF that] by auto
  qed (use assms(2) mounts_okD(6) [OF m, of k] in auto)
  then show ?thesis using assms(1) by (simp add: ic_inv_def mount_free_def)
qed

text \<open>A directory gets or loses a mount: its slot, and the entry \<open>k\<close>, change so that its home stays.\<close>

lemma dir_frame:
  assumes "ic_inv n st" "hino st' = hino st" "ifreel st' = ifreel st" "\<And>j. j \<noteq> i \<Longrightarrow> tab st' j = tab st j"
    and "cnt st' i = cnt st i" "key st' i = key st i" "\<And>f. f \<noteq> IMOUNT \<Longrightarrow> flg st' i f = flg st i f"
    and "home st' i = home st i" "\<And>l. l \<noteq> k \<Longrightarrow> mnts st' l = mnts st l" "m_count (mnts st' k) = m_count (mnts st k)"
    and "used st' k" "used st k" "m_dev (mnts st' k) = m_dev (mnts st k)"
    and "\<And>j. j \<noteq> i \<Longrightarrow> flg st j IMOUNT \<Longrightarrow> sl_mount (tab st j) \<noteq> k"
    and "flg st' i IMOUNT \<Longrightarrow> i < n \<and> 0 < cnt st i \<and> snd (key st i) \<noteq> ROOTINO \<and> sl_mount (tab st' i) = k \<and>
           m_omnt (mnts st' k) \<noteq> None \<and> m_inodp (mnts st' k) = Some i \<and> m_flags (mnts st' k) = MINUSE"
    and "\<And>j. m_flags (mnts st' k) = MINUSE \<Longrightarrow> m_inodp (mnts st' k) = Some j \<Longrightarrow> j = i \<and> flg st' i IMOUNT"
    and "\<And>l. l \<noteq> k \<Longrightarrow> m_flags (mnts st l) = MINUSE \<Longrightarrow> m_inodp (mnts st l) \<noteq> Some i"
    and "\<And>r. m_mount (mnts st' k) = Some r \<Longrightarrow> m_flags (mnts st' k) = MINUSE \<and> r < n \<and> 0 < cnt st r \<and> key st r = (m_dev (mnts st k), ROOTINO)"
  shows "ic_inv n st'"
proof -
  have sl: "slots_ok n st" and m: "mounts_ok n {} st" using assms(1) by (simp_all add: ic_inv_def)
  note M = mounts_okD [OF m]
  have c: "cnt st' = cnt st" using assms(4,5) by (intro ext, rename_tac j, case_tac "j = i") (auto simp: cnt_def)
  have ky: "key st' = key st" using assms(4,6) by (intro ext, rename_tac j, case_tac "j = i") (auto simp: key_def)
  have fo: "flg st' j f = flg st j f" if "j \<noteq> i" for j f using assms(4) [OF that] by (simp add: flg_def)
  have hs: "hashed st' = hashed st" by (intro ext) (simp add: hashed_def ky assms(2))
  have hm: "home st' j = home st j" for j
  proof (cases "j = i")
    case False
    then show ?thesis using assms(4) [OF False] assms(9) [of "sl_mount (tab st j)"] assms(14) [OF False] by (auto simp: home_def fo)
  qed (simp add: assms(8))
  have ac: "active_in n st' l = active_in n st l" for l by (simp add: active_in_def hm c)
  have u: "used st' l = used st l" for l using assms(9) [of l] assms(11,12) by (cases "l = k") (auto simp: used_def)
  have md: "m_dev (mnts st' l) = m_dev (mnts st l)" "m_count (mnts st' l) = m_count (mnts st l)" for l
    using assms(9) [of l] assms(10,13) by (cases "l = k"; simp)+
  have 4: "\<forall>j. flg st' j IMOUNT \<longrightarrow> j < n \<and> 0 < cnt st j \<and> snd (key st j) \<noteq> ROOTINO \<and> m_omnt (mnts st' (sl_mount (tab st' j))) \<noteq> None \<and>
        m_inodp (mnts st' (sl_mount (tab st' j))) = Some j \<and> m_flags (mnts st' (sl_mount (tab st' j))) = MINUSE"
  proof (intro allI impI)
    fix j assume j: "flg st' j IMOUNT"
    show "j < n \<and> 0 < cnt st j \<and> snd (key st j) \<noteq> ROOTINO \<and> m_omnt (mnts st' (sl_mount (tab st' j))) \<noteq> None \<and>
        m_inodp (mnts st' (sl_mount (tab st' j))) = Some j \<and> m_flags (mnts st' (sl_mount (tab st' j))) = MINUSE"
    proof (cases "j = i")
      case True
      then show ?thesis using assms(15) j by simp
    next
      case False
      then show ?thesis using M(4) [of j] j fo [OF False] assms(4) [OF False] assms(9) [of "sl_mount (tab st j)"] assms(14) [OF False] by simp
    qed
  qed
  have 5: "\<forall>l j. m_flags (mnts st' l) = MINUSE \<longrightarrow> m_inodp (mnts st' l) = Some j \<longrightarrow> flg st' j IMOUNT \<and> sl_mount (tab st' j) = l"
  proof (intro allI impI)
    fix l j assume l: "m_flags (mnts st' l) = MINUSE" "m_inodp (mnts st' l) = Some j"
    show "flg st' j IMOUNT \<and> sl_mount (tab st' j) = l"
    proof (cases "l = k")
      case True
      then show ?thesis using assms(15,16) l by blast
    next
      case False
      with l assms(9) have "m_flags (mnts st l) = MINUSE" "m_inodp (mnts st l) = Some j" by simp_all
      then show ?thesis using M(5) [of l j] assms(17) [OF False] fo [of j] assms(4) [of j] by auto
    qed
  qed
  have 6: "\<forall>l r. l \<notin> {} \<longrightarrow> m_mount (mnts st' l) = Some r \<longrightarrow>
        m_flags (mnts st' l) = MINUSE \<and> r < n \<and> 0 < cnt st r \<and> key st r = (m_dev (mnts st l), ROOTINO)"
    using M(6) assms(9,18) by (metis empty_iff)
  have "mounts_ok n {} st'" using M(1-3) 4 5 6 unfolding mounts_ok_def c ky hs hm ac u md by blast
  moreover have "flg st' j ILAND = flg st j ILAND" "flg st' j ILOCK = flg st j ILOCK" for j
    using fo [of j] assms(7) by (cases "j = i"; simp)+
  then have "\<forall>j. \<not> flg st' j ILAND \<and> (cnt st j = 0 \<longrightarrow> \<not> flg st' j ILOCK)" using slots_okD(7,8) [OF sl] by simp
  then have "slots_ok n st'" using sl unfolding slots_ok_def c ky hs assms(2,3) by blast
  ultimately show ?thesis by (simp add: ic_inv_def)
qed

lemma sets_at: "tab (sets i f st) j = (if j = i then f (tab st i) else tab st j)" "hino (sets i f st) = hino st"
  "ifreel (sets i f st) = ifreel st" "mnts (sets i f st) = mnts st"
  by (simp_all add: sets_def)

lemma prele_setm: "prele r (setm k f st) = setm k f (prele r st)"
  by (simp add: prele_def setm_def sets_def flg_def Let_def)

lemma setm_setm: "setm k f (setm k g st) = setm k (\<lambda>m. f (g m)) st"
  by (simp add: setm_def)

text \<open>What \<^verbatim>\<open>smount\<close> has made sure of before it enters the root \<open>r\<close> over the directory \<open>i\<close>.\<close>

definition mountable :: "nat \<Rightarrow> nat \<Rightarrow> nat \<Rightarrow> icst \<Rightarrow> bool" where
  "mountable k i r st \<longleftrightarrow> m_flags (mnts st k) = MINTER \<and> m_count (mnts st k) = 1 \<and>
     hashed st i \<and> 0 < cnt st i \<and> \<not> flg st i IMOUNT \<and> snd (key st i) \<noteq> ROOTINO \<and>
     hashed st r \<and> 0 < cnt st r \<and> key st r = (m_dev (mnts st k), ROOTINO)"

lemma mount_enter_inv:
  assumes "ic_inv n st0" "mountable k i r st0"
  shows "ic_inv n (mount_enter k i r st0)"
proof -
  define st where "st = prele r st0"
  have inv: "ic_inv n st" unfolding st_def by (rule prele_inv [OF assms(1)])
  note p = prele_view [where i = r, OF inv_land [OF assms(1)]]
  have k: "m_flags (mnts st k) = MINTER" "m_count (mnts st k) = 1" "0 < cnt st i" "snd (key st i) \<noteq> ROOTINO"
    "0 < cnt st r" "key st r = (m_dev (mnts st k), ROOTINO)" and im0: "\<not> flg st0 i IMOUNT"
    using assms(2) by (simp_all add: mountable_def st_def p(1-6))
  have "hashed st j = hashed st0 j" for j by (simp add: hashed_def st_def p(1,5))
  then have hash: "hashed st i" "hashed st r" using assms(2) by (simp_all add: mountable_def)
  have im: "\<not> flg st i IMOUNT" using im0 p(7) [where j = i] p(9) [of IMOUNT] by (cases "i = r") (auto simp: st_def flg_def)
  have less: "i < n" "r < n" using hash hashed_less [OF inv] by blast+
  have m: "mounts_ok n {} st" using inv by (simp add: ic_inv_def)
  let ?G = "\<lambda>m. m\<lparr>m_mount := Some r, m_inodp := Some i, m_flags := MINUSE, m_count := 1, m_omnt := Some (sl_mount (tab st i))\<rparr>"
  let ?F = "\<lambda>s. s\<lparr>sl_flag := sl_flag s \<union> {IMOUNT}, sl_mount := k\<rparr>"
  let ?st' = "sets i ?F (setm k ?G st)"
  have "ic_inv n ?st'"
  proof (rule dir_frame [OF inv, where i = i and k = k])
    show "sl_mount (tab st j) \<noteq> k" if "flg st j IMOUNT" for j using mounts_okD(4) [OF m that] k(1) by auto
    show "m_inodp (mnts st l) \<noteq> Some i" if "m_flags (mnts st l) = MINUSE" for l using mounts_okD(5) [OF m that, of i] im by blast
    show "flg ?st' i IMOUNT \<Longrightarrow> i < n \<and> 0 < cnt st i \<and> snd (key st i) \<noteq> ROOTINO \<and> sl_mount (tab ?st' i) = k \<and>
           m_omnt (mnts ?st' k) \<noteq> None \<and> m_inodp (mnts ?st' k) = Some i \<and> m_flags (mnts ?st' k) = MINUSE"
      using less k by (simp add: sets_at setm_at)
    show "m_mount (mnts ?st' k) = Some q \<Longrightarrow> m_flags (mnts ?st' k) = MINUSE \<and> q < n \<and> 0 < cnt st q \<and> key st q = (m_dev (mnts st k), ROOTINO)" for q
      using less k by (auto simp: sets_at setm_at)
  qed (use k im in \<open>auto simp: sets_at setm_at cnt_def key_def flg_def home_def used_def\<close>)
  moreover have "mount_enter k i r st0 = prele i ?st'"
    unfolding mount_enter_def Let_def prele_setm st_def [symmetric] setm_setm by (simp add: setm_at)
  ultimately show ?thesis by (simp add: prele_inv)
qed

lemma umount_root_ok:
  assumes "ic_inv n st" "m_flags (mnts st k) = MINUSE"
  shows "case umount_root e k st of (st1, Some r) \<Rightarrow> ic_inv n st1 \<and> (\<exists>i. r = UmWait i)
    | (st1, None) \<Rightarrow> ic_inv n st1 \<and> m_mount (mnts st1 k) = None \<and> m_flags (mnts st1 k) = MINUSE \<and>
        m_dev (mnts st1 k) = m_dev (mnts st k) \<and> m_inodp (mnts st1 k) = m_inodp (mnts st k)"
proof (cases "m_mount (mnts st k)")
  case None
  then show ?thesis using assms by (simp add: umount_root_def)
next
  case (Some r)
  have m: "mounts_ok n {} st" using assms(1) by (simp add: ic_inv_def)
  have r: "r < n" "0 < cnt st r" "key st r = (m_dev (mnts st k), ROOTINO)" using mounts_okD(6) [OF m _ Some] by simp_all
  obtain st1 ok where p: "plock r st = (st1, ok)" by fastforce
  have inv1: "ic_inv n st1" using plock_inv [OF assms(1) r(2)] p by (metis fst_conv)
  show ?thesis
  proof (cases ok)
    case False
    then show ?thesis using inv1 by (simp add: umount_root_def Some p)
  next
    case True
    have same: "mnts st1 = mnts st" "cnt st1 r = cnt st r" "key st1 r = key st r"
      using p by (auto simp: plock_def sets_def cnt_def key_def split: if_splits)
    have m1: "mounts_ok n {} st1" and s1: "slots_ok n st1" using inv1 by (simp_all add: ic_inv_def)
    then have mk: "mounts_ok n {k} st1" unfolding mounts_ok_def by blast
    have "\<not> flg st1 r IMOUNT" using mounts_okD(4) [OF m1, of r] r(3) by (auto simp: same)
    moreover have "m_mount (mnts st1 l) \<noteq> Some r" if "l \<noteq> k" for l
    proof
      assume l: "m_mount (mnts st1 l) = Some r"
      then have "used st1 l" "m_dev (mnts st1 l) = m_dev (mnts st1 k)" using mounts_okD(6) [OF m1 _ l] r(3) same by (auto simp: used_def)
      then have "l = k" using mounts_okD(2) [OF m1, of l k] assms(2) by (simp add: used_def same)
      with that show False by simp
    qed
    ultimately have "droppable {k} r st1" using r(2) same by (simp add: droppable_def)
    from iput_ok [OF s1 mk r(1) this] obtain st2 where st2: "iput e r st1 = Some st2" "released r st1 st2" "slots_ok n st2" "mounts_ok n {k} st2" by blast
    have "mounts_ok n {} (setm k (\<lambda>m. m\<lparr>m_mount := None\<rparr>) st2)"
    proof (rule mounts_ok_setm [OF st2(4)])
      show "home st2 i \<noteq> k \<or> m_flags (mnts st2 k\<lparr>m_mount := None\<rparr>) \<noteq> MFREE \<and> m_dev (mnts st2 k\<lparr>m_mount := None\<rparr>) = m_dev (mnts st2 k)"
        if "hashed st2 i" for i using mounts_okD(1) [OF st2(4) that] by (auto simp: used_def)
      show "\<forall>l. l \<noteq> k \<longrightarrow> used st2 l \<longrightarrow> m_dev (mnts st2 l) \<noteq> m_dev (mnts st2 k\<lparr>m_mount := None\<rparr>)" if "m_flags (mnts st2 k\<lparr>m_mount := None\<rparr>) \<noteq> MFREE"
        using mounts_okD(2) [OF st2(4)] that by (auto simp: used_def)
    qed auto
    then have "ic_inv n (setm k (\<lambda>m. m\<lparr>m_mount := None\<rparr>) st2)" using st2(3) by (simp add: ic_inv_def)
    from inv_error [OF this] show ?thesis
      using st2(1,2) assms(2) True by (auto simp: umount_root_def Some p setm_at same released_def recount_def)
  qed
qed

lemma umount_inv:
  assumes "ic_inv n st" "m_flags (mnts st k) = MINUSE" "m_inodp (mnts st k) = Some i"
  shows "ic_inv n (fst (umount e n k st))"
proof -
  obtain st1 x where u: "umount_root e k st = (st1, x)" by fastforce
  show ?thesis
  proof (cases x)
    case (Some y)
    then show ?thesis using umount_root_ok [OF assms(1,2), of e] by (simp add: umount_def u)
  next
    case None
    with umount_root_ok [OF assms(1,2), of e] u assms(3) have st1: "ic_inv n st1" "m_mount (mnts st1 k) = None" "m_flags (mnts st1 k) = MINUSE"
      "m_inodp (mnts st1 k) = Some i" by simp_all
    define d where "d = m_dev (mnts st1 k)"
    obtain st2 fr where f: "iflush n d st1 = (st2, fr)" by fastforce
    have fl: "slots_ok n st2" "mounts_ok n {} st2" "flushed st1 st2"
      "fr = FlushOk \<Longrightarrow> \<forall>j. j < n \<and> fst (key st1 j) = d \<longrightarrow> cnt st1 j = 0 \<and> \<not> hashed st2 j" "\<And>j. fr \<noteq> FlushWait j"
      using iflush_from_ok [of n st1 "{}" d 0 n] st1(1) f by (auto simp: ic_inv_def iflush_def)
    have inv2: "ic_inv n st2" using fl by (simp add: ic_inv_def)
    show ?thesis
    proof (cases fr)
      case FlushBusy
      then show ?thesis using inv_error [OF inv2] f by (simp add: umount_def u None d_def)
    next
      case (FlushWait j)
      with fl(5) show ?thesis by blast
    next
      case FlushOk
      have k2: "mnts st2 = mnts st1" using fl(3) by (simp add: flushed_def)
      have im: "flg st2 i IMOUNT" "sl_mount (tab st2 i) = k" using mounts_okD(5) [OF fl(2)] st1(3,4) k2 by simp_all
      have i2: "0 < cnt st2 i" "m_omnt (mnts st2 k) \<noteq> None" using mounts_okD(4) [OF fl(2) im(1)] im(2) by simp_all
      let ?F = "\<lambda>s. s\<lparr>sl_flag := sl_flag s - {IMOUNT}, sl_mount := the (m_omnt (mnts st2 k))\<rparr>"
      let ?st' = "setm k (\<lambda>m. m\<lparr>m_omnt := None\<rparr>) (sets i ?F (setm k (\<lambda>m. m\<lparr>m_flags := MINTER\<rparr>) st2))"
      have "ic_inv n ?st'"
      proof (rule dir_frame [OF inv2, where i = i and k = k])
        show "sl_mount (tab st2 j) \<noteq> k" if "j \<noteq> i" "flg st2 j IMOUNT" for j using mounts_okD(4) [OF fl(2) that(2)] st1(4) that(1) by (auto simp: k2)
        show "m_inodp (mnts st2 l) \<noteq> Some i" if "l \<noteq> k" "m_flags (mnts st2 l) = MINUSE" for l
          using mounts_okD(5) [OF fl(2) that(2), of i] im(2) that(1) by auto
      qed (use st1(2,3) im i2 in \<open>auto simp: sets_at setm_at cnt_def key_def flg_def home_def used_def k2\<close>)
      moreover have "umount e n k st = (?st', UmDone i)"
        using f FlushOk st1(4) by (simp add: umount_def u None d_def Let_def k2 setm_at)
      ultimately show ?thesis by simp
    qed
  qed
qed

section \<open>Steps\<close>

text \<open>
  What the processes do to the table, in any order. A process that sleeps in \<^verbatim>\<open>iget\<close> keeps the mount, the device and the number it was at,
  and goes on from there when it runs again (\<open>resume\<close>), whatever has happened to the slot; the second component of a state holds
  what the sleepers have kept. The steps keep the callers' side: a reference is given up only by one who has it, and the
  last one of a slot not while a mount holds it; the lock is taken by holders of a reference. They also keep to
  what \<^verbatim>\<open>smount\<close> and \<^verbatim>\<open>sumount\<close> rely on and do not check: the count that \<^verbatim>\<open>smount\<close> overwrites with 1 is 1 already (\<open>mountable\<close>: nobody but the
  mounter has an inode of the file system); one process at a time unmounts a file system;
  and the entry is free again only when no inode of its device is in a hash chain (\<^verbatim>\<open>iflush\<close> has taken them out) and
  nobody sleeps in \<^verbatim>\<open>iget\<close> on its account. What happens without the last condition is the lemma \<open>stale_mount_counts\<close> below.
\<close>

fun asleep :: "iget_res \<Rightarrow> (nat \<times> u16 \<times> u16) list" where
  "asleep (ISleep i mp dev ino) = [(mp, dev, ino)]"
| "asleep r = []"

inductive icstep :: "nat \<Rightarrow> icst \<times> (nat \<times> u16 \<times> u16) list \<Rightarrow> icst \<times> (nat \<times> u16 \<times> u16) list \<Rightarrow> bool" for n where
  get: "used st mp \<Longrightarrow> iget mp x st = Some (st', r) \<Longrightarrow> icstep n (st, ws) (st', asleep r @ ws)"
| resume: "(mp, d, x) \<in> set ws \<Longrightarrow> iget_at mp d x None st = Some (st', r) \<Longrightarrow> icstep n (st, ws) (st', asleep r @ remove1 (mp, d, x) ws)"
| read: "i < n \<Longrightarrow> droppable {} i st \<Longrightarrow> flg st i ILOCK \<Longrightarrow> iread_slot e i st = Some (st', r) \<Longrightarrow> icstep n (st, ws) (st', ws)"
| put: "i < n \<Longrightarrow> droppable {} i st \<Longrightarrow> iput e i st = Some st' \<Longrightarrow> icstep n (st, ws) (st', ws)"
| lock: "0 < cnt st i \<Longrightarrow> plock i st = (st', ok) \<Longrightarrow> icstep n (st, ws) (st', ws)"
| unlock: "icstep n (st, ws) (prele i st, ws)"
| hold: "i < n \<Longrightarrow> 0 < cnt st i \<Longrightarrow> icstep n (st, ws) (sets i (\<lambda>s. s\<lparr>sl_count := sl_count s + 1\<rparr>) st, ws)"
| change: "fs \<inter> {ILOCK, IMOUNT, ILAND} = {} \<Longrightarrow> icstep n (st, ws) (sets i (\<lambda>s. s\<lparr>sl_ino := x, sl_flag := sl_flag s \<union> fs\<rparr>) st, ws)"
| call: "icstep n (st, ws) (st\<lparr>ic_error := err\<rparr>, ws)"
| claim: "m_flags (mnts st k) = MFREE \<Longrightarrow> \<forall>l. used st l \<longrightarrow> m_dev (mnts st l) \<noteq> d \<Longrightarrow> icstep n (st, ws) (mount_take k d st, ws)"
| enter: "mountable k i r st \<Longrightarrow> icstep n (st, ws) (mount_enter k i r st, ws)"
| umnt: "m_flags (mnts st k) = MINUSE \<Longrightarrow> m_inodp (mnts st k) = Some i \<Longrightarrow> umount e n k st = (st', r) \<Longrightarrow> icstep n (st, ws) (st', ws)"
| mfree: "m_flags (mnts st k) = MINTER \<Longrightarrow> \<forall>i. hashed st i \<longrightarrow> fst (key st i) \<noteq> m_dev (mnts st k) \<Longrightarrow> k \<notin> fst ` set ws \<Longrightarrow>
    icstep n (st, ws) (mount_free k st, ws)"

text \<open>A mount entry in use keeps its device until it is freed.\<close>

definition kept :: "icst \<Rightarrow> icst \<Rightarrow> bool" where
  "kept st st' \<longleftrightarrow> (\<forall>k. used st k \<longrightarrow> used st' k \<and> m_dev (mnts st' k) = m_dev (mnts st k))"

lemma kept_refl [simp, intro]: "kept st st" by (simp add: kept_def)

lemma kept_trans: "kept a b \<Longrightarrow> kept b c \<Longrightarrow> kept a c" by (simp add: kept_def)

lemma kept_mnts: "mnts b = mnts a \<Longrightarrow> kept a b" by (simp add: kept_def used_def)

lemma kept_sets [simp]: "kept a (sets i f b) = kept a b" by (simp add: kept_def used_def sets_def)

lemma kept_setm: "kept a b \<Longrightarrow> m_flags (f (mnts b k)) \<noteq> MFREE \<or> m_flags (mnts b k) = MFREE \<Longrightarrow> m_dev (f (mnts b k)) = m_dev (mnts b k)
    \<Longrightarrow> kept a (setm k f b)"
  by (auto simp: kept_def used_def setm_def)

lemma kept_count: "kept a b \<Longrightarrow> kept a (setm k (\<lambda>m. m\<lparr>m_count := F m\<rparr>) b)"
  by (auto simp: kept_def used_def setm_def)

lemma kept_lists [simp]:
  "kept a (b\<lparr>ifreel := l\<rparr>) = kept a b" "kept a (b\<lparr>hino := h\<rparr>) = kept a b" "kept a (b\<lparr>ilist := x\<rparr>) = kept a b"
  "kept a (b\<lparr>ic_error := e\<rparr>) = kept a b" "kept a (b\<lparr>ic_log := g\<rparr>) = kept a b" "kept a (b\<lparr>ic_woken := w\<rparr>) = kept a b" "kept a (unhash i b) = kept a b"
  by (simp_all add: kept_def used_def unhash_def)

lemma kept_locks [simp]: "kept a (prele i b) = kept a b" "kept a (fst (plock i b)) = kept a b"
  by (simp_all add: prele_def plock_def Let_def)

lemma kept_slots: "kept a b \<Longrightarrow> kept a (take_slot mp d x i b)" "kept a b \<Longrightarrow> kept a (found_slot mp i b)"
  by (simp_all add: take_slot_def found_slot_def Let_def kept_count)

lemma kept_upd [simp]: "kept a (upd_slot e i b) = kept a b" "kept a (trunc_slot e i b) = kept a b" "kept a (free_slot e i b) = kept a b"
  by (simp_all add: upd_slot_def trunc_slot_def free_slot_def Let_def)

lemma kept_iput: "kept a b \<Longrightarrow> iput e i b = Some b' \<Longrightarrow> kept a b'"
  by (auto simp: iput_def iput_last_def Let_def kept_count split: if_splits)

lemma kept_iget_at:
  assumes "iget_at mp d x start st = Some y"
  shows "kept st (fst y)"
proof (rule iget_at.raw_induct [OF _ assms])
  fix f :: "nat \<Rightarrow> u16 \<Rightarrow> u16 \<Rightarrow> nat option \<Rightarrow> icst \<Rightarrow> (icst \<times> iget_res) option" and mp d x start st y
  assume "\<And>mp d x start st y. f mp d x start st = Some y \<Longrightarrow> kept st (fst y)"
  then show "(case (if start = None then find (\<lambda>i. sl_number (tab st i) = x \<and> sl_dev (tab st i) = d) (hino st (ihash x)) else start) of
        None \<Rightarrow>
          (case find (\<lambda>i. \<not> flg st i ILOCK) (ifreel st) of
             None \<Rightarrow> Some (st\<lparr>ic_error := Some ENFILE\<rparr>, INone)
           | Some i \<Rightarrow> Some (take_slot mp d x i st, IReading i))
      | Some i \<Rightarrow>
          if flg st i ILAND then Some (sets i (\<lambda>s. s\<lparr>sl_count := sl_count s + 1\<rparr>) st, IGot i)
          else if flg st i ILOCK then Some (sets i (\<lambda>s. s\<lparr>sl_flag := sl_flag s \<union> {IWANT}\<rparr>) st, ISleep i mp d x)
          else if flg st i IMOUNT then
            (let k = sl_mount (tab st i); m = mnts st k in
             if m_inodp m = Some i then f k (m_dev m) ROOTINO (m_mount m) st else Some (st, IPanic))
          else Some (found_slot mp i st, IGot i)) = Some y \<Longrightarrow> kept st (fst y)"
    by (auto simp: Let_def kept_slots split: option.splits if_splits)
qed

lemma kept_iget: "iget mp x st = Some (st', r) \<Longrightarrow> kept st st'"
  using kept_iget_at [where y = "(st', r)"] by (auto simp: iget_def split: option.splits if_splits)

lemma kept_iread: "iread_slot e i st = Some (st', r) \<Longrightarrow> kept st st'"
  by (auto simp: iread_slot_def Let_def split: prod.splits option.splits intro: kept_iput [rotated])

lemma kept_flush: "kept a st \<Longrightarrow> kept a (fst (iflush_from d i m st))"
proof (induction d i m st rule: iflush_from.induct)
  case (2 d i m st)
  have "kept a st1" if "plock i st = (st1, ok)" for st1 ok using 2(3) kept_locks(2) [of a i st] that by simp
  then show ?case using 2 by (auto split: prod.split bool.split)
qed simp

lemma kept_umount: "umount e n k st = (st', r) \<Longrightarrow> m_flags (mnts st k) = MINUSE \<Longrightarrow> kept st st'"
proof -
  assume u: "umount e n k st = (st', r)"
  obtain st1 x where r: "umount_root e k st = (st1, x)" by fastforce
  have 1: "kept st st1"
  proof (cases "m_mount (mnts st k)")
    case (Some q)
    obtain s ok where p: "plock q st = (s, ok)" by fastforce
    then have "kept st s" using kept_locks(2) [of st q st] by simp
    then show ?thesis using r Some p kept_iput [of st s e q]
      by (auto simp: umount_root_def intro!: kept_setm split: bool.splits option.splits)
  qed (use r in \<open>simp add: umount_root_def\<close>)
  obtain st2 fr where f: "iflush n (m_dev (mnts st1 k)) st1 = (st2, fr)" by fastforce
  have "kept st st2" using kept_flush [OF 1, of "m_dev (mnts st1 k)" 0 n] f by (simp add: iflush_def)
  moreover from this have "kept st (setm k (\<lambda>m. m\<lparr>m_flags := MINTER\<rparr>) st2)" by (rule kept_setm) simp_all
  ultimately show "kept st st'" using u 1
    by (auto simp: umount_def r f Let_def setm_at intro!: kept_setm split: option.splits iflush_res.splits)
qed

lemma kept_enter: "mountable k i r st \<Longrightarrow> kept st (mount_enter k i r st)"
  by (simp add: mount_enter_def Let_def mountable_def)
    (auto simp: kept_def used_def setm_def prele_def sets_def Let_def)

text \<open>The table and the mounts when \<^verbatim>\<open>inoinit\<close> is called: only the root file system is mounted.\<close>

definition boot :: "icst \<Rightarrow> bool" where
  "boot st \<longleftrightarrow> (\<forall>i. sl_count (tab st i) = 0 \<and> sl_flag (tab st i) = {}) \<and> (\<forall>k. (m_flags (mnts st k) \<noteq> MFREE) = (k = 0)) \<and>
     (\<forall>k. m_count (mnts st k) = 0 \<and> m_inodp (mnts st k) = None \<and> m_mount (mnts st k) = None)"

lemma inoinit_fold: "fold (\<lambda>i st. st\<lparr>ifreel := i # ifreel st\<rparr>) is st = st\<lparr>ifreel := rev is @ ifreel st\<rparr>"
  by (induction "is" arbitrary: st) auto

lemma boot_inv: "boot st \<Longrightarrow> ic_inv n (inoinit n st)"
  unfolding inoinit_def inoinit_fold
  by (auto simp: boot_def ic_inv_def slots_ok_def mounts_ok_def cnt_def key_def hashed_def flg_def used_def active_in_def)

lemma hold_inv:
  assumes "ic_inv n st" "i < n" "0 < cnt st i"
  shows "ic_inv n (sets i (\<lambda>s. s\<lparr>sl_count := sl_count s + 1\<rparr>) st)"
proof -
  let ?st' = "sets i (\<lambda>s. s\<lparr>sl_count := sl_count s + 1\<rparr>) st"
  have s: "slots_ok n st" and m: "mounts_ok n {} st" using assms(1) by (simp_all add: ic_inv_def)
  have r: "recount i (cnt st i + 1) st ?st'" using assms(3) by (simp add: recount_def sets_def key_def flg_def cnt_def)
  have "slots_ok n ?st'"
    using slots_okD(1,2,5,7) [OF s] assms(2,3) by (intro slots_recount [OF s r assms(2)]) (auto simp: sets_def flg_def)
  moreover have "mounts_ok n {} ?st'" by (rule mounts_recount [OF m r assms(2)]) simp_all
  ultimately show ?thesis by (simp add: ic_inv_def)
qed

text \<open>What a sleeper has kept is still true.\<close>

definition sleepers_ok :: "icst \<Rightarrow> (nat \<times> u16 \<times> u16) list \<Rightarrow> bool" where
  "sleepers_ok st ws \<longleftrightarrow> (\<forall>(k, d, x) \<in> set ws. used st k \<and> m_dev (mnts st k) = d)"

lemma sleepers_kept: "sleepers_ok st ws \<Longrightarrow> kept st st' \<Longrightarrow> sleepers_ok st' ws"
  by (auto simp: sleepers_ok_def kept_def)

lemma sleepers_append [simp]: "sleepers_ok st (vs @ ws) \<longleftrightarrow> sleepers_ok st vs \<and> sleepers_ok st ws"
  by (simp add: sleepers_ok_def ball_Un)

lemma sleepers_remove: "sleepers_ok st ws \<Longrightarrow> sleepers_ok st (remove1 w ws)"
  using set_remove1_subset [of w ws] by (auto simp: sleepers_ok_def)

lemma asleep_ok:
  assumes "get_post n st mp x (st', r)" "kept st st'"
  shows "sleepers_ok st' (asleep r)"
  using assms by (cases r) (auto simp: sleepers_ok_def kept_def)

lemma icstep_inv: "icstep n s s' \<Longrightarrow> ic_inv n (fst s) \<and> sleepers_ok (fst s) (snd s) \<Longrightarrow> ic_inv n (fst s') \<and> sleepers_ok (fst s') (snd s')"
proof (induction rule: icstep.induct)
  case (get st mp x st' r ws)
  have k: "kept st st'" by (rule kept_iget [OF get(2)])
  obtain mp' x' where "ic_inv n st'" "get_post n st mp' x' (st', r)" using iget_ok [of n st mp x] get by auto
  then show ?case using get asleep_ok [OF _ k] sleepers_kept [OF _ k, of ws] by simp
next
  case (resume mp d x ws st st' r)
  have u: "used st mp" "m_dev (mnts st mp) = d" using resume by (auto simp: sleepers_ok_def)
  have k: "kept st st'" using kept_iget_at [OF resume(2)] by simp
  obtain mp' x' where "used st mp'" "get_post n st mp' x' (st', r)" using iget_at_ok [of n st mp x] resume u by auto
  moreover from this have "ic_inv n st'" using get_post_inv [of n st mp' x' st' r] resume(3) by simp
  ultimately show ?case using resume asleep_ok [OF _ k] sleepers_remove [OF sleepers_kept [OF _ k, of ws]] by simp
next
  case (read i st e st' r ws)
  then show ?case using iread_slot_inv [of n st i e] sleepers_kept [OF _ kept_iread] by auto
next
  case (put i st e st' ws)
  then show ?case using iput_ok [of n st "{}" i e] sleepers_kept [OF _ kept_iput [OF kept_refl]] by (auto simp: ic_inv_def)
next
  case (lock st i st' ok ws)
  then show ?case using plock_inv [of n st i] sleepers_kept [of st ws st'] kept_locks(2) [of st i st] by simp
next
  case (unlock st ws i)
  then show ?case using prele_inv sleepers_kept [of st ws "prele i st"] by simp
next
  case (hold i st ws)
  then show ?case using hold_inv [of n st i] sleepers_kept [of st ws] by simp
next
  case (change fs st ws i x)
  then have "IMOUNT \<notin> fs" "ILOCK \<notin> fs" "ILAND \<notin> fs" and inv: "ic_inv n st" by auto
  then have "ic_inv n (sets i (\<lambda>s. s\<lparr>sl_ino := x, sl_flag := sl_flag s \<union> fs\<rparr>) st)" using inv_land [OF inv] inv_idle [OF inv]
    by (intro inv_view [OF inv]) (auto simp: same_view_def sets_def cnt_def key_def flg_def)
  then show ?case using change sleepers_kept [of st ws] by simp
next
  case (call st ws err)
  then show ?case using inv_error sleepers_kept [of st ws] by simp
next
  case (claim st k d ws)
  have "kept st (mount_take k d st)" using claim(1) by (simp add: kept_def used_def mount_take_def setm_def)
  then show ?case using claim mount_take_inv sleepers_kept by auto
next
  case (enter k i r st ws)
  then show ?case using mount_enter_inv sleepers_kept [OF _ kept_enter] by auto
next
  case (umnt st k i e st' r ws)
  then show ?case using umount_inv [of n st k i e] sleepers_kept [OF _ kept_umount] by auto
next
  case (mfree st k ws)
  have "used (mount_free k st) l \<and> m_dev (mnts (mount_free k st) l) = d" if "(l, d, x) \<in> set ws" for l d x
  proof -
    have "used st l \<and> m_dev (mnts st l) = d" "l \<noteq> k" using mfree(3,4) that by (force simp: sleepers_ok_def)+
    then show ?thesis by (simp add: mount_free_def setm_def used_def)
  qed
  then have "sleepers_ok (mount_free k st) ws" by (auto simp: sleepers_ok_def)
  then show ?case using mfree mount_free_inv by auto
qed

definition ic_reach :: "nat \<Rightarrow> icst \<Rightarrow> bool" where
  "ic_reach n st \<longleftrightarrow> (\<exists>st0 ws. boot st0 \<and> (icstep n)\<^sup>*\<^sup>* (inoinit n st0, []) (st, ws))"

lemma reach_inv: "ic_reach n st \<Longrightarrow> ic_inv n st"
proof -
  have "(icstep n)\<^sup>*\<^sup>* s s' \<Longrightarrow> ic_inv n (fst s) \<and> sleepers_ok (fst s) (snd s) \<Longrightarrow> ic_inv n (fst s') \<and> sleepers_ok (fst s') (snd s')" for s s'
    by (induction rule: rtranclp_induct) (auto dest: icstep_inv)
  then show "ic_reach n st \<Longrightarrow> ic_inv n st" using boot_inv by (fastforce simp: ic_reach_def sleepers_ok_def)
qed

text \<open>
  A sleeper that goes on with an entry freed meanwhile: its inode is in no chain any more, so \<^verbatim>\<open>iget\<close> takes a slot for it, and counts it
  in the free entry, which the next mount of any device is given.
\<close>

lemma stale_mount_counts:
  assumes "ic_inv n st" "\<not> used st mp" "\<forall>i. hashed st i \<longrightarrow> key st i \<noteq> (d, x)" "ifreel st \<noteq> []"
  shows "\<exists>i st'. iget_at mp d x None st = Some (st', IReading i) \<and> m_count (mnts st' mp) = m_count (mnts st mp) + 1
    \<and> sl_mount (tab st' i) = mp \<and> \<not> used st' mp"
proof -
  let ?f = "find (\<lambda>i. sl_number (tab st i) = x \<and> sl_dev (tab st i) = d) (hino st (ihash x))"
  have "?f = None" using chain_find [OF assms(1), where x = x and d = d] assms(3) by (cases ?f) auto
  moreover have "find (\<lambda>i. \<not> flg st i ILOCK) (ifreel st) = Some (hd (ifreel st))"
  proof -
    have "hd (ifreel st) \<in> set (ifreel st)" using assms(4) by simp
    then have "\<not> flg st (hd (ifreel st)) ILOCK" using assms(1) slots_okD(2) inv_idle [OF assms(1)] by (auto simp: ic_inv_def)
    then show ?thesis using assms(4) by (cases "ifreel st") simp_all
  qed
  ultimately have "iget_at mp d x None st = Some (take_slot mp d x (hd (ifreel st)) st, IReading (hd (ifreel st)))"
    by (subst iget_at.simps) simp
  then show ?thesis using assms(2) by (auto simp: take_slot_at used_def)
qed

section \<open>What is on the disk after a release\<close>

definition place :: "icst \<Rightarrow> nat \<Rightarrow> dinode" where
  "place st i = ilist st (sl_dev (tab st i)) (fsITOD (fsLRG (uint (sl_dev (tab st i)))) (sl_number (tab st i)))
     ! fsITOO (fsLRG (uint (sl_dev (tab st i)))) (sl_number (tab st i))"

definition storable :: "icenv \<Rightarrow> nat \<Rightarrow> icst \<Rightarrow> bool" where
  "storable e i st \<longleftrightarrow> ilist_ok (fsLRG (uint (sl_dev (tab st i)))) (ilist st (sl_dev (tab st i))) \<and> inode_ok (sl_ino (tab st i)) \<and>
     e_rd e (sl_dev (tab st i)) (fsITOD (fsLRG (uint (sl_dev (tab st i)))) (sl_number (tab st i))) \<and> \<not> e_ronly e (sl_mount (tab st i))"

definition stored :: "icst \<Rightarrow> nat \<Rightarrow> bool" where
  "stored st i \<longleftrightarrow> i_load (place st i) = (sl_ino (tab st i))\<lparr>i_addr := kept_addrs (sl_ino (tab st i))\<rparr>"

lemma upd_slot_at:
  "sl_ino (tab (upd_slot e i st) i) = sl_ino (tab st i)" "sl_dev (tab (upd_slot e i st) i) = sl_dev (tab st i)"
  "sl_number (tab (upd_slot e i st) i) = sl_number (tab st i)" "sl_mount (tab (upd_slot e i st) i) = sl_mount (tab st i)"
  "ic_log (upd_slot e i st) = ic_log st" "sl_flag (tab (upd_slot e i st) i) = iu_flag (upd_run e i st)"
  "ilist (upd_slot e i st) = (ilist st)(sl_dev (tab st i) := iu_dev (upd_run e i st))"
  by (simp_all add: upd_slot_def Let_def sets_def)

lemma upd_slot_stores:
  assumes "storable e i st"
  shows "storable e i (upd_slot e i st)" "stored (upd_slot e i st) i" "sl_flag (tab (upd_slot e i st) i) \<inter> {IACC, IUPD, ICHG} = {}"
proof -
  let ?lrg = "fsLRG (uint (sl_dev (tab st i)))" and ?x = "sl_number (tab st i)" and ?d = "sl_dev (tab st i)"
  note s = assms [unfolded storable_def]
  have run: "upd_run e i st = iupdat ?lrg (e_rd e ?d) False (e_time e) ?x (sl_ino (tab st i)) (e_time e) (e_time e) (read_env i st)"
    using s by (simp add: upd_run_def read_env_def Let_def)
  have il: "ilist_ok ?lrg (iu_dev (read_env i st))" using s by (simp add: read_env_def)
  have ok: "inode_ok (sl_ino (tab st i))" "e_rd e ?d (fsITOD ?lrg ?x)" using s by simp_all
  show "storable e i (upd_slot e i st)"
    using s ilist_ok_iupdat [OF il disk_ok_inode [OF ok(1)]] by (simp add: storable_def upd_slot_at run)
  show "stored (upd_slot e i st) i"
    using iupdat_dev [where rd = "e_rd e ?d", OF il ok(2)] i_load_save [OF disk_ok_inode [OF ok(1)]] by (simp add: stored_def place_def upd_slot_at run Let_def)
  show "sl_flag (tab (upd_slot e i st) i) \<inter> {IACC, IUPD, ICHG} = {}" using ok(2) by (auto simp: upd_slot_at run iupdat_def Let_def read_env_def)
qed

text \<open>The inode of a file without names when its last reference has gone.\<close>

definition gone :: "inode \<Rightarrow> inode" where
  "gone ip = (if i_mode ip AND IFMT \<in> {0x8000, 0x4000, 0xA000} then ip\<lparr>i_size := 0, i_addr := replicate NADDR 0, i_mode := 0\<rparr> else ip\<lparr>i_mode := 0\<rparr>)"

definition gone_log :: "u16 \<Rightarrow> u16 \<Rightarrow> inode \<Rightarrow> ilog list" where
  "gone_log d x ip = (if i_mode ip AND IFMT \<in> {0x8000, 0x4000, 0xA000} then [LTrunc d x (i_addr ip)] else []) @
     (if i_mode ip = 0 then [] else [LFree d x])"

lemma inode_ok_zero: "inode_ok (ip\<lparr>i_size := 0, i_addr := replicate NADDR 0\<rparr>)"
  by (simp add: inode_ok_def byte_of_def)

lemma iput_last_unlinked:
  assumes "storable e i st" "sint (i_nlink (sl_ino (tab st i))) \<le> 0"
  defines "st2 \<equiv> iput_last e i st"
  shows "stored st2 i \<and> sl_ino (tab st2 i) = gone (sl_ino (tab st i)) \<and>
    ic_log st2 = ic_log st @ gone_log (sl_dev (tab st i)) (sl_number (tab st i)) (sl_ino (tab st i))"
proof -
  let ?ip = "sl_ino (tab st i)" and ?d = "sl_dev (tab st i)" and ?x = "sl_number (tab st i)"
  let ?T = "i_mode ?ip AND IFMT \<in> {0x8000, 0x4000, 0xA000}"
  define sa where "sa = trunc_slot e i st"
  define sb where "sb = sets i (\<lambda>s. s\<lparr>sl_flag := sl_flag s \<union> {IUPD, ICHG}\<rparr>) sa"
  define sc where "sc = free_slot e i sb"
  define sd where "sd = (if sl_flag (tab sc i) \<inter> {IACC, IUPD, ICHG} \<noteq> {} then upd_slot e i sc else sc)"
  have log: "storable e i (s\<lparr>ic_log := l\<rparr>) = storable e i s" "stored (s\<lparr>ic_log := l\<rparr>) i = stored s i" for s l
    by (simp_all add: storable_def stored_def place_def)
  have fl: "storable e i (sets i (\<lambda>s. s\<lparr>sl_flag := F s\<rparr>) s) = storable e i s" for F s
    by (simp add: storable_def sets_def)
  have a: "storable e i sa" "sl_ino (tab sa i) = (if ?T then ?ip\<lparr>i_size := 0, i_addr := replicate NADDR 0\<rparr> else ?ip)"
    "sl_dev (tab sa i) = ?d" "sl_number (tab sa i) = ?x"
    "ic_log sa = ic_log st @ (if ?T then [LTrunc ?d ?x (i_addr ?ip)] else [])"
  proof -
    let ?s1 = "sets i (\<lambda>s. s\<lparr>sl_ino := ?ip\<lparr>i_size := 0, i_addr := replicate NADDR 0\<rparr>, sl_flag := sl_flag s \<union> {ISYN, ICHG, IUPD}\<rparr>) st"
    have "storable e i ?s1" using assms(1) inode_ok_zero by (simp add: storable_def sets_def)
    from upd_slot_stores(1) [OF this] show "storable e i sa"
      using assms(1) unfolding sa_def trunc_slot_def Let_def by (simp add: log)
  qed (auto simp: sa_def trunc_slot_def Let_def upd_slot_at sets_def)
  have b: "storable e i sb" "sl_ino (tab sb i) = sl_ino (tab sa i)" "sl_dev (tab sb i) = ?d" "sl_number (tab sb i) = ?x" "ic_log sb = ic_log sa"
    "IUPD \<in> sl_flag (tab sb i)" using a fl by (simp_all add: sb_def) (simp_all add: sets_def a)
  have m: "i_mode (sl_ino (tab sb i)) = i_mode ?ip" by (simp add: b(2) a(2))
  have d: "stored sd i \<and> sl_ino (tab sd i) = (sl_ino (tab sb i))\<lparr>i_mode := 0\<rparr> \<and> ic_log sd = ic_log sb @ (if i_mode ?ip = 0 then [] else [LFree ?d ?x])"
  proof (cases "i_mode ?ip = 0")
    case True
    then have sc: "sc = sb" by (simp add: sc_def free_slot_def Let_def m)
    then have "sd = upd_slot e i sb" using b(6) by (auto simp: sd_def)
    moreover have "(sl_ino (tab sb i))\<lparr>i_mode := 0\<rparr> = sl_ino (tab sb i)" using True m by (cases "sl_ino (tab sb i)") simp
    ultimately show ?thesis using upd_slot_stores(2) [OF b(1)] True by (simp only: upd_slot_at) simp
  next
    case False
    let ?s1 = "sets i (\<lambda>s. s\<lparr>sl_ino := (sl_ino (tab sb i))\<lparr>i_mode := 0\<rparr>\<rparr>) sb"
    have "storable e i ?s1" using b(1) by (simp add: storable_def sets_def inode_ok_def)
    note u = upd_slot_stores(2,3) [OF this]
    have sc: "sc = (upd_slot e i ?s1)\<lparr>ic_log := ic_log sb @ [LFree ?d ?x]\<rparr>"
      using False m by (simp add: sc_def free_slot_def Let_def b upd_slot_at) (simp add: sets_def b(5))
    then have "sd = sc" using u(2) by (simp add: sd_def)
    with u(1) False show ?thesis by (simp add: sc log upd_slot_at) (simp add: sets_def)
  qed
  have "st2 = setm (sl_mount (tab sd i)) (\<lambda>m. m\<lparr>m_count := m_count m - 1\<rparr>) (sd\<lparr>ifreel := ifreel sd @ [i]\<rparr>)"
    unfolding st2_def iput_last_def Let_def sd_def sc_def sb_def sa_def using assms(2) by simp
  then show ?thesis using d a(2,5) b(2,5) by (auto simp: stored_def place_def setm_def gone_def gone_log_def)
qed

lemma iput_last_linked:
  assumes "storable e i st" "0 < sint (i_nlink (sl_ino (tab st i)))"
  defines "st2 \<equiv> iput_last e i st"
  shows "(sl_flag (tab st i) \<inter> {IACC, IUPD, ICHG} \<noteq> {} \<longrightarrow> stored st2 i) \<and> sl_ino (tab st2 i) = sl_ino (tab st i) \<and> ic_log st2 = ic_log st"
proof -
  let ?sd = "if sl_flag (tab st i) \<inter> {IACC, IUPD, ICHG} \<noteq> {} then upd_slot e i st else st"
  have "st2 = setm (sl_mount (tab ?sd i)) (\<lambda>m. m\<lparr>m_count := m_count m - 1\<rparr>) (?sd\<lparr>ifreel := ifreel ?sd @ [i]\<rparr>)"
    using assms(2) by (simp add: st2_def iput_last_def Let_def)
  then show ?thesis using upd_slot_stores(2) [OF assms(1)]
    by (auto simp: stored_def place_def setm_def upd_slot_at)
qed

section \<open>Properties\<close>

text \<open>
  C32: In every run of the steps above (gets that sleep and go on later with the mount, device and number they kept, reads, releases,
  locks, mounts and unmounts in any order): no two slots in use hold the same inode; the free list is exactly the slots without references,
  none of them locked; and each entry of the mount table counts the inodes of its file system that are in use. The runs are those in which
  a mount entry is entered while nobody but the mounter has an inode of the file system (\<open>mountable\<close>), no two processes unmount the same
  file system at once, and an entry is set free only when no inode of its device is in a chain and nobody sleeps in
  \<^verbatim>\<open>iget\<close> on its account; the code checks none of the three.
\<close>

theorem inode_table_safe:
  assumes "ic_reach n st"
  shows "(\<forall>i j. i < n \<longrightarrow> j < n \<longrightarrow> 0 < sl_count (tab st i) \<longrightarrow> 0 < sl_count (tab st j) \<longrightarrow>
            sl_dev (tab st i) = sl_dev (tab st j) \<longrightarrow> sl_number (tab st i) = sl_number (tab st j) \<longrightarrow> i = j) \<and>
    distinct (ifreel st) \<and> set (ifreel st) = {i. i < n \<and> sl_count (tab st i) = 0} \<and> (\<forall>i\<in>set (ifreel st). \<not> flg st i ILOCK) \<and>
    (\<forall>k. m_count (mnts st k) = int (card {i. i < n \<and> 0 < sl_count (tab st i) \<and> home st i = k}))"
proof -
  have s: "slots_ok n st" and m: "mounts_ok n {} st" using reach_inv [OF assms] by (simp_all add: ic_inv_def)
  note S = slots_okD [OF s]
  have "\<forall>i j. i < n \<longrightarrow> j < n \<longrightarrow> 0 < sl_count (tab st i) \<longrightarrow> 0 < sl_count (tab st j) \<longrightarrow>
      sl_dev (tab st i) = sl_dev (tab st j) \<longrightarrow> sl_number (tab st i) = sl_number (tab st j) \<longrightarrow> i = j"
    using S(5,6) unfolding cnt_def key_def by blast
  then show ?thesis using S(1,2,8) mounts_okD(3) [OF m] unfolding active_in_def cnt_def by auto
qed

text \<open>
  C33: \<^verbatim>\<open>iget\<close> always returns and never panics. What it returns is the inode the pair of file system and number leads to,
  through a mount if there is one: locked, with one reference more, from its slot if it has one, otherwise in a slot
  nobody used. If its slot is locked the process sleeps on that; it fails, with
  \<^verbatim>\<open>ENFILE\<close>, only when all slots are in use.
\<close>

theorem iget_finds:
  assumes "ic_reach n st" "used st mp"
  shows "\<exists>st' r mp' x'. iget mp x st = Some (st', r) \<and> (leads st mp x mp' x' \<or> (\<exists>i. r = ISleep i mp (m_dev (mnts st mp)) x)) \<and>
    (case r of
       IGot i \<Rightarrow> key st' i = (m_dev (mnts st mp'), x') \<and> flg st' i ILOCK \<and> \<not> flg st i ILOCK \<and> cnt st' i = cnt st i + 1 \<and>
         key st i = key st' i \<and> sl_ino (tab st' i) = sl_ino (tab st i)
     | IReading i \<Rightarrow> key st' i = (m_dev (mnts st mp'), x') \<and> flg st' i ILOCK \<and> cnt st i = 0 \<and> cnt st' i = 1 \<and>
         (\<forall>j. 0 < cnt st j \<longrightarrow> j < n \<longrightarrow> key st j \<noteq> key st' i)
     | ISleep i k d y \<Rightarrow> key st i = (d, y) \<and> d = m_dev (mnts st k) \<and> flg st i ILOCK \<and> flg st' i IWANT \<and> cnt st' = cnt st
     | INone \<Rightarrow> (\<forall>i<n. 0 < cnt st i) \<and> ic_error st' = Some ENFILE
     | IPanic \<Rightarrow> False)"
proof -
  have inv: "ic_inv n st" by (rule reach_inv [OF assms(1)])
  obtain st' r mp' x' where g: "iget mp x st = Some (st', r)" "get_post n st mp' x' (st', r)"
    "leads st mp x mp' x' \<or> (\<exists>i. r = ISleep i mp (m_dev (mnts st mp)) x)"
    using iget_ok [OF inv assms(2), of x] by blast
  have S: "set (ifreel st) = {i. i < n \<and> cnt st i = 0}" "\<And>j. j < n \<Longrightarrow> 0 < cnt st j \<Longrightarrow> hashed st j"
    using inv slots_okD(2,5) unfolding ic_inv_def by blast+
  have found: "key (found_slot mp' i st) i = key st i" "cnt (found_slot mp' i st) i = cnt st i + 1" for i
    by (simp_all add: found_slot_def Let_def sets_def setm_def key_def cnt_def)
  have "case r of
       IGot i \<Rightarrow> key st' i = (m_dev (mnts st mp'), x') \<and> flg st' i ILOCK \<and> \<not> flg st i ILOCK \<and> cnt st' i = cnt st i + 1 \<and>
         key st i = key st' i \<and> sl_ino (tab st' i) = sl_ino (tab st i)
     | IReading i \<Rightarrow> key st' i = (m_dev (mnts st mp'), x') \<and> flg st' i ILOCK \<and> cnt st i = 0 \<and> cnt st' i = 1 \<and>
         (\<forall>j. 0 < cnt st j \<longrightarrow> j < n \<longrightarrow> key st j \<noteq> key st' i)
     | ISleep i k d y \<Rightarrow> key st i = (d, y) \<and> d = m_dev (mnts st k) \<and> flg st i ILOCK \<and> flg st' i IWANT \<and> cnt st' = cnt st
     | INone \<Rightarrow> (\<forall>i<n. 0 < cnt st i) \<and> ic_error st' = Some ENFILE
     | IPanic \<Rightarrow> False"
    using g(2) S by (cases r) (auto simp: found found_slot_at take_slot_at flg_def, auto simp: sets_def cnt_def key_def flg_def fun_eq_iff)
  with g(1,3) show ?thesis by blast
qed

text \<open>
  C34: Releasing the last reference. When the inode can be written, it is on the disk afterwards as it is in the
  table, if anything in it had changed; its slot is the last of the free list and unlocked. When the file has no name left, its blocks are
  freed, then the inode, and what is written is an inode of mode 0; a file with a name loses nothing.
\<close>

theorem iput_stores:
  assumes "ic_reach n st" "i < n" "droppable {} i st" "cnt st i = 1" "storable e i st"
  defines "ip \<equiv> sl_ino (tab st i)"
  shows "\<exists>st'. iput e i st = Some st' \<and> ifreel st' = ifreel st @ [i] \<and> \<not> flg st' i ILOCK \<and> cnt st' i = 0 \<and>
    (if sint (i_nlink ip) \<le> 0
     then stored st' i \<and> sl_ino (tab st' i) = gone ip \<and> ic_log st' = ic_log st @ gone_log (sl_dev (tab st i)) (sl_number (tab st i)) ip
     else (sl_flag (tab st i) \<inter> {IACC, IUPD, ICHG} \<noteq> {} \<longrightarrow> stored st' i) \<and> sl_ino (tab st' i) = ip \<and> ic_log st' = ic_log st)"
proof -
  have inv: "slots_ok n st" "mounts_ok n {} st" using reach_inv [OF assms(1)] by (simp_all add: ic_inv_def)
  obtain st' where st': "iput e i st = Some st'" "released i st st'" using iput_ok [OF inv assms(2,3)] by blast
  define s2 where "s2 = sets i (\<lambda>s. s\<lparr>sl_count := sl_count s - 1\<rparr>) (iput_last e i st)"
  have e: "st' = prele i s2" using st'(1) assms(4) by (simp add: iput_def Let_def s2_def cnt_def split: if_splits)
  have pl: "ilist (prele i s) = ilist s" "sl_ino (tab (prele i s) i) = sl_ino (tab s i)" "ic_log (prele i s) = ic_log s"
    "sl_dev (tab (prele i s) i) = sl_dev (tab s i)" "sl_number (tab (prele i s) i) = sl_number (tab s i)" for s
    by (simp_all add: prele_def Let_def sets_def)
  have keep: "stored st' i = stored (iput_last e i st) i" "sl_ino (tab st' i) = sl_ino (tab (iput_last e i st) i)" "ic_log st' = ic_log (iput_last e i st)"
    by (simp_all add: e stored_def place_def pl) (simp_all add: s2_def sets_def)
  have "ifreel st' = ifreel st @ [i]" "\<not> flg st' i ILOCK" "cnt st' i = 0"
    using st'(2) assms(4) by (simp_all add: released_def recount_def)
  then show ?thesis using st'(1) iput_last_unlinked [OF assms(5)] iput_last_linked [OF assms(5)]
    unfolding ip_def by (intro exI [of _ st'] conjI) (simp_all add: keep)
qed

text \<open>A slot in its chain is found, when nothing holds or covers it.\<close>

lemma iget_hit:
  assumes "ic_inv n st" "hashed st i" "key st i = (m_dev (mnts st mp), x)" "\<not> flg st i ILOCK" "\<not> flg st i IMOUNT"
  shows "iget mp x st = Some (found_slot mp i st, IGot i)"
proof -
  let ?f = "find (\<lambda>i. sl_number (tab st i) = x \<and> sl_dev (tab st i) = m_dev (mnts st mp)) (hino st (ihash x))"
  have f: "?f = Some i"
  proof (cases ?f)
    case None
    with chain_find [OF assms(1), where x = x and d = "m_dev (mnts st mp)"] assms(2,3) show ?thesis by simp
  next
    case (Some j)
    with chain_find [OF assms(1), where x = x and d = "m_dev (mnts st mp)"] have "hashed st j" "key st j = key st i" by (simp_all add: assms(3))
    with Some assms(1,2) slots_okD(6) show ?thesis unfolding ic_inv_def by blast
  qed
  have "iget mp x st = iget_at mp (m_dev (mnts st mp)) x None st"
    using inv_land [OF assms(1)] by (simp add: iget_def split: option.split)
  then show ?thesis using inv_land [OF assms(1)] assms(4,5) by (subst (asm) iget_at.simps) (simp add: f)
qed

lemma taken:
  assumes "ic_inv n st" "used st mp" "iget mp x st = Some (st1, IReading i)"
  shows "\<exists>mp' x'. st1 = take_slot mp' (m_dev (mnts st mp')) x' i st \<and> used st mp' \<and> ic_inv n st1 \<and> i < n \<and> hashed st1 i \<and>
    (\<forall>err. droppable {} i (st1\<lparr>ic_error := err\<rparr>))"
proof -
  obtain mp' x' where g: "get_post n st mp' x' (st1, IReading i)" "used st mp'" "ic_inv n st1"
    using iget_ok [OF assms(1,2), of x] assms(3) by auto
  then have st1: "st1 = take_slot mp' (m_dev (mnts st mp')) x' i st" by simp
  note t = take_slot_at(2-) [of mp' "m_dev (mnts st mp')" x' i st, folded st1]
  have i: "i < n" "cnt st i = 0" using g(1) slots_okD(2) [of n st] assms(1) by (auto simp: ic_inv_def)
  have "m_mount (mnts st1 k) \<noteq> Some i" for k
  proof
    assume "m_mount (mnts st1 k) = Some i"
    then have "0 < cnt st i" using mounts_okD(6) [of n "{}" st k i] assms(1) by (simp add: ic_inv_def t(8))
    with i(2) show False by simp
  qed
  then have "droppable {} i (st1\<lparr>ic_error := err\<rparr>)" for err using t(2,3) by (simp add: droppable_def flg_def)
  moreover have "hashed st1 i" by (simp add: hashed_def t(1,7))
  ultimately show ?thesis using st1 g i by blast
qed

lemma iput_clean:
  assumes "iput e i st = Some st'" "cnt st i = 1" "sl_flag (tab st i) \<inter> {IACC, IUPD, ICHG} = {}" "0 < sint (i_nlink (sl_ino (tab st i)))"
  shows "sl_ino (tab st' i) = sl_ino (tab st i)"
proof -
  have "iput_last e i st = setm (sl_mount (tab st i)) (\<lambda>m. m\<lparr>m_count := m_count m - 1\<rparr>) (st\<lparr>ifreel := ifreel st @ [i]\<rparr>)"
    using assms(3,4) by (simp add: iput_last_def Let_def)
  then show ?thesis using assms(1,2)
    by (auto simp: iput_def Let_def cnt_def prele_def sets_def setm_def split: if_splits)
qed

text \<open>
  C35: An inode that cannot be read. When \<^verbatim>\<open>iread\<close> fails, it releases the slot as \<^verbatim>\<open>iput\<close> does and leaves it in its chain. The
  next \<^verbatim>\<open>iget\<close> of the same inode does not read the disk again: it finds the slot, and returns, as if it were
  the inode asked for, the one the slot held before.
\<close>

theorem failed_read_is_cached:
  assumes "ic_reach n st" "used st mp" "iget mp x st = Some (st1, IReading i)" "0 < sint (i_nlink (sl_ino (tab st i)))"
  defines "d \<equiv> sl_dev (tab st1 i)" and "y \<equiv> sl_number (tab st1 i)"
  assumes "\<not> e_rd e d (fsITOD (fsLRG (uint d)) y)"
  shows "\<exists>st2 st3. iread_slot e i st1 = Some (st2, INone) \<and> iget (sl_mount (tab st1 i)) y st2 = Some (st3, IGot i) \<and>
    sl_ino (tab st3 i) = sl_ino (tab st i)"
proof -
  have inv: "ic_inv n st" by (rule reach_inv [OF assms(1)])
  obtain mp' x' where g: "st1 = take_slot mp' (m_dev (mnts st mp')) x' i st" "used st mp'" "ic_inv n st1" "i < n" "hashed st1 i"
    "\<And>err. droppable {} i (st1\<lparr>ic_error := err\<rparr>)" using taken [OF inv assms(2,3)] by blast
  note t = take_slot_at(2-) [of mp' "m_dev (mnts st mp')" x' i st, folded g(1)]
  obtain err where r: "iread_slot e i st1 = map_option (\<lambda>st2. (st2, INone)) (iput e i (st1\<lparr>ic_error := err\<rparr>))"
    using iread_slot_cases [of st1 e i] assms(7) by (auto simp: d_def y_def)
  let ?s = "st1\<lparr>ic_error := err\<rparr>"
  obtain st2 where st2: "iput e i ?s = Some st2" "released i ?s st2" "slots_ok n st2" "mounts_ok n {} st2"
    using iput_ok [of n ?s "{}" i e, OF _ _ g(4,6)] inv_error [OF g(3)] by (auto simp: ic_inv_def)
  then have inv2: "ic_inv n st2" by (simp add: ic_inv_def)
  have same: "key st2 i = key st1 i" "hino st2 = hino st1" "flg st2 i IMOUNT = flg st1 i IMOUNT" "\<not> flg st2 i ILOCK"
    "\<And>k. m_dev (mnts st2 k) = m_dev (mnts st1 k)"
    using st2(2) by (simp_all add: released_def recount_def key_def flg_def)
  have "sl_ino (tab st2 i) = sl_ino (tab st i)"
    using iput_clean [OF st2(1)] t(2,3,6) assms(4) by (simp add: cnt_def)
  moreover have "iget mp' x' st2 = Some (found_slot mp' i st2, IGot i)"
  proof (rule iget_hit [OF inv2])
    show "hashed st2 i" using g(5) by (simp add: hashed_def same)
    show "key st2 i = (m_dev (mnts st2 mp'), x')" by (simp add: same t(1,8))
    show "\<not> flg st2 i ILOCK" "\<not> flg st2 i IMOUNT" using same t(3) by (simp_all add: flg_def)
  qed
  moreover have "sl_mount (tab st1 i) = mp'" "y = x'" using t(1,4) by (simp_all add: y_def key_def)
  ultimately show ?thesis using r st2(1) by (auto simp: found_slot_at)
qed

section \<open>A sample run\<close>

text \<open>Two slots; the root inode is got, read, changed and released.\<close>

definition demo_start :: icst where
  "demo_start = \<lparr>tab = (\<lambda>_. \<lparr>sl_flag = {}, sl_count = 0, sl_dev = 0, sl_number = 0, sl_mount = 0, sl_lastr = 0, sl_ino = demo_ip\<rparr>),
     hino = (\<lambda>_. []), ifreel = [],
     mnts = (\<lambda>k. \<lparr>m_flags = (if k = 0 then MINUSE else MFREE), m_dev = 0, m_inodp = None, m_mount = None, m_count = 0, m_omnt = None\<rparr>),
     ilist = (\<lambda>_. demo_ilist), ic_error = None, ic_log = [], ic_woken = []\<rparr>"

definition demo_ic0 :: icst where "demo_ic0 = demo_start\<lparr>ifreel := [1, 0]\<rparr>"
definition demo_ic1 :: icst where "demo_ic1 = take_slot 0 0 2 1 demo_ic0"
definition demo_ic2 :: icst where "demo_ic2 = sets 1 (\<lambda>s. s\<lparr>sl_ino := demo_ip\<lparr>i_size := 800\<rparr>, sl_flag := sl_flag s \<union> {IUPD}\<rparr>) demo_ic1"
definition demo_env :: "bool \<Rightarrow> icenv" where "demo_env ok = \<lparr>e_rd = (\<lambda>_ _. ok), e_ronly = (\<lambda>_. False), e_time = 50\<rparr>"

lemma demo_init: "inoinit 2 demo_start = demo_ic0"
  by (simp add: inoinit_def inoinit_fold demo_ic0_def demo_start_def numeral_2_eq_2)

lemma demo_get: "iget 0 2 demo_ic0 = Some (demo_ic1, IReading 1)"
  by (simp add: iget_def iget_at.simps demo_ic1_def demo_ic0_def demo_start_def flg_def)

lemma demo_reach: "ic_reach 2 demo_ic0" "ic_reach 2 demo_ic1" "ic_reach 2 demo_ic2"
proof -
  have b: "boot demo_start" by (simp add: boot_def demo_start_def)
  have s1: "icstep 2 (demo_ic0, []) (demo_ic1, [])"
    using icstep.get [OF _ demo_get, of 2 "[]"] by (simp add: used_def demo_ic0_def demo_start_def)
  have s2: "icstep 2 (demo_ic1, []) (demo_ic2, [])" unfolding demo_ic2_def by (rule icstep.change) simp
  have "(icstep 2)\<^sup>*\<^sup>* (demo_ic0, []) (demo_ic0, [])" "(icstep 2)\<^sup>*\<^sup>* (demo_ic0, []) (demo_ic1, [])" "(icstep 2)\<^sup>*\<^sup>* (demo_ic0, []) (demo_ic2, [])"
    using s1 s2 by (auto intro: rtranclp.rtrancl_into_rtrancl)
  then show "ic_reach 2 demo_ic0" "ic_reach 2 demo_ic1" "ic_reach 2 demo_ic2"
    using b unfolding ic_reach_def demo_init [symmetric] by blast+
qed

lemma demo_used: "used demo_ic0 0" by (simp add: used_def demo_ic0_def demo_start_def)

theorem inode_table_safe_witness: "m_count (mnts demo_ic1 0) = 1 \<and> card {i. i < 2 \<and> 0 < sl_count (tab demo_ic1 i) \<and> home demo_ic1 i = 0} = 1"
proof -
  have "m_count (mnts demo_ic1 0) = 1" by (simp add: demo_ic1_def take_slot_at demo_ic0_def demo_start_def)
  moreover have "m_count (mnts demo_ic1 0) = int (card {i. i < 2 \<and> 0 < sl_count (tab demo_ic1 i) \<and> home demo_ic1 i = 0})"
    using inode_table_safe [OF demo_reach(2)] by blast
  ultimately show ?thesis by simp
qed

theorem iget_finds_witness: "\<exists>mp' x'. leads demo_ic0 0 2 mp' x' \<and> key demo_ic1 1 = (m_dev (mnts demo_ic0 mp'), x') \<and> flg demo_ic1 1 ILOCK"
  using iget_finds [OF demo_reach(1) demo_used, of 2] demo_get by auto

theorem iput_stores_witness: "\<exists>st'. iput (demo_env True) 1 demo_ic2 = Some st' \<and> stored st' 1 \<and> sl_ino (tab st' 1) = demo_ip\<lparr>i_size := 800\<rparr> \<and> ic_log st' = []"
proof -
  have t: "sl_flag (tab demo_ic2 1) = {ILOCK, IUPD}" "sl_ino (tab demo_ic2 1) = demo_ip\<lparr>i_size := 800\<rparr>" "cnt demo_ic2 1 = 1"
    "mnts demo_ic2 = mnts demo_ic1" "ic_log demo_ic2 = []" "ilist demo_ic2 = (\<lambda>_. demo_ilist)" "sl_dev (tab demo_ic2 1) = 0"
    by (auto simp: demo_ic2_def demo_ic1_def sets_def cnt_def take_slot_def Let_def setm_def unhash_def demo_ic0_def demo_start_def)
  have lrg: "\<not> fsLRG 0" by (simp add: fsLRG_def)
  have "droppable {} 1 demo_ic2"
    using t by (simp add: droppable_def flg_def demo_ic1_def take_slot_at demo_ic0_def demo_start_def)
  moreover have "inode_ok (demo_ip\<lparr>i_size := 800\<rparr>)" using demo_ip_ok by (simp add: inode_ok_def)
  then have "storable (demo_env True) 1 demo_ic2"
    using demo_ilist_ok lrg by (simp add: storable_def t [simplified] demo_env_def demo_iu_def)
  moreover have "\<not> sint (i_nlink (sl_ino (tab demo_ic2 1))) \<le> 0" by (simp add: t [simplified] demo_ip_def)
  ultimately show ?thesis using iput_stores [OF demo_reach(3), of 1 "demo_env True"] t(1,2,3,5) by auto
qed

theorem failed_read_is_cached_witness:
  "\<exists>st2 st3. iread_slot (demo_env False) 1 demo_ic1 = Some (st2, INone) \<and> iget 0 2 st2 = Some (st3, IGot 1) \<and> sl_ino (tab st3 1) = demo_ip"
proof -
  have t: "sl_number (tab demo_ic1 1) = 2" "sl_mount (tab demo_ic1 1) = 0" "sl_ino (tab demo_ic0 1) = demo_ip" "0 < sint (i_nlink demo_ip)"
    by (simp_all add: demo_ic1_def take_slot_def Let_def sets_def setm_def unhash_def demo_ic0_def demo_start_def demo_ip_def)
  have "0 < sint (i_nlink (sl_ino (tab demo_ic0 1)))" "\<not> e_rd (demo_env False) a b" for a b using t by (simp_all add: demo_env_def)
  from failed_read_is_cached [OF demo_reach(1) demo_used demo_get this] show ?thesis by (simp add: t [simplified])
qed

end
