(* ===== verification/File_Rdwr.thy ===== *)
theory File_Rdwr
  imports Bmap
begin

text \<open>
  Reading and writing files (\<^verbatim>\<open>readi\<close> and \<^verbatim>\<open>writei\<close> of \<^verbatim>\<open>sys/os/rdwri.c\<close>, \<^verbatim>\<open>iomove\<close> of \<^verbatim>\<open>sys/os/move.c\<close>): ordinary files,
  directories and symbolic links, over the mapping of \<^verbatim>\<open>bmap\<close>. Buffers are seen through what the buffer cache
  promises: a buffer read contains what was last written to its block, \<open>f_data\<close>. The offset is a signed 32-bit number and wraps.
  \<^verbatim>\<open>None\<close> is a call that would sleep
  for the lock of the free list.
\<close>

section \<open>State\<close>

text \<open>
  The machine around the call: blocks that can be read, transfers that come back short (\<^verbatim>\<open>b_resid\<close>), user
  addresses that fault (with the bytes copied before the fault), blocks that are valid in the cache, synchronous
  writes, and those of them that fail, with the error and what the block reads as from then on.
\<close>

record fioenv =
  x_rd :: "int \<Rightarrow> bool"
  x_resid :: "int \<Rightarrow> bool"
  x_fault :: "bool \<Rightarrow> int \<Rightarrow> nat \<Rightarrow> nat option"
  x_valid :: "int \<Rightarrow> bool"
  x_sync :: bool
  x_werr :: "int \<Rightarrow> (errno \<times> (nat \<Rightarrow> u8)) option"

record fio =
  f_bm :: bmst
  f_data :: "int \<Rightarrow> u8 list"
  f_type :: ftype
  f_size :: int
  f_lastr :: int
  f_acc :: bool
  f_upd :: bool
  f_writes :: "(int \<times> bool) list"
  u_off :: int
  u_cnt :: int
  u_base :: int
  u_mem :: "int \<Rightarrow> u8"
  u_err :: "errno option"
  u_lim :: int

definition fio_rq :: "fio \<Rightarrow> bmreq" where
  "fio_rq st = \<lparr>i_type = f_type st, i_size = f_size st, u_offset = u_off st, u_count = u_cnt st, u_limit = u_lim st\<rparr>"

section \<open>Moving bytes\<close>

definition get_mem :: "(int \<Rightarrow> u8) \<Rightarrow> int \<Rightarrow> nat \<Rightarrow> u8 list" where
  "get_mem mem a n = map (\<lambda>j. mem (a + int j)) [0..<n]"

definition put_mem :: "(int \<Rightarrow> u8) \<Rightarrow> int \<Rightarrow> u8 list \<Rightarrow> int \<Rightarrow> u8" where
  "put_mem mem a bs = (\<lambda>x. if a \<le> x \<and> x < a + int (length bs) then bs ! nat (x - a) else mem x)"

definition overlay :: "nat \<Rightarrow> u8 list \<Rightarrow> u8 list \<Rightarrow> u8 list" where
  "overlay on bs buf = take on buf @ bs @ drop (on + length bs) buf"

text \<open>\<^verbatim>\<open>iomove\<close> between the buffer, from \<open>on\<close>, and memory.\<close>

definition iomove :: "fioenv \<Rightarrow> bool \<Rightarrow> nat \<Rightarrow> nat \<Rightarrow> u8 list \<Rightarrow> fio \<Rightarrow> u8 list \<times> fio" where
  "iomove e wr on n buf st =
     (if n = 0 then (buf, st)
      else let k = (case x_fault e wr (u_base st) n of None \<Rightarrow> n | Some k \<Rightarrow> min k n);
               (buf1, st1) = (if wr then (overlay on (get_mem (u_mem st) (u_base st) k) buf, st)
                              else (buf, st\<lparr>u_mem := put_mem (u_mem st) (u_base st) (take k (drop on buf))\<rparr>)) in
        if x_fault e wr (u_base st) n \<noteq> None then (buf1, st1\<lparr>u_err := Some EFAULT\<rparr>)
        else (buf1, st1\<lparr>u_base := u_base st + int n, u_off := to_long (u_off st + int n), u_cnt := u_cnt st - int n\<rparr>))"

section \<open>Reading\<close>

text \<open>The buffer of a hole is an empty one, cleared.\<close>

partial_function (option) rd_loop :: "bool \<Rightarrow> fioenv \<Rightarrow> fio \<Rightarrow> fio option" where
  "rd_loop lrg e st =
     (case bmap lrg (x_rd e) True (fio_rq st) (f_lastr st) (f_bm st) of
        (Err er, u, bm) \<Rightarrow> Some (st\<lparr>f_bm := bm, f_lastr := i_lastr u, u_err := Some er\<rparr>)
      | (Done bn, u, bm) \<Rightarrow>
          let st1 = st\<lparr>f_bm := bm, f_lastr := i_lastr u\<rparr> in
          if u_pbsize u = 0 then Some st1
          else if bn < 0 \<and> f_type st \<noteq> IFREG then Some st1
          else let buf = (if bn < 0 then replicate (nat (fsBSIZE lrg)) 0 else f_data st1 bn);
                   st2 = (if 0 \<le> bn \<and> \<not> x_rd e bn then st1\<lparr>u_err := Some EIO\<rparr> else st1);
                   n = (if 0 \<le> bn \<and> x_resid e bn then 0 else nat (u_pbsize u));
                   (buf1, st3) = iomove e False (nat (u_pboff u)) n buf st2;
                   st4 = st3\<lparr>f_acc := True\<rparr> in
            if u_err st4 = None \<and> u_cnt st4 \<noteq> 0 \<and> n \<noteq> 0 then rd_loop lrg e st4 else Some st4
      | _ \<Rightarrow> None)"

declare rd_loop.simps [code]

text \<open>Of the types of files, network directories read as empty; devices and pipes are not part of this.\<close>

definition readi :: "bool \<Rightarrow> fioenv \<Rightarrow> fio \<Rightarrow> fio option" where
  "readi lrg e st =
     (if u_cnt st = 0 then Some st
      else if u_off st < 0 then Some (st\<lparr>u_err := Some EINVAL\<rparr>)
      else if f_type st = IFLAN then Some st
      else if f_type st \<in> {IFREG, IFDIR, IFLNK} then rd_loop lrg e st
      else None)"

section \<open>Writing\<close>

text \<open>
  A block \<^verbatim>\<open>bmap\<close> has just allocated was cleared by \<^verbatim>\<open>alloc\<close>. The buffer is read first unless all of it is
  written. On an error it is released, without its block being written: what was copied stays only in a buffer that was valid.
  A synchronous write that fails sets the error after the offset has been advanced, and its buffer is thrown away.
\<close>

definition wr_clear :: "bool \<Rightarrow> fio \<Rightarrow> int \<Rightarrow> int \<Rightarrow> u8 list" where
  "wr_clear lrg st bn =
     (if file_block lrg (f_bm st) (fsBNO lrg (u_off st)) = Some 0 then (f_data st)(bn := replicate (nat (fsBSIZE lrg)) 0) else f_data st)"

definition wr_block :: "bool \<Rightarrow> fioenv \<Rightarrow> int \<Rightarrow> bmres \<Rightarrow> bmst \<Rightarrow> fio \<Rightarrow> fio" where
  "wr_block lrg e bn u bm st =
     (let st1 = st\<lparr>f_bm := bm, f_lastr := i_lastr u, f_data := wr_clear lrg st bn\<rparr>;
          whole = (u_pbsize u = fsBSIZE lrg);
          st2 = (if \<not> whole \<and> \<not> x_rd e bn then st1\<lparr>u_err := Some EIO\<rparr> else st1);
          (buf, st3) = iomove e True (nat (u_pboff u)) (nat (u_pbsize u)) (f_data st2 bn) st2;
          st4 = (if u_err st3 \<noteq> None then
                   (if (if whole then x_valid e bn else x_rd e bn) then st3\<lparr>f_data := (f_data st3)(bn := buf)\<rparr> else st3)
                 else case (if x_sync e then x_werr e bn else None) of
                     None \<Rightarrow> st3\<lparr>f_data := (f_data st3)(bn := buf), f_writes := f_writes st3 @ [(bn, x_sync e)]\<rparr>
                   | Some (er, g) \<Rightarrow> st3\<lparr>f_data := (f_data st3)(bn := map g [0..<nat (fsBSIZE lrg)]), u_err := Some er\<rparr>);
          st5 = (if u_off st4 > f_size st4 then st4\<lparr>f_size := u_off st4\<rparr> else st4) in
      st5\<lparr>f_upd := True\<rparr>)"

text \<open>\<open>n\<close> is the size of the transfer before: an error after the first one is forgotten.\<close>

partial_function (option) wr_loop :: "bool \<Rightarrow> fioenv \<Rightarrow> int \<Rightarrow> fio \<Rightarrow> fio option" where
  "wr_loop lrg e n st =
     (if u_err st \<noteq> None \<or> u_cnt st = 0 then Some st
      else case bmap lrg (x_rd e) False (fio_rq st) (f_lastr st) (f_bm st) of
        (Err er, u, bm) \<Rightarrow> Some (st\<lparr>f_bm := bm, f_lastr := i_lastr u, u_err := (if n \<noteq> 0 then None else Some er)\<rparr>)
      | (Done bn, u, bm) \<Rightarrow> wr_loop lrg e (u_pbsize u) (wr_block lrg e bn u bm st)
      | _ \<Rightarrow> None)"

declare wr_loop.simps [code]

definition writei :: "bool \<Rightarrow> fioenv \<Rightarrow> fio \<Rightarrow> fio option" where
  "writei lrg e st =
     (if u_off st < 0 then Some (st\<lparr>u_err := Some EINVAL\<rparr>)
      else if f_type st = IFLAN then Some (st\<lparr>u_cnt := 0\<rparr>)
      else if f_type st \<in> {IFREG, IFDIR, IFLNK} then wr_loop lrg e 0 st
      else None)"

section \<open>The bytes of a file\<close>

definition fbyte :: "bool \<Rightarrow> fio \<Rightarrow> int \<Rightarrow> u8" where
  "fbyte lrg st x =
     (case file_block lrg (f_bm st) (fsBNO lrg x) of
        Some b \<Rightarrow> if b = 0 then 0 else f_data st b ! nat (fsBOFF lrg x)
      | None \<Rightarrow> 0)"

definition fio_ok :: "bool \<Rightarrow> (int \<Rightarrow> bool) \<Rightarrow> int \<Rightarrow> int \<Rightarrow> fio \<Rightarrow> int list \<Rightarrow> bool" where
  "fio_ok lrg rd isz fsz st bs \<longleftrightarrow> bm_ok lrg rd isz fsz (f_bm st) bs \<and> (\<forall>b. length (f_data st b) = nat (fsBSIZE lrg)) \<and>
     f_type st \<in> {IFREG, IFDIR, IFLNK} \<and> 0 \<le> u_off st \<and> u_off st < 2 ^ 31 \<and> f_size st < 2 ^ 31"

lemma fs_div: "fsBNO lrg x = x div fsBSIZE lrg" "fsBOFF lrg x = x mod fsBSIZE lrg" "0 < fsBSIZE lrg"
  by (simp_all add: fsBNO_def fsBOFF_def fsBSIZE_def)

text \<open>A stretch within a block.\<close>

lemma in_block:
  assumes "fsBOFF lrg a + n \<le> fsBSIZE lrg" "a \<le> x" "x < a + n"
  shows "fsBNO lrg x = fsBNO lrg a" "fsBOFF lrg x = fsBOFF lrg a + (x - a)"
proof -
  define B q r where "B = fsBSIZE lrg" and "q = a div B" and "r = a mod B"
  have B: "0 < B" by (simp add: B_def fs_div)
  have "a = B * q + r" by (simp add: q_def r_def)
  then have x: "x = B * q + (r + (x - a))" by linarith
  have "0 \<le> r" using B by (simp add: r_def)
  then have r: "0 \<le> r + (x - a)" "r + (x - a) < B" using assms by (simp_all add: fs_div(2) B_def r_def)
  show "fsBNO lrg x = fsBNO lrg a" using int_div_pos_eq [OF x r] unfolding fs_div B_def [symmetric] q_def .
  show "fsBOFF lrg x = fsBOFF lrg a + (x - a)" using int_mod_pos_eq [OF x r] unfolding fs_div B_def [symmetric] r_def .
qed

lemma same_block:
  assumes "fsBNO lrg x = fsBNO lrg a"
  shows "x - a = fsBOFF lrg x - fsBOFF lrg a"
proof -
  define B where "B = fsBSIZE lrg"
  have "B * (x div B) + x mod B = x" "B * (a div B) + a mod B = a" by simp_all
  moreover have "B * (x div B) = B * (a div B)" using assms by (simp add: fs_div B_def)
  ultimately show ?thesis unfolding fs_div B_def [symmetric] by linarith
qed

lemma off_range: "0 \<le> fsBOFF lrg x" "fsBOFF lrg x < fsBSIZE lrg"
  using fs_div(3) [of lrg] by (simp_all add: fs_div)

lemma overlay_nth:
  assumes "on + length bs \<le> length buf" "i < length buf"
  shows "overlay on bs buf ! i = (if on \<le> i \<and> i < on + length bs then bs ! (i - on) else buf ! i)"
  using assms by (auto simp: overlay_def nth_append min_def)

lemma overlay_length: "on + length bs \<le> length buf \<Longrightarrow> length (overlay on bs buf) = length buf"
  by (simp add: overlay_def)

lemma file_block_inj:
  assumes "bm_ok lrg rd isz fsz st bs" "file_block lrg st m = Some b" "file_block lrg st n = Some b" "b \<noteq> 0"
  shows "m = n"
proof -
  obtain p q where p: "blk_path lrg m = Some p" "lookup st p = b" and q: "blk_path lrg n = Some q" "lookup st q = b"
    using assms(2,3) by (auto simp: file_block_def)
  have "p = q" using bm_ok_D(6) [OF assms(1) blk_path_props(1) [OF p(1)] blk_path_props(1) [OF q(1)]] p(2) q(2) assms(4) by simp
  then show ?thesis using blk_path_disjoint [OF p(1) q(1), of "[]"] by simp
qed

section \<open>Writing a block\<close>

text \<open>
  The file after \<open>n\<close> bytes from the offset on have been written from memory, the bytes at the places \<open>D\<close> left open; \<open>D\<close> is
  not empty when the last transfer failed.
\<close>

definition wrote_but :: "bool \<Rightarrow> int set \<Rightarrow> fio \<Rightarrow> int \<Rightarrow> fio \<Rightarrow> bool" where
  "wrote_but lrg D st n st' \<longleftrightarrow> u_off st' = u_off st + n \<and> u_cnt st' = u_cnt st - n \<and> u_base st' = u_base st + n \<and> u_mem st' = u_mem st \<and>
     f_type st' = f_type st \<and> u_lim st' = u_lim st \<and> f_size st' = (if 0 < n \<or> D \<noteq> {} then max (f_size st) (u_off st + n) else f_size st) \<and>
     (\<forall>x\<ge>0. x \<notin> D \<longrightarrow> fbyte lrg st' x = (if u_off st \<le> x \<and> x < u_off st + n then u_mem st (u_base st + (x - u_off st)) else fbyte lrg st x))"

abbreviation wrote :: "bool \<Rightarrow> fio \<Rightarrow> int \<Rightarrow> fio \<Rightarrow> bool" where "wrote lrg \<equiv> wrote_but lrg {}"

lemmas wrote_def = wrote_but_def

lemma wrote_zero: "wrote lrg st 0 st" by (auto simp: wrote_def)

lemma wrote_nothing:
  assumes "\<And>m. file_block lrg bm m = file_block lrg (f_bm st) m"
  shows "wrote lrg st 0 (st\<lparr>f_bm := bm, f_lastr := l, u_err := x\<rparr>)"
proof -
  have "fbyte lrg (st\<lparr>f_bm := bm, f_lastr := l, u_err := x\<rparr>) y = fbyte lrg st y" for y
    using assms by (auto simp: fbyte_def split: option.split)
  then show ?thesis by (auto simp: wrote_def)
qed

lemma wrote_trans:
  assumes "wrote lrg st n st1" "wrote_but lrg D st1 k st2" "0 < n" "0 \<le> k" "0 \<le> u_off st"
  shows "wrote_but lrg D st (n + k) st2"
  using assms unfolding wrote_def by (auto simp: max_def algebra_simps split: if_splits)

lemma get_mem_nth: "length (get_mem mem a n) = n" "i < n \<Longrightarrow> get_mem mem a n ! i = mem (a + int i)"
  by (simp_all add: get_mem_def)

text \<open>
  The buffer of the block gets the bytes, on top of what the block was, or of zeros in a new block. When the user's
  address faults, it keeps the first bytes or none; when the write fails, the block is anything.
\<close>

definition wr_buf :: "bool \<Rightarrow> fio \<Rightarrow> int \<Rightarrow> bmres \<Rightarrow> int \<Rightarrow> u8 list" where
  "wr_buf lrg st bn u k = overlay (nat (u_pboff u)) (get_mem (u_mem st) (u_base st) (nat k)) (wr_clear lrg st bn bn)"

lemma wr_buf_0: "wr_buf lrg st bn u 0 = wr_clear lrg st bn bn"
  by (simp add: wr_buf_def overlay_def get_mem_def)

definition wr_fails :: "fioenv \<Rightarrow> int \<Rightarrow> (errno \<times> (nat \<Rightarrow> u8)) option" where
  "wr_fails e bn = (if x_sync e then x_werr e bn else None)"

lemma wr_block_at:
  fixes lrg :: bool and bm :: bmst
  assumes "x_fault e True (u_base st) (nat (u_pbsize u)) = None" "u_err st = None" "x_rd e bn" "0 < u_pbsize u"
    "0 \<le> u_off st" "u_off st + u_pbsize u < 2 ^ 31"
  defines "st' \<equiv> wr_block lrg e bn u bm st"
  shows "f_bm st' = bm"
    "f_data st' = (wr_clear lrg st bn)(bn := (case wr_fails e bn of None \<Rightarrow> wr_buf lrg st bn u (u_pbsize u)
       | Some (er, g) \<Rightarrow> map g [0..<nat (fsBSIZE lrg)]))"
    "u_err st' = map_option fst (wr_fails e bn)" "f_type st' = f_type st" "u_lim st' = u_lim st"
    "u_off st' = u_off st + u_pbsize u" "u_cnt st' = u_cnt st - u_pbsize u" "u_base st' = u_base st + u_pbsize u" "u_mem st' = u_mem st"
    "f_size st' = max (f_size st) (u_off st + u_pbsize u)"
proof -
  have w: "to_long (u_off st + u_pbsize u) = u_off st + u_pbsize u" using assms(4-6) by simp
  have n: "nat (u_pbsize u) \<noteq> 0" "int (nat (u_pbsize u)) = u_pbsize u" using assms(4) by simp_all
  note d = st'_def wr_block_def Let_def iomove_def
  show "f_bm st' = bm" "f_type st' = f_type st" "u_lim st' = u_lim st" "u_off st' = u_off st + u_pbsize u"
    "u_cnt st' = u_cnt st - u_pbsize u" "u_base st' = u_base st + u_pbsize u" "u_mem st' = u_mem st"
    "f_size st' = max (f_size st) (u_off st + u_pbsize u)" "u_err st' = map_option fst (wr_fails e bn)"
    "f_data st' = (wr_clear lrg st bn)(bn := (case wr_fails e bn of None \<Rightarrow> wr_buf lrg st bn u (u_pbsize u)
       | Some (er, g) \<Rightarrow> map g [0..<nat (fsBSIZE lrg)]))"
    using assms(1-3) n by (auto simp: d w max_def wr_fails_def wr_buf_def split: option.split)
qed

lemma wr_block_fault:
  fixes lrg :: bool and bm :: bmst
  assumes "x_fault e True (u_base st) (nat (u_pbsize u)) = Some k" "u_err st = None" "x_rd e bn" "0 < u_pbsize u"
  defines "st' \<equiv> wr_block lrg e bn u bm st"
  shows "f_bm st' = bm"
    "\<exists>j. 0 \<le> j \<and> j \<le> u_pbsize u \<and> f_data st' = (wr_clear lrg st bn)(bn := wr_buf lrg st bn u j)"
    "u_err st' = Some EFAULT" "f_type st' = f_type st" "u_lim st' = u_lim st"
    "u_off st' = u_off st" "u_cnt st' = u_cnt st" "u_base st' = u_base st" "u_mem st' = u_mem st"
    "f_size st' = max (f_size st) (u_off st)"
proof -
  have n: "nat (u_pbsize u) \<noteq> 0" using assms(4) by simp
  note d = st'_def wr_block_def Let_def iomove_def
  show "f_bm st' = bm" "u_err st' = Some EFAULT" "f_type st' = f_type st" "u_lim st' = u_lim st"
    "u_off st' = u_off st" "u_cnt st' = u_cnt st" "u_base st' = u_base st" "u_mem st' = u_mem st" "f_size st' = max (f_size st) (u_off st)"
    using assms(1-3) n by (auto simp: d max_def)
  define j where "j = (if u_pbsize u = fsBSIZE lrg \<and> \<not> x_valid e bn then 0 else int (min k (nat (u_pbsize u))))"
  have "f_data st' = (wr_clear lrg st bn)(bn := wr_buf lrg st bn u j)"
    using assms(1-3) n wr_buf_0 [of lrg st bn u] by (auto simp: d j_def wr_buf_def fun_upd_idem)
  then show "\<exists>j. 0 \<le> j \<and> j \<le> u_pbsize u \<and> f_data st' = (wr_clear lrg st bn)(bn := wr_buf lrg st bn u j)"
    using assms(4) by (intro exI [of _ j]) (auto simp: j_def)
qed

lemma wr_block_fbyte:
  assumes ok: "bm_ok lrg rd isz fsz bm bs'" and b: "file_block lrg bm (fsBNO lrg (u_off st)) = Some bn" "bn \<noteq> 0"
    and same: "\<And>m. m \<noteq> fsBNO lrg (u_off st) \<Longrightarrow> file_block lrg bm m = file_block lrg (f_bm st) m"
    and old: "file_block lrg (f_bm st) (fsBNO lrg (u_off st)) \<in> {Some 0, Some bn}"
    and n: "0 \<le> n" "fsBOFF lrg (u_off st) + n \<le> fsBSIZE lrg" and len: "\<And>c. length (f_data st c) = nat (fsBSIZE lrg)"
    and st': "f_bm st' = bm"
      "f_data st' = (wr_clear lrg st bn)(bn := overlay (nat (fsBOFF lrg (u_off st))) (get_mem (u_mem st) (u_base st) (nat n)) (wr_clear lrg st bn bn))"
  shows "fbyte lrg st' x = (if u_off st \<le> x \<and> x < u_off st + n then u_mem st (u_base st + (x - u_off st)) else fbyte lrg st x)"
proof (cases "fsBNO lrg x = fsBNO lrg (u_off st)")
  case False
  have "fbyte lrg st' x = fbyte lrg st x"
  proof (cases "file_block lrg bm (fsBNO lrg x)")
    case (Some c)
    have "c \<noteq> bn" using file_block_inj [OF ok Some, of "fsBNO lrg (u_off st)"] b False by auto
    then show ?thesis using Some same [OF False] st' by (simp add: fbyte_def wr_clear_def)
  qed (use same [OF False] st' in \<open>simp add: fbyte_def\<close>)
  moreover have "\<not> (u_off st \<le> x \<and> x < u_off st + n)" using in_block(1) [OF n(2), of x] False by auto
  ultimately show ?thesis by auto
next
  case True
  let ?o = "fsBOFF lrg (u_off st)" and ?B = "fsBSIZE lrg"
  have x: "x - u_off st = fsBOFF lrg x - ?o" by (rule same_block [OF True])
  have r: "0 \<le> fsBOFF lrg x" "fsBOFF lrg x < ?B" "0 \<le> ?o" using off_range by blast+
  have l: "length (wr_clear lrg st bn bn) = nat ?B" using len by (simp add: wr_clear_def)
  have i: "nat (fsBOFF lrg x) < length (wr_clear lrg st bn bn)" using r l by simp
  have fit: "nat ?o + length (get_mem (u_mem st) (u_base st) (nat n)) \<le> length (wr_clear lrg st bn bn)"
    using n r(3) by (simp add: get_mem_nth l)
  have "fbyte lrg st' x = overlay (nat ?o) (get_mem (u_mem st) (u_base st) (nat n)) (wr_clear lrg st bn bn) ! nat (fsBOFF lrg x)"
    using b by (simp add: fbyte_def st' True)
  also have "\<dots> = (if nat ?o \<le> nat (fsBOFF lrg x) \<and> nat (fsBOFF lrg x) < nat ?o + nat n
      then get_mem (u_mem st) (u_base st) (nat n) ! (nat (fsBOFF lrg x) - nat ?o) else wr_clear lrg st bn bn ! nat (fsBOFF lrg x))"
    by (simp add: overlay_nth [OF fit i] get_mem_nth)
  also have "nat ?o \<le> nat (fsBOFF lrg x) \<and> nat (fsBOFF lrg x) < nat ?o + nat n \<longleftrightarrow> u_off st \<le> x \<and> x < u_off st + n"
    using x r n(1) by auto
  also have "wr_clear lrg st bn bn ! nat (fsBOFF lrg x) = fbyte lrg st x"
    using old r b(2) by (auto simp: wr_clear_def fbyte_def True)
  finally show ?thesis using x r n(1) by (auto simp: get_mem_nth nat_diff_distrib)
qed

text \<open>What a file may have: blocks below the limit and within the trees.\<close>

definition may_have :: "bool \<Rightarrow> fio \<Rightarrow> int \<Rightarrow> bool" where
  "may_have lrg st m \<longleftrightarrow> (f_type st = IFREG \<longrightarrow> m < fsPTOL lrg (u_lim st)) \<and> blk_path lrg m \<noteq> None"

text \<open>How a transfer may fail: at a user address, or, of a synchronous write, at the device.\<close>

definition faulted :: "fioenv \<Rightarrow> bool \<Rightarrow> fio \<Rightarrow> int \<Rightarrow> fio \<Rightarrow> bool" where
  "faulted e lrg st k st' \<longleftrightarrow> u_err st' = Some EFAULT \<and> (\<exists>n>0. n \<le> u_cnt st - k \<and> x_fault e True (u_base st + k) (nat n) \<noteq> None \<and>
     wrote_but lrg {u_off st + k..<u_off st + k + n} st k st' \<and>
     (\<forall>x. u_off st + k \<le> x \<and> x < u_off st + k + n \<longrightarrow> fbyte lrg st' x \<in> {fbyte lrg st x, u_mem st (u_base st + (x - u_off st))}))"

definition dev_failed :: "fioenv \<Rightarrow> bool \<Rightarrow> fio \<Rightarrow> int \<Rightarrow> fio \<Rightarrow> bool" where
  "dev_failed e lrg st k st' \<longleftrightarrow> 0 < k \<and> (\<exists>bn er g. wr_fails e bn = Some (er, g) \<and> u_err st' = Some er) \<and>
     wrote_but lrg {x. fsBNO lrg x = fsBNO lrg (u_off st + k - 1)} st k st'"

lemma wr_clear_same: "c \<noteq> bn \<Longrightarrow> wr_clear lrg st bn c = f_data st c"
  by (simp add: wr_clear_def)

lemma faulted_trans:
  assumes "wrote lrg st n st1" "faulted e lrg st1 k st2" "0 < n" "0 \<le> k" "0 \<le> u_off st"
  shows "faulted e lrg st (n + k) st2"
proof -
  have w: "u_off st1 = u_off st + n" "u_cnt st1 = u_cnt st - n" "u_base st1 = u_base st + n" "u_mem st1 = u_mem st"
    "\<And>x. u_off st1 \<le> x \<Longrightarrow> fbyte lrg st1 x = fbyte lrg st x" using assms(1,3,5) by (auto simp: wrote_def)
  from assms(2) obtain m where m: "u_err st2 = Some EFAULT" "0 < m" "m \<le> u_cnt st1 - k" "x_fault e True (u_base st1 + k) (nat m) \<noteq> None"
    "wrote_but lrg {u_off st1 + k..<u_off st1 + k + m} st1 k st2"
    "\<forall>x. u_off st1 + k \<le> x \<and> x < u_off st1 + k + m \<longrightarrow> fbyte lrg st2 x \<in> {fbyte lrg st1 x, u_mem st1 (u_base st1 + (x - u_off st1))}"
    unfolding faulted_def by blast
  have "wrote_but lrg {u_off st + (n + k)..<u_off st + (n + k) + m} st (n + k) st2"
    using wrote_trans [OF assms(1) m(5) assms(3-5)] by (simp add: w(1) add.assoc)
  moreover have "fbyte lrg st2 x \<in> {fbyte lrg st x, u_mem st (u_base st + (x - u_off st))}"
    if "u_off st + (n + k) \<le> x" "x < u_off st + (n + k) + m" for x
    using m(6) [rule_format, of x] w(5) [of x] that assms(4) by (simp add: w(1,3,4))
  ultimately show ?thesis
    unfolding faulted_def using m(1-4) by (intro conjI exI [of _ m]) (auto simp: w(2,3) add.assoc)
qed

lemma dev_failed_trans:
  assumes "wrote lrg st n st1" "dev_failed e lrg st1 k st2" "0 < n" "0 \<le> k" "0 \<le> u_off st"
  shows "dev_failed e lrg st (n + k) st2"
proof -
  have o: "u_off st1 + k - 1 = u_off st + (n + k) - 1" using assms(1) by (simp add: wrote_def)
  have "wrote_but lrg {x. fsBNO lrg x = fsBNO lrg (u_off st1 + k - 1)} st (n + k) st2"
    using assms(2) by (intro wrote_trans [OF assms(1) _ assms(3-5)]) (simp add: dev_failed_def)
  then show ?thesis using assms(2-4) unfolding dev_failed_def o by auto
qed

lemma wr_done:
  fixes st :: fio and u :: bmres
  assumes o: "bm_ok lrg (x_rd e) isz fsz (f_bm st) bs" "\<And>b. length (f_data st b) = nat (fsBSIZE lrg)" "f_type st \<in> {IFREG, IFDIR, IFLNK}" "0 \<le> u_off st"
      "u_off st < 2 ^ 31" "f_size st < 2 ^ 31"
    and cnt: "0 < u_cnt st" and err: "u_err st = None" and big: "u_off st + u_cnt st < 2 ^ 31"
    and W: "bm_ok lrg (x_rd e) isz fsz bm bs'" and bn: "file_block lrg bm (fsBNO lrg (u_off st)) = Some bn" "bn \<noteq> 0"
    and same: "\<And>m. m \<noteq> fsBNO lrg (u_off st) \<Longrightarrow> file_block lrg bm m = file_block lrg (f_bm st) m"
    and old: "file_block lrg (f_bm st) (fsBNO lrg (u_off st)) \<in> {Some 0, Some bn}" and rd: "x_rd e bn"
    and ext: "u_pboff u = fsBOFF lrg (u_off st)" "u_pbsize u = min (u_cnt st) (fsBSIZE lrg - fsBOFF lrg (u_off st))"
    and n1: "0 < min (u_cnt st) (fsBSIZE lrg - fsBOFF lrg (u_off st))"
      "fsBOFF lrg (u_off st) + min (u_cnt st) (fsBSIZE lrg - fsBOFF lrg (u_off st)) \<le> fsBSIZE lrg"
  shows "fio_ok lrg (x_rd e) isz fsz (wr_block lrg e bn u bm st) bs' \<and>
       (u_err (wr_block lrg e bn u bm st) = None \<and> wrote lrg st (u_pbsize u) (wr_block lrg e bn u bm st)
        \<or> faulted e lrg st 0 (wr_block lrg e bn u bm st) \<or> dev_failed e lrg st (u_pbsize u) (wr_block lrg e bn u bm st))"
proof -
  let ?st' = "wr_block lrg e bn u bm st" and ?n = "u_pbsize u"
  have n: "0 < ?n" "?n \<le> u_cnt st" "fsBOFF lrg (u_off st) + ?n \<le> fsBSIZE lrg" using n1 ext by simp_all
  have bufs: "length (wr_clear lrg st bn c) = nat (fsBSIZE lrg)" for c using o(2) by (simp add: wr_clear_def)
  have buf: "length (wr_buf lrg st bn u k) = nat (fsBSIZE lrg)" if "0 \<le> k" "k \<le> ?n" for k
    using that n(3) off_range(1) [of lrg "u_off st"] unfolding wr_buf_def
    by (subst overlay_length) (simp_all add: bufs get_mem_nth ext(1) nat_add_distrib [symmetric])
  have fb: "fbyte lrg ?st' x = (if u_off st \<le> x \<and> x < u_off st + k then u_mem st (u_base st + (x - u_off st)) else fbyte lrg st x)"
    if "f_bm ?st' = bm" "f_data ?st' = (wr_clear lrg st bn)(bn := wr_buf lrg st bn u k)" "0 \<le> k" "k \<le> ?n" for k x
    using that n(3) by (intro wr_block_fbyte [OF W bn same old _ _ o(2)]) (simp_all add: wr_buf_def ext(1))
  show ?thesis
  proof (cases "x_fault e True (u_base st) (nat ?n)")
    case (Some k)
    note F = wr_block_fault [where lrg = lrg and bm = bm, OF Some err rd n(1)]
    obtain j where j: "0 \<le> j" "j \<le> ?n" "f_data ?st' = (wr_clear lrg st bn)(bn := wr_buf lrg st bn u j)" using F(2) by blast
    note b = fb [OF F(1) j(3,1,2)]
    have "wrote_but lrg {u_off st + 0..<u_off st + 0 + ?n} st 0 ?st'"
      using b j(1,2) n(1) unfolding wrote_def by (simp add: F)
    moreover have "fbyte lrg ?st' x \<in> {fbyte lrg st x, u_mem st (u_base st + (x - u_off st))}" for x using b [of x] by simp
    ultimately have "faulted e lrg st 0 ?st'"
      unfolding faulted_def using F(3) n(1,2) Some by (intro conjI exI [of _ ?n]) auto
    moreover have "fio_ok lrg (x_rd e) isz fsz ?st' bs'" using W o F(4,6,10) bufs buf [OF j(1,2)] by (simp add: fio_ok_def F(1) j(3))
    ultimately show ?thesis by blast
  next
    case None
    have lt: "u_off st + ?n < 2 ^ 31" using n(2) big by simp
    note A = wr_block_at [where lrg = lrg and bm = bm, OF None err rd n(1) o(4) lt]
    have ok': "fio_ok lrg (x_rd e) isz fsz ?st' bs'"
      using W o A(4,6,10) lt n(1) bufs buf [OF _ order_refl] by (simp add: fio_ok_def A(1,2) split: option.split prod.split)
    show ?thesis
    proof (cases "wr_fails e bn")
      case w: None
      have "f_data ?st' = (wr_clear lrg st bn)(bn := wr_buf lrg st bn u ?n)" using A(2) by (simp add: w)
      from fb [OF A(1) this] n(1) have "wrote lrg st ?n ?st'" unfolding wrote_def by (simp add: A(4-10))
      then show ?thesis using ok' A(3) by (simp add: w)
    next
      case (Some er)
      have same': "fbyte lrg ?st' x = fbyte lrg st x" if x: "fsBNO lrg x \<noteq> fsBNO lrg (u_off st)" for x
      proof (cases "file_block lrg bm (fsBNO lrg x)")
        case (Some c)
        have "c \<noteq> bn" using file_block_inj [OF W Some, of "fsBNO lrg (u_off st)"] bn x by auto
        then show ?thesis using Some same [OF x] A(1,2) by (simp add: fbyte_def wr_clear_same)
      qed (use same [OF x] A(1) in \<open>simp add: fbyte_def\<close>)
      have nin: "\<not> (u_off st \<le> x \<and> x < u_off st + ?n)" if "fsBNO lrg x \<noteq> fsBNO lrg (u_off st)" for x
        using in_block(1) [OF n(3), of x] that by auto
      have l: "fsBNO lrg (u_off st + ?n - 1) = fsBNO lrg (u_off st)" using n(1) by (intro in_block(1) [OF n(3)]) simp_all
      have "wrote_but lrg {x. fsBNO lrg x = fsBNO lrg (u_off st + ?n - 1)} st ?n ?st'"
        using n(1) same' nin unfolding wrote_def l by (auto simp: A(4-10))
      then have "dev_failed e lrg st ?n ?st'"
        unfolding dev_failed_def using n(1) A(3) Some by (cases er) (auto intro: exI [of _ bn])
      then show ?thesis using ok' by blast
    qed
  qed
qed

lemma wr_step:
  fixes st :: fio
  assumes ok: "fio_ok lrg (x_rd e) isz fsz st bs" and cnt: "0 < u_cnt st" and err: "u_err st = None" and big: "u_off st + u_cnt st < 2 ^ 31"
    and run: "bmap lrg (x_rd e) False (fio_rq st) (f_lastr st) (f_bm st) = (r, u, bm)"
  shows "(\<exists>bn bs'. r = Done bn \<and> fio_ok lrg (x_rd e) isz fsz (wr_block lrg e bn u bm st) bs' \<and> 0 < u_pbsize u \<and> u_pbsize u \<le> u_cnt st \<and>
       (u_err (wr_block lrg e bn u bm st) = None \<and> wrote lrg st (u_pbsize u) (wr_block lrg e bn u bm st)
        \<or> faulted e lrg st 0 (wr_block lrg e bn u bm st) \<or> dev_failed e lrg st (u_pbsize u) (wr_block lrg e bn u bm st)))
    \<or> (\<exists>er bs'. r = Err er \<and> fio_ok lrg (x_rd e) isz fsz (st\<lparr>f_bm := bm, f_lastr := l, u_err := x\<rparr>) bs' \<and> wrote lrg st 0 (st\<lparr>f_bm := bm, f_lastr := l, u_err := x\<rparr>) \<and>
       (er = ENOSPC \<and> bs' = [] \<or> er = EFBIG \<and> \<not> may_have lrg st (fsBNO lrg (u_off st))))"
proof -
  let ?n = "fsBNO lrg (u_off st)"
  have rq: "i_type (fio_rq st) = f_type st" "i_size (fio_rq st) = f_size st" "u_offset (fio_rq st) = u_off st" "u_count (fio_rq st) = u_cnt st"
    "u_limit (fio_rq st) = u_lim st" by (simp_all add: fio_rq_def)
  have o: "bm_ok lrg (x_rd e) isz fsz (f_bm st) bs" "\<And>b. length (f_data st b) = nat (fsBSIZE lrg)" "f_type st \<in> {IFREG, IFDIR, IFLNK}" "0 \<le> u_off st"
    "u_off st < 2 ^ 31" "f_size st < 2 ^ 31" using ok by (simp_all add: fio_ok_def)
  let ?n1 = "min (u_cnt st) (fsBSIZE lrg - fsBOFF lrg (u_off st))"
  have ext: "u_pboff u = fsBOFF lrg (u_off st)" "u_pbsize u = ?n1"
    using bmap_extent [OF run] o(3,4) by (simp_all add: rq)
  have n1: "0 < ?n1" "fsBOFF lrg (u_off st) + ?n1 \<le> fsBSIZE lrg" using cnt off_range(2) [of lrg "u_off st"] by auto
  show ?thesis
  proof (cases "may_have lrg st ?n")
    case False
    then have "\<exists>v. bmap lrg (x_rd e) False (fio_rq st) (f_lastr st) (f_bm st) = (Err EFBIG, v, f_bm st)"
      using o(3,4) by (intro bmap_too_big) (auto simp: rq may_have_def)
    then have r: "r = Err EFBIG" "bm = f_bm st" using run by auto
    then have "wrote lrg st 0 (st\<lparr>f_bm := bm, f_lastr := l, u_err := x\<rparr>)" by (intro wrote_nothing) simp
    moreover have "fio_ok lrg (x_rd e) isz fsz (st\<lparr>f_bm := bm, f_lastr := l, u_err := x\<rparr>) bs" using ok r(2) by (simp add: fio_ok_def)
    ultimately show ?thesis using False r(1) by blast
  next
    case True
    then obtain b0 where b0: "file_block lrg (f_bm st) ?n = Some b0" by (auto simp: may_have_def file_block_def)
    have lim: "i_type (fio_rq st) = IFREG \<longrightarrow> fsBNO lrg (u_offset (fio_rq st)) < fsPTOL lrg (u_limit (fio_rq st))"
      using True by (simp add: may_have_def rq)
    from bmap_write [OF o(1) _ _ lim _ run, of b0] o(3,4) b0 obtain bs' where
      W: "bm_ok lrg (x_rd e) isz fsz bm bs'" "\<And>m. m \<noteq> ?n \<Longrightarrow> file_block lrg bm m = file_block lrg (f_bm st) m"
      and R: "(\<exists>b. r = Done b \<and> file_block lrg bm ?n = Some b \<and> b \<noteq> 0 \<and> (if b0 = 0 then b \<in> set bs else b = b0))
        \<or> r = Err ENOSPC \<and> bs' = [] \<and> b0 = 0 \<and> file_block lrg bm ?n = Some 0" by (auto simp: rq)
    from R show ?thesis
    proof (elim disjE exE conjE)
      fix bn assume bn: "r = Done bn" "file_block lrg bm ?n = Some bn" "bn \<noteq> 0" "if b0 = 0 then bn \<in> set bs else bn = b0"
      obtain p where p: "blk_path lrg ?n = Some p" "lookup bm p = bn" using bn(2) by (auto simp: file_block_def)
      have rd: "x_rd e bn" using bm_ok_pos [OF W(1) blk_path_props(1) [OF p(1)]] p(2) bn(3) by simp
      have old: "file_block lrg (f_bm st) ?n \<in> {Some 0, Some bn}" using b0 bn(4) by (auto split: if_splits)
      from wr_done [OF o(1-6) cnt err big W(1) bn(2,3) W(2) old rd ext n1]
      show ?thesis using bn(1) n1(1) ext(2) by (intro disjI1 exI [of _ bn] exI [of _ bs']) auto
    next
      assume r: "r = Err ENOSPC" "bs' = []" "b0 = 0" "file_block lrg bm ?n = Some 0"
      have "file_block lrg bm m = file_block lrg (f_bm st) m" for m using W(2) [of m] r(3,4) b0 by (cases "m = ?n") auto
      then have "wrote lrg st 0 (st\<lparr>f_bm := bm, f_lastr := l, u_err := x\<rparr>)" by (rule wrote_nothing)
      moreover have "fio_ok lrg (x_rd e) isz fsz (st\<lparr>f_bm := bm, f_lastr := l, u_err := x\<rparr>) bs'" using o W(1) by (simp add: fio_ok_def)
      ultimately show ?thesis using r(1,2) by blast
    qed
  qed
qed

text \<open>
  A whole call: all is written, or there is no further block, or the last transfer fails.
\<close>

definition wr_ends :: "fioenv \<Rightarrow> bool \<Rightarrow> int \<Rightarrow> fio \<Rightarrow> int \<Rightarrow> fio \<Rightarrow> int list \<Rightarrow> bool" where
  "wr_ends e lrg n st k st' bs' \<longleftrightarrow>
     (k = u_cnt st \<and> u_err st' = None \<and> wrote lrg st k st')
   \<or> (k < u_cnt st \<and> (bs' = [] \<or> \<not> may_have lrg st (fsBNO lrg (u_off st + k))) \<and> wrote lrg st k st' \<and>
      (if k = 0 \<and> n = 0 then u_err st' \<in> {Some ENOSPC, Some EFBIG} else u_err st' = None))
   \<or> faulted e lrg st k st' \<or> dev_failed e lrg st k st'"

lemma wr_ends_trans:
  assumes s: "wrote lrg st m st1" "0 < m" "0 \<le> u_off st" and k: "0 \<le> k" and e: "wr_ends e lrg m st1 k st' bs'"
  shows "wr_ends e lrg n st (m + k) st' bs'"
proof -
  have c: "u_cnt st1 = u_cnt st - m" "u_off st1 = u_off st + m" "f_type st1 = f_type st" "u_lim st1 = u_lim st" using s(1) by (simp_all add: wrote_def)
  have mh: "may_have lrg st1 j = may_have lrg st j" for j by (simp add: may_have_def c)
  note w = wrote_trans [OF s(1) _ s(2) k s(3)] faulted_trans [OF s(1) _ s(2) k s(3)] dev_failed_trans [OF s(1) _ s(2) k s(3)]
  from e consider (a) "k = u_cnt st1" "u_err st' = None" "wrote lrg st1 k st'"
    | (b) "k < u_cnt st1" "bs' = [] \<or> \<not> may_have lrg st1 (fsBNO lrg (u_off st1 + k))" "wrote lrg st1 k st'" "u_err st' = None"
    | (c) "faulted e lrg st1 k st'" | (d) "dev_failed e lrg st1 k st'"
    using s(2) unfolding wr_ends_def by (auto split: if_splits)
  then show ?thesis
  proof cases
    case a
    then show ?thesis using w(1) by (simp add: wr_ends_def c)
  next
    case b
    then show ?thesis using w(1) s(2) k by (simp add: wr_ends_def c mh add.assoc)
  qed (use w in \<open>simp_all add: wr_ends_def\<close>)
qed

lemma wr_loop_ok:
  assumes "fio_ok lrg (x_rd e) isz fsz st bs" "0 \<le> u_cnt st" "u_err st = None" "u_off st + u_cnt st < 2 ^ 31"
  shows "\<exists>st' k bs'. wr_loop lrg e n st = Some st' \<and> 0 \<le> k \<and> k \<le> u_cnt st \<and> fio_ok lrg (x_rd e) isz fsz st' bs' \<and> wr_ends e lrg n st k st' bs'"
  using assms
proof (induction "nat (u_cnt st)" arbitrary: st bs n rule: less_induct)
  case less
  show ?case
  proof (cases "u_cnt st = 0")
    case True
    then have "wr_loop lrg e n st = Some st" by (subst wr_loop.simps) simp
    then show ?thesis using True less.prems wrote_zero by (intro exI [of _ st] exI [of _ 0] exI [of _ bs]) (auto simp: wr_ends_def)
  next
    case False
    then have cnt: "0 < u_cnt st" using less.prems(2) by simp
    obtain r u bm where run: "bmap lrg (x_rd e) False (fio_rq st) (f_lastr st) (f_bm st) = (r, u, bm)" by (metis prod_cases3)
    note S = wr_step [OF less.prems(1) cnt less.prems(3,4) run]
    show ?thesis
    proof (cases "\<exists>bn. r = Done bn")
      case True
      then obtain bn where bn: "r = Done bn" by blast
      let ?st1 = "wr_block lrg e bn u bm st" and ?n1 = "u_pbsize u"
      from S bn obtain bs1 where s1: "fio_ok lrg (x_rd e) isz fsz ?st1 bs1" "0 < ?n1" "?n1 \<le> u_cnt st"
        and alt: "u_err ?st1 = None \<and> wrote lrg st ?n1 ?st1 \<or> faulted e lrg st 0 ?st1 \<or> dev_failed e lrg st ?n1 ?st1" by auto
      have e1: "wr_loop lrg e n st = wr_loop lrg e ?n1 ?st1" using False less.prems(3) by (subst wr_loop.simps) (simp add: run bn)
      have e2: "u_err ?st1 \<noteq> None \<Longrightarrow> wr_loop lrg e ?n1 ?st1 = Some ?st1" by (subst wr_loop.simps) simp
      from alt consider (w) "u_err ?st1 = None" "wrote lrg st ?n1 ?st1" | (f) "faulted e lrg st 0 ?st1" | (d) "dev_failed e lrg st ?n1 ?st1"
        by (elim disjE conjE)
      then show ?thesis
      proof cases
        case f
        then have "u_err ?st1 \<noteq> None" by (simp add: faulted_def)
        then show ?thesis using e1 e2 s1 cnt f by (intro exI [of _ ?st1] exI [of _ 0] exI [of _ bs1]) (simp add: wr_ends_def)
      next
        case d
        then have "u_err ?st1 \<noteq> None" by (auto simp: dev_failed_def)
        then show ?thesis using e1 e2 s1 d by (intro exI [of _ ?st1] exI [of _ ?n1] exI [of _ bs1]) (simp add: wr_ends_def)
      next
        case w
        have off: "0 \<le> u_off st" using less.prems(1) by (simp add: fio_ok_def)
        have c1: "u_cnt ?st1 = u_cnt st - ?n1" "u_off ?st1 = u_off st + ?n1" using w(2) by (simp_all add: wrote_def)
        have "nat (u_cnt ?st1) < nat (u_cnt st)" "0 \<le> u_cnt ?st1" "u_off ?st1 + u_cnt ?st1 < 2 ^ 31" using c1 s1(2,3) cnt less.prems(4) by simp_all
        from less.hyps [OF this(1) s1(1) this(2) w(1) this(3), of ?n1] obtain st' k bs' where
          st': "wr_loop lrg e ?n1 ?st1 = Some st'" "0 \<le> k" "k \<le> u_cnt st - ?n1" "fio_ok lrg (x_rd e) isz fsz st' bs'" "wr_ends e lrg ?n1 ?st1 k st' bs'"
          unfolding c1 by blast
        then show ?thesis using e1 wr_ends_trans [OF w(2) s1(2) off st'(2,5)] s1(2)
          by (intro exI [of _ st'] exI [of _ "?n1 + k"] exI [of _ bs']) simp
      qed
    next
      case noblk: False
      let ?st' = "\<lambda>er. st\<lparr>f_bm := bm, f_lastr := i_lastr u, u_err := (if n \<noteq> 0 then None else Some er)\<rparr>"
      obtain er where er: "r = Err er" using S noblk by blast
      from S [where l = "i_lastr u" and x = "if n \<noteq> 0 then None else Some er"] er obtain bs' where
        s1: "fio_ok lrg (x_rd e) isz fsz (?st' er) bs'" "wrote lrg st 0 (?st' er)" "er = ENOSPC \<and> bs' = [] \<or> er = EFBIG \<and> \<not> may_have lrg st (fsBNO lrg (u_off st))"
        by auto
      have "wr_loop lrg e n st = Some (?st' er)" using False less.prems(3) by (subst wr_loop.simps) (simp add: run er)
      then show ?thesis using s1 cnt by (intro exI [of _ "?st' er"] exI [of _ 0] exI [of _ bs']) (auto simp: wr_ends_def)
    qed
  qed
qed

section \<open>Reading a block\<close>

definition read_to :: "bool \<Rightarrow> fio \<Rightarrow> int \<Rightarrow> fio \<Rightarrow> bool" where
  "read_to lrg st k st' \<longleftrightarrow> u_off st' = u_off st + k \<and> u_cnt st' = u_cnt st - k \<and> u_base st' = u_base st + k \<and>
     (\<forall>a. u_mem st' a = (if u_base st \<le> a \<and> a < u_base st + k then fbyte lrg st (u_off st + (a - u_base st)) else u_mem st a)) \<and>
     f_bm st' = f_bm st \<and> f_data st' = f_data st \<and> f_size st' = f_size st \<and> f_type st' = f_type st"

lemma read_to_fbyte: "read_to lrg st k st' \<Longrightarrow> fbyte lrg st' = fbyte lrg st"
  by (rule ext) (auto simp: read_to_def fbyte_def split: option.split)

lemma read_to_trans:
  assumes "read_to lrg st n st1" "read_to lrg st1 k st2" "0 \<le> n" "0 \<le> k"
  shows "read_to lrg st (n + k) st2"
proof -
  have "u_mem st2 a = (if u_base st \<le> a \<and> a < u_base st + (n + k) then fbyte lrg st (u_off st + (a - u_base st)) else u_mem st a)" for a
    using assms(1,2) read_to_fbyte [OF assms(1)] assms(3,4) by (auto simp: read_to_def algebra_simps)
  then show ?thesis using assms by (simp add: read_to_def)
qed

lemma bmap_at_end:
  assumes "0 \<le> u_offset rq" "i_size rq \<le> u_offset rq" "i_type rq = IFREG" "0 \<le> u_count rq"
  shows "\<exists>u. bmap lrg rd True rq lastr st = (Done (- 1), u, st) \<and> u_pbsize u = 0"
proof -
  have "\<not> fsBNO lrg (u_offset rq) < 0" using assms(1) by (simp add: fsBNO_def pos_imp_zdiv_nonneg_iff not_less)
  moreover have "fsBOFF lrg x \<le> fsBSIZE lrg" for x by (rule less_imp_le [OF off_range(2)])
  moreover have "max 0 (i_size rq - u_offset rq) = 0" using assms(2) by simp
  ultimately show ?thesis using assms(3,4) unfolding bmap_def Let_def by simp
qed

text \<open>The blocks of a file of its size are all within the trees.\<close>

definition size_ok :: "bool \<Rightarrow> fio \<Rightarrow> bool" where
  "size_ok lrg st \<longleftrightarrow> (\<forall>x\<ge>0. x < f_size st \<longrightarrow> blk_path lrg (fsBNO lrg x) \<noteq> None)"

lemma rd_step:
  assumes ok: "fio_ok lrg (x_rd e) isz fsz st bs" "f_type st = IFREG" "size_ok lrg st" and cnt: "0 < u_cnt st" "u_off st < f_size st"
    and env: "x_fault e False = (\<lambda>_ _. None)" "x_resid e = (\<lambda>_. False)" "u_err st = None"
  shows "\<exists>st1 n. 0 < n \<and> n \<le> u_cnt st \<and> u_off st + n \<le> f_size st \<and> read_to lrg st n st1 \<and> u_err st1 = None \<and>
    rd_loop lrg e st = (if u_cnt st1 \<noteq> 0 then rd_loop lrg e st1 else Some st1)"
proof -
  let ?o = "fsBOFF lrg (u_off st)" and ?B = "fsBSIZE lrg" and ?m = "fsBNO lrg (u_off st)"
  have rq: "i_type (fio_rq st) = f_type st" "i_size (fio_rq st) = f_size st" "u_offset (fio_rq st) = u_off st" "u_count (fio_rq st) = u_cnt st"
    by (simp_all add: fio_rq_def)
  have o: "bm_ok lrg (x_rd e) isz fsz (f_bm st) bs" "\<And>b. length (f_data st b) = nat ?B" "0 \<le> u_off st" using ok by (simp_all add: fio_ok_def)
  obtain p where p: "blk_path lrg ?m = Some p" using ok(3) o(3) cnt(2) by (auto simp: size_ok_def)
  define b where "b = lookup (f_bm st) p"
  have fb: "file_block lrg (f_bm st) ?m = Some b" by (simp add: file_block_def p b_def)
  define bn where "bn = (if b = 0 then - 1 else b)"
  have bpos: "b \<noteq> 0 \<Longrightarrow> 0 < b \<and> x_rd e b" using bm_ok_pos [OF o(1) blk_path_props(1) [OF p]] by (simp add: b_def)
  obtain u where run: "bmap lrg (x_rd e) True (fio_rq st) (f_lastr st) (f_bm st) = (Done bn, u, f_bm st)"
    using bmap_read [OF o(1), of "fio_rq st" "f_lastr st"] ok(2) o(3) cnt fb by (auto simp: rq bn_def)
  define n where "n = min (f_size st - u_off st) (min (u_cnt st) (?B - ?o))"
  have n: "0 < n" "n \<le> u_cnt st" "u_off st + n \<le> f_size st" "?o + n \<le> ?B" using cnt off_range(2) [of lrg "u_off st"] by (auto simp: n_def)
  have "f_size st < 2 ^ 31" using ok(1) by (simp add: fio_ok_def)
  then have lt: "to_long (u_off st + n) = u_off st + n" using n(1,3) o(3) by simp
  have ext: "u_pboff u = ?o" "u_pbsize u = n" using bmap_extent [OF run] o(3) ok(2) cnt(2) by (simp_all add: rq n_def max_def)
  let ?buf = "if bn < 0 then replicate (nat ?B) 0 else f_data st bn"
  define ch where "ch = take (nat n) (drop (nat ?o) ?buf)"
  let ?st1 = "st\<lparr>f_lastr := i_lastr u, u_mem := put_mem (u_mem st) (u_base st) ch,
      u_base := u_base st + n, u_off := u_off st + n, u_cnt := u_cnt st - n, f_acc := True\<rparr>"
  have "rd_loop lrg e st = (if u_cnt ?st1 \<noteq> 0 then rd_loop lrg e ?st1 else Some ?st1)"
    using n ok(2) bpos env lt by (subst rd_loop.simps) (simp add: run ext Let_def iomove_def bn_def ch_def)
  moreover have "read_to lrg st n ?st1"
  proof -
    have len: "length ch = nat n" using n(4) n(1) off_range(1) [of lrg "u_off st"] o(2) by (simp add: ch_def nat_diff_distrib [symmetric])
    have "ch ! nat (a - u_base st) = fbyte lrg st (u_off st + (a - u_base st))"
      if a: "u_base st \<le> a" "a < u_base st + n" for a
    proof -
      let ?x = "u_off st + (a - u_base st)"
      have x: "fsBNO lrg ?x = ?m" "fsBOFF lrg ?x = ?o + (a - u_base st)" using in_block [OF n(4), of ?x] a by simp_all
      have i: "nat (?o + (a - u_base st)) < nat ?B" "nat ?o + nat (a - u_base st) = nat (?o + (a - u_base st))"
        using n(4) a off_range(1) [of lrg "u_off st"] by (simp_all add: nat_add_distrib)
      have "ch ! nat (a - u_base st) = ?buf ! nat (?o + (a - u_base st))"
        using a n i o(2) by (simp add: ch_def nth_drop)
      also have "\<dots> = fbyte lrg st ?x" using i(1) bpos by (cases "b = 0") (auto simp: fbyte_def x fb bn_def)
      finally show ?thesis .
    qed
    then show ?thesis using n(1) unfolding read_to_def by (simp add: put_mem_def len)
  qed
  ultimately show ?thesis using n(1-3) env(3) by (intro exI [of _ ?st1] exI [of _ n]) simp
qed

lemma rd_loop_ok:
  assumes "fio_ok lrg (x_rd e) isz fsz st bs" "f_type st = IFREG" "size_ok lrg st" "0 < u_cnt st" "u_err st = None"
    and env: "x_fault e False = (\<lambda>_ _. None)" "x_resid e = (\<lambda>_. False)"
  shows "\<exists>st'. rd_loop lrg e st = Some st' \<and> u_err st' = None \<and> read_to lrg st (max 0 (min (u_cnt st) (f_size st - u_off st))) st'"
  using assms(1-5)
proof (induction "nat (u_cnt st)" arbitrary: st rule: less_induct)
  case less
  have off: "0 \<le> u_off st" using less.prems(1) by (simp add: fio_ok_def)
  show ?case
  proof (cases "u_off st < f_size st")
    case False
    then obtain u where run: "bmap lrg (x_rd e) True (fio_rq st) (f_lastr st) (f_bm st) = (Done (- 1), u, f_bm st)" "u_pbsize u = 0"
      using bmap_at_end [of "fio_rq st" lrg "x_rd e" "f_lastr st" "f_bm st"] less.prems(2,4) off by (auto simp: fio_rq_def)
    have "rd_loop lrg e st = Some (st\<lparr>f_lastr := i_lastr u\<rparr>)" using run by (subst rd_loop.simps) (simp add: Let_def)
    then show ?thesis using False less.prems(5) by (auto simp: read_to_def)
  next
    case True
    obtain st1 n where s: "0 < n" "n \<le> u_cnt st" "u_off st + n \<le> f_size st" "read_to lrg st n st1" "u_err st1 = None"
      "rd_loop lrg e st = (if u_cnt st1 \<noteq> 0 then rd_loop lrg e st1 else Some st1)"
      using rd_step [OF less.prems(1-4) True env less.prems(5)] by blast
    have c: "u_cnt st1 = u_cnt st - n" "u_off st1 = u_off st + n" "f_size st1 = f_size st" "f_type st1 = IFREG" "f_bm st1 = f_bm st" "f_data st1 = f_data st"
      using s(4) less.prems(2) by (simp_all add: read_to_def)
    show ?thesis
    proof (cases "u_cnt st1 = 0")
      case True
      then have "max 0 (min (u_cnt st) (f_size st - u_off st)) = n" using c(1) s(1,3) by auto
      then show ?thesis using s True by simp
    next
      case False
      have "fio_ok lrg (x_rd e) isz fsz st1 bs" "size_ok lrg st1" using less.prems(1,3) s(1,3) by (simp_all add: fio_ok_def size_ok_def c)
      from less.hyps [OF _ this(1) c(4) this(2) _ s(5)] False c(1) s(1,2) obtain st' where
        st': "rd_loop lrg e st1 = Some st'" "u_err st' = None" "read_to lrg st1 (max 0 (min (u_cnt st1) (f_size st1 - u_off st1))) st'" by auto
      have "n + max 0 (min (u_cnt st1) (f_size st1 - u_off st1)) = max 0 (min (u_cnt st) (f_size st - u_off st))"
        using s(1-3) by (auto simp: c max_def min_def)
      then show ?thesis using read_to_trans [OF s(4) st'(3)] s(1,6) st'(1,2) False by auto
    qed
  qed
qed

section \<open>Properties\<close>

text \<open>
  C38: Writing. \<^verbatim>\<open>writei\<close> returns from every call that ends below the largest offset. It transfers \<open>k\<close> bytes from memory and advances offset, count
  and address by \<open>k\<close>, and it ends in one of four ways. All is written, without an error. Or there is no free block left or the file
  may not have the next block; this is reported only if nothing was written. In both cases the \<open>k\<close> bytes are in the file, every other byte of it, the bytes
  of holes and of new blocks among them, is as it was, and the file has grown if the bytes lie beyond its end. Or the next transfer faults
  at its user address: the error is EFAULT, whatever was written before, and each byte of that one transfer is the old or the new one. Or
  a synchronous write fails: its error is reported, the last block transferred, which \<open>k\<close> counts, is undefined, the rest is as said.
\<close>

theorem writei_updates:
  assumes "fio_ok lrg (x_rd e) isz fsz st bs" "0 \<le> u_cnt st" "u_err st = None" "u_off st + u_cnt st < 2 ^ 31"
  shows "\<exists>st' k bs'. writei lrg e st = Some st' \<and> 0 \<le> k \<and> k \<le> u_cnt st \<and> fio_ok lrg (x_rd e) isz fsz st' bs' \<and>
    ((k = u_cnt st \<and> u_err st' = None \<and> wrote lrg st k st')
     \<or> (k < u_cnt st \<and> (bs' = [] \<or> \<not> may_have lrg st (fsBNO lrg (u_off st + k))) \<and> wrote lrg st k st' \<and>
        (if k = 0 then u_err st' \<in> {Some ENOSPC, Some EFBIG} else u_err st' = None))
     \<or> faulted e lrg st k st' \<or> dev_failed e lrg st k st')"
proof -
  have e: "writei lrg e st = wr_loop lrg e 0 st" using assms(1) by (auto simp: writei_def fio_ok_def)
  from wr_loop_ok [where e = e and n = 0, OF assms] show ?thesis unfolding e wr_ends_def simp_thms .
qed

text \<open>
  C39: Reading. \<^verbatim>\<open>readi\<close> of an ordinary file returns without error the bytes of the file from the offset on, as many as were asked for
  or as the file has, holes read as zeros; other memory and the file are untouched.
\<close>

theorem readi_reads:
  assumes "fio_ok lrg (x_rd e) isz fsz st bs" "f_type st = IFREG" "size_ok lrg st" "0 \<le> u_cnt st" "u_err st = None"
    and "x_fault e False = (\<lambda>_ _. None)" "x_resid e = (\<lambda>_. False)"
  defines "k \<equiv> max 0 (min (u_cnt st) (f_size st - u_off st))"
  shows "\<exists>st'. readi lrg e st = Some st' \<and> u_err st' = None \<and> u_off st' = u_off st + k \<and> u_cnt st' = u_cnt st - k \<and>
    (\<forall>a. u_mem st' a = (if u_base st \<le> a \<and> a < u_base st + k then fbyte lrg st (u_off st + (a - u_base st)) else u_mem st a)) \<and>
    f_bm st' = f_bm st \<and> f_data st' = f_data st \<and> f_size st' = f_size st"
proof (cases "u_cnt st = 0")
  case True
  then show ?thesis using assms(5) by (auto simp: readi_def k_def)
next
  case False
  then have "readi lrg e st = rd_loop lrg e st" using assms(1,2) by (auto simp: readi_def fio_ok_def)
  then show ?thesis using rd_loop_ok [OF assms(1-3) _ assms(5-7)] assms(4) False unfolding read_to_def k_def by auto
qed

section \<open>Sample runs\<close>

definition demo_env :: fioenv where
  "demo_env = \<lparr>x_rd = (\<lambda>_. True), x_resid = (\<lambda>_. False), x_fault = (\<lambda>_ _ _. None), x_valid = (\<lambda>_. False), x_sync = False, x_werr = (\<lambda>_. None)\<rparr>"

definition demo_fio :: fio where
  "demo_fio = \<lparr>f_bm = demo_bm, f_data = (\<lambda>_. replicate 512 9), f_type = IFREG, f_size = 600, f_lastr = - 1, f_acc = False, f_upd = False, f_writes = [],
     u_off = 500, u_cnt = 20, u_base = 0, u_mem = (\<lambda>a. word_of_int a), u_err = None, u_lim = 5000\<rparr>"

lemma demo_fio_ok: "fio_ok False (x_rd demo_env) 28 200 demo_fio (rev [30..39])"
  using demo_bm_ok by (simp add: fio_ok_def demo_fio_def demo_env_def fsBSIZE_def)

lemma demo_size_ok: "size_ok False demo_fio"
proof -
  have "fsBNO False x < 10" "0 \<le> fsBNO False x" if "0 \<le> x" "x < 600" for x using that by (auto simp: fsBNO_def pos_imp_zdiv_nonneg_iff)
  moreover have "blk_path False m = Some [nat m]" if "0 \<le> m" "m < 10" for m using that by (simp add: blk_path_def)
  ultimately show ?thesis by (simp add: size_ok_def demo_fio_def)
qed

theorem writei_updates_witness:
  "\<exists>st' k. writei False demo_env demo_fio = Some st' \<and> 0 \<le> k \<and> k \<le> 20 \<and> f_size st' = 600 \<and>
     (\<forall>x\<ge>0. fbyte False st' x = (if 500 \<le> x \<and> x < 500 + k then word_of_int (x - 500) else fbyte False demo_fio x))"
proof -
  have v: "u_cnt demo_fio = 20" "u_off demo_fio = 500" "u_base demo_fio = 0" "u_mem demo_fio a = word_of_int a" "f_size demo_fio = 600"
    "u_err demo_fio = None" for a
    by (simp_all add: demo_fio_def)
  have n: "\<not> faulted demo_env False demo_fio k st'" "\<not> dev_failed demo_env False demo_fio k st'" for k st'
    by (simp_all add: faulted_def dev_failed_def wr_fails_def demo_env_def)
  obtain st' k where "writei False demo_env demo_fio = Some st'" "0 \<le> k" "k \<le> 20" "wrote False demo_fio k st'"
    using writei_updates [OF demo_fio_ok, unfolded v] n by auto
  then show ?thesis by (intro exI [of _ st'] exI [of _ k]) (auto simp: max_def wrote_def v)
qed

theorem readi_reads_witness: "\<exists>st'. readi False demo_env demo_fio = Some st' \<and> u_off st' = 520 \<and> u_mem st' 5 = 0"
proof -
  have h: "f_type demo_fio = IFREG" "0 \<le> u_cnt demo_fio" "u_err demo_fio = None" "x_fault demo_env False = (\<lambda>_ _. None)" "x_resid demo_env = (\<lambda>_. False)"
    by (simp_all add: demo_fio_def demo_env_def)
  have "file_block False demo_bm 0 = Some 0"
    by (simp add: file_block_def blk_path_def lookup_def demo_bm_def split: prod.split)
  then have "fbyte False demo_fio 505 = 0" by (simp add: fbyte_def demo_fio_def fsBNO_def)
  moreover have "u_cnt demo_fio = 20" "u_off demo_fio = 500" "u_base demo_fio = 0" "f_size demo_fio = 600" by (simp_all add: demo_fio_def)
  ultimately show ?thesis using readi_reads [OF demo_fio_ok h(1) demo_size_ok h(2-5)] by auto
qed

end
