(* ===== verification/Buffer_Cache.thy ===== *)
theory Buffer_Cache
  imports Fs_Params
begin

text \<open>
  The buffer cache (\<^verbatim>\<open>sys/os/bio.c\<close>, \<^verbatim>\<open>sys/buf.h\<close>). The two doubly linked lists a buffer is on are
  lists of buffer numbers: the free list from \<^verbatim>\<open>av_forw\<close> to \<^verbatim>\<open>av_back\<close>, and the hash chains. A device's
  strategy routine takes a request and returns; the transfer, and the call of \<^verbatim>\<open>iodone\<close> from the
  interrupt, are a step of their own (\<open>io_end\<close>), which may report an error. A call that sleeps ends
  with the channel, and what runs after the sleep is an operation too: \<^verbatim>\<open>getblk\<close> starts again,
  \<^verbatim>\<open>iowait\<close> tests again. Interrupt levels and the cache of the processor are left out.
\<close>

section \<open>Buffers and the cache\<close>

datatype bflag =
    B_READ | B_DONE | B_ERROR | B_BUSY | B_PHYS | B_MAP | B_WANTED | B_AGE | B_ASYNC | B_DELWRI
  | B_OPEN | B_STALE

record 'd bufr =
  b_flags :: "bflag set"
  b_dev :: int
  b_blkno :: int
  b_bcount :: int
  b_error :: int
  b_resid :: int
  b_start :: int
  b_data :: 'd

datatype bchan = ChBuf nat | ChFree | ChAsync | ChFlush

record 'd bcache =
  bufs :: "nat \<Rightarrow> 'd bufr"
  avl :: "nat list"              \<comment> \<open>bfreelist.av_forw to av_back\<close>
  av_count :: int                \<comment> \<open>bfreelist.b_bcount\<close>
  av_wanted :: bool              \<comment> \<open>B_WANTED of bfreelist\<close>
  hchain :: "nat \<Rightarrow> nat list"    \<comment> \<open>hbuf[i].b_forw to b_back\<close>
  nochain :: "nat list"          \<comment> \<open>bfreelist.b_forw to b_back\<close>
  pending :: "nat list"          \<comment> \<open>requests the drivers work on\<close>
  disk :: "int \<times> int \<Rightarrow> 'd"
  basyncnt :: int
  basynwait :: bool
  lbolt :: int
  bu_error :: int                \<comment> \<open>u.u_error\<close>
  bwoken :: "bchan list"
  st_lread :: int
  st_bread :: int
  st_lwrite :: int
  st_bwrite :: int
  u_ior :: int
  u_iow :: int

abbreviation (input) NODEV :: int where "NODEV \<equiv> - 1"
abbreviation (input) SBUFSIZE :: int where "SBUFSIZE \<equiv> 1024"

text \<open>How a call ends: with a buffer, asleep in \<^verbatim>\<open>getblk\<close>, or asleep in \<^verbatim>\<open>iowait\<close> holding a buffer.\<close>

datatype bget = Got nat | Slept bchan | IoWait nat

definition setb :: "nat \<Rightarrow> ('d bufr \<Rightarrow> 'd bufr) \<Rightarrow> 'd bcache \<Rightarrow> 'd bcache" where
  "setb b f st = st\<lparr>bufs := (bufs st)(b := f (bufs st b))\<rparr>"

definition on_flags :: "(bflag set \<Rightarrow> bflag set) \<Rightarrow> 'd bufr \<Rightarrow> 'd bufr" where
  "on_flags f p = p\<lparr>b_flags := f (b_flags p)\<rparr>"

definition has :: "'d bcache \<Rightarrow> nat \<Rightarrow> bflag \<Rightarrow> bool" where
  "has st b f \<longleftrightarrow> f \<in> b_flags (bufs st b)"

definition bwakeup :: "bchan \<Rightarrow> 'd bcache \<Rightarrow> 'd bcache" where
  "bwakeup c st = st\<lparr>bwoken := bwoken st @ [c]\<rparr>"

text \<open>The chain of a block: \<open>hm\<close> is \<^verbatim>\<open>v.v_hmask\<close>.\<close>

definition bhash :: "nat \<Rightarrow> int \<Rightarrow> int \<Rightarrow> nat" where
  "bhash hm d b = nat (and (d + b) (int hm))"

definition geterror :: "nat \<Rightarrow> 'd bcache \<Rightarrow> 'd bcache" where
  "geterror b st =
     (if has st b B_ERROR
      then st\<lparr>bu_error := (if b_error (bufs st b) = 0 then 5 else b_error (bufs st b))\<rparr> else st)"

section \<open>Taking and releasing buffers\<close>

definition notavail :: "nat \<Rightarrow> 'd bcache \<Rightarrow> 'd bcache" where
  "notavail b st =
     (setb b (on_flags (insert B_BUSY)) (st\<lparr>avl := remove1 b (avl st)\<rparr>))\<lparr>av_count := av_count st - 1\<rparr>"

definition brelse :: "nat \<Rightarrow> 'd bcache \<Rightarrow> 'd bcache" where
  "brelse b st =
     (let st1 = (if has st b B_WANTED then bwakeup (ChBuf b) st else st);
          st2 = (if av_wanted st1 then bwakeup ChFree (st1\<lparr>av_wanted := False\<rparr>) else st1);
          st3 = (if has st2 b B_ERROR
                 then setb b (\<lambda>p. p\<lparr>b_flags := b_flags p \<union> {B_STALE, B_AGE} - {B_ERROR, B_DELWRI}, b_error := 0\<rparr>) st2
                 else st2);
          st4 = st3\<lparr>avl := (if has st3 b B_AGE then b # avl st3 else avl st3 @ [b])\<rparr>
      in (setb b (on_flags (\<lambda>fl. fl - {B_WANTED, B_BUSY, B_ASYNC, B_AGE})) st4)\<lparr>av_count := av_count st4 + 1\<rparr>)"

text \<open>The strategy routine queues the request.\<close>

definition strategy :: "nat \<Rightarrow> 'd bcache \<Rightarrow> 'd bcache" where
  "strategy b st = st\<lparr>pending := pending st @ [b]\<rparr>"

definition iowait :: "nat \<Rightarrow> 'd bcache \<Rightarrow> 'd bcache \<times> bchan option" where
  "iowait b st = (if has st b B_DONE then (geterror b st, None) else (st, Some (ChBuf b)))"

definition bwrite_end :: "nat \<Rightarrow> 'd bcache \<Rightarrow> 'd bcache \<times> bchan option" where
  "bwrite_end b st = (case iowait b st of (st1, None) \<Rightarrow> (brelse b st1, None) | r \<Rightarrow> r)"

definition bwrite_start :: "nat \<Rightarrow> 'd bcache \<Rightarrow> 'd bcache" where
  "bwrite_start b st =
     (let st1 = strategy b (setb b (on_flags (\<lambda>fl. fl - {B_READ, B_DONE, B_ERROR, B_DELWRI})) (st\<lparr>st_lwrite := st_lwrite st + 1\<rparr>))
      in st1\<lparr>u_iow := u_iow st1 + 1, st_bwrite := st_bwrite st1 + 1\<rparr>)"

definition bwrite :: "nat \<Rightarrow> 'd bcache \<Rightarrow> 'd bcache \<times> bchan option" where
  "bwrite b st =
     (let flag = b_flags (bufs st b); st1 = bwrite_start b st in
      if B_ASYNC \<notin> flag then bwrite_end b st1
      else let st2 = st1\<lparr>basyncnt := basyncnt st1 + 1\<rparr> in
        (if B_DELWRI \<notin> flag then geterror b st2 else st2, None))"

definition bdwrite :: "nat \<Rightarrow> 'd bcache \<Rightarrow> 'd bcache" where
  "bdwrite b st =
     (let st1 = st\<lparr>st_lwrite := st_lwrite st + 1\<rparr>;
          st2 = (if has st1 b B_DELWRI then st1 else setb b (\<lambda>p. p\<lparr>b_start := lbolt st1\<rparr>) st1)
      in brelse b (setb b (\<lambda>p. p\<lparr>b_flags := b_flags p \<union> {B_DELWRI, B_DONE}, b_resid := 0\<rparr>) st2))"

definition bawrite :: "nat \<Rightarrow> 'd bcache \<Rightarrow> 'd bcache \<times> bchan option" where
  "bawrite b st = bwrite b (if av_count st > 4 then setb b (on_flags (insert B_ASYNC)) st else st)"

text \<open>A delayed write is begun when the buffer leaves the free list.\<close>

definition write_out :: "nat \<Rightarrow> 'd bcache \<Rightarrow> 'd bcache" where
  "write_out b st = fst (bwrite b (setb b (on_flags (insert B_ASYNC)) (notavail b st)))"

section \<open>Finding a block\<close>

definition lookup :: "nat \<Rightarrow> int \<Rightarrow> int \<Rightarrow> 'd bcache \<Rightarrow> nat option" where
  "lookup hm dev blk st =
     find (\<lambda>b. b_blkno (bufs st b) = blk \<and> b_dev (bufs st b) = dev \<and> \<not> has st b B_STALE) (hchain st (bhash hm dev blk))"

definition incore :: "nat \<Rightarrow> int \<Rightarrow> int \<Rightarrow> 'd bcache \<Rightarrow> bool" where
  "incore hm dev blkno st \<longleftrightarrow> lookup hm dev (fsLTOP (fsLRG dev) blkno) st \<noteq> None"

definition unhash :: "nat \<Rightarrow> 'd bcache \<Rightarrow> 'd bcache" where
  "unhash b st = st\<lparr>hchain := (\<lambda>i. remove1 b (hchain st i)), nochain := remove1 b (nochain st)\<rparr>"

definition take_block :: "nat \<Rightarrow> int \<Rightarrow> int \<Rightarrow> nat \<Rightarrow> 'd bcache \<Rightarrow> 'd bcache" where
  "take_block hm dev blk b st =
     (let st1 = unhash b (setb b (on_flags (\<lambda>_. {B_BUSY})) st);
          st2 = st1\<lparr>hchain := (hchain st1)(bhash hm dev blk := b # hchain st1 (bhash hm dev blk))\<rparr>
      in setb b (\<lambda>p. p\<lparr>b_dev := dev, b_blkno := blk, b_bcount := fsBSIZE (fsLRG dev)\<rparr>) st2)"

definition take_empty :: "nat \<Rightarrow> 'd bcache \<Rightarrow> 'd bcache" where
  "take_empty b st =
     (let st1 = unhash b (setb b (on_flags (\<lambda>_. {B_BUSY, B_AGE})) st);
          st2 = st1\<lparr>nochain := b # nochain st1\<rparr>
      in setb b (\<lambda>p. p\<lparr>b_dev := NODEV, b_bcount := SBUFSIZE\<rparr>) st2)"

lemma write_out_avl [simp]: "avl (write_out b st) = remove1 b (avl st)"
  by (simp add: write_out_def bwrite_def bwrite_start_def Let_def setb_def on_flags_def notavail_def strategy_def geterror_def)

text \<open>\<^verbatim>\<open>getblk\<close> for a physical block number.\<close>

function getblk_loop :: "nat \<Rightarrow> int \<Rightarrow> int \<Rightarrow> 'd bcache \<Rightarrow> 'd bcache \<times> bget" where
  "getblk_loop hm dev blk st =
     (case lookup hm dev blk st of
        Some b \<Rightarrow>
          if has st b B_BUSY then (setb b (on_flags (insert B_WANTED)) st, Slept (ChBuf b))
          else (notavail b st, Got b)
      | None \<Rightarrow>
          (case avl st of
             [] \<Rightarrow> (st\<lparr>av_wanted := True\<rparr>, Slept ChFree)
           | b # _ \<Rightarrow>
               if has st b B_DELWRI then getblk_loop hm dev blk (write_out b st)
               else (take_block hm dev blk b (notavail b st), Got b)))"
  by pat_completeness auto
termination
  by (relation "measure (\<lambda>(hm, dev, blk, st). length (avl st))") auto

definition getblk :: "nat \<Rightarrow> int \<Rightarrow> int \<Rightarrow> 'd bcache \<Rightarrow> 'd bcache \<times> bget" where
  "getblk hm dev blkno st = getblk_loop hm dev (fsLTOP (fsLRG dev) blkno) st"

function geteblk :: "'d bcache \<Rightarrow> 'd bcache \<times> bget" where
  "geteblk st =
     (case avl st of
        [] \<Rightarrow> (st\<lparr>av_wanted := True\<rparr>, Slept ChFree)
      | b # _ \<Rightarrow>
          if has st b B_DELWRI then geteblk (write_out b st)
          else (take_empty b (notavail b st), Got b))"
  by pat_completeness auto
termination
  by (relation "measure (\<lambda>st. length (avl st))") auto

section \<open>Reading\<close>

definition start_read :: "bflag set \<Rightarrow> int \<Rightarrow> nat \<Rightarrow> 'd bcache \<Rightarrow> 'd bcache" where
  "start_read fl dev b st =
     (let st1 = strategy b (setb b (\<lambda>p. p\<lparr>b_flags := b_flags p \<union> fl, b_bcount := fsBSIZE (fsLRG dev)\<rparr>) st)
      in st1\<lparr>u_ior := u_ior st1 + 1, st_bread := st_bread st1 + 1\<rparr>)"

definition io_result :: "nat \<Rightarrow> 'd bcache \<Rightarrow> 'd bcache \<times> bget" where
  "io_result b st = (case iowait b st of (st1, None) \<Rightarrow> (st1, Got b) | (st1, Some c) \<Rightarrow> (st1, IoWait b))"

definition bread_get :: "nat \<Rightarrow> int \<Rightarrow> int \<Rightarrow> 'd bcache \<Rightarrow> 'd bcache \<times> bget" where
  "bread_get hm dev blkno st =
     (case getblk hm dev blkno st of
        (st1, Got b) \<Rightarrow>
          if has st1 b B_DONE then (geterror b st1, Got b)
          else io_result b (start_read {B_READ} dev b st1)
      | r \<Rightarrow> r)"

definition bread :: "nat \<Rightarrow> int \<Rightarrow> int \<Rightarrow> 'd bcache \<Rightarrow> 'd bcache \<times> bget" where
  "bread hm dev blkno st = bread_get hm dev blkno (st\<lparr>st_lread := st_lread st + 1\<rparr>)"

text \<open>
  \<^verbatim>\<open>breada\<close> sleeps in the \<^verbatim>\<open>getblk\<close> of the block, of either read-ahead block, or of \<^verbatim>\<open>bread\<close>; it goes on
  from there.
\<close>

datatype ra_at = AtGet | AtAhead "nat option" | AtAhead2 | AtRead

datatype ra_res = RaGot nat | RaWait nat | RaSleep ra_at bchan

definition ra_result :: "ra_at \<Rightarrow> 'd bcache \<times> bget \<Rightarrow> 'd bcache \<times> ra_res" where
  "ra_result k r = (case r of (st, Got b) \<Rightarrow> (st, RaGot b) | (st, IoWait b) \<Rightarrow> (st, RaWait b) | (st, Slept c) \<Rightarrow> (st, RaSleep k c))"

definition ra_block :: "nat \<Rightarrow> int \<Rightarrow> int \<Rightarrow> 'd bcache \<Rightarrow> 'd bcache \<times> bchan option" where
  "ra_block hm dev rablk st =
     (case getblk hm dev rablk st of
        (st1, Got r) \<Rightarrow>
          (if has st1 r B_DONE then brelse r st1 else start_read {B_READ, B_ASYNC} dev r st1, None)
      | (st1, Slept c) \<Rightarrow> (st1, Some c)
      | (st1, IoWait b) \<Rightarrow> (st1, Some (ChBuf b)))"

definition ra_wanted :: "nat \<Rightarrow> int \<Rightarrow> int \<Rightarrow> 'd bcache \<Rightarrow> bool" where
  "ra_wanted hm dev rablk st \<longleftrightarrow> rablk \<noteq> 0 \<and> av_count st > 1 \<and> \<not> incore hm dev rablk st"

definition breada_read :: "nat \<Rightarrow> int \<Rightarrow> int \<Rightarrow> 'd bcache \<Rightarrow> 'd bcache \<times> ra_res" where
  "breada_read hm dev blkno st = ra_result AtRead (bread hm dev blkno st)"

definition breada_ahead2 :: "nat \<Rightarrow> int \<Rightarrow> int \<Rightarrow> int \<Rightarrow> 'd bcache \<Rightarrow> 'd bcache \<times> ra_res" where
  "breada_ahead2 hm dev blkno xablk st =
     (case ra_block hm dev xablk st of
        (st1, Some c) \<Rightarrow> (st1, RaSleep AtAhead2 c)
      | (st1, None) \<Rightarrow> breada_read hm dev blkno st1)"

definition breada_end :: "nat \<Rightarrow> int \<Rightarrow> int \<Rightarrow> int \<Rightarrow> nat option \<Rightarrow> 'd bcache \<Rightarrow> 'd bcache \<times> ra_res" where
  "breada_end hm dev blkno xablk bp st =
     (case bp of
        Some b \<Rightarrow> ra_result AtGet (io_result b st)
      | None \<Rightarrow>
          if ra_wanted hm dev xablk st then breada_ahead2 hm dev blkno xablk st
          else breada_read hm dev blkno st)"

definition breada_ahead :: "nat \<Rightarrow> int \<Rightarrow> int \<Rightarrow> int \<Rightarrow> int \<Rightarrow> nat option \<Rightarrow> 'd bcache \<Rightarrow> 'd bcache \<times> ra_res" where
  "breada_ahead hm dev blkno rablk xablk bp st =
     (case ra_block hm dev rablk st of
        (st1, Some c) \<Rightarrow> (st1, RaSleep (AtAhead bp) c)
      | (st1, None) \<Rightarrow> breada_end hm dev blkno xablk bp st1)"

definition breada_next :: "nat \<Rightarrow> int \<Rightarrow> int \<Rightarrow> int \<Rightarrow> int \<Rightarrow> nat option \<Rightarrow> 'd bcache \<Rightarrow> 'd bcache \<times> ra_res" where
  "breada_next hm dev blkno rablk xablk bp st =
     (if ra_wanted hm dev rablk st then breada_ahead hm dev blkno rablk xablk bp st
      else breada_end hm dev blkno xablk bp st)"

definition breada_get :: "nat \<Rightarrow> int \<Rightarrow> int \<Rightarrow> int \<Rightarrow> int \<Rightarrow> 'd bcache \<Rightarrow> 'd bcache \<times> ra_res" where
  "breada_get hm dev blkno rablk xablk st =
     (case getblk hm dev blkno st of
        (st1, Got b) \<Rightarrow>
          breada_next hm dev blkno rablk xablk (Some b)
            (if has st1 b B_DONE then st1 else start_read {B_READ} dev b st1)
      | r \<Rightarrow> ra_result AtGet r)"

definition breada :: "nat \<Rightarrow> int \<Rightarrow> int \<Rightarrow> int \<Rightarrow> int \<Rightarrow> 'd bcache \<Rightarrow> 'd bcache \<times> ra_res" where
  "breada hm dev blkno rablk xablk st =
     (if incore hm dev blkno st then breada_next hm dev blkno rablk xablk None st
      else breada_get hm dev blkno rablk xablk (st\<lparr>st_lread := st_lread st + 1\<rparr>))"

fun breada_resume :: "nat \<Rightarrow> int \<Rightarrow> int \<Rightarrow> int \<Rightarrow> int \<Rightarrow> ra_at \<Rightarrow> 'd bcache \<Rightarrow> 'd bcache \<times> ra_res" where
  "breada_resume hm dev blkno rablk xablk AtGet st = breada_get hm dev blkno rablk xablk st"
| "breada_resume hm dev blkno rablk xablk (AtAhead bp) st = breada_ahead hm dev blkno rablk xablk bp st"
| "breada_resume hm dev blkno rablk xablk AtAhead2 st = breada_ahead2 hm dev blkno xablk st"
| "breada_resume hm dev blkno rablk xablk AtRead st = ra_result AtRead (bread_get hm dev blkno st)"

section \<open>Completion\<close>

definition iodone :: "nat \<Rightarrow> 'd bcache \<Rightarrow> 'd bcache" where
  "iodone b st =
     (let st1 = setb b (on_flags (insert B_DONE)) st in
      if has st1 b B_ASYNC then
        (let st2 = (if has st1 b B_READ then st1 else st1\<lparr>basyncnt := basyncnt st1 - 1\<rparr>);
             st3 = (if basyncnt st2 = 0 \<and> basynwait st2 then bwakeup ChAsync (st2\<lparr>basynwait := False\<rparr>) else st2)
         in brelse b st3)
      else bwakeup (ChBuf b) (setb b (on_flags (\<lambda>fl. fl - {B_WANTED})) st1))"

text \<open>The driver has finished a request: the data moved, or an error with its code.\<close>

definition io_end :: "nat \<Rightarrow> int option \<Rightarrow> 'd bcache \<Rightarrow> 'd bcache" where
  "io_end b err st =
     (let p = bufs st b; st1 = st\<lparr>pending := remove1 b (pending st)\<rparr>;
          st2 = (case err of
                   Some e \<Rightarrow> setb b (\<lambda>p. p\<lparr>b_flags := insert B_ERROR (b_flags p), b_error := e\<rparr>) st1
                 | None \<Rightarrow>
                     if has st b B_READ then setb b (\<lambda>p. p\<lparr>b_data := disk st (b_dev p, b_blkno p)\<rparr>) st1
                     else st1\<lparr>disk := (disk st)((b_dev p, b_blkno p) := b_data p)\<rparr>)
      in iodone b st2)"

definition clrbuf :: "'d \<Rightarrow> nat \<Rightarrow> 'd bcache \<Rightarrow> 'd bcache" where
  "clrbuf zero b st = setb b (\<lambda>p. p\<lparr>b_data := zero, b_resid := 0\<rparr>) st"

section \<open>Flushing and invalidating\<close>

text \<open>Both daemons write the first buffer to write, and look again from the head of the list.\<close>

function flush_while :: "('d bufr \<Rightarrow> bool) \<Rightarrow> 'd bcache \<Rightarrow> 'd bcache" where
  "flush_while P st =
     (case find (\<lambda>b. has st b B_DELWRI \<and> P (bufs st b)) (avl st) of
        None \<Rightarrow> st
      | Some b \<Rightarrow> flush_while P (write_out b st))"
  by pat_completeness auto
termination
  by (relation "measure (\<lambda>(P, st). length (avl st))")
    (auto dest!: find_SomeD simp: length_remove1 intro!: diff_less)

declare getblk_loop.simps [simp del] geteblk.simps [simp del] flush_while.simps [simp del]

definition bflush :: "int \<Rightarrow> 'd bcache \<Rightarrow> 'd bcache" where
  "bflush dev st = flush_while (\<lambda>p. dev = NODEV \<or> dev = b_dev p) st"

text \<open>One round of the daemon: \<open>t\<close> is \<^verbatim>\<open>v.v_autoup * hz\<close>.\<close>

definition bdflush :: "int \<Rightarrow> 'd bcache \<Rightarrow> 'd bcache \<times> bchan option" where
  "bdflush t st = (flush_while (\<lambda>p. lbolt st - b_start p \<ge> t) st, Some ChFlush)"

definition bdwait :: "'d bcache \<Rightarrow> 'd bcache \<times> bchan option" where
  "bdwait st = (if basyncnt st \<noteq> 0 then (st\<lparr>basynwait := True\<rparr>, Some ChAsync) else (st, None))"

definition binval_one :: "int \<Rightarrow> 'd bcache \<Rightarrow> nat \<Rightarrow> 'd bcache" where
  "binval_one dev st b =
     (if dev = b_dev (bufs st b) then setb b (on_flags (\<lambda>fl. fl \<union> {B_STALE, B_AGE})) st else st)"

definition binval :: "int \<Rightarrow> nat \<Rightarrow> int \<Rightarrow> 'd bcache \<Rightarrow> 'd bcache" where
  "binval swapdev hbuf dev st =
     (if dev \<noteq> swapdev then foldl (\<lambda>st i. foldl (binval_one dev) st (hchain st i)) st [0..<hbuf] else st)"

text \<open>The buffers of the pool are entered one by one; \<open>p0\<close> is what the memory for them held.\<close>

definition binit_one :: "'d bcache \<Rightarrow> nat \<Rightarrow> 'd bcache" where
  "binit_one st b =
     brelse b (setb b (\<lambda>p. p\<lparr>b_dev := NODEV, b_flags := {B_BUSY}, b_bcount := 0\<rparr>) (st\<lparr>nochain := b # nochain st\<rparr>))"

definition binit :: "nat \<Rightarrow> 'd bcache \<Rightarrow> 'd bcache" where
  "binit nbuf st =
     (foldl binit_one (st\<lparr>nochain := [], avl := []\<rparr>) [0..<nbuf])\<lparr>hchain := (\<lambda>_. [])\<rparr>"

section \<open>The invariant\<close>

definition bkey :: "'d bufr \<Rightarrow> int \<times> int" where
  "bkey p = (b_dev p, b_blkno p)"

text \<open>The free list holds the buffers that are not busy.\<close>

definition free_ok :: "nat \<Rightarrow> 'd bcache \<Rightarrow> bool" where
  "free_ok n st \<longleftrightarrow> distinct (avl st) \<and> set (avl st) = {b. b < n \<and> \<not> has st b B_BUSY} \<and> av_count st = int (length (avl st))"

text \<open>Each buffer is on the chain of its block, once.\<close>

definition chains_ok :: "nat \<Rightarrow> nat \<Rightarrow> 'd bcache \<Rightarrow> bool" where
  "chains_ok n hm st \<longleftrightarrow>
     distinct (nochain st) \<and> set (nochain st) = {b. b < n \<and> b_dev (bufs st b) = NODEV} \<and>
     (\<forall>i. distinct (hchain st i) \<and>
          set (hchain st i) = {b. b < n \<and> b_dev (bufs st b) \<noteq> NODEV \<and> bhash hm (b_dev (bufs st b)) (b_blkno (bufs st b)) = i})"

definition fresh :: "nat \<Rightarrow> 'd bcache \<Rightarrow> nat \<Rightarrow> bool" where
  "fresh n st b \<longleftrightarrow> b < n \<and> b_dev (bufs st b) \<noteq> NODEV \<and> \<not> has st b B_STALE"

definition uniq_ok :: "nat \<Rightarrow> 'd bcache \<Rightarrow> bool" where
  "uniq_ok n st \<longleftrightarrow> (\<forall>b c. fresh n st b \<and> fresh n st c \<and> bkey (bufs st b) = bkey (bufs st c) \<longrightarrow> b = c)"

definition pend_ok :: "nat \<Rightarrow> 'd bcache \<Rightarrow> bool" where
  "pend_ok n st \<longleftrightarrow> distinct (pending st) \<and> set (pending st) \<subseteq> {..<n} \<and>
     basyncnt st = int (length (filter (\<lambda>b. has st b B_ASYNC \<and> \<not> has st b B_READ) (pending st)))"

text \<open>
  The flags of one buffer: whether it is in a driver's queue (\<open>pe\<close>), and what its block holds on the
  disk (\<open>d\<close>).
\<close>

definition buf_ok :: "'d bufr \<Rightarrow> bool \<Rightarrow> 'd \<Rightarrow> bool" where
  "buf_ok p pe d \<longleftrightarrow>
     (pe \<longrightarrow> B_BUSY \<in> b_flags p \<and> B_DONE \<notin> b_flags p \<and> B_STALE \<notin> b_flags p \<and> b_dev p \<noteq> NODEV) \<and>
     (B_STALE \<in> b_flags p \<longrightarrow> B_BUSY \<notin> b_flags p \<and> B_DELWRI \<notin> b_flags p) \<and>
     (B_ASYNC \<in> b_flags p \<longrightarrow> pe) \<and>
     (B_ERROR \<in> b_flags p \<longrightarrow> B_DONE \<in> b_flags p \<and> B_BUSY \<in> b_flags p) \<and>
     (B_DELWRI \<in> b_flags p \<longrightarrow> B_DONE \<in> b_flags p \<and> b_dev p \<noteq> NODEV) \<and>
     (b_dev p \<noteq> NODEV \<and> B_STALE \<notin> b_flags p \<and> B_BUSY \<notin> b_flags p \<and> B_DONE \<in> b_flags p \<and> B_DELWRI \<notin> b_flags p
        \<longrightarrow> b_data p = d)"

definition bufs_ok :: "nat \<Rightarrow> 'd bcache \<Rightarrow> bool" where
  "bufs_ok n st \<longleftrightarrow> (\<forall>b<n. buf_ok (bufs st b) (b \<in> set (pending st)) (disk st (bkey (bufs st b))))"

definition cache_ok :: "nat \<Rightarrow> nat \<Rightarrow> 'd bcache \<Rightarrow> bool" where
  "cache_ok n hm st \<longleftrightarrow> free_ok n st \<and> chains_ok n hm st \<and> uniq_ok n st \<and> pend_ok n st \<and> bufs_ok n st"

text \<open>A process holds a busy buffer no driver works on.\<close>

definition held :: "nat \<Rightarrow> 'd bcache \<Rightarrow> nat \<Rightarrow> bool" where
  "held n st b \<longleftrightarrow> b < n \<and> has st b B_BUSY \<and> b \<notin> set (pending st)"

text \<open>What the cache says a block contains.\<close>

definition valid :: "'d bcache \<Rightarrow> nat \<Rightarrow> bool" where
  "valid st b \<longleftrightarrow> has st b B_DONE \<and> \<not> has st b B_ERROR \<or> b \<in> set (pending st) \<and> \<not> has st b B_READ"

definition content :: "nat \<Rightarrow> 'd bcache \<Rightarrow> int \<times> int \<Rightarrow> 'd" where
  "content hm st k =
     (case lookup hm (fst k) (snd k) st of
        Some b \<Rightarrow> if valid st b then b_data (bufs st b) else disk st k
      | None \<Rightarrow> disk st k)"

lemma setb_simps [simp]:
  "bufs (setb b f st) = (bufs st)(b := f (bufs st b))"
  "avl (setb b f st) = avl st" "av_count (setb b f st) = av_count st" "hchain (setb b f st) = hchain st"
  "nochain (setb b f st) = nochain st" "pending (setb b f st) = pending st" "disk (setb b f st) = disk st"
  "basyncnt (setb b f st) = basyncnt st" "lbolt (setb b f st) = lbolt st" "av_wanted (setb b f st) = av_wanted st"
  by (simp_all add: setb_def)

lemma on_flags_simps [simp]:
  "b_flags (on_flags f p) = f (b_flags p)" "b_dev (on_flags f p) = b_dev p" "b_blkno (on_flags f p) = b_blkno p"
  "b_data (on_flags f p) = b_data p" "b_error (on_flags f p) = b_error p" "b_start (on_flags f p) = b_start p"
  "bkey (on_flags f p) = bkey p"
  by (simp_all add: on_flags_def bkey_def)

lemma bkey_upd [simp]:
  "bkey (p\<lparr>b_flags := a\<rparr>) = bkey p" "bkey (p\<lparr>b_error := e\<rparr>) = bkey p" "bkey (p\<lparr>b_data := x\<rparr>) = bkey p"
  "bkey (p\<lparr>b_start := e\<rparr>) = bkey p" "bkey (p\<lparr>b_resid := e\<rparr>) = bkey p" "bkey (p\<lparr>b_bcount := e\<rparr>) = bkey p"
  by (simp_all add: bkey_def)

lemma bwakeup_simps [simp]:
  "bufs (bwakeup c st) = bufs st" "avl (bwakeup c st) = avl st" "av_count (bwakeup c st) = av_count st"
  "hchain (bwakeup c st) = hchain st" "nochain (bwakeup c st) = nochain st" "pending (bwakeup c st) = pending st"
  "disk (bwakeup c st) = disk st" "basyncnt (bwakeup c st) = basyncnt st" "lbolt (bwakeup c st) = lbolt st"
  "av_wanted (bwakeup c st) = av_wanted st"
  by (simp_all add: bwakeup_def)

lemma geterror_simps [simp]:
  "bufs (geterror c st) = bufs st" "avl (geterror c st) = avl st" "av_count (geterror c st) = av_count st"
  "hchain (geterror c st) = hchain st" "nochain (geterror c st) = nochain st" "pending (geterror c st) = pending st"
  "disk (geterror c st) = disk st" "basyncnt (geterror c st) = basyncnt st"
  by (simp_all add: geterror_def)

text \<open>The fields the invariant does not look at.\<close>

lemma ok_cong:
  assumes "bufs st' = bufs st" "avl st' = avl st" "av_count st' = av_count st" "hchain st' = hchain st"
    "nochain st' = nochain st" "pending st' = pending st" "disk st' = disk st" "basyncnt st' = basyncnt st"
  shows "cache_ok n hm st' = cache_ok n hm st" "content hm st' = content hm st" "held n st' = held n st"
proof -
  have h: "has st' = has st" by (intro ext) (simp add: has_def assms)
  then show "cache_ok n hm st' = cache_ok n hm st" "held n st' = held n st"
    by (simp_all add: cache_ok_def free_ok_def chains_ok_def uniq_ok_def pend_ok_def bufs_ok_def fresh_def held_def assms
        cong: conj_cong, simp add: held_def assms fun_eq_iff)
  show "content hm st' = content hm st"
    by (intro ext) (simp add: content_def lookup_def valid_def h assms split: option.split)
qed

lemma ok_free: "cache_ok n hm st \<Longrightarrow> b \<in> set (avl st) \<longleftrightarrow> b < n \<and> \<not> has st b B_BUSY"
  by (simp add: cache_ok_def free_ok_def)

lemma ok_buf: "\<lbrakk>cache_ok n hm st; b < n\<rbrakk> \<Longrightarrow> buf_ok (bufs st b) (b \<in> set (pending st)) (disk st (bkey (bufs st b)))"
  by (simp add: cache_ok_def bufs_ok_def)

lemma lookup_Some:
  assumes "cache_ok n hm st"
  shows "lookup hm dev blk st = Some b \<longleftrightarrow> fresh n st b \<and> bkey (bufs st b) = (dev, blk)"
proof
  assume "lookup hm dev blk st = Some b"
  from find_SomeD [OF this [unfolded lookup_def]] assms show "fresh n st b \<and> bkey (bufs st b) = (dev, blk)"
    by (auto simp: fresh_def bkey_def cache_ok_def chains_ok_def)
next
  assume b: "fresh n st b \<and> bkey (bufs st b) = (dev, blk)"
  let ?P = "\<lambda>b. b_blkno (bufs st b) = blk \<and> b_dev (bufs st b) = dev \<and> \<not> has st b B_STALE"
  have in_chain: "b \<in> set (hchain st (bhash hm dev blk))" "?P b"
    using b assms by (auto simp: cache_ok_def chains_ok_def fresh_def bkey_def)
  then obtain c where c: "lookup hm dev blk st = Some c"
    by (cases "lookup hm dev blk st") (auto simp: lookup_def find_None_iff)
  with find_SomeD [OF c [unfolded lookup_def]] assms have "fresh n st c \<and> bkey (bufs st c) = (dev, blk)"
    by (auto simp: fresh_def bkey_def cache_ok_def chains_ok_def)
  with b assms have "c = b" by (auto simp: cache_ok_def uniq_ok_def)
  with c show "lookup hm dev blk st = Some b" by simp
qed

lemma lookup_None:
  assumes "cache_ok n hm st"
  shows "lookup hm dev blk st = None \<longleftrightarrow> (\<forall>b. fresh n st b \<longrightarrow> bkey (bufs st b) \<noteq> (dev, blk))"
  using lookup_Some [OF assms] by (metis not_None_eq option.distinct(1))

definition live :: "nat \<Rightarrow> 'd bcache \<Rightarrow> nat \<Rightarrow> bool" where
  "live n st b \<longleftrightarrow> fresh n st b \<and> valid st b"

lemma content_live: "\<lbrakk>cache_ok n hm st; live n st b; bkey (bufs st b) = k\<rbrakk> \<Longrightarrow> content hm st k = b_data (bufs st b)"
  using lookup_Some [of n hm st "fst k" "snd k" b] by (simp add: content_def live_def)

lemma content_dead:
  assumes "cache_ok n hm st" "\<And>b. live n st b \<Longrightarrow> bkey (bufs st b) \<noteq> k"
  shows "content hm st k = disk st k"
proof (cases "lookup hm (fst k) (snd k) st")
  case None
  then show ?thesis by (simp add: content_def)
next
  case (Some b)
  with lookup_Some [OF assms(1), of "fst k" "snd k" b] assms(2) [of b] have "\<not> valid st b" by (auto simp: live_def)
  with Some show ?thesis by (simp add: content_def)
qed

section \<open>The primitive changes\<close>

lemma has_simps [simp]:
  "has (setb b f st) c x = (if c = b then x \<in> b_flags (f (bufs st b)) else has st c x)"
  "has (st\<lparr>avl := a1\<rparr>) = has st" "has (st\<lparr>av_count := a2\<rparr>) = has st" "has (st\<lparr>av_wanted := a3\<rparr>) = has st"
  "has (st\<lparr>hchain := a4\<rparr>) = has st" "has (st\<lparr>nochain := a5\<rparr>) = has st" "has (st\<lparr>pending := a6\<rparr>) = has st"
  "has (st\<lparr>disk := a7\<rparr>) = has st" "has (st\<lparr>basyncnt := a8\<rparr>) = has st" "has (st\<lparr>basynwait := a9\<rparr>) = has st"
  "has (st\<lparr>st_lread := n\<rparr>) = has st" "has (st\<lparr>st_bread := n\<rparr>) = has st" "has (st\<lparr>st_lwrite := n\<rparr>) = has st"
  "has (st\<lparr>st_bwrite := n\<rparr>) = has st" "has (st\<lparr>u_ior := n\<rparr>) = has st" "has (st\<lparr>u_iow := n\<rparr>) = has st"
  "has (st\<lparr>lbolt := n\<rparr>) = has st" "has (bwakeup ch st) = has st" "has (geterror b st) = has st"
  by (simp_all add: has_def fun_eq_iff)

lemma flags_has [simp]: "x \<in> b_flags (bufs st b) \<longleftrightarrow> has st b x"
  by (simp add: has_def)

lemma notavail_simps [simp]:
  "has (notavail b st) c x \<longleftrightarrow> has st c x \<or> c = b \<and> x = B_BUSY"
  "avl (notavail b st) = remove1 b (avl st)" "av_count (notavail b st) = av_count st - 1"
  "pending (notavail b st) = pending st" "disk (notavail b st) = disk st" "hchain (notavail b st) = hchain st"
  "nochain (notavail b st) = nochain st" "basyncnt (notavail b st) = basyncnt st" "lbolt (notavail b st) = lbolt st"
  "b_dev (bufs (notavail b st) c) = b_dev (bufs st c)" "b_blkno (bufs (notavail b st) c) = b_blkno (bufs st c)"
  "b_data (bufs (notavail b st) c) = b_data (bufs st c)" "bkey (bufs (notavail b st) c) = bkey (bufs st c)"
  by (auto simp: notavail_def bkey_def)

lemma free_remove:
  assumes "free_ok n st" "b \<in> set (avl st)" "avl st' = remove1 b (avl st)" "av_count st' = av_count st - 1"
    and "\<And>c. has st' c B_BUSY \<longleftrightarrow> has st c B_BUSY \<or> c = b"
  shows "free_ok n st'"
proof -
  have "length (avl st) > 0" using assms(2) by (cases "avl st") auto
  then have "int (length (avl st) - 1) = int (length (avl st)) - 1" by (simp add: of_nat_diff Suc_leI)
  then show ?thesis using assms unfolding free_ok_def by (auto simp: length_remove1)
qed

text \<open>A change at one buffer, with its driver's request and its block on the disk.\<close>

definition only_at :: "nat \<Rightarrow> nat \<Rightarrow> 'd bcache \<Rightarrow> 'd bcache \<Rightarrow> bool" where
  "only_at n b st st' \<longleftrightarrow>
     (\<forall>c. c \<noteq> b \<longrightarrow> bufs st' c = bufs st c \<and> (c \<in> set (pending st') \<longleftrightarrow> c \<in> set (pending st))) \<and>
     b_dev (bufs st' b) = b_dev (bufs st b) \<and> b_blkno (bufs st' b) = b_blkno (bufs st b) \<and>
     (has st b B_STALE \<longrightarrow> has st' b B_STALE) \<and> hchain st' = hchain st \<and> nochain st' = nochain st \<and>
     (\<forall>k. disk st' k \<noteq> disk st k \<longrightarrow> k = bkey (bufs st b) \<and> fresh n st b)"

lemma only_at_facts:
  assumes only: "only_at n b st st'"
  shows only_at_same: "c \<noteq> b \<Longrightarrow> bufs st' c = bufs st c" "c \<noteq> b \<Longrightarrow> c \<in> set (pending st') \<longleftrightarrow> c \<in> set (pending st)"
    "c \<noteq> b \<Longrightarrow> has st' c x = has st c x"
  and only_at_chains: "hchain st' = hchain st" "nochain st' = nochain st"
  and only_at_disk: "disk st' k \<noteq> disk st k \<Longrightarrow> k = bkey (bufs st b) \<and> fresh n st b"
  and only_at_stale: "has st c B_STALE \<Longrightarrow> has st' c B_STALE"
proof -
  have a: "bufs st' c = bufs st c" "c \<in> set (pending st') \<longleftrightarrow> c \<in> set (pending st)" if "c \<noteq> b" for c
    using only that unfolding only_at_def by blast+
  then show "c \<noteq> b \<Longrightarrow> bufs st' c = bufs st c" "c \<noteq> b \<Longrightarrow> c \<in> set (pending st') \<longleftrightarrow> c \<in> set (pending st)"
    "c \<noteq> b \<Longrightarrow> has st' c x = has st c x" for c x by (simp_all add: has_def del: flags_has)
  show "hchain st' = hchain st" "nochain st' = nochain st"
    "disk st' k \<noteq> disk st k \<Longrightarrow> k = bkey (bufs st b) \<and> fresh n st b" for k
    using only unfolding only_at_def by blast+
  show "has st c B_STALE \<Longrightarrow> has st' c B_STALE"
    using only a [of c] unfolding only_at_def has_def by (cases "c = b") auto
qed

lemma only_at_keys:
  assumes only: "only_at n b st st'"
  shows "b_dev (bufs st' c) = b_dev (bufs st c)" "b_blkno (bufs st' c) = b_blkno (bufs st c)"
  "bkey (bufs st' c) = bkey (bufs st c)"
proof -
  show "b_dev (bufs st' c) = b_dev (bufs st c)" "b_blkno (bufs st' c) = b_blkno (bufs st c)"
    using only only_at_same(1) [OF only, of c] unfolding only_at_def by (cases "c = b"; simp)+
  then show "bkey (bufs st' c) = bkey (bufs st c)" by (simp add: bkey_def)
qed

lemma only_at_fresh:
  assumes only: "only_at n b st st'"
  shows "fresh n st' c \<Longrightarrow> fresh n st c" "c \<noteq> b \<Longrightarrow> fresh n st' c = fresh n st c"
  using only_at_keys [OF only] only_at_stale [OF only] only_at_same(3) [OF only] by (auto simp: fresh_def)

lemma only_at_ok:
  assumes only: "only_at n b st st'"
    and ok: "cache_ok n hm st" and parts: "free_ok n st'" "pend_ok n st'"
    and here: "b < n \<Longrightarrow> buf_ok (bufs st' b) (b \<in> set (pending st')) (disk st' (bkey (bufs st b)))"
  shows "cache_ok n hm st'"
proof -
  have "chains_ok n hm st'" using ok by (simp add: cache_ok_def chains_ok_def only_at_keys [OF only] only_at_chains [OF only])
  moreover have uq: "b1 = c" if "fresh n st b1" "fresh n st c" "bkey (bufs st b1) = bkey (bufs st c)" for b1 c
    using ok that by (auto simp: cache_ok_def uniq_ok_def)
  then have "uniq_ok n st'" by (auto simp: uniq_ok_def only_at_keys [OF only] only_at_fresh [OF only])
  moreover have "buf_ok (bufs st' c) (c \<in> set (pending st')) (disk st' (bkey (bufs st' c)))" if c: "c < n" for c
  proof (cases "c = b")
    case True
    with here c show ?thesis by (simp add: only_at_keys [OF only])
  next
    case False
    then have same: "bufs st' c = bufs st c" "c \<in> set (pending st') \<longleftrightarrow> c \<in> set (pending st)" by (auto simp: only_at_same [OF only])
    show ?thesis
    proof (cases "disk st' (bkey (bufs st c)) = disk st (bkey (bufs st c))")
      case True
      with ok_buf [OF ok c] same show ?thesis by simp
    next
      case changed: False
      then have "bkey (bufs st c) = bkey (bufs st b)" "fresh n st b" using only_at_disk [OF only] by blast+
      with uq [of c b] \<open>c \<noteq> b\<close> have "\<not> fresh n st c" by blast
      with ok_buf [OF ok c] same c show ?thesis by (auto simp: buf_ok_def fresh_def)
    qed
  qed
  then have "bufs_ok n st'" by (simp add: bufs_ok_def)
  ultimately show ?thesis using parts by (simp add: cache_ok_def)
qed

lemma only_at_content:
  assumes only: "only_at n b st st'"
    and ok: "cache_ok n hm st" "cache_ok n hm st'"
  shows "content hm st' k =
     (if k = bkey (bufs st b) \<and> fresh n st b
      then if fresh n st' b \<and> valid st' b then b_data (bufs st' b) else disk st' k
      else content hm st k)"
proof -
  have uq: "b1 = c" if "fresh n st b1" "fresh n st c" "bkey (bufs st b1) = bkey (bufs st c)" for b1 c
    using ok(1) that by (auto simp: cache_ok_def uniq_ok_def)
  have other: "live n st' c = live n st c" "bufs st' c = bufs st c" if "c \<noteq> b" for c
    using that only_at_fresh(2) [OF only] only_at_same [OF only] by (auto simp: live_def valid_def)
  show ?thesis
  proof (cases "k = bkey (bufs st b) \<and> fresh n st b")
    case True
    show ?thesis
    proof (cases "live n st' b")
      case l: True
      with True content_live [OF ok(2) l] show ?thesis by (simp add: only_at_keys [OF only] live_def)
    next
      case False
      have "bkey (bufs st' c) \<noteq> k" if "live n st' c" for c
        using that False True uq [of c b] only_at_fresh(1) [OF only, of c] by (auto simp: live_def only_at_keys [OF only])
      with content_dead [OF ok(2)] True False show ?thesis by (auto simp: live_def)
    qed
  next
    case False
    then have d: "disk st' k = disk st k" using only_at_disk [OF only] by blast
    show ?thesis
    proof (cases "\<exists>c. live n st c \<and> bkey (bufs st c) = k")
      case True
      then obtain c where c: "live n st c" "bkey (bufs st c) = k" by blast
      with False have "c \<noteq> b" by (auto simp: live_def)
      with c False show ?thesis using content_live [OF ok(1) c] content_live [OF ok(2), of c k] by (auto simp: other)
    next
      case none: False
      have "bkey (bufs st' c) \<noteq> k" if "live n st' c" for c
        using that none False other [of c] only_at_fresh(1) [OF only, of c] by (cases "c = b") (auto simp: live_def only_at_keys [OF only])
      with none False show ?thesis
        using content_dead [OF ok(1), of k] content_dead [OF ok(2), of k] d by auto
    qed
  qed
qed
text \<open>Nothing changes if what the buffer shows of its block does not.\<close>

lemma only_at_content_same:
  assumes only: "only_at n b st st'" and ok: "cache_ok n hm st" "cache_ok n hm st'"
    and here: "fresh n st b \<Longrightarrow> (if fresh n st' b \<and> valid st' b then b_data (bufs st' b) else disk st' (bkey (bufs st b)))
        = (if valid st b then b_data (bufs st b) else disk st (bkey (bufs st b)))"
  shows "content hm st' = content hm st"
proof
  fix k
  have refl: "only_at n b st st" by (simp add: only_at_def)
  show "content hm st' k = content hm st k"
  proof (cases "k = bkey (bufs st b) \<and> fresh n st b")
    case True
    then have k: "k = bkey (bufs st b)" and fr: "fresh n st b" by auto
    have "content hm st' k = (if fresh n st' b \<and> valid st' b then b_data (bufs st' b) else disk st' (bkey (bufs st b)))"
      using only_at_content [OF only ok, of k] True by simp
    also note here [OF fr]
    also have "(if valid st b then b_data (bufs st b) else disk st (bkey (bufs st b))) = content hm st k"
      using only_at_content [OF refl ok(1) ok(1), of k] True by simp
    finally show ?thesis .
  next
    case False
    with only_at_content [OF only ok, of k] show ?thesis by auto
  qed
qed

lemma notavail_ok:
  assumes ok: "cache_ok n hm st" and b: "b \<in> set (avl st)" "\<not> has st b B_STALE"
  shows "cache_ok n hm (notavail b st)" and "content hm (notavail b st) = content hm st"
proof -
  let ?s = "notavail b st"
  have bo: "buf_ok (bufs st b) (b \<in> set (pending st)) (disk st (bkey (bufs st b)))" "b < n" "\<not> has st b B_BUSY"
    using ok_buf [OF ok, of b] b by (auto simp: ok_free [OF ok])
  have only: "only_at n b st ?s" by (simp add: only_at_def notavail_def)
  have "free_ok n ?s" using ok b by - (rule free_remove [of n st b], simp_all add: cache_ok_def)
  moreover have "pend_ok n ?s" using ok by (simp add: cache_ok_def pend_ok_def)
  ultimately show ok': "cache_ok n hm ?s"
    using bo b by - (rule only_at_ok [OF only ok], auto simp: buf_ok_def)
  show "content hm ?s = content hm st"
    by (rule only_at_content_same [OF only ok ok']) (simp add: fresh_def valid_def)
qed

lemma brelse_simps [simp]:
  "has (brelse b st) c x \<longleftrightarrow>
     (if c = b then x \<notin> {B_WANTED, B_BUSY, B_ASYNC, B_AGE} \<and>
        (if has st b B_ERROR then (has st b x \<or> x = B_STALE) \<and> x \<notin> {B_ERROR, B_DELWRI} else has st b x)
      else has st c x)"
  "avl (brelse b st) = (if has st b B_AGE \<or> has st b B_ERROR then b # avl st else avl st @ [b])"
  "av_count (brelse b st) = av_count st + 1"
  "pending (brelse b st) = pending st" "disk (brelse b st) = disk st" "hchain (brelse b st) = hchain st"
  "nochain (brelse b st) = nochain st" "basyncnt (brelse b st) = basyncnt st" "lbolt (brelse b st) = lbolt st"
  "b_dev (bufs (brelse b st) c) = b_dev (bufs st c)" "b_blkno (bufs (brelse b st) c) = b_blkno (bufs st c)"
  "b_data (bufs (brelse b st) c) = b_data (bufs st c)" "bkey (bufs (brelse b st) c) = bkey (bufs st c)"
  "c \<noteq> b \<Longrightarrow> bufs (brelse b st) c = bufs st c"
  by (auto simp: brelse_def Let_def bkey_def)

lemma free_add:
  assumes "free_ok n st" "b < n" "has st b B_BUSY" "avl st' = b # avl st \<or> avl st' = avl st @ [b]"
    "av_count st' = av_count st + 1"
    and "\<And>c. has st' c B_BUSY \<longleftrightarrow> has st c B_BUSY \<and> c \<noteq> b"
  shows "free_ok n st'"
proof -
  have f: "distinct (avl st)" "set (avl st) = {c. c < n \<and> \<not> has st c B_BUSY}" "av_count st = int (length (avl st))"
    using assms(1) unfolding free_ok_def by blast+
  have nb: "b \<notin> set (avl st)" unfolding f(2) using assms(3) by simp
  have eq: "{c. c < n \<and> \<not> has st' c B_BUSY} = insert b {c. c < n \<and> \<not> has st c B_BUSY}"
    using assms(2,3) by (auto simp: assms(6))
  have "set (avl st') = insert b (set (avl st))" using assms(4) by auto
  then have "set (avl st') = {c. c < n \<and> \<not> has st' c B_BUSY}" unfolding f(2) eq .
  moreover have "distinct (avl st')" "av_count st' = int (length (avl st'))" using assms(4,5) f(1,3) nb by auto
  ultimately show ?thesis unfolding free_ok_def by blast
qed

lemma pend_same:
  assumes "pend_ok n st" "pending st' = pending st" "basyncnt st' = basyncnt st"
    and "\<And>c x. c \<in> set (pending st) \<Longrightarrow> has st' c x = has st c x"
  shows "pend_ok n st'"
  using assms by (simp add: pend_ok_def cong: filter_cong)

text \<open>A buffer that holds changes is not to be released without a write.\<close>

definition clean :: "'d bcache \<Rightarrow> nat \<Rightarrow> bool" where
  "clean st b \<longleftrightarrow> (has st b B_DONE \<and> \<not> has st b B_ERROR \<and> \<not> has st b B_DELWRI \<and> b_dev (bufs st b) \<noteq> NODEV
     \<longrightarrow> b_data (bufs st b) = disk st (bkey (bufs st b)))"

lemma held_buf:
  assumes "cache_ok n hm st" "held n st b"
  shows "b < n" "has st b B_BUSY" "b \<notin> set (pending st)" "\<not> has st b B_STALE" "\<not> has st b B_ASYNC"
    "has st b B_ERROR \<Longrightarrow> has st b B_DONE" "has st b B_DELWRI \<Longrightarrow> has st b B_DONE" "has st b B_DELWRI \<Longrightarrow> b_dev (bufs st b) \<noteq> NODEV"
  using assms ok_buf [OF assms(1), of b] by (auto simp: held_def buf_ok_def)

lemma brelse_ok:
  assumes ok: "cache_ok n hm st" and b: "held n st b" "clean st b"
  shows "cache_ok n hm (brelse b st)" and "content hm (brelse b st) = content hm st"
proof -
  let ?s = "brelse b st"
  note h = held_buf [OF ok b(1)]
  have only: "only_at n b st ?s" using h by (simp add: only_at_def)
  have "free_ok n ?s" using ok h by - (rule free_add [of n st b], auto simp: cache_ok_def)
  moreover have "pend_ok n ?s" using ok h by - (rule pend_same [of n st], auto simp: cache_ok_def)
  ultimately show ok': "cache_ok n hm ?s"
    using h b(2) by - (rule only_at_ok [OF only ok], simp_all add: buf_ok_def clean_def)
  show "content hm ?s = content hm st"
    by (rule only_at_content_same [OF only ok ok']) (use h in \<open>simp add: fresh_def valid_def\<close>)
qed

lemma free_same:
  assumes "free_ok n st" "avl st' = avl st" "av_count st' = av_count st" "\<And>c. has st' c B_BUSY = has st c B_BUSY"
  shows "free_ok n st'"
  using assms by (simp add: free_ok_def)

text \<open>Handing a held buffer to the driver.\<close>

definition starts_io :: "nat \<Rightarrow> nat \<Rightarrow> 'd bcache \<Rightarrow> 'd bcache \<Rightarrow> bool" where
  "starts_io n b st st' \<longleftrightarrow> only_at n b st st' \<and>
     avl st' = avl st \<and> av_count st' = av_count st \<and> disk st' = disk st \<and> pending st' = pending st @ [b] \<and>
     has st' b B_BUSY \<and> \<not> has st' b B_DONE \<and> \<not> has st' b B_STALE \<and> \<not> has st' b B_ERROR \<and> \<not> has st' b B_DELWRI \<and>
     basyncnt st' = basyncnt st + (if has st' b B_ASYNC \<and> \<not> has st' b B_READ then 1 else 0)"

lemma io_parts:
  assumes ok: "cache_ok n hm st" and b: "held n st b" "b_dev (bufs st b) \<noteq> NODEV" and io: "starts_io n b st st'"
  shows io_only: "only_at n b st st'" and io_same: "avl st' = avl st" "av_count st' = av_count st" "disk st' = disk st"
  and io_queued: "pending st' = pending st @ [b]"
  and io_flags: "has st' b B_BUSY" "\<not> has st' b B_DONE" "\<not> has st' b B_STALE" "\<not> has st' b B_ERROR" "\<not> has st' b B_DELWRI"
  and io_cnt: "basyncnt st' = basyncnt st + (if has st' b B_ASYNC \<and> \<not> has st' b B_READ then 1 else 0)"
  using io unfolding starts_io_def by blast+

lemmas io_facts = io_same io_queued io_flags io_cnt

lemma io_fresh:
  assumes ok: "cache_ok n hm st" and b: "held n st b" "b_dev (bufs st b) \<noteq> NODEV" and io: "starts_io n b st st'"
  shows "fresh n st b" "fresh n st' b"
  using held_buf [OF ok b(1)] b(2) io_flags [OF ok b io] only_at_keys(1) [OF io_only [OF ok b io], of b] by (auto simp: fresh_def)

lemma start_io_ok:
  assumes ok: "cache_ok n hm st" and b: "held n st b" "b_dev (bufs st b) \<noteq> NODEV" and io: "starts_io n b st st'"
  shows "cache_ok n hm st'"
proof -
  note h = held_buf [OF ok b(1)] and others = only_at_same(3) [OF io_only [OF ok b io]]
  have "has st' c B_BUSY = has st c B_BUSY" for c using h(2) io_flags(1) [OF ok b io] others [of c] by (cases "c = b") auto
  then have "free_ok n st'"
    using ok by - (rule free_same [of n st], simp_all add: cache_ok_def io_same [OF ok b io])
  moreover have "filter (\<lambda>c. has st' c B_ASYNC \<and> \<not> has st' c B_READ) (pending st) = filter (\<lambda>c. has st c B_ASYNC \<and> \<not> has st c B_READ) (pending st)"
    using h(3) by (intro filter_cong refl) (metis others)
  then have "pend_ok n st'" using ok h by (auto simp: cache_ok_def pend_ok_def io_cnt [OF ok b io] io_queued [OF ok b io])
  ultimately show ?thesis
    using b(2) only_at_keys(1) [OF io_only [OF ok b io], of b] io_facts [OF ok b io] by - (rule only_at_ok [OF io_only [OF ok b io] ok], simp_all add: buf_ok_def)
qed

lemma start_io_held:
  assumes ok: "cache_ok n hm st" and b: "held n st b" "b_dev (bufs st b) \<noteq> NODEV" and io: "starts_io n b st st'"
  shows "held n st' c \<longleftrightarrow> held n st c \<and> c \<noteq> b"
  using io_queued [OF ok b io] only_at_same [OF io_only [OF ok b io], of c] by (auto simp: held_def)

lemma start_io_write:
  assumes ok: "cache_ok n hm st" and b: "held n st b" "b_dev (bufs st b) \<noteq> NODEV" and io: "starts_io n b st st'"
    and "\<not> has st' b B_READ" "b_data (bufs st' b) = b_data (bufs st b)"
  shows "content hm st' = (content hm st)(bkey (bufs st b) := b_data (bufs st b))"
  using assms io_fresh [OF ok b io] by (intro ext) (simp add: only_at_content [OF io_only [OF ok b io] ok start_io_ok [OF ok b io]] valid_def io_queued [OF ok b io])

lemma start_io_read:
  assumes ok: "cache_ok n hm st" and b: "held n st b" "b_dev (bufs st b) \<noteq> NODEV" and io: "starts_io n b st st'"
    and "has st' b B_READ" "\<not> has st b B_DONE"
  shows "content hm st' = content hm st"
  using assms io_fresh [OF ok b io] held_buf(3) [OF ok b(1)]
  by - (rule only_at_content_same [OF io_only [OF ok b io] ok start_io_ok [OF ok b io]], simp add: valid_def io_facts [OF ok b io])
lemma bwrite_start_simps [simp]:
  "has (bwrite_start b st) c x \<longleftrightarrow> has st c x \<and> (c = b \<longrightarrow> x \<notin> {B_READ, B_DONE, B_ERROR, B_DELWRI})"
  "avl (bwrite_start b st) = avl st" "av_count (bwrite_start b st) = av_count st" "disk (bwrite_start b st) = disk st"
  "pending (bwrite_start b st) = pending st @ [b]" "hchain (bwrite_start b st) = hchain st"
  "nochain (bwrite_start b st) = nochain st" "basyncnt (bwrite_start b st) = basyncnt st" "lbolt (bwrite_start b st) = lbolt st"
  "b_dev (bufs (bwrite_start b st) c) = b_dev (bufs st c)" "b_blkno (bufs (bwrite_start b st) c) = b_blkno (bufs st c)"
  "b_data (bufs (bwrite_start b st) c) = b_data (bufs st c)" "c \<noteq> b \<Longrightarrow> bufs (bwrite_start b st) c = bufs st c"
  by (auto simp: bwrite_start_def strategy_def Let_def)

text \<open>The buffer on its way to the disk: asynchronously, or with the process asleep in \<^verbatim>\<open>iowait\<close>.\<close>

lemma bwrite_sync_eq: "\<not> has st b B_ASYNC \<Longrightarrow> bwrite b st = (bwrite_start b st, Some (ChBuf b))"
  by (simp add: bwrite_def bwrite_end_def iowait_def Let_def)

lemma bwrite_async_eq:
  "has st b B_ASYNC \<Longrightarrow> bwrite b st = ((bwrite_start b st)\<lparr>basyncnt := basyncnt st + 1\<rparr>, None)"
  by (simp add: bwrite_def geterror_def Let_def)

lemma setb_other [simp]: "c \<noteq> b \<Longrightarrow> bufs (setb b f st) c = bufs st c"
  by simp

definition async_write :: "nat \<Rightarrow> 'd bcache \<Rightarrow> 'd bcache" where
  "async_write b st = fst (bwrite b (setb b (on_flags (insert B_ASYNC)) st))"

lemma async_write_simps [simp]:
  "has (async_write b st) c x \<longleftrightarrow> (if c = b \<and> x = B_ASYNC then True else has st c x \<and> (c = b \<longrightarrow> x \<notin> {B_READ, B_DONE, B_ERROR, B_DELWRI}))"
  "avl (async_write b st) = avl st" "av_count (async_write b st) = av_count st" "disk (async_write b st) = disk st"
  "pending (async_write b st) = pending st @ [b]" "hchain (async_write b st) = hchain st"
  "nochain (async_write b st) = nochain st" "basyncnt (async_write b st) = basyncnt st + 1" "lbolt (async_write b st) = lbolt st"
  "b_dev (bufs (async_write b st) c) = b_dev (bufs st c)" "b_blkno (bufs (async_write b st) c) = b_blkno (bufs st c)"
  "b_data (bufs (async_write b st) c) = b_data (bufs st c)" "c \<noteq> b \<Longrightarrow> bufs (async_write b st) c = bufs st c"
  by (auto simp: async_write_def bwrite_async_eq)

lemma starts_write:
  assumes "cache_ok n hm st" "held n st b"
  shows "starts_io n b st (bwrite_start b st)" "starts_io n b st (async_write b st)"
  using held_buf [OF assms] by (auto simp: starts_io_def only_at_def)

lemma write_out_eq: "write_out b st = async_write b (notavail b st)"
  by (simp add: write_out_def async_write_def)

lemma start_read_simps [simp]:
  "has (start_read fl dev b st) c x \<longleftrightarrow> has st c x \<or> c = b \<and> x \<in> fl"
  "avl (start_read fl dev b st) = avl st" "av_count (start_read fl dev b st) = av_count st" "disk (start_read fl dev b st) = disk st"
  "pending (start_read fl dev b st) = pending st @ [b]" "hchain (start_read fl dev b st) = hchain st"
  "nochain (start_read fl dev b st) = nochain st" "basyncnt (start_read fl dev b st) = basyncnt st" "lbolt (start_read fl dev b st) = lbolt st"
  "b_dev (bufs (start_read fl dev b st) c) = b_dev (bufs st c)" "b_blkno (bufs (start_read fl dev b st) c) = b_blkno (bufs st c)"
  "b_data (bufs (start_read fl dev b st) c) = b_data (bufs st c)" "c \<noteq> b \<Longrightarrow> bufs (start_read fl dev b st) c = bufs st c"
  by (auto simp: start_read_def strategy_def Let_def)

lemma starts_read:
  assumes "cache_ok n hm st" "held n st b" "\<not> has st b B_DONE" "fl = {B_READ} \<or> fl = {B_READ, B_ASYNC}"
  shows "starts_io n b st (start_read fl dev b st)"
  using held_buf [OF assms(1,2)] assms(3,4) by (auto simp: starts_io_def only_at_def)

lemma free_not_pending:
  assumes "cache_ok n hm st" "b \<in> set (avl st)"
  shows "b < n" "\<not> has st b B_BUSY" "b \<notin> set (pending st)" "\<not> has st b B_ERROR" "\<not> has st b B_ASYNC"
    "has st b B_DELWRI \<Longrightarrow> has st b B_DONE" "has st b B_DELWRI \<Longrightarrow> fresh n st b"
  using assms ok_buf [OF assms(1), of b] by (auto simp: ok_free [OF assms(1)] buf_ok_def fresh_def)

lemma write_out_ok:
  assumes ok: "cache_ok n hm st" and b: "b \<in> set (avl st)" "has st b B_DELWRI"
  shows "cache_ok n hm (write_out b st)" and "content hm (write_out b st) = content hm st"
    and "held n (write_out b st) c = held n st c"
proof -
  note f = free_not_pending [OF ok b(1)] and f1 = free_not_pending(7) [OF ok b]
  have ns: "\<not> has st b B_STALE" "b_dev (bufs st b) \<noteq> NODEV" using f1 by (auto simp: fresh_def)
  let ?s = "notavail b st"
  note s = notavail_ok [OF ok b(1) ns(1)]
  have h: "held n ?s b" "b_dev (bufs ?s b) \<noteq> NODEV" using f ns by (auto simp: held_def)
  note io = s(1) h starts_write(2) [OF s(1) h(1)]
  show "cache_ok n hm (write_out b st)" unfolding write_out_eq by (rule start_io_ok [OF io])
  have "content hm (write_out b st) = (content hm ?s)(bkey (bufs ?s b) := b_data (bufs ?s b))"
    unfolding write_out_eq by (rule start_io_write [OF io]) (simp_all)
  also have "\<dots> = content hm st"
    unfolding s(2) using f f1 b(2) by (intro ext) (simp add: content_live [OF ok, of b] live_def valid_def)
  finally show "content hm (write_out b st) = content hm st" .
  show "held n (write_out b st) c = held n st c"
    unfolding write_out_eq using start_io_held [OF io, of c] f by (auto simp: held_def)
qed

text \<open>A free buffer gets a new identity.\<close>

lemma retag_ok:
  assumes ok: "cache_ok n hm st" and b: "b \<in> set (avl st)" "\<not> has st b B_DELWRI"
    and others: "\<And>c. c \<noteq> b \<Longrightarrow> bufs st' c = bufs st c"
    and same: "pending st' = pending st" "disk st' = disk st" "basyncnt st' = basyncnt st"
      "avl st' = remove1 b (avl st)" "av_count st' = av_count st - 1"
    and flags: "has st' b B_BUSY" "\<And>x. x \<in> {B_DONE, B_STALE, B_ASYNC, B_ERROR, B_DELWRI} \<Longrightarrow> \<not> has st' b x"
    and chains: "chains_ok n hm st'"
    and new: "b_dev (bufs st' b) \<noteq> NODEV \<Longrightarrow> (\<forall>c. fresh n st c \<longrightarrow> bkey (bufs st c) \<noteq> bkey (bufs st' b))"
  shows "cache_ok n hm st'" and "content hm st' = content hm st"
proof -
  note f = free_not_pending [OF ok b(1)]
  have has_others: "has st' c x = has st c x" if "c \<noteq> b" for c x by (simp add: has_def others that del: flags_has)
  have fr: "fresh n st' c = fresh n st c" if "c \<noteq> b" for c using that by (simp add: fresh_def others has_others)
  have uq: "c = e" if "fresh n st c" "fresh n st e" "bkey (bufs st c) = bkey (bufs st e)" for c e
    using ok that by (auto simp: cache_ok_def uniq_ok_def)
  have "has st' c B_BUSY \<longleftrightarrow> has st c B_BUSY \<or> c = b" for c using flags(1) has_others by (cases "c = b") auto
  then have "free_ok n st'"
    using ok b same by - (rule free_remove [of n st b], auto simp: cache_ok_def)
  moreover have nb: "bkey (bufs st' e) \<noteq> bkey (bufs st' b)" if "fresh n st' b" "fresh n st' e" "e \<noteq> b" for e
  proof -
    have "b_dev (bufs st' b) \<noteq> NODEV" using that(1) by (simp add: fresh_def)
    with new that fr [of e] others [of e] show ?thesis by simp
  qed
  have "c = e" if ce: "fresh n st' c" "fresh n st' e" "bkey (bufs st' c) = bkey (bufs st' e)" for c e
  proof (cases "c = b \<or> e = b")
    case True
    with nb [of c] nb [of e] ce show ?thesis by metis
  next
    case False
    with ce fr others uq [of c e] show ?thesis by simp
  qed
  then have "uniq_ok n st'" by (simp add: uniq_ok_def)
  moreover have "has st' c x = has st c x" if "c \<in> set (pending st)" for c x
    using that f(3) has_others [of c x] by (cases "c = b") auto
  then have "pend_ok n st'"
    using ok same by - (rule pend_same [of n st], simp_all add: cache_ok_def)
  moreover have "buf_ok (bufs st' c) (c \<in> set (pending st')) (disk st' (bkey (bufs st' c)))" if "c < n" for c
    using ok_buf [OF ok that] same others f flags by (cases "c = b") (simp_all add: buf_ok_def)
  then have "bufs_ok n st'" by (simp add: bufs_ok_def)
  ultimately show ok': "cache_ok n hm st'" using chains by (simp add: cache_ok_def)
  have dead: "\<not> live n st' b" using flags f same by (simp add: live_def valid_def)
  have lv: "live n st' c = live n st c" if "c \<noteq> b" for c using that by (simp add: live_def valid_def fr has_others same)
  show "content hm st' = content hm st"
  proof
    fix k
    show "content hm st' k = content hm st k"
    proof (cases "\<exists>c. live n st c \<and> bkey (bufs st c) = k")
      case True
      then obtain c where c: "live n st c" "bkey (bufs st c) = k" by blast
      show ?thesis
      proof (cases "c = b")
        case True
        with c ok_buf [OF ok f(1)] f b have "content hm st k = disk st k"
          by (simp add: content_live [OF ok c] buf_ok_def live_def fresh_def valid_def)
        moreover have "bkey (bufs st' e) \<noteq> k" if "live n st' e" for e
          using that dead lv [of e] uq [of e b] c True others by (cases "e = b") (auto simp: live_def)
        ultimately show ?thesis using content_dead [OF ok', of k] same by auto
      next
        case False
        with c show ?thesis using content_live [OF ok c] content_live [OF ok', of c k] lv others by simp
      qed
    next
      case False
      have "bkey (bufs st' e) \<noteq> k" if "live n st' e" for e
        using that dead lv [of e] False others by (cases "e = b") auto
      with False show ?thesis using content_dead [OF ok', of k] content_dead [OF ok, of k] same by auto
    qed
  qed
qed

lemma bhash_range: "bhash hm d b \<le> hm"
proof -
  have "and (d + b) (int hm) \<le> int hm" by (simp add: AND_upper2)
  then show ?thesis unfolding bhash_def by linarith
qed

lemma chains_take:
  assumes "chains_ok n hm st" "b < n" "\<And>c. c \<noteq> b \<Longrightarrow> bufs st' c = bufs st c"
    and "b_dev (bufs st' b) \<noteq> NODEV" "i0 = bhash hm (b_dev (bufs st' b)) (b_blkno (bufs st' b))"
    and "\<And>i. hchain st' i = (if i = i0 then b # remove1 b (hchain st i) else remove1 b (hchain st i))"
      "nochain st' = remove1 b (nochain st)"
  shows "chains_ok n hm st'"
proof -
  have no: "distinct (nochain st)" "\<And>c. c \<in> set (nochain st) \<longleftrightarrow> c < n \<and> b_dev (bufs st c) = NODEV"
    and ch: "\<And>i. distinct (hchain st i)"
      "\<And>i c. c \<in> set (hchain st i) \<longleftrightarrow> c < n \<and> b_dev (bufs st c) \<noteq> NODEV \<and> bhash hm (b_dev (bufs st c)) (b_blkno (bufs st c)) = i"
    using assms(1) unfolding chains_ok_def by auto
  have "c \<in> set (nochain st') \<longleftrightarrow> c < n \<and> b_dev (bufs st' c) = NODEV" for c
    using no assms(3) [of c] assms(4) by (cases "c = b") (auto simp: assms(7))
  moreover have "c \<in> set (hchain st' i) \<longleftrightarrow> c < n \<and> b_dev (bufs st' c) \<noteq> NODEV \<and> bhash hm (b_dev (bufs st' c)) (b_blkno (bufs st' c)) = i" for c i
    using ch assms(2,4,5) assms(3) [of c] by (cases "c = b") (auto simp: assms(6))
  moreover have "distinct (nochain st')" "distinct (hchain st' i)" for i using no(1) ch(1) by (auto simp: assms(6,7))
  ultimately show ?thesis unfolding chains_ok_def by blast
qed

lemma chains_empty:
  assumes "chains_ok n hm st" "b < n" "\<And>c. c \<noteq> b \<Longrightarrow> bufs st' c = bufs st c"
    and "b_dev (bufs st' b) = NODEV" "hchain st' = (\<lambda>i. remove1 b (hchain st i))" "nochain st' = b # remove1 b (nochain st)"
  shows "chains_ok n hm st'"
proof -
  have no: "distinct (nochain st)" "\<And>c. c \<in> set (nochain st) \<longleftrightarrow> c < n \<and> b_dev (bufs st c) = NODEV"
    and ch: "\<And>i. distinct (hchain st i)"
      "\<And>i c. c \<in> set (hchain st i) \<longleftrightarrow> c < n \<and> b_dev (bufs st c) \<noteq> NODEV \<and> bhash hm (b_dev (bufs st c)) (b_blkno (bufs st c)) = i"
    using assms(1) unfolding chains_ok_def by auto
  have "c \<in> set (nochain st') \<longleftrightarrow> c < n \<and> b_dev (bufs st' c) = NODEV" for c
    using no assms(2,4) assms(3) [of c] by (cases "c = b") (auto simp: assms(6))
  moreover have "c \<in> set (hchain st' i) \<longleftrightarrow> c < n \<and> b_dev (bufs st' c) \<noteq> NODEV \<and> bhash hm (b_dev (bufs st' c)) (b_blkno (bufs st' c)) = i" for c i
    using ch assms(4) assms(3) [of c] by (cases "c = b") (auto simp: assms(5))
  moreover have "distinct (nochain st')" "distinct (hchain st' i)" for i using no(1) ch(1) by (auto simp: assms(5,6))
  ultimately show ?thesis unfolding chains_ok_def by blast
qed

text \<open>The two ways a free buffer is taken for something new.\<close>

lemma take_block_ok:
  assumes ok: "cache_ok n hm st" and b: "b \<in> set (avl st)" "\<not> has st b B_DELWRI"
    and new: "dev \<noteq> NODEV" "lookup hm dev blk st = None"
  defines "st' \<equiv> take_block hm dev blk b (notavail b st)"
  shows "cache_ok n hm st'" and "content hm st' = content hm st"
    and "bkey (bufs st' b) = (dev, blk)" "has st' c x = (if c = b then x = B_BUSY else has st c x)"
    and "pending st' = pending st" "avl st' = remove1 b (avl st)"
proof -
  have oth: "c \<noteq> b \<Longrightarrow> bufs st' c = bufs st c" for c by (simp add: st'_def take_block_def notavail_def unhash_def Let_def)
  have f: "has st' c x = (if c = b then x = B_BUSY else has st c x)" "b_dev (bufs st' b) = dev" "b_blkno (bufs st' b) = blk"
    "pending st' = pending st" "disk st' = disk st" "basyncnt st' = basyncnt st" "avl st' = remove1 b (avl st)" "av_count st' = av_count st - 1" for c x
    by (simp_all add: st'_def take_block_def unhash_def Let_def)
  have chains: "chains_ok n hm st'"
    using ok new(1) free_not_pending(1) [OF ok b(1)] oth f(2,3)
    by - (rule chains_take [of n hm st b st' "bhash hm dev blk"], simp_all add: cache_ok_def st'_def take_block_def unhash_def Let_def)
  have "has st' b B_BUSY" "\<And>x. x \<in> {B_DONE, B_STALE, B_ASYNC, B_ERROR, B_DELWRI} \<Longrightarrow> \<not> has st' b x"
    and "b_dev (bufs st' b) \<noteq> NODEV \<Longrightarrow> (\<forall>c. fresh n st c \<longrightarrow> bkey (bufs st c) \<noteq> bkey (bufs st' b))"
    using new(2) lookup_None [OF ok, of dev blk] by (auto simp: f bkey_def)
  note rt = retag_ok [OF ok b oth f(4-8) this(1,2) chains this(3)]
  show "cache_ok n hm st'" "content hm st' = content hm st" by (rule rt; assumption)+
  show "bkey (bufs st' b) = (dev, blk)" "has st' c x = (if c = b then x = B_BUSY else has st c x)"
    "pending st' = pending st" "avl st' = remove1 b (avl st)"
    using f by (simp_all add: bkey_def)
qed

lemma take_empty_ok:
  assumes ok: "cache_ok n hm st" and b: "b \<in> set (avl st)" "\<not> has st b B_DELWRI"
  defines "st' \<equiv> take_empty b (notavail b st)"
  shows "cache_ok n hm st'" and "content hm st' = content hm st"
    and "b_dev (bufs st' b) = NODEV" "has st' c x = (if c = b then x \<in> {B_BUSY, B_AGE} else has st c x)"
    and "pending st' = pending st" "avl st' = remove1 b (avl st)"
proof -
  have oth: "c \<noteq> b \<Longrightarrow> bufs st' c = bufs st c" for c by (simp add: st'_def take_empty_def notavail_def unhash_def Let_def)
  have f: "has st' c x = (if c = b then x \<in> {B_BUSY, B_AGE} else has st c x)" "b_dev (bufs st' b) = NODEV"
    "pending st' = pending st" "disk st' = disk st" "basyncnt st' = basyncnt st" "avl st' = remove1 b (avl st)" "av_count st' = av_count st - 1" for c x
    by (simp_all add: st'_def take_empty_def unhash_def Let_def)
  have chains: "chains_ok n hm st'"
    using ok free_not_pending(1) [OF ok b(1)] oth f(2)
    by - (rule chains_empty [of n hm st b st'], simp_all add: cache_ok_def st'_def take_empty_def unhash_def Let_def)
  have "has st' b B_BUSY" "\<And>x. x \<in> {B_DONE, B_STALE, B_ASYNC, B_ERROR, B_DELWRI} \<Longrightarrow> \<not> has st' b x"
    and "b_dev (bufs st' b) \<noteq> NODEV \<Longrightarrow> (\<forall>c. fresh n st c \<longrightarrow> bkey (bufs st c) \<noteq> bkey (bufs st' b))"
    by (auto simp: f)
  note rt = retag_ok [OF ok b oth f(3-7) this(1,2) chains this(3)]
  show "cache_ok n hm st'" "content hm st' = content hm st" by (rule rt; assumption)+
  show "b_dev (bufs st' b) = NODEV" "has st' c x = (if c = b then x \<in> {B_BUSY, B_AGE} else has st c x)"
    "pending st' = pending st" "avl st' = remove1 b (avl st)"
    using f by simp_all
qed

lemma want_ok:
  fixes b :: nat
  assumes ok: "cache_ok n hm st"
  defines "st' \<equiv> setb b (on_flags (insert B_WANTED)) st"
  shows "cache_ok n hm st'" and "content hm st' = content hm st" and "held n st' c = held n st c"
proof -
  have only: "only_at n b st st'" by (simp add: only_at_def st'_def)
  have h: "has st' c x \<longleftrightarrow> has st c x \<or> c = b \<and> x = B_WANTED" for c x by (auto simp add: st'_def)
  have "free_ok n st'" using ok by - (rule free_same [of n st], simp_all add: cache_ok_def h, simp_all add: st'_def)
  moreover have "pend_ok n st'" using ok by (simp add: cache_ok_def pend_ok_def h) (simp add: st'_def)
  ultimately show ok': "cache_ok n hm st'"
    using ok_buf [OF ok, of b] by - (rule only_at_ok [OF only ok], auto simp: buf_ok_def st'_def)
  show "content hm st' = content hm st"
    by (rule only_at_content_same [OF only ok ok']) (simp add: fresh_def valid_def st'_def)
  show "held n st' c = held n st c" by (simp add: held_def st'_def)
qed

text \<open>
  What holds after \<^verbatim>\<open>getblk\<close>: the invariant, the contents and the buffers of the others; and the
  buffer returned was free and is held now, or the process sleeps for a good reason.
\<close>

definition others_kept :: "nat \<Rightarrow> 'd bcache \<Rightarrow> 'd bcache \<Rightarrow> bool" where
  "others_kept n st st' \<longleftrightarrow> (\<forall>c. c < n \<and> has st c B_BUSY \<longrightarrow>
     (c \<in> set (pending st') \<longleftrightarrow> c \<in> set (pending st)) \<and> bkey (bufs st' c) = bkey (bufs st c) \<and>
     b_data (bufs st' c) = b_data (bufs st c) \<and> (\<forall>x. x \<noteq> B_WANTED \<longrightarrow> has st' c x = has st c x))"

definition got :: "nat \<Rightarrow> 'd bcache \<Rightarrow> 'd bcache \<Rightarrow> nat \<Rightarrow> bool" where
  "got n st st' b \<longleftrightarrow> \<not> held n st b \<and> held n st' b \<and> clean st' b \<and> \<not> has st' b B_ERROR \<and> (\<forall>c. c \<noteq> b \<longrightarrow> held n st' c = held n st c)"

definition get_post :: "nat \<Rightarrow> int \<times> int \<Rightarrow> 'd bcache \<Rightarrow> 'd bcache \<Rightarrow> bget \<Rightarrow> bool" where
  "get_post n k st st' r \<longleftrightarrow>
     (case r of
        Got b \<Rightarrow> got n st st' b \<and> bkey (bufs st' b) = k
      | Slept (ChBuf b) \<Rightarrow> fresh n st b \<and> bkey (bufs st b) = k \<and> has st b B_BUSY \<and> has st' b B_WANTED \<and> held n st' = held n st
      | Slept ChFree \<Rightarrow> avl st' = [] \<and> av_wanted st' \<and> held n st' = held n st
      | _ \<Rightarrow> False)"

lemma others_kept_trans: "others_kept n st1 st2 \<Longrightarrow> others_kept n st2 st3 \<Longrightarrow> others_kept n st1 st3"
  by (simp add: others_kept_def)

lemma not_held_avl: "cache_ok n hm st \<Longrightarrow> b \<in> set (avl st) \<Longrightarrow> \<not> held n st b"
  using free_not_pending(2) by (auto simp: held_def)

lemma write_out_kept:
  assumes ok: "cache_ok n hm st" and b: "b \<in> set (avl st)" "has st b B_DELWRI"
  shows "others_kept n st (write_out b st)"
  using free_not_pending(2) [OF ok b(1)]
  by (auto simp: others_kept_def write_out_eq bkey_def)

lemma write_out_fresh:
  assumes ok: "cache_ok n hm st" and b: "b \<in> set (avl st)"
  shows "fresh n (write_out b st) c = fresh n st c" "bkey (bufs (write_out b st) c) = bkey (bufs st c)"
  by (auto simp: write_out_eq fresh_def bkey_def)

lemma get_post_write_out:
  assumes ok: "cache_ok n hm st" and b: "b \<in> set (avl st)" "has st b B_DELWRI"
    and new: "lookup hm (fst k) (snd k) st = None" and post: "get_post n k (write_out b st) st' r"
  shows "get_post n k st st' r"
  using post write_out_ok(3) [OF ok b] write_out_fresh [OF ok b(1)] lookup_None [OF ok, of "fst k" "snd k"] new
  by (auto simp: get_post_def got_def fun_eq_iff split: bget.splits bchan.splits)

lemma getblk_loop_ok:
  assumes "cache_ok n hm st" "dev \<noteq> NODEV" "getblk_loop hm dev blk st = (st', r)"
  shows "cache_ok n hm st' \<and> content hm st' = content hm st \<and> others_kept n st st' \<and> get_post n (dev, blk) st st' r"
  using assms
proof (induction hm dev blk st rule: getblk_loop.induct)
  case (1 hm dev blk st)
  note ok = "1.prems"(1) and run = "1.prems"(3) [unfolded getblk_loop.simps [of hm dev blk st]]
  show ?case
  proof (cases "lookup hm dev blk st")
    case (Some b)
    then have fr: "fresh n st b" "bkey (bufs st b) = (dev, blk)" using lookup_Some [OF ok] by auto
    show ?thesis
    proof (cases "has st b B_BUSY")
      case True
      with run Some have "st' = setb b (on_flags (insert B_WANTED)) st" "r = Slept (ChBuf b)" by auto
      with want_ok [OF ok, of b] fr True show ?thesis by (auto simp: others_kept_def get_post_def fun_eq_iff)
    next
      case False
      with run Some have e: "st' = notavail b st" "r = Got b" by auto
      have b: "b \<in> set (avl st)" "\<not> has st b B_STALE" using fr False ok_free [OF ok] by (auto simp: fresh_def)
      note f = free_not_pending [OF ok b(1)]
      have "clean st b" using ok_buf [OF ok f(1)] f fr by (auto simp: clean_def buf_ok_def fresh_def)
      then show ?thesis
        using notavail_ok [OF ok b] f fr e by (auto simp: others_kept_def get_post_def got_def held_def clean_def)
    qed
  next
    case None
    show ?thesis
    proof (cases "avl st")
      case Nil
      with run None have "st' = st\<lparr>av_wanted := True\<rparr>" "r = Slept ChFree" by auto
      with ok ok_cong [of st' st] Nil show ?thesis by (auto simp: others_kept_def get_post_def)
    next
      case (Cons b bs)
      then have b: "b \<in> set (avl st)" by simp
      show ?thesis
      proof (cases "has st b B_DELWRI")
        case True
        note w = write_out_ok [OF ok b True] write_out_kept [OF ok b True]
        have "getblk_loop hm dev blk (write_out b st) = (st', r)" using run None Cons True by simp
        from "1.IH" [OF None Cons True w(1) "1.prems"(2) this] w None show ?thesis
          by (auto intro: others_kept_trans get_post_write_out [OF ok b True])
      next
        case False
        with run None Cons have e: "st' = take_block hm dev blk b (notavail b st)" "r = Got b" by auto
        note t = take_block_ok [OF ok b False "1.prems"(2) None]
        note f = free_not_pending [OF ok b]
        have "c \<noteq> b \<Longrightarrow> bufs st' c = bufs st c" for c by (simp add: e take_block_def notavail_def unhash_def Let_def)
        then have "others_kept n st st'" using f(2) t(4,5) e unfolding others_kept_def by metis
        with t e f show ?thesis by (auto simp: get_post_def got_def held_def clean_def)
      qed
    qed
  qed
qed

lemma geteblk_ok:
  assumes "cache_ok n hm st" "geteblk st = (st', r)"
  shows "cache_ok n hm st' \<and> content hm st' = content hm st \<and> others_kept n st st' \<and>
     (case r of Got b \<Rightarrow> got n st st' b \<and> b_dev (bufs st' b) = NODEV
      | Slept c \<Rightarrow> c = ChFree \<and> avl st' = [] \<and> av_wanted st' \<and> held n st' = held n st | _ \<Rightarrow> False)"
  using assms
proof (induction st rule: geteblk.induct)
  case (1 st)
  note ok = "1.prems"(1) and run = "1.prems"(2) [unfolded geteblk.simps [of st]]
  show ?case
  proof (cases "avl st")
    case Nil
    with run have "st' = st\<lparr>av_wanted := True\<rparr>" "r = Slept ChFree" by auto
    with ok ok_cong [of st' st] Nil show ?thesis by (auto simp: others_kept_def)
  next
    case (Cons b bs)
    then have b: "b \<in> set (avl st)" by simp
    show ?thesis
    proof (cases "has st b B_DELWRI")
      case True
      note w = write_out_ok [OF ok b True] write_out_kept [OF ok b True]
      have "geteblk (write_out b st) = (st', r)" using run Cons True by simp
      from "1.IH" [OF Cons True w(1) this] w show ?thesis
        by (auto intro: others_kept_trans simp: got_def fun_eq_iff split: bget.splits)
    next
      case False
      with run Cons have e: "st' = take_empty b (notavail b st)" "r = Got b" by auto
      note t = take_empty_ok [OF ok b False]
      note f = free_not_pending [OF ok b]
      have "c \<noteq> b \<Longrightarrow> bufs st' c = bufs st c" for c by (simp add: e take_empty_def notavail_def unhash_def Let_def)
      then have "others_kept n st st'" using f(2) t(4,5) e unfolding others_kept_def by metis
      with t e f show ?thesis by (auto simp: got_def held_def clean_def)
    qed
  qed
qed

lemma flush_while_ok:
  assumes "cache_ok n hm st"
  shows "cache_ok n hm (flush_while P st) \<and> content hm (flush_while P st) = content hm st \<and> others_kept n st (flush_while P st)
    \<and> held n (flush_while P st) = held n st"
  using assms
proof (induction P st rule: flush_while.induct)
  case (1 P st)
  show ?case
  proof (cases "find (\<lambda>b. has st b B_DELWRI \<and> P (bufs st b)) (avl st)")
    case None
    then show ?thesis using "1.prems" by (simp add: flush_while.simps [of P st] others_kept_def)
  next
    case (Some b)
    then have b: "b \<in> set (avl st)" "has st b B_DELWRI" using find_SomeD [OF Some] by auto
    note w = write_out_ok [OF "1.prems" b] write_out_kept [OF "1.prems" b]
    from "1.IH" [OF Some w(1)] w show ?thesis
      by (auto simp: flush_while.simps [of P st] Some fun_eq_iff intro: others_kept_trans)
  qed
qed

text \<open>After the loop no buffer it is for is left on the free list.\<close>

lemma flush_while_done:
  "b \<in> set (avl (flush_while P st)) \<Longrightarrow> has (flush_while P st) b B_DELWRI \<Longrightarrow> \<not> P (bufs (flush_while P st) b)"
proof (induction P st rule: flush_while.induct)
  case (1 P st)
  show ?case
  proof (cases "find (\<lambda>b. has st b B_DELWRI \<and> P (bufs st b)) (avl st)")
    case None
    then have "flush_while P st = st" by (simp add: flush_while.simps [of P st])
    with None "1.prems" show ?thesis by (auto simp: find_None_iff)
  next
    case (Some b)
    with "1.IH" [OF Some] "1.prems" show ?thesis by (simp add: flush_while.simps [of P st])
  qed
qed

section \<open>Completion and the other calls\<close>

lemma iodone_simps:
  assumes "has st b B_BUSY"
  shows "c \<noteq> b \<Longrightarrow> bufs (iodone b st) c = bufs st c"
    "b_dev (bufs (iodone b st) c) = b_dev (bufs st c)" "b_blkno (bufs (iodone b st) c) = b_blkno (bufs st c)"
    "b_data (bufs (iodone b st) c) = b_data (bufs st c)"
    "pending (iodone b st) = pending st" "disk (iodone b st) = disk st" "hchain (iodone b st) = hchain st" "nochain (iodone b st) = nochain st"
    "basyncnt (iodone b st) = basyncnt st - (if has st b B_ASYNC \<and> \<not> has st b B_READ then 1 else 0)"
    "avl (iodone b st) = (if has st b B_ASYNC then if has st b B_AGE \<or> has st b B_ERROR then b # avl st else avl st @ [b] else avl st)"
    "av_count (iodone b st) = av_count st + (if has st b B_ASYNC then 1 else 0)"
    "has (iodone b st) b x = (if has st b B_ASYNC
       then x \<notin> {B_WANTED, B_BUSY, B_ASYNC, B_AGE} \<and>
         (if has st b B_ERROR then (has st b x \<or> x \<in> {B_DONE, B_STALE}) \<and> x \<notin> {B_ERROR, B_DELWRI} else has st b x \<or> x = B_DONE)
       else x \<noteq> B_WANTED \<and> (has st b x \<or> x = B_DONE))"
  using assms by (auto simp: iodone_def Let_def)

text \<open>The transfer of a request, before \<^verbatim>\<open>iodone\<close>.\<close>

definition moved :: "nat \<Rightarrow> int option \<Rightarrow> 'd bcache \<Rightarrow> 'd bcache" where
  "moved b err st =
     (let p = bufs st b; st1 = st\<lparr>pending := remove1 b (pending st)\<rparr> in
      case err of
        Some e \<Rightarrow> setb b (\<lambda>p. p\<lparr>b_flags := insert B_ERROR (b_flags p), b_error := e\<rparr>) st1
      | None \<Rightarrow>
          if has st b B_READ then setb b (\<lambda>p. p\<lparr>b_data := disk st (b_dev p, b_blkno p)\<rparr>) st1
          else st1\<lparr>disk := (disk st)((b_dev p, b_blkno p) := b_data p)\<rparr>)"

lemma io_end_eq: "io_end b err st = iodone b (moved b err st)"
  by (simp add: io_end_def moved_def Let_def)

lemma moved_simps [simp]:
  "c \<noteq> b \<Longrightarrow> bufs (moved b err st) c = bufs st c"
  "b_dev (bufs (moved b err st) c) = b_dev (bufs st c)" "b_blkno (bufs (moved b err st) c) = b_blkno (bufs st c)"
  "pending (moved b err st) = remove1 b (pending st)" "hchain (moved b err st) = hchain st" "nochain (moved b err st) = nochain st"
  "basyncnt (moved b err st) = basyncnt st" "avl (moved b err st) = avl st" "av_count (moved b err st) = av_count st"
  "has (moved b err st) c x = (has st c x \<or> c = b \<and> err \<noteq> None \<and> x = B_ERROR)"
  "disk (moved b err st) = (if err = None \<and> \<not> has st b B_READ then (disk st)(bkey (bufs st b) := b_data (bufs st b)) else disk st)"
  "b_data (bufs (moved b err st) b) = (if err = None \<and> has st b B_READ then disk st (bkey (bufs st b)) else b_data (bufs st b))"
  by (auto simp: moved_def Let_def bkey_def split: option.splits)

lemma pending_buf:
  assumes ok: "cache_ok n hm st" and b: "b \<in> set (pending st)"
  shows "b < n" "has st b B_BUSY" "\<not> has st b B_DONE" "\<not> has st b B_STALE" "\<not> has st b B_ERROR" "\<not> has st b B_DELWRI"
  "fresh n st b" "distinct (pending st)"
proof -
  show n: "b < n" using ok b by (auto simp: cache_ok_def pend_ok_def)
  with ok_buf [OF ok, of b] b show "has st b B_BUSY" "\<not> has st b B_DONE" "\<not> has st b B_STALE" "\<not> has st b B_ERROR"
    "\<not> has st b B_DELWRI" "fresh n st b" by (auto simp: buf_ok_def fresh_def)
  show "distinct (pending st)" using ok by (simp add: cache_ok_def pend_ok_def)
qed

lemmas moved_busy = iodone_simps [where st = "moved b err st" and b = b, unfolded moved_simps, OF disjI1, OF pending_buf(2)]
  for n hm b :: nat and st :: "'d bcache" and err :: "int option"

lemma io_end_only:
  assumes ok: "cache_ok n hm st" and b: "b \<in> set (pending st)"
  shows "only_at n b st (io_end b err st)"
  using pending_buf [OF ok b] by (auto simp: only_at_def io_end_eq moved_busy [OF ok b])

lemma io_end_ok:
  assumes ok: "cache_ok n hm st" and b: "b \<in> set (pending st)"
  shows "cache_ok n hm (io_end b err st)"
proof -
  note p = pending_buf [OF ok b] and others = only_at_same(3) [OF io_end_only [OF ok b]]
  have fr: "free_ok n st" and pe: "basyncnt st = int (length (filter (\<lambda>c. has st c B_ASYNC \<and> \<not> has st c B_READ) (pending st)))"
      "set (pending st) \<subseteq> {..<n}"
    using ok unfolding cache_ok_def pend_ok_def by blast+
  have hb: "has (io_end b err st) c B_BUSY \<longleftrightarrow> has st c B_BUSY \<and> (c = b \<longrightarrow> \<not> has st b B_ASYNC)" for c
    using p others [of c] by (cases "c = b") (auto simp: io_end_eq moved_busy [OF ok b])
  have "free_ok n (io_end b err st)"
  proof (cases "has st b B_ASYNC")
    case True
    with p hb show ?thesis
      by - (rule free_add [OF fr p(1,2)], simp_all add: io_end_eq moved_busy [OF ok b])
  next
    case False
    with p hb show ?thesis
      by - (rule free_same [OF fr], auto simp: io_end_eq moved_busy [OF ok b])
  qed
  moreover have "pend_ok n (io_end b err st)"
  proof -
    let ?f = "\<lambda>s c. has s c B_ASYNC \<and> \<not> has s c B_READ"
    have "filter (?f (io_end b err st)) (remove1 b (pending st)) = filter (?f st) (remove1 b (pending st))"
      using p(8) by (intro filter_cong refl) (simp add: others)
    also have "length \<dots> = length (filter (?f st) (pending st)) - (if ?f st b then 1 else 0)"
      using b by (simp add: filter_remove1 length_remove1)
    finally have len: "length (filter (?f (io_end b err st)) (remove1 b (pending st))) = \<dots>" .
    have "?f st b \<Longrightarrow> 0 < length (filter (?f st) (pending st))" using b by (auto simp: filter_empty_conv)
    then show ?thesis
      using pe p(8) len set_remove1_subset [of b "pending st"] unfolding pend_ok_def by (auto simp: io_end_eq moved_busy [OF ok b] of_nat_diff Suc_leI)
  qed
  ultimately show ?thesis
    using p by - (rule only_at_ok [OF io_end_only [OF ok b] ok], auto simp: buf_ok_def io_end_eq moved_busy [OF ok b])
qed

text \<open>A write that failed leaves the block as it is on the disk.\<close>

lemma io_end_content:
  assumes ok: "cache_ok n hm st" and b: "b \<in> set (pending st)"
  shows
  "content hm (io_end b err st) =
     (if err \<noteq> None \<and> \<not> has st b B_READ then (content hm st)(bkey (bufs st b) := disk st (bkey (bufs st b))) else content hm st)"
proof
  fix k
  note p = pending_buf [OF ok b] and c = only_at_content [OF io_end_only [OF ok b, of err] ok io_end_ok [OF ok b, of err], of k]
  show "content hm (io_end b err st) k = (if err \<noteq> None \<and> \<not> has st b B_READ then (content hm st)(bkey (bufs st b) := disk st (bkey (bufs st b))) else content hm st) k"
  proof (cases "k = bkey (bufs st b)")
    case True
    have v: "content hm st k = (if \<not> has st b B_READ then b_data (bufs st b) else disk st k)"
      using only_at_content [of n b st st hm k] ok p b True by (simp add: only_at_def valid_def)
    have fr: "fresh n (io_end b err st) b \<longleftrightarrow> \<not> (has st b B_ASYNC \<and> err \<noteq> None)"
      using p by (auto simp: fresh_def io_end_eq moved_busy [OF ok b])
    have va: "valid (io_end b err st) b \<longleftrightarrow> err = None \<or> has st b B_ASYNC"
      using p by (auto simp: valid_def io_end_eq moved_busy [OF ok b])
    have da: "b_data (bufs (io_end b err st) b) = (if err = None \<and> has st b B_READ then disk st (bkey (bufs st b)) else b_data (bufs st b))"
      "disk (io_end b err st) k = (if err = None \<and> \<not> has st b B_READ then b_data (bufs st b) else disk st k)"
      using True by (simp_all add: io_end_eq moved_busy [OF ok b])
    show ?thesis
      unfolding c fr va da using True p(7) v by (cases "err = None"; cases "has st b B_READ"; auto)
  next
    case False
    with c show ?thesis by simp
  qed
qed

lemma io_end_held:
  assumes ok: "cache_ok n hm st" and b: "b \<in> set (pending st)"
  shows "held n (io_end b err st) c \<longleftrightarrow> held n st c \<or> c = b \<and> \<not> has st b B_ASYNC"
proof (cases "c = b")
  case True
  with pending_buf [OF ok b] b show ?thesis by (auto simp: held_def io_end_eq moved_busy [OF ok b])
next
  case False
  then show ?thesis using only_at_same [OF io_end_only [OF ok b], of c] by (simp add: held_def)
qed
text \<open>The process changes the data of a buffer it holds.\<close>

definition store :: "nat \<Rightarrow> 'd \<Rightarrow> 'd bcache \<Rightarrow> 'd bcache" where
  "store b x st = setb b (\<lambda>p. p\<lparr>b_data := x\<rparr>) st"

lemma store_ok:
  assumes ok: "cache_ok n hm st" and b: "held n st b"
  shows "cache_ok n hm (store b x st)"
    "content hm (store b x st) =
       (if fresh n st b \<and> has st b B_DONE \<and> \<not> has st b B_ERROR then (content hm st)(bkey (bufs st b) := x) else content hm st)"
proof -
  let ?s = "store b x st"
  note h = held_buf [OF ok b]
  have hs: "has ?s = has st" by (intro ext) (simp add: store_def)
  have only: "only_at n b st ?s" by (simp add: only_at_def store_def)
  have "free_ok n ?s" using ok by - (rule free_same [of n st], simp_all add: cache_ok_def hs, simp_all add: store_def)
  moreover have "pend_ok n ?s" using ok by - (rule pend_same [of n st], simp_all add: cache_ok_def hs, simp_all add: store_def)
  ultimately show ok': "cache_ok n hm ?s"
    using ok_buf [OF ok h(1)] h(2) by - (rule only_at_ok [OF only ok], simp_all add: buf_ok_def hs, simp_all add: store_def)
  have ref: "only_at n b st st" by (simp add: only_at_def)
  show "content hm ?s = (if fresh n st b \<and> has st b B_DONE \<and> \<not> has st b B_ERROR then (content hm st)(bkey (bufs st b) := x) else content hm st)"
  proof
    fix k
    have f: "fresh n ?s b = fresh n st b" "valid ?s b \<longleftrightarrow> has st b B_DONE \<and> \<not> has st b B_ERROR"
        "valid st b \<longleftrightarrow> has st b B_DONE \<and> \<not> has st b B_ERROR" "b_data (bufs ?s b) = x" "disk ?s = disk st"
      using h(3) by (auto simp: fresh_def valid_def hs) (auto simp: store_def)
    show "content hm ?s k = (if fresh n st b \<and> has st b B_DONE \<and> \<not> has st b B_ERROR then (content hm st)(bkey (bufs st b) := x) else content hm st) k"
      using only_at_content [OF only ok ok', of k] only_at_content [OF ref ok ok, of k] unfolding f by auto
  qed
qed

lemma mark_ok:
  assumes ok: "cache_ok n hm st" and b: "held n st b"
    and "fl = {B_DELWRI, B_DONE}" "b_dev (bufs st b) \<noteq> NODEV" "\<not> has st b B_ERROR"
  defines "st' \<equiv> setb b (\<lambda>p. p\<lparr>b_flags := b_flags p \<union> fl, b_resid := 0\<rparr>) st"
  shows "cache_ok n hm st'" "content hm st' = (content hm st)(bkey (bufs st b) := b_data (bufs st b))"
    "held n st' c = held n st c"
proof -
  note h = held_buf [OF ok b]
  have hs: "has st' c x \<longleftrightarrow> has st c x \<or> c = b \<and> x \<in> fl" for c x by (auto simp: st'_def)
  have only: "only_at n b st st'" by (simp add: only_at_def st'_def)
  have "free_ok n st'" using ok assms(3) by - (rule free_same [of n st], auto simp: cache_ok_def hs, simp_all add: st'_def)
  moreover have "pend_ok n st'" using ok h(3) by - (rule pend_same [of n st], auto simp: cache_ok_def hs, simp_all add: st'_def)
  ultimately show ok': "cache_ok n hm st'"
    using ok_buf [OF ok h(1)] h assms(3,4) by - (rule only_at_ok [OF only ok], simp_all add: buf_ok_def hs, simp_all add: st'_def)
  have "fresh n st b" "fresh n st' b" "valid st' b" "b_data (bufs st' b) = b_data (bufs st b)"
    using h assms(3-5) by (auto simp: fresh_def valid_def hs) (auto simp: st'_def)
  then show "content hm st' = (content hm st)(bkey (bufs st b) := b_data (bufs st b))"
    by (intro ext) (simp add: only_at_content [OF only ok ok'])
  show "held n st' c = held n st c" using assms(3) by (simp add: held_def hs) (simp add: st'_def)
qed
lemma brelse_held: "held n (brelse b st) c \<longleftrightarrow> held n st c \<and> c \<noteq> b"
  by (auto simp: held_def)

lemma start_stamp_ok:
  assumes "cache_ok n hm st"
  shows "cache_ok n hm (setb b (\<lambda>p. p\<lparr>b_start := t\<rparr>) st)" "content hm (setb b (\<lambda>p. p\<lparr>b_start := t\<rparr>) st) = content hm st"
    "held n (setb b (\<lambda>p. p\<lparr>b_start := t\<rparr>) st) = held n st"
proof -
  let ?s = "setb b (\<lambda>p. p\<lparr>b_start := t\<rparr>) st"
  have hs: "has ?s = has st" by (intro ext) simp
  have only: "only_at n b st ?s" by (simp add: only_at_def)
  have "free_ok n ?s" using assms by - (rule free_same [of n st], simp_all add: cache_ok_def hs)
  moreover have "pend_ok n ?s" using assms by - (rule pend_same [of n st], simp_all add: cache_ok_def hs)
  ultimately show ok': "cache_ok n hm ?s"
    using ok_buf [OF assms, of b] by - (rule only_at_ok [OF only assms], simp_all add: buf_ok_def hs)
  show "content hm ?s = content hm st"
    by (rule only_at_content_same [OF only assms ok']) (simp add: fresh_def valid_def hs)
  show "held n ?s = held n st" by (intro ext) (simp add: held_def hs)
qed

text \<open>A delayed write: the block's content is now the buffer's; after a failed read it is dropped.\<close>

lemma bdwrite_ok:
  assumes ok: "cache_ok n hm st" and b: "held n st b" "b_dev (bufs st b) \<noteq> NODEV" "\<not> has st b B_ERROR"
  shows "cache_ok n hm (bdwrite b st)" "content hm (bdwrite b st) = (content hm st)(bkey (bufs st b) := b_data (bufs st b))"
    "held n (bdwrite b st) c \<longleftrightarrow> held n st c \<and> c \<noteq> b"
proof -
  let ?s1 = "st\<lparr>st_lwrite := st_lwrite st + 1\<rparr>"
  define s2 where "s2 = (if has ?s1 b B_DELWRI then ?s1 else setb b (\<lambda>p. p\<lparr>b_start := lbolt ?s1\<rparr>) ?s1)"
  define s3 where "s3 = setb b (\<lambda>p. p\<lparr>b_flags := b_flags p \<union> {B_DELWRI, B_DONE}, b_resid := 0\<rparr>) s2"
  have s1: "cache_ok n hm ?s1" "content hm ?s1 = content hm st" "held n ?s1 = held n st"
    using ok_cong [of ?s1 st] ok by simp_all
  have s2: "cache_ok n hm s2" "content hm s2 = content hm st" "held n s2 = held n st" "b_dev (bufs s2 b) = b_dev (bufs st b)"
    "bkey (bufs s2 b) = bkey (bufs st b)" "b_data (bufs s2 b) = b_data (bufs st b)" "has s2 b B_ERROR = has st b B_ERROR"
    using s1 start_stamp_ok [where st = ?s1 and n = n and hm = hm and b = b and t = "lbolt ?s1"] unfolding s2_def by simp_all
  have h2: "held n s2 b" "b_dev (bufs s2 b) \<noteq> NODEV" "\<not> has s2 b B_ERROR" using b s2 by simp_all
  note s3 = mark_ok [OF s2(1) h2(1) refl h2(2,3), folded s3_def]
  have "held n s3 b" "clean s3 b" using s3(3) [of b] h2(1) by (simp_all add: clean_def s3_def)
  note br = brelse_ok [OF s3(1) this]
  have e: "bdwrite b st = brelse b s3" by (simp add: bdwrite_def s3_def s2_def Let_def)
  show "cache_ok n hm (bdwrite b st)" "content hm (bdwrite b st) = (content hm st)(bkey (bufs st b) := b_data (bufs st b))"
    unfolding e using br s3 s2 by simp_all
  show "held n (bdwrite b st) c \<longleftrightarrow> held n st c \<and> c \<noteq> b" unfolding e using s3(3) [of c] s2(3) by (simp add: brelse_held)
qed

text \<open>Invalidating: no buffer of the device may be in use or wait to be written.\<close>

definition quiet :: "nat \<Rightarrow> int \<Rightarrow> 'd bcache \<Rightarrow> bool" where
  "quiet n dev st \<longleftrightarrow> (\<forall>b<n. b_dev (bufs st b) = dev \<longrightarrow> \<not> has st b B_BUSY \<and> \<not> has st b B_DELWRI)"

definition invalidates :: "nat \<Rightarrow> nat \<Rightarrow> int \<Rightarrow> 'd bcache \<Rightarrow> 'd bcache \<Rightarrow> bool" where
  "invalidates n hm dev st st' \<longleftrightarrow> cache_ok n hm st' \<and> content hm st' = content hm st \<and> quiet n dev st' \<and> hchain st' = hchain st \<and>
     (\<forall>c. b_dev (bufs st' c) = b_dev (bufs st c) \<and> (has st c B_STALE \<longrightarrow> has st' c B_STALE))"

lemma binval_one_ok:
  assumes ok: "cache_ok n hm st" and q: "quiet n dev st"
  shows "invalidates n hm dev st (binval_one dev st b)" "b_dev (bufs st b) = dev \<Longrightarrow> has (binval_one dev st b) b B_STALE"
proof -
  let ?s = "binval_one dev st b"
  show stale: "b_dev (bufs st b) = dev \<Longrightarrow> has ?s b B_STALE" by (simp add: binval_one_def)
  show "invalidates n hm dev st ?s"
  proof (cases "dev = b_dev (bufs st b)")
    case False
    then have "?s = st" by (simp add: binval_one_def)
    with ok q show ?thesis by (simp add: invalidates_def)
  next
    case True
    then have e: "?s = setb b (on_flags (\<lambda>fl. fl \<union> {B_STALE, B_AGE})) st" by (simp add: binval_one_def)
    have h: "has ?s c x \<longleftrightarrow> has st c x \<or> c = b \<and> x \<in> {B_STALE, B_AGE}" for c x by (auto simp: e)
    have f: "b_dev (bufs ?s c) = b_dev (bufs st c)" "b_data (bufs ?s c) = b_data (bufs st c)" "pending ?s = pending st"
      "avl ?s = avl st" "av_count ?s = av_count st" "disk ?s = disk st" "basyncnt ?s = basyncnt st" for c by (simp_all add: e)
    have only: "only_at n b st ?s" by (simp add: only_at_def e)
    have "free_ok n ?s" using ok by - (rule free_same [of n st], simp_all add: cache_ok_def h f)
    moreover have "pend_ok n ?s" using ok by - (rule pend_ok_def [THEN iffD2], simp add: cache_ok_def h f pend_ok_def)
    moreover have nb: "\<not> has st b B_BUSY \<and> \<not> has st b B_DELWRI" if "b < n" using q True that by (simp add: quiet_def)
    ultimately have ok': "cache_ok n hm ?s"
      using ok_buf [OF ok, of b] by - (rule only_at_ok [OF only ok], auto simp: buf_ok_def h f)
    have "content hm ?s = content hm st"
    proof (rule only_at_content_same [OF only ok ok'])
      assume fr: "fresh n st b"
      then show "(if fresh n ?s b \<and> valid ?s b then b_data (bufs ?s b) else disk ?s (bkey (bufs st b)))
          = (if valid st b then b_data (bufs st b) else disk st (bkey (bufs st b)))"
        using ok_buf [OF ok, of b] nb by (auto simp: fresh_def valid_def h f buf_ok_def)
    qed
    with ok' q show ?thesis by (auto simp: invalidates_def quiet_def h f) (simp add: e)
  qed
qed

lemma invalidates_trans: "invalidates n hm dev st1 st2 \<Longrightarrow> invalidates n hm dev st2 st3 \<Longrightarrow> invalidates n hm dev st1 st3"
  by (auto simp: invalidates_def)

lemma binval_chain_ok:
  assumes "cache_ok n hm st" "quiet n dev st"
  shows "invalidates n hm dev st (foldl (binval_one dev) st bs) \<and>
    (\<forall>b\<in>set bs. b_dev (bufs st b) = dev \<longrightarrow> has (foldl (binval_one dev) st bs) b B_STALE)"
  using assms
proof (induction bs arbitrary: st)
  case Nil
  then show ?case by (simp add: invalidates_def)
next
  case (Cons b bs)
  note one = binval_one_ok [OF Cons.prems, of b]
  have "cache_ok n hm (binval_one dev st b)" "quiet n dev (binval_one dev st b)" using one(1) by (auto simp: invalidates_def)
  from Cons.IH [OF this] one show ?case by (auto intro: invalidates_trans simp: invalidates_def)
qed

lemma binval_chains_ok:
  assumes "cache_ok n hm st" "quiet n dev st"
  shows "invalidates n hm dev st (foldl (\<lambda>st i. foldl (binval_one dev) st (hchain st i)) st is) \<and>
    (\<forall>i\<in>set is. \<forall>b\<in>set (hchain st i). b_dev (bufs st b) = dev \<longrightarrow>
       has (foldl (\<lambda>st i. foldl (binval_one dev) st (hchain st i)) st is) b B_STALE)"
  using assms
proof (induction "is" arbitrary: st)
  case Nil
  then show ?case by (simp add: invalidates_def)
next
  case (Cons i "is")
  note one = binval_chain_ok [OF Cons.prems, of "hchain st i"]
  let ?s = "foldl (binval_one dev) st (hchain st i)"
  have "cache_ok n hm ?s" "quiet n dev ?s" using one by (auto simp: invalidates_def)
  from Cons.IH [OF this] one show ?case
    by (auto intro: invalidates_trans simp: invalidates_def)
qed

lemma binval_ok:
  assumes ok: "cache_ok n hm st" and q: "quiet n dev st" and dev: "dev \<noteq> NODEV" "dev \<noteq> swapdev"
  shows "cache_ok n hm (binval swapdev (Suc hm) dev st)" "content hm (binval swapdev (Suc hm) dev st) = content hm st"
    "\<not> incore hm dev blkno (binval swapdev (Suc hm) dev st)"
proof -
  let ?s = "binval swapdev (Suc hm) dev st"
  have e: "?s = foldl (\<lambda>st i. foldl (binval_one dev) st (hchain st i)) st [0..<Suc hm]" using dev by (simp add: binval_def)
  note c = binval_chains_ok [OF ok q, of "[0..<Suc hm]", folded e]
  show ok': "cache_ok n hm ?s" "content hm ?s = content hm st" using c by (auto simp: invalidates_def)
  have "\<not> fresh n ?s b" if "b_dev (bufs ?s b) = dev" for b
  proof
    assume fr: "fresh n ?s b"
    have "b_dev (bufs st b) = dev" "b < n" using c that fr by (auto simp: invalidates_def fresh_def)
    then have "b \<in> set (hchain st (bhash hm dev (b_blkno (bufs st b))))"
      using ok dev(1) by (auto simp: cache_ok_def chains_ok_def)
    moreover have "bhash hm dev (b_blkno (bufs st b)) \<in> set [0..<Suc hm]"
      using bhash_range [of hm dev "b_blkno (bufs st b)"] by auto
    ultimately have "has ?s b B_STALE" using c \<open>b_dev (bufs st b) = dev\<close> by blast
    with fr show False by (simp add: fresh_def)
  qed
  then show "\<not> incore hm dev blkno ?s" using lookup_None [OF ok'(1)] by (auto simp: incore_def bkey_def)
qed

lemma geterror_ok:
  assumes "cache_ok n hm st"
  shows "cache_ok n hm (geterror b st)" "content hm (geterror b st) = content hm st" "held n (geterror b st) = held n st"
  using assms ok_cong [of "geterror b st" st] by simp_all

lemma held_live:
  assumes "cache_ok n hm st" "held n st b" "b_dev (bufs st b) \<noteq> NODEV" "has st b B_DONE" "\<not> has st b B_ERROR"
  shows "content hm st (bkey (bufs st b)) = b_data (bufs st b)"
  using assms held_buf(4) [OF assms(1,2)]
  by - (rule content_live [of n], auto simp: live_def fresh_def valid_def held_def)

text \<open>Starting a read keeps the contents, and the buffer is in the driver's queue.\<close>

lemma start_read_ok:
  assumes ok: "cache_ok n hm st" and b: "held n st b" "b_dev (bufs st b) \<noteq> NODEV" "\<not> has st b B_DONE"
    and fl: "fl = {B_READ} \<or> fl = {B_READ, B_ASYNC}"
  shows "cache_ok n hm (start_read fl dev b st)" "content hm (start_read fl dev b st) = content hm st"
    "held n (start_read fl dev b st) c \<longleftrightarrow> held n st c \<and> c \<noteq> b"
proof -
  note io = starts_read [OF ok b(1,3) fl, of dev]
  show "cache_ok n hm (start_read fl dev b st)" by (rule start_io_ok [OF ok b(1,2) io])
  show "content hm (start_read fl dev b st) = content hm st"
    by (rule start_io_read [OF ok b(1,2) io]) (use b fl in auto)
  show "held n (start_read fl dev b st) c \<longleftrightarrow> held n st c \<and> c \<noteq> b"
    by (rule start_io_held [OF ok b(1,2) io])
qed

text \<open>
  What a reader gets: the block's buffer with its content, or a request for it, or a sleep that changes
  nothing.
\<close>

definition read_post :: "nat \<Rightarrow> nat \<Rightarrow> int \<times> int \<Rightarrow> 'd bcache \<Rightarrow> 'd bcache \<Rightarrow> bget \<Rightarrow> bool" where
  "read_post n hm k st st' r \<longleftrightarrow>
     (case r of
        Got b \<Rightarrow> got n st st' b \<and> bkey (bufs st' b) = k \<and> has st' b B_DONE \<and> b_data (bufs st' b) = content hm st k
      | IoWait b \<Rightarrow> \<not> held n st b \<and> b \<in> set (pending st') \<and> has st' b B_READ \<and> \<not> has st' b B_ASYNC \<and> bkey (bufs st' b) = k
      | Slept c \<Rightarrow> get_post n k st st' r)"

lemma bread_get_ok:
  assumes ok: "cache_ok n hm st" and dev: "dev \<noteq> NODEV" and run: "bread_get hm dev blkno st = (st', r)"
  shows "cache_ok n hm st'" "content hm st' = content hm st" "read_post n hm (dev, fsLTOP (fsLRG dev) blkno) st st' r"
proof -
  obtain s1 g where g: "getblk hm dev blkno st = (s1, g)" by (cases "getblk hm dev blkno st") auto
  note k = getblk_loop_ok [OF ok dev g [unfolded getblk_def]]
  let ?k = "(dev, fsLTOP (fsLRG dev) blkno)"
  have "cache_ok n hm st' \<and> content hm st' = content hm st \<and> read_post n hm ?k st st' r"
  proof (cases g)
    case (Got b)
    with k have b: "got n st s1 b" "bkey (bufs s1 b) = ?k" "held n s1 b" "\<not> has s1 b B_ERROR" "b_dev (bufs s1 b) \<noteq> NODEV"
      using dev by (auto simp: get_post_def got_def bkey_def)
    show ?thesis
    proof (cases "has s1 b B_DONE")
      case True
      with run g Got have e: "st' = geterror b s1" "r = Got b" by (auto simp: bread_get_def)
      have "b_data (bufs st' b) = content hm st ?k"
        using held_live [of n hm s1 b] k b True unfolding e by auto
      with k b True e geterror_ok [of n hm s1 b] show ?thesis by (simp add: read_post_def got_def clean_def held_def)
    next
      case False
      let ?s = "start_read {B_READ} dev b s1"
      from False run g Got have e: "st' = ?s" "r = IoWait b" by (auto simp: bread_get_def io_result_def iowait_def)
      note s = start_read_ok [OF _ b(3,5) False disjI1 [OF refl], of hm dev]
      have "\<not> has s1 b B_ASYNC" using held_buf(5) k b(3) by blast
      with s k b show ?thesis unfolding e by (simp add: read_post_def bkey_def got_def)
    qed
  next
    case (Slept c)
    with run g have "st' = s1" "r = Slept c" by (auto simp: bread_get_def)
    with k Slept show ?thesis by (simp add: read_post_def)
  next
    case (IoWait b)
    with k show ?thesis by (simp add: get_post_def)
  qed
  then show "cache_ok n hm st'" "content hm st' = content hm st" "read_post n hm ?k st st' r" by blast+
qed

text \<open>\<^verbatim>\<open>bread\<close> and all the parts of \<^verbatim>\<open>breada\<close> keep the invariant and the contents.\<close>

definition keeps :: "nat \<Rightarrow> nat \<Rightarrow> 'd bcache \<Rightarrow> 'd bcache \<Rightarrow> bool" where
  "keeps n hm st st' \<longleftrightarrow> (cache_ok n hm st \<longrightarrow> cache_ok n hm st' \<and> content hm st' = content hm st)"

lemma keeps_refl [simp]: "keeps n hm st st"
  by (simp add: keeps_def)

lemma keeps_trans: "keeps n hm st1 st2 \<Longrightarrow> keeps n hm st2 st3 \<Longrightarrow> keeps n hm st1 st3"
  by (simp add: keeps_def)

lemma keeps_getblk: "dev \<noteq> NODEV \<Longrightarrow> keeps n hm st (fst (getblk hm dev blkno st))"
  by (cases "getblk hm dev blkno st") (auto simp: keeps_def getblk_def dest: getblk_loop_ok)

lemma keeps_io_result: "keeps n hm st (fst (io_result b st))"
  using geterror_ok [of n hm st b] by (auto simp: keeps_def io_result_def iowait_def)

lemma keeps_lread: "keeps n hm st (st\<lparr>st_lread := m\<rparr>)"
  using ok_cong [of "st\<lparr>st_lread := m\<rparr>" st] by (simp add: keeps_def)

lemma keeps_bread: "dev \<noteq> NODEV \<Longrightarrow> keeps n hm st (fst (bread hm dev blkno st))"
proof -
  assume "dev \<noteq> NODEV"
  then have "keeps n hm s (fst (bread_get hm dev blkno s))" for s
    by (cases "bread_get hm dev blkno s") (auto simp: keeps_def dest: bread_get_ok)
  from keeps_trans [OF keeps_lread this] show ?thesis by (simp add: bread_def)
qed

lemma keeps_ra_block:
  assumes dev: "dev \<noteq> NODEV"
  shows "keeps n hm st (fst (ra_block hm dev rablk st))"
proof -
  obtain s1 g where g: "getblk hm dev rablk st = (s1, g)" by (cases "getblk hm dev rablk st") auto
  show ?thesis
  proof (cases g)
    case (Got b)
    show ?thesis unfolding keeps_def
    proof
      assume ok: "cache_ok n hm st"
      note k = getblk_loop_ok [OF ok dev g [unfolded getblk_def]]
      with Got have b: "held n s1 b" "clean s1 b" "b_dev (bufs s1 b) \<noteq> NODEV"
        using dev by (auto simp: get_post_def got_def bkey_def)
      show "cache_ok n hm (fst (ra_block hm dev rablk st)) \<and> content hm (fst (ra_block hm dev rablk st)) = content hm st"
      proof (cases "has s1 b B_DONE")
        case True
        with k g Got brelse_ok [OF _ b(1,2), of hm] show ?thesis by (simp add: ra_block_def)
      next
        case False
        with k g Got start_read_ok [OF _ b(1,3) False disjI2 [OF refl], of hm dev] show ?thesis by (simp add: ra_block_def)
      qed
    qed
  next
    case (Slept c)
    with g keeps_getblk [OF dev, of n hm st rablk] show ?thesis by (simp add: ra_block_def)
  next
    case (IoWait b)
    with g keeps_getblk [OF dev, of n hm st rablk] show ?thesis by (simp add: ra_block_def)
  qed
qed

lemma fst_ra_result [simp]: "fst (ra_result k r) = fst r"
  by (auto simp: ra_result_def split: prod.splits bget.splits)

lemma keeps_ahead2: "dev \<noteq> NODEV \<Longrightarrow> keeps n hm st (fst (breada_ahead2 hm dev blkno xablk st))"
  using keeps_ra_block [of dev n hm st xablk]
  by (auto simp: breada_ahead2_def breada_read_def split: prod.split option.split intro: keeps_trans keeps_bread)

lemma keeps_end: "dev \<noteq> NODEV \<Longrightarrow> keeps n hm st (fst (breada_end hm dev blkno xablk bp st))"
  by (auto simp: breada_end_def breada_read_def keeps_io_result keeps_ahead2 keeps_bread split: option.split)

lemma keeps_ahead: "dev \<noteq> NODEV \<Longrightarrow> keeps n hm st (fst (breada_ahead hm dev blkno rablk xablk bp st))"
  using keeps_ra_block [of dev n hm st rablk]
  by (auto simp: breada_ahead_def split: prod.split option.split intro: keeps_trans keeps_end)

lemma keeps_next: "dev \<noteq> NODEV \<Longrightarrow> keeps n hm st (fst (breada_next hm dev blkno rablk xablk bp st))"
  by (simp add: breada_next_def keeps_ahead keeps_end)

lemma keeps_get:
  assumes dev: "dev \<noteq> NODEV"
  shows "keeps n hm st (fst (breada_get hm dev blkno rablk xablk st))"
proof -
  obtain s1 g where g: "getblk hm dev blkno st = (s1, g)" by (cases "getblk hm dev blkno st") auto
  show ?thesis
  proof (cases g)
    case (Got b)
    let ?s = "if has s1 b B_DONE then s1 else start_read {B_READ} dev b s1"
    have "keeps n hm st ?s" unfolding keeps_def
    proof
      assume ok: "cache_ok n hm st"
      note k = getblk_loop_ok [OF ok dev g [unfolded getblk_def]]
      with Got have b: "held n s1 b" "b_dev (bufs s1 b) \<noteq> NODEV" using dev by (auto simp: get_post_def got_def bkey_def)
      with k start_read_ok [OF _ b _ disjI1 [OF refl], of hm dev] show "cache_ok n hm ?s \<and> content hm ?s = content hm st" by simp
    qed
    with g Got show ?thesis by (simp add: breada_get_def keeps_next [OF dev] keeps_trans del: if_image_distrib split del: if_split)
  next
    case (Slept c)
    with g keeps_getblk [OF dev, of n hm st blkno] show ?thesis by (simp add: breada_get_def)
  next
    case (IoWait b)
    with g keeps_getblk [OF dev, of n hm st blkno] show ?thesis by (simp add: breada_get_def)
  qed
qed

lemma keeps_breada: "dev \<noteq> NODEV \<Longrightarrow> keeps n hm st (fst (breada hm dev blkno rablk xablk st))"
  by (cases "incore hm dev blkno st")
    (simp_all add: breada_def keeps_next keeps_trans [OF keeps_lread keeps_get])

lemma keeps_resume: "dev \<noteq> NODEV \<Longrightarrow> keeps n hm st (fst (breada_resume hm dev blkno rablk xablk k st))"
proof (cases k)
  case AtRead
  assume "dev \<noteq> NODEV"
  with AtRead show ?thesis by (cases "bread_get hm dev blkno st") (auto simp: keeps_def dest: bread_get_ok)
qed (simp_all add: keeps_get keeps_ahead keeps_ahead2)

section \<open>The cache as a memory\<close>

datatype 'd bevent =
    Get int int | Empty | Read int int | ReadRetry int int
  | ReadA int int int int | ReadAOn int int int int ra_at
  | Store nat 'd | Release nat | Write nat | AWrite nat | DWrite nat | Waited nat | Written nat
  | Complete nat "int option" | Flush int | FlushOld int | Drain | Inval int | Tick

text \<open>
  The steps: calls of processes, on buffers they hold, and the ends of transfers. A process writes no
  buffer of \<^verbatim>\<open>geteblk\<close> and none whose read failed by a delayed write, releases without a write only what it has
  not changed, and \<^verbatim>\<open>binval\<close> is called when the device is flushed and closed (\<open>quiet\<close>: nothing is pending and nothing delayed).
  The kernel does not keep to this everywhere: \<^verbatim>\<open>writei\<close> releases a buffer it has written a part of when the copy faults
  (\<^verbatim>\<open>rdwri.c\<close>, line 220), and \<^verbatim>\<open>closef\<close> and \<^verbatim>\<open>sumount\<close> call \<^verbatim>\<open>binval\<close> without waiting for writes already started.
\<close>

inductive bstep :: "nat \<Rightarrow> nat \<Rightarrow> int \<Rightarrow> 'd bevent \<Rightarrow> 'd bcache \<Rightarrow> 'd bcache \<Rightarrow> bool" for n hm swapdev where
  get: "dev \<noteq> NODEV \<Longrightarrow> bstep n hm swapdev (Get dev blk) st (fst (getblk hm dev blk st))"
| empty: "bstep n hm swapdev Empty st (fst (geteblk st))"
| read: "dev \<noteq> NODEV \<Longrightarrow> bstep n hm swapdev (Read dev blk) st (fst (bread hm dev blk st))"
| read_retry: "dev \<noteq> NODEV \<Longrightarrow> bstep n hm swapdev (ReadRetry dev blk) st (fst (bread_get hm dev blk st))"
| reada: "dev \<noteq> NODEV \<Longrightarrow> bstep n hm swapdev (ReadA dev blk ra xa) st (fst (breada hm dev blk ra xa st))"
| reada_on: "dev \<noteq> NODEV \<Longrightarrow> bstep n hm swapdev (ReadAOn dev blk ra xa k) st (fst (breada_resume hm dev blk ra xa k st))"
| store: "held n st b \<Longrightarrow> bstep n hm swapdev (Store b x) st (store b x st)"
| release: "\<lbrakk>held n st b; clean st b\<rbrakk> \<Longrightarrow> bstep n hm swapdev (Release b) st (brelse b st)"
| swrite: "\<lbrakk>held n st b; b_dev (bufs st b) \<noteq> NODEV\<rbrakk> \<Longrightarrow> bstep n hm swapdev (Write b) st (fst (bwrite b st))"
| awrite: "\<lbrakk>held n st b; b_dev (bufs st b) \<noteq> NODEV\<rbrakk> \<Longrightarrow> bstep n hm swapdev (AWrite b) st (fst (bawrite b st))"
| dwrite: "\<lbrakk>held n st b; b_dev (bufs st b) \<noteq> NODEV; \<not> has st b B_ERROR\<rbrakk> \<Longrightarrow> bstep n hm swapdev (DWrite b) st (bdwrite b st)"
| waited: "bstep n hm swapdev (Waited b) st (fst (iowait b st))"
| written: "\<lbrakk>held n st b; clean st b\<rbrakk> \<Longrightarrow> bstep n hm swapdev (Written b) st (fst (bwrite_end b st))"
| complete: "b \<in> set (pending st) \<Longrightarrow> bstep n hm swapdev (Complete b err) st (io_end b err st)"
| flush: "bstep n hm swapdev (Flush dev) st (bflush dev st)"
| flush_old: "bstep n hm swapdev (FlushOld t) st (fst (bdflush t st))"
| drain: "bstep n hm swapdev Drain st (fst (bdwait st))"
| inval: "\<lbrakk>dev \<noteq> NODEV; quiet n dev st\<rbrakk> \<Longrightarrow> bstep n hm swapdev (Inval dev) st (binval swapdev (Suc hm) dev st)"
| tick: "bstep n hm swapdev Tick st (st\<lparr>lbolt := lbolt st + 1\<rparr>)"

text \<open>The write a step is for the memory: the block and its new content.\<close>

fun effect :: "'d bcache \<Rightarrow> 'd bevent \<Rightarrow> ((int \<times> int) \<times> 'd) option" where
  "effect st (Store b x) =
     (if b_dev (bufs st b) \<noteq> NODEV \<and> has st b B_DONE \<and> \<not> has st b B_ERROR then Some (bkey (bufs st b), x) else None)"
| "effect st (Write b) = Some (bkey (bufs st b), b_data (bufs st b))"
| "effect st (AWrite b) = Some (bkey (bufs st b), b_data (bufs st b))"
| "effect st (DWrite b) = Some (bkey (bufs st b), b_data (bufs st b))"
| "effect st (Complete b err) =
     (if err \<noteq> None \<and> \<not> has st b B_READ then Some (bkey (bufs st b), disk st (bkey (bufs st b))) else None)"
| "effect st _ = None"

fun mem_write :: "('k \<times> 'v) option \<Rightarrow> ('k \<Rightarrow> 'v) \<Rightarrow> 'k \<Rightarrow> 'v" where
  "mem_write None m = m"
| "mem_write (Some (k, x)) m = m(k := x)"

lemma bstep_ok:
  assumes "bstep n hm swapdev e st st'" "cache_ok n hm st"
  shows "cache_ok n hm st' \<and> content hm st' = mem_write (effect st e) (content hm st)"
  using assms
proof (induction rule: bstep.cases)
  case (get dev blk st)
  then show ?case using keeps_getblk [of dev n hm st blk] by (simp add: keeps_def)
next
  case (empty st)
  then show ?case using geteblk_ok [of n hm st] by (cases "geteblk st") simp
next
  case (read dev blk st)
  then show ?case using keeps_bread [of dev n hm st blk] by (simp add: keeps_def)
next
  case (read_retry dev blk st)
  then show ?case using keeps_resume [of dev n hm st blk 0 0 AtRead] by (simp add: keeps_def)
next
  case (reada dev blk ra xa st)
  then show ?case using keeps_breada [of dev n hm st blk ra xa] by (simp add: keeps_def)
next
  case (reada_on dev blk ra xa k st)
  then show ?case using keeps_resume [of dev n hm st blk ra xa k] by (simp add: keeps_def)
next
  case (store st b x)
  then show ?case using store_ok [of n hm st b x] held_buf(1,4) [of n hm st b] by (simp add: fresh_def)
next
  case (release st b)
  then show ?case using brelse_ok [of n hm st b] by simp
next
  case (swrite st b)
  then have ok: "cache_ok n hm st" by simp
  note w = starts_write(1) [OF ok swrite(4)]
  have "\<not> has st b B_ASYNC" by (rule held_buf(5) [OF ok swrite(4)])
  then show ?case unfolding swrite(1-3)
    using start_io_ok [OF ok swrite(4,5) w] start_io_write [OF ok swrite(4,5) w] by (simp add: bwrite_sync_eq)
next
  case (awrite st b)
  then have ok: "cache_ok n hm st" by simp
  note w = starts_write [OF ok awrite(4)]
  have "\<not> has st b B_ASYNC" by (rule held_buf(5) [OF ok awrite(4)])
  then have "fst (bawrite b st) = (if av_count st > 4 then async_write b st else bwrite_start b st)"
    by (simp add: bawrite_def async_write_def bwrite_sync_eq)
  then show ?case unfolding awrite(1-3)
    using start_io_ok [OF ok awrite(4,5) w(1)] start_io_write [OF ok awrite(4,5) w(1)]
      start_io_ok [OF ok awrite(4,5) w(2)] start_io_write [OF ok awrite(4,5) w(2)] by simp
next
  case (dwrite st b)
  then show ?case using bdwrite_ok [of n hm st b] by simp
next
  case (waited b st)
  then show ?case using geterror_ok [of n hm st b] by (simp add: iowait_def)
next
  case (written st b)
  then have ok: "cache_ok n hm (geterror b st)" "held n (geterror b st) b" "clean (geterror b st) b"
    using geterror_ok [of n hm st b] by (simp_all add: clean_def)
  then show ?case using written brelse_ok [OF ok] geterror_ok(2) [of n hm st b] by (simp add: bwrite_end_def iowait_def)
next
  case (complete b st err)
  then show ?case using io_end_ok [of n hm st b err] io_end_content [of n hm st b err] by simp
next
  case (flush dev st)
  then show ?case using flush_while_ok [of n hm st] by (simp add: bflush_def)
next
  case (flush_old t st)
  then show ?case using flush_while_ok [of n hm st] by (simp add: bdflush_def)
next
  case (drain st)
  then show ?case using ok_cong [of "st\<lparr>basynwait := True\<rparr>" st] by (simp add: bdwait_def)
next
  case (inval dev st)
  then show ?case using binval_ok [of n hm st dev swapdev] by (cases "dev = swapdev") (simp_all add: binval_def)
next
  case (tick st)
  then show ?case using ok_cong [of "st\<lparr>lbolt := lbolt st + 1\<rparr>" st] by simp
qed

section \<open>The pool at the start\<close>

definition boot :: "'d bcache \<Rightarrow> bool" where
  "boot st \<longleftrightarrow> av_count st = 0 \<and> pending st = [] \<and> basyncnt st = 0"

lemma binit_one_simps:
  "has (binit_one st b) c x \<longleftrightarrow> c \<noteq> b \<and> has st c x"
  "b_dev (bufs (binit_one st b) c) = (if c = b then NODEV else b_dev (bufs st c))"
  "avl (binit_one st b) = avl st @ [b]" "av_count (binit_one st b) = av_count st + 1" "pending (binit_one st b) = pending st"
  "disk (binit_one st b) = disk st" "basyncnt (binit_one st b) = basyncnt st" "nochain (binit_one st b) = b # nochain st"
  by (auto simp: binit_one_def)

lemma binit_loop:
  assumes "boot st"
  defines "s i \<equiv> foldl binit_one (st\<lparr>nochain := [], avl := []\<rparr>) [0..<i]"
  shows "avl (s i) = [0..<i] \<and> nochain (s i) = rev [0..<i] \<and> av_count (s i) = int i \<and> pending (s i) = [] \<and> basyncnt (s i) = 0 \<and>
    disk (s i) = disk st \<and> (\<forall>c<i. (\<forall>x. \<not> has (s i) c x) \<and> b_dev (bufs (s i) c) = NODEV)"
proof (induction i)
  case 0
  then show ?case using assms(1) by (simp add: s_def boot_def)
next
  case (Suc i)
  have "s (Suc i) = binit_one (s i) i" by (simp add: s_def)
  with Suc show ?case by (auto simp: binit_one_simps)
qed

lemma binit_ok:
  assumes "boot st"
  shows "cache_ok n hm (binit n st)" and "content hm (binit n st) = disk st"
proof -
  let ?s = "binit n st"
  let ?l = "foldl binit_one (st\<lparr>nochain := [], avl := []\<rparr>) [0..<n]"
  note l = binit_loop [OF assms, of n]
  have f: "bufs ?s = bufs ?l" "has ?s = has ?l" "avl ?s = [0..<n]" "nochain ?s = rev [0..<n]" "hchain ?s = (\<lambda>_. [])"
    "pending ?s = []" "av_count ?s = int n" "basyncnt ?s = 0" "disk ?s = disk st"
    using l by (simp_all add: binit_def)
  have flags: "c < n \<Longrightarrow> \<not> has ?s c x" "c < n \<Longrightarrow> b_dev (bufs ?s c) = NODEV" for c x using l by (simp_all add: f(1,2))
  have "free_ok n ?s" using flags(1) by (auto simp: free_ok_def f(3,7))
  moreover have "chains_ok n hm ?s" using flags(2) by (auto simp: chains_ok_def f(4,5))
  moreover have nf: "\<not> fresh n ?s c" for c using flags(2) by (auto simp: fresh_def)
  then have "uniq_ok n ?s" by (simp add: uniq_ok_def)
  moreover have "pend_ok n ?s" by (simp add: pend_ok_def f(6,8))
  moreover have "bufs_ok n ?s" using flags by (auto simp: bufs_ok_def buf_ok_def f(6))
  ultimately show ok: "cache_ok n hm ?s" by (simp add: cache_ok_def)
  show "content hm ?s = disk st" using content_dead [OF ok] nf by (auto simp: live_def f(9))
qed

section \<open>Runs\<close>

text \<open>
  A run of steps, with the writes to the memory it makes. The interface of the next lemma is any
  component whose steps keep an invariant and change an abstract memory by the writes they announce.
\<close>

inductive run :: "('e \<Rightarrow> 's \<Rightarrow> 's \<Rightarrow> bool) \<Rightarrow> ('s \<Rightarrow> 'e \<Rightarrow> ('k \<times> 'v) option) \<Rightarrow> 's \<Rightarrow> ('k \<times> 'v) option list \<Rightarrow> 's \<Rightarrow> bool"
  for step eff where
  stop: "run step eff s [] s"
| go: "\<lbrakk>step e s s1; run step eff s1 ws s2\<rbrakk> \<Longrightarrow> run step eff s (eff s e # ws) s2"

locale memory_steps =
  fixes step :: "'e \<Rightarrow> 's \<Rightarrow> 's \<Rightarrow> bool" and eff :: "'s \<Rightarrow> 'e \<Rightarrow> ('k \<times> 'v) option"
    and inv :: "'s \<Rightarrow> bool" and mem :: "'s \<Rightarrow> 'k \<Rightarrow> 'v"
  assumes step_inv: "\<lbrakk>step e s s'; inv s\<rbrakk> \<Longrightarrow> inv s'"
    and step_mem: "\<lbrakk>step e s s'; inv s\<rbrakk> \<Longrightarrow> mem s' = mem_write (eff s e) (mem s)"
begin

lemma run_mem: "run step eff s ws s' \<Longrightarrow> inv s \<Longrightarrow> inv s' \<and> mem s' = fold mem_write ws (mem s)"
proof (induction rule: run.induct)
  case (stop s)
  then show ?case by simp
next
  case (go e s s1 ws s2)
  then show ?case using step_inv [OF go(1,4)] step_mem [OF go(1,4)] by simp
qed

end

interpretation cache: memory_steps "bstep n hm swapdev" effect "cache_ok n hm" "content hm" for n hm swapdev
  by unfold_locales (use bstep_ok in blast)+

text \<open>The last write to a block, if there was one.\<close>

fun last_write :: "'k \<Rightarrow> ('k \<times> 'v) option list \<Rightarrow> 'v option" where
  "last_write k [] = None"
| "last_write k (w # ws) =
     (case last_write k ws of Some x \<Rightarrow> Some x
      | None \<Rightarrow> (case w of Some (k', x) \<Rightarrow> if k' = k then Some x else None | None \<Rightarrow> None))"

lemma fold_mem_write: "fold mem_write ws m k = (case last_write k ws of Some x \<Rightarrow> x | None \<Rightarrow> m k)"
  by (induction ws arbitrary: m) (auto split: option.splits)

lemma run_content:
  assumes "boot st" "run (bstep n hm swapdev) effect (binit n st) ws s"
  shows "cache_ok n hm s" and "content hm s k = (case last_write k ws of Some x \<Rightarrow> x | None \<Rightarrow> disk st k)"
  using cache.run_mem [OF assms(2) binit_ok(1) [OF assms(1)]] binit_ok(2) [OF assms(1), of hm n]
  by (simp_all add: fold_mem_write)

section \<open>Sync\<close>

definition at_rest :: "nat \<Rightarrow> 'd bcache \<Rightarrow> bool" where
  "at_rest n st \<longleftrightarrow> (\<forall>b. \<not> held n st b) \<and> (\<forall>b\<in>set (pending st). has st b B_ASYNC)"

definition settled :: "'d bcache \<Rightarrow> bool" where
  "settled st \<longleftrightarrow> (\<forall>b\<in>set (avl st). \<not> has st b B_DELWRI)"

lemma write_out_rest:
  assumes ok: "cache_ok n hm st" and b: "b \<in> set (avl st)" "has st b B_DELWRI" and r: "at_rest n st"
  shows "at_rest n (write_out b st)"
  using r write_out_ok(3) [OF ok b] by (auto simp: at_rest_def write_out_eq)

lemma flush_while_rest:
  assumes "cache_ok n hm st" "at_rest n st"
  shows "at_rest n (flush_while P st)"
  using assms
proof (induction P st rule: flush_while.induct)
  case (1 P st)
  show ?case
  proof (cases "find (\<lambda>b. has st b B_DELWRI \<and> P (bufs st b)) (avl st)")
    case None
    then show ?thesis using "1.prems" by (simp add: flush_while.simps [of P st])
  next
    case (Some b)
    then have b: "b \<in> set (avl st)" "has st b B_DELWRI" using find_SomeD [OF Some] by auto
    from "1.IH" [OF Some write_out_ok(1) [OF "1.prems"(1) b] write_out_rest [OF "1.prems"(1) b "1.prems"(2)]]
    show ?thesis by (simp add: flush_while.simps [of P st] Some)
  qed
qed

lemma io_end_rest:
  assumes ok: "cache_ok n hm st" and b: "b \<in> set (pending st)" and r: "at_rest n st" "settled st"
  shows "at_rest n (io_end b None st)" "settled (io_end b None st)" "pending (io_end b None st) = remove1 b (pending st)"
proof -
  note p = pending_buf [OF ok b] and others = only_at_same(3) [OF io_end_only [OF ok b]]
  note mb = moved_busy [OF ok b, where err = None]
  have a: "has st b B_ASYNC" using r(1) b by (simp add: at_rest_def)
  show pe: "pending (io_end b None st) = remove1 b (pending st)" by (simp add: io_end_eq mb)
  show "at_rest n (io_end b None st)"
    using r(1) a p(8) io_end_held [OF ok b, of None] by (auto simp: at_rest_def pe others)
  have "set (avl (io_end b None st)) \<subseteq> insert b (set (avl st))" by (auto simp: io_end_eq mb)
  moreover have "\<not> has (io_end b None st) b B_DELWRI" using p(6) a by (simp add: io_end_eq mb)
  ultimately show "settled (io_end b None st)" using r(2) others unfolding settled_def by (metis insertE subsetD)
qed

definition complete_all :: "'d bcache \<Rightarrow> 'd bcache" where
  "complete_all st = foldl (\<lambda>s b. io_end b None s) st (pending st)"

lemma complete_all_ok:
  assumes "cache_ok n hm st" "at_rest n st" "settled st"
  shows "cache_ok n hm (complete_all st) \<and> at_rest n (complete_all st) \<and> settled (complete_all st) \<and> pending (complete_all st) = []
    \<and> content hm (complete_all st) = content hm st"
proof -
  have "pending st = bs \<Longrightarrow> (let t = foldl (\<lambda>s b. io_end b None s) st bs in
      cache_ok n hm t \<and> at_rest n t \<and> settled t \<and> pending t = [] \<and> content hm t = content hm st)" for bs
    using assms
  proof (induction bs arbitrary: st)
    case Nil
    then show ?case by simp
  next
    case (Cons b bs)
    then have b: "b \<in> set (pending st)" by simp
    note one = io_end_ok [OF Cons.prems(2) b, of None] io_end_content [OF Cons.prems(2) b, of None] io_end_rest [OF Cons.prems(2) b Cons.prems(3,4)]
    have "pending (io_end b None st) = bs" using one Cons.prems(1) by simp
    from Cons.IH [OF this one(1,3,4)] one(2) show ?case by (simp add: Let_def)
  qed
  then show ?thesis by (simp add: complete_all_def Let_def)
qed

lemma settled_disk:
  assumes ok: "cache_ok n hm st" and r: "at_rest n st" "settled st" "pending st = []"
  shows "disk st = content hm st"
proof
  fix k
  show "disk st k = content hm st k"
  proof (cases "\<exists>b. live n st b \<and> bkey (bufs st b) = k")
    case True
    then obtain b where b: "live n st b" "bkey (bufs st b) = k" by blast
    then have n: "b < n" "\<not> has st b B_BUSY" using r(1,3) by (auto simp: live_def fresh_def at_rest_def held_def)
    then have "\<not> has st b B_DELWRI" using r(2) ok_free [OF ok] by (simp add: settled_def)
    with ok_buf [OF ok n(1)] n b r(3) have "b_data (bufs st b) = disk st k" by (auto simp: buf_ok_def live_def fresh_def valid_def)
    with content_live [OF ok b] show ?thesis by simp
  next
    case False
    with content_dead [OF ok, of k] show ?thesis by auto
  qed
qed

text \<open>A pool of two buffers: block 5 of device 0 is read, changed, and read again after a delayed write.\<close>

definition demo_boot :: "nat bcache" where
  "demo_boot =
     \<lparr>bufs = (\<lambda>_. \<lparr>b_flags = {}, b_dev = 0, b_blkno = 0, b_bcount = 0, b_error = 0, b_resid = 0, b_start = 0, b_data = 0\<rparr>),
      avl = [], av_count = 0, av_wanted = False, hchain = (\<lambda>_. []), nochain = [], pending = [], disk = (\<lambda>_. 3),
      basyncnt = 0, basynwait = False, lbolt = 0, bu_error = 0, bwoken = [],
      st_lread = 0, st_bread = 0, st_lwrite = 0, st_bwrite = 0, u_ior = 0, u_iow = 0\<rparr>"

definition demo_read :: "nat bcache" where "demo_read = io_end 0 None (fst (bread 1 0 5 (binit 2 demo_boot)))"
definition demo_store :: "nat bcache" where "demo_store = store 0 7 demo_read"
definition demo_delayed :: "nat bcache" where "demo_delayed = bdwrite 0 demo_store"

lemma demo_boot: "boot demo_boot"
  by (simp add: boot_def demo_boot_def)

lemma demo_facts:
  "0 \<in> set (pending (fst (bread 1 0 5 (binit 2 demo_boot))))" "held 2 demo_read 0" "held 2 demo_store 0"
  "effect demo_read (Store 0 (7::nat)) = Some ((0, 5), 7)" "effect demo_store (DWrite 0) = Some ((0, 5), 7)"
  "effect (fst (bread 1 0 5 (binit 2 demo_boot))) (Complete 0 None) = None"
  "b_dev (bufs demo_store 0) = 0" "has demo_store 0 B_DONE" "\<not> has demo_store 0 B_ERROR" "bkey (bufs demo_store 0) = (0, 5)"
  by code_simp+

lemma demo_run: "run (bstep 2 1 9) effect (binit 2 demo_boot) [None, None, Some ((0, 5), 7), Some ((0, 5), 7)] demo_delayed"
    "run (bstep 2 1 9) effect (binit 2 demo_boot) [None, None, Some ((0, 5), 7)] demo_store"
proof -
  let ?s0 = "binit 2 demo_boot"
  have s1: "bstep 2 1 9 (Read 0 5) ?s0 (fst (bread 1 0 5 ?s0))" by (rule bstep.read) simp
  have s2: "bstep 2 1 9 (Complete 0 None) (fst (bread 1 0 5 ?s0)) demo_read"
    unfolding demo_read_def by (rule bstep.complete) (rule demo_facts)
  have s3: "bstep 2 1 9 (Store 0 7) demo_read demo_store"
    unfolding demo_store_def by (rule bstep.store) (rule demo_facts)
  have s4: "bstep 2 1 9 (DWrite 0) demo_store demo_delayed"
    unfolding demo_delayed_def by (rule bstep.dwrite) (simp_all add: demo_facts)
  note e = effect.simps(6) demo_facts(4-6)
  have e1: "effect ?s0 (Read 0 5) = None" by simp
  show "run (bstep 2 1 9) effect ?s0 [None, None, Some ((0, 5), 7)] demo_store"
    using run.go [where step = "bstep 2 1 9" and eff = effect, OF s1, unfolded e1, OF run.go [where step = "bstep 2 1 9" and eff = effect, OF s2, unfolded demo_facts,
       OF run.go [where step = "bstep 2 1 9" and eff = effect, OF s3, unfolded demo_facts, OF run.stop]]] .
  show "run (bstep 2 1 9) effect ?s0 [None, None, Some ((0, 5), 7), Some ((0, 5), 7)] demo_delayed"
    using run.go [where step = "bstep 2 1 9" and eff = effect, OF s1, unfolded e1, OF run.go [where step = "bstep 2 1 9" and eff = effect, OF s2, unfolded demo_facts,
       OF run.go [where step = "bstep 2 1 9" and eff = effect, OF s3, unfolded demo_facts, OF run.go [where step = "bstep 2 1 9" and eff = effect, OF s4, unfolded demo_facts, OF run.stop]]]] .
qed

lemma demo_got: "snd (getblk 1 0 5 demo_delayed) = Got 0"
  and demo_bread: "snd (bread 1 0 5 demo_delayed) = Got 0"
  and demo_rest: "pending demo_delayed = []" "\<not> has demo_delayed 0 B_BUSY" "\<not> has demo_delayed 1 B_BUSY"
  by code_simp+

section \<open>Properties\<close>

text \<open>
  C26: After any run of calls that keep to these rules, and of completed transfers, from the pool \<^verbatim>\<open>binit\<close> has set up, a buffer that
  a process holds and whose transfer has succeeded contains what was last written to its block, by a store
  into a buffer of the block or a write, or what the disk held at the start; a write that failed counts as
  one of what is still on the disk.
\<close>

theorem cache_coherent:
  assumes "boot st" "run (bstep n hm swapdev) effect (binit n st) ws s"
    and "held n s b" "has s b B_DONE" "\<not> has s b B_ERROR" "b_dev (bufs s b) \<noteq> NODEV"
  shows "b_data (bufs s b) = (case last_write (bkey (bufs s b)) ws of Some x \<Rightarrow> x | None \<Rightarrow> disk st (bkey (bufs s b)))"
proof -
  note r = run_content [OF assms(1,2)]
  from held_live [OF r(1) assms(3,6,4,5)] show ?thesis by (simp add: r(2))
qed

lemma cache_coherent_witness: "b_data (bufs demo_store 0) = 7"
  using cache_coherent [OF demo_boot demo_run(2) demo_facts(3) demo_facts(8,9)] demo_facts(7,10) by simp

text \<open>
  C27: \<^verbatim>\<open>getblk\<close> returns a buffer no process held, now held, for the block asked for, and leaves the busy
  buffers alone. It sleeps on a buffer only if that buffer is the block's and busy, and on the free list only if that
  is empty; then a wakeup is requested. While a process holds the block's buffer, no other gets one.
\<close>

theorem getblk_excludes:
  assumes "boot st" "run (bstep n hm swapdev) effect (binit n st) ws s" "dev \<noteq> NODEV" "getblk hm dev blkno s = (s', r)"
  shows "others_kept n s s' \<and>
    (case r of
       Got b \<Rightarrow> \<not> held n s b \<and> held n s' b \<and> bkey (bufs s' b) = (dev, fsLTOP (fsLRG dev) blkno) \<and>
         (\<forall>c. held n s c \<and> bkey (bufs s c) = (dev, fsLTOP (fsLRG dev) blkno) \<longrightarrow> has s c B_STALE)
     | Slept (ChBuf b) \<Rightarrow> fresh n s b \<and> has s b B_BUSY \<and> bkey (bufs s b) = (dev, fsLTOP (fsLRG dev) blkno) \<and> has s' b B_WANTED
     | Slept ChFree \<Rightarrow> avl s' = [] \<and> av_wanted s'
     | _ \<Rightarrow> False)"
proof -
  note ok = run_content(1) [OF assms(1,2)]
  note g = getblk_loop_ok [OF ok assms(3) assms(4) [unfolded getblk_def]]
  have "has s c B_STALE" if "r = Got b" "held n s c" "bkey (bufs s c) = (dev, fsLTOP (fsLRG dev) blkno)" for b c
  proof (rule ccontr)
    assume "\<not> has s c B_STALE"
    with that assms(3) have fr: "fresh n s c" by (auto simp: fresh_def held_def bkey_def)
    then have "lookup hm dev (fsLTOP (fsLRG dev) blkno) s = Some c" using lookup_Some [OF ok] that by blast
    then have "r = Slept (ChBuf c)" using assms(4) that(2) by (simp add: getblk_def getblk_loop.simps [of hm dev] held_def)
    with that show False by simp
  qed
  with g show ?thesis by (auto simp: get_post_def got_def split: bget.splits bchan.splits)
qed

lemma getblk_excludes_witness: "\<exists>s' b. getblk 1 0 5 demo_delayed = (s', Got b) \<and> held 2 s' b \<and> bkey (bufs s' b) = (0, 5)"
proof -
  obtain s' r where g: "getblk 1 0 5 demo_delayed = (s', r)" by (cases "getblk 1 0 5 demo_delayed") auto
  have "r = Got 0" using demo_got g by simp
  with getblk_excludes [OF demo_boot demo_run(1) _ g] g show ?thesis by (auto simp: fsLTOP_def fsLRG_def)
qed

text \<open>
  \<^verbatim>\<open>bread\<close> returns a buffer of the block, held, with the block's content at the time, or has started
  one synchronous read of it, or sleeps in \<^verbatim>\<open>getblk\<close>; no block's content changes.
\<close>

theorem bread_content:
  assumes "boot st" "run (bstep n hm swapdev) effect (binit n st) ws s" "dev \<noteq> NODEV" "bread hm dev blkno s = (s', r)"
  defines "k \<equiv> (dev, fsLTOP (fsLRG dev) blkno)"
  shows "content hm s' = content hm s \<and>
    (case r of
       Got b \<Rightarrow> held n s' b \<and> bkey (bufs s' b) = k \<and> b_data (bufs s' b) = (case last_write k ws of Some x \<Rightarrow> x | None \<Rightarrow> disk st k)
     | IoWait b \<Rightarrow> b \<in> set (pending s') \<and> has s' b B_READ \<and> \<not> has s' b B_ASYNC \<and> bkey (bufs s' b) = k
     | Slept c \<Rightarrow> held n s' = held n s)"
proof -
  let ?s = "s\<lparr>st_lread := st_lread s + 1\<rparr>"
  note run = run_content [OF assms(1,2)]
  note c = ok_cong [of ?s s]
  have ok: "cache_ok n hm ?s" using run(1) c by simp
  note b = bread_get_ok [OF ok assms(3) assms(4) [unfolded bread_def], folded k_def]
  have "content hm ?s = content hm s" "held n ?s = held n s" using c by simp_all
  with b show ?thesis
    using run(2) [of k] by (auto simp: read_post_def got_def get_post_def split: bget.splits bchan.splits)
qed

lemma bread_content_witness: "\<exists>s'. bread 1 0 5 demo_delayed = (s', Got 0) \<and> b_data (bufs s' 0) = 7"
proof -
  obtain s' r where g: "bread 1 0 5 demo_delayed = (s', r)" by (cases "bread 1 0 5 demo_delayed") auto
  have "r = Got 0" using demo_bread g by simp
  with bread_content [OF demo_boot demo_run(1) _ g] g show ?thesis by (auto simp: fsLTOP_def fsLRG_def)
qed

text \<open>
  C28: After such a run, and when no process holds a buffer, flushing all devices and completing the requests that are then
  with the drivers puts the content of every block on the disk: the last write to it. No asynchronous write is
  left, so \<^verbatim>\<open>bdwait\<close> returns.
\<close>

theorem sync_to_disk:
  assumes "boot st" "run (bstep n hm swapdev) effect (binit n st) ws s" "at_rest n s"
  defines "t \<equiv> complete_all (bflush NODEV s)"
  shows "disk t k = (case last_write k ws of Some x \<Rightarrow> x | None \<Rightarrow> disk st k) \<and> pending t = [] \<and> bdwait t = (t, None)"
proof -
  note run = run_content [OF assms(1,2)]
  note f = flush_while_ok [OF run(1), of "\<lambda>p. True"] flush_while_rest [OF run(1) assms(3), of "\<lambda>p. True"]
  have e: "bflush NODEV s = flush_while (\<lambda>p. True) s" by (simp add: bflush_def)
  have "settled (bflush NODEV s)"
    unfolding settled_def e using flush_while_done [of _ "\<lambda>p. True" s] by blast
  then have c: "cache_ok n hm t \<and> at_rest n t \<and> settled t \<and> pending t = [] \<and> content hm t = content hm s"
    using complete_all_ok [of n hm "bflush NODEV s"] f unfolding t_def e by simp
  then have "basyncnt t = 0" by (auto simp: cache_ok_def pend_ok_def)
  with c settled_disk [of n hm t] show ?thesis by (simp add: run(2) bdwait_def)
qed

lemma sync_to_disk_witness: "disk (complete_all (bflush NODEV demo_delayed)) (0, 5) = 7"
proof -
  have "\<not> held 2 demo_delayed b" for b
  proof
    assume h: "held 2 demo_delayed b"
    then consider "b = 0" | "b = 1" by (auto simp: held_def dest: less_2_cases)
    then show False using h demo_rest by cases (simp_all add: held_def)
  qed
  then have "at_rest 2 demo_delayed" using demo_rest(1) by (simp add: at_rest_def)
  from sync_to_disk [OF demo_boot demo_run(1) this, of "(0, 5)"] show ?thesis by simp
qed

end
