(* ===== verification/Swap_Alloc.thy ===== *)
theory Swap_Alloc
  imports Kernel_Prelude
begin

text \<open>
  Swap space (\<^verbatim>\<open>sys/os/swapalloc.c\<close>, \<^verbatim>\<open>sys/swap.h\<close>): a table of swap files, each with an array of use
  counts, one byte per page. Pointers into the array are page numbers. The regions' pages that
  \<^verbatim>\<open>getswap\<close> reads in, \<^verbatim>\<open>swapclup\<close>, the driver's open routine, \<^verbatim>\<open>sptalloc\<close> and the swap server of a diskless
  node are outside the component; what they answer is an argument. \<^verbatim>\<open>ASSERT\<close> is empty in this
  configuration.
\<close>

section \<open>State\<close>

record swpt =
  st_dev :: int
  st_indel :: bool             \<comment> \<open>ST_INDEL of st_flags\<close>
  st_ucnt :: "u8 list option"  \<comment> \<open>None is the null pointer\<close>
  st_last :: nat
  st_swplo :: int
  st_npgs :: int
  st_nfpgs :: int

datatype dbdtype = DBD_NONE | DBD_SWAP | DBD_DZERO | DBD_DFILL | DBD_FILE | DBD_PHYS

record dbd =
  dbd_type :: dbdtype
  dbd_swpi :: nat
  dbd_blkno :: int

record swsys =
  swaptab :: "swpt list"
  nextswap :: nat
  swapwant :: int
  availsmem :: int
  comswapsmi :: int
  ownswap :: bool
  swapdev :: int
  t_minasmem :: int
  sw_error :: "errno option"
  sw_wakeups :: nat
  dl_freed :: "dbd list"       \<comment> \<open>pages given back to the swap server\<close>

abbreviation (input) MSFILES :: nat where "MSFILES \<equiv> 16"
abbreviation (input) MAXSUSE :: nat where "MAXSUSE \<equiv> 255"
abbreviation (input) DPPSHFT :: nat where "DPPSHFT \<equiv> 3"

definition upd_ent :: "nat \<Rightarrow> (swpt \<Rightarrow> swpt) \<Rightarrow> swsys \<Rightarrow> swsys" where
  "upd_ent smi f st = st\<lparr>swaptab := (swaptab st)[smi := f (swaptab st ! smi)]\<rparr>"

definition counts :: "swpt \<Rightarrow> u8 list" where
  "counts e = the (st_ucnt e)"

section \<open>Finding free pages\<close>

text \<open>The inner loop, from page \<open>p\<close> with \<open>i\<close> pages found: \<open>Inl\<close> the page in use, or \<open>Inr\<close> the page after the run.\<close>

function sw_inner :: "u8 list \<Rightarrow> nat \<Rightarrow> nat \<Rightarrow> nat \<Rightarrow> nat + nat" where
  "sw_inner u sz i p = (if i < sz then if u ! p \<noteq> 0 then Inl p else sw_inner u sz (Suc i) (Suc p) else Inr p)"
  by pat_completeness auto
termination
  by (relation "measure (\<lambda>(u, sz, i, p). sz - i)") auto

declare sw_inner.simps [simp del]

lemma sw_inner_ge: "sw_inner u sz i p = Inl q \<Longrightarrow> p \<le> q"
proof (induction u sz i p rule: sw_inner.induct)
  case (1 u sz i p)
  from 1(2) show ?case
    using 1(1) by (subst (asm) sw_inner.simps) (auto split: if_splits)
qed

text \<open>The outer loop, up to page \<open>e\<close>: the first page of the run and the page after it.\<close>

function sw_scan :: "u8 list \<Rightarrow> nat \<Rightarrow> int \<Rightarrow> nat \<Rightarrow> (nat \<times> nat) option" where
  "sw_scan u sz e p =
     (if int p \<le> e then
        if u ! p = 0 then
          case sw_inner u sz 1 (Suc p) of
            Inr q \<Rightarrow> Some (p, q)
          | Inl q \<Rightarrow> sw_scan u sz e (Suc q)
        else sw_scan u sz e (Suc p)
      else None)"
  by pat_completeness auto
termination
  by (relation "measure (\<lambda>(u, sz, e, p). nat (e + 1 - int p))") (auto dest: sw_inner_ge)

declare sw_scan.simps [simp del]

definition swapfind :: "(nat \<Rightarrow> int) \<Rightarrow> nat \<Rightarrow> nat \<Rightarrow> swsys \<Rightarrow> swsys \<times> int" where
  "swapfind dl smi sz st =
     (if int smi = comswapsmi st \<and> \<not> ownswap st then (st, dl sz)
      else let ent = swaptab st ! smi; u = counts ent in
        case sw_scan u sz (st_npgs ent - int sz) (st_last ent) of
          Some (b, p) \<Rightarrow> (upd_ent smi (st_last_update (\<lambda>_. p)) st, int b + 1)
        | None \<Rightarrow>
            (case sw_scan u sz (int (st_last ent) - int sz) 0 of
               Some (b, p) \<Rightarrow> (upd_ent smi (st_last_update (\<lambda>_. p)) st, int b + 1)
             | None \<Rightarrow> (st, 0)))"

section \<open>Allocating and freeing\<close>

text \<open>The search of the table from \<^verbatim>\<open>nextswap\<close> round to it: \<open>k\<close> entries are left.\<close>

fun sw_search :: "(nat \<Rightarrow> int) \<Rightarrow> nat \<Rightarrow> nat \<Rightarrow> nat \<Rightarrow> swsys \<Rightarrow> swsys \<times> (nat \<times> int) option" where
  "sw_search dl sz 0 smi st = (st, None)"
| "sw_search dl sz (Suc k) smi st =
     (if st_ucnt (swaptab st ! smi) = None \<or> st_indel (swaptab st ! smi)
      then sw_search dl sz k ((smi + 1) mod MSFILES) st
      else case swapfind dl smi sz st of
        (st1, pg) \<Rightarrow> if pg \<noteq> 0 then (st1, Some (smi, pg)) else sw_search dl sz k ((smi + 1) mod MSFILES) st1)"

text \<open>One page: its use count and its block descriptor.\<close>

definition sw_page :: "nat \<Rightarrow> nat \<Rightarrow> int \<Rightarrow> swsys \<times> dbd list \<Rightarrow> nat \<Rightarrow> swsys \<times> dbd list" where
  "sw_page smi pg blk r i =
     (case r of (st, ds) \<Rightarrow>
        (upd_ent smi (\<lambda>e. e\<lparr>st_ucnt := map_option (\<lambda>u. u[pg + i := 1]) (st_ucnt e)\<rparr>) st,
         ds @ [\<lparr>dbd_type = DBD_SWAP, dbd_swpi = smi, dbd_blkno = take_bit 24 (blk + push_bit DPPSHFT (int i))\<rparr>]))"

definition swalloc_take :: "nat \<Rightarrow> nat \<Rightarrow> int \<Rightarrow> swsys \<Rightarrow> swsys \<times> int \<times> dbd list" where
  "swalloc_take sz smi swappg st =
     (let pg = swappg - 1;
          blk = st_swplo (swaptab st ! smi) + push_bit DPPSHFT pg;
          st1 = upd_ent smi (\<lambda>e. e\<lparr>st_nfpgs := st_nfpgs e - int sz\<rparr>) st;
          st2 = st1\<lparr>nextswap := (smi + 1) mod MSFILES\<rparr>
      in case foldl (sw_page smi (nat pg) blk) (st2, []) [0..<sz] of (st3, ds) \<Rightarrow> (st3, blk, ds))"

text \<open>
  One round of \<^verbatim>\<open>swalloc\<close>: the block number and the descriptors. When there is no space, the call goes on
  with \<open>swalloc_none\<close>, and tries again if that says so, or once awakened.
\<close>

definition swalloc :: "(nat \<Rightarrow> int) \<Rightarrow> nat \<Rightarrow> swsys \<Rightarrow> swsys \<times> (int \<times> dbd list) option" where
  "swalloc dl sz st =
     (case sw_search dl sz MSFILES (nextswap st) st of
        (st1, Some (smi, pg)) \<Rightarrow> (case swalloc_take sz smi pg st1 of (st2, r) \<Rightarrow> (st2, Some r))
      | (st1, None) \<Rightarrow> (st1, None))"

datatype sw_after = Again | Asleep

definition swalloc_none :: "bool \<Rightarrow> swsys \<Rightarrow> swsys \<times> sw_after" where
  "swalloc_none cleaned st = (if cleaned then (st, Again) else (st\<lparr>swapwant := swapwant st + 1\<rparr>, Asleep))"

definition sw_pgnbr :: "dbd \<Rightarrow> swsys \<Rightarrow> nat" where
  "sw_pgnbr d st = nat (drop_bit DPPSHFT (dbd_blkno d - st_swplo (swaptab st ! dbd_swpi d)))"

definition set_count :: "nat \<Rightarrow> nat \<Rightarrow> u8 \<Rightarrow> swsys \<Rightarrow> swsys" where
  "set_count smi pg c = upd_ent smi (\<lambda>e. e\<lparr>st_ucnt := map_option (\<lambda>u. u[pg := c]) (st_ucnt e)\<rparr>)"

definition sw_wake :: "swsys \<Rightarrow> swsys" where
  "sw_wake st = (if swapwant st \<noteq> 0 then st\<lparr>swapwant := 0, sw_wakeups := sw_wakeups st + 1\<rparr> else st)"

definition swpuse :: "dbd \<Rightarrow> swsys \<Rightarrow> u8" where
  "swpuse d st = counts (swaptab st ! dbd_swpi d) ! sw_pgnbr d st"

definition swfree1 :: "dbd \<Rightarrow> swsys \<Rightarrow> swsys \<times> int" where
  "swfree1 d st =
     (let swpi = dbd_swpi d; c = swpuse d st - 1;
          st1 = set_count swpi (sw_pgnbr d st) c st
      in if c = 0 then
           let st2 = sw_wake (upd_ent swpi (\<lambda>e. e\<lparr>st_nfpgs := st_nfpgs e + 1\<rparr>) st1);
               st3 = (if comswapsmi st2 = int swpi \<and> \<not> ownswap st2 then st2\<lparr>dl_freed := dl_freed st2 @ [d]\<rparr> else st2)
           in (st3, 0)
         else (st1, uint c))"

definition swpinc :: "dbd \<Rightarrow> swsys \<Rightarrow> swsys \<times> int" where
  "swpinc d st =
     (if unat (swpuse d st) \<ge> MAXSUSE then (st, 0)
      else (set_count (dbd_swpi d) (sw_pgnbr d st) (swpuse d st + 1) st, 1))"

section \<open>Adding and deleting swap files\<close>

text \<open>The search of the table: \<open>Inl\<close> the entry with the same device and first block, or the end.\<close>

fun add_scan :: "int \<Rightarrow> int \<Rightarrow> swpt list \<Rightarrow> nat \<Rightarrow> int \<Rightarrow> (nat \<times> int) + int" where
  "add_scan dev low [] i smi = Inr smi"
| "add_scan dev low (e # es) i smi =
     (if st_ucnt e = None then add_scan dev low es (Suc i) (if smi = - 1 then int i else smi)
      else if st_dev e = dev \<and> st_swplo e = low then Inl (i, smi)
      else add_scan dev low es (Suc i) smi)"

text \<open>\<open>opn\<close> is the error of the driver's open routine, \<open>mem\<close> whether \<^verbatim>\<open>sptalloc\<close> has space.\<close>

definition swapadd_new :: "errno option \<Rightarrow> bool \<Rightarrow> int \<Rightarrow> int \<Rightarrow> int \<Rightarrow> nat \<Rightarrow> swsys \<Rightarrow> swsys \<times> int" where
  "swapadd_new opn mem dev low nblks smi st =
     (case opn of
        Some e \<Rightarrow> (upd_ent smi (\<lambda>e. e\<lparr>st_ucnt := None, st_indel := False\<rparr>) (st\<lparr>sw_error := Some e\<rparr>), - 1)
      | None \<Rightarrow>
          let npgs = drop_bit DPPSHFT nblks;
              st1 = upd_ent smi (\<lambda>e. e\<lparr>st_dev := dev, st_swplo := low, st_npgs := npgs, st_nfpgs := npgs,
                      st_ucnt := (if mem then Some (replicate (nat npgs) 0) else None), st_last := 0\<rparr>) (st\<lparr>sw_error := None\<rparr>);
              st2 = (if dev \<noteq> swapdev st1 then st1\<lparr>availsmem := availsmem st1 + npgs\<rparr> else st1)
          in (sw_wake (upd_ent smi (\<lambda>e. e\<lparr>st_indel := False\<rparr>) st2), int smi))"

definition swapadd :: "errno option \<Rightarrow> bool \<Rightarrow> int \<Rightarrow> int \<Rightarrow> int \<Rightarrow> swsys \<Rightarrow> swsys \<times> int" where
  "swapadd opn mem dev low nblks st =
     (case add_scan dev low (swaptab st) 0 (- 1) of
        Inl (i, smi) \<Rightarrow>
          let e = swaptab st ! i in
          if st_indel e \<and> st_npgs e = drop_bit DPPSHFT nblks then
            (let st1 = upd_ent i (\<lambda>e. e\<lparr>st_indel := False\<rparr>) st in
             (if swapdev st1 \<noteq> dev then st1\<lparr>availsmem := availsmem st1 + st_npgs e\<rparr> else st1, smi))
          else (st\<lparr>sw_error := Some EEXIST\<rparr>, - 1)
      | Inr smi \<Rightarrow>
          if smi < 0 then (st\<lparr>sw_error := Some ENOSPC\<rparr>, - 1)
          else swapadd_new opn mem dev low nblks (nat smi) st)"

text \<open>The entry to delete, and how many others are in use.\<close>

fun del_scan :: "int \<Rightarrow> int \<Rightarrow> swpt list \<Rightarrow> nat \<Rightarrow> int \<Rightarrow> nat \<Rightarrow> int \<times> nat" where
  "del_scan dev low [] i smi ok = (smi, ok)"
| "del_scan dev low (e # es) i smi ok =
     (if st_ucnt e = None then del_scan dev low es (Suc i) smi ok
      else if st_dev e = dev \<and> st_swplo e = low then del_scan dev low es (Suc i) (int i) ok
      else del_scan dev low es (Suc i) smi (if st_indel e then ok else Suc ok))"

definition swaprem :: "nat \<Rightarrow> swsys \<Rightarrow> swsys" where
  "swaprem smi st = upd_ent smi (\<lambda>e. e\<lparr>st_ucnt := None\<rparr>) st"

text \<open>\<open>gs\<close> is \<^verbatim>\<open>getswap\<close>.\<close>

definition swapdel_end :: "(nat \<Rightarrow> swsys \<Rightarrow> swsys) \<Rightarrow> nat \<Rightarrow> swsys \<Rightarrow> swsys \<times> int" where
  "swapdel_end gs smi st =
     (let e = swaptab st ! smi;
          st1 = (if st_nfpgs e < st_npgs e then gs smi st else st);
          e1 = swaptab st1 ! smi
      in (if st_nfpgs e1 = st_npgs e1 then swaprem smi st1 else st1, int smi))"

definition swapdel :: "(nat \<Rightarrow> swsys \<Rightarrow> swsys) \<Rightarrow> int \<Rightarrow> int \<Rightarrow> swsys \<Rightarrow> swsys \<times> int" where
  "swapdel gs dev low st =
     (case del_scan dev low (swaptab st) 0 (- 1) 0 of
        (smi, ok) \<Rightarrow>
          if smi < 0 then (st\<lparr>sw_error := Some EINVAL\<rparr>, - 1)
          else if ok = 0 then (st\<lparr>sw_error := Some ENOMEM\<rparr>, - 1)
          else let e = swaptab st ! nat smi in
            if st_indel e then swapdel_end gs (nat smi) st
            else if availsmem st - st_npgs e < t_minasmem st then (st\<lparr>sw_error := Some ENOMEM\<rparr>, - 1)
            else swapdel_end gs (nat smi) (upd_ent (nat smi) (\<lambda>e. e\<lparr>st_indel := True\<rparr>) (st\<lparr>availsmem := availsmem st - st_npgs e\<rparr>)))"

section \<open>Scanning\<close>

definition free_run :: "u8 list \<Rightarrow> nat \<Rightarrow> nat \<Rightarrow> bool" where
  "free_run u sz p \<longleftrightarrow> (\<forall>i < sz. u ! (p + i) = 0)"

lemma sw_inner_spec:
  assumes "i \<le> sz"
  shows "case sw_inner u sz i p of
      Inr q \<Rightarrow> q = p + (sz - i) \<and> (\<forall>j < sz - i. u ! (p + j) = 0)
    | Inl q \<Rightarrow> p \<le> q \<and> q < p + (sz - i) \<and> u ! q \<noteq> 0"
  using assms
proof (induction u sz i p rule: sw_inner.induct)
  case (1 u sz i p)
  show ?case
  proof (cases "i < sz \<and> u ! p = 0")
    case True
    then have e: "sw_inner u sz i p = sw_inner u sz (Suc i) (Suc p)" by (subst sw_inner.simps) simp
    have "\<forall>j < sz - i. u ! (p + j) = 0" if "\<forall>j < sz - Suc i. u ! (Suc p + j) = 0"
    proof (intro allI impI)
      fix j assume "j < sz - i"
      with that True show "u ! (p + j) = 0" by (cases j) auto
    qed
    with "1.IH" True show ?thesis unfolding e by (auto split: sum.splits)
  next
    case False
    with "1.prems" show ?thesis by (subst sw_inner.simps) auto
  qed
qed

text \<open>The scan finds the first free run that begins between \<open>p\<close> and \<open>e\<close>.\<close>

lemma sw_scan_spec:
  assumes "0 < sz"
  shows "case sw_scan u sz e p of
      Some (b, q) \<Rightarrow> p \<le> b \<and> int b \<le> e \<and> q = b + sz \<and> free_run u sz b \<and> (\<forall>a. p \<le> a \<and> a < b \<longrightarrow> \<not> free_run u sz a)
    | None \<Rightarrow> (\<forall>a. p \<le> a \<and> int a \<le> e \<longrightarrow> \<not> free_run u sz a)"
  using assms
proof (induction u sz e p rule: sw_scan.induct)
  case (1 u sz e p)
  consider "\<not> int p \<le> e" | "int p \<le> e" "u ! p \<noteq> 0" | q where "int p \<le> e" "u ! p = 0" "sw_inner u sz 1 (Suc p) = Inl q"
    | q where "int p \<le> e" "u ! p = 0" "sw_inner u sz 1 (Suc p) = Inr q"
    by (cases "sw_inner u sz 1 (Suc p)") auto
  then show ?case
  proof cases
    case 1
    then show ?thesis by (subst sw_scan.simps) auto
  next
    case 2
    then have e: "sw_scan u sz e p = sw_scan u sz e (Suc p)" by (subst sw_scan.simps) simp
    have "\<not> free_run u sz p" using 2 "1.prems" by (auto simp: free_run_def)
    then have "\<not> free_run u sz a" if "p \<le> a" "Suc p \<le> a \<Longrightarrow> \<not> free_run u sz a" for a using that by (cases "a = p") auto
    with "1.IH"(2) [OF 2] "1.prems" show ?thesis unfolding e by (fastforce split: option.splits)
  next
    case (3 q)
    then have e: "sw_scan u sz e p = sw_scan u sz e (Suc q)" by (subst sw_scan.simps) simp
    have q: "Suc p \<le> q" "q < p + sz" "u ! q \<noteq> 0" using sw_inner_spec [where i = 1 and sz = sz and u = u and p = "Suc p"] 3 "1.prems" by auto
    have "\<not> free_run u sz a" if "p \<le> a" "a \<le> q" for a
    proof
      assume "free_run u sz a"
      moreover have "q - a < sz" "a + (q - a) = q" using that q by auto
      ultimately have "u ! q = 0" unfolding free_run_def by metis
      with q(3) show False by simp
    qed
    then have "\<not> free_run u sz a" if "p \<le> a" "Suc q \<le> a \<Longrightarrow> \<not> free_run u sz a" for a using that by (cases "a \<le> q") auto
    with "1.IH"(1) [OF 3(1,2) 3(3)] "1.prems" q(1) show ?thesis unfolding e by (fastforce split: option.splits)
  next
    case (4 q)
    then have e: "sw_scan u sz e p = Some (p, q)" by (subst sw_scan.simps) simp
    have q: "q = p + sz" "\<forall>j < sz - 1. u ! (Suc p + j) = 0" using sw_inner_spec [where i = 1 and sz = sz and u = u and p = "Suc p"] 4 "1.prems" by auto
    have "u ! (p + i) = 0" if "i < sz" for i using that 4(2) q(2) by (cases i) auto
    with q(1) 4(1) show ?thesis unfolding e by (auto simp: free_run_def)
  qed
qed

lemma find_first: "\<lbrakk>p \<le> b; b < m; P b; \<forall>a. p \<le> a \<and> a < b \<longrightarrow> \<not> P a\<rbrakk> \<Longrightarrow> find P [p..<m] = Some (b :: nat)"
proof (induction "m - p" arbitrary: p)
  case 0
  then show ?case by simp
next
  case (Suc k)
  then have "[p..<m] = p # [Suc p..<m]" by (simp add: upt_conv_Cons)
  moreover have "find P [Suc p..<m] = Some b" if "p \<noteq> b"
    using that Suc by (intro Suc.hyps(1)) auto
  ultimately show ?case using Suc.prems by (cases "p = b") auto
qed

lemma sw_scan_find:
  assumes "0 < sz"
  shows "sw_scan u sz e p = map_option (\<lambda>b. (b, b + sz)) (find (free_run u sz) [p..<nat (e + 1)])"
proof (cases "sw_scan u sz e p")
  case None
  with sw_scan_spec [OF assms, where u = u and e = e and p = p] have "\<not> free_run u sz a" if "a \<in> set [p..<nat (e + 1)]" for a using that by auto
  with None show ?thesis by (auto simp: find_None_iff)
next
  case (Some r)
  obtain b q where r: "r = (b, q)" by (cases r) auto
  with Some sw_scan_spec [OF assms, where u = u and e = e and p = p]
  have "p \<le> b" "int b \<le> e" "q = b + sz" "free_run u sz b" "\<forall>a. p \<le> a \<and> a < b \<longrightarrow> \<not> free_run u sz a" by auto
  then show ?thesis using Some r find_first [of p b "nat (e + 1)" "free_run u sz"] by simp
qed

section \<open>The invariant\<close>

definition zeros :: "u8 list \<Rightarrow> nat" where
  "zeros u = length (filter (\<lambda>c. c = 0) u)"

definition ent_ok :: "swpt \<Rightarrow> bool" where
  "ent_ok e \<longleftrightarrow> (case st_ucnt e of None \<Rightarrow> True
     | Some u \<Rightarrow> st_npgs e = int (length u) \<and> st_nfpgs e = int (zeros u) \<and> st_last e \<le> length u \<and>
         0 \<le> st_swplo e \<and> st_swplo e + 8 * st_npgs e \<le> 2 ^ 24)"

definition sw_ok :: "swsys \<Rightarrow> bool" where
  "sw_ok st \<longleftrightarrow> length (swaptab st) = MSFILES \<and> nextswap st < MSFILES \<and> (\<forall>e\<in>set (swaptab st). ent_ok e)"

text \<open>The first pages a request is tried at, in the order of the two loops.\<close>

definition sw_order :: "swpt \<Rightarrow> nat \<Rightarrow> nat list" where
  "sw_order e sz = [st_last e..<nat (st_npgs e - int sz + 1)] @ [0..<nat (int (st_last e) - int sz + 1)]"

lemma swapfind_find:
  assumes "ownswap st" "0 < sz"
  shows "swapfind dl smi sz st =
     (case find (free_run (counts (swaptab st ! smi)) sz) (sw_order (swaptab st ! smi) sz) of
        None \<Rightarrow> (st, 0)
      | Some b \<Rightarrow> (upd_ent smi (st_last_update (\<lambda>_. b + sz)) st, int b + 1))"
  using assms by (simp add: swapfind_def Let_def sw_scan_find sw_order_def find_append split: option.split)

lemma find_order:
  assumes "find P (sw_order e sz) = Some b" "ent_ok e" "st_ucnt e = Some u"
  shows "b + sz \<le> length u \<and> P b"
  using find_SomeD [OF assms(1)] assms(2,3) by (auto simp: sw_order_def ent_ok_def)

lemma upd_ent_simps [simp]:
  "swaptab (upd_ent s f st) = (swaptab st)[s := f (swaptab st ! s)]" "nextswap (upd_ent s f st) = nextswap st"
  "swapwant (upd_ent s f st) = swapwant st" "availsmem (upd_ent s f st) = availsmem st" "ownswap (upd_ent s f st) = ownswap st"
  "comswapsmi (upd_ent s f st) = comswapsmi st" "swapdev (upd_ent s f st) = swapdev st" "t_minasmem (upd_ent s f st) = t_minasmem st"
  "sw_error (upd_ent s f st) = sw_error st"
  by (simp_all add: upd_ent_def)

lemma upd_ent_twice: "s < length (swaptab st) \<Longrightarrow> upd_ent s f (upd_ent s g st) = upd_ent s (f \<circ> g) st"
  by (simp add: upd_ent_def)

text \<open>An entry \<^verbatim>\<open>swalloc\<close> may take pages of.\<close>

definition usable :: "swpt \<Rightarrow> bool" where
  "usable e \<longleftrightarrow> st_ucnt e \<noteq> None \<and> \<not> st_indel e"

lemma sw_search_spec:
  assumes "ownswap st" "0 < sz" "sw_ok st" "smi < MSFILES" "sw_search dl sz k smi st = (st', r)"
  shows "case r of
      None \<Rightarrow> st' = st \<and> (\<forall>i<k. usable (swaptab st ! ((smi + i) mod MSFILES)) \<longrightarrow>
        find (free_run (counts (swaptab st ! ((smi + i) mod MSFILES))) sz) (sw_order (swaptab st ! ((smi + i) mod MSFILES)) sz) = None)
    | Some (s, pg) \<Rightarrow> s < MSFILES \<and> usable (swaptab st ! s) \<and>
        (\<exists>b. find (free_run (counts (swaptab st ! s)) sz) (sw_order (swaptab st ! s) sz) = Some b \<and> pg = int b + 1 \<and>
             st' = upd_ent s (st_last_update (\<lambda>_. b + sz)) st)"
  using assms(4,5)
proof (induction k arbitrary: smi)
  case 0
  then show ?case by simp
next
  case (Suc k)
  let ?next = "(smi + 1) mod MSFILES"
  let ?Q = "\<lambda>s. usable (swaptab st ! s) \<longrightarrow> find (free_run (counts (swaptab st ! s)) sz) (sw_order (swaptab st ! s) sz) = None"
  have split: "(\<forall>i<Suc k. Q ((smi + i) mod MSFILES)) \<longleftrightarrow> Q smi \<and> (\<forall>i<k. Q ((?next + i) mod MSFILES))" for Q
    using Suc.prems(1) by (simp add: All_less_Suc2 mod_simps algebra_simps del: One_nat_def) (simp add: add.commute)
  show ?case
  proof (cases "usable (swaptab st ! smi) \<and> find (free_run (counts (swaptab st ! smi)) sz) (sw_order (swaptab st ! smi) sz) \<noteq> None")
    case True
    with Suc.prems show ?thesis
      by (auto simp: usable_def swapfind_find [OF assms(1,2)])
  next
    case False
    then have "sw_search dl sz k ?next st = (st', r)"
      using Suc.prems(2) by (auto simp: usable_def swapfind_find [OF assms(1,2)] split: if_splits)
    from Suc.IH [OF _ this] have ih: "case r of None \<Rightarrow> st' = st \<and> (\<forall>i<k. ?Q ((?next + i) mod MSFILES)) | Some _ \<Rightarrow> True"
      and some: "r \<noteq> None \<Longrightarrow> ?thesis" by (auto split: option.splits)
    have "?Q smi" using False by auto
    with ih split [of ?Q] some show ?thesis by (cases r) simp_all
  qed
qed

text \<open>The entry found is the first with such a run, going round the table.\<close>

definition sw_ring :: "nat \<Rightarrow> nat \<Rightarrow> nat list" where
  "sw_ring smi k = map (\<lambda>i. (smi + i) mod MSFILES) [0..<k]"

definition has_run :: "swsys \<Rightarrow> nat \<Rightarrow> nat \<Rightarrow> bool" where
  "has_run st sz s \<longleftrightarrow> usable (swaptab st ! s) \<and> find (free_run (counts (swaptab st ! s)) sz) (sw_order (swaptab st ! s) sz) \<noteq> None"

lemma sw_ring_Suc: "smi < MSFILES \<Longrightarrow> sw_ring smi (Suc k) = smi # sw_ring ((smi + 1) mod MSFILES) k"
  unfolding sw_ring_def upt_conv_Cons [OF zero_less_Suc] by (simp add: map_Suc_upt [symmetric] mod_simps del: upt_Suc map_Suc_upt)

lemma sw_search_first:
  assumes "ownswap st" "0 < sz" "sw_ok st" "smi < MSFILES" "sw_search dl sz k smi st = (st', r)"
  shows "find (has_run st sz) (sw_ring smi k) = map_option fst r"
  using assms(4,5)
proof (induction k arbitrary: smi)
  case 0
  then show ?case by (auto simp: sw_ring_def)
next
  case (Suc k)
  show ?case
  proof (cases "has_run st sz smi")
    case True
    with Suc.prems show ?thesis
      by (auto simp: sw_ring_Suc has_run_def usable_def swapfind_find [OF assms(1,2)])
  next
    case False
    then have "sw_search dl sz k ((smi + 1) mod MSFILES) st = (st', r)"
      using Suc.prems(2) by (auto simp: has_run_def usable_def swapfind_find [OF assms(1,2)] split: if_splits)
    from Suc.IH [OF _ this] show ?thesis using False Suc.prems(1) by (simp add: sw_ring_Suc)
  qed
qed

section \<open>Allocation\<close>

text \<open>The counts with \<open>k\<close> pages from \<open>b\<close> set to \<open>c\<close>, and the descriptors of the pages.\<close>

definition set_pages :: "nat \<Rightarrow> nat \<Rightarrow> u8 \<Rightarrow> u8 list \<Rightarrow> u8 list" where
  "set_pages b k c u = take b u @ replicate k c @ drop (b + k) u"

definition page_dbd :: "nat \<Rightarrow> int \<Rightarrow> nat \<Rightarrow> dbd" where
  "page_dbd smi blk i = \<lparr>dbd_type = DBD_SWAP, dbd_swpi = smi, dbd_blkno = blk + 8 * int i\<rparr>"

lemma set_pages_0 [simp]: "set_pages b 0 c u = u"
  by (simp add: set_pages_def)

lemma length_set_pages [simp]: "b + k \<le> length u \<Longrightarrow> length (set_pages b k c u) = length u"
  by (simp add: set_pages_def)

lemma set_pages_nth: "b + k \<le> length u \<Longrightarrow> i < length u \<Longrightarrow> set_pages b k c u ! i = (if b \<le> i \<and> i < b + k then c else u ! i)"
  by (auto simp: set_pages_def nth_append)

lemma set_pages_Suc: "b + k < length u \<Longrightarrow> (set_pages b k c u)[b + k := c] = set_pages b (Suc k) c u"
  by (rule nth_equalityI) (auto simp: set_pages_nth nth_list_update)

lemma zeros_set_pages:
  assumes "b + k \<le> length u" "free_run u k b" "c \<noteq> 0"
  shows "zeros (set_pages b k c u) + k = zeros u"
proof -
  have "take k (drop b u) = replicate k 0"
    using assms(1,2) by (intro nth_equalityI) (auto simp: free_run_def)
  then have "u = take b u @ replicate k 0 @ drop (b + k) u"
    by (metis add.commute append_take_drop_id drop_drop)
  then have "zeros u = zeros (take b u @ replicate k 0 @ drop (b + k) u)" by simp
  then show ?thesis using assms(3) by (simp add: zeros_def set_pages_def)
qed

lemma sw_fill:
  assumes "smi < length (swaptab st)" "st_ucnt (swaptab st ! smi) = Some u" "b + k \<le> length u"
    and "0 \<le> blk" "blk + 8 * int k \<le> 2 ^ 24"
  shows "foldl (sw_page smi b blk) (st, []) [0..<k] =
    (upd_ent smi (\<lambda>e. e\<lparr>st_ucnt := Some (set_pages b k 1 u)\<rparr>) st, map (page_dbd smi blk) [0..<k])"
  using assms(3,5)
proof (induction k)
  case 0
  have "(swaptab st ! smi)\<lparr>st_ucnt := Some u\<rparr> = swaptab st ! smi" using assms(2) by (cases "swaptab st ! smi") simp
  then show ?case by (cases st) (simp add: upd_ent_def)
next
  case (Suc k)
  have "push_bit DPPSHFT (int k) = 8 * int k" by (simp add: push_bit_eq_mult)
  then have "take_bit 24 (blk + push_bit DPPSHFT (int k)) = blk + 8 * int k"
    using Suc.prems assms(4) by (simp add: take_bit_int_eq_self_iff)
  with Suc show ?case
    using assms(1) set_pages_Suc [of b k u 1] by (simp add: sw_page_def upd_ent_twice page_dbd_def comp_def)
qed

text \<open>What an allocation of \<open>sz\<close> pages from page \<open>b\<close> of file \<open>s\<close> makes of the table.\<close>

definition taken :: "nat \<Rightarrow> nat \<Rightarrow> nat \<Rightarrow> swpt \<Rightarrow> swpt" where
  "taken s b sz e = e\<lparr>st_last := b + sz, st_nfpgs := st_nfpgs e - int sz, st_ucnt := map_option (set_pages b sz 1) (st_ucnt e)\<rparr>"

lemma ent_okD: "\<lbrakk>sw_ok st; s < MSFILES\<rbrakk> \<Longrightarrow> ent_ok (swaptab st ! s)"
  by (simp add: sw_ok_def)

lemma swalloc_spec:
  assumes "ownswap st" "0 < sz" "sw_ok st" "swalloc dl sz st = (st', Some (blk, ds))"
  obtains s b u where "s < MSFILES" "st_ucnt (swaptab st ! s) = Some u" "\<not> st_indel (swaptab st ! s)" "b + sz \<le> length u" "free_run u sz b"
    "find (has_run st sz) (sw_ring (nextswap st) MSFILES) = Some s"
    "find (free_run u sz) (sw_order (swaptab st ! s) sz) = Some b"
    "st' = (upd_ent s (taken s b sz) st)\<lparr>nextswap := (s + 1) mod MSFILES\<rparr>"
    "blk = st_swplo (swaptab st ! s) + 8 * int b" "ds = map (page_dbd s blk) [0..<sz]"
proof -
  obtain st1 r where se: "sw_search dl sz MSFILES (nextswap st) st = (st1, r)" by (cases "sw_search dl sz MSFILES (nextswap st) st") auto
  then obtain s pg where r: "r = Some (s, pg)" using assms(4) by (auto simp: swalloc_def split: option.splits)
  have "nextswap st < MSFILES" "length (swaptab st) = MSFILES" using assms(3) by (simp_all add: sw_ok_def)
  from sw_search_spec [OF assms(1-3) this(1) se] r obtain b where s: "s < MSFILES" "usable (swaptab st ! s)" "pg = int b + 1"
    "find (free_run (counts (swaptab st ! s)) sz) (sw_order (swaptab st ! s) sz) = Some b" and st1: "st1 = upd_ent s (st_last_update (\<lambda>_. b + sz)) st"
    by auto
  then obtain u where u: "st_ucnt (swaptab st ! s) = Some u" "counts (swaptab st ! s) = u" by (auto simp: usable_def counts_def)
  have e: "ent_ok (swaptab st ! s)" using assms(3) s(1) by (rule ent_okD)
  with find_order [OF s(4) e u(1)] u have b: "b + sz \<le> length u" "free_run u sz b" by simp_all
  define lo where "lo = st_swplo (swaptab st ! s)"
  have lo: "0 \<le> lo" "lo + 8 * int (length u) \<le> 2 ^ 24" using e u by (simp_all add: ent_ok_def lo_def)
  let ?blk = "lo + 8 * int b"
  let ?st2 = "upd_ent s (\<lambda>e. e\<lparr>st_nfpgs := st_nfpgs e - int sz\<rparr>) st1\<lparr>nextswap := (s + 1) mod MSFILES\<rparr>"
  have f: "foldl (sw_page s b ?blk) (?st2, []) [0..<sz] =
      (upd_ent s (\<lambda>e. e\<lparr>st_ucnt := Some (set_pages b sz 1 u)\<rparr>) ?st2, map (page_dbd s ?blk) [0..<sz])"
    by (rule sw_fill) (use b lo s(1) u \<open>length (swaptab st) = MSFILES\<close> in \<open>simp_all add: st1\<close>)
  have "swalloc_take sz s pg st1 = (upd_ent s (\<lambda>e. e\<lparr>st_ucnt := Some (set_pages b sz 1 u)\<rparr>) ?st2, ?blk, map (page_dbd s ?blk) [0..<sz])"
    using f s(1,3) \<open>length (swaptab st) = MSFILES\<close>
    by (simp add: swalloc_take_def Let_def lo_def st1 push_bit_eq_mult algebra_simps)
  then have "st' = upd_ent s (\<lambda>e. e\<lparr>st_ucnt := Some (set_pages b sz 1 u)\<rparr>) ?st2" "blk = ?blk" "ds = map (page_dbd s ?blk) [0..<sz]"
    using assms(4) se r by (auto simp: swalloc_def)
  moreover have "upd_ent s (\<lambda>e. e\<lparr>st_ucnt := Some (set_pages b sz 1 u)\<rparr>) ?st2 = (upd_ent s (taken s b sz) st)\<lparr>nextswap := (s + 1) mod MSFILES\<rparr>"
    using s(1) u \<open>length (swaptab st) = MSFILES\<close> by (simp add: upd_ent_def taken_def st1)
  ultimately show thesis
    using that [of s u b] s u b sw_search_first [OF assms(1-3) \<open>nextswap st < MSFILES\<close> se] r by (simp add: lo_def usable_def)
qed

lemma taken_ok:
  assumes "ent_ok e" "st_ucnt e = Some u" "b + sz \<le> length u" "free_run u sz b"
  shows "ent_ok (taken s b sz e)"
  using assms zeros_set_pages [of b sz u 1] by (simp add: ent_ok_def taken_def)

lemma sw_ok_upd:
  assumes "sw_ok st" "s < MSFILES \<Longrightarrow> ent_ok (f (swaptab st ! s))"
  shows "sw_ok (upd_ent s f st)"
proof (cases "s < MSFILES")
  case True
  then show ?thesis
    using assms set_update_subset_insert [of "swaptab st" s "f (swaptab st ! s)"] by (auto simp: sw_ok_def)
next
  case False
  with assms(1) have "(swaptab st)[s := f (swaptab st ! s)] = swaptab st" by (simp add: sw_ok_def list_update_beyond)
  with assms(1) show ?thesis by (simp add: sw_ok_def)
qed

section \<open>Freeing\<close>

lemma zeros_update:
  assumes "i < length u"
  shows "zeros (u[i := c]) + (if u ! i = 0 then 1 else 0) = zeros u + (if c = 0 then 1 else 0)"
proof -
  have "zeros u = zeros (take i u @ u ! i # drop (Suc i) u)" using assms by (simp add: id_take_nth_drop [symmetric])
  moreover have "zeros (u[i := c]) = zeros (take i u @ c # drop (Suc i) u)" using assms by (simp add: upd_conv_take_nth_drop)
  ultimately show ?thesis by (simp add: zeros_def)
qed

lemma sw_wake_simps [simp]:
  "swaptab (sw_wake st) = swaptab st" "nextswap (sw_wake st) = nextswap st" "ownswap (sw_wake st) = ownswap st"
  "comswapsmi (sw_wake st) = comswapsmi st" "swapwant (sw_wake st) = 0"
  by (simp_all add: sw_wake_def)

text \<open>The table after a page is freed.\<close>

lemma swfree1_swaptab:
  assumes "dbd_swpi d < length (swaptab st)" "st_ucnt (swaptab st ! dbd_swpi d) = Some u"
  shows "swaptab (fst (swfree1 d st)) =
      (swaptab st)[dbd_swpi d := (swaptab st ! dbd_swpi d)\<lparr>st_ucnt := Some (u[sw_pgnbr d st := u ! sw_pgnbr d st - 1]),
        st_nfpgs := st_nfpgs (swaptab st ! dbd_swpi d) + (if u ! sw_pgnbr d st = 1 then 1 else 0)\<rparr>]"
    "snd (swfree1 d st) = uint (u ! sw_pgnbr d st - 1)" "ownswap (fst (swfree1 d st)) = ownswap st" "nextswap (fst (swfree1 d st)) = nextswap st"
  using assms by (simp_all add: swfree1_def swpuse_def counts_def set_count_def Let_def)

lemma ents_upd: "\<lbrakk>\<forall>e\<in>set es. ent_ok e; ent_ok x\<rbrakk> \<Longrightarrow> \<forall>e\<in>set (es[i := x]). ent_ok e"
  using set_update_subset_insert [of es i x] by auto

lemma swfree1_ok:
  assumes "sw_ok st" "dbd_swpi d < MSFILES" "st_ucnt (swaptab st ! dbd_swpi d) = Some u" "sw_pgnbr d st < length u" "u ! sw_pgnbr d st \<noteq> 0"
  shows "sw_ok (fst (swfree1 d st))"
proof -
  let ?e = "swaptab st ! dbd_swpi d" and ?i = "sw_pgnbr d st"
  have len: "dbd_swpi d < length (swaptab st)" using assms(1,2) by (simp add: sw_ok_def)
  have "ent_ok ?e" using assms(1,2) by (rule ent_okD)
  then have "ent_ok (?e\<lparr>st_ucnt := Some (u[?i := u ! ?i - 1]), st_nfpgs := st_nfpgs ?e + (if u ! ?i = 1 then 1 else 0)\<rparr>)"
    using zeros_update [OF assms(4), of "u ! ?i - 1"] assms(3,5) by (auto simp: ent_ok_def)
  note one = ents_upd [OF _ this]
  show ?thesis
    unfolding sw_ok_def swfree1_swaptab(1) [OF len assms(3)] swfree1_swaptab(4) [OF len assms(3)]
    using assms(1) one [of "swaptab st" "dbd_swpi d"] unfolding sw_ok_def by (metis length_list_update)
qed

text \<open>The pages of an allocation, freed one by one.\<close>

definition part_freed :: "nat \<Rightarrow> nat \<Rightarrow> nat \<Rightarrow> u8 list \<Rightarrow> nat \<Rightarrow> swpt \<Rightarrow> swpt" where
  "part_freed s b sz u i e = (taken s b sz e)\<lparr>st_ucnt := Some (set_pages b i 0 (set_pages b sz 1 u)), st_nfpgs := st_nfpgs e - int sz + int i\<rparr>"

lemma free_pages:
  assumes "s < length (swaptab st)" "st_ucnt (swaptab st ! s) = Some u" "b + sz \<le> length u" "k \<le> sz"
    and "swaptab t = (swaptab st)[s := taken s b sz (swaptab st ! s)]" "blk = st_swplo (swaptab st ! s) + 8 * int b"
  shows "swaptab (foldl (\<lambda>t d. fst (swfree1 d t)) t (map (page_dbd s blk) [0..<k])) = (swaptab st)[s := part_freed s b sz u k (swaptab st ! s)]"
  using assms(4)
proof (induction k)
  case 0
  then show ?case using assms(2,5) by (cases "swaptab st ! s") (simp add: part_freed_def taken_def)
next
  case (Suc k)
  let ?t = "foldl (\<lambda>t d. fst (swfree1 d t)) t (map (page_dbd s blk) [0..<k])" and ?d = "page_dbd s blk k"
  let ?u = "set_pages b k 0 (set_pages b sz 1 u)"
  have tab: "swaptab ?t = (swaptab st)[s := part_freed s b sz u k (swaptab st ! s)]" using Suc by simp
  have sw: "dbd_swpi ?d = s" by (simp add: page_dbd_def)
  have e: "swaptab ?t ! s = part_freed s b sz u k (swaptab st ! s)" "s < length (swaptab ?t)" using tab assms(1) by simp_all
  have "st_swplo (swaptab ?t ! s) = st_swplo (swaptab st ! s)" "dbd_blkno ?d = blk + 8 * int k"
    unfolding e(1) by (simp_all add: page_dbd_def part_freed_def taken_def)
  then have "dbd_blkno ?d - st_swplo (swaptab ?t ! s) = 8 * (int b + int k)"
    using assms(6) by simp
  then have pg: "sw_pgnbr ?d ?t = b + k" by (simp add: sw_pgnbr_def sw drop_bit_eq_div)
  have one: "?u ! (b + k) = 1" using Suc.prems assms(3) by (simp add: set_pages_nth)
  have "swaptab (fst (swfree1 ?d ?t)) = (swaptab ?t)[s := (swaptab ?t ! s)\<lparr>st_ucnt := Some (?u[b + k := 0]), st_nfpgs := st_nfpgs (swaptab ?t ! s) + 1\<rparr>]"
    using swfree1_swaptab(1) [of ?d ?t ?u] e one by (simp add: sw pg part_freed_def)
  also have "\<dots> = (swaptab st)[s := part_freed s b sz u (Suc k) (swaptab st ! s)]"
    unfolding e(1) tab using set_pages_Suc [of b k "set_pages b sz 1 u" 0] Suc.prems assms(1,3)
    by (simp add: part_freed_def algebra_simps)
  finally show ?case by simp
qed

lemma set_pages_back: "free_run u sz b \<Longrightarrow> b + sz \<le> length u \<Longrightarrow> set_pages b sz 0 (set_pages b sz c u) = u"
proof (rule nth_equalityI)
  fix i assume "free_run u sz b" "b + sz \<le> length u" "i < length (set_pages b sz 0 (set_pages b sz c u))"
  moreover have "u ! i = 0" if "b \<le> i" "i < b + sz" using \<open>free_run u sz b\<close> that unfolding free_run_def
    by (metis le_add_diff_inverse nat_add_left_cancel_less)
  ultimately show "set_pages b sz 0 (set_pages b sz c u) ! i = u ! i" by (simp add: set_pages_nth)
qed simp

section \<open>The table\<close>

definition same_file :: "int \<Rightarrow> int \<Rightarrow> swpt \<Rightarrow> bool" where
  "same_file dev low e \<longleftrightarrow> st_ucnt e \<noteq> None \<and> st_dev e = dev \<and> st_swplo e = low"

lemma add_scan_Inl:
  "add_scan dev low es i smi = Inl (j, s) \<Longrightarrow> i \<le> j \<and> j < i + length es \<and> same_file dev low (es ! (j - i)) \<and> (\<forall>k<j - i. \<not> same_file dev low (es ! k))"
proof (induction es arbitrary: i smi)
  case Nil
  then show ?case by simp
next
  case (Cons e es)
  show ?case
  proof (cases "same_file dev low e")
    case True
    with Cons.prems show ?thesis by (auto simp: same_file_def)
  next
    case False
    then obtain smi' where r: "add_scan dev low es (Suc i) smi' = Inl (j, s)"
      using Cons.prems by (auto simp: same_file_def split: if_splits)
    from Cons.IH [OF r] False have "Suc i \<le> j" "j < Suc i + length es" "same_file dev low (es ! (j - Suc i))" "\<forall>k<j - Suc i. \<not> same_file dev low (es ! k)"
      by auto
    moreover have "j - i = Suc (j - Suc i)" using \<open>Suc i \<le> j\<close> by simp
    ultimately show ?thesis using False by (auto simp: nth_Cons less_Suc_eq_0_disj split: nat.split)
  qed
qed

lemma add_scan_Inr:
  "add_scan dev low es i smi = Inr s \<Longrightarrow> (\<forall>e\<in>set es. \<not> same_file dev low e) \<and>
    (if smi \<noteq> - 1 then s = smi else if \<exists>e\<in>set es. st_ucnt e = None then \<exists>k<length es. s = int (i + k) \<and> st_ucnt (es ! k) = None else s = - 1)"
proof (induction es arbitrary: i smi)
  case Nil
  then show ?case by simp
next
  case (Cons e es)
  show ?case
  proof (cases "st_ucnt e = None")
    case True
    then have "add_scan dev low es (Suc i) (if smi = - 1 then int i else smi) = Inr s" using Cons.prems by simp
    from Cons.IH [OF this] True show ?thesis by (auto simp: same_file_def split: if_splits intro: exI [of _ 0])
  next
    case False
    then have ne: "\<not> same_file dev low e" "add_scan dev low es (Suc i) smi = Inr s" using Cons.prems by (auto simp: same_file_def split: if_splits)
    have "\<exists>k<length (e # es). s = int (i + k) \<and> st_ucnt ((e # es) ! k) = None"
      if "k < length es" "s = int (Suc i + k)" "st_ucnt (es ! k) = None" for k
      using that by (intro exI [of _ "Suc k"]) simp
    with Cons.IH [OF ne(2)] ne(1) False show ?thesis by (auto split: if_splits)
  qed
qed

lemma del_scan_spec:
  "del_scan dev low es i smi ok = (s, k) \<Longrightarrow>
    k = ok + length (filter (\<lambda>e. usable e \<and> \<not> same_file dev low e) es) \<and>
    (if \<exists>e\<in>set es. same_file dev low e then \<exists>j<length es. s = int (i + j) \<and> same_file dev low (es ! j) else s = smi)"
proof (induction es arbitrary: i smi ok)
  case Nil
  then show ?case by simp
next
  case (Cons e es)
  obtain smi' ok' where r: "del_scan dev low es (Suc i) smi' ok' = (s, k)"
    and smi': "smi' = (if same_file dev low e then int i else smi)" and ok': "ok' = ok + (if usable e \<and> \<not> same_file dev low e then 1 else 0)"
    using Cons.prems by (auto simp: same_file_def usable_def split: if_splits)
  have later: "\<exists>j<length (e # es). s = int (i + j) \<and> same_file dev low ((e # es) ! j)"
    if "j < length es" "s = int (Suc i + j)" "same_file dev low (es ! j)" for j
    using that by (intro exI [of _ "Suc j"]) simp
  have "same_file dev low e \<Longrightarrow> s = int i \<Longrightarrow> \<exists>j<length (e # es). s = int (i + j) \<and> same_file dev low ((e # es) ! j)"
    by (intro exI [of _ 0]) simp
  with Cons.IH [OF r] later smi' ok' show ?case by (auto split: if_splits)
qed

section \<open>Properties\<close>

text \<open>A table with one file of four pages, all free, and one of three, of which the middle one is in use.\<close>

definition demo_swap :: swsys where
  "demo_swap =
     \<lparr>swaptab = [\<lparr>st_dev = 1, st_indel = False, st_ucnt = Some [0, 0, 0, 0], st_last = 2, st_swplo = 100, st_npgs = 4, st_nfpgs = 4\<rparr>,
        \<lparr>st_dev = 1, st_indel = False, st_ucnt = Some [0, 1, 0], st_last = 0, st_swplo = 200, st_npgs = 3, st_nfpgs = 2\<rparr>]
        @ replicate 14 \<lparr>st_dev = 0, st_indel = False, st_ucnt = None, st_last = 0, st_swplo = 0, st_npgs = 0, st_nfpgs = 0\<rparr>,
      nextswap = 0, swapwant = 0, availsmem = 50, comswapsmi = 0, ownswap = True, swapdev = 1, t_minasmem = 10,
      sw_error = None, sw_wakeups = 0, dl_freed = []\<rparr>"

lemma demo_swap_ok: "sw_ok demo_swap" "ownswap demo_swap" "length (swaptab demo_swap) = MSFILES"
  by (simp_all add: sw_ok_def ent_ok_def demo_swap_def zeros_def)

text \<open>
  The two loops of \<^verbatim>\<open>swapfind\<close> meet at \<^verbatim>\<open>st_last\<close>: a run across it is not found. Three of four free pages
  cannot be had, and \<^verbatim>\<open>st_last\<close> stays where it is.
\<close>

lemma swapfind_misses_middle: "free_run (counts (swaptab demo_swap ! 0)) 3 0" "swapfind (\<lambda>_. 0) 0 3 demo_swap = (demo_swap, 0)"
    "snd (swalloc (\<lambda>_. 0) 3 demo_swap) = None"
  by code_simp+

text \<open>
  C29: \<^verbatim>\<open>swalloc\<close> goes round the table once. It fails, changing nothing, exactly if no file that may be used has
  a free run at one of the places the two loops try; else it takes the first such run of the first such file, going round
  the table from \<^verbatim>\<open>nextswap\<close> on: the pages,
  all free before, have use count 1, the count of free pages and the positions advance, nothing else changes, and
  the descriptors name the blocks of the pages in order.
\<close>

theorem swalloc_takes_run:
  assumes "sw_ok st" "ownswap st" "0 < sz" "swalloc dl sz st = (st', r)"
  shows "sw_ok st' \<and>
    (case r of
       None \<Rightarrow> st' = st \<and> (\<forall>e\<in>set (swaptab st). usable e \<longrightarrow> find (free_run (counts e) sz) (sw_order e sz) = None)
     | Some (blk, ds) \<Rightarrow> \<exists>s b. s < MSFILES \<and> usable (swaptab st ! s) \<and>
         find (has_run st sz) (sw_ring (nextswap st) MSFILES) = Some s \<and>
         find (free_run (counts (swaptab st ! s)) sz) (sw_order (swaptab st ! s) sz) = Some b \<and>
         b + sz \<le> length (counts (swaptab st ! s)) \<and>
         st' = (upd_ent s (taken s b sz) st)\<lparr>nextswap := (s + 1) mod MSFILES\<rparr> \<and>
         blk = st_swplo (swaptab st ! s) + 8 * int b \<and> ds = map (page_dbd s blk) [0..<sz])"
proof (cases r)
  case None
  have n: "nextswap st < MSFILES" "length (swaptab st) = MSFILES" using assms(1) by (simp_all add: sw_ok_def)
  obtain st1 q where se: "sw_search dl sz MSFILES (nextswap st) st = (st1, q)" by (cases "sw_search dl sz MSFILES (nextswap st) st") auto
  with assms(4) None have "q = None" "st1 = st'" by (auto simp: swalloc_def split: option.splits prod.splits)
  with sw_search_spec [OF assms(2,3,1) n(1) se] have st': "st' = st"
    and all: "\<And>i. i < MSFILES \<Longrightarrow> usable (swaptab st ! ((nextswap st + i) mod MSFILES)) \<Longrightarrow>
      find (free_run (counts (swaptab st ! ((nextswap st + i) mod MSFILES))) sz) (sw_order (swaptab st ! ((nextswap st + i) mod MSFILES)) sz) = None"
    by auto
  have "find (free_run (counts e) sz) (sw_order e sz) = None" if "e \<in> set (swaptab st)" "usable e" for e
  proof -
    obtain j where j: "j < MSFILES" "e = swaptab st ! j" using \<open>e \<in> set (swaptab st)\<close> n(2) by (auto simp: in_set_conv_nth)
    have "(nextswap st + (j + MSFILES - nextswap st) mod MSFILES) mod MSFILES = j"
      using j(1) n(1) by (simp add: mod_add_right_eq)
    with all [of "(j + MSFILES - nextswap st) mod MSFILES"] j(2) that(2) show ?thesis by simp
  qed
  with None st' assms(1) show ?thesis by simp
next
  case (Some x)
  obtain blk ds where x: "x = (blk, ds)" by (cases x)
  from swalloc_spec [OF assms(2,3,1) assms(4) [unfolded Some x]] obtain s b u where s:
    "s < MSFILES" "st_ucnt (swaptab st ! s) = Some u" "\<not> st_indel (swaptab st ! s)" "b + sz \<le> length u" "free_run u sz b"
    "find (free_run u sz) (sw_order (swaptab st ! s) sz) = Some b" "find (has_run st sz) (sw_ring (nextswap st) MSFILES) = Some s"
    "st' = (upd_ent s (taken s b sz) st)\<lparr>nextswap := (s + 1) mod MSFILES\<rparr>"
    "blk = st_swplo (swaptab st ! s) + 8 * int b" "ds = map (page_dbd s blk) [0..<sz]" by metis
  have "sw_ok (upd_ent s (taken s b sz) st)"
    using assms(1) taken_ok [OF ent_okD [OF assms(1) s(1)] s(2,4,5)] by (rule sw_ok_upd)
  then have "sw_ok st'" by (simp add: s(8) sw_ok_def)
  moreover have "usable (swaptab st ! s)" "counts (swaptab st ! s) = u" using s(2,3) by (simp_all add: usable_def counts_def)
  ultimately show ?thesis
    unfolding Some x option.case prod.case using s by (intro conjI exI [of _ s] exI [of _ b]) simp_all
qed

lemma swalloc_takes_run_witness: "\<exists>st' blk ds. swalloc (\<lambda>_. 0) 2 demo_swap = (st', Some (blk, ds)) \<and> sw_ok st'"
proof -
  obtain st' r where r: "swalloc (\<lambda>_. 0) 2 demo_swap = (st', r)" by (cases "swalloc (\<lambda>_. 0) 2 demo_swap") auto
  have "snd (swalloc (\<lambda>_. 0) 2 demo_swap) \<noteq> None" by code_simp
  with r swalloc_takes_run [OF demo_swap_ok(1,2) _ r] show ?thesis by (cases r) auto
qed

text \<open>
  Freeing the pages \<^verbatim>\<open>swalloc\<close> has handed out, one by one, gives the use counts and the numbers of free
  pages of all swap files back as they were.
\<close>

theorem swalloc_swfree_roundtrip:
  assumes "sw_ok st" "ownswap st" "0 < sz" "swalloc dl sz st = (st', Some (blk, ds))"
  shows "map (\<lambda>e. (st_ucnt e, st_nfpgs e)) (swaptab (foldl (\<lambda>t d. fst (swfree1 d t)) st' ds)) = map (\<lambda>e. (st_ucnt e, st_nfpgs e)) (swaptab st)"
proof -
  from swalloc_spec [OF assms(2,3,1,4)] obtain s b u where s:
    "s < MSFILES" "st_ucnt (swaptab st ! s) = Some u" "b + sz \<le> length u" "free_run u sz b"
    "st' = (upd_ent s (taken s b sz) st)\<lparr>nextswap := (s + 1) mod MSFILES\<rparr>"
    "blk = st_swplo (swaptab st ! s) + 8 * int b" "ds = map (page_dbd s blk) [0..<sz]" by metis
  have len: "s < length (swaptab st)" using assms(1) s(1) by (simp add: sw_ok_def)
  have tab: "swaptab st' = (swaptab st)[s := taken s b sz (swaptab st ! s)]" by (simp add: s(5))
  have "swaptab (foldl (\<lambda>t d. fst (swfree1 d t)) st' ds) = (swaptab st)[s := part_freed s b sz u sz (swaptab st ! s)]"
    unfolding s(7) by (rule free_pages [OF len s(2,3) order_refl tab s(6)])
  then show ?thesis
    using set_pages_back [OF s(4,3), of 1] s(2) by (simp add: map_update part_freed_def list_update_same_conv len)
qed

lemma swalloc_swfree_roundtrip_witness:
  "map st_ucnt (swaptab (foldl (\<lambda>t d. fst (swfree1 d t)) (fst (swalloc (\<lambda>_. 0) 2 demo_swap)) (snd (the (snd (swalloc (\<lambda>_. 0) 2 demo_swap)))))) = map st_ucnt (swaptab demo_swap)"
proof -
  obtain st' r where r: "swalloc (\<lambda>_. 0) 2 demo_swap = (st', r)" by (cases "swalloc (\<lambda>_. 0) 2 demo_swap") auto
  have "snd (swalloc (\<lambda>_. 0) 2 demo_swap) \<noteq> None" by code_simp
  then obtain blk ds where r': "swalloc (\<lambda>_. 0) 2 demo_swap = (st', Some (blk, ds))" using r by (cases r) auto
  from arg_cong [OF swalloc_swfree_roundtrip [OF demo_swap_ok(1,2) _ r'], of "map fst"] show ?thesis by (simp add: r' comp_def)
qed

text \<open>
  \<^verbatim>\<open>swapdel\<close> refuses with EINVAL a file that is not in the table, with ENOMEM one besides which no other can
  be used, and with ENOMEM one whose pages are needed; then only the error is set. Otherwise it goes on to clear the file, which
  is marked now, so that no page of it is allocated, its pages withdrawn from the memory that may be promised unless they were before.
\<close>

theorem swapdel_refuses:
  assumes "length (swaptab st) = MSFILES"
  shows "if (\<forall>e\<in>set (swaptab st). \<not> same_file dev low e) then swapdel gs dev low st = (st\<lparr>sw_error := Some EINVAL\<rparr>, - 1)
    else if (\<forall>e\<in>set (swaptab st). usable e \<longrightarrow> same_file dev low e) then swapdel gs dev low st = (st\<lparr>sw_error := Some ENOMEM\<rparr>, - 1)
    else \<exists>s<MSFILES. same_file dev low (swaptab st ! s) \<and>
      swapdel gs dev low st =
        (if st_indel (swaptab st ! s) then swapdel_end gs s st
         else if availsmem st - st_npgs (swaptab st ! s) < t_minasmem st then (st\<lparr>sw_error := Some ENOMEM\<rparr>, - 1)
         else swapdel_end gs s (upd_ent s (\<lambda>e. e\<lparr>st_indel := True\<rparr>) (st\<lparr>availsmem := availsmem st - st_npgs (swaptab st ! s)\<rparr>)))"
proof -
  obtain s k where d: "del_scan dev low (swaptab st) 0 (- 1) 0 = (s, k)" by (cases "del_scan dev low (swaptab st) 0 (- 1) 0") auto
  note spec = del_scan_spec [OF d]
  consider "\<forall>e\<in>set (swaptab st). \<not> same_file dev low e"
    | "\<exists>e\<in>set (swaptab st). same_file dev low e" "\<forall>e\<in>set (swaptab st). usable e \<longrightarrow> same_file dev low e"
    | "\<exists>e\<in>set (swaptab st). same_file dev low e" "\<not> (\<forall>e\<in>set (swaptab st). usable e \<longrightarrow> same_file dev low e)" by blast
  then show ?thesis
  proof cases
    case 1
    with spec have "s = - 1" by auto
    with d 1 show ?thesis by (simp add: swapdel_def)
  next
    case 2
    then have "k = 0" "0 \<le> s" using spec by (auto simp: filter_empty_conv)
    with d 2 show ?thesis by (auto simp: swapdel_def)
  next
    case 3
    then have "k \<noteq> 0" using spec by (auto simp: filter_empty_conv)
    moreover obtain j where "j < MSFILES" "s = int j" "same_file dev low (swaptab st ! j)" using spec 3(1) assms by auto
    ultimately show ?thesis using d 3 by (auto simp: swapdel_def Let_def intro!: exI [of _ j])
  qed
qed

lemma swapdel_refuses_witness: "swapdel (\<lambda>_ s. s) 7 0 demo_swap = (demo_swap\<lparr>sw_error := Some EINVAL\<rparr>, - 1)"
  using swapdel_refuses [OF demo_swap_ok(3), of 7 0 "\<lambda>_ s. s"] by (simp add: demo_swap_def same_file_def)

text \<open>
  A file on the device of the root's swap space is not counted when it is added, but is when it is
  deleted: adding and deleting it loses its pages.
\<close>

lemma add_delete_loses_memory:
  "availsmem (fst (swapdel (\<lambda>_ s. s) 1 300 (fst (swapadd None True 1 300 40 demo_swap)))) = availsmem demo_swap - 5"
  by code_simp

text \<open>Taking a deleted file back returns the number of a free entry, or -1, in place of its own.\<close>

lemma swapadd_again_number:
  "snd (swapadd None True 1 200 24 (upd_ent 1 (\<lambda>e. e\<lparr>st_indel := True\<rparr>) demo_swap)) = - 1"
  by code_simp

end
