(* ===== verification/Spec2Isabelle.thy ===== *)
theory Spec2Isabelle
  imports Proc_Life Resource_Map Clist Callout Ipc_Perm Msg_Queue Sem_Set Record_Lock Inode_Trunc Inode_Cache File_Rdwr Buffer_Cache Swap_Alloc
begin

text \<open>
  The MUNIX kernel of the PCS Cadmus: a System V kernel in C for the 68020. This development models core
  parts of \<^verbatim>\<open>usr/sys/os\<close> and \<^verbatim>\<open>usr/sys/io\<close> (paths are relative to \<^verbatim>\<open>src/\<close>) and proves what makes them correct.

  The parts and how they work together. Processes call the file system through inodes. The inode table
  (\<^verbatim>\<open>iget\<close>, \<^verbatim>\<open>iput\<close>) holds the inodes in use; an inode is read from and written to the list of inodes on
  the disk; it maps the offsets of its file to disk blocks (\<^verbatim>\<open>bmap\<close>); blocks and inodes are allocated
  from the lists of free ones in the super block (\<^verbatim>\<open>alloc\<close>, \<^verbatim>\<open>ialloc\<close>); all blocks go through the cache of
  buffers (\<^verbatim>\<open>getblk\<close>, \<^verbatim>\<open>bread\<close>, \<^verbatim>\<open>bdwrite\<close>), which starts the transfers of the drivers; locks on parts of files
  are kept beside the inodes. A process that has to wait sleeps on a queue until it is woken, is then runnable, and is
  chosen by its priority; signals interrupt such sleeps. Beside the file system and the processes are the means of communication between processes (messages,
  semaphores), the map of free units they and others allocate memory from, the character lists of the terminals,
  the table of functions to call later, and the allocation of swap pages.

  Theories, each on a source file, with the definitions in the order of the code:

  \<^item> \<open>Kernel_Prelude\<close>: machine integers, error numbers, the collections of facts and generic lemmas. The outcome of a
    call up to its next \<^verbatim>\<open>sleep\<close> is a value: a result, an error, or the channel it sleeps on.
  \<^item> \<open>Run_Queue\<close> (\<^verbatim>\<open>slp.c\<close>, \<^verbatim>\<open>swtch.c\<close>, \<^verbatim>\<open>proc.h\<close>): the process table, the run queue and the sleep queues, linked through \<^verbatim>\<open>p_link\<close>;
    \<open>setrun\<close>, \<open>setrq\<close>, \<open>wakeup\<close>, \<open>swtch\<close> follow the links as the code does, and are proved to be operations on the lists the links stand for.
  \<^item> \<open>Proc_Signal\<close> (\<^verbatim>\<open>sig.c\<close>, \<^verbatim>\<open>sleep\<close>, \<^verbatim>\<open>kill\<close>, \<^verbatim>\<open>ssig\<close> and \<^verbatim>\<open>alarm\<close> of \<^verbatim>\<open>sys4.c\<close>, what \<^verbatim>\<open>clock.c\<close> does every second): sending and receiving
    signals, interruptible sleep; the invariant of the process table.
  \<^item> \<open>Proc_Life\<close> (\<^verbatim>\<open>fork.c\<close>, \<^verbatim>\<open>exit.c\<close>, \<^verbatim>\<open>sched.c\<close>, parts of \<^verbatim>\<open>ptrace.c\<close> and \<^verbatim>\<open>page.c\<close>): new processes and their numbers, exit status and
    \<^verbatim>\<open>wait\<close>, bringing processes in and putting them out; the step relation \<open>pstep\<close> of all this and its reachable states.
  \<^item> \<open>Resource_Map\<close> (\<^verbatim>\<open>malloc.c\<close>): a map is the list of its entries. Lemmas: which units are free, first fit, coalescing.
  \<^item> \<open>Clist\<close> (\<^verbatim>\<open>io/clist.c\<close>): blocks of characters linked in a heap; the heap refines a queue of bytes.
  \<^item> \<open>Callout\<close> (\<^verbatim>\<open>timeout.c\<close>, the part of \<^verbatim>\<open>clock.c\<close>): the table of differences of times; calls are made when they are due.
  \<^item> \<open>Ipc_Perm\<close> (\<^verbatim>\<open>ipc.c\<close>), \<open>Msg_Queue\<close> (\<^verbatim>\<open>msg.c\<close>, with its text in \<open>Resource_Map\<close>), \<open>Sem_Set\<close> (\<^verbatim>\<open>sem.c\<close>): tables of
    descriptors, identifiers, messages, semaphores and their undo entries.
  \<^item> \<open>Record_Lock\<close> (\<^verbatim>\<open>flock.c\<close>): the sorted list of locks of a file; exclusion of writers; the search for deadlocks.
  \<^item> \<open>Fs_Params\<close>, \<open>Fs_Alloc\<close> (\<^verbatim>\<open>param.h\<close>, \<^verbatim>\<open>alloc.c\<close>): the chain of free blocks is a stack; the stock of free inodes.
  \<^item> \<open>Bmap\<close> (\<^verbatim>\<open>subr.c\<close>): the trees of indirect blocks; a block of a file is reached along a path given by division.
  \<^item> \<open>Inode_Trunc\<close> (\<^verbatim>\<open>itrunc\<close> of \<^verbatim>\<open>iget.c\<close>): freeing all blocks of a file, over \<open>Bmap\<close> and \<open>Fs_Alloc\<close>.
  \<^item> \<open>Inode_Disk\<close> (\<^verbatim>\<open>iread\<close>, \<^verbatim>\<open>iupdat\<close>, \<^verbatim>\<open>stat1\<close> of \<^verbatim>\<open>iget.c\<close>): the inode on the disk, addresses in three bytes.
  \<^item> \<open>Inode_Cache\<close> (\<^verbatim>\<open>iget\<close>, \<^verbatim>\<open>iput\<close>, \<^verbatim>\<open>iflush\<close>, \<^verbatim>\<open>icheck\<close>, \<^verbatim>\<open>inoinit\<close> of \<^verbatim>\<open>iget.c\<close>, \<^verbatim>\<open>plock\<close> and \<^verbatim>\<open>prele\<close> of \<^verbatim>\<open>pipe.c\<close>, what
    \<^verbatim>\<open>smount\<close> and \<^verbatim>\<open>sumount\<close> of \<^verbatim>\<open>sys3.c\<close> do to mounts): the inode table as a step relation; its invariant covers chains, free list,
    references, mount counts and mounted-on inodes. Reading and writing inodes is that of \<open>Inode_Disk\<close>.
  \<^item> \<open>File_Rdwr\<close> (\<^verbatim>\<open>rdwri.c\<close>, \<^verbatim>\<open>iomove\<close> of \<^verbatim>\<open>move.c\<close>): reading and writing files over \<open>Bmap\<close>; a file is a function from offsets to bytes.
  \<^item> \<open>Buffer_Cache\<close> (\<^verbatim>\<open>bio.c\<close>): buffers, hash chains, free list and requests to the drivers; over any run of calls and
    transfers the cache refines a memory of blocks (locale \<open>memory_steps\<close>, interpreted on its steps).
  \<^item> \<open>Swap_Alloc\<close> (\<^verbatim>\<open>swapalloc.c\<close>): swap files, use counts of pages, runs of pages.

  Conventions. A structure is a record, a table indexed by a number a list or a function, a linked list the sequence of
  its elements unless the code's links matter (then a heap). Integers are words where they may wrap, otherwise
  integers with the wrapping written out. A call that sleeps ends with its channel; a resumed call starts where the code
  does. A copy to or from user memory may fault but does not wait for a page, and the writes of \<^verbatim>\<open>bmap\<close> succeed.
  In the process theories \<open>parked\<close> holds between the call of \<^verbatim>\<open>swtch\<close> and the return in the process chosen; \<open>None\<close> is a broken or endless chain. What is hardware, or not in the repository, is a parameter: which blocks can be read, which addresses fault,
  when a transfer ends. Processes are not preempted in the kernel, so that a call runs from one sleep to the next.

  Loops and bounds. Loops over tables are structural or come with a measure (\<open>doalloc_pick\<close>, \<open>getblk_loop\<close>, \<open>geteblk\<close>,
  \<open>flush_while\<close>, \<open>sw_scan\<close>). \<open>doialloc\<close>, \<open>ialloc\<close>, the deadlock search, \<open>iget_at\<close>, the loops over the links of processes, \<open>issig\<close>, \<open>np_pid\<close> and the loops of \<open>readi\<close> and \<open>writei\<close> are partial functions;
  that they return is part of the theorems about them, under the invariant of their component. No fuel is used. The geometry of
  file systems is the code's, for both sizes of blocks (512 and 1024 bytes).

  Not modelled, and why: saving and resuming contexts, regions, paging, swapping and faults (page tables and assembler; whether \<^verbatim>\<open>procdup\<close> finds
  memory is a parameter), what fork and exit do to files, directories, semaphores and accounting, core files and the frames of handlers, the network (Munet, TCP),
  whose peers are other machines, device drivers and the bitmap terminal (registers and controllers without their
  firmware), the diskless protocol, the boot ROM. Of the modelled files: pipes in \<^verbatim>\<open>rdwri.c\<close>, the block lists of
  executable files (\<^verbatim>\<open>i_map\<close>), opening devices and checking super blocks in \<^verbatim>\<open>smount\<close>. Planned next: pipes, path
  names (\<^verbatim>\<open>nami.c\<close>), the line discipline of terminals (\<^verbatim>\<open>tty.c\<close>), shared memory.
\<close>

section \<open>Writing and reading a file back\<close>

text \<open>
  C40: From \<^verbatim>\<open>writei\<close> down to the allocation of blocks and back up through \<^verbatim>\<open>readi\<close>: after a write of an ordinary file that has
  written everything, reading the same place of the file, into any part of memory, returns the bytes that were written,
  whatever blocks had to be allocated, holes filled and other parts of blocks kept.
\<close>

theorem write_read_file:
  assumes "fio_ok lrg (x_rd e) isz fsz st bs" "f_type st = IFREG" "0 \<le> u_cnt st" "u_err st = None"
    and "x_fault e = (\<lambda>_ _ _. None)" "x_resid e = (\<lambda>_. False)"
    and "size_ok lrg (st\<lparr>f_size := max (f_size st) (u_off st + u_cnt st)\<rparr>)" "u_off st + u_cnt st < 2 ^ 31"
    and "writei lrg e st = Some st1" "u_err st1 = None" "u_cnt st1 = 0"
  shows "\<exists>st2. readi lrg e (st1\<lparr>u_off := u_off st, u_cnt := u_cnt st, u_base := a\<rparr>) = Some st2 \<and> u_err st2 = None \<and> u_cnt st2 = 0 \<and>
    (\<forall>j. 0 \<le> j \<and> j < u_cnt st \<longrightarrow> u_mem st2 (a + j) = u_mem st (u_base st + j))"
proof (cases "u_cnt st = 0")
  case True
  then show ?thesis using assms(10) by (auto simp: readi_def)
next
  case False
  have "writei lrg e st = wr_loop lrg e 0 st" using assms(1,2) by (auto simp: writei_def fio_ok_def)
  then obtain k bs' where w: "0 \<le> k" "fio_ok lrg (x_rd e) isz fsz st1 bs'" "wr_ends e lrg 0 st k st1 bs'"
    using wr_loop_ok [where n = 0, OF assms(1,3,4,8)] assms(9) by auto
  then have w: "0 \<le> k" "fio_ok lrg (x_rd e) isz fsz st1 bs'" "wrote lrg st k st1"
    using assms(10) by (auto simp: wr_ends_def faulted_def dev_failed_def)
  have k: "k = u_cnt st" using w(3) assms(11) by (simp add: wrote_def)
  let ?r = "st1\<lparr>u_off := u_off st, u_cnt := u_cnt st, u_base := a\<rparr>"
  have off: "0 \<le> u_off st" using assms(1) by (simp add: fio_ok_def)
  have s1: "f_type st1 = IFREG" "f_size st1 = max (f_size st) (u_off st + u_cnt st)" using w(3) assms(2,3) False by (simp_all add: wrote_def k)
  have "fio_ok lrg (x_rd e) isz fsz ?r bs'" using w(2) off assms(1) by (simp add: fio_ok_def)
  moreover have "size_ok lrg ?r" using assms(7) by (simp add: size_ok_def s1)
  ultimately obtain st2 where r: "rd_loop lrg e ?r = Some st2" "u_err st2 = None"
    "read_to lrg ?r (max 0 (min (u_cnt ?r) (f_size ?r - u_off ?r))) st2"
    using rd_loop_ok [of lrg e isz fsz ?r bs'] assms(3,5,6,10) False s1(1) by auto
  have full: "max 0 (min (u_cnt ?r) (f_size ?r - u_off ?r)) = u_cnt st" using assms(3) by (simp add: s1)
  have byte: "fbyte lrg ?r x = fbyte lrg st1 x" for x by (auto simp: fbyte_def split: option.split)
  have "u_mem st2 (a + j) = u_mem st (u_base st + j)" if "0 \<le> j" "j < u_cnt st" for j
    using r(3) that w(3) off unfolding full read_to_def wrote_def k byte by simp
  moreover have "readi lrg e ?r = rd_loop lrg e ?r" using off s1(1) False by (simp add: readi_def)
  ultimately show ?thesis using r unfolding full read_to_def by simp
qed

text \<open>A write of twenty bytes into the first block, a hole.\<close>

definition demo_first :: fio where "demo_first = demo_fio\<lparr>u_off := 40\<rparr>"

lemma demo_first_ok: "fio_ok False (x_rd File_Rdwr.demo_env) 28 200 demo_first (rev [30..39])"
  using demo_fio_ok by (simp add: fio_ok_def demo_first_def)

lemma demo_first_written: "\<exists>st1. writei False File_Rdwr.demo_env demo_first = Some st1 \<and> u_err st1 = None \<and> u_cnt st1 = 0"
proof -
  let ?e = "File_Rdwr.demo_env" and ?s = demo_first
  have v: "u_off ?s = 40" "u_cnt ?s = 20" "u_err ?s = None" "f_type ?s = IFREG" "f_lastr ?s = - 1" "f_bm ?s = demo_bm" "x_rd ?e = (\<lambda>_. True)"
    "x_fault ?e True = (\<lambda>_ _. None)" by (simp_all add: demo_first_def demo_fio_def File_Rdwr.demo_env_def)
  have "fst (bmap False (\<lambda>_. True) False (fio_rq demo_first) (- 1) demo_bm) = Done 39" by code_simp
  then obtain u bm where run: "bmap False (x_rd ?e) False (fio_rq ?s) (f_lastr ?s) (f_bm ?s) = (Done 39, u, bm)"
    unfolding v by (metis prod.collapse)
  have "u_pbsize u = 20" using bmap_extent [OF run] by (simp add: fio_rq_def v fsBSIZE_def fsBOFF_def)
  moreover have nf: "\<not> faulted ?e False ?s k s'" "\<not> dev_failed ?e False ?s k s'" for k s'
    by (simp_all add: faulted_def dev_failed_def wr_fails_def File_Rdwr.demo_env_def)
  moreover from wr_step [where l = 0 and x = None, OF demo_first_ok _ _ _ run] v nf
  have "u_err (wr_block False ?e 39 u bm ?s) = None" "wrote False ?s (u_pbsize u) (wr_block False ?e 39 u bm ?s)" by auto
  ultimately have "u_err (wr_block False ?e 39 u bm ?s) = None" "u_cnt (wr_block False ?e 39 u bm ?s) = 0" by (simp_all add: wrote_def v)
  moreover from this have "wr_loop False ?e (u_pbsize u) (wr_block False ?e 39 u bm ?s) = Some (wr_block False ?e 39 u bm ?s)"
    by (subst wr_loop.simps) simp
  moreover have "wr_loop False ?e 0 ?s = wr_loop False ?e (u_pbsize u) (wr_block False ?e 39 u bm ?s)"
    by (subst wr_loop.simps) (simp add: run [unfolded v] v)
  ultimately show ?thesis by (simp add: writei_def v)
qed

theorem write_read_file_witness:
  "\<exists>st1 st2. writei False File_Rdwr.demo_env demo_first = Some st1 \<and>
     readi False File_Rdwr.demo_env (st1\<lparr>u_off := 40, u_cnt := 20, u_base := 1000\<rparr>) = Some st2 \<and> u_mem st2 1007 = 7"
proof -
  obtain st1 where st1: "writei False File_Rdwr.demo_env demo_first = Some st1" "u_err st1 = None" "u_cnt st1 = 0" using demo_first_written by blast
  have v: "u_off demo_first = 40" "u_cnt demo_first = 20" "u_base demo_first = 0" "u_mem demo_first b = word_of_int b" "f_size demo_first = 600"
    "f_type demo_first = IFREG" "0 \<le> u_cnt demo_first" "u_err demo_first = None" for b by (simp_all add: demo_first_def demo_fio_def)
  have e: "x_fault File_Rdwr.demo_env = (\<lambda>_ _ _. None)" "x_resid File_Rdwr.demo_env = (\<lambda>_. False)" by (simp_all add: File_Rdwr.demo_env_def)
  have "size_ok False (demo_first\<lparr>f_size := max (f_size demo_first) (u_off demo_first + u_cnt demo_first)\<rparr>)"
    using demo_size_ok by (simp add: size_ok_def v) (simp add: demo_fio_def)
  from write_read_file [OF demo_first_ok v(6-8) e this _ st1, of 1000] obtain st2 where
    "readi False File_Rdwr.demo_env (st1\<lparr>u_off := 40, u_cnt := 20, u_base := 1000\<rparr>) = Some st2"
    "\<forall>j. 0 \<le> j \<and> j < 20 \<longrightarrow> u_mem st2 (1000 + j) = word_of_int j" by (auto simp: v)
  moreover from this(2) [rule_format, of 7] have "u_mem st2 1007 = 7" by simp
  ultimately show ?thesis using st1(1) by auto
qed

end
